(* ===== verification/Kernel_Prelude.thy ===== *)
theory Kernel_Prelude
  imports Main "HOL-Library.Word" "HOL-Library.Monad_Syntax" "HOL-Library.Multiset"
begin

text \<open>
  Shared ground of the development: the names of the machine types of the 32-bit ARM
  target, the failure convention, and the generic lemmas the component theories use.

  Failure convention.  A C function that may stop the kernel is modelled by a function
  into \<open>option\<close>.  \<open>None\<close> means that the call does not return normally: an
  \<open>ASSERT\<close> failed (\<open>debug_panic\<close> in lib/debug.c loops forever), a null or unallocated
  pointer was dereferenced, an array was indexed out of its bounds, or a loop ran forever.
  A theorem that a call is \<open>Some\<close> of something therefore says that it terminates and
  that no assertion and no memory access in it fails.
\<close>

section \<open>Machine types\<close>

type_synonym u8 = "8 word"
type_synonym u32 = "32 word"
type_synonym u64 = "64 word"

text \<open>\<open>size_t\<close>, \<open>uintptr_t\<close>, \<open>unsigned\<close> and pointers are all 32 bits wide here.\<close>

type_synonym size_t = "32 word"
type_synonym addr = "32 word"

abbreviation NULL :: addr where
  "NULL \<equiv> 0"

text \<open>The \<open>ASSERT\<close> macro of lib/debug.h.\<close>

definition ASSERT :: "bool \<Rightarrow> unit option" where
  "ASSERT b = (if b then Some () else None)"

lemma ASSERT_simps [simp]: "ASSERT True = Some ()" "ASSERT False = None"
  by (simp_all add: ASSERT_def)

lemma ASSERT_eq_Some [simp]: "ASSERT b = Some u \<longleftrightarrow> b"
  by (simp add: ASSERT_def)

lemma ASSERT_eq_None [simp]: "ASSERT b = None \<longleftrightarrow> \<not> b"
  by (simp add: ASSERT_def)

lemma bind_ASSERT [simp]: "b \<Longrightarrow> Option.bind (ASSERT b) f = f ()"
  by simp

section \<open>Lemma collections\<close>

named_theorems heap_simps \<open>reading a heap after a write\<close>
named_theorems word_loop \<open>facts about counters of type word that run up to a bound\<close>

section \<open>Counters that run up to a bound\<close>

lemma unat_Suc_less [word_loop]:
  assumes "(i :: 'a :: len word) < n"
  shows "unat (i + 1) = Suc (unat i)"
proof -
  have "i + 1 \<noteq> 0"
    using assms max_word_wrap [of i] max_word_max [of n] by auto
  then show ?thesis by (simp add: unatSuc add.commute)
qed

lemma word_counter_decreases [word_loop]:
  "(i :: 'a :: len word) < n \<Longrightarrow> unat n - unat (i + 1) < unat n - unat i"
  by (simp add: unat_Suc_less word_less_nat_alt)

lemma word_counter_decreases_Suc [word_loop]:
  "(i :: 'a :: len word) < n \<Longrightarrow> unat n - Suc (unat i) < unat n - unat i"
  by (simp add: word_less_nat_alt)

text \<open>A sum below a word does not wrap.\<close>

lemma le_cnt_no_wrap:
  assumes "unat s + unat n \<le> unat (c :: 'a :: len word)"
  shows "unat (s + n) = unat s + unat n" "s \<le> c" "s + n \<le> c"
proof -
  show *: "unat (s + n) = unat s + unat n"
    using le_less_trans[OF assms unsigned_less] unat_add_lem by blast
  show "s \<le> c" "s + n \<le> c" using assms * by (simp_all add: word_le_nat_alt)
qed

section \<open>First and last elements\<close>

lemma distinct_butlast_last: "distinct zs \<Longrightarrow> y \<in> set (butlast zs) \<Longrightarrow> y \<noteq> last zs"
  by (induction zs) (auto split: if_splits)

lemma distinct_tl_hd: "distinct zs \<Longrightarrow> y \<in> set (tl zs) \<Longrightarrow> y \<noteq> hd zs"
  by (cases zs) auto

lemma in_set_tlD: "y \<in> set (tl zs) \<Longrightarrow> y \<in> set zs"
  by (cases zs) auto

end
