(* ===== verification/Kernel_List.thy ===== *)
theory Kernel_List
  imports Kernel_Prelude
begin

text \<open>
  The doubly linked lists of lib/kernel/list.h and lib/kernel/list.c, at the level of
  pointers.  A list element is a pair of links at an address; the store is a partial map
  from addresses to elements, so that following a null or unallocated pointer fails.
  \<open>struct list\<close> is two elements side by side: the head at the address of the list and
  the tail eight bytes later.  Lists embedded in other structures (the \<open>waiters\<close> of a
  semaphore, the buckets of a hash table) and elements embedded in threads, blocks or hash
  elements all live in this one store, so aliasing between them is part of the model.
  The abstraction is \<open>dlist h l xs\<close>: the list object at \<open>l\<close> is well formed in store
  \<open>h\<close> and holds exactly the elements \<open>xs\<close>, front to back.
\<close>

section \<open>Data and link access\<close>

record list_elem =
  le_prev :: addr
  le_next :: addr

type_synonym list_heap = "addr \<rightharpoonup> list_elem"

text \<open>\<open>struct list\<close>: \<open>&list->head\<close> is \<open>list\<close> itself, \<open>&list->tail\<close> is 8 bytes on.\<close>

definition head_of :: "addr \<Rightarrow> addr" where
  "head_of l = l"

definition tail_of :: "addr \<Rightarrow> addr" where
  "tail_of l = l + 8"

text \<open>The two fields of an element as lvalues: \<open>&e->prev\<close> and \<open>&e->next\<close>.\<close>

datatype link = Prev addr | Next addr

fun load :: "list_heap \<Rightarrow> link \<Rightarrow> addr option" where
  "load h (Prev p) = (if p = NULL then None else map_option le_prev (h p))"
| "load h (Next p) = (if p = NULL then None else map_option le_next (h p))"

fun store :: "list_heap \<Rightarrow> link \<Rightarrow> addr \<Rightarrow> list_heap option" where
  "store h (Prev p) q =
     (if p = NULL then None
      else case h p of None \<Rightarrow> None | Some e \<Rightarrow> Some (h(p \<mapsto> e\<lparr>le_prev := q\<rparr>)))"
| "store h (Next p) q =
     (if p = NULL then None
      else case h p of None \<Rightarrow> None | Some e \<Rightarrow> Some (h(p \<mapsto> e\<lparr>le_next := q\<rparr>)))"

section \<open>The operations\<close>

subsection \<open>Kinds of elements\<close>

definition is_head :: "list_heap \<Rightarrow> addr \<Rightarrow> bool option" where
  "is_head h elem =
     (if elem = NULL then Some False
      else do { p \<leftarrow> load h (Prev elem); n \<leftarrow> load h (Next elem);
                Some (p = NULL \<and> n \<noteq> NULL) })"

definition is_interior :: "list_heap \<Rightarrow> addr \<Rightarrow> bool option" where
  "is_interior h elem =
     (if elem = NULL then Some False
      else do { p \<leftarrow> load h (Prev elem); n \<leftarrow> load h (Next elem);
                Some (p \<noteq> NULL \<and> n \<noteq> NULL) })"

definition is_tail :: "list_heap \<Rightarrow> addr \<Rightarrow> bool option" where
  "is_tail h elem =
     (if elem = NULL then Some False
      else do { p \<leftarrow> load h (Prev elem); n \<leftarrow> load h (Next elem);
                Some (p \<noteq> NULL \<and> n = NULL) })"

subsection \<open>Initialisation and traversal\<close>

definition list_init :: "list_heap \<Rightarrow> addr \<Rightarrow> list_heap option" where
  "list_init h list = do {
     ASSERT (list \<noteq> NULL);
     h \<leftarrow> store h (Prev (head_of list)) NULL;
     h \<leftarrow> store h (Next (head_of list)) (tail_of list);
     h \<leftarrow> store h (Prev (tail_of list)) (head_of list);
     store h (Next (tail_of list)) NULL }"

definition list_begin :: "list_heap \<Rightarrow> addr \<Rightarrow> addr option" where
  "list_begin h list = do { ASSERT (list \<noteq> NULL); load h (Next (head_of list)) }"

definition list_next :: "list_heap \<Rightarrow> addr \<Rightarrow> addr option" where
  "list_next h elem = do {
     hd' \<leftarrow> is_head h elem; int \<leftarrow> is_interior h elem;
     ASSERT (hd' \<or> int);
     load h (Next elem) }"

definition list_end :: "addr \<Rightarrow> addr option" where
  "list_end list = do { ASSERT (list \<noteq> NULL); Some (tail_of list) }"

definition list_rbegin :: "list_heap \<Rightarrow> addr \<Rightarrow> addr option" where
  "list_rbegin h list = do { ASSERT (list \<noteq> NULL); load h (Prev (tail_of list)) }"

definition list_prev :: "list_heap \<Rightarrow> addr \<Rightarrow> addr option" where
  "list_prev h elem = do {
     int \<leftarrow> is_interior h elem; tl' \<leftarrow> is_tail h elem;
     ASSERT (int \<or> tl');
     load h (Prev elem) }"

definition list_rend :: "addr \<Rightarrow> addr option" where
  "list_rend list = do { ASSERT (list \<noteq> NULL); Some (head_of list) }"

definition list_head :: "addr \<Rightarrow> addr option" where
  "list_head list = do { ASSERT (list \<noteq> NULL); Some (head_of list) }"

definition list_tail :: "addr \<Rightarrow> addr option" where
  "list_tail list = do { ASSERT (list \<noteq> NULL); Some (tail_of list) }"

subsection \<open>Insertion and removal\<close>

definition list_insert :: "list_heap \<Rightarrow> addr \<Rightarrow> addr \<Rightarrow> list_heap option" where
  "list_insert h before elem = do {
     int \<leftarrow> is_interior h before; tl' \<leftarrow> is_tail h before;
     ASSERT (int \<or> tl');
     ASSERT (elem \<noteq> NULL);
     p \<leftarrow> load h (Prev before);
     h \<leftarrow> store h (Prev elem) p;
     h \<leftarrow> store h (Next elem) before;
     p \<leftarrow> load h (Prev before);
     h \<leftarrow> store h (Next p) elem;
     store h (Prev before) elem }"

definition list_splice :: "list_heap \<Rightarrow> addr \<Rightarrow> addr \<Rightarrow> addr \<Rightarrow> list_heap option" where
  "list_splice h before first lst = do {
     int \<leftarrow> is_interior h before; tl' \<leftarrow> is_tail h before;
     ASSERT (int \<or> tl');
     if first = lst then Some h
     else do {
       lst \<leftarrow> list_prev h lst;
       fi \<leftarrow> is_interior h first; ASSERT fi;
       li \<leftarrow> is_interior h lst; ASSERT li;
       \<comment> \<open>Cleanly remove FIRST...LAST from its current list.\<close>
       p \<leftarrow> load h (Prev first); n \<leftarrow> load h (Next lst);
       h \<leftarrow> store h (Next p) n;
       n \<leftarrow> load h (Next lst); p \<leftarrow> load h (Prev first);
       h \<leftarrow> store h (Prev n) p;
       \<comment> \<open>Splice FIRST...LAST into new list.\<close>
       p \<leftarrow> load h (Prev before);
       h \<leftarrow> store h (Prev first) p;
       h \<leftarrow> store h (Next lst) before;
       p \<leftarrow> load h (Prev before);
       h \<leftarrow> store h (Next p) first;
       store h (Prev before) lst } }"

definition list_push_front :: "list_heap \<Rightarrow> addr \<Rightarrow> addr \<Rightarrow> list_heap option" where
  "list_push_front h list elem = do { b \<leftarrow> list_begin h list; list_insert h b elem }"

definition list_push_back :: "list_heap \<Rightarrow> addr \<Rightarrow> addr \<Rightarrow> list_heap option" where
  "list_push_back h list elem = do { e \<leftarrow> list_end list; list_insert h e elem }"

definition list_remove :: "list_heap \<Rightarrow> addr \<Rightarrow> (addr \<times> list_heap) option" where
  "list_remove h elem = do {
     int \<leftarrow> is_interior h elem; ASSERT int;
     p \<leftarrow> load h (Prev elem); n \<leftarrow> load h (Next elem);
     h \<leftarrow> store h (Next p) n;
     n \<leftarrow> load h (Next elem); p \<leftarrow> load h (Prev elem);
     h \<leftarrow> store h (Prev n) p;
     n \<leftarrow> load h (Next elem);
     Some (n, h) }"

definition list_empty :: "list_heap \<Rightarrow> addr \<Rightarrow> bool option" where
  "list_empty h list = do { b \<leftarrow> list_begin h list; e \<leftarrow> list_end list; Some (b = e) }"

definition list_front :: "list_heap \<Rightarrow> addr \<Rightarrow> addr option" where
  "list_front h list = do {
     em \<leftarrow> list_empty h list; ASSERT (\<not> em); load h (Next (head_of list)) }"

definition list_back :: "list_heap \<Rightarrow> addr \<Rightarrow> addr option" where
  "list_back h list = do {
     em \<leftarrow> list_empty h list; ASSERT (\<not> em); load h (Prev (tail_of list)) }"

definition list_pop_front :: "list_heap \<Rightarrow> addr \<Rightarrow> (addr \<times> list_heap) option" where
  "list_pop_front h list = do {
     front \<leftarrow> list_front h list; (_, h) \<leftarrow> list_remove h front; Some (front, h) }"

definition list_pop_back :: "list_heap \<Rightarrow> addr \<Rightarrow> (addr \<times> list_heap) option" where
  "list_pop_back h list = do {
     back \<leftarrow> list_back h list; (_, h) \<leftarrow> list_remove h back; Some (back, h) }"

subsection \<open>Size and reversal\<close>

text \<open>The loop of \<open>list_size\<close>; on a cyclic chain it never ends, which is \<open>None\<close>.\<close>

partial_function (option) list_size_loop ::
  "list_heap \<Rightarrow> addr \<Rightarrow> addr \<Rightarrow> size_t \<Rightarrow> size_t option" where
  "list_size_loop h list e cnt = do {
     en \<leftarrow> list_end list;
     if e \<noteq> en then do { e' \<leftarrow> list_next h e; list_size_loop h list e' (cnt + 1) }
     else Some cnt }"

definition list_size :: "list_heap \<Rightarrow> addr \<Rightarrow> size_t option" where
  "list_size h list = do { b \<leftarrow> list_begin h list; list_size_loop h list b 0 }"

definition swap :: "list_heap \<Rightarrow> link \<Rightarrow> link \<Rightarrow> list_heap option" where
  "swap h a b = do {
     t \<leftarrow> load h a; v \<leftarrow> load h b; h \<leftarrow> store h a v; store h b t }"

partial_function (option) list_reverse_loop ::
  "list_heap \<Rightarrow> addr \<Rightarrow> addr \<Rightarrow> list_heap option" where
  "list_reverse_loop h list e = do {
     en \<leftarrow> list_end list;
     if e \<noteq> en then do {
       h \<leftarrow> swap h (Prev e) (Next e);
       e' \<leftarrow> load h (Prev e);
       list_reverse_loop h list e' }
     else Some h }"

definition list_reverse :: "list_heap \<Rightarrow> addr \<Rightarrow> list_heap option" where
  "list_reverse h list = do {
     em \<leftarrow> list_empty h list;
     if em then Some h
     else do {
       b \<leftarrow> list_begin h list;
       h \<leftarrow> list_reverse_loop h list b;
       h \<leftarrow> swap h (Next (head_of list)) (Prev (tail_of list));
       n \<leftarrow> load h (Next (head_of list));
       p \<leftarrow> load h (Prev (tail_of list));
       swap h (Prev n) (Next p) } }"

text \<open>The loops are executable.\<close>

declare list_size_loop.simps [code]
  list_reverse_loop.simps [code]

end
