(* ===== verification/Kernel_List_Rep.thy ===== *)
theory Kernel_List_Rep
  imports Kernel_List
begin

text \<open>
  What the list operations of lib/kernel/list.c do to the abstract list: the
  representation predicate \<open>dlist\<close>, the frame predicate \<open>modifies\<close>, one lemma per
  operation that computes it on a represented list, and the queue interface other
  components rely on, interpreted on these operations.
\<close>

section \<open>Reading and writing links\<close>

definition valid :: "list_heap \<Rightarrow> addr \<Rightarrow> bool" where
  "valid h p \<longleftrightarrow> p \<noteq> NULL \<and> p \<in> dom h"

definition prv :: "list_heap \<Rightarrow> addr \<Rightarrow> addr" where
  "prv h p = le_prev (the (h p))"

definition nxt :: "list_heap \<Rightarrow> addr \<Rightarrow> addr" where
  "nxt h p = le_next (the (h p))"

definition set_prv :: "list_heap \<Rightarrow> addr \<Rightarrow> addr \<Rightarrow> list_heap" where
  "set_prv h p q = h(p \<mapsto> (the (h p))\<lparr>le_prev := q\<rparr>)"

definition set_nxt :: "list_heap \<Rightarrow> addr \<Rightarrow> addr \<Rightarrow> list_heap" where
  "set_nxt h p q = h(p \<mapsto> (the (h p))\<lparr>le_next := q\<rparr>)"

lemma load_valid [heap_simps]:
  "valid h p \<Longrightarrow> load h (Prev p) = Some (prv h p)"
  "valid h p \<Longrightarrow> load h (Next p) = Some (nxt h p)"
  by (auto simp: valid_def prv_def nxt_def)

lemma store_valid [heap_simps]:
  "valid h p \<Longrightarrow> store h (Prev p) q = Some (set_prv h p q)"
  "valid h p \<Longrightarrow> store h (Next p) q = Some (set_nxt h p q)"
  by (auto simp: valid_def set_prv_def set_nxt_def)

lemma prv_set [heap_simps]:
  "prv (set_prv h p q) x = (if x = p then q else prv h x)"
  "prv (set_nxt h p q) x = prv h x"
  by (auto simp: prv_def set_prv_def set_nxt_def)

lemma nxt_set [heap_simps]:
  "nxt (set_nxt h p q) x = (if x = p then q else nxt h x)"
  "nxt (set_prv h p q) x = nxt h x"
  by (auto simp: nxt_def set_prv_def set_nxt_def)

lemma valid_set [heap_simps]:
  "valid h p \<Longrightarrow> valid (set_prv h p q) x = valid h x"
  "valid h p \<Longrightarrow> valid (set_nxt h p q) x = valid h x"
  by (auto simp: valid_def set_prv_def set_nxt_def)

lemma valid_not_NULL: "valid h p \<Longrightarrow> p \<noteq> NULL"
  by (simp add: valid_def)

declare load.simps [simp del] store.simps [simp del]

lemma is_head_valid [heap_simps]:
  "valid h p \<Longrightarrow> is_head h p = Some (prv h p = NULL \<and> nxt h p \<noteq> NULL)"
  by (simp add: is_head_def heap_simps valid_not_NULL)

lemma is_interior_valid [heap_simps]:
  "valid h p \<Longrightarrow> is_interior h p = Some (prv h p \<noteq> NULL \<and> nxt h p \<noteq> NULL)"
  by (simp add: is_interior_def heap_simps valid_not_NULL)

lemma is_tail_valid [heap_simps]:
  "valid h p \<Longrightarrow> is_tail h p = Some (prv h p \<noteq> NULL \<and> nxt h p = NULL)"
  by (simp add: is_tail_def heap_simps valid_not_NULL)

lemma list_next_valid [heap_simps]:
  "valid h p \<Longrightarrow> nxt h p \<noteq> NULL \<Longrightarrow> list_next h p = Some (nxt h p)"
  by (cases "prv h p = NULL") (simp_all add: list_next_def heap_simps)

lemma list_prev_valid [heap_simps]:
  "valid h p \<Longrightarrow> prv h p \<noteq> NULL \<Longrightarrow> list_prev h p = Some (prv h p)"
  by (cases "nxt h p = NULL") (simp_all add: list_prev_def heap_simps)

section \<open>What an operation leaves alone\<close>

text \<open>\<open>modifies h h' S\<close>: from \<open>h\<close> to \<open>h'\<close> only elements in \<open>S\<close> may have changed,
  and no element was allocated or freed.\<close>

definition modifies :: "list_heap \<Rightarrow> list_heap \<Rightarrow> addr set \<Rightarrow> bool" where
  "modifies h h' S \<longleftrightarrow> (\<forall>p. p \<notin> S \<longrightarrow> h' p = h p) \<and> dom h' = dom h"

lemma modifies_refl [simp]: "modifies h h S"
  by (simp add: modifies_def)

lemma modifies_trans:
  "modifies h h' S \<Longrightarrow> modifies h' h'' T \<Longrightarrow> S \<subseteq> U \<Longrightarrow> T \<subseteq> U \<Longrightarrow> modifies h h'' U"
  unfolding modifies_def by (metis subsetD)

lemma modifies_mono: "modifies h h' S \<Longrightarrow> S \<subseteq> T \<Longrightarrow> modifies h h' T"
  by (auto simp: modifies_def)

lemma modifies_valid: "modifies h h' S \<Longrightarrow> valid h' p = valid h p"
  by (simp add: modifies_def valid_def)

lemma modifies_eq: "modifies h h' S \<Longrightarrow> p \<notin> S \<Longrightarrow> h' p = h p"
  by (simp add: modifies_def)

lemma modifies_set:
  "valid h p \<Longrightarrow> modifies h (set_prv h p q) {p}"
  "valid h p \<Longrightarrow> modifies h (set_nxt h p q) {p}"
  by (auto simp: modifies_def set_prv_def set_nxt_def valid_def)

lemma modifies_setI:
  "modifies h h' S \<Longrightarrow> valid h p \<Longrightarrow> p \<in> S \<Longrightarrow> modifies h (set_prv h' p q) S"
  "modifies h h' S \<Longrightarrow> valid h p \<Longrightarrow> p \<in> S \<Longrightarrow> modifies h (set_nxt h' p q) S"
  by (auto simp: modifies_def set_prv_def set_nxt_def valid_def)

section \<open>Chains and the representation predicate\<close>

fun linked :: "list_heap \<Rightarrow> addr list \<Rightarrow> bool" where
  "linked h (a # b # zs) \<longleftrightarrow> nxt h a = b \<and> prv h b = a \<and> linked h (b # zs)"
| "linked h _ \<longleftrightarrow> True"

lemma linked_split:
  "linked h (us @ a # vs) \<longleftrightarrow> linked h (us @ [a]) \<and> linked h (a # vs)"
proof (induction us)
  case Nil
  show ?case by simp
next
  case (Cons u us)
  then show ?case by (cases us) auto
qed

lemma linked_cong:
  "\<forall>x \<in> set (butlast zs). nxt h' x = nxt h x \<Longrightarrow> \<forall>x \<in> set (tl zs). prv h' x = prv h x \<Longrightarrow>
   linked h' zs = linked h zs"
proof (induction zs rule: induct_list012)
  case (3 a b zs)
  then show ?case by (cases zs) auto
qed auto

text \<open>Links of a chain stay within the chain.\<close>

lemma linked_nxt_mem: "linked h zs \<Longrightarrow> x \<in> set (butlast zs) \<Longrightarrow> nxt h x \<in> set (tl zs)"
proof (induction zs rule: induct_list012)
  case (3 a b zs)
  then show ?case by (cases zs) auto
qed auto

lemma linked_prv_mem: "linked h zs \<Longrightarrow> x \<in> set (tl zs) \<Longrightarrow> prv h x \<in> set (butlast zs)"
proof (induction zs rule: induct_list012)
  case (3 a b zs)
  then show ?case by (cases zs) auto
qed auto

definition nodes :: "addr \<Rightarrow> addr list \<Rightarrow> addr list" where
  "nodes l xs = head_of l # xs @ [tail_of l]"

definition dlist :: "list_heap \<Rightarrow> addr \<Rightarrow> addr list \<Rightarrow> bool" where
  "dlist h l xs \<longleftrightarrow>
     distinct (nodes l xs) \<and> list_all (valid h) (nodes l xs) \<and> linked h (nodes l xs) \<and>
     prv h (head_of l) = NULL \<and> nxt h (tail_of l) = NULL"

lemma set_nodes: "set (nodes l xs) = {head_of l, tail_of l} \<union> set xs"
  by (auto simp: nodes_def)

lemma dlist_cong:
  assumes "\<And>p. p \<in> set (nodes l xs) \<Longrightarrow> h' p = h p"
  shows "dlist h' l xs = dlist h l xs"
proof -
  have "linked h' (nodes l xs) = linked h (nodes l xs)"
    using assms by (intro linked_cong) (auto simp: nxt_def prv_def nodes_def dest: in_set_butlastD)
  moreover have "list_all (valid h') (nodes l xs) = list_all (valid h) (nodes l xs)"
    using assms by (intro list.pred_cong) (auto simp: valid_def dom_def)
  ultimately show ?thesis
    using assms by (simp add: dlist_def set_nodes prv_def nxt_def)
qed

lemma modifies_dlist:
  "modifies h h' S \<Longrightarrow> S \<inter> set (nodes l xs) = {} \<Longrightarrow> dlist h' l xs = dlist h l xs"
  by (rule dlist_cong) (auto simp: modifies_def)

lemma dlistD:
  assumes "dlist h l xs"
  shows "distinct (nodes l xs)" "\<And>p. p \<in> set (nodes l xs) \<Longrightarrow> valid h p"
    "linked h (nodes l xs)" "prv h (head_of l) = NULL" "nxt h (tail_of l) = NULL"
  using assms by (auto simp: dlist_def list_all_iff)

lemma dlist_ends:
  assumes "dlist h l xs"
  shows "valid h (head_of l)" "valid h (tail_of l)" "head_of l \<noteq> tail_of l" "l \<noteq> NULL"
    "head_of l \<noteq> NULL" "tail_of l \<noteq> NULL"
  using dlistD(1,2)[OF assms] by (auto simp: nodes_def valid_def head_of_def)

lemma dlist_valid: "dlist h l xs \<Longrightarrow> x \<in> set xs \<Longrightarrow> valid h x"
  by (auto dest: dlistD(2) simp: set_nodes)

text \<open>The neighbours of two adjacent nodes.\<close>

lemma dlist_adjacent:
  assumes "dlist h l xs" "nodes l xs = us @ a # b # vs"
  shows "nxt h a = b" "prv h b = a" "valid h a" "valid h b" "a \<noteq> b"
  using assms dlistD(2)[OF assms(1)] linked_split[of h us a "b # vs"]
  by (auto simp: dlist_def)

lemma dlist_interior:
  assumes "dlist h l xs" "x \<in> set xs"
  shows "prv h x \<noteq> NULL" "nxt h x \<noteq> NULL"
proof -
  obtain ys zs where xs: "xs = ys @ x # zs" using assms(2) by (auto dest: split_list)
  obtain us a where us: "head_of l # ys = us @ [a]" by (metis append_butlast_last_id list.discI)
  obtain b vs where vs: "zs @ [tail_of l] = b # vs" by (metis append_is_Nil_conv list.exhaust)
  have "nodes l xs = us @ a # x # b # vs" "nodes l xs = (us @ [a]) @ x # b # vs"
    using us vs by (simp_all add: nodes_def xs)
  then show "prv h x \<noteq> NULL" "nxt h x \<noteq> NULL"
    using dlist_adjacent[OF assms(1)] valid_not_NULL by metis+
qed

text \<open>A list object represents at most one abstract list.\<close>

lemma linked_unique:
  "linked h (a # xs @ [t]) \<Longrightarrow> linked h (a # ys @ [t]) \<Longrightarrow> t \<notin> set xs \<Longrightarrow> t \<notin> set ys \<Longrightarrow> xs = ys"
proof (induction xs arbitrary: a ys)
  case Nil
  then show ?case by (cases ys) auto
next
  case (Cons x xs)
  then show ?case by (cases ys) auto
qed

lemma dlist_unique:
  assumes "dlist h l xs" "dlist h l ys"
  shows "xs = ys"
  using dlistD(1,3)[OF assms(1)] dlistD(1,3)[OF assms(2)]
  by (intro linked_unique[of h "head_of l" xs "tail_of l" ys]) (auto simp: nodes_def)


section \<open>The operations on represented lists\<close>

lemma tail_neq_head [simp]: "tail_of l \<noteq> head_of l" "head_of l \<noteq> tail_of l"
  by (simp_all add: tail_of_def head_of_def)

lemma list_init_dlist:
  assumes "valid h l" "valid h (tail_of l)"
  shows "\<exists>h'. list_init h l = Some h' \<and> dlist h' l [] \<and> modifies h h' {head_of l, tail_of l}"
proof -
  have v: "valid h (head_of l)" using assms(1) by (simp add: head_of_def)
  let ?h1 = "set_prv h (head_of l) NULL"
  let ?h2 = "set_nxt ?h1 (head_of l) (tail_of l)"
  let ?h3 = "set_prv ?h2 (tail_of l) (head_of l)"
  let ?h4 = "set_nxt ?h3 (tail_of l) NULL"
  have "list_init h l = Some ?h4"
    using v assms(2) valid_not_NULL[OF assms(1)] by (simp add: list_init_def heap_simps)
  moreover have "dlist ?h4 l []"
    using v assms(2) by (simp add: dlist_def nodes_def heap_simps)
  moreover have "modifies h ?h4 {head_of l, tail_of l}"
    using v assms(2) by (intro modifies_setI modifies_refl) auto
  ultimately show ?thesis by blast
qed

lemma list_begin_dlist:
  "dlist h l xs \<Longrightarrow> list_begin h l = Some (hd (xs @ [tail_of l]))"
  using dlist_adjacent(1)[of h l xs "[]" "head_of l" "hd (xs @ [tail_of l])" "tl (xs @ [tail_of l])"]
    dlist_ends[of h l xs]
  by (simp add: list_begin_def heap_simps nodes_def)

lemma list_end_dlist: "dlist h l xs \<Longrightarrow> list_end l = Some (tail_of l)"
  using dlist_ends[of h l xs] by (simp add: list_end_def)

lemma list_rbegin_dlist:
  assumes "dlist h l xs"
  shows "list_rbegin h l = Some (last (head_of l # xs))"
proof -
  obtain us a where us: "head_of l # xs = us @ [a]" by (metis append_butlast_last_id list.discI)
  then have "nodes l xs = us @ a # tail_of l # []" by (simp add: nodes_def)
  then show ?thesis
    using dlist_adjacent(2)[OF assms] dlist_ends[OF assms] us
    by (simp add: list_rbegin_def heap_simps)
qed

text \<open>Insertion between two neighbours \<open>a\<close> and \<open>b\<close>: the links afterwards.\<close>

lemma list_insert_links:
  assumes b: "valid h b" "prv h b = a" and a: "valid h a" and e: "valid h e" "e \<noteq> a" "e \<noteq> b"
  shows "list_insert h b e =
     Some (set_prv (set_nxt (set_nxt (set_prv h e a) e b) a e) b e)"
  using assms valid_not_NULL[OF a] valid_not_NULL[OF e(1)]
  by (cases "nxt h b = NULL") (simp_all add: list_insert_def heap_simps)

lemma list_insert_dlist:
  assumes rep: "dlist h l (xs @ ys)" and e: "valid h e" "e \<notin> set (nodes l (xs @ ys))"
  shows "\<exists>h'. list_insert h (hd (ys @ [tail_of l])) e = Some h' \<and> dlist h' l (xs @ e # ys) \<and>
     modifies h h' (insert e (set (nodes l (xs @ ys))))"
proof -
  obtain us a where us: "head_of l # xs = us @ [a]" by (metis append_butlast_last_id list.discI)
  obtain b vs where vs: "ys @ [tail_of l] = b # vs" by (metis append_is_Nil_conv list.exhaust)
  have old: "nodes l (xs @ ys) = us @ a # b # vs"
    using us vs by (metis append.assoc append_Cons append_Nil nodes_def)
  have new: "nodes l (xs @ e # ys) = us @ a # e # b # vs"
    using us vs by (metis append.assoc append_Cons append_Nil nodes_def)
  note adj = dlist_adjacent[OF rep old]
  have ne: "e \<noteq> a" "e \<noteq> b" using e(2) old by auto
  let ?h = "set_prv (set_nxt (set_nxt (set_prv h e a) e b) a e) b e"
  have run: "list_insert h b e = Some ?h"
    by (rule list_insert_links) (use adj e ne in auto)
  have val: "valid ?h x = valid h x" for x
    using adj e by (simp add: heap_simps)
  have ends: "prv ?h (head_of l) = NULL" "nxt ?h (tail_of l) = NULL"
  proof -
    have "distinct ((head_of l # xs) @ b # vs)" "distinct ((us @ [a]) @ ys @ [tail_of l])"
      using dlistD(1)[OF rep]
      by (simp_all only: nodes_def us [symmetric] vs [symmetric] append_assoc append_Cons)
    then have "head_of l \<noteq> b" "tail_of l \<noteq> a" "e \<noteq> head_of l" "e \<noteq> tail_of l"
      using e(2) by (auto simp: set_nodes)
    then show "prv ?h (head_of l) = NULL" "nxt ?h (tail_of l) = NULL"
      using dlistD(4,5)[OF rep] by (simp_all add: heap_simps)
  qed
  have lnk: "linked ?h (us @ a # e # b # vs)"
  proof -
    have d: "distinct (us @ a # b # vs)" "e \<notin> set (us @ a # b # vs)"
      using dlistD(1)[OF rep] e(2) by (simp_all add: old)
    have "linked h (us @ [a])" "linked h (b # vs)"
      using dlistD(3)[OF rep] linked_split[of h us a "b # vs"] by (simp_all add: old)
    moreover have "linked ?h (us @ [a]) = linked h (us @ [a])"
      by (rule linked_cong) (use d in \<open>auto simp: heap_simps dest: list.set_sel(2)[rotated]\<close>)
    moreover have "linked ?h (b # vs) = linked h (b # vs)"
      by (rule linked_cong) (use d in \<open>auto simp: heap_simps dest: in_set_butlastD\<close>)
    ultimately show ?thesis
      using ne adj(5) by (subst linked_split) (simp add: heap_simps)
  qed
  have "dlist ?h l (xs @ e # ys)"
    using rep e ends lnk adj by (auto simp: dlist_def new old val list_all_iff)
  moreover have "modifies h ?h (insert e (set (nodes l (xs @ ys))))"
    using adj e old by (intro modifies_setI modifies_refl) auto
  ultimately show ?thesis using run vs by auto
qed


lemma list_push_back_dlist:
  assumes "dlist h l xs" "valid h e" "e \<notin> set (nodes l xs)"
  shows "\<exists>h'. list_push_back h l e = Some h' \<and> dlist h' l (xs @ [e]) \<and>
     modifies h h' (insert e (set (nodes l xs)))"
  using list_insert_dlist[of h l xs "[]" e] assms list_end_dlist[OF assms(1)]
  by (simp add: list_push_back_def)

lemma list_push_front_dlist:
  assumes "dlist h l xs" "valid h e" "e \<notin> set (nodes l xs)"
  shows "\<exists>h'. list_push_front h l e = Some h' \<and> dlist h' l (e # xs) \<and>
     modifies h h' (insert e (set (nodes l xs)))"
  using list_insert_dlist[of h l "[]" xs e] assms list_begin_dlist[OF assms(1)]
  by (simp add: list_push_front_def)

lemma list_remove_dlist:
  assumes rep: "dlist h l (xs @ e # ys)"
  shows "\<exists>h'. list_remove h e = Some (hd (ys @ [tail_of l]), h') \<and> dlist h' l (xs @ ys) \<and>
     modifies h h' (set (nodes l (xs @ ys)))"
proof -
  obtain us a where us: "head_of l # xs = us @ [a]" by (metis append_butlast_last_id list.discI)
  obtain b vs where vs: "ys @ [tail_of l] = b # vs" by (metis append_is_Nil_conv list.exhaust)
  have old: "nodes l (xs @ e # ys) = us @ a # e # b # vs"
    using us vs by (metis append.assoc append_Cons append_Nil nodes_def)
  have old': "nodes l (xs @ e # ys) = (us @ [a]) @ e # b # vs" by (simp add: old)
  have new: "nodes l (xs @ ys) = us @ a # b # vs"
    using us vs by (metis append.assoc append_Cons append_Nil nodes_def)
  note adj = dlist_adjacent[OF rep old] and adj' = dlist_adjacent[OF rep old']
  let ?h = "set_prv (set_nxt h a b) b a"
  have d: "distinct (us @ a # e # b # vs)" using dlistD(1)[OF rep] by (simp add: old)
  have run: "list_remove h e = Some (b, ?h)"
    using adj adj' d valid_not_NULL[OF adj(3)] valid_not_NULL[OF adj'(4)]
    by (simp add: list_remove_def heap_simps)
  have ends: "prv ?h (head_of l) = NULL" "nxt ?h (tail_of l) = NULL"
  proof -
    have "distinct ((head_of l # xs) @ e # b # vs)" "distinct ((us @ [a]) @ e # ys @ [tail_of l])"
      using dlistD(1)[OF rep]
      by (simp_all only: nodes_def us [symmetric] vs [symmetric] append_assoc append_Cons)
    then have "head_of l \<noteq> b" "tail_of l \<noteq> a" by auto
    then show "prv ?h (head_of l) = NULL" "nxt ?h (tail_of l) = NULL"
      using dlistD(4,5)[OF rep] by (simp_all add: heap_simps)
  qed
  have lnk: "linked ?h (us @ a # b # vs)"
  proof -
    have "linked h (us @ [a])" "linked h (b # vs)"
      using dlistD(3)[OF rep] linked_split[of h us a "e # b # vs"] by (simp_all add: old)
    moreover have "linked ?h (us @ [a]) = linked h (us @ [a])"
      by (rule linked_cong) (use d in \<open>auto simp: heap_simps dest: list.set_sel(2)[rotated]\<close>)
    moreover have "linked ?h (b # vs) = linked h (b # vs)"
      by (rule linked_cong) (use d in \<open>auto simp: heap_simps dest: in_set_butlastD\<close>)
    ultimately show ?thesis by (subst linked_split) (simp add: heap_simps)
  qed
  have val: "valid ?h x = valid h x" for x using adj adj' by (simp add: heap_simps)
  have "dlist ?h l (xs @ ys)"
    using rep ends lnk d by (auto simp: dlist_def new old val list_all_iff)
  moreover have "modifies h ?h (set (nodes l (xs @ ys)))"
    using adj adj' new by (intro modifies_setI modifies_refl) auto
  ultimately show ?thesis using run vs by auto
qed

lemma list_empty_dlist: "dlist h l xs \<Longrightarrow> list_empty h l = Some (xs = [])"
  by (cases xs) (auto simp: list_empty_def list_begin_dlist list_end_dlist dest!: dlistD(1) simp: nodes_def)

lemma list_front_dlist:
  "dlist h l xs \<Longrightarrow> list_front h l = (if xs = [] then None else Some (hd xs))"
  using list_begin_dlist[of h l xs] dlist_ends[of h l xs]
  by (auto simp: list_front_def list_empty_dlist list_begin_def)

lemma list_back_dlist:
  "dlist h l xs \<Longrightarrow> list_back h l = (if xs = [] then None else Some (last xs))"
  using list_rbegin_dlist[of h l xs] dlist_ends[of h l xs]
  by (auto simp: list_back_def list_empty_dlist list_rbegin_def)

lemma list_pop_front_dlist:
  assumes "dlist h l (x # xs)"
  shows "\<exists>h'. list_pop_front h l = Some (x, h') \<and> dlist h' l xs \<and> modifies h h' (set (nodes l xs))"
  using list_remove_dlist[of h l "[]" x xs] assms
  by (auto simp: list_pop_front_def list_front_dlist)

lemma list_pop_back_dlist:
  assumes "dlist h l (xs @ [x])"
  shows "\<exists>h'. list_pop_back h l = Some (x, h') \<and> dlist h' l xs \<and> modifies h h' (set (nodes l xs))"
  using list_remove_dlist[of h l xs x "[]"] assms
  by (auto simp: list_pop_back_def list_back_dlist)

lemma list_pop_empty:
  assumes "dlist h l []"
  shows "list_pop_front h l = None" "list_pop_back h l = None"
  using assms by (simp_all add: list_pop_front_def list_pop_back_def list_front_dlist list_back_dlist)

text \<open>Stepping through a represented list.\<close>

lemma list_next_dlist:
  assumes "dlist h l (xs @ x # ys)"
  shows "list_next h x = Some (hd (ys @ [tail_of l]))"
proof -
  have "nodes l (xs @ x # ys) = (head_of l # xs) @ x # hd (ys @ [tail_of l]) # tl (ys @ [tail_of l])"
    by (simp add: nodes_def)
  from dlist_adjacent[OF assms this] show ?thesis
    by (simp add: list_next_valid valid_not_NULL)
qed

lemma list_prev_dlist:
  assumes "dlist h l (xs @ ys)"
  shows "list_prev h (hd (ys @ [tail_of l])) = Some (last (head_of l # xs))"
proof -
  have "nodes l (xs @ ys) = (head_of l # xs) @ ys @ [tail_of l]" by (simp add: nodes_def)
  also have "head_of l # xs = butlast (head_of l # xs) @ [last (head_of l # xs)]"
    by (rule append_butlast_last_id [symmetric]) simp
  also have "ys @ [tail_of l] = hd (ys @ [tail_of l]) # tl (ys @ [tail_of l])"
    by (rule hd_Cons_tl [symmetric]) simp
  finally have "nodes l (xs @ ys) = butlast (head_of l # xs) @ last (head_of l # xs) #
      hd (ys @ [tail_of l]) # tl (ys @ [tail_of l])"
    by (simp only: append_assoc append_Cons append_Nil)
  from dlist_adjacent[OF assms this] show ?thesis
    by (simp add: list_prev_valid valid_not_NULL)
qed

lemma list_size_loop_dlist:
  "dlist h l (xs @ ys) \<Longrightarrow>
   list_size_loop h l (hd (ys @ [tail_of l])) cnt = Some (cnt + of_nat (length ys))"
proof (induction ys arbitrary: xs cnt)
  case Nil
  then show ?case by (simp add: list_size_loop.simps[of h l "tail_of l"] list_end_dlist)
next
  case (Cons y ys)
  have "y \<noteq> tail_of l" using dlistD(1)[OF Cons.prems] by (auto simp: nodes_def)
  moreover have "list_size_loop h l (hd (ys @ [tail_of l])) (cnt + 1) = Some (cnt + 1 + of_nat (length ys))"
    using Cons.IH[of "xs @ [y]"] Cons.prems by simp
  ultimately show ?case
    using Cons.prems
    by (simp add: list_size_loop.simps[of h l y] list_end_dlist list_next_dlist algebra_simps)
qed

lemma list_size_dlist: "dlist h l xs \<Longrightarrow> list_size h l = Some (of_nat (length xs))"
  using list_size_loop_dlist[of h l "[]" xs 0] by (simp add: list_size_def list_begin_dlist)

section \<open>Reversal\<close>

lemma linked_append:
  assumes "us \<noteq> []" "vs \<noteq> []"
  shows "linked h (us @ vs) \<longleftrightarrow>
     linked h us \<and> nxt h (last us) = hd vs \<and> prv h (hd vs) = last us \<and> linked h vs"
proof -
  obtain vs' where vs: "vs = hd vs # vs'" using assms(2) by (cases vs) auto
  have us: "us = butlast us @ [last us]" using assms(1) by simp
  have "linked h (butlast us @ last us # vs) \<longleftrightarrow> linked h (butlast us @ [last us]) \<and> linked h (last us # vs)"
    by (rule linked_split)
  moreover have "butlast us @ last us # vs = us @ vs" using us by (metis append.assoc append_Cons append_Nil)
  moreover have "linked h (last us # vs) \<longleftrightarrow>
      nxt h (last us) = hd vs \<and> prv h (hd vs) = last us \<and> linked h vs"
    by (subst (1 4) vs) simp
  ultimately show ?thesis using us by simp
qed

lemma linked_rev:
  assumes "linked h zs" "\<And>x. x \<in> set (tl zs) \<Longrightarrow> nxt h' x = prv h x"
    "\<And>x. x \<in> set (butlast zs) \<Longrightarrow> prv h' x = nxt h x"
  shows "linked h' (rev zs)"
  using assms
proof (induction zs rule: induct_list012)
  case (3 a b zs)
  have "linked h' (rev (b # zs))" by (rule "3.IH"(2)) (use "3.prems" in \<open>auto dest: list.set_sel(2)[rotated]\<close>)
  moreover have "nxt h' b = a" "prv h' a = b" using "3.prems" by simp_all
  ultimately show ?case by (simp add: linked_split[of h' "rev zs" b "[a]"])
qed simp_all

text \<open>Exchange of the two links of every element of a set.\<close>

definition flip_links :: "list_heap \<Rightarrow> addr set \<Rightarrow> list_heap" where
  "flip_links h S = (\<lambda>p. if p \<in> S
     then map_option (\<lambda>e. e\<lparr>le_prev := le_next e, le_next := le_prev e\<rparr>) (h p) else h p)"

lemma flip_links_simps [heap_simps]:
  "valid (flip_links h S) p = valid h p"
  "valid h p \<Longrightarrow> prv (flip_links h S) p = (if p \<in> S then nxt h p else prv h p)"
  "valid h p \<Longrightarrow> nxt (flip_links h S) p = (if p \<in> S then prv h p else nxt h p)"
  by (auto simp: flip_links_def valid_def prv_def nxt_def dom_def split: if_splits)

lemma flip_links_modifies: "modifies h (flip_links h S) S"
  by (auto simp: flip_links_def modifies_def dom_def split: if_splits)

lemma flip_links_insert:
  "valid h e \<Longrightarrow> e \<notin> S \<Longrightarrow>
   set_nxt (set_prv (flip_links h S) e (nxt h e)) e (prv h e) = flip_links h (insert e S)"
  by (rule ext) (auto simp: flip_links_def set_prv_def set_nxt_def nxt_def prv_def valid_def)

lemma swap_valid:
  assumes "valid h p" "valid h q"
  shows "swap h (Prev p) (Next q) = Some (set_nxt (set_prv h p (nxt h q)) q (prv h p))"
    "swap h (Next p) (Prev q) = Some (set_prv (set_nxt h p (prv h q)) q (nxt h p))"
  using assms by (simp_all add: swap_def heap_simps)

lemma list_reverse_loop_dlist:
  "dlist h l (xs @ ys) \<Longrightarrow>
   list_reverse_loop (flip_links h (set xs)) l (hd (ys @ [tail_of l])) =
     Some (flip_links h (set (xs @ ys)))"
proof (induction ys arbitrary: xs)
  case Nil
  then show ?case
    by (simp add: list_reverse_loop.simps[of "flip_links h (set xs)"] list_end_dlist)
next
  case (Cons y ys)
  have y: "y \<noteq> tail_of l" "y \<notin> set xs" "valid h y"
    using dlistD(1)[OF Cons.prems] dlist_valid[OF Cons.prems] by (auto simp: nodes_def)
  have nx: "nxt h y = hd (ys @ [tail_of l])"
    using list_next_dlist[OF Cons.prems] dlist_interior(2)[OF Cons.prems, of y] y(3)
    by (simp add: list_next_valid)
  have "list_reverse_loop (flip_links h (set xs)) l y =
      list_reverse_loop (flip_links h (set (xs @ [y]))) l (hd (ys @ [tail_of l]))"
    using y list_end_dlist[OF Cons.prems]
    by (simp add: list_reverse_loop.simps[of "flip_links h (set xs)"] swap_valid heap_simps
        flip_links_insert[of h y "set xs", unfolded nx] nx)
  also have "\<dots> = Some (flip_links h (set ((xs @ [y]) @ ys)))"
    by (rule Cons.IH) (use Cons.prems in simp)
  finally show ?case by simp
qed

lemma list_reverse_dlist:
  assumes rep: "dlist h l xs"
  shows "\<exists>h'. list_reverse h l = Some h' \<and> dlist h' l (rev xs) \<and> modifies h h' (set (nodes l xs))"
proof (cases "xs = []")
  case True
  then show ?thesis using rep by (simp add: list_reverse_def list_empty_dlist)
next
  case False
  let ?H = "head_of l" and ?T = "tail_of l"
  let ?f = "flip_links h (set xs)"
  let ?h1 = "set_prv (set_nxt ?f ?H (last xs)) ?T (hd xs)"
  let ?h2 = "set_nxt (set_prv ?h1 (last xs) ?H) (hd xs) ?T"
  have vx: "valid h x" if "x \<in> set xs" for x using dlist_valid[OF rep that] .
  note ends = dlist_ends[OF rep]
  have mem: "hd xs \<in> set xs" "last xs \<in> set xs" using False by auto
  have d: "distinct xs" "?H \<notin> set xs" "?T \<notin> set xs"
    using dlistD(1)[OF rep] by (auto simp: nodes_def)
  have ne0: "hd xs \<noteq> ?H" "last xs \<noteq> ?T" using mem d by auto
  have lk: "nxt h ?H = hd xs" "prv h (hd xs) = ?H" "nxt h (last xs) = ?T" "prv h ?T = last xs"
    "linked h xs"
    using dlistD(3)[OF rep] False linked_append[of "[?H]" "xs @ [?T]" h] linked_append[of xs "[?T]" h]
    by (simp_all add: nodes_def)
  have "list_reverse_loop h l (hd xs) = Some ?f"
    using list_reverse_loop_dlist[of h l "[]" xs] rep False by (simp add: flip_links_def)
  then have run: "list_reverse h l = Some ?h2"
    using rep False ends mem vx d lk ne0
    by (simp add: list_reverse_def list_empty_dlist list_begin_dlist swap_valid heap_simps)
  note ne = distinct_tl_hd[OF d(1)] and ne' = distinct_butlast_last[OF d(1)]
  have "linked ?h2 (rev xs)"
  proof (rule linked_rev[OF lk(5)])
    fix x
    show "nxt ?h2 x = prv h x" if "x \<in> set (tl xs)"
      using that ne[OF that] d vx list.set_sel(2)[OF False that] by (auto simp: heap_simps)
    show "prv ?h2 x = nxt h x" if "x \<in> set (butlast xs)"
      using that ne'[OF that] d vx in_set_butlastD[OF that] by (auto simp: heap_simps)
  qed
  moreover have "nxt ?h2 ?H = last xs" "prv ?h2 (last xs) = ?H" "nxt ?h2 (hd xs) = ?T" "prv ?h2 ?T = hd xs"
    using mem d by (auto simp: heap_simps)
  ultimately have "linked ?h2 (nodes l (rev xs))"
    using False linked_append[of "[?H]" "rev xs @ [?T]" ?h2] linked_append[of "rev xs" "[?T]" ?h2]
    by (simp add: nodes_def hd_rev last_rev)
  moreover have val: "valid ?h2 x = valid h x" for x
    using mem vx ends by (simp add: heap_simps)
  moreover have "prv ?h2 ?H = NULL" "nxt ?h2 ?T = NULL"
    using mem d ends dlistD(4,5)[OF rep] by (auto simp: heap_simps)
  ultimately have "dlist ?h2 l (rev xs)"
    using dlistD(1,2)[OF rep] by (auto simp: dlist_def list_all_iff nodes_def)
  moreover have "modifies h ?h2 (set (nodes l xs))"
    using mem vx ends flip_links_modifies[of h "set xs"]
    by (intro modifies_setI) (auto simp: set_nodes intro: modifies_mono)
  ultimately show ?thesis using run by blast
qed

section \<open>Splicing\<close>

lemma list_splice_links:
  assumes v: "valid h before" "valid h first" "valid h lst" "valid h s" "valid h p" "valid h b"
    and l: "prv h before = b" "prv h first = p" "prv h lst = s" "nxt h s = lst" "nxt h first \<noteq> NULL"
    "prv h s \<noteq> NULL"
    and ne: "first \<noteq> lst" "before \<noteq> lst" "before \<noteq> first" "s \<noteq> p"
  shows "list_splice h before first lst =
     Some (set_prv (set_nxt (set_nxt (set_prv (set_prv (set_nxt h p lst) lst p) first b) s before)
       b first) before s)"
proof -
  have nz: "before \<noteq> NULL" "first \<noteq> NULL" "lst \<noteq> NULL" "s \<noteq> NULL" "p \<noteq> NULL" "b \<noteq> NULL"
    using v valid_not_NULL by auto
  show ?thesis
    using v l ne nz
    by (cases "nxt h before = NULL") (simp_all add: list_splice_def heap_simps)
qed

text \<open>Four adjacent blocks, of which the middle two are to change places.\<close>

lemma splice_blocks:
  assumes d: "distinct (A @ Q @ S @ R)" and lk: "linked h (A @ Q @ S @ R)"
    and v: "\<And>x. x \<in> set (A @ Q @ S @ R) \<Longrightarrow> valid h x"
    and ne: "A \<noteq> []" "Q \<noteq> []" "S \<noteq> []" "R \<noteq> []"
  shows "\<exists>h'. list_splice h (hd Q) (hd S) (hd R) = Some h' \<and> linked h' (A @ S @ Q @ R) \<and>
     modifies h h' (set (A @ Q @ S @ R)) \<and> prv h' (hd A) = prv h (hd A) \<and>
     nxt h' (last R) = nxt h (last R)"
proof -
  have seg: "linked h A" "linked h Q" "linked h S" "linked h R"
    and l: "prv h (hd Q) = last A" "prv h (hd S) = last Q" "prv h (hd R) = last S"
    "nxt h (last A) = hd Q" "nxt h (last Q) = hd S" "nxt h (last S) = hd R"
    using lk ne linked_append[of A "Q @ S @ R" h] linked_append[of Q "S @ R" h] linked_append[of S R h]
    by auto
  have m: "hd A \<in> set A" "last A \<in> set A" "hd Q \<in> set Q" "last Q \<in> set Q" "hd S \<in> set S" "last S \<in> set S"
    "hd R \<in> set R" "last R \<in> set R"
    using ne by auto
  have x: "hd Q \<noteq> hd S" "hd Q \<noteq> hd R" "hd S \<noteq> hd R" "last S \<noteq> last Q" "last A \<noteq> last Q"
    "last A \<noteq> last S" "hd Q \<noteq> hd A" "hd S \<noteq> hd A" "hd R \<noteq> hd A"
    "last A \<noteq> last R" "last S \<noteq> last R" "last Q \<noteq> last R"
    using d m by auto
  have vm: "valid h (last A)" "valid h (hd Q)" "valid h (last Q)" "valid h (hd S)" "valid h (last S)"
    "valid h (hd R)"
    using v m by auto
  have nz: "nxt h (hd S) \<noteq> NULL" "prv h (last S) \<noteq> NULL"
  proof -
    have "nxt h (hd S) \<in> set (A @ Q @ S @ R)" "prv h (last S) \<in> set (A @ Q @ S @ R)"
      using linked_nxt_mem[OF lk, of "hd S"] linked_prv_mem[OF lk, of "last S"] ne m
      by (auto simp: butlast_append dest: in_set_butlastD in_set_tlD)
    then show "nxt h (hd S) \<noteq> NULL" "prv h (last S) \<noteq> NULL"
      using v valid_not_NULL by blast+
  qed
  define h' where "h' = set_prv (set_nxt (set_nxt (set_prv (set_prv (set_nxt h (last Q) (hd R)) (hd R)
      (last Q)) (hd S) (last A)) (last S) (hd Q)) (last A) (hd S)) (hd Q) (last S)"
  have run: "list_splice h (hd Q) (hd S) (hd R) = Some h'"
    unfolding h'_def by (rule list_splice_links) (use x nz l vm in auto)
  have nx: "nxt h' y = (if y = last A then hd S else if y = last S then hd Q
      else if y = last Q then hd R else nxt h y)" for y
    by (simp add: h'_def heap_simps)
  have pv: "prv h' y = (if y = hd Q then last S else if y = hd S then last A
      else if y = hd R then last Q else prv h y)" for y
    by (simp add: h'_def heap_simps)
  have keep: "linked h' B" if "B \<in> {A, Q, S, R}" for B
  proof -
    have "distinct B" "B \<noteq> []" using that d ne by auto
    note neq = distinct_butlast_last[OF this(1)] distinct_tl_hd[OF this(1)]
    have "linked h' B = linked h B"
    proof (intro linked_cong ballI)
      show "nxt h' y = nxt h y" if y: "y \<in> set (butlast B)" for y
        using \<open>B \<in> {A, Q, S, R}\<close> d m neq(1)[OF y] in_set_butlastD[OF y] by (auto simp: nx)
      show "prv h' y = prv h y" if y: "y \<in> set (tl B)" for y
        using \<open>B \<in> {A, Q, S, R}\<close> d m neq(2)[OF y] in_set_tlD[OF y] by (auto simp: pv)
    qed
    then show ?thesis using that seg by auto
  qed
  have "linked h' (A @ S @ Q @ R)"
    using keep ne x linked_append[of A "S @ Q @ R" h'] linked_append[of S "Q @ R" h']
      linked_append[of Q R h']
    by (simp add: nx pv)
  moreover have "modifies h h' (set (A @ Q @ S @ R))"
    unfolding h'_def by (intro modifies_setI modifies_refl) (use vm m in auto)
  moreover have "prv h' (hd A) = prv h (hd A)" "nxt h' (last R) = nxt h (last R)"
    using x by (auto simp: nx pv)
  ultimately show ?thesis using run by blast
qed

text \<open>Moving a non-empty block \<open>ss\<close> of a list in front of an earlier non-empty block \<open>qs\<close>.\<close>

lemma list_splice_within:
  assumes rep: "dlist h l (ps @ qs @ ss @ rs)" and ne: "qs \<noteq> []" "ss \<noteq> []"
  shows "\<exists>h'. list_splice h (hd qs) (hd ss) (hd (rs @ [tail_of l])) = Some h' \<and>
     dlist h' l (ps @ ss @ qs @ rs) \<and> modifies h h' (set (nodes l (ps @ qs @ ss @ rs)))"
proof -
  let ?A = "head_of l # ps" and ?R = "rs @ [tail_of l]"
  have n: "nodes l (ps @ qs @ ss @ rs) = ?A @ qs @ ss @ ?R" by (simp add: nodes_def)
  have n': "nodes l (ps @ ss @ qs @ rs) = ?A @ ss @ qs @ ?R" by (simp add: nodes_def)
  have "\<exists>h'. list_splice h (hd qs) (hd ss) (hd ?R) = Some h' \<and> linked h' (?A @ ss @ qs @ ?R) \<and>
     modifies h h' (set (?A @ qs @ ss @ ?R)) \<and> prv h' (hd ?A) = prv h (hd ?A) \<and>
     nxt h' (last ?R) = nxt h (last ?R)"
    by (rule splice_blocks) (use dlistD[OF rep] n ne in auto)
  then obtain h' where h': "list_splice h (hd qs) (hd ss) (hd ?R) = Some h'" "linked h' (?A @ ss @ qs @ ?R)"
     "modifies h h' (set (?A @ qs @ ss @ ?R))" "prv h' (hd ?A) = prv h (hd ?A)"
     "nxt h' (last ?R) = nxt h (last ?R)" by blast
  have "dlist h' l (ps @ ss @ qs @ rs)"
    using dlistD[OF rep] h'(2,4,5) modifies_valid[OF h'(3)]
    unfolding dlist_def n n' list_all_iff by auto
  then show ?thesis using h'(1,3) n by auto
qed

text \<open>Moving a non-empty block from one chain into another one.\<close>

lemma splice_blocks_across:
  assumes d: "distinct (A @ S @ R @ X @ Y)" and lk: "linked h (A @ S @ R)" "linked h (X @ Y)"
    and v: "\<And>x. x \<in> set (A @ S @ R @ X @ Y) \<Longrightarrow> valid h x"
    and ne: "A \<noteq> []" "S \<noteq> []" "R \<noteq> []" "X \<noteq> []" "Y \<noteq> []"
  shows "\<exists>h'. list_splice h (hd Y) (hd S) (hd R) = Some h' \<and> linked h' (A @ R) \<and> linked h' (X @ S @ Y) \<and>
     modifies h h' (set (A @ S @ R @ X @ Y)) \<and> prv h' (hd A) = prv h (hd A) \<and>
     nxt h' (last R) = nxt h (last R) \<and> prv h' (hd X) = prv h (hd X) \<and> nxt h' (last Y) = nxt h (last Y)"
proof -
  have seg: "linked h A" "linked h S" "linked h R" "linked h X" "linked h Y"
    and l: "prv h (hd S) = last A" "prv h (hd R) = last S" "nxt h (last A) = hd S" "nxt h (last S) = hd R"
    "prv h (hd Y) = last X" "nxt h (last X) = hd Y"
    using lk ne linked_append[of A "S @ R" h] linked_append[of S R h] linked_append[of X Y h]
    by auto
  have m: "hd A \<in> set A" "last A \<in> set A" "hd X \<in> set X" "last X \<in> set X" "hd S \<in> set S" "last S \<in> set S"
    "hd R \<in> set R" "last R \<in> set R" "hd Y \<in> set Y" "last Y \<in> set Y"
    using ne by auto
  have x: "hd Y \<noteq> hd S" "hd Y \<noteq> hd R" "hd S \<noteq> hd R" "last S \<noteq> last A" "last A \<noteq> last X" "last S \<noteq> last X"
    "hd Y \<noteq> hd A" "hd S \<noteq> hd A" "hd R \<noteq> hd A" "hd Y \<noteq> hd X" "hd S \<noteq> hd X" "hd R \<noteq> hd X"
    "last A \<noteq> last R" "last S \<noteq> last R" "last X \<noteq> last R" "last A \<noteq> last Y" "last S \<noteq> last Y"
    "last X \<noteq> last Y"
    using d m by auto
  have vm: "valid h (last A)" "valid h (hd Y)" "valid h (last X)" "valid h (hd S)" "valid h (last S)"
    "valid h (hd R)"
    using v m by auto
  have nz: "nxt h (hd S) \<noteq> NULL" "prv h (last S) \<noteq> NULL"
  proof -
    have "nxt h (hd S) \<in> set (A @ S @ R)" "prv h (last S) \<in> set (A @ S @ R)"
      using linked_nxt_mem[OF lk(1), of "hd S"] linked_prv_mem[OF lk(1), of "last S"] ne m
      by (auto simp: butlast_append dest: in_set_butlastD in_set_tlD)
    then show "nxt h (hd S) \<noteq> NULL" "prv h (last S) \<noteq> NULL"
      using v valid_not_NULL by auto
  qed
  define h' where "h' = set_prv (set_nxt (set_nxt (set_prv (set_prv (set_nxt h (last A) (hd R)) (hd R)
      (last A)) (hd S) (last X)) (last S) (hd Y)) (last X) (hd S)) (hd Y) (last S)"
  have run: "list_splice h (hd Y) (hd S) (hd R) = Some h'"
    unfolding h'_def by (rule list_splice_links) (use x nz l vm in auto)
  have nx: "nxt h' y = (if y = last X then hd S else if y = last S then hd Y
      else if y = last A then hd R else nxt h y)" for y
    by (simp add: h'_def heap_simps)
  have pv: "prv h' y = (if y = hd Y then last S else if y = hd S then last X
      else if y = hd R then last A else prv h y)" for y
    by (simp add: h'_def heap_simps)
  have keep: "linked h' B" if "B \<in> {A, S, R, X, Y}" for B
  proof -
    have "distinct B" "B \<noteq> []" using that d ne by auto
    note neq = distinct_butlast_last[OF this(1)] distinct_tl_hd[OF this(1)]
    have "linked h' B = linked h B"
    proof (intro linked_cong ballI)
      show "nxt h' y = nxt h y" if y: "y \<in> set (butlast B)" for y
        using \<open>B \<in> {A, S, R, X, Y}\<close> d m neq(1)[OF y] in_set_butlastD[OF y] by (auto simp: nx)
      show "prv h' y = prv h y" if y: "y \<in> set (tl B)" for y
        using \<open>B \<in> {A, S, R, X, Y}\<close> d m neq(2)[OF y] in_set_tlD[OF y] by (auto simp: pv)
    qed
    then show ?thesis using that seg by auto
  qed
  have "linked h' (A @ R)" "linked h' (X @ S @ Y)"
    using keep ne x linked_append[of A R h'] linked_append[of X "S @ Y" h'] linked_append[of S Y h']
    by (simp_all add: nx pv)
  moreover have "modifies h h' (set (A @ S @ R @ X @ Y))"
    unfolding h'_def by (intro modifies_setI modifies_refl) (use vm m in auto)
  moreover have "prv h' (hd A) = prv h (hd A)" "nxt h' (last R) = nxt h (last R)"
    "prv h' (hd X) = prv h (hd X)" "nxt h' (last Y) = nxt h (last Y)"
    using x by (auto simp: nx pv)
  ultimately show ?thesis using run by blast
qed

lemma dlistI:
  assumes "nodes l xs = zs" "distinct zs" "\<And>x. x \<in> set zs \<Longrightarrow> valid h x" "linked h zs"
    "prv h (hd zs) = NULL" "nxt h (last zs) = NULL"
  shows "dlist h l xs"
  using assms(2-6) unfolding assms(1) [symmetric]
  by (simp add: dlist_def list_all_iff) (simp add: nodes_def)

lemma dlist_nodesD:
  assumes "dlist h l xs" "nodes l xs = zs"
  shows "distinct zs" "\<And>x. x \<in> set zs \<Longrightarrow> valid h x" "linked h zs"
    "prv h (hd zs) = NULL" "nxt h (last zs) = NULL"
  using dlistD[OF assms(1)] unfolding assms(2) [symmetric] by (simp_all add: nodes_def)

lemma list_splice_across:
  assumes rep: "dlist h l (ps @ ss @ rs)" and rep': "dlist h l' (xs @ ys)" and ne: "ss \<noteq> []"
    and disj: "set (nodes l (ps @ ss @ rs)) \<inter> set (nodes l' (xs @ ys)) = {}"
  shows "\<exists>h'. list_splice h (hd (ys @ [tail_of l'])) (hd ss) (hd (rs @ [tail_of l])) = Some h' \<and>
     dlist h' l (ps @ rs) \<and> dlist h' l' (xs @ ss @ ys) \<and>
     modifies h h' (set (nodes l (ps @ ss @ rs)) \<union> set (nodes l' (xs @ ys)))"
proof -
  let ?A = "head_of l # ps" and ?R = "rs @ [tail_of l]" and ?X = "head_of l' # xs" and ?Y = "ys @ [tail_of l']"
  have n: "nodes l (ps @ ss @ rs) = ?A @ ss @ ?R" "nodes l' (xs @ ys) = ?X @ ?Y"
    "nodes l (ps @ rs) = ?A @ ?R" "nodes l' (xs @ ss @ ys) = ?X @ ss @ ?Y" by (simp_all add: nodes_def)
  note D = dlist_nodesD[OF rep n(1)] and D' = dlist_nodesD[OF rep' n(2)]
  have all: "distinct (?A @ ss @ ?R @ ?X @ ?Y)"
    using D(1) D'(1) disj unfolding n distinct_append set_append by blast
  have ne': "?A \<noteq> []" "?R \<noteq> []" "?X \<noteq> []" "?Y \<noteq> []" by simp_all
  have v: "valid h x" if "x \<in> set (?A @ ss @ ?R @ ?X @ ?Y)" for x
    using that D(2)[of x] D'(2)[of x] unfolding set_append by blast
  have "\<exists>h'. list_splice h (hd ?Y) (hd ss) (hd ?R) = Some h' \<and> linked h' (?A @ ?R) \<and>
     linked h' (?X @ ss @ ?Y) \<and> modifies h h' (set (?A @ ss @ ?R @ ?X @ ?Y)) \<and>
     prv h' (hd ?A) = prv h (hd ?A) \<and> nxt h' (last ?R) = nxt h (last ?R) \<and>
     prv h' (hd ?X) = prv h (hd ?X) \<and> nxt h' (last ?Y) = nxt h (last ?Y)"
    by (rule splice_blocks_across[OF all D(3) D'(3) _ ne'(1) ne ne'(2-4)]) (rule v)
  then obtain h' where h': "list_splice h (hd ?Y) (hd ss) (hd ?R) = Some h'" "linked h' (?A @ ?R)"
     "linked h' (?X @ ss @ ?Y)" "modifies h h' (set (?A @ ss @ ?R @ ?X @ ?Y))"
     "prv h' (hd ?A) = prv h (hd ?A)" "nxt h' (last ?R) = nxt h (last ?R)"
     "prv h' (hd ?X) = prv h (hd ?X)" "nxt h' (last ?Y) = nxt h (last ?Y)" by (elim exE conjE) (rule that, assumption+)
  have v': "valid h' x" if "x \<in> set (?A @ ss @ ?R @ ?X @ ?Y)" for x
    using v[OF that] modifies_valid[OF h'(4)] by simp
  have "dlist h' l (ps @ rs)"
  proof (rule dlistI[OF n(3)])
    show "distinct (?A @ ?R)" using D(1) unfolding distinct_append set_append by blast
    show "valid h' x" if "x \<in> set (?A @ ?R)" for x
      by (rule v') (use that in \<open>auto simp only: set_append\<close>)
    show "prv h' (hd (?A @ ?R)) = NULL" using D(4) h'(5) by (simp only: hd_append ne' if_False)
    show "nxt h' (last (?A @ ?R)) = NULL" using D(5) h'(6) by simp
  qed (rule h'(2))
  moreover have "dlist h' l' (xs @ ss @ ys)"
  proof (rule dlistI[OF n(4)])
    show "distinct (?X @ ss @ ?Y)" using all unfolding distinct_append set_append by blast
    show "valid h' x" if "x \<in> set (?X @ ss @ ?Y)" for x
      by (rule v') (use that in \<open>auto simp only: set_append\<close>)
    show "prv h' (hd (?X @ ss @ ?Y)) = NULL" using D'(4) h'(7) by (simp only: hd_append ne' if_False)
    show "nxt h' (last (?X @ ss @ ?Y)) = NULL" using D'(5) h'(8) by simp
  qed (rule h'(3))
  moreover have "modifies h h' (set (nodes l (ps @ ss @ rs)) \<union> set (nodes l' (xs @ ys)))"
    by (rule modifies_mono[OF h'(4)]) (auto simp: n)
  ultimately show ?thesis using h'(1) by blast
qed

text \<open>There are not enough addresses for the length of a list to wrap a \<open>size_t\<close>.\<close>

lemma dlist_length: "dlist h l xs \<Longrightarrow> length xs < 2 ^ 32"
proof -
  assume rep: "dlist h l xs"
  have "card (set (nodes l xs)) \<le> card (UNIV :: addr set)" by (rule card_mono) auto
  then have "length (nodes l xs) \<le> 2 ^ 32"
    using distinct_card[OF dlistD(1)[OF rep]] by (simp add: card_word)
  then show ?thesis by (simp add: nodes_def)
qed

section \<open>The queue interface\<close>

text \<open>
  What the scheduler, the semaphores and the allocator use of a list: a FIFO queue of
  elements in a shared store.  \<open>rep\<close> says which queue an object holds, \<open>room\<close> that an
  element may be appended, \<open>foot\<close> which part of the store belongs to the object.
\<close>

locale kernel_queue =
  fixes rep :: "'h \<Rightarrow> 'q \<Rightarrow> 'e list \<Rightarrow> bool"
    and room :: "'h \<Rightarrow> 'e \<Rightarrow> bool"
    and foot :: "'q \<Rightarrow> 'e list \<Rightarrow> 'e set"
    and changes :: "'h \<Rightarrow> 'h \<Rightarrow> 'e set \<Rightarrow> bool"
    and push :: "'h \<Rightarrow> 'q \<Rightarrow> 'e \<Rightarrow> 'h option"
    and pop :: "'h \<Rightarrow> 'q \<Rightarrow> ('e \<times> 'h) option"
    and is_empty :: "'h \<Rightarrow> 'q \<Rightarrow> bool option"
  assumes push: "rep h q xs \<Longrightarrow> room h e \<Longrightarrow> e \<notin> foot q xs \<Longrightarrow>
      \<exists>h'. push h q e = Some h' \<and> rep h' q (xs @ [e]) \<and> changes h h' (insert e (foot q xs))"
    and pop: "rep h q (x # xs) \<Longrightarrow>
      \<exists>h'. pop h q = Some (x, h') \<and> rep h' q xs \<and> changes h h' (foot q xs)"
    and pop_empty: "rep h q [] \<Longrightarrow> pop h q = None"
    and is_empty: "rep h q xs \<Longrightarrow> is_empty h q = Some (xs = [])"
    and rep_distinct: "rep h q (xs @ e # ys) \<Longrightarrow> e \<notin> foot q (xs @ ys)"
    and foot_insert: "foot q (xs @ e # ys) = insert e (foot q (xs @ ys))"
    and frame: "changes h h' S \<Longrightarrow> S \<inter> foot q xs = {} \<Longrightarrow> rep h' q xs = rep h q xs"
    and room_keep: "changes h h' S \<Longrightarrow> room h' e = room h e"
    and changes_mono: "changes h h' S \<Longrightarrow> S \<subseteq> T \<Longrightarrow> changes h h' T"
begin

lemma foot_append: "foot q (xs @ [e]) = insert e (foot q xs)"
  using foot_insert[of q xs e "[]"] by simp

lemma foot_Cons: "foot q (e # xs) = insert e (foot q xs)"
  using foot_insert[of q "[]" e xs] by simp

text \<open>First in, first out: what is pushed comes out in the same order.\<close>

fun push_all :: "'h \<Rightarrow> 'q \<Rightarrow> 'e list \<Rightarrow> 'h option" where
  "push_all h q [] = Some h"
| "push_all h q (e # es) = Option.bind (push h q e) (\<lambda>h. push_all h q es)"

fun pop_n :: "'h \<Rightarrow> 'q \<Rightarrow> nat \<Rightarrow> ('e list \<times> 'h) option" where
  "pop_n h q 0 = Some ([], h)"
| "pop_n h q (Suc n) = Option.bind (pop h q) (\<lambda>(e, h). Option.bind (pop_n h q n) (\<lambda>(es, h). Some (e # es, h)))"

lemma push_all_rep:
  "rep h q xs \<Longrightarrow> \<forall>e \<in> set es. room h e \<Longrightarrow> distinct es \<Longrightarrow> set es \<inter> foot q xs = {} \<Longrightarrow>
   \<exists>h'. push_all h q es = Some h' \<and> rep h' q (xs @ es)"
proof (induction es arbitrary: h xs)
  case (Cons e es)
  obtain h1 where h1: "push h q e = Some h1" "rep h1 q (xs @ [e])" "changes h h1 (insert e (foot q xs))"
    using push[of h q xs e] Cons.prems by auto
  have "\<exists>h'. push_all h1 q es = Some h' \<and> rep h' q ((xs @ [e]) @ es)"
    by (rule Cons.IH[OF h1(2)]) (use Cons.prems room_keep[OF h1(3)] foot_append in auto)
  then show ?case using h1(1) by auto
qed auto

lemma pop_n_rep:
  "rep h q (xs @ ys) \<Longrightarrow> \<exists>h'. pop_n h q (length xs) = Some (xs, h') \<and> rep h' q ys"
proof (induction xs arbitrary: h)
  case (Cons x xs)
  obtain h1 where "pop h q = Some (x, h1)" "rep h1 q (xs @ ys)"
    using pop[of h q x "xs @ ys"] Cons.prems by auto
  then show ?case using Cons.IH[of h1] by auto
qed auto

theorem fifo:
  assumes "rep h q xs" "\<forall>e \<in> set es. room h e" "distinct es" "set es \<inter> foot q xs = {}"
  shows "\<exists>h1 h2. push_all h q es = Some h1 \<and> pop_n h1 q (length (xs @ es)) = Some (xs @ es, h2) \<and> rep h2 q []"
  using push_all_rep[OF assms] pop_n_rep[of _ q "xs @ es" "[]"] by fastforce

end

interpretation lq: kernel_queue dlist valid "\<lambda>l xs. set (nodes l xs)" modifies
  list_push_back list_pop_front list_empty
proof (unfold_locales, goal_cases)
  case (1 h q xs e) then show ?case by (rule list_push_back_dlist)
next
  case (2 h q x xs) then show ?case by (rule list_pop_front_dlist)
next
  case (3 h q) then show ?case by (rule list_pop_empty)
next
  case (4 h q xs) then show ?case by (rule list_empty_dlist)
next
  case (5 h q xs e ys) then show ?case using dlistD(1)[OF 5] by (auto simp: nodes_def)
next
  case (6 q xs e ys) then show ?case by (auto simp: set_nodes)
next
  case (7 h h' S q xs) then show ?case by (rule modifies_dlist)
next
  case (8 h h' S e) then show ?case by (rule modifies_valid)
next
  case (9 h h' S T) then show ?case by (rule modifies_mono)
qed

end
