(* ===== verification/Kernel_List_Sort.thy ===== *)
theory Kernel_List_Sort
  imports Kernel_List
begin

text \<open>
  The operations of lib/kernel/list.c on lists with ordered elements: the natural merge
  sort \<open>list_sort\<close> with its helpers, ordered insertion, removal of duplicates, minimum and
  maximum.  The comparison function \<open>lt\<close> (\<open>list_less_func *less\<close> in the source, with its
  \<open>aux\<close> argument already applied) is a function of the two element addresses: it reads the
  structures around the elements, which no list operation writes.
\<close>

type_synonym less_func = "addr \<Rightarrow> addr \<Rightarrow> bool"

partial_function (option) is_sorted_loop ::
  "list_heap \<Rightarrow> less_func \<Rightarrow> addr \<Rightarrow> addr \<Rightarrow> bool option" where
  "is_sorted_loop h lt a b = do {
     a \<leftarrow> list_next h a;
     if a \<noteq> b then do {
       p \<leftarrow> list_prev h a;
       if lt a p then Some False else is_sorted_loop h lt a b }
     else Some True }"

definition is_sorted :: "list_heap \<Rightarrow> less_func \<Rightarrow> addr \<Rightarrow> addr \<Rightarrow> bool option" where
  "is_sorted h lt a b = (if a \<noteq> b then is_sorted_loop h lt a b else Some True)"

partial_function (option) find_end_of_run_loop ::
  "list_heap \<Rightarrow> less_func \<Rightarrow> addr \<Rightarrow> addr \<Rightarrow> addr option" where
  "find_end_of_run_loop h lt a b = do {
     a \<leftarrow> list_next h a;
     if a \<noteq> b then do {
       p \<leftarrow> list_prev h a;
       if \<not> lt a p then find_end_of_run_loop h lt a b else Some a }
     else Some a }"

definition find_end_of_run :: "list_heap \<Rightarrow> less_func \<Rightarrow> addr \<Rightarrow> addr \<Rightarrow> addr option" where
  "find_end_of_run h lt a b = do {
     ASSERT (a \<noteq> NULL); ASSERT (b \<noteq> NULL); ASSERT (a \<noteq> b);
     find_end_of_run_loop h lt a b }"

partial_function (option) inplace_merge_loop ::
  "list_heap \<Rightarrow> less_func \<Rightarrow> addr \<Rightarrow> addr \<Rightarrow> addr \<Rightarrow> list_heap option" where
  "inplace_merge_loop h lt a0 a1b0 b1 =
     (if a0 \<noteq> a1b0 \<and> a1b0 \<noteq> b1 then
        (if \<not> lt a1b0 a0 then do {
           a0 \<leftarrow> list_next h a0;
           inplace_merge_loop h lt a0 a1b0 b1 }
         else do {
           a1b0 \<leftarrow> list_next h a1b0;
           p \<leftarrow> list_prev h a1b0;
           h \<leftarrow> list_splice h a0 p a1b0;
           inplace_merge_loop h lt a0 a1b0 b1 })
      else Some h)"

definition inplace_merge ::
  "list_heap \<Rightarrow> less_func \<Rightarrow> addr \<Rightarrow> addr \<Rightarrow> addr \<Rightarrow> list_heap option" where
  "inplace_merge h lt a0 a1b0 b1 = do {
     ASSERT (a0 \<noteq> NULL); ASSERT (a1b0 \<noteq> NULL); ASSERT (b1 \<noteq> NULL);
     s \<leftarrow> is_sorted h lt a0 a1b0; ASSERT s;
     s \<leftarrow> is_sorted h lt a1b0 b1; ASSERT s;
     inplace_merge_loop h lt a0 a1b0 b1 }"

text \<open>One pass of \<open>list_sort\<close>: the inner loop, returning \<open>output_run_cnt\<close> and the store.\<close>

partial_function (option) list_sort_pass ::
  "list_heap \<Rightarrow> less_func \<Rightarrow> addr \<Rightarrow> addr \<Rightarrow> size_t \<Rightarrow> (size_t \<times> list_heap) option" where
  "list_sort_pass h lt list a0 cnt = do {
     en \<leftarrow> list_end list;
     if a0 \<noteq> en then do {
       a1b0 \<leftarrow> find_end_of_run h lt a0 en;
       if a1b0 = en then Some (cnt + 1, h)
       else do {
         b1 \<leftarrow> find_end_of_run h lt a1b0 en;
         h \<leftarrow> inplace_merge h lt a0 a1b0 b1;
         list_sort_pass h lt list b1 (cnt + 1) } }
     else Some (cnt, h) }"

partial_function (option) list_sort_loop ::
  "list_heap \<Rightarrow> less_func \<Rightarrow> addr \<Rightarrow> list_heap option" where
  "list_sort_loop h lt list = do {
     a0 \<leftarrow> list_begin h list;
     (output_run_cnt, h) \<leftarrow> list_sort_pass h lt list a0 0;
     if output_run_cnt > 1 then list_sort_loop h lt list else Some h }"

definition list_sort :: "list_heap \<Rightarrow> addr \<Rightarrow> less_func \<Rightarrow> list_heap option" where
  "list_sort h list lt = do {
     ASSERT (list \<noteq> NULL);
     h \<leftarrow> list_sort_loop h lt list;
     b \<leftarrow> list_begin h list; e \<leftarrow> list_end list;
     s \<leftarrow> is_sorted h lt b e; ASSERT s;
     Some h }"

partial_function (option) insert_position ::
  "list_heap \<Rightarrow> less_func \<Rightarrow> addr \<Rightarrow> addr \<Rightarrow> addr \<Rightarrow> addr option" where
  "insert_position h lt list elem e = do {
     en \<leftarrow> list_end list;
     if e \<noteq> en then
       (if lt elem e then Some e
        else do { e' \<leftarrow> list_next h e; insert_position h lt list elem e' })
     else Some e }"

definition list_insert_ordered ::
  "list_heap \<Rightarrow> addr \<Rightarrow> addr \<Rightarrow> less_func \<Rightarrow> list_heap option" where
  "list_insert_ordered h list elem lt = do {
     ASSERT (list \<noteq> NULL); ASSERT (elem \<noteq> NULL);
     b \<leftarrow> list_begin h list;
     e \<leftarrow> insert_position h lt list elem b;
     list_insert h e elem }"

partial_function (option) list_unique_loop ::
  "list_heap \<Rightarrow> less_func \<Rightarrow> addr \<Rightarrow> addr \<Rightarrow> addr \<Rightarrow> list_heap option" where
  "list_unique_loop h lt list duplicates elem = do {
     nx \<leftarrow> list_next h elem;
     en \<leftarrow> list_end list;
     if nx \<noteq> en then
       (if \<not> lt elem nx \<and> \<not> lt nx elem then do {
          (_, h) \<leftarrow> list_remove h nx;
          h \<leftarrow> (if duplicates \<noteq> NULL then list_push_back h duplicates nx else Some h);
          list_unique_loop h lt list duplicates elem }
        else list_unique_loop h lt list duplicates nx)
     else Some h }"

text \<open>\<open>duplicates = NULL\<close>: the removed elements are dropped.\<close>

definition list_unique :: "list_heap \<Rightarrow> addr \<Rightarrow> addr \<Rightarrow> less_func \<Rightarrow> list_heap option" where
  "list_unique h list duplicates lt = do {
     ASSERT (list \<noteq> NULL);
     em \<leftarrow> list_empty h list;
     if em then Some h
     else do { b \<leftarrow> list_begin h list; list_unique_loop h lt list duplicates b } }"

partial_function (option) list_max_loop ::
  "list_heap \<Rightarrow> less_func \<Rightarrow> addr \<Rightarrow> addr \<Rightarrow> addr \<Rightarrow> addr option" where
  "list_max_loop h lt list mx e = do {
     en \<leftarrow> list_end list;
     if e \<noteq> en then do {
       e' \<leftarrow> list_next h e;
       list_max_loop h lt list (if lt mx e then e else mx) e' }
     else Some mx }"

definition list_max :: "list_heap \<Rightarrow> addr \<Rightarrow> less_func \<Rightarrow> addr option" where
  "list_max h list lt = do {
     mx \<leftarrow> list_begin h list; en \<leftarrow> list_end list;
     if mx \<noteq> en then do { e \<leftarrow> list_next h mx; list_max_loop h lt list mx e } else Some mx }"

partial_function (option) list_min_loop ::
  "list_heap \<Rightarrow> less_func \<Rightarrow> addr \<Rightarrow> addr \<Rightarrow> addr \<Rightarrow> addr option" where
  "list_min_loop h lt list mn e = do {
     en \<leftarrow> list_end list;
     if e \<noteq> en then do {
       e' \<leftarrow> list_next h e;
       list_min_loop h lt list (if lt e mn then e else mn) e' }
     else Some mn }"

definition list_min :: "list_heap \<Rightarrow> addr \<Rightarrow> less_func \<Rightarrow> addr option" where
  "list_min h list lt = do {
     mn \<leftarrow> list_begin h list; en \<leftarrow> list_end list;
     if mn \<noteq> en then do { e \<leftarrow> list_next h mn; list_min_loop h lt list mn e } else Some mn }"

text \<open>The loops are executable.\<close>

declare is_sorted_loop.simps [code]
  find_end_of_run_loop.simps [code]
  inplace_merge_loop.simps [code]
  list_sort_pass.simps [code]
  list_sort_loop.simps [code]
  insert_position.simps [code]
  list_unique_loop.simps [code]
  list_max_loop.simps [code]
  list_min_loop.simps [code]

end
