(* ===== verification/Kernel_List_Sort_Correct.thy ===== *)
theory Kernel_List_Sort_Correct
  imports Kernel_List_Rep Kernel_List_Sort
begin

text \<open>
  Correctness of the ordered-list operations.  Each store-level loop is first shown equal
  to a function on abstract lists (\<open>split_run\<close>, \<open>merge_runs\<close>, \<open>sort_pass\<close>); the order
  theory (sortedness, permutation, stability, number of passes) is then about lists only.
\<close>

section \<open>Natural merge sort on abstract lists\<close>

text \<open>What list.h asks of a comparison function: a strict weak order.\<close>

definition strict_weak :: "less_func \<Rightarrow> bool" where
  "strict_weak lt \<longleftrightarrow> (\<forall>x y. lt x y \<longrightarrow> \<not> lt y x) \<and> (\<forall>x y z. \<not> lt x y \<longrightarrow> \<not> lt y z \<longrightarrow> \<not> lt x z)"

definition nondecreasing :: "less_func \<Rightarrow> addr list \<Rightarrow> bool" where
  "nondecreasing lt = successively (\<lambda>x y. \<not> lt y x)"

lemma strict_weakD:
  assumes "strict_weak lt"
  shows "lt x y \<Longrightarrow> \<not> lt y x" "\<not> lt x y \<Longrightarrow> \<not> lt y z \<Longrightarrow> \<not> lt x z"
  using assms unfolding strict_weak_def by metis+

lemma nondecreasing_simps [simp]:
  "nondecreasing lt []" "nondecreasing lt [x]"
  "nondecreasing lt (x # y # zs) \<longleftrightarrow> \<not> lt y x \<and> nondecreasing lt (y # zs)"
  by (simp_all add: nondecreasing_def)

lemma nondecreasing_Cons:
  "nondecreasing lt (x # xs) \<longleftrightarrow> nondecreasing lt xs \<and> (xs \<noteq> [] \<longrightarrow> \<not> lt (hd xs) x)"
  by (cases xs) auto

lemma nondecreasing_sorted_wrt:
  assumes "strict_weak lt"
  shows "nondecreasing lt xs \<longleftrightarrow> sorted_wrt (\<lambda>x y. \<not> lt y x) xs"
  unfolding nondecreasing_def
  by (rule successively_iff_sorted_wrt_strong) (use strict_weakD(2)[OF assms] in blast)

fun split_run :: "less_func \<Rightarrow> addr list \<Rightarrow> addr list \<times> addr list" where
  "split_run lt (x # y # ys) =
     (if lt y x then ([x], y # ys) else let (r, t) = split_run lt (y # ys) in (x # r, t))"
| "split_run lt xs = (xs, [])"

lemma split_run_props:
  assumes "split_run lt xs = (r, t)"
  shows "xs = r @ t" "xs \<noteq> [] \<Longrightarrow> r \<noteq> []" "nondecreasing lt r"
proof -
  have "xs = r @ t \<and> (xs \<noteq> [] \<longrightarrow> r \<noteq> [] \<and> hd r = hd xs) \<and> nondecreasing lt r"
    using assms
  proof (induction xs arbitrary: r t rule: induct_list012)
    case (3 x y ys)
    show ?case
    proof (cases "lt y x")
      case True
      then show ?thesis using "3.prems" by auto
    next
      case False
      obtain r' t' where rt: "split_run lt (y # ys) = (r', t')" by fastforce
      have ih: "y # ys = r' @ t'" "r' \<noteq> []" "hd r' = y" "nondecreasing lt r'"
        using "3.IH"(2)[OF rt] by simp_all
      have eq: "r = x # r'" "t = t'" using "3.prems" False rt by simp_all
      show ?thesis
        unfolding eq using False ih by (simp add: nondecreasing_Cons)
    qed
  qed auto
  then show "xs = r @ t" "xs \<noteq> [] \<Longrightarrow> r \<noteq> []" "nondecreasing lt r" by blast+
qed

fun merge_runs :: "less_func \<Rightarrow> addr list \<Rightarrow> addr list \<Rightarrow> addr list" where
  "merge_runs lt (x # xs) (y # ys) =
     (if lt y x then y # merge_runs lt (x # xs) ys else x # merge_runs lt xs (y # ys))"
| "merge_runs lt xs [] = xs"
| "merge_runs lt [] ys = ys"

lemma mset_merge_runs [simp]: "mset (merge_runs lt xs ys) = mset xs + mset ys"
  by (induction lt xs ys rule: merge_runs.induct) auto

lemma set_merge_runs [simp]: "set (merge_runs lt xs ys) = set xs \<union> set ys"
  by (induction lt xs ys rule: merge_runs.induct) auto

lemma merge_runs_Nil [simp]: "merge_runs lt [] ys = ys" "merge_runs lt xs [] = xs"
  by (cases ys; simp) (cases xs; simp)

lemma merge_runs_eq_Nil [simp]: "merge_runs lt xs ys = [] \<longleftrightarrow> xs = [] \<and> ys = []"
  by (induction lt xs ys rule: merge_runs.induct) auto

lemma hd_merge_runs:
  "xs \<noteq> [] \<Longrightarrow> ys \<noteq> [] \<Longrightarrow> hd (merge_runs lt xs ys) = (if lt (hd ys) (hd xs) then hd ys else hd xs)"
  by (cases xs; cases ys) auto

lemma nondecreasing_merge_runs:
  assumes sw: "strict_weak lt"
  shows "nondecreasing lt xs \<Longrightarrow> nondecreasing lt ys \<Longrightarrow> nondecreasing lt (merge_runs lt xs ys)"
proof (induction "length xs + length ys" arbitrary: xs ys rule: less_induct)
  case less
  show ?case
  proof (cases "xs = [] \<or> ys = []")
    case True
    then show ?thesis using less.prems by auto
  next
    case False
    then obtain x xs' y ys' where eq: "xs = x # xs'" "ys = y # ys'" by (meson neq_Nil_conv)
    show ?thesis
    proof (cases "lt y x")
      case True
      have "nondecreasing lt (merge_runs lt xs ys')"
        by (rule less.hyps) (use less.prems eq in \<open>auto simp: nondecreasing_Cons\<close>)
      then show ?thesis
        using True less.prems strict_weakD(1)[OF sw True] eq
        by (cases ys') (auto simp: nondecreasing_Cons hd_merge_runs)
    next
      case F: False
      have "nondecreasing lt (merge_runs lt xs' ys)"
        by (rule less.hyps) (use less.prems eq in \<open>auto simp: nondecreasing_Cons\<close>)
      then show ?thesis
        using F less.prems eq
        by (cases xs') (auto simp: nondecreasing_Cons hd_merge_runs)
    qed
  qed
qed

text \<open>Elements that compare equal to \<open>k\<close>, in the order of the list.\<close>

definition class_of :: "less_func \<Rightarrow> addr \<Rightarrow> addr list \<Rightarrow> addr list" where
  "class_of lt k xs = filter (\<lambda>x. \<not> lt x k \<and> \<not> lt k x) xs"

lemma class_of_append [simp]: "class_of lt k (xs @ ys) = class_of lt k xs @ class_of lt k ys"
  by (simp add: class_of_def)

lemma class_of_Cons [simp]:
  "class_of lt k (x # xs) = (if \<not> lt x k \<and> \<not> lt k x then x # class_of lt k xs else class_of lt k xs)"
  "class_of lt k [] = []"
  by (simp_all add: class_of_def)

lemma class_of_merge_runs:
  assumes sw: "strict_weak lt"
  shows "nondecreasing lt xs \<Longrightarrow>
     class_of lt k (merge_runs lt xs ys) = class_of lt k xs @ class_of lt k ys"
proof (induction "length xs + length ys" arbitrary: xs ys rule: less_induct)
  case less
  show ?case
  proof (cases "xs = [] \<or> ys = []")
    case True
    then show ?thesis by auto
  next
    case False
    then obtain x xs' y ys' where eq: "xs = x # xs'" "ys = y # ys'" by (meson neq_Nil_conv)
    show ?thesis
    proof (cases "lt y x")
      case True
      have "class_of lt k xs = []" if "\<not> lt y k" "\<not> lt k y"
      proof -
        have "\<not> lt z k \<longrightarrow> lt k z" if z: "z \<in> set xs" for z
        proof -
          have "\<not> lt z x"
            using less.prems z sw strict_weakD(1)[OF sw]
            by (auto simp: nondecreasing_sorted_wrt eq)
          then show ?thesis
            using True \<open>\<not> lt k y\<close> \<open>\<not> lt y k\<close> strict_weakD(2)[OF sw] by blast
        qed
        then show ?thesis by (auto simp: class_of_def filter_empty_conv)
      qed
      moreover have "class_of lt k (merge_runs lt xs ys') = class_of lt k xs @ class_of lt k ys'"
        by (rule less.hyps) (use less.prems eq in auto)
      ultimately show ?thesis using True eq by auto
    next
      case F: False
      have "class_of lt k (merge_runs lt xs' ys) = class_of lt k xs' @ class_of lt k ys"
        by (rule less.hyps) (use less.prems eq in \<open>auto simp: nondecreasing_Cons\<close>)
      then show ?thesis using F eq by auto
    qed
  qed
qed


text \<open>One pass: adjacent runs are merged pairwise; the number is that of the output runs.\<close>

lemma split_run_shorter: "split_run lt xs = (r, t) \<Longrightarrow> xs \<noteq> [] \<Longrightarrow> length t < length xs"
  using split_run_props[of lt xs r t] by auto

function sort_pass :: "less_func \<Rightarrow> addr list \<Rightarrow> nat \<times> addr list" where
  "sort_pass lt xs =
     (if xs = [] then (0, [])
      else let (r1, t1) = split_run lt xs in
        if t1 = [] then (1, r1)
        else let (r2, t2) = split_run lt t1; (n, zs) = sort_pass lt t2
          in (Suc n, merge_runs lt r1 r2 @ zs))"
  by pat_completeness auto
termination
proof (relation "measure (\<lambda>(lt, xs). length xs)", goal_cases)
  case (2 lt xs p r1 t1 q r2 t2)
  then show ?case
    using split_run_shorter[of lt xs r1 t1] split_run_shorter[of lt t1 r2 t2] by auto
qed simp

declare sort_pass.simps [simp del]

fun num_runs :: "less_func \<Rightarrow> addr list \<Rightarrow> nat" where
  "num_runs lt (x # y # ys) = (if lt y x then 1 else 0) + num_runs lt (y # ys)"
| "num_runs lt [x] = 1"
| "num_runs lt [] = 0"

lemma num_runs_nondecreasing: "num_runs lt xs \<le> 1 \<longleftrightarrow> nondecreasing lt xs"
proof (induction xs rule: induct_list012)
  case (3 x y zs)
  have "num_runs lt (y # zs) \<ge> 1" by (induction zs arbitrary: y) auto
  then show ?case using 3 by auto
qed auto

lemma num_runs_Cons_le: "num_runs lt (x # xs) \<le> Suc (num_runs lt xs)"
  by (cases xs) auto

lemma num_runs_append: "num_runs lt (xs @ ys) \<le> num_runs lt xs + num_runs lt ys"
proof (induction xs rule: induct_list012)
  case (2 x)
  then show ?case using num_runs_Cons_le by simp
qed auto

lemma num_runs_split: "split_run lt xs = (r, t) \<Longrightarrow> xs \<noteq> [] \<Longrightarrow> num_runs lt xs = Suc (num_runs lt t)"
  by (induction xs arbitrary: r t rule: induct_list012) (auto split: if_splits prod.splits)

lemma num_runs_Nil [simp]: "num_runs lt xs = 0 \<longleftrightarrow> xs = []"
  by (induction xs rule: induct_list012) auto

lemma sort_pass_props:
  assumes sw: "strict_weak lt"
  shows "sort_pass lt xs = (n, ys) \<Longrightarrow>
    n = (num_runs lt xs + 1) div 2 \<and> mset ys = mset xs \<and> num_runs lt ys \<le> n \<and>
    (\<forall>k. class_of lt k ys = class_of lt k xs)"
proof (induction "length xs" arbitrary: xs n ys rule: less_induct)
  case less
  show ?case
  proof (cases "xs = []")
    case True
    then show ?thesis using less.prems by (simp add: sort_pass.simps)
  next
    case ne: False
    obtain r1 t1 where s1: "split_run lt xs = (r1, t1)" by fastforce
    note p1 = split_run_props[OF s1] and m1 = num_runs_split[OF s1 ne]
    show ?thesis
    proof (cases "t1 = []")
      case True
      then have "n = 1" "ys = xs"
        using less.prems s1 ne True p1(1) sort_pass.simps[of lt xs] by simp_all
      then show ?thesis using m1 True by simp
    next
      case ne1: False
      obtain r2 t2 where s2: "split_run lt t1 = (r2, t2)" by fastforce
      note p2 = split_run_props[OF s2] and m2 = num_runs_split[OF s2 ne1]
      obtain n' zs where s3: "sort_pass lt t2 = (n', zs)" by fastforce
      have eq: "n = Suc n'" "ys = merge_runs lt r1 r2 @ zs"
        using less.prems s1 s2 s3 ne ne1 by (simp_all add: sort_pass.simps[of lt xs])
      have len: "length t2 < length xs"
        using split_run_shorter[OF s1 ne] split_run_shorter[OF s2 ne1] by simp
      note ih = less.hyps[OF len s3]
      have "nondecreasing lt (merge_runs lt r1 r2)"
        by (rule nondecreasing_merge_runs[OF sw p1(3) p2(3)])
      then have "num_runs lt ys \<le> Suc (num_runs lt zs)"
        using num_runs_append[of lt "merge_runs lt r1 r2" zs] eq(2)
        by (simp flip: num_runs_nondecreasing)
      moreover have "class_of lt k ys = class_of lt k xs" for k
        using ih class_of_merge_runs[OF sw p1(3), of k r2] by (simp add: eq(2) p1(1) p2(1))
      moreover have "mset ys = mset xs" using ih by (simp add: eq(2) p1(1) p2(1))
      moreover have "n = (num_runs lt xs + 1) div 2" "num_runs lt zs \<le> n'"
        using ih m1 m2 by (simp_all add: eq(1))
      ultimately show ?thesis by (simp add: eq(1))
    qed
  qed
qed

section \<open>The store-level loops compute these functions\<close>

lemma is_sorted_loop_dlist:
  "dlist h l (ps @ x # ys @ rs) \<Longrightarrow>
   is_sorted_loop h lt x (hd (rs @ [tail_of l])) = Some (nondecreasing lt (x # ys))"
proof (induction ys arbitrary: ps x)
  case Nil
  then show ?case
    using list_next_dlist[of h l ps x rs] by (simp add: is_sorted_loop.simps[of h lt x])
next
  case (Cons y ys)
  have nx: "list_next h x = Some y" using list_next_dlist[of h l ps x "y # ys @ rs"] Cons.prems by simp
  have pv: "list_prev h y = Some x"
    using list_prev_dlist[of h l "ps @ [x]" "y # ys @ rs"] Cons.prems by simp
  have ne: "y \<noteq> hd (rs @ [tail_of l])"
    using dlistD(1)[OF Cons.prems] by (cases rs) (auto simp: nodes_def)
  have "is_sorted_loop h lt y (hd (rs @ [tail_of l])) = Some (nondecreasing lt (y # ys))"
    using Cons.IH[of "ps @ [x]" y] Cons.prems by simp
  then show ?case by (simp add: is_sorted_loop.simps[of h lt x] nx pv ne)
qed

lemma is_sorted_dlist:
  assumes "dlist h l (ps @ ys @ rs)"
  shows "is_sorted h lt (hd (ys @ rs @ [tail_of l])) (hd (rs @ [tail_of l])) = Some (nondecreasing lt ys)"
proof (cases ys)
  case (Cons y ys')
  have "y \<noteq> hd (rs @ [tail_of l])"
    using dlistD(1)[OF assms] Cons by (cases rs) (auto simp: nodes_def)
  then show ?thesis using is_sorted_loop_dlist[of h l ps y ys' rs] assms Cons by (simp add: is_sorted_def)
qed (simp add: is_sorted_def)

lemma find_end_of_run_loop_dlist:
  "dlist h l (ps @ x # ys) \<Longrightarrow>
   find_end_of_run_loop h lt x (tail_of l) = Some (hd (snd (split_run lt (x # ys)) @ [tail_of l]))"
proof (induction ys arbitrary: ps x)
  case Nil
  then show ?case
    using list_next_dlist[of h l ps x "[]"] by (simp add: find_end_of_run_loop.simps[of h lt x])
next
  case (Cons y ys)
  have nx: "list_next h x = Some y" using list_next_dlist[of h l ps x "y # ys"] Cons.prems by simp
  have pv: "list_prev h y = Some x"
    using list_prev_dlist[of h l "ps @ [x]" "y # ys"] Cons.prems by simp
  have ne: "y \<noteq> tail_of l"
    using dlistD(1)[OF Cons.prems] by (auto simp: nodes_def)
  have "find_end_of_run_loop h lt y (tail_of l) = Some (hd (snd (split_run lt (y # ys)) @ [tail_of l]))"
    using Cons.IH[of "ps @ [x]" y] Cons.prems by simp
  then show ?case
    by (simp add: find_end_of_run_loop.simps[of h lt x] nx pv ne split: prod.split)
qed

lemma find_end_of_run_dlist:
  assumes rep: "dlist h l (ps @ xs)" and ne: "xs \<noteq> []" and s: "split_run lt xs = (r, t)"
  shows "find_end_of_run h lt (hd xs) (tail_of l) = Some (hd (t @ [tail_of l]))"
proof -
  have "hd xs \<in> set (ps @ xs)" using ne by simp
  then have "hd xs \<noteq> NULL" "hd xs \<noteq> tail_of l"
    using dlist_valid[OF rep] valid_not_NULL dlistD(1)[OF rep] by (auto simp: nodes_def)
  then show ?thesis
    using find_end_of_run_loop_dlist[of h l ps "hd xs" "tl xs" lt] dlist_ends[OF rep] ne rep s
    by (simp add: find_end_of_run_def)
qed

lemma inplace_merge_loop_dlist:
  "dlist h l (ps @ as @ bs @ rs) \<Longrightarrow>
   \<exists>h'. inplace_merge_loop h lt (hd (as @ bs @ rs @ [tail_of l])) (hd (bs @ rs @ [tail_of l]))
      (hd (rs @ [tail_of l])) = Some h' \<and> dlist h' l (ps @ merge_runs lt as bs @ rs) \<and>
     modifies h h' (set (nodes l (ps @ as @ bs @ rs)))"
proof (induction "length as + length bs" arbitrary: h ps as bs rule: less_induct)
  case less
  let ?t = "tail_of l"
  show ?case
  proof (cases "as = [] \<or> bs = []")
    case True
    then show ?thesis using less.prems by (auto simp: inplace_merge_loop.simps[of h])
  next
    case False
    then obtain x as' y bs' where eq: "as = x # as'" "bs = y # bs'" by (meson neq_Nil_conv)
    have rep: "dlist h l (ps @ x # as' @ y # bs' @ rs)" using less.prems eq by simp
    have ne: "x \<noteq> y" "y \<noteq> hd (rs @ [?t])"
      using dlistD(1)[OF rep] by (cases rs; auto simp: nodes_def)+
    show ?thesis
    proof (cases "lt y x")
      case True
      have nx: "list_next h y = Some (hd (bs' @ rs @ [?t]))"
        using list_next_dlist[of h l "ps @ x # as'" y "bs' @ rs"] rep by simp
      have pv: "list_prev h (hd (bs' @ rs @ [?t])) = Some y"
        using list_prev_dlist[of h l "ps @ x # as' @ [y]" "bs' @ rs"] rep by simp
      obtain h1 where h1: "list_splice h x y (hd (bs' @ rs @ [?t])) = Some h1"
        "dlist h1 l (ps @ [y] @ (x # as') @ bs' @ rs)"
        "modifies h h1 (set (nodes l (ps @ x # as' @ y # bs' @ rs)))"
        using list_splice_within[of h l ps "x # as'" "[y]" "bs' @ rs"] rep by auto
      have "\<exists>h'. inplace_merge_loop h1 lt (hd (as @ bs' @ rs @ [?t])) (hd (bs' @ rs @ [?t]))
          (hd (rs @ [?t])) = Some h' \<and> dlist h' l ((ps @ [y]) @ merge_runs lt as bs' @ rs) \<and>
          modifies h1 h' (set (nodes l ((ps @ [y]) @ as @ bs' @ rs)))"
        by (rule less.hyps) (use h1(2) eq in auto)
      then obtain h' where h': "inplace_merge_loop h1 lt x (hd (bs' @ rs @ [?t]))
          (hd (rs @ [?t])) = Some h'" "dlist h' l (ps @ y # merge_runs lt as bs' @ rs)"
          "modifies h1 h' (set (nodes l ((ps @ [y]) @ as @ bs' @ rs)))"
        by (auto simp: eq(1))
      have "inplace_merge_loop h lt x y (hd (rs @ [?t])) = Some h'"
        using ne True nx pv h1(1) h'(1) by (simp add: inplace_merge_loop.simps[of h lt x y])
      moreover have "modifies h h' (set (nodes l (ps @ as @ bs @ rs)))"
        by (rule modifies_trans[OF h1(3) h'(3)]) (auto simp: eq set_nodes)
      ultimately show ?thesis using True h'(2) by (auto simp: eq)
    next
      case F: False
      have nx: "list_next h x = Some (hd (as' @ bs @ rs @ [?t]))"
        using list_next_dlist[of h l ps x "as' @ bs @ rs"] rep eq by simp
      have "\<exists>h'. inplace_merge_loop h lt (hd (as' @ bs @ rs @ [?t])) (hd (bs @ rs @ [?t]))
          (hd (rs @ [?t])) = Some h' \<and> dlist h' l ((ps @ [x]) @ merge_runs lt as' bs @ rs) \<and>
          modifies h h' (set (nodes l ((ps @ [x]) @ as' @ bs @ rs)))"
        by (rule less.hyps) (use less.prems eq in auto)
      then show ?thesis
        using ne F nx by (auto simp: eq inplace_merge_loop.simps[of h lt x y])
    qed
  qed
qed

lemma inplace_merge_dlist:
  assumes rep: "dlist h l (ps @ as @ bs @ rs)" and sorted: "nondecreasing lt as" "nondecreasing lt bs"
  shows "\<exists>h'. inplace_merge h lt (hd (as @ bs @ rs @ [tail_of l])) (hd (bs @ rs @ [tail_of l]))
      (hd (rs @ [tail_of l])) = Some h' \<and> dlist h' l (ps @ merge_runs lt as bs @ rs) \<and>
     modifies h h' (set (nodes l (ps @ as @ bs @ rs)))"
proof -
  have nz: "hd (zs @ [tail_of l]) \<noteq> NULL" if "set zs \<subseteq> set (ps @ as @ bs @ rs)" for zs
    using that dlist_valid[OF rep] dlist_ends[OF rep] valid_not_NULL by (cases zs) auto
  have "hd (as @ bs @ rs @ [tail_of l]) \<noteq> NULL" "hd (bs @ rs @ [tail_of l]) \<noteq> NULL"
    "hd (rs @ [tail_of l]) \<noteq> NULL"
    using nz[of "as @ bs @ rs"] nz[of "bs @ rs"] nz[of rs] by auto
  then show ?thesis
    using is_sorted_dlist[of h l ps as "bs @ rs" lt] is_sorted_dlist[of h l "ps @ as" bs rs lt]
      inplace_merge_loop_dlist[OF rep, of lt] rep sorted
    by (simp add: inplace_merge_def)
qed

lemma list_sort_pass_dlist:
  "dlist h l (ps @ xs) \<Longrightarrow> sort_pass lt xs = (n, ys) \<Longrightarrow>
   \<exists>h'. list_sort_pass h lt l (hd (xs @ [tail_of l])) cnt = Some (cnt + of_nat n, h') \<and>
     dlist h' l (ps @ ys) \<and> modifies h h' (set (nodes l (ps @ xs)))"
proof (induction "length xs" arbitrary: h ps xs n ys cnt rule: less_induct)
  case less
  let ?t = "tail_of l"
  note rep = less.prems(1)
  have en: "list_end l = Some ?t" by (rule list_end_dlist[OF rep])
  show ?case
  proof (cases "xs = []")
    case True
    then show ?thesis
      using less.prems en by (auto simp: sort_pass.simps list_sort_pass.simps[of h lt l ?t])
  next
    case ne: False
    have T: "?t \<notin> set xs" using dlistD(1)[OF rep] by (auto simp: nodes_def)
    then have hd: "hd (xs @ [?t]) = hd xs" "hd xs \<noteq> ?t"
      using ne hd_in_set[OF ne] by (simp, metis)
    obtain r1 t1 where s1: "split_run lt xs = (r1, t1)" by fastforce
    note p1 = split_run_props[OF s1]
    have f1: "find_end_of_run h lt (hd xs) ?t = Some (hd (t1 @ [?t]))"
      by (rule find_end_of_run_dlist[OF rep ne s1])
    show ?thesis
    proof (cases "t1 = []")
      case True
      then have "n = 1" "ys = xs"
        using less.prems s1 ne p1(1) sort_pass.simps[of lt xs] by simp_all
      then show ?thesis
        using True rep hd f1 en by (auto simp: list_sort_pass.simps[of h lt l "hd xs"])
    next
      case ne1: False
      obtain r2 t2 where s2: "split_run lt t1 = (r2, t2)" by fastforce
      note p2 = split_run_props[OF s2]
      obtain n' zs where s3: "sort_pass lt t2 = (n', zs)" by fastforce
      have eq: "n = Suc n'" "ys = merge_runs lt r1 r2 @ zs"
        using less.prems(2) s1 s2 s3 ne ne1 by (simp_all add: sort_pass.simps[of lt xs])
      have xs: "xs = r1 @ r2 @ t2" using p1(1) p2(1) by simp
      have t1: "hd (t1 @ [?t]) = hd t1" "hd t1 \<noteq> ?t"
        using T ne1 p1(1) hd_in_set[OF ne1] by (simp, metis Un_iff set_append)
      have "dlist h l ((ps @ r1) @ t1)" using rep p1(1) by simp
      then have f2: "find_end_of_run h lt (hd t1) ?t = Some (hd (t2 @ [?t]))"
        by (rule find_end_of_run_dlist[OF _ ne1 s2])
      have "dlist h l (ps @ r1 @ r2 @ t2)" using rep xs by simp
      from inplace_merge_dlist[OF this p1(3) p2(3)]
      obtain h1 where h1: "inplace_merge h lt (hd xs) (hd t1) (hd (t2 @ [?t])) = Some h1"
        "dlist h1 l (ps @ merge_runs lt r1 r2 @ t2)" "modifies h h1 (set (nodes l (ps @ xs)))"
        using p1(2)[OF ne] p2(2)[OF ne1] by (auto simp: p2(1) p1(1))
      have "\<exists>h'. list_sort_pass h1 lt l (hd (t2 @ [?t])) (cnt + 1) = Some (cnt + 1 + of_nat n', h') \<and>
          dlist h' l ((ps @ merge_runs lt r1 r2) @ zs) \<and>
          modifies h1 h' (set (nodes l ((ps @ merge_runs lt r1 r2) @ t2)))"
        by (rule less.hyps[OF _ _ s3]) (use h1(2) p1(2)[OF ne] in \<open>auto simp: xs\<close>)
      then obtain h' where h': "list_sort_pass h1 lt l (hd (t2 @ [?t])) (cnt + 1) = Some (cnt + 1 + of_nat n', h')"
          "dlist h' l (ps @ ys)" "modifies h1 h' (set (nodes l ((ps @ merge_runs lt r1 r2) @ t2)))"
        by (auto simp: eq(2))
      have "list_sort_pass h lt l (hd xs) cnt = Some (cnt + of_nat n, h')"
        using en hd t1 f1 f2 h1(1) h'(1)
        by (simp add: list_sort_pass.simps[of h lt l "hd xs"] eq(1) algebra_simps)
      moreover have "modifies h h' (set (nodes l (ps @ xs)))"
        by (rule modifies_trans[OF h1(3) h'(3)]) (auto simp: xs set_nodes)
      ultimately show ?thesis using h'(2) hd by auto
    qed
  qed
qed

lemma num_runs_le_length: "num_runs lt xs \<le> length xs"
  by (induction xs rule: induct_list012) auto

lemma list_sort_loop_dlist:
  assumes sw: "strict_weak lt"
  shows "dlist h l xs \<Longrightarrow>
   \<exists>h' ys. list_sort_loop h lt l = Some h' \<and> dlist h' l ys \<and> nondecreasing lt ys \<and>
     mset ys = mset xs \<and> (\<forall>k. class_of lt k ys = class_of lt k xs) \<and>
     modifies h h' (set (nodes l xs))"
proof (induction "num_runs lt xs" arbitrary: h xs rule: less_induct)
  case less
  obtain n ys where p: "sort_pass lt xs = (n, ys)" by fastforce
  note pp = sort_pass_props[OF sw p]
  obtain h1 where h1: "list_sort_pass h lt l (hd (xs @ [tail_of l])) 0 = Some (of_nat n, h1)"
    "dlist h1 l ys" "modifies h h1 (set (nodes l xs))"
    using list_sort_pass_dlist[of h l "[]" xs lt n ys 0] less.prems p by auto
  have "n \<le> length xs"
    using pp num_runs_le_length[of lt xs] by linarith
  then have n: "n < 2 ^ 32" using dlist_length[OF less.prems] by simp
  have gt: "(1 :: size_t) < of_nat n \<longleftrightarrow> 1 < n"
    using n by (simp add: word_less_nat_alt unat_of_nat)
  show ?case
  proof (cases "1 < n")
    case False
    then have "list_sort_loop h lt l = Some h1"
      using h1(1) gt less.prems
      by (simp add: list_sort_loop.simps[of h] list_begin_dlist del: of_nat_eq_1_iff)
    moreover have "nondecreasing lt ys" using False pp by (simp flip: num_runs_nondecreasing)
    ultimately show ?thesis using h1 pp by blast
  next
    case True
    have "\<exists>h' zs. list_sort_loop h1 lt l = Some h' \<and> dlist h' l zs \<and> nondecreasing lt zs \<and>
       mset zs = mset ys \<and> (\<forall>k. class_of lt k zs = class_of lt k ys) \<and>
       modifies h1 h' (set (nodes l ys))"
      by (rule less.hyps[OF _ h1(2)]) (use pp True in linarith)
    then obtain h' zs where h': "list_sort_loop h1 lt l = Some h'" "dlist h' l zs" "nondecreasing lt zs"
      "mset zs = mset ys" "\<forall>k. class_of lt k zs = class_of lt k ys" "modifies h1 h' (set (nodes l ys))"
      by blast
    have "list_sort_loop h lt l = Some h'"
      using h1(1) gt True less.prems h'(1) by (simp add: list_sort_loop.simps[of h] list_begin_dlist)
    moreover have eq: "set ys = set xs" using pp by (metis set_mset_mset)
    have "modifies h h' (set (nodes l xs))"
      by (rule modifies_trans[OF h1(3) h'(6)]) (simp_all add: set_nodes eq)
    ultimately show ?thesis using h' pp by metis
  qed
qed

lemma list_sort_dlist:
  assumes sw: "strict_weak lt" and rep: "dlist h l xs"
  shows "\<exists>h' ys. list_sort h l lt = Some h' \<and> dlist h' l ys \<and> nondecreasing lt ys \<and>
     mset ys = mset xs \<and> (\<forall>k. class_of lt k ys = class_of lt k xs) \<and>
     modifies h h' (set (nodes l xs))"
proof -
  obtain h' ys where h': "list_sort_loop h lt l = Some h'" "dlist h' l ys" "nondecreasing lt ys"
     "mset ys = mset xs" "\<forall>k. class_of lt k ys = class_of lt k xs" "modifies h h' (set (nodes l xs))"
    using list_sort_loop_dlist[OF sw rep] by blast
  have "list_sort h l lt = Some h'"
    using h' dlist_ends(4)[OF rep] is_sorted_dlist[of h' l "[]" ys "[]" lt]
    by (simp add: list_sort_def list_begin_dlist list_end_dlist)
  then show ?thesis using h' by blast
qed

section \<open>Ordered insertion, extrema, removal of duplicates\<close>

lemma insert_position_dlist:
  "dlist h l (ps @ xs) \<Longrightarrow>
   insert_position h lt l e (hd (xs @ [tail_of l])) =
     Some (hd (dropWhile (\<lambda>x. \<not> lt e x) xs @ [tail_of l]))"
proof (induction xs arbitrary: ps)
  case Nil
  then show ?case by (simp add: insert_position.simps[of h] list_end_dlist)
next
  case (Cons x xs)
  have "x \<noteq> tail_of l" using dlistD(1)[OF Cons.prems] by (auto simp: nodes_def)
  then show ?case
    using Cons.IH[of "ps @ [x]"] Cons.prems list_next_dlist[of h l ps x xs]
    by (simp add: insert_position.simps[of h lt l e x] list_end_dlist)
qed

lemma list_insert_ordered_dlist:
  assumes rep: "dlist h l xs" and e: "valid h e" "e \<notin> set (nodes l xs)"
  shows "\<exists>h'. list_insert_ordered h l e lt = Some h' \<and>
     dlist h' l (takeWhile (\<lambda>x. \<not> lt e x) xs @ e # dropWhile (\<lambda>x. \<not> lt e x) xs) \<and>
     modifies h h' (insert e (set (nodes l xs)))"
  using insert_position_dlist[of h l "[]" xs lt e] dlist_ends(4)[OF rep] valid_not_NULL[OF e(1)] assms
    list_insert_dlist[of h l "takeWhile (\<lambda>x. \<not> lt e x) xs" "dropWhile (\<lambda>x. \<not> lt e x) xs" e]
  by (simp add: list_insert_ordered_def list_begin_dlist)

lemma nondecreasing_insert:
  assumes sw: "strict_weak lt" and s: "nondecreasing lt xs"
  shows "nondecreasing lt (takeWhile (\<lambda>x. \<not> lt e x) xs @ e # dropWhile (\<lambda>x. \<not> lt e x) xs)"
  using s
proof (induction xs)
  case (Cons x xs)
  then show ?case
    using strict_weakD(1)[OF sw] by (cases xs) (auto simp: nondecreasing_Cons)
qed simp

fun max_of :: "less_func \<Rightarrow> addr \<Rightarrow> addr list \<Rightarrow> addr" where
  "max_of lt m [] = m"
| "max_of lt m (x # xs) = max_of lt (if lt m x then x else m) xs"

lemma list_max_loop_dlist:
  "dlist h l (ps @ xs) \<Longrightarrow> list_max_loop h lt l m (hd (xs @ [tail_of l])) = Some (max_of lt m xs)"
proof (induction xs arbitrary: ps m)
  case Nil
  then show ?case by (simp add: list_max_loop.simps[of h] list_end_dlist)
next
  case (Cons x xs)
  have "x \<noteq> tail_of l" using dlistD(1)[OF Cons.prems] by (auto simp: nodes_def)
  then show ?case
    using Cons.IH[of "ps @ [x]"] Cons.prems list_next_dlist[of h l ps x xs]
    by (simp add: list_max_loop.simps[of h lt l m x] list_end_dlist)
qed

lemma list_max_dlist:
  assumes rep: "dlist h l xs"
  shows "list_max h l lt = Some (if xs = [] then tail_of l else max_of lt (hd xs) (tl xs))"
proof (cases xs)
  case (Cons x ys)
  have "x \<noteq> tail_of l" using dlistD(1)[OF rep] Cons by (auto simp: nodes_def)
  then show ?thesis
    using rep Cons list_next_dlist[of h l "[]" x ys] list_max_loop_dlist[of h l "[x]" ys lt x]
    by (simp add: list_max_def list_begin_dlist list_end_dlist)
qed (use rep in \<open>simp add: list_max_def list_begin_dlist list_end_dlist\<close>)

lemma max_of_ge:
  assumes sw: "strict_weak lt"
  shows "x \<in> set (m # xs) \<Longrightarrow> \<not> lt (max_of lt m xs) x"
proof (induction xs arbitrary: m x)
  case Nil
  then show ?case using strict_weakD(1)[OF sw] by auto
next
  case (Cons y xs)
  let ?M = "max_of lt (if lt m y then y else m) xs"
  have top: "\<not> lt ?M (if lt m y then y else m)" by (rule Cons.IH) simp
  have "\<not> lt ?M m" "\<not> lt ?M y"
    using top strict_weakD(1)[OF sw, of m y] strict_weakD(2)[OF sw, of ?M y m]
      strict_weakD(2)[OF sw, of ?M m y] by (cases "lt m y"; simp)+
  then show ?case using Cons.prems Cons.IH[of x "if lt m y then y else m"] by auto
qed

lemma max_of_first:
  assumes sw: "strict_weak lt"
  shows "\<exists>us vs. m # xs = us @ max_of lt m xs # vs \<and> (\<forall>u \<in> set us. lt u (max_of lt m xs))"
proof (induction xs arbitrary: m)
  case Nil
  have "[m] = [] @ max_of lt m [] # []" by simp
  then show ?case by (metis empty_iff list.set(1))
next
  case (Cons y xs)
  let ?m = "if lt m y then y else m"
  let ?M = "max_of lt ?m xs"
  have y: "\<not> lt ?M y" using max_of_ge[OF sw, of y m "y # xs"] by simp
  obtain us vs where uv: "?m # xs = us @ ?M # vs" "\<forall>u \<in> set us. lt u ?M"
    using Cons.IH[of ?m] by blast
  have "\<exists>us vs. m # y # xs = us @ ?M # vs \<and> (\<forall>u \<in> set us. lt u ?M)"
  proof (cases "lt m y")
    case True
    have "lt m ?M" using True y strict_weakD(2)[OF sw, of m ?M y] by blast
    then show ?thesis using uv True by (intro exI[of _ "m # us"] exI[of _ vs]) simp
  next
    case F: False
    show ?thesis
    proof (cases us)
      case Nil
      then have "?m # xs = ?M # vs" using uv(1) by (simp only: append_Nil)
      then have M: "?m = ?M" by (rule list.inject[THEN iffD1, THEN conjunct1])
      have "m = ?m" using F by simp
      then have "m = ?M" by (rule trans[OF _ M])
      then have "m # y # xs = [] @ ?M # y # xs" unfolding append_Nil
        by (rule arg_cong[where f = "\<lambda>z. z # y # xs"])
      then show ?thesis by (intro exI[of _ "[]"] exI[of _ "y # xs"] conjI) (assumption, simp)
    next
      case (Cons u us')
      then have "lt y ?M" using uv F strict_weakD(2)[OF sw, of m y ?M] by auto
      then show ?thesis using uv Cons F by (intro exI[of _ "m # y # us'"] exI[of _ vs]) auto
    qed
  qed
  then show ?case unfolding max_of.simps(2) .
qed

text \<open>The minimum is the maximum of the converse order.\<close>

lemma strict_weak_converse: "strict_weak lt \<Longrightarrow> strict_weak (\<lambda>x y. lt y x)"
  unfolding strict_weak_def by blast

lemma list_min_loop_dlist:
  "dlist h l (ps @ xs) \<Longrightarrow>
   list_min_loop h lt l m (hd (xs @ [tail_of l])) = Some (max_of (\<lambda>x y. lt y x) m xs)"
proof (induction xs arbitrary: ps m)
  case Nil
  then show ?case by (simp add: list_min_loop.simps[of h] list_end_dlist)
next
  case (Cons x xs)
  have "x \<noteq> tail_of l" using dlistD(1)[OF Cons.prems] by (auto simp: nodes_def)
  then show ?case
    using Cons.IH[of "ps @ [x]"] Cons.prems list_next_dlist[of h l ps x xs]
    by (simp add: list_min_loop.simps[of h lt l m x] list_end_dlist)
qed

lemma list_min_dlist:
  assumes rep: "dlist h l xs"
  shows "list_min h l lt =
     Some (if xs = [] then tail_of l else max_of (\<lambda>x y. lt y x) (hd xs) (tl xs))"
proof (cases xs)
  case (Cons x ys)
  have "x \<noteq> tail_of l" using dlistD(1)[OF rep] Cons by (auto simp: nodes_def)
  then show ?thesis
    using rep Cons list_next_dlist[of h l "[]" x ys] list_min_loop_dlist[of h l "[x]" ys lt x]
    by (simp add: list_min_def list_begin_dlist list_end_dlist)
qed (use rep in \<open>simp add: list_min_def list_begin_dlist list_end_dlist\<close>)

text \<open>\<open>list_unique\<close> keeps the first of each group of adjacent equal elements.\<close>

fun uniq :: "less_func \<Rightarrow> addr list \<Rightarrow> addr list \<times> addr list" where
  "uniq lt (x # y # ys) =
     (if \<not> lt x y \<and> \<not> lt y x then let (k, d) = uniq lt (x # ys) in (k, y # d)
      else let (k, d) = uniq lt (y # ys) in (x # k, d))"
| "uniq lt xs = (xs, [])"

lemma list_unique_loop_dlist:
  "dlist h l (ps @ x # ys) \<Longrightarrow> uniq lt (x # ys) = (k, d) \<Longrightarrow>
   (dup \<noteq> NULL \<longrightarrow> dlist h dup ds \<and> set (nodes dup ds) \<inter> set (nodes l (ps @ x # ys)) = {}) \<Longrightarrow>
   \<exists>h'. list_unique_loop h lt l dup x = Some h' \<and> dlist h' l (ps @ k) \<and>
     (dup \<noteq> NULL \<longrightarrow> dlist h' dup (ds @ d))"
proof (induction "length ys" arbitrary: h ps x ys k d ds rule: less_induct)
  case less
  let ?t = "tail_of l"
  note rep = less.prems(1)
  have en: "list_end l = Some ?t" by (rule list_end_dlist[OF rep])
  have nx: "list_next h x = Some (hd (ys @ [?t]))" by (rule list_next_dlist[OF rep])
  show ?case
  proof (cases ys)
    case Nil
    then show ?thesis
      using less.prems en nx by (auto simp: list_unique_loop.simps[of h lt l dup x])
  next
    case (Cons y ys')
    have ne: "y \<noteq> ?t" using dlistD(1)[OF rep] Cons by (auto simp: nodes_def)
    show ?thesis
    proof (cases "\<not> lt x y \<and> \<not> lt y x")
      case False
      obtain k' d' where u: "uniq lt (y # ys') = (k', d')" by fastforce
      have eq: "k = x # k'" "d = d'" using less.prems(2) False Cons u by auto
      have "\<exists>h'. list_unique_loop h lt l dup y = Some h' \<and> dlist h' l ((ps @ [x]) @ k') \<and>
          (dup \<noteq> NULL \<longrightarrow> dlist h' dup (ds @ d'))"
        by (rule less.hyps[OF _ _ u]) (use less.prems Cons in \<open>auto simp: set_nodes\<close>)
      then show ?thesis
        using False Cons en nx ne eq by (auto simp: list_unique_loop.simps[of h lt l dup x])
    next
      case True
      obtain k' d' where u: "uniq lt (x # ys') = (k', d')" by fastforce
      have eq: "k = k'" "d = y # d'" using less.prems(2) True Cons u by auto
      obtain h1 where h1: "list_remove h y = Some (hd (ys' @ [?t]), h1)" "dlist h1 l (ps @ x # ys')"
        "modifies h h1 (set (nodes l (ps @ x # ys')))"
        using list_remove_dlist[of h l "ps @ [x]" y ys'] rep Cons by auto
      show ?thesis
      proof (cases "dup = NULL")
        case dN: True
        have "\<exists>h'. list_unique_loop h1 lt l dup x = Some h' \<and> dlist h' l (ps @ k') \<and>
            (dup \<noteq> NULL \<longrightarrow> dlist h' dup (ds @ d'))"
          by (rule less.hyps[OF _ h1(2) u]) (use Cons dN in auto)
        then show ?thesis
          using True Cons en nx ne eq h1(1) dN by (auto simp: list_unique_loop.simps[of h lt l NULL x])
      next
        case dup: False
        then have disj: "dlist h dup ds" "set (nodes dup ds) \<inter> set (nodes l (ps @ x # y # ys')) = {}"
          using less.prems(3) Cons by auto
        have rep1: "dlist h1 dup ds"
          by (subst modifies_dlist[OF h1(3)]) (use disj in \<open>auto simp: set_nodes\<close>)
        have y: "valid h1 y" "y \<notin> set (nodes dup ds)" "y \<notin> set (nodes l (ps @ x # ys'))"
          using modifies_valid[OF h1(3)] dlist_valid[OF rep, of y] disj(2) Cons dlistD(1)[OF rep]
          by (auto simp: nodes_def)
        obtain h2 where h2: "list_push_back h1 dup y = Some h2" "dlist h2 dup (ds @ [y])"
          "modifies h1 h2 (insert y (set (nodes dup ds)))"
          using list_push_back_dlist[OF rep1 y(1,2)] by blast
        have rep2: "dlist h2 l (ps @ x # ys')"
          by (subst modifies_dlist[OF h2(3)]) (use h1(2) y(3) disj(2) in \<open>auto simp: set_nodes\<close>)
        have "\<exists>h'. list_unique_loop h2 lt l dup x = Some h' \<and> dlist h' l (ps @ k') \<and>
            (dup \<noteq> NULL \<longrightarrow> dlist h' dup ((ds @ [y]) @ d'))"
          by (rule less.hyps[OF _ rep2 u])
            (use Cons h2(2) disj(2) y(3) in \<open>auto simp: set_nodes\<close>)
        then show ?thesis
          using True Cons en nx ne eq h1(1) h2(1) dup
          by (auto simp: list_unique_loop.simps[of h lt l dup x])
      qed
    qed
  qed
qed

lemma list_unique_dlist:
  assumes rep: "dlist h l xs" and u: "uniq lt xs = (k, d)"
    and dup: "dup \<noteq> NULL \<Longrightarrow> dlist h dup ds \<and> set (nodes dup ds) \<inter> set (nodes l xs) = {}"
  shows "\<exists>h'. list_unique h l dup lt = Some h' \<and> dlist h' l k \<and> (dup \<noteq> NULL \<longrightarrow> dlist h' dup (ds @ d))"
proof (cases xs)
  case Nil
  then show ?thesis
    using assms dlist_ends(4)[OF rep] by (auto simp: list_unique_def list_empty_dlist)
next
  case (Cons x ys)
  then show ?thesis
    using list_unique_loop_dlist[of h l "[]" x ys lt k d dup ds] assms dlist_ends(4)[OF rep]
    by (simp add: list_unique_def list_empty_dlist list_begin_dlist)
qed

text \<open>On a sorted list the result is strictly increasing and loses only duplicates.\<close>

lemma uniq_props:
  assumes sw: "strict_weak lt"
  shows "nondecreasing lt xs \<Longrightarrow> uniq lt xs = (k, d) \<Longrightarrow>
     successively lt k \<and> mset k + mset d = mset xs \<and> (xs \<noteq> [] \<longrightarrow> k \<noteq> [] \<and> hd k = hd xs)"
proof (induction "length xs" arbitrary: xs k d rule: less_induct)
  case less
  show ?case
  proof (cases xs rule: remdups_adj.cases)
    case (3 x y ys)
    note xs = this
    show ?thesis
    proof (cases "\<not> lt x y \<and> \<not> lt y x")
      case True
      obtain k' d' where u: "uniq lt (x # ys) = (k', d')" by fastforce
      have "nondecreasing lt (x # ys)"
        using less.prems(1) strict_weakD(2)[OF sw, of "hd ys" y x] xs by (auto simp: nondecreasing_Cons)
      then show ?thesis using less.hyps[OF _ _ u] less.prems(2) True u xs by auto
    next
      case False
      obtain k' d' where u: "uniq lt (y # ys) = (k', d')" by fastforce
      have lt: "lt x y" using False less.prems(1) xs by simp
      have k: "k = x # k'" "d = d'" using False less.prems(2) u xs by auto
      have ih: "successively lt k' \<and> mset k' + mset d' = mset (y # ys) \<and> k' \<noteq> [] \<and> hd k' = y"
        using less.hyps[OF _ _ u] less.prems(1) xs by auto
      then show ?thesis using lt k xs by (cases k') auto
    qed
  qed (use less.prems in auto)
qed

end
