(* ===== verification/Kernel_List_Spec.thy ===== *)
theory Kernel_List_Spec
  imports Kernel_List_Sort_Correct
begin

text \<open>
  What the list module promises its clients, stated for every well-formed list and store,
  with concrete stores on which the statements are exercised.
\<close>

section \<open>The representation determines the links\<close>

lemma linked_eq:
  assumes "linked h (us @ x # vs)"
  shows "us \<noteq> [] \<Longrightarrow> prv h x = last us" "vs \<noteq> [] \<Longrightarrow> nxt h x = hd vs"
proof -
  show "prv h x = last us" if "us \<noteq> []"
    using linked_append[of us "x # vs" h] assms that by simp
  show "nxt h x = hd vs" if "vs \<noteq> []"
    using linked_split[of h us x vs] assms that by (cases vs) auto
qed

lemma dlist_same_links:
  assumes rep: "dlist h l xs" "dlist h' l xs" and p: "p \<in> set (nodes l xs)"
  shows "h' p = h p"
proof -
  obtain us vs where s: "nodes l xs = us @ p # vs" using split_list[OF p] by blast
  have "prv h' p = prv h p"
  proof (cases "us = []")
    case True
    then have "p = head_of l" using s by (simp add: nodes_def)
    then show ?thesis using rep dlistD(4) by metis
  next
    case False
    then show ?thesis using linked_eq(1) dlistD(3)[OF rep(1)] dlistD(3)[OF rep(2)] s by metis
  qed
  moreover have "nxt h' p = nxt h p"
  proof (cases "vs = []")
    case True
    then have "p = tail_of l" using s arg_cong[OF s, of last] by (simp add: nodes_def)
    then show ?thesis using rep dlistD(5) by metis
  next
    case False
    then show ?thesis using linked_eq(2) dlistD(3)[OF rep(1)] dlistD(3)[OF rep(2)] s by metis
  qed
  moreover have "valid h p" "valid h' p" using dlistD(2) rep p by blast+
  ultimately show ?thesis
    by (auto simp: valid_def prv_def nxt_def intro!: list_elem.equality)
qed

text \<open>A change confined to a list that ends up holding the same elements is no change.\<close>

lemma modifies_same_list:
  assumes rep: "dlist h l xs" "dlist h' l xs" and m: "modifies h h' S" and sub: "S \<subseteq> set (nodes l xs) \<union> T"
  shows "modifies h h' T"
proof -
  have "h' p = h p" if "p \<notin> T" for p
    using that dlist_same_links[OF rep] m sub by (cases "p \<in> set (nodes l xs)") (auto simp: modifies_def)
  then show ?thesis using m by (simp add: modifies_def)
qed

lemma modifies_empty: "modifies h h' {} \<longleftrightarrow> h' = h"
  by (auto simp: modifies_def)

section \<open>Concrete stores\<close>

text \<open>
  The list at 100 holds 10, 20, 30; the list at 200 holds 40; the elements 50 and 60 are
  in no list.
\<close>

definition ex_heap :: list_heap where
  "ex_heap = [100 \<mapsto> \<lparr>le_prev = 0, le_next = 10\<rparr>, 10 \<mapsto> \<lparr>le_prev = 100, le_next = 20\<rparr>,
     20 \<mapsto> \<lparr>le_prev = 10, le_next = 30\<rparr>, 30 \<mapsto> \<lparr>le_prev = 20, le_next = 108\<rparr>,
     108 \<mapsto> \<lparr>le_prev = 30, le_next = 0\<rparr>,
     200 \<mapsto> \<lparr>le_prev = 0, le_next = 40\<rparr>, 40 \<mapsto> \<lparr>le_prev = 200, le_next = 208\<rparr>,
     208 \<mapsto> \<lparr>le_prev = 40, le_next = 0\<rparr>,
     50 \<mapsto> \<lparr>le_prev = 0, le_next = 0\<rparr>, 60 \<mapsto> \<lparr>le_prev = 0, le_next = 0\<rparr>]"

lemma ex_heap_dlist: "dlist ex_heap 100 [10, 20, 30]" "dlist ex_heap 200 [40]"
  by (simp_all add: dlist_def nodes_def head_of_def tail_of_def valid_def prv_def nxt_def ex_heap_def)

lemma ex_heap_valid: "valid ex_heap 50" "valid ex_heap 60"
  by (simp_all add: valid_def ex_heap_def)

lemma ex_nodes: "set (nodes 100 xs) = {100, 108} \<union> set xs" "set (nodes 200 xs) = {200, 208} \<union> set xs"
  by (auto simp: set_nodes head_of_def tail_of_def)

text \<open>An order on elements: by address, downwards, so that sorting has work to do.\<close>

definition ex_lt :: less_func where
  "ex_lt x y = (unat y div 20 < unat x div 20)"

lemma ex_lt_strict_weak: "strict_weak ex_lt"
  by (auto simp: strict_weak_def ex_lt_def)

section \<open>Properties\<close>

text \<open>C8: \<open>list_sort\<close> returns for every well-formed list and every strict weak order: the
  list afterwards is sorted, is a permutation of the list before, keeps the order of equal
  elements, and no store cell outside the list is written.\<close>

theorem list_sort_correct:
  assumes "strict_weak lt" "dlist h l xs"
  shows "\<exists>h' ys. list_sort h l lt = Some h' \<and> dlist h' l ys \<and>
     sorted_wrt (\<lambda>x y. \<not> lt y x) ys \<and> mset ys = mset xs \<and>
     (\<forall>k. class_of lt k ys = class_of lt k xs) \<and> modifies h h' (set (nodes l xs))"
  using list_sort_dlist[OF assms] nondecreasing_sorted_wrt[OF assms(1)] by auto

theorem list_sort_correct_witness:
  "\<exists>h' ys. list_sort ex_heap 100 ex_lt = Some h' \<and> dlist h' 100 ys \<and>
     sorted_wrt (\<lambda>x y. \<not> ex_lt y x) ys \<and> mset ys = {#10, 20, 30#}"
  using list_sort_correct[OF ex_lt_strict_weak ex_heap_dlist(1)] by auto

text \<open>C9: inserting an element anywhere in a list and removing it again returns the
  element after it and restores every link: only the links of the element itself differ.\<close>

theorem list_insert_remove:
  assumes rep: "dlist h l (xs @ ys)" and e: "valid h e" "e \<notin> set (nodes l (xs @ ys))"
  shows "\<exists>h1 h2. list_insert h (hd (ys @ [tail_of l])) e = Some h1 \<and> dlist h1 l (xs @ e # ys) \<and>
     list_remove h1 e = Some (hd (ys @ [tail_of l]), h2) \<and> dlist h2 l (xs @ ys) \<and> modifies h h2 {e}"
proof -
  obtain h1 where h1: "list_insert h (hd (ys @ [tail_of l])) e = Some h1" "dlist h1 l (xs @ e # ys)"
      "modifies h h1 (insert e (set (nodes l (xs @ ys))))"
    using list_insert_dlist[OF assms] by blast
  obtain h2 where h2: "list_remove h1 e = Some (hd (ys @ [tail_of l]), h2)" "dlist h2 l (xs @ ys)"
      "modifies h1 h2 (set (nodes l (xs @ ys)))"
    using list_remove_dlist[OF h1(2)] by blast
  have "modifies h h2 (insert e (set (nodes l (xs @ ys))))"
    by (rule modifies_trans[OF h1(3) h2(3)]) auto
  then have "modifies h h2 {e}" by (rule modifies_same_list[OF rep h2(2)]) auto
  then show ?thesis using h1 h2 by blast
qed

theorem list_insert_remove_witness:
  "\<exists>h1 h2. list_insert ex_heap 20 50 = Some h1 \<and> dlist h1 100 [10, 50, 20, 30] \<and>
     list_remove h1 50 = Some (20, h2) \<and> dlist h2 100 [10, 20, 30] \<and> modifies ex_heap h2 {50}"
  using list_insert_remove[of ex_heap 100 "[10]" "[20, 30]" 50] ex_heap_dlist(1) ex_heap_valid
  by (simp add: ex_nodes)

text \<open>C10: a list is a first-in first-out queue: the elements pushed at the back come out at
  the front after the elements already there, all of them in order.\<close>

theorem list_fifo:
  assumes "dlist h l xs" "\<forall>e \<in> set es. valid h e" "distinct es" "set es \<inter> set (nodes l xs) = {}"
  shows "\<exists>h1 h2. lq.push_all h l es = Some h1 \<and>
     lq.pop_n h1 l (length (xs @ es)) = Some (xs @ es, h2) \<and> dlist h2 l [] \<and> list_empty h2 l = Some True"
  using lq.fifo[OF assms] lq.is_empty by fastforce

theorem list_fifo_witness:
  "\<exists>h1 h2. lq.push_all ex_heap 200 [60, 50] = Some h1 \<and>
     lq.pop_n h1 200 3 = Some ([40, 60, 50], h2) \<and> dlist h2 200 []"
proof -
  have "\<exists>h1 h2. lq.push_all ex_heap 200 [60, 50] = Some h1 \<and>
     lq.pop_n h1 200 (length ([40] @ [60, 50 :: addr])) = Some ([40] @ [60, 50], h2) \<and> dlist h2 200 [] \<and>
     list_empty h2 200 = Some True"
    by (rule list_fifo[OF ex_heap_dlist(2)]) (simp_all add: ex_heap_valid ex_nodes)
  then show ?thesis by (simp add: numeral_3_eq_3) blast
qed

text \<open>C38: splicing moves a non-empty range of one list in front of any position of another
  list; both lists stay well formed and nothing else is written.\<close>

theorem list_splice_moves:
  assumes "dlist h l (ps @ ss @ rs)" "dlist h l' (xs @ ys)" "ss \<noteq> []"
    "set (nodes l (ps @ ss @ rs)) \<inter> set (nodes l' (xs @ ys)) = {}"
  shows "\<exists>h'. list_splice h (hd (ys @ [tail_of l'])) (hd ss) (hd (rs @ [tail_of l])) = Some h' \<and>
     dlist h' l (ps @ rs) \<and> dlist h' l' (xs @ ss @ ys) \<and>
     modifies h h' (set (nodes l (ps @ ss @ rs)) \<union> set (nodes l' (xs @ ys)))"
  using assms by (rule list_splice_across)

theorem list_splice_moves_witness:
  "\<exists>h'. list_splice ex_heap 40 20 108 = Some h' \<and> dlist h' 100 [10] \<and> dlist h' 200 [20, 30, 40]"
  using list_splice_moves[of ex_heap 100 "[10]" "[20, 30]" "[]" 200 "[]" "[40]"] ex_heap_dlist
  by (auto simp: ex_nodes tail_of_def)

text \<open>\<open>list_reverse\<close> reverses the list, and reversing twice restores the store exactly.\<close>

lemma list_reverse_twice:
  assumes rep: "dlist h l xs"
  shows "\<exists>h1. list_reverse h l = Some h1 \<and> dlist h1 l (rev xs) \<and> list_reverse h1 l = Some h"
proof -
  obtain h1 where h1: "list_reverse h l = Some h1" "dlist h1 l (rev xs)" "modifies h h1 (set (nodes l xs))"
    using list_reverse_dlist[OF rep] by blast
  obtain h2 where h2: "list_reverse h1 l = Some h2" "dlist h2 l xs" "modifies h1 h2 (set (nodes l (rev xs)))"
    using list_reverse_dlist[OF h1(2)] by auto
  have "modifies h h2 (set (nodes l xs))"
    by (rule modifies_trans[OF h1(3) h2(3)]) (auto simp: set_nodes)
  then have "modifies h h2 {}" by (rule modifies_same_list[OF rep h2(2)]) simp
  then show ?thesis using h1 h2 by (simp add: modifies_empty)
qed

lemma list_reverse_twice_example:
  "\<exists>h1. list_reverse ex_heap 100 = Some h1 \<and> dlist h1 100 [30, 20, 10] \<and> list_reverse h1 100 = Some ex_heap"
  using list_reverse_twice[OF ex_heap_dlist(1)] by simp

text \<open>Ordered insertion into a sorted list puts the element after all elements that
  are not greater, keeps the list sorted and writes only the list and the element.\<close>

lemma list_insert_ordered_sorted:
  assumes "strict_weak lt" "dlist h l xs" "sorted_wrt (\<lambda>x y. \<not> lt y x) xs" "valid h e" "e \<notin> set (nodes l xs)"
  shows "\<exists>h' us vs. list_insert_ordered h l e lt = Some h' \<and> xs = us @ vs \<and> dlist h' l (us @ e # vs) \<and>
     sorted_wrt (\<lambda>x y. \<not> lt y x) (us @ e # vs) \<and> (\<forall>u \<in> set us. \<not> lt e u) \<and> (\<forall>v \<in> set vs. lt e v) \<and>
     modifies h h' (insert e (set (nodes l xs)))"
proof -
  let ?us = "takeWhile (\<lambda>x. \<not> lt e x) xs" and ?vs = "dropWhile (\<lambda>x. \<not> lt e x) xs"
  have nd: "nondecreasing lt xs" using assms(3) by (simp add: nondecreasing_sorted_wrt[OF assms(1)])
  have s: "sorted_wrt (\<lambda>x y. \<not> lt y x) (?us @ e # ?vs)"
    using nondecreasing_insert[OF assms(1) nd, of e] by (simp add: nondecreasing_sorted_wrt[OF assms(1)])
  have "\<forall>v \<in> set ?vs. lt e v"
  proof (cases ?vs)
    case (Cons v vs')
    have v: "lt e v" using hd_dropWhile[of "\<lambda>x. \<not> lt e x" xs] unfolding Cons by simp
    have "sorted_wrt (\<lambda>x y. \<not> lt y x) (v # vs')" using s
      unfolding Cons sorted_wrt_append sorted_wrt.simps(2) by blast
    then have w: "\<not> lt w v" if "w \<in> set vs'" for w using that by simp
    have "lt e w" if "w \<in> set vs'" for w
      using strict_weakD(2)[OF assms(1), of e w v] w[OF that] v by blast
    then show ?thesis unfolding Cons using v by simp
  next
    case Nil
    show ?thesis unfolding Nil by simp
  qed
  moreover have "\<forall>u \<in> set ?us. \<not> lt e u" by (blast dest: set_takeWhileD)
  moreover have "xs = ?us @ ?vs" by (rule takeWhile_dropWhile_id [symmetric])
  moreover obtain h' where "list_insert_ordered h l e lt = Some h'" "dlist h' l (?us @ e # ?vs)"
      "modifies h h' (insert e (set (nodes l xs)))"
    using list_insert_ordered_dlist[OF assms(2,4,5), of lt] by (elim exE conjE)
  ultimately show ?thesis
    using s by (intro exI[of _ h'] exI[of _ ?us] exI[of _ ?vs] conjI) assumption+
qed

definition ex_up :: less_func where
  "ex_up x y = (x < y)"

lemma ex_up_strict_weak: "strict_weak ex_up"
  by (auto simp: strict_weak_def ex_up_def)

lemma list_insert_ordered_sorted_example:
  "\<exists>h' us vs. list_insert_ordered ex_heap 100 50 ex_up = Some h' \<and> [10, 20, 30] = us @ vs \<and>
     dlist h' 100 (us @ 50 # vs)"
proof -
  have "sorted_wrt (\<lambda>x y. \<not> ex_up y x) [10, 20, 30]" by (simp add: ex_up_def)
  then show ?thesis
    using list_insert_ordered_sorted[OF ex_up_strict_weak ex_heap_dlist(1) _ ex_heap_valid(1)]
    by (simp add: ex_nodes) blast
qed

text \<open>On a sorted list \<open>list_unique\<close> leaves a strictly increasing list that starts with
  the same element, and moves exactly the removed elements to the back of the duplicates list.\<close>

lemma list_unique_sorted:
  assumes "strict_weak lt" "sorted_wrt (\<lambda>x y. \<not> lt y x) xs" "dlist h l xs" "dlist h dup ds"
    "set (nodes dup ds) \<inter> set (nodes l xs) = {}"
  shows "\<exists>h' k d. list_unique h l dup lt = Some h' \<and> dlist h' l k \<and> dlist h' dup (ds @ d) \<and>
     successively lt k \<and> mset k + mset d = mset xs \<and> (xs \<noteq> [] \<longrightarrow> k \<noteq> [] \<and> hd k = hd xs)"
proof -
  obtain k d where u: "uniq lt xs = (k, d)" by fastforce
  have "nondecreasing lt xs" using assms(2) by (simp add: nondecreasing_sorted_wrt[OF assms(1)])
  then have "successively lt k \<and> mset k + mset d = mset xs \<and> (xs \<noteq> [] \<longrightarrow> k \<noteq> [] \<and> hd k = hd xs)"
    using uniq_props[OF assms(1) _ u] by blast
  moreover have "dup \<noteq> NULL" using dlist_ends(4)[OF assms(4)] by simp
  moreover have "\<exists>h'. list_unique h l dup lt = Some h' \<and> dlist h' l k \<and> (dup \<noteq> NULL \<longrightarrow> dlist h' dup (ds @ d))"
    by (rule list_unique_dlist[OF assms(3) u]) (use assms in simp)
  ultimately show ?thesis by blast
qed

definition ex_tens :: less_func where
  "ex_tens x y = (unat x div 20 < unat y div 20)"

lemma ex_tens_strict_weak: "strict_weak ex_tens"
  by (auto simp: strict_weak_def ex_tens_def)

lemma list_unique_sorted_example:
  "\<exists>h' k d. list_unique ex_heap 100 200 ex_tens = Some h' \<and> dlist h' 100 k \<and> dlist h' 200 ([40] @ d) \<and>
     successively ex_tens k \<and> mset k + mset d = {#10, 20, 30#}"
proof -
  have s: "sorted_wrt (\<lambda>x y. \<not> ex_tens y x) [10, 20, 30]" by (simp add: ex_tens_def)
  have d: "set (nodes 200 [40]) \<inter> set (nodes 100 [10, 20, 30]) = {}" by (simp add: ex_nodes)
  show ?thesis
    using list_unique_sorted[OF ex_tens_strict_weak s ex_heap_dlist d] by (simp add: add_mset_commute) blast
qed

text \<open>\<open>list_size\<close> counts the elements, whatever the list, and never wraps.\<close>

lemma list_size_counts:
  assumes "dlist h l xs"
  shows "\<exists>n. list_size h l = Some n \<and> unat n = length xs"
  using list_size_dlist[OF assms] dlist_length[OF assms] by (simp add: unat_of_nat)

lemma list_size_counts_example: "\<exists>n. list_size ex_heap 100 = Some n \<and> unat n = 3"
  using list_size_counts[OF ex_heap_dlist(1)] by (simp add: numeral_3_eq_3)

text \<open>\<open>list_max\<close> returns a greatest element of a non-empty list, the first one of
  several, and the tail of an empty one.\<close>

lemma list_max_greatest:
  assumes sw: "strict_weak lt" and rep: "dlist h l xs"
  shows "\<exists>m. list_max h l lt = Some m \<and> (xs = [] \<longrightarrow> m = tail_of l) \<and>
     (xs \<noteq> [] \<longrightarrow> (\<exists>us vs. xs = us @ m # vs \<and> (\<forall>u \<in> set us. lt u m) \<and> (\<forall>x \<in> set xs. \<not> lt m x)))"
proof (cases xs)
  case (Cons x ys)
  obtain us vs where "x # ys = us @ max_of lt x ys # vs" "\<forall>u \<in> set us. lt u (max_of lt x ys)"
    using max_of_first[OF sw] by blast
  moreover have "\<forall>z \<in> set (x # ys). \<not> lt (max_of lt x ys) z" using max_of_ge[OF sw] by blast
  moreover have "list_max h l lt = Some (max_of lt x ys)" using list_max_dlist[OF rep, of lt] Cons by simp
  ultimately show ?thesis unfolding Cons by blast
qed (use list_max_dlist[OF rep, of lt] in simp)

lemma list_max_greatest_example:
  "\<exists>m. list_max ex_heap 100 ex_up = Some m \<and> \<not> ex_up m 10 \<and> \<not> ex_up m 20 \<and> \<not> ex_up m 30"
  using list_max_greatest[OF ex_up_strict_weak ex_heap_dlist(1)] by auto



end
