(* ===== verification/Kernel_Bitmap.thy ===== *)
theory Kernel_Bitmap
  imports Kernel_Prelude
begin

unbundle bit_operations_syntax

text \<open>
  The bitmaps of lib/kernel/bitmap.c: an array of 32-bit elements that simulates an array
  of bits.  A bitmap is the record of its \<open>bit_cnt\<close> and its element array; sizes and
  indices are \<open>size_t\<close> words and wrap as they do on the target.  The operations return
  \<open>None\<close> where an \<open>ASSERT\<close> fails or an element outside the array would be accessed.
  \<open>bits_of b\<close> is the abstraction: the list of the \<open>bit_cnt\<close> bits.

  Where the bitmap lives (\<open>bitmap_create\<close> takes it from \<open>malloc\<close>) is not part of this theory;
  \<open>bitmap_create_in_buf\<close> is modelled by the bitmap it leaves in the buffer.
\<close>

section \<open>Data and index computations\<close>

type_synonym elem_type = "32 word"

record bitmap =
  bit_cnt :: size_t
  bm_bits :: "elem_type list"

text \<open>\<open>ELEM_BITS\<close> is \<open>sizeof (elem_type) * CHAR_BIT\<close> and \<open>BITMAP_ERROR\<close> is \<open>SIZE_MAX\<close>.\<close>

definition ELEM_BITS :: size_t where
  "ELEM_BITS = 32"

definition BITMAP_ERROR :: size_t where
  "BITMAP_ERROR = 0xFFFFFFFF"

definition DIV_ROUND_UP :: "size_t \<Rightarrow> size_t \<Rightarrow> size_t" where
  "DIV_ROUND_UP x step = (x + step - 1) div step"

definition elem_idx :: "size_t \<Rightarrow> size_t" where
  "elem_idx bit_idx = bit_idx div ELEM_BITS"

definition bit_mask :: "size_t \<Rightarrow> elem_type" where
  "bit_mask bit_idx = push_bit (unat (bit_idx mod ELEM_BITS)) 1"

definition elem_cnt :: "size_t \<Rightarrow> size_t" where
  "elem_cnt cnt = DIV_ROUND_UP cnt ELEM_BITS"

definition byte_cnt :: "size_t \<Rightarrow> size_t" where
  "byte_cnt cnt = 4 * elem_cnt cnt"

text \<open>\<open>sizeof (struct bitmap)\<close> is 8: a \<open>size_t\<close> and a pointer.\<close>

definition bitmap_buf_size :: "size_t \<Rightarrow> size_t" where
  "bitmap_buf_size cnt = 8 + byte_cnt cnt"

definition bitmap_size :: "bitmap \<Rightarrow> size_t" where
  "bitmap_size b = bit_cnt b"

text \<open>Access to \<open>b->bits[idx]\<close>, inside the array only.\<close>

definition get_elem :: "bitmap \<Rightarrow> size_t \<Rightarrow> elem_type option" where
  "get_elem b idx = (if unat idx < length (bm_bits b) then Some (bm_bits b ! unat idx) else None)"

definition set_elem :: "bitmap \<Rightarrow> size_t \<Rightarrow> elem_type \<Rightarrow> bitmap option" where
  "set_elem b idx e =
     (if unat idx < length (bm_bits b) then Some (b\<lparr>bm_bits := (bm_bits b)[unat idx := e]\<rparr>) else None)"

section \<open>Single bits\<close>

definition bitmap_mark :: "bitmap \<Rightarrow> size_t \<Rightarrow> bitmap option" where
  "bitmap_mark b bit_idx = do {
     let idx = elem_idx bit_idx;
     let mask = bit_mask bit_idx;
     e \<leftarrow> get_elem b idx;
     set_elem b idx (e OR mask) }"

definition bitmap_reset :: "bitmap \<Rightarrow> size_t \<Rightarrow> bitmap option" where
  "bitmap_reset b bit_idx = do {
     let idx = elem_idx bit_idx;
     let mask = bit_mask bit_idx;
     e \<leftarrow> get_elem b idx;
     set_elem b idx (e AND NOT mask) }"

definition bitmap_set :: "bitmap \<Rightarrow> size_t \<Rightarrow> bool \<Rightarrow> bitmap option" where
  "bitmap_set b idx v = do {
     ASSERT (idx < bit_cnt b);
     if v then bitmap_mark b idx else bitmap_reset b idx }"

definition bitmap_test :: "bitmap \<Rightarrow> size_t \<Rightarrow> bool option" where
  "bitmap_test b idx = do {
     ASSERT (idx < bit_cnt b);
     e \<leftarrow> get_elem b (elem_idx idx);
     Some (e AND bit_mask idx \<noteq> 0) }"

section \<open>Ranges of bits\<close>

function bitmap_set_loop :: "bitmap \<Rightarrow> size_t \<Rightarrow> size_t \<Rightarrow> bool \<Rightarrow> size_t \<Rightarrow> bitmap option" where
  "bitmap_set_loop b start cnt v i =
     (if i < cnt then
        (case bitmap_set b (start + i) v of None \<Rightarrow> None
         | Some b \<Rightarrow> bitmap_set_loop b start cnt v (i + 1))
      else Some b)"
  by pat_completeness auto
termination
  by (relation "measure (\<lambda>(b, start, cnt, v, i). unat cnt - unat i)") (auto simp: word_loop)

definition bitmap_set_multiple :: "bitmap \<Rightarrow> size_t \<Rightarrow> size_t \<Rightarrow> bool \<Rightarrow> bitmap option" where
  "bitmap_set_multiple b start cnt v = do {
     ASSERT (start \<le> bit_cnt b);
     ASSERT (start + cnt \<le> bit_cnt b);
     bitmap_set_loop b start cnt v 0 }"

definition bitmap_set_all :: "bitmap \<Rightarrow> bool \<Rightarrow> bitmap option" where
  "bitmap_set_all b v = bitmap_set_multiple b 0 (bitmap_size b) v"

function bitmap_contains_loop :: "bitmap \<Rightarrow> size_t \<Rightarrow> size_t \<Rightarrow> bool \<Rightarrow> size_t \<Rightarrow> bool option" where
  "bitmap_contains_loop b start cnt v i =
     (if i < cnt then
        (case bitmap_test b (start + i) of None \<Rightarrow> None
         | Some t \<Rightarrow> if t = v then Some True else bitmap_contains_loop b start cnt v (i + 1))
      else Some False)"
  by pat_completeness auto
termination
  by (relation "measure (\<lambda>(b, start, cnt, v, i). unat cnt - unat i)") (auto simp: word_loop)

definition bitmap_contains :: "bitmap \<Rightarrow> size_t \<Rightarrow> size_t \<Rightarrow> bool \<Rightarrow> bool option" where
  "bitmap_contains b start cnt v = do {
     ASSERT (start \<le> bit_cnt b);
     ASSERT (start + cnt \<le> bit_cnt b);
     bitmap_contains_loop b start cnt v 0 }"

definition bitmap_any :: "bitmap \<Rightarrow> size_t \<Rightarrow> size_t \<Rightarrow> bool option" where
  "bitmap_any b start cnt = bitmap_contains b start cnt True"

definition bitmap_none :: "bitmap \<Rightarrow> size_t \<Rightarrow> size_t \<Rightarrow> bool option" where
  "bitmap_none b start cnt = map_option Not (bitmap_contains b start cnt True)"

definition bitmap_all :: "bitmap \<Rightarrow> size_t \<Rightarrow> size_t \<Rightarrow> bool option" where
  "bitmap_all b start cnt = map_option Not (bitmap_contains b start cnt False)"

section \<open>Finding groups of bits\<close>

text \<open>
  The loop \<open>for (i = start; i <= last; i++)\<close>.  With \<open>last = SIZE_MAX\<close> it would never leave,
  so it is an \<open>option\<close>-valued loop here; \<open>bitmap_scan\<close> is shown to return.
\<close>

partial_function (option) bitmap_scan_loop ::
  "bitmap \<Rightarrow> size_t \<Rightarrow> bool \<Rightarrow> size_t \<Rightarrow> size_t \<Rightarrow> size_t option" where
  "bitmap_scan_loop b cnt v lst i =
     (if i \<le> lst then do {
        c \<leftarrow> bitmap_contains b i cnt (\<not> v);
        if \<not> c then Some i else bitmap_scan_loop b cnt v lst (i + 1) }
      else Some BITMAP_ERROR)"

definition bitmap_scan :: "bitmap \<Rightarrow> size_t \<Rightarrow> size_t \<Rightarrow> bool \<Rightarrow> size_t option" where
  "bitmap_scan b start cnt v = do {
     ASSERT (start \<le> bit_cnt b);
     if cnt \<le> bit_cnt b then bitmap_scan_loop b cnt v (bit_cnt b - cnt) start
     else Some BITMAP_ERROR }"

definition bitmap_scan_and_flip ::
  "bitmap \<Rightarrow> size_t \<Rightarrow> size_t \<Rightarrow> bool \<Rightarrow> (size_t \<times> bitmap) option" where
  "bitmap_scan_and_flip b start cnt v = do {
     idx \<leftarrow> bitmap_scan b start cnt v;
     if idx \<noteq> BITMAP_ERROR then do {
       b \<leftarrow> bitmap_set_multiple b idx cnt (\<not> v); Some (idx, b) }
     else Some (idx, b) }"

section \<open>Creation in a buffer\<close>

text \<open>
  \<open>bitmap_create_in_buf (bit_cnt, block, block_size)\<close>: the structure is put at the start of
  \<open>block\<close> and its elements are the words that follow, of which the buffer holds
  \<open>(block_size - 8) div 4\<close>.  \<open>contents\<close> is what those words held before.
\<close>

definition bitmap_create_in_buf :: "size_t \<Rightarrow> elem_type list \<Rightarrow> size_t \<Rightarrow> bitmap option" where
  "bitmap_create_in_buf cnt contents block_size = do {
     ASSERT (bitmap_buf_size cnt \<le> block_size);
     bitmap_set_all \<lparr>bit_cnt = cnt, bm_bits = take ((unat block_size - 8) div 4) contents\<rparr> False }"

text \<open>The loops are executable.\<close>

declare bitmap_scan_loop.simps [code]

end
