(* ===== verification/Kernel_Bitmap_Rep.thy ===== *)
theory Kernel_Bitmap_Rep
  imports Kernel_Bitmap
begin

text \<open>
  The bitmap operations refine operations on a list of booleans: testing is indexing,
  setting a range is replacing a segment, scanning is a search for the first group.
\<close>

definition bm_wf :: "bitmap \<Rightarrow> bool" where
  "bm_wf b \<longleftrightarrow> unat (bit_cnt b) \<le> 32 * length (bm_bits b)"

definition bits_of :: "bitmap \<Rightarrow> bool list" where
  "bits_of b = map (\<lambda>i. bit (bm_bits b ! (i div 32)) (i mod 32)) [0..<unat (bit_cnt b)]"

lemma length_bits_of [simp]: "length (bits_of b) = unat (bit_cnt b)"
  by (simp add: bits_of_def)

lemma nth_bits_of:
  "i < unat (bit_cnt b) \<Longrightarrow> bits_of b ! i = bit (bm_bits b ! (i div 32)) (i mod 32)"
  by (simp add: bits_of_def)

section \<open>Single bits\<close>

lemma unat_elem_idx [simp]: "unat (elem_idx i) = unat i div 32"
  by (simp add: elem_idx_def ELEM_BITS_def unat_div)

lemma bit_mask_eq: "bit_mask i = push_bit (unat i mod 32) 1"
  by (simp add: bit_mask_def ELEM_BITS_def unat_mod)

lemma bit_bit_mask: "bit (bit_mask i) k \<longleftrightarrow> k = unat i mod 32"
  by (auto simp: bit_mask_eq bit_simps)

lemma elem_idx_in_range:
  "bm_wf b \<Longrightarrow> i < bit_cnt b \<Longrightarrow> unat i div 32 < length (bm_bits b)"
  by (auto simp: bm_wf_def word_less_nat_alt less_mult_imp_div_less mult.commute)

lemma and_bit_mask: "e AND bit_mask i \<noteq> 0 \<longleftrightarrow> bit e (unat i mod 32)"
proof -
  have "e AND bit_mask i = (if bit e (unat i mod 32) then bit_mask i else 0)"
    by (rule bit_eqI) (auto simp: bit_and_iff bit_bit_mask)
  moreover have "bit_mask i \<noteq> 0"
    using bit_bit_mask[of i "unat i mod 32"] by auto
  ultimately show ?thesis by simp
qed

lemma bitmap_test_rep:
  assumes "bm_wf b" "i < bit_cnt b"
  shows "bitmap_test b i = Some (bits_of b ! unat i)"
  using assms elem_idx_in_range[OF assms]
  by (simp add: bitmap_test_def get_elem_def and_bit_mask nth_bits_of word_less_nat_alt)

lemma bits_of_update:
  assumes wf: "bm_wf b" and i: "i < bit_cnt b"
    and e: "\<And>k. k < 32 \<Longrightarrow> bit e k = (if k = unat i mod 32 then v else bit (bm_bits b ! (unat i div 32)) k)"
  shows "bits_of (b\<lparr>bm_bits := (bm_bits b)[unat i div 32 := e]\<rparr>) = (bits_of b)[unat i := v]"
proof (rule nth_equalityI)
  fix k assume "k < length (bits_of (b\<lparr>bm_bits := (bm_bits b)[unat i div 32 := e]\<rparr>))"
  then have k: "k < unat (bit_cnt b)" by simp
  have "k = unat i \<longleftrightarrow> k div 32 = unat i div 32 \<and> k mod 32 = unat i mod 32"
    by (metis div_mult_mod_eq)
  then show "bits_of (b\<lparr>bm_bits := (bm_bits b)[unat i div 32 := e]\<rparr>) ! k = (bits_of b)[unat i := v] ! k"
    using k e[of "k mod 32"] elem_idx_in_range[OF wf i]
    by (auto simp: nth_bits_of nth_list_update)
qed simp

lemma bitmap_set_rep:
  assumes wf: "bm_wf b" and i: "i < bit_cnt b"
  shows "\<exists>b'. bitmap_set b i v = Some b' \<and> bm_wf b' \<and> bit_cnt b' = bit_cnt b \<and>
     bits_of b' = (bits_of b)[unat i := v]"
proof -
  let ?e = "bm_bits b ! (unat i div 32)"
  let ?e' = "if v then ?e OR bit_mask i else ?e AND NOT (bit_mask i)"
  let ?b = "b\<lparr>bm_bits := (bm_bits b)[unat i div 32 := ?e']\<rparr>"
  have "bitmap_set b i v = Some ?b"
    using i elem_idx_in_range[OF wf i]
    by (simp add: bitmap_set_def bitmap_mark_def bitmap_reset_def get_elem_def set_elem_def Let_def)
  moreover have "bits_of ?b = (bits_of b)[unat i := v]"
    by (rule bits_of_update[OF wf i]) (auto simp: bit_or_iff bit_and_iff bit_not_iff bit_bit_mask)
  moreover have "bm_wf ?b" using wf by (simp add: bm_wf_def)
  ultimately show ?thesis by (intro exI[of _ ?b]) simp
qed

section \<open>Ranges\<close>

text \<open>Replacing a segment of a list.\<close>

definition set_range :: "nat \<Rightarrow> nat \<Rightarrow> 'a \<Rightarrow> 'a list \<Rightarrow> 'a list" where
  "set_range s n v xs = take s xs @ replicate n v @ drop (s + n) xs"

lemma length_set_range [simp]: "s + n \<le> length xs \<Longrightarrow> length (set_range s n v xs) = length xs"
  by (simp add: set_range_def)

lemma nth_set_range:
  "s + n \<le> length xs \<Longrightarrow> i < length xs \<Longrightarrow>
   set_range s n v xs ! i = (if s \<le> i \<and> i < s + n then v else xs ! i)"
  by (auto simp: set_range_def nth_append)

lemma set_range_0 [simp]: "set_range s 0 v xs = xs"
  by (simp add: set_range_def)

lemma set_range_step:
  "s + n < length xs \<Longrightarrow> set_range (Suc s) n v (xs[s := v]) = set_range s (Suc n) v xs"
  by (rule nth_equalityI) (auto simp: nth_set_range nth_list_update)

lemma bitmap_set_loop_rep:
  assumes "bm_wf b" "unat start + unat cnt \<le> unat (bit_cnt b)" "unat i \<le> unat cnt"
  shows "\<exists>b'. bitmap_set_loop b start cnt v i = Some b' \<and> bm_wf b' \<and> bit_cnt b' = bit_cnt b \<and>
     bits_of b' = set_range (unat start + unat i) (unat cnt - unat i) v (bits_of b)"
  using assms
proof (induction b start cnt v i rule: bitmap_set_loop.induct)
  case (1 b start cnt v i)
  show ?case
  proof (cases "i < cnt")
    case False
    then have "unat i = unat cnt" using "1.prems" by (simp add: word_less_nat_alt)
    then show ?thesis using False "1.prems" by (subst bitmap_set_loop.simps) simp
  next
    case True
    have i1: "unat (i + 1) = Suc (unat i)" by (rule unat_Suc_less[OF True])
    have lt: "unat start + unat i < unat (bit_cnt b)" using True "1.prems" by (simp add: word_less_nat_alt)
    then have s: "unat (start + i) = unat start + unat i"
      using le_cnt_no_wrap(1)[of start i "bit_cnt b"] by simp
    obtain b1 where b1: "bitmap_set b (start + i) v = Some b1" "bm_wf b1" "bit_cnt b1 = bit_cnt b"
      "bits_of b1 = (bits_of b)[unat start + unat i := v]"
      using bitmap_set_rep[of b "start + i" v] "1.prems"(1) lt s by (auto simp: word_less_nat_alt)
    have "\<exists>b'. bitmap_set_loop b1 start cnt v (i + 1) = Some b' \<and> bm_wf b' \<and> bit_cnt b' = bit_cnt b1 \<and>
        bits_of b' = set_range (unat start + unat (i + 1)) (unat cnt - unat (i + 1)) v (bits_of b1)"
      by (rule "1.IH"[OF True b1(1)]) (use b1 "1.prems" True i1 in \<open>auto simp: word_less_nat_alt\<close>)
    then obtain b' where b': "bitmap_set_loop b1 start cnt v (i + 1) = Some b'" "bm_wf b'" "bit_cnt b' = bit_cnt b"
        "bits_of b' = set_range (Suc (unat start + unat i)) (unat cnt - Suc (unat i)) v (bits_of b1)"
      using b1(3) i1 by auto
    have "bits_of b' = set_range (unat start + unat i) (Suc (unat cnt - Suc (unat i))) v (bits_of b)"
      unfolding b'(4) b1(4)
      by (rule set_range_step) (use "1.prems"(2) True in \<open>simp add: word_less_nat_alt\<close>)
    moreover have "Suc (unat cnt - Suc (unat i)) = unat cnt - unat i"
      using True by (simp add: word_less_nat_alt)
    ultimately show ?thesis
      using b' b1(1) True by (subst bitmap_set_loop.simps) simp
  qed
qed

lemma bitmap_set_multiple_rep:
  assumes "bm_wf b" "unat start + unat cnt \<le> unat (bit_cnt b)"
  shows "\<exists>b'. bitmap_set_multiple b start cnt v = Some b' \<and> bm_wf b' \<and> bit_cnt b' = bit_cnt b \<and>
     bits_of b' = set_range (unat start) (unat cnt) v (bits_of b)"
  using bitmap_set_loop_rep[OF assms, of 0 v] le_cnt_no_wrap[OF assms(2)]
  by (simp add: bitmap_set_multiple_def)

lemma bitmap_set_all_rep:
  assumes "bm_wf b"
  shows "\<exists>b'. bitmap_set_all b v = Some b' \<and> bm_wf b' \<and> bit_cnt b' = bit_cnt b \<and>
     bits_of b' = replicate (unat (bit_cnt b)) v"
  using bitmap_set_multiple_rep[OF assms, of 0 "bit_cnt b" v]
  by (simp add: bitmap_set_all_def bitmap_size_def set_range_def)

text \<open>The segment \<open>[s, s + n)\<close> of a list.\<close>

definition segment :: "nat \<Rightarrow> nat \<Rightarrow> 'a list \<Rightarrow> 'a list" where
  "segment s n xs = take n (drop s xs)"

lemma segment_Suc: "s < length xs \<Longrightarrow> segment s (Suc n) xs = xs ! s # segment (Suc s) n xs"
  by (simp add: segment_def Cons_nth_drop_Suc [symmetric])

lemma bitmap_contains_loop_rep:
  assumes "bm_wf b" "unat start + unat cnt \<le> unat (bit_cnt b)" "unat i \<le> unat cnt"
  shows "bitmap_contains_loop b start cnt v i =
     Some (v \<in> set (segment (unat start + unat i) (unat cnt - unat i) (bits_of b)))"
  using assms
proof (induction b start cnt v i rule: bitmap_contains_loop.induct)
  case (1 b start cnt v i)
  show ?case
  proof (cases "i < cnt")
    case False
    then have "unat i = unat cnt" using "1.prems" by (simp add: word_less_nat_alt)
    then show ?thesis using False by (subst bitmap_contains_loop.simps) (simp add: segment_def)
  next
    case True
    have i1: "unat (i + 1) = Suc (unat i)" by (rule unat_Suc_less[OF True])
    have lt: "unat start + unat i < unat (bit_cnt b)" using True "1.prems" by (simp add: word_less_nat_alt)
    then have s: "unat (start + i) = unat start + unat i"
      using le_cnt_no_wrap(1)[of start i "bit_cnt b"] by simp
    have t: "bitmap_test b (start + i) = Some (bits_of b ! (unat start + unat i))"
      using bitmap_test_rep[of b "start + i"] "1.prems"(1) lt s by (simp add: word_less_nat_alt)
    have n: "unat cnt - unat i = Suc (unat cnt - Suc (unat i))" using True by (simp add: word_less_nat_alt)
    have seg: "segment (unat start + unat i) (unat cnt - unat i) (bits_of b) =
        bits_of b ! (unat start + unat i) # segment (Suc (unat start + unat i)) (unat cnt - Suc (unat i)) (bits_of b)"
      unfolding n by (rule segment_Suc) (use lt in simp)
    show ?thesis
    proof (cases "bits_of b ! (unat start + unat i) = v")
      case eq: True
      then show ?thesis using t True seg by (subst bitmap_contains_loop.simps) simp
    next
      case ne: False
      have "bitmap_contains_loop b start cnt v (i + 1) =
          Some (v \<in> set (segment (unat start + unat (i + 1)) (unat cnt - unat (i + 1)) (bits_of b)))"
        by (rule "1.IH"[OF True t ne]) (use "1.prems" True i1 in \<open>auto simp: word_less_nat_alt\<close>)
      then show ?thesis using t True seg ne i1 by (subst bitmap_contains_loop.simps) auto
    qed
  qed
qed

lemma bitmap_contains_rep:
  assumes "bm_wf b" "unat start + unat cnt \<le> unat (bit_cnt b)"
  shows "bitmap_contains b start cnt v = Some (v \<in> set (segment (unat start) (unat cnt) (bits_of b)))"
  using bitmap_contains_loop_rep[OF assms, of 0 v] le_cnt_no_wrap[OF assms(2)]
  by (simp add: bitmap_contains_def)

lemma bitmap_any_rep:
  assumes "bm_wf b" "unat start + unat cnt \<le> unat (bit_cnt b)"
  shows "bitmap_any b start cnt = Some (True \<in> set (segment (unat start) (unat cnt) (bits_of b)))"
    "bitmap_none b start cnt = Some (True \<notin> set (segment (unat start) (unat cnt) (bits_of b)))"
    "bitmap_all b start cnt = Some (False \<notin> set (segment (unat start) (unat cnt) (bits_of b)))"
  using bitmap_contains_rep[OF assms]
  by (simp_all add: bitmap_any_def bitmap_none_def bitmap_all_def)

section \<open>Scanning\<close>

text \<open>The first position of \<open>n\<close> consecutive entries equal to \<open>v\<close>, at or after \<open>s\<close>.\<close>

definition find_group :: "nat \<Rightarrow> nat \<Rightarrow> bool \<Rightarrow> bool list \<Rightarrow> nat option" where
  "find_group s n v xs =
     (if n \<le> length xs
      then find (\<lambda>j. (\<not> v) \<notin> set (segment j n xs)) [s..<Suc (length xs - n)] else None)"

lemma length_segment: "j + n \<le> length xs \<Longrightarrow> length (segment j n xs) = n"
  by (simp add: segment_def)

lemma nth_segment: "j + n \<le> length xs \<Longrightarrow> i < n \<Longrightarrow> segment j n xs ! i = xs ! (j + i)"
  by (simp add: segment_def)

lemma segment_all:
  assumes "j + n \<le> length xs"
  shows "(\<not> v) \<notin> set (segment j n xs) \<longleftrightarrow> (\<forall>i < n. xs ! (j + i) = v)"
  using assms by (auto simp: in_set_conv_nth length_segment nth_segment)

lemma find_group_Some:
  assumes "find_group s n v xs = Some j"
  shows "s \<le> j" "j + n \<le> length xs" "\<And>i. i < n \<Longrightarrow> xs ! (j + i) = v"
    "\<And>k. s \<le> k \<Longrightarrow> k < j \<Longrightarrow> \<exists>i < n. xs ! (k + i) \<noteq> v"
proof -
  let ?P = "\<lambda>j. (\<not> v) \<notin> set (segment j n xs)"
  have n: "n \<le> length xs" and f: "find ?P [s..<Suc (length xs - n)] = Some j"
    using assms by (auto simp: find_group_def split: if_splits)
  obtain i where i: "i < length [s..<Suc (length xs - n)]" "?P ([s..<Suc (length xs - n)] ! i)"
    "j = [s..<Suc (length xs - n)] ! i" "\<And>k. k < i \<Longrightarrow> \<not> ?P ([s..<Suc (length xs - n)] ! k)"
    using f unfolding find_Some_iff by blast
  have j: "j = s + i" "s + i \<le> length xs - n" using i(1,3) by (simp_all add: nth_upt del: upt_Suc)
  show "s \<le> j" "j + n \<le> length xs" using j n by simp_all
  then show "\<And>i. i < n \<Longrightarrow> xs ! (j + i) = v"
    using i(2) unfolding i(3) [symmetric] by (simp add: segment_all)
  show "\<exists>i < n. xs ! (k + i) \<noteq> v" if "s \<le> k" "k < j" for k
  proof -
    have "\<not> ?P ([s..<Suc (length xs - n)] ! (k - s))" by (rule i(4)) (use that j in simp)
    then have "\<not> ?P k" using that j by (simp add: nth_upt del: upt_Suc)
    then show ?thesis using segment_all[of k n xs v] that j n by simp
  qed
qed

lemma find_group_None:
  assumes "find_group s n v xs = None" "s \<le> k" "k + n \<le> length xs"
  shows "\<exists>i < n. xs ! (k + i) \<noteq> v"
proof -
  have n: "n \<le> length xs" and k: "k \<in> set [s..<Suc (length xs - n)]"
    using assms(2,3) by auto
  have "find (\<lambda>j. (\<not> v) \<notin> set (segment j n xs)) [s..<Suc (length xs - n)] = None"
    using assms(1) n by (simp add: find_group_def del: upt_Suc)
  then have "(\<not> v) \<in> set (segment k n xs)"
    using k unfolding find_None_iff by blast
  then show ?thesis using segment_all[OF assms(3), of v] by blast
qed

definition scan_result :: "nat option \<Rightarrow> size_t" where
  "scan_result r = (case r of None \<Rightarrow> BITMAP_ERROR | Some j \<Rightarrow> of_nat j)"

lemma bitmap_scan_loop_rep:
  assumes wf: "bm_wf b" and cnt: "cnt \<le> bit_cnt b" and lst: "lst = bit_cnt b - cnt"
  shows "unat i \<le> Suc (unat lst) \<Longrightarrow>
     bitmap_scan_loop b cnt v lst i = Some (scan_result
       (find (\<lambda>j. (\<not> v) \<notin> set (segment j (unat cnt) (bits_of b))) [unat i..<Suc (unat lst)]))"
proof (induction "Suc (unat lst) - unat i" arbitrary: i rule: less_induct)
  case less
  have ul: "unat lst = unat (bit_cnt b) - unat cnt" using cnt lst by (simp add: unat_sub)
  show ?case
  proof (cases "i \<le> lst")
    case False
    then show ?thesis
      by (simp add: bitmap_scan_loop.simps[of b cnt v lst i] word_le_nat_alt scan_result_def)
  next
    case True
    then have le: "unat i \<le> unat lst" by (simp add: word_le_nat_alt)
    have c: "bitmap_contains b i cnt (\<not> v) =
        Some ((\<not> v) \<in> set (segment (unat i) (unat cnt) (bits_of b)))"
      by (rule bitmap_contains_rep[OF wf]) (use le ul cnt in \<open>simp add: word_le_nat_alt\<close>)
    have upt: "[unat i..<Suc (unat lst)] = unat i # [Suc (unat i)..<Suc (unat lst)]"
      using le by (simp add: upt_rec del: upt_Suc)
    show ?thesis
    proof (cases "(\<not> v) \<in> set (segment (unat i) (unat cnt) (bits_of b))")
      case F: False
      then show ?thesis
        using True c upt
        by (simp add: bitmap_scan_loop.simps[of b cnt v lst i] scan_result_def del: upt_Suc)
    next
      case T: True
      then have "unat cnt \<noteq> 0" by (intro notI) (simp add: segment_def)
      then have "unat i < unat (bit_cnt b)" using le ul cnt by (simp add: word_le_nat_alt)
      then have i1: "unat (i + 1) = Suc (unat i)"
        by (intro unat_Suc_less[of _ "bit_cnt b"]) (simp add: word_less_nat_alt)
      have "bitmap_scan_loop b cnt v lst (i + 1) = Some (scan_result
          (find (\<lambda>j. (\<not> v) \<notin> set (segment j (unat cnt) (bits_of b))) [unat (i + 1)..<Suc (unat lst)]))"
        by (rule less.hyps) (use i1 le in auto)
      then show ?thesis
        using True c upt T i1
        by (simp add: bitmap_scan_loop.simps[of b cnt v lst i] del: upt_Suc)
    qed
  qed
qed

lemma bitmap_scan_rep:
  assumes wf: "bm_wf b" and start: "start \<le> bit_cnt b"
  shows "bitmap_scan b start cnt v =
     Some (scan_result (find_group (unat start) (unat cnt) v (bits_of b)))"
proof (cases "cnt \<le> bit_cnt b")
  case False
  then show ?thesis
    using start by (simp add: bitmap_scan_def find_group_def word_le_nat_alt scan_result_def)
next
  case True
  let ?l = "bit_cnt b - cnt"
  have ul: "unat ?l = unat (bit_cnt b) - unat cnt" using True by (simp add: unat_sub)
  show ?thesis
  proof (cases "unat start \<le> Suc (unat ?l)")
    case le: True
    show ?thesis
      using bitmap_scan_loop_rep[OF wf True refl le, of v] start True ul
      by (simp add: bitmap_scan_def find_group_def word_le_nat_alt del: upt_Suc)
  next
    case gt: False
    then have "\<not> start \<le> ?l" by (simp add: word_le_nat_alt)
    then show ?thesis
      using gt start True ul
      by (simp add: bitmap_scan_def find_group_def bitmap_scan_loop.simps[of b cnt v ?l start]
          word_le_nat_alt scan_result_def)
  qed
qed

text \<open>A group of at least one bit never starts at the error value.\<close>

lemma scan_result_Some:
  assumes "find_group s n v (bits_of b) = Some j" "0 < n"
  shows "scan_result (Some j) \<noteq> BITMAP_ERROR" "unat (scan_result (Some j)) = j"
proof -
  have "j < unat (bit_cnt b)" using find_group_Some(2)[OF assms(1)] assms(2) by simp
  moreover have "unat (bit_cnt b) \<le> unat BITMAP_ERROR"
    using unsigned_less[where ?'a=nat, of "bit_cnt b"] by (simp add: BITMAP_ERROR_def)
  ultimately have j: "j < unat BITMAP_ERROR" by linarith
  then have u: "unat (of_nat j :: size_t) = j"
    by (simp add: unat_of_nat BITMAP_ERROR_def)
  then show "unat (scan_result (Some j)) = j" by (simp add: scan_result_def)
  show "scan_result (Some j) \<noteq> BITMAP_ERROR" using j u by (auto simp: scan_result_def)
qed

lemma bitmap_scan_and_flip_rep:
  assumes wf: "bm_wf b" and start: "start \<le> bit_cnt b" and cnt: "0 < cnt"
  shows "\<exists>b'. bitmap_scan_and_flip b start cnt v =
        Some (scan_result (find_group (unat start) (unat cnt) v (bits_of b)), b') \<and>
     bm_wf b' \<and> bit_cnt b' = bit_cnt b \<and>
     bits_of b' = (case find_group (unat start) (unat cnt) v (bits_of b) of None \<Rightarrow> bits_of b
        | Some j \<Rightarrow> set_range j (unat cnt) (\<not> v) (bits_of b))"
proof (cases "find_group (unat start) (unat cnt) v (bits_of b)")
  case None
  then show ?thesis
    using wf by (simp add: bitmap_scan_and_flip_def bitmap_scan_rep[OF wf start] scan_result_def)
next
  case (Some j)
  have n: "0 < unat cnt" using cnt by (simp add: word_less_nat_alt)
  note r = scan_result_Some[OF Some n]
  have "unat (scan_result (Some j)) + unat cnt \<le> unat (bit_cnt b)"
    using r(2) find_group_Some(2)[OF Some] by simp
  from bitmap_set_multiple_rep[OF wf this, of "\<not> v"] show ?thesis
    using r Some by (auto simp: bitmap_scan_and_flip_def bitmap_scan_rep[OF wf start])
qed

section \<open>Creation\<close>

lemma bitmap_buf_size_nat:
  assumes "unat cnt + 31 < 2 ^ 32"
  shows "unat (bitmap_buf_size cnt) = 8 + 4 * ((unat cnt + 31) div 32)"
proof -
  have s: "unat (cnt + 31) = unat cnt + 31"
    using assms by (subst unat_add_lem [THEN iffD1]) simp_all
  have "unat (elem_cnt cnt) = (unat cnt + 31) div 32"
  proof -
    have "elem_cnt cnt = (cnt + 31) div 32"
      by (simp add: elem_cnt_def DIV_ROUND_UP_def ELEM_BITS_def add.commute)
    then have "unat (elem_cnt cnt) = unat (cnt + 31) div unat (32 :: size_t)" by (simp only: unat_div)
    moreover have "unat (32 :: size_t) = 32" by simp
    ultimately show ?thesis using s by (simp only:)
  qed
  moreover have "(unat cnt + 31) div 32 < 2 ^ 27" by (rule less_mult_imp_div_less) (use assms in simp)
  ultimately show ?thesis
    by (simp add: bitmap_buf_size_def byte_cnt_def unat_word_ariths)
qed

lemma bitmap_create_in_buf_rep:
  assumes cnt: "unat cnt + 31 < 2 ^ 32" and size: "bitmap_buf_size cnt \<le> block_size"
    and buf: "(unat block_size - 8) div 4 \<le> length contents"
  shows "\<exists>b. bitmap_create_in_buf cnt contents block_size = Some b \<and> bm_wf b \<and> bit_cnt b = cnt \<and>
     bits_of b = replicate (unat cnt) False"
proof -
  let ?b = "\<lparr>bit_cnt = cnt, bm_bits = take ((unat block_size - 8) div 4) contents\<rparr>"
  have "8 + 4 * ((unat cnt + 31) div 32) \<le> unat block_size"
    using size bitmap_buf_size_nat[OF cnt] by (simp add: word_le_nat_alt)
  then have "(unat cnt + 31) div 32 \<le> (unat block_size - 8) div 4" by linarith
  then have "bm_wf ?b" using buf by (simp add: bm_wf_def)
  from bitmap_set_all_rep[OF this, of False] show ?thesis
    using size by (simp add: bitmap_create_in_buf_def)
qed

end
