(* ===== verification/Kernel_Bitmap_Spec.thy ===== *)
theory Kernel_Bitmap_Spec
  imports Kernel_Bitmap_Rep
begin

text \<open>
  What the bitmap module promises.  The page allocator uses a bitmap through a small
  interface, an allocator of runs of consecutive slots; the locale \<open>run_allocator\<close> states
  it over the set of used slots, and the bitmap operations are its model.
\<close>

section \<open>The run allocator interface\<close>

locale run_allocator =
  fixes ok :: "'b \<Rightarrow> bool" and total :: "'b \<Rightarrow> nat" and used :: "'b \<Rightarrow> nat set"
    and err :: size_t
    and take_run :: "'b \<Rightarrow> size_t \<Rightarrow> (size_t \<times> 'b) option"
    and free_run :: "'b \<Rightarrow> size_t \<Rightarrow> size_t \<Rightarrow> 'b option"
  assumes used_total: "ok b \<Longrightarrow> used b \<subseteq> {0..<total b}"
    and take_some: "ok b \<Longrightarrow> 0 < n \<Longrightarrow> j + unat n \<le> total b \<Longrightarrow> {j..<j + unat n} \<inter> used b = {} \<Longrightarrow>
      \<exists>i b'. take_run b n = Some (i, b') \<and> i \<noteq> err \<and> ok b' \<and> total b' = total b \<and> unat i \<le> j \<and>
        unat i + unat n \<le> total b \<and> {unat i..<unat i + unat n} \<inter> used b = {} \<and>
        used b' = used b \<union> {unat i..<unat i + unat n}"
    and take_none: "ok b \<Longrightarrow> 0 < n \<Longrightarrow>
      \<forall>j. j + unat n \<le> total b \<longrightarrow> {j..<j + unat n} \<inter> used b \<noteq> {} \<Longrightarrow> take_run b n = Some (err, b)"
    and free: "ok b \<Longrightarrow> unat i + unat n \<le> total b \<Longrightarrow>
      \<exists>b'. free_run b i n = Some b' \<and> ok b' \<and> total b' = total b \<and>
        used b' = used b - {unat i..<unat i + unat n}"
begin

text \<open>A successful request: the run was free and inside, and is used afterwards.\<close>

lemma take_cases:
  assumes "ok b" "0 < n"
  obtains (some) i b' where "take_run b n = Some (i, b')" "i \<noteq> err" "ok b'" "total b' = total b"
      "unat i + unat n \<le> total b" "{unat i..<unat i + unat n} \<inter> used b = {}"
      "used b' = used b \<union> {unat i..<unat i + unat n}"
    | (none) "take_run b n = Some (err, b)" "\<And>j. j + unat n \<le> total b \<Longrightarrow> {j..<j + unat n} \<inter> used b \<noteq> {}"
proof (cases "\<exists>j. j + unat n \<le> total b \<and> {j..<j + unat n} \<inter> used b = {}")
  case True
  then obtain j where "j + unat n \<le> total b" "{j..<j + unat n} \<inter> used b = {}" by blast
  from take_some[OF assms this] show ?thesis using some by blast
next
  case False
  then show ?thesis using take_none[OF assms] none by blast
qed

text \<open>Giving back what was just taken restores the set of used slots.\<close>

lemma take_free:
  assumes "ok b" "0 < n" "take_run b n = Some (i, b1)" "i \<noteq> err"
  shows "\<exists>b2. free_run b1 i n = Some b2 \<and> ok b2 \<and> total b2 = total b \<and> used b2 = used b"
proof -
  from assms(1,2) show ?thesis
  proof (cases rule: take_cases)
    case (some i' b')
    then obtain b2 where "free_run b1 i n = Some b2" "ok b2" "total b2 = total b"
        "used b2 = used b1 - {unat i..<unat i + unat n}"
      using free[of b1 i n] assms(3) by auto
    then show ?thesis using some assms(3) by auto
  next
    case none
    then show ?thesis using assms(3,4) by simp
  qed
qed

text \<open>Two requests in a row never overlap.\<close>

lemma take_take_disjoint:
  assumes "ok b" "0 < n" "0 < m" "take_run b n = Some (i, b1)" "i \<noteq> err"
    "take_run b1 m = Some (j, b2)" "j \<noteq> err"
  shows "{unat i..<unat i + unat n} \<inter> {unat j..<unat j + unat m} = {}"
proof -
  have 1: "ok b1 \<and> used b1 = used b \<union> {unat i..<unat i + unat n}"
    using assms(1,2)
  proof (cases rule: take_cases)
    case (some i' b') then show ?thesis using assms(4) by simp
  qed (use assms(4,5) in simp)
  then have "ok b1" ..
  from this assms(3) have "{unat j..<unat j + unat m} \<inter> used b1 = {}"
  proof (cases rule: take_cases)
    case (some i' b') then show ?thesis using assms(6) by simp
  qed (use assms(6,7) in simp)
  then show ?thesis using 1 by blast
qed

end

section \<open>The bitmap as a run allocator\<close>

definition used_bits :: "bitmap \<Rightarrow> nat set" where
  "used_bits b = {i. i < unat (bit_cnt b) \<and> bits_of b ! i}"

lemma used_bits_set_range:
  assumes "bits_of b' = set_range s n v (bits_of b)" "bit_cnt b' = bit_cnt b" "s + n \<le> unat (bit_cnt b)"
  shows "used_bits b' = (if v then used_bits b \<union> {s..<s + n} else used_bits b - {s..<s + n})"
  using assms by (auto simp: used_bits_def nth_set_range split: if_splits)

lemma segment_free:
  "j + n \<le> unat (bit_cnt b) \<Longrightarrow> (\<forall>i < n. \<not> bits_of b ! (j + i)) \<longleftrightarrow> {j..<j + n} \<inter> used_bits b = {}"
proof
  assume a: "j + n \<le> unat (bit_cnt b)" "{j..<j + n} \<inter> used_bits b = {}"
  show "\<forall>i < n. \<not> bits_of b ! (j + i)"
  proof (intro allI impI)
    fix i assume "i < n"
    then have "j + i \<in> {j..<j + n}" by simp
    then have "j + i \<notin> used_bits b" using a(2) by blast
    then show "\<not> bits_of b ! (j + i)" using a(1) \<open>i < n\<close> by (simp add: used_bits_def)
  qed
next
  assume a: "j + n \<le> unat (bit_cnt b)" "\<forall>i < n. \<not> bits_of b ! (j + i)"
  have "\<not> bits_of b ! k" if "k \<in> {j..<j + n}" for k
  proof -
    have "k - j < n" using that by auto
    then show ?thesis using that a(2)[rule_format, of "k - j"] by simp
  qed
  then show "{j..<j + n} \<inter> used_bits b = {}" by (auto simp: used_bits_def)
qed

lemma find_group_free:
  assumes "find_group 0 n False (bits_of b) = Some i"
  shows "i + n \<le> unat (bit_cnt b)" "{i..<i + n} \<inter> used_bits b = {}"
    "j + n \<le> unat (bit_cnt b) \<Longrightarrow> {j..<j + n} \<inter> used_bits b = {} \<Longrightarrow> i \<le> j"
proof -
  note f = find_group_Some[OF assms]
  show i: "i + n \<le> unat (bit_cnt b)" using f(2) by simp
  show "{i..<i + n} \<inter> used_bits b = {}" using f(3) segment_free[OF i] by blast
  show "i \<le> j" if j: "j + n \<le> unat (bit_cnt b)" "{j..<j + n} \<inter> used_bits b = {}"
  proof (rule ccontr)
    assume "\<not> i \<le> j"
    then show False using f(4)[of j] segment_free[OF j(1)] j(2) by auto
  qed
qed

lemma find_group_full:
  assumes "find_group 0 n False (bits_of b) = None" "j + n \<le> unat (bit_cnt b)"
  shows "{j..<j + n} \<inter> used_bits b \<noteq> {}"
  using find_group_None[OF assms(1), of j] assms(2) segment_free[OF assms(2)] by auto

interpretation rl: run_allocator bm_wf "\<lambda>b. unat (bit_cnt b)" used_bits BITMAP_ERROR
  "\<lambda>b n. bitmap_scan_and_flip b 0 n False" "\<lambda>b i n. bitmap_set_multiple b i n False"
proof (unfold_locales, goal_cases)
  case (1 b) then show ?case by (auto simp: used_bits_def)
next
  case (2 b n j)
  have n: "0 < unat n" using 2(2) by (simp add: word_less_nat_alt)
  obtain i where i: "find_group 0 (unat n) False (bits_of b) = Some i"
    using find_group_full[OF _ 2(3)] 2(4) by (cases "find_group 0 (unat n) False (bits_of b)") auto
  note f = find_group_free[OF i] and r = scan_result_Some[OF i n]
  obtain b' where "bitmap_scan_and_flip b 0 n False = Some (scan_result (Some i), b')" "bm_wf b'"
      "bit_cnt b' = bit_cnt b" "bits_of b' = set_range i (unat n) True (bits_of b)"
    using bitmap_scan_and_flip_rep[OF 2(1) _ 2(2), of 0 False] i by auto
  moreover from this have "used_bits b' = used_bits b \<union> {i..<i + unat n}"
    using used_bits_set_range[of b' i "unat n" True b] f(1) by simp
  ultimately show ?case using r f(1,2) f(3)[OF 2(3,4)] by auto
next
  case (3 b n)
  then have "find_group 0 (unat n) False (bits_of b) = None"
    using find_group_free(1,2) by (cases "find_group 0 (unat n) False (bits_of b)") blast+
  moreover have "bitmap_scan b 0 n False = Some (scan_result (find_group 0 (unat n) False (bits_of b)))"
    using bitmap_scan_rep[OF 3(1), of 0 n False] by simp
  ultimately show ?case by (simp add: bitmap_scan_and_flip_def scan_result_def)
next
  case (4 b i n)
  then obtain b' where "bitmap_set_multiple b i n False = Some b'" "bm_wf b'" "bit_cnt b' = bit_cnt b"
      "bits_of b' = set_range (unat i) (unat n) False (bits_of b)"
    using bitmap_set_multiple_rep by blast
  then show ?case using used_bits_set_range[of b' "unat i" "unat n" False b] 4(2) by auto
qed

section \<open>The array keeps its length\<close>

lemma bitmap_set_length: "bitmap_set b i v = Some b' \<Longrightarrow> length (bm_bits b') = length (bm_bits b)"
  by (auto simp: bitmap_set_def bitmap_mark_def bitmap_reset_def get_elem_def set_elem_def Let_def
      bind_eq_Some_conv split: if_splits)

lemma bitmap_set_loop_length:
  "bitmap_set_loop b start cnt v i = Some b' \<Longrightarrow> length (bm_bits b') = length (bm_bits b)"
proof (induction b start cnt v i rule: bitmap_set_loop.induct)
  case (1 b start cnt v i)
  show ?case
  proof (cases "i < cnt")
    case True
    then obtain b1 where b1: "bitmap_set b (start + i) v = Some b1"
        "bitmap_set_loop b1 start cnt v (i + 1) = Some b'"
      using "1.prems" by (subst (asm) bitmap_set_loop.simps) (auto split: option.splits)
    then show ?thesis using "1.IH"[OF True b1(1) b1(2)] bitmap_set_length by simp
  next
    case False
    then show ?thesis using "1.prems" by (subst (asm) bitmap_set_loop.simps) simp
  qed
qed

section \<open>Properties\<close>

text \<open>A bitmap of 40 bits in which the bits 0, 1, 2, 5 and 32 are set.\<close>

definition ex_bitmap :: bitmap where
  "ex_bitmap = \<lparr>bit_cnt = 40, bm_bits = [0x27, 0x1]\<rparr>"

lemma ex_bitmap_wf: "bm_wf ex_bitmap" "unat (bit_cnt ex_bitmap) = 40"
  by (simp_all add: bm_wf_def ex_bitmap_def)

text \<open>setting a range of bits of a well-formed bitmap succeeds, gives every bit of the
  range the value, keeps every other bit, including those that share a word with the range,
  and keeps the bitmap well formed.\<close>

lemma bitmap_set_multiple_frame:
  assumes "bm_wf b" "unat start + unat cnt \<le> unat (bit_cnt b)"
  shows "\<exists>b'. bitmap_set_multiple b start cnt v = Some b' \<and> bm_wf b' \<and> bitmap_size b' = bitmap_size b \<and>
     (\<forall>i. i < bitmap_size b \<longrightarrow> bitmap_test b' i =
        (if start \<le> i \<and> unat i < unat start + unat cnt then Some v else bitmap_test b i))"
proof -
  obtain b' where b': "bitmap_set_multiple b start cnt v = Some b'" "bm_wf b'" "bit_cnt b' = bit_cnt b"
      "bits_of b' = set_range (unat start) (unat cnt) v (bits_of b)"
    using bitmap_set_multiple_rep[OF assms] by blast
  have "bitmap_test b' i = (if start \<le> i \<and> unat i < unat start + unat cnt then Some v else bitmap_test b i)"
    if "i < bit_cnt b" for i
    using bitmap_test_rep[OF assms(1) that] bitmap_test_rep[of b' i] b' that assms(2)
      nth_set_range[of "unat start" "unat cnt" "bits_of b" "unat i" v]
    by (auto simp: word_less_nat_alt word_le_nat_alt)
  then show ?thesis using b' by (auto simp: bitmap_size_def)
qed

lemma bitmap_set_multiple_frame_example:
  "\<exists>b'. bitmap_set_multiple ex_bitmap 30 6 True = Some b' \<and> bitmap_test b' 35 = Some True \<and>
     bitmap_test b' 36 = Some False \<and> bitmap_test b' 5 = Some True"
proof -
  have "unat (30 :: size_t) + unat (6 :: size_t) \<le> unat (bit_cnt ex_bitmap)"
    unfolding ex_bitmap_wf by simp
  from bitmap_set_multiple_frame[OF ex_bitmap_wf(1) this, of True] obtain b' where
    b': "bitmap_set_multiple ex_bitmap 30 6 True = Some b'"
    "\<forall>i. i < bitmap_size ex_bitmap \<longrightarrow> bitmap_test b' i =
        (if 30 \<le> i \<and> unat i < unat (30 :: size_t) + unat (6 :: size_t) then Some True else bitmap_test ex_bitmap i)"
    by blast
  have "bitmap_test ex_bitmap 36 = Some False" "bitmap_test ex_bitmap 5 = Some True" by code_simp+
  then show ?thesis
    using b'(2)[rule_format, of 35] b'(2)[rule_format, of 36] b'(2)[rule_format, of 5] b'(1)
    by (simp add: bitmap_size_def ex_bitmap_def)
qed

text \<open>\<open>bitmap_scan\<close> returns for every well-formed bitmap: the lowest position at or after
  the start at which all bits of a group have the value, or the error value when there is no
  such position.\<close>

lemma bitmap_scan_first:
  assumes wf: "bm_wf b" and start: "start \<le> bit_cnt b" and cnt: "0 < cnt"
  shows "\<exists>r. bitmap_scan b start cnt v = Some r \<and>
     (let fits = (\<lambda>j. unat start \<le> j \<and> j + unat cnt \<le> unat (bit_cnt b) \<and> (\<forall>i < unat cnt. bits_of b ! (j + i) = v))
      in if r = BITMAP_ERROR then (\<forall>j. \<not> fits j) else fits (unat r) \<and> (\<forall>j < unat r. \<not> fits j))"
proof (cases "find_group (unat start) (unat cnt) v (bits_of b)")
  case None
  then show ?thesis
    using bitmap_scan_rep[OF wf start, of cnt v] find_group_None[OF None]
    by (fastforce simp: scan_result_def Let_def)
next
  case (Some j)
  have n: "0 < unat cnt" using cnt by (simp add: word_less_nat_alt)
  note r = scan_result_Some[OF Some n] and f = find_group_Some[OF Some]
  show ?thesis
    using bitmap_scan_rep[OF wf start, of cnt v] Some r f(1,2,3) f(4) by (fastforce simp: Let_def)
qed

lemma bitmap_scan_first_example:
  "bitmap_scan ex_bitmap 0 3 False = Some 6 \<and>
     bits_of ex_bitmap ! 6 = False \<and> bits_of ex_bitmap ! 7 = False \<and> bits_of ex_bitmap ! 8 = False"
proof -
  have r: "bitmap_scan ex_bitmap 0 3 False = Some 6" by code_simp
  have "\<forall>i < 3. bits_of ex_bitmap ! (6 + i) = False"
    using bitmap_scan_first[OF ex_bitmap_wf(1), of 0 3 False] r ex_bitmap_wf(2)
    by (auto simp: Let_def BITMAP_ERROR_def)
  from this[rule_format, of 0] this[rule_format, of 1] this[rule_format, of 2] r show ?thesis by simp
qed



text \<open>What one request took and a second request takes never overlap, and giving the
  first run back by \<open>bitmap_set_multiple\<close> makes the same request succeed again.\<close>

lemma bitmap_runs_disjoint:
  assumes "bm_wf b" "0 < n" "0 < m" "bitmap_scan_and_flip b 0 n False = Some (i, b1)" "i \<noteq> BITMAP_ERROR"
    "bitmap_scan_and_flip b1 0 m False = Some (j, b2)" "j \<noteq> BITMAP_ERROR"
  shows "{unat i..<unat i + unat n} \<inter> {unat j..<unat j + unat m} = {} \<and>
     (\<exists>b3. bitmap_set_multiple b1 i n False = Some b3 \<and> bm_wf b3 \<and> used_bits b3 = used_bits b)"
  using rl.take_take_disjoint[OF assms] rl.take_free[OF assms(1,2,4,5)] by blast

lemma bitmap_runs_disjoint_example:
  "\<exists>i b1 j b2. bitmap_scan_and_flip ex_bitmap 0 2 False = Some (i, b1) \<and>
     bitmap_scan_and_flip b1 0 3 False = Some (j, b2) \<and>
     {unat i..<unat i + 2} \<inter> {unat j..<unat j + 3} = {}"
proof -
  have 1: "bitmap_scan_and_flip ex_bitmap 0 2 False = Some (3, \<lparr>bit_cnt = 40, bm_bits = [0x3F, 1]\<rparr>)"
    by code_simp
  have 2: "bitmap_scan_and_flip \<lparr>bit_cnt = 40, bm_bits = [0x3F, 1]\<rparr> 0 3 False =
      Some (6, \<lparr>bit_cnt = 40, bm_bits = [0x1FF, 1]\<rparr>)"
    by code_simp
  show ?thesis
    using bitmap_runs_disjoint[OF ex_bitmap_wf(1) _ _ 1 _ 2] 1 2 by (auto simp: BITMAP_ERROR_def)
qed

text \<open>a bitmap created in a buffer of at least \<open>bitmap_buf_size\<close> bytes is well formed, has
  the requested number of bits and all of them clear, whatever the buffer held; no access
  leaves the buffer.\<close>

lemma bitmap_create_in_buf_clear:
  assumes "unat cnt + 31 < 2 ^ 32" "bitmap_buf_size cnt \<le> block_size"
    "(unat block_size - 8) div 4 \<le> length contents"
  shows "\<exists>b. bitmap_create_in_buf cnt contents block_size = Some b \<and> bm_wf b \<and> bitmap_size b = cnt \<and>
     used_bits b = {} \<and> 4 * length (bm_bits b) + 8 \<le> max 8 (unat block_size)"
proof -
  obtain b where b: "bitmap_create_in_buf cnt contents block_size = Some b" "bm_wf b" "bit_cnt b = cnt"
      "bits_of b = replicate (unat cnt) False"
    using bitmap_create_in_buf_rep[OF assms] by blast
  have "length (bm_bits b) = length (take ((unat block_size - 8) div 4) contents)"
    using b(1) by (auto simp: bitmap_create_in_buf_def bitmap_set_all_def bitmap_set_multiple_def
        bind_eq_Some_conv simp del: bitmap_set_loop.simps dest!: bitmap_set_loop_length)
  then show ?thesis using b by (auto simp: bitmap_size_def used_bits_def)
qed

lemma bitmap_create_in_buf_clear_example:
  "\<exists>b. bitmap_create_in_buf 40 [1, 2, 3, 4] 20 = Some b \<and> bm_wf b \<and> used_bits b = {}"
proof -
  have "bitmap_buf_size 40 \<le> 20" by code_simp
  then show ?thesis using bitmap_create_in_buf_clear[of 40 20 "[1, 2, 3, 4]"] by auto
qed

end
