(* ===== verification/Kernel_State.thy ===== *)
theory Kernel_State
  imports Kernel_List Kernel_Bitmap
begin

text \<open>
  The state of the running kernel: the structures of threads/thread.h, threads/synch.h,
  threads/interrupt.h and threads/palloc.c, the static variables of thread.c, interrupt.c
  and palloc.c, the processor registers, and the interrupt-level primitives of interrupt.c.

  Memory is kept by the type of what lives in it.  \<open>lheap\<close> holds every \<open>struct list_elem\<close>,
  \<open>threads\<close> every \<open>struct thread\<close> (without its two list elements, which are in \<open>lheap\<close> at
  the thread's address plus their offsets), \<open>words\<close> the remaining words that synch.c uses:
  the value of the semaphore at \<open>s\<close> is the word at \<open>s\<close> and its waiters list is at \<open>s + 4\<close>;
  the holder of the lock at \<open>l\<close> is the word at \<open>l\<close> and its semaphore is at \<open>l + 4\<close>.  The
  addresses of static objects are chosen by the linker: they are fields that no operation
  writes.  Output to the screen and the delays of the timer are not part of the state.
\<close>

section \<open>Structures\<close>

record interrupts_stack_frame =
  cpsr :: u32
  r13_sp :: u32
  r14_lr :: u32
  r15_pc :: u32
  r0 :: u32
  r1 :: u32
  r2 :: u32
  r3 :: u32
  r4 :: u32
  r5 :: u32
  r6 :: u32
  r7 :: u32
  r8 :: u32
  r9 :: u32
  r10 :: u32
  r11 :: u32
  r12 :: u32

datatype thread_status = THREAD_RUNNING | THREAD_READY | THREAD_BLOCKED | THREAD_DYING

record thread =
  tid :: u32
  status :: thread_status
  name :: string
  priority :: u32
  func :: addr
  parameter :: addr
  stack_frame :: interrupts_stack_frame
  magic :: u32

text \<open>Offsets of the list elements in \<open>struct thread\<close>.\<close>

definition allelem_of :: "addr \<Rightarrow> addr" where
  "allelem_of t = t + 108"

definition elem_of :: "addr \<Rightarrow> addr" where
  "elem_of t = t + 116"

text \<open>\<open>list_entry (e, struct thread, elem)\<close> and \<open>list_entry (e, struct thread, allelem)\<close>.\<close>

definition thread_of_elem :: "addr \<Rightarrow> addr" where
  "thread_of_elem e = e - 116"

definition thread_of_allelem :: "addr \<Rightarrow> addr" where
  "thread_of_allelem e = e - 108"

definition THREAD_MAGIC :: u32 where
  "THREAD_MAGIC = 0xcd6abf4b"

definition TIME_SLICE :: u32 where
  "TIME_SLICE = 2"

definition PRI_MIN :: int where "PRI_MIN = 0"
definition PRI_DEFAULT :: int where "PRI_DEFAULT = 31"
definition PRI_MAX :: int where "PRI_MAX = 63"

definition TID_ERROR :: u32 where
  "TID_ERROR = -1"

definition FLAG_FIQ :: u32 where "FLAG_FIQ = 0x40"
definition FLAG_IRQ :: u32 where "FLAG_IRQ = 0x80"
definition SYS_MODE :: u32 where "SYS_MODE = 0x1f"

datatype interrupts_level = INTERRUPTS_OFF | INTERRUPTS_ON

record pool =
  pool_lock :: addr
  used_map :: bitmap
  base :: addr

text \<open>
  What \<open>current_stack_frame\<close> may point to: nothing yet, the frame on the stack of the IRQ
  mode, or the frame inside a \<open>struct thread\<close>.
\<close>

datatype frame_ptr = Frame_NULL | Irq_stack | Thread_frame addr

record kernel =
  lheap :: list_heap
  threads :: "addr \<rightharpoonup> thread"
  words :: "addr \<rightharpoonup> u32"
  cpu :: interrupts_stack_frame
  irq_frame :: interrupts_stack_frame
  current_stack_frame :: frame_ptr
  in_external_interrupt :: bool
  was_irq_generated :: bool
  yield_on_return :: bool
  ready_list :: addr
  all_list :: addr
  idle_thread :: addr
  initial_thread :: addr
  tid_lock :: addr
  next_tid :: u32
  idle_ticks :: u64
  kernel_ticks :: u64
  user_ticks :: u64
  thread_ticks :: u32
  kernel_thread_pc :: addr
  kernel_pool :: pool
  user_pool :: pool

section \<open>Access to memory\<close>

definition thread_at :: "kernel \<Rightarrow> addr \<Rightarrow> thread option" where
  "thread_at k t = (if t = NULL then None else threads k t)"

definition set_thread :: "addr \<Rightarrow> thread \<Rightarrow> kernel \<Rightarrow> kernel" where
  "set_thread t th k = k\<lparr>threads := (threads k)(t \<mapsto> th)\<rparr>"

definition word_at :: "kernel \<Rightarrow> addr \<Rightarrow> u32 option" where
  "word_at k a = (if a = NULL then None else words k a)"

definition set_word :: "addr \<Rightarrow> u32 \<Rightarrow> kernel \<Rightarrow> kernel option" where
  "set_word a v k =
     (if a = NULL \<or> words k a = None then None else Some (k\<lparr>words := (words k)(a \<mapsto> v)\<rparr>))"

definition set_status :: "addr \<Rightarrow> thread_status \<Rightarrow> kernel \<Rightarrow> kernel option" where
  "set_status t s k = do { th \<leftarrow> thread_at k t; Some (set_thread t (th\<lparr>status := s\<rparr>) k) }"

text \<open>Running a list operation on the list elements in memory.\<close>

definition on_lists :: "(list_heap \<Rightarrow> list_heap option) \<Rightarrow> kernel \<Rightarrow> kernel option" where
  "on_lists f k = map_option (\<lambda>h. k\<lparr>lheap := h\<rparr>) (f (lheap k))"

definition pop_list :: "addr \<Rightarrow> kernel \<Rightarrow> (addr \<times> kernel) option" where
  "pop_list l k = map_option (\<lambda>(e, h). (e, k\<lparr>lheap := h\<rparr>)) (list_pop_front (lheap k) l)"

section \<open>Pages\<close>

definition PGSIZE :: u32 where "PGSIZE = 0x1000"
definition PGMASK :: u32 where "PGMASK = 0xFFF"
definition PHYS_START_FREE_MEMORY :: addr where "PHYS_START_FREE_MEMORY = 0x40000"
definition PHYS_END_FREE_MEMORY :: addr where "PHYS_END_FREE_MEMORY = 0x20000000"

definition pg_ofs :: "addr \<Rightarrow> u32" where
  "pg_ofs va = va AND PGMASK"

definition pg_no :: "addr \<Rightarrow> u32" where
  "pg_no va = drop_bit 12 va"

definition pg_round_up :: "addr \<Rightarrow> addr" where
  "pg_round_up va = (va + PGSIZE - 1) AND NOT PGMASK"

definition pg_round_down :: "addr \<Rightarrow> addr" where
  "pg_round_down va = va AND NOT PGMASK"

section \<open>Interrupt level\<close>

text \<open>
  \<open>get_cpsr_value\<close>, \<open>enable_irq_interruptions\<close> and \<open>disable_irq_interruptions\<close> of
  arm_asm/interruptsHandlers.s read and write the I bit of the program status register.
\<close>

definition get_cpsr_value :: "kernel \<Rightarrow> u32" where
  "get_cpsr_value k = cpsr (cpu k)"

definition enable_irq_interruptions :: "kernel \<Rightarrow> kernel" where
  "enable_irq_interruptions k = k\<lparr>cpu := (cpu k)\<lparr>cpsr := cpsr (cpu k) AND NOT 0x80\<rparr>\<rparr>"

definition disable_irq_interruptions :: "kernel \<Rightarrow> kernel" where
  "disable_irq_interruptions k = k\<lparr>cpu := (cpu k)\<lparr>cpsr := cpsr (cpu k) OR 0x80\<rparr>\<rparr>"

definition get_current_sp :: "kernel \<Rightarrow> addr" where
  "get_current_sp k = r13_sp (cpu k)"

definition interrupts_get_level :: "kernel \<Rightarrow> interrupts_level" where
  "interrupts_get_level k = (if get_cpsr_value k AND FLAG_IRQ \<noteq> 0 then INTERRUPTS_OFF else INTERRUPTS_ON)"

definition interrupts_enable :: "kernel \<Rightarrow> interrupts_level \<times> kernel" where
  "interrupts_enable k = (let old_level = interrupts_get_level k in (old_level, enable_irq_interruptions k))"

definition interrupts_disable :: "kernel \<Rightarrow> interrupts_level \<times> kernel" where
  "interrupts_disable k = (let old_level = interrupts_get_level k in (old_level, disable_irq_interruptions k))"

definition interrupts_set_level :: "interrupts_level \<Rightarrow> kernel \<Rightarrow> interrupts_level \<times> kernel" where
  "interrupts_set_level level k = (if level = INTERRUPTS_ON then interrupts_enable k else interrupts_disable k)"

definition interrupts_context :: "kernel \<Rightarrow> bool" where
  "interrupts_context k = in_external_interrupt k"

definition interrupts_was_irq_generated :: "kernel \<Rightarrow> bool" where
  "interrupts_was_irq_generated k = was_irq_generated k"

definition interrupts_yield_on_return :: "kernel \<Rightarrow> kernel" where
  "interrupts_yield_on_return k = k\<lparr>yield_on_return := True\<rparr>"

end
