(* ===== verification/Kernel_Pool.thy ===== *)
theory Kernel_Pool
  imports Kernel_State
begin

text \<open>
  The part of threads/palloc.c that takes no lock: the set-up of the two page pools, the
  test which pool a page belongs to, and the release of pages.  \<open>palloc_get_multiple\<close>, which
  acquires the pool's lock and may sleep, follows after the synchronisation primitives.
\<close>

section \<open>Contents of released memory\<close>

text \<open>
  \<open>memset (pages, 0xcc, n)\<close> in \<open>palloc_free_multiple\<close>: no structure survives in the range.
  Here the objects in the range cease to exist, so that any later access to them fails.
  \<open>memset (pages, 0, n)\<close> fills the range with zero objects: a zeroed \<open>struct thread\<close> at each
  page and null links and zero words at every address.
\<close>

definition in_range :: "addr \<Rightarrow> nat \<Rightarrow> addr \<Rightarrow> bool" where
  "in_range p n a \<longleftrightarrow> unat p \<le> unat a \<and> unat a < unat p + n"

definition zero_frame :: interrupts_stack_frame where
  "zero_frame = \<lparr>cpsr = 0, r13_sp = 0, r14_lr = 0, r15_pc = 0, r0 = 0, r1 = 0, r2 = 0, r3 = 0, r4 = 0,
     r5 = 0, r6 = 0, r7 = 0, r8 = 0, r9 = 0, r10 = 0, r11 = 0, r12 = 0\<rparr>"

definition zero_thread :: thread where
  "zero_thread = \<lparr>tid = 0, status = THREAD_RUNNING, name = [], priority = 0, func = 0, parameter = 0,
     stack_frame = zero_frame, magic = 0\<rparr>"

definition poison :: "addr \<Rightarrow> nat \<Rightarrow> kernel \<Rightarrow> kernel" where
  "poison p n k = k\<lparr>
     lheap := (\<lambda>a. if in_range p n a then None else lheap k a),
     threads := (\<lambda>a. if in_range p n a then None else threads k a),
     words := (\<lambda>a. if in_range p n a then None else words k a)\<rparr>"

definition zero_fill :: "addr \<Rightarrow> nat \<Rightarrow> kernel \<Rightarrow> kernel" where
  "zero_fill p n k = k\<lparr>
     lheap := (\<lambda>a. if in_range p n a then Some \<lparr>le_prev = 0, le_next = 0\<rparr> else lheap k a),
     threads := (\<lambda>a. if in_range p n a \<and> pg_ofs a = 0 then Some zero_thread else threads k a),
     words := (\<lambda>a. if in_range p n a then Some 0 else words k a)\<rparr>"

text \<open>
  Memory filled with 0xcc: what an allocated page holds that is not zeroed, and what \<open>free\<close>
  leaves in a block.  A page that was never released holds what was there before; no code
  depends on it, and the model lets it hold 0xcc too.
\<close>

definition cc_fill :: "addr \<Rightarrow> nat \<Rightarrow> kernel \<Rightarrow> kernel" where
  "cc_fill p n k = k\<lparr>
     lheap := (\<lambda>a. if in_range p n a then Some \<lparr>le_prev = 0xcccccccc, le_next = 0xcccccccc\<rparr> else lheap k a),
     words := (\<lambda>a. if in_range p n a then Some 0xcccccccc else words k a)\<rparr>"

section \<open>Pools\<close>

text \<open>
  \<open>init_pool\<close>: \<open>contents\<close> is what the memory at the base of the pool held, of which the
  bitmap uses the first words.  The lock is initialised separately, see \<open>lock_init\<close>.
\<close>

definition init_pool :: "addr \<Rightarrow> addr \<Rightarrow> size_t \<Rightarrow> elem_type list \<Rightarrow> pool option" where
  "init_pool lock b page_cnt contents = do {
     let bm_pages = DIV_ROUND_UP (bitmap_buf_size page_cnt) PGSIZE;
     ASSERT (\<not> bm_pages > page_cnt);
     let page_cnt = page_cnt - bm_pages;
     m \<leftarrow> bitmap_create_in_buf page_cnt contents (bm_pages * PGSIZE);
     Some \<lparr>pool_lock = lock, used_map = m, base = b + bm_pages * PGSIZE\<rparr> }"

definition page_from_pool :: "pool \<Rightarrow> addr \<Rightarrow> bool" where
  "page_from_pool p page = (
     let page_no = pg_no page;
         start_page = pg_no (base p);
         end_page = start_page + bitmap_size (used_map p)
     in page_no \<ge> start_page \<and> page_no < end_page)"

text \<open>A selected pool: \<open>&kernel_pool\<close> or \<open>&user_pool\<close>.\<close>

datatype pool_ptr = Kernel_pool | User_pool

definition pool_at :: "pool_ptr \<Rightarrow> kernel \<Rightarrow> pool" where
  "pool_at q k = (case q of Kernel_pool \<Rightarrow> kernel_pool k | User_pool \<Rightarrow> user_pool k)"

definition set_pool_map :: "pool_ptr \<Rightarrow> bitmap \<Rightarrow> kernel \<Rightarrow> kernel" where
  "set_pool_map q m k = (case q of
      Kernel_pool \<Rightarrow> k\<lparr>kernel_pool := (kernel_pool k)\<lparr>used_map := m\<rparr>\<rparr>
    | User_pool \<Rightarrow> k\<lparr>user_pool := (user_pool k)\<lparr>used_map := m\<rparr>\<rparr>)"

definition palloc_free_multiple :: "addr \<Rightarrow> size_t \<Rightarrow> kernel \<Rightarrow> kernel option" where
  "palloc_free_multiple pages page_cnt k = do {
     ASSERT (pg_ofs pages = 0);
     if pages = NULL \<or> page_cnt = 0 then Some k
     else do {
       q \<leftarrow> (if page_from_pool (kernel_pool k) pages then Some Kernel_pool
            else if page_from_pool (user_pool k) pages then Some User_pool
            else None);
       let page_idx = pg_no pages - pg_no (base (pool_at q k));
       let k = poison pages (unat (PGSIZE * page_cnt)) k;
       a \<leftarrow> bitmap_all (used_map (pool_at q k)) page_idx page_cnt;
       ASSERT a;
       m \<leftarrow> bitmap_set_multiple (used_map (pool_at q k)) page_idx page_cnt False;
       Some (set_pool_map q m k) } }"

definition palloc_free_page :: "addr \<Rightarrow> kernel \<Rightarrow> kernel option" where
  "palloc_free_page page k = palloc_free_multiple page 1 k"

end
