(* ===== verification/Kernel_Thread.thy ===== *)
theory Kernel_Thread
  imports Kernel_Pool
begin

text \<open>
  The scheduler of threads/thread.c and the context switch of arm_asm/contextSwitch.s, with
  the operations that create, block, wake and end threads (all but \<open>thread_create\<close> and
  \<open>thread_init\<close>, which take locks).

  Control flow across a switch.  A call that switches to another thread does not return to
  its caller until the caller is scheduled again; the code after it runs then.  Such a call
  returns \<open>Switched fs\<close>: the processor now runs another thread, and \<open>fs\<close> names the code
  that the old thread has still to run, innermost first.  The names are the constructors of
  \<open>cont\<close>; what each of them does when the thread is scheduled again is \<open>resume\<close> in theory
  Kernel_Machine.
\<close>

section \<open>Pending code\<close>

text \<open>
  The code that the function pointers of a hash table point to: \<open>hash_fun\<close> and \<open>less_fun\<close> give the
  function at an address, which is called with the elements and the auxiliary data.
\<close>

record hash_code =
  hash_fun :: "addr \<Rightarrow> addr \<Rightarrow> addr \<Rightarrow> kernel \<Rightarrow> u32 option"
  less_fun :: "addr \<Rightarrow> addr \<Rightarrow> addr \<Rightarrow> addr \<Rightarrow> kernel \<Rightarrow> bool option"

datatype cont =
    Kernel_thread_entry addr addr           \<comment> \<open>a new thread: \<open>kernel_thread (function, aux)\<close>\<close>
  | Yield_tail interrupts_level             \<comment> \<open>\<open>thread_yield\<close> after \<open>schedule\<close>\<close>
  | Exit_tail                               \<comment> \<open>\<open>thread_exit\<close> after \<open>schedule\<close>\<close>
  | Sema_down_loop addr interrupts_level    \<comment> \<open>the loop of \<open>sema_down\<close> after \<open>thread_block\<close>\<close>
  | Lock_acquire_tail addr                  \<comment> \<open>\<open>lock_acquire\<close> after \<open>sema_down\<close>\<close>
  | Cond_wait_tail addr                     \<comment> \<open>\<open>cond_wait\<close> after \<open>sema_down\<close>\<close>
  | Get_pages_tail pool_ptr u32 size_t      \<comment> \<open>\<open>palloc_get_multiple\<close> after \<open>lock_acquire\<close>\<close>
  | Allocate_tid_tail                       \<comment> \<open>\<open>allocate_tid\<close> after \<open>lock_acquire\<close>\<close>
  | Create_after_page string u32 addr addr interrupts_level
                                            \<comment> \<open>\<open>thread_create\<close> after \<open>palloc_get_page\<close>\<close>
  | Create_after_tid addr string u32 addr addr interrupts_level
                                            \<comment> \<open>\<open>thread_create\<close> after \<open>allocate_tid\<close>\<close>
  | Start_after_create addr                 \<comment> \<open>\<open>thread_start\<close> after \<open>thread_create\<close>\<close>
  | Idle_tail interrupts_level              \<comment> \<open>the loop of \<open>idle\<close> after \<open>thread_block\<close>\<close>
  | Malloc_big_tail size_t                  \<comment> \<open>\<open>malloc\<close> after \<open>palloc_get_multiple\<close>\<close>
  | Malloc_locked addr                      \<comment> \<open>\<open>malloc\<close> after \<open>lock_acquire\<close>\<close>
  | Malloc_page addr                        \<comment> \<open>\<open>malloc\<close> after \<open>palloc_get_page\<close>\<close>
  | Calloc_tail size_t                      \<comment> \<open>\<open>calloc\<close> after \<open>malloc\<close>\<close>
  | Realloc_tail addr size_t                \<comment> \<open>\<open>realloc\<close> after \<open>malloc\<close>\<close>
  | Return_value u32                        \<comment> \<open>a return after \<open>free\<close>\<close>
  | Free_locked addr                        \<comment> \<open>\<open>free\<close> after \<open>lock_acquire\<close>\<close>
  | Hash_init_tail addr addr addr addr      \<comment> \<open>\<open>hash_init\<close> after \<open>malloc\<close>\<close>
  | Rehash_tail hash_code addr addr size_t size_t
                                            \<comment> \<open>\<open>rehash\<close> after \<open>malloc\<close>\<close>

datatype outcome = Done u32 | Switched "cont list"

text \<open>Sequencing: when the first call was switched away, the rest is pending as \<open>c\<close>.\<close>

fun and_then :: "(outcome \<times> kernel) option \<Rightarrow> cont \<Rightarrow> (u32 \<Rightarrow> kernel \<Rightarrow> (outcome \<times> kernel) option) \<Rightarrow>
    (outcome \<times> kernel) option" where
  "and_then None c f = None"
| "and_then (Some (Done v, k)) c f = f v k"
| "and_then (Some (Switched fs, k)) c f = Some (Switched (fs @ [c]), k)"

section \<open>Current thread\<close>

definition set_current_interrupts_stack_frame :: "frame_ptr \<Rightarrow> kernel \<Rightarrow> kernel option" where
  "set_current_interrupts_stack_frame p k = do {
     ASSERT (p \<noteq> Frame_NULL); Some (k\<lparr>current_stack_frame := p\<rparr>) }"

definition get_current_interrupts_stack_frame :: "kernel \<Rightarrow> frame_ptr option" where
  "get_current_interrupts_stack_frame k = do {
     ASSERT (current_stack_frame k \<noteq> Frame_NULL); Some (current_stack_frame k) }"

fun read_frame :: "kernel \<Rightarrow> frame_ptr \<Rightarrow> interrupts_stack_frame option" where
  "read_frame k Frame_NULL = None"
| "read_frame k Irq_stack = Some (irq_frame k)"
| "read_frame k (Thread_frame t) = map_option stack_frame (thread_at k t)"

fun write_frame :: "frame_ptr \<Rightarrow> interrupts_stack_frame \<Rightarrow> kernel \<Rightarrow> kernel option" where
  "write_frame Frame_NULL f k = None"
| "write_frame Irq_stack f k = Some (k\<lparr>irq_frame := f\<rparr>)"
| "write_frame (Thread_frame t) f k = do {
     th \<leftarrow> thread_at k t; Some (set_thread t (th\<lparr>stack_frame := f\<rparr>) k) }"

definition is_thread :: "kernel \<Rightarrow> addr \<Rightarrow> bool option" where
  "is_thread k t = (if t = NULL then Some False
     else do { th \<leftarrow> thread_at k t; Some (magic th = THREAD_MAGIC) })"

definition thread_get_running_thread :: "kernel \<Rightarrow> addr option" where
  "thread_get_running_thread k = do {
     sp \<leftarrow> (if interrupts_was_irq_generated k then do {
              p \<leftarrow> get_current_interrupts_stack_frame k;
              f \<leftarrow> read_frame k p;
              Some (r13_sp f) }
           else Some (get_current_sp k));
     Some (pg_round_down sp) }"

definition thread_current :: "kernel \<Rightarrow> addr option" where
  "thread_current k = do {
     t \<leftarrow> thread_get_running_thread k;
     it \<leftarrow> is_thread k t; ASSERT it;
     th \<leftarrow> thread_at k t; ASSERT (status th = THREAD_RUNNING);
     Some t }"

definition thread_tid :: "kernel \<Rightarrow> u32 option" where
  "thread_tid k = do { t \<leftarrow> thread_current k; th \<leftarrow> thread_at k t; Some (tid th) }"

definition thread_name :: "kernel \<Rightarrow> string option" where
  "thread_name k = do { t \<leftarrow> thread_current k; th \<leftarrow> thread_at k t; Some (name th) }"

definition thread_get_priority :: "kernel \<Rightarrow> u32 option" where
  "thread_get_priority k = do { t \<leftarrow> thread_current k; th \<leftarrow> thread_at k t; Some (priority th) }"

definition thread_set_priority :: "u32 \<Rightarrow> kernel \<Rightarrow> kernel option" where
  "thread_set_priority new_priority k = do {
     t \<leftarrow> thread_current k; th \<leftarrow> thread_at k t;
     Some (set_thread t (th\<lparr>priority := new_priority\<rparr>) k) }"

section \<open>Switching\<close>

definition thread_get_next_thread_to_run :: "kernel \<Rightarrow> (addr \<times> kernel) option" where
  "thread_get_next_thread_to_run k = do {
     em \<leftarrow> list_empty (lheap k) (ready_list k);
     if em then Some (idle_thread k, k)
     else do { (e, k) \<leftarrow> pop_list (ready_list k) k; Some (thread_of_elem e, k) } }"

definition thread_save_stack_frame :: "addr \<Rightarrow> frame_ptr \<Rightarrow> kernel \<Rightarrow> kernel option" where
  "thread_save_stack_frame t p k = do {
     f \<leftarrow> read_frame k p; th \<leftarrow> thread_at k t; Some (set_thread t (th\<lparr>stack_frame := f\<rparr>) k) }"

definition context_switch :: "addr \<Rightarrow> frame_ptr \<Rightarrow> kernel \<Rightarrow> kernel option" where
  "context_switch nx p k = do { th \<leftarrow> thread_at k nx; write_frame p (stack_frame th) k }"

text \<open>The delay after the release of a dead thread (\<open>timer_msleep\<close>) leaves no trace in the state.\<close>

definition thread_schedule_tail :: "addr \<Rightarrow> addr \<Rightarrow> kernel \<Rightarrow> kernel option" where
  "thread_schedule_tail prev nx k = do {
     ASSERT (interrupts_get_level k = INTERRUPTS_OFF);
     let k = k\<lparr>thread_ticks := 0\<rparr>;
     k \<leftarrow> set_status nx THREAD_RUNNING k;
     pth \<leftarrow> thread_at k prev;
     if status pth = THREAD_DYING \<and> prev \<noteq> initial_thread k then do {
       ASSERT (prev \<noteq> nx);
       palloc_free_page prev k }
     else Some k }"

text \<open>
  \<open>save_and_switch_context\<close> of contextSwitch.s: the frame of the old thread gets the registers
  with the return address as its program counter; \<open>thread_schedule_tail\<close> runs in IRQ mode with
  interrupts off, on the stack of that mode; then all registers are loaded from the frame of
  the new thread.  Of the scratch registers \<open>r0\<close> to \<open>r3\<close>, which the assembly overwrites while
  it saves, no caller observes the saved value.
\<close>

definition save_and_switch_context :: "addr \<Rightarrow> addr \<Rightarrow> kernel \<Rightarrow> kernel option" where
  "save_and_switch_context cur nx k = do {
     cth \<leftarrow> thread_at k cur;
     let k = set_thread cur (cth\<lparr>stack_frame := (cpu k)\<lparr>r15_pc := r14_lr (cpu k)\<rparr>\<rparr>) k;
     let k = k\<lparr>cpu := (cpu k)\<lparr>cpsr := 0xd2\<rparr>\<rparr>;
     k \<leftarrow> thread_schedule_tail cur nx k;
     nth \<leftarrow> thread_at k nx;
     Some (k\<lparr>cpu := stack_frame nth\<rparr>) }"

definition schedule_in_interrupt :: "addr \<Rightarrow> addr \<Rightarrow> kernel \<Rightarrow> kernel option" where
  "schedule_in_interrupt cur nx k = do {
     ASSERT (interrupts_get_level k = INTERRUPTS_OFF);
     it \<leftarrow> is_thread k cur; ASSERT it;
     it \<leftarrow> is_thread k nx; ASSERT it;
     ASSERT (interrupts_was_irq_generated k);
     p \<leftarrow> get_current_interrupts_stack_frame k;
     k \<leftarrow> thread_save_stack_frame cur p k;
     k \<leftarrow> (if cur \<noteq> nx then do {
             p \<leftarrow> get_current_interrupts_stack_frame k; context_switch nx p k }
          else Some k);
     thread_schedule_tail cur nx k }"

definition schedule_not_in_interrupt :: "addr \<Rightarrow> addr \<Rightarrow> kernel \<Rightarrow> kernel option" where
  "schedule_not_in_interrupt cur nx k = do {
     ASSERT (interrupts_get_level k = INTERRUPTS_OFF);
     it \<leftarrow> is_thread k cur; ASSERT it;
     it \<leftarrow> is_thread k nx; ASSERT it;
     ASSERT (\<not> interrupts_was_irq_generated k);
     save_and_switch_context cur nx k }"

definition schedule :: "kernel \<Rightarrow> kernel option" where
  "schedule k = do {
     cur \<leftarrow> thread_get_running_thread k;
     (nx, k) \<leftarrow> thread_get_next_thread_to_run k;
     ASSERT (interrupts_get_level k = INTERRUPTS_OFF);
     cth \<leftarrow> thread_at k cur; ASSERT (status cth \<noteq> THREAD_RUNNING);
     it \<leftarrow> is_thread k nx; ASSERT it;
     if interrupts_was_irq_generated k then schedule_in_interrupt cur nx k
     else schedule_not_in_interrupt cur nx k }"

section \<open>Blocking, waking, yielding, ending\<close>

text \<open>\<open>thread_block\<close> does nothing after its switch.\<close>

definition thread_block :: "kernel \<Rightarrow> kernel option" where
  "thread_block k = do {
     ASSERT (\<not> interrupts_context k);
     ASSERT (interrupts_get_level k = INTERRUPTS_OFF);
     t \<leftarrow> thread_current k;
     k \<leftarrow> set_status t THREAD_BLOCKED k;
     schedule k }"

definition thread_unblock :: "addr \<Rightarrow> kernel \<Rightarrow> kernel option" where
  "thread_unblock t k = do {
     it \<leftarrow> is_thread k t; ASSERT it;
     let (old_level, k) = interrupts_disable k;
     th \<leftarrow> thread_at k t; ASSERT (status th = THREAD_BLOCKED);
     k \<leftarrow> on_lists (\<lambda>h. list_push_back h (ready_list k) (elem_of t)) k;
     k \<leftarrow> set_status t THREAD_READY k;
     Some (snd (interrupts_set_level old_level k)) }"

text \<open>After \<open>schedule\<close> in an interrupt the call goes on; otherwise the rest is pending.\<close>

definition thread_yield :: "kernel \<Rightarrow> (outcome \<times> kernel) option" where
  "thread_yield k = do {
     cur \<leftarrow> thread_current k;
     ASSERT (\<not> interrupts_context k);
     cth \<leftarrow> thread_at k cur; ASSERT (status cth \<noteq> THREAD_DYING);
     let (old_level, k) = interrupts_disable k;
     k \<leftarrow> (if cur \<noteq> idle_thread k then on_lists (\<lambda>h. list_push_back h (ready_list k) (elem_of cur)) k
          else Some k);
     k \<leftarrow> set_status cur THREAD_READY k;
     k \<leftarrow> schedule k;
     if interrupts_was_irq_generated k then Some (Done 0, snd (interrupts_set_level old_level k))
     else Some (Switched [Yield_tail old_level], k) }"

definition thread_exit :: "kernel \<Rightarrow> (outcome \<times> kernel) option" where
  "thread_exit k = do {
     ASSERT (\<not> interrupts_context k);
     t \<leftarrow> thread_current k; th \<leftarrow> thread_at k t; ASSERT (status th = THREAD_RUNNING);
     let (old_level, k) = interrupts_disable k;
     t \<leftarrow> thread_current k;
     (_, h) \<leftarrow> list_remove (lheap k) (allelem_of t);
     let k = k\<lparr>lheap := h\<rparr>;
     t \<leftarrow> thread_current k;
     k \<leftarrow> set_status t THREAD_DYING k;
     k \<leftarrow> schedule k;
     if interrupts_was_irq_generated k then None
     else Some (Switched [Exit_tail], k) }"

text \<open>Preemption: the timer tick, and the end of \<open>interrupts_dispatch_irq\<close>.\<close>

definition thread_tick :: "frame_ptr \<Rightarrow> kernel \<Rightarrow> kernel option" where
  "thread_tick p k = do {
     k \<leftarrow> set_current_interrupts_stack_frame p k;
     t \<leftarrow> thread_current k;
     let k = (if t = idle_thread k then k\<lparr>idle_ticks := idle_ticks k + 1\<rparr>
              else k\<lparr>kernel_ticks := kernel_ticks k + 1\<rparr>);
     let k = k\<lparr>thread_ticks := thread_ticks k + 1\<rparr>;
     Some (if thread_ticks k \<ge> TIME_SLICE then interrupts_yield_on_return k else k) }"

end
