(* ===== verification/Kernel_List_Family.thy ===== *)
theory Kernel_List_Family
  imports Kernel_List_Rep
begin

text \<open>
  Several lists in one store.  The scheduler keeps the ready list, the list of all threads and
  the waiters lists of the semaphores in one memory, and the same element moves from one to
  another.  A family maps the address of each list object to its contents; the objects do not
  overlap.  The laws of the family follow from the queue interface alone.
\<close>

locale kernel_list_object = kernel_queue +
  fixes remove :: "'a \<Rightarrow> 'c \<Rightarrow> ('c \<times> 'a) option"
  assumes remove: "rep h q (xs @ e # ys) \<Longrightarrow>
      \<exists>n h'. remove h e = Some (n, h') \<and> rep h' q (xs @ ys) \<and> changes h h' (foot q (xs @ ys))"
begin

definition family :: "'a \<Rightarrow> ('b \<rightharpoonup> 'c list) \<Rightarrow> bool" where
  "family h L \<longleftrightarrow> (\<forall>l xs. L l = Some xs \<longrightarrow> rep h l xs) \<and>
     (\<forall>l xs l' xs'. L l = Some xs \<longrightarrow> L l' = Some xs' \<longrightarrow> l \<noteq> l' \<longrightarrow> foot l xs \<inter> foot l' xs' = {})"

definition owned :: "('b \<rightharpoonup> 'c list) \<Rightarrow> 'c set" where
  "owned L = (\<Union>l \<in> dom L. foot l (the (L l)))"

lemma familyD:
  "family h L \<Longrightarrow> L l = Some xs \<Longrightarrow> rep h l xs"
  "family h L \<Longrightarrow> L l = Some xs \<Longrightarrow> L l' = Some xs' \<Longrightarrow> l \<noteq> l' \<Longrightarrow> foot l xs \<inter> foot l' xs' = {}"
  unfolding family_def by blast+

lemma ownedI: "L l = Some xs \<Longrightarrow> x \<in> foot l xs \<Longrightarrow> x \<in> owned L"
  unfolding owned_def by force

lemma ownedE:
  assumes "x \<in> owned L"
  obtains l xs where "L l = Some xs" "x \<in> foot l xs"
  using assms unfolding owned_def by auto

text \<open>Replacing the contents of one list: the other lists are out of reach of the change.\<close>

lemma family_update:
  assumes fam: "family h L" and l: "L l = Some xs" and rep: "rep h' l ys" and c: "changes h h' S"
    and S: "S \<subseteq> foot l xs \<union> F" "foot l ys \<subseteq> foot l xs \<union> F" and F: "F \<inter> owned L = {}"
  shows "family h' (L(l \<mapsto> ys))"
proof -
  have dis: "(foot l xs \<union> F) \<inter> foot m zs = {}" if "L m = Some zs" "m \<noteq> l" for m zs
    using familyD(2)[OF fam l that(1)] that ownedI[of L m zs] F by blast
  have "rep h' m zs" if "(L(l \<mapsto> ys)) m = Some zs" for m zs
  proof (cases "m = l")
    case False
    then have m: "L m = Some zs" using that by simp
    then have "S \<inter> foot m zs = {}" using dis[OF m False] S by blast
    then show ?thesis using frame[OF c] familyD(1)[OF fam m] by simp
  qed (use that rep in simp)
  moreover have "foot m zs \<inter> foot m' zs' = {}"
    if "(L(l \<mapsto> ys)) m = Some zs" "(L(l \<mapsto> ys)) m' = Some zs'" "m \<noteq> m'" for m zs m' zs'
    using that dis S(2) familyD(2)[OF fam] by (auto split: if_splits)
  ultimately show ?thesis unfolding family_def by blast
qed

lemma owned_update: "L l = Some xs \<Longrightarrow> owned (L(l \<mapsto> ys)) \<subseteq> owned L \<union> foot l ys"
  by (auto elim!: ownedE intro: ownedI split: if_splits)

lemma family_push:
  assumes fam: "family h L" and l: "L l = Some xs" and e: "room h e" "e \<notin> owned L"
  shows "\<exists>h'. push h l e = Some h' \<and> family h' (L(l \<mapsto> xs @ [e])) \<and> changes h h' (insert e (owned L))"
proof -
  have "e \<notin> foot l xs" using e(2) ownedI[of L l xs e] l by blast
  then obtain h' where h': "push h l e = Some h'" "rep h' l (xs @ [e])" "changes h h' (insert e (foot l xs))"
    using push[OF familyD(1)[OF fam l] e(1)] by blast
  have "family h' (L(l \<mapsto> xs @ [e]))"
    by (rule family_update[OF fam l h'(2,3), of "{e}"]) (use foot_append e(2) in auto)
  moreover have "changes h h' (insert e (owned L))"
    by (rule changes_mono[OF h'(3)]) (use ownedI[of L l xs] l in blast)
  ultimately show ?thesis using h'(1) by blast
qed

lemma family_notin:
  assumes fam: "family h L" and l: "L l = Some (xs @ e # ys)"
  shows "e \<notin> owned (L(l \<mapsto> xs @ ys))"
proof
  assume "e \<in> owned (L(l \<mapsto> xs @ ys))"
  then obtain m zs where m: "(L(l \<mapsto> xs @ ys)) m = Some zs" "e \<in> foot m zs" by (rule ownedE)
  show False
  proof (cases "m = l")
    case True
    then show False using m rep_distinct[OF familyD(1)[OF fam l]] by simp
  next
    case False
    then have "foot l (xs @ e # ys) \<inter> foot m zs = {}" using familyD(2)[OF fam l] m by auto
    then show False using m foot_insert by blast
  qed
qed

lemma family_pop:
  assumes fam: "family h L" and l: "L l = Some (x # xs)"
  shows "\<exists>h'. pop h l = Some (x, h') \<and> family h' (L(l \<mapsto> xs)) \<and> x \<notin> owned (L(l \<mapsto> xs)) \<and>
     changes h h' (owned L)"
proof -
  obtain h' where h': "pop h l = Some (x, h')" "rep h' l xs" "changes h h' (foot l xs)"
    using pop[OF familyD(1)[OF fam l]] by blast
  have "family h' (L(l \<mapsto> xs))"
    by (rule family_update[OF fam l h'(2,3), of "{}"]) (use foot_Cons in auto)
  moreover have "x \<notin> owned (L(l \<mapsto> xs))" using family_notin[OF fam, of l "[]" x xs] l by simp
  moreover have "changes h h' (owned L)"
    by (rule changes_mono[OF h'(3)]) (use ownedI[of L l "x # xs"] l foot_Cons in blast)
  ultimately show ?thesis using h'(1) by blast
qed

lemma family_remove:
  assumes fam: "family h L" and l: "L l = Some (xs @ e # ys)"
  shows "\<exists>n h'. remove h e = Some (n, h') \<and> family h' (L(l \<mapsto> xs @ ys)) \<and>
     e \<notin> owned (L(l \<mapsto> xs @ ys)) \<and> changes h h' (owned L)"
proof -
  obtain n h' where h': "remove h e = Some (n, h')" "rep h' l (xs @ ys)" "changes h h' (foot l (xs @ ys))"
    using remove[OF familyD(1)[OF fam l]] by blast
  have "family h' (L(l \<mapsto> xs @ ys))"
    by (rule family_update[OF fam l h'(2,3), of "{}"]) (use foot_insert in auto)
  moreover have "changes h h' (owned L)"
    by (rule changes_mono[OF h'(3)]) (use ownedI[of L l "xs @ e # ys"] l foot_insert in blast)
  ultimately show ?thesis using h'(1) family_notin[OF fam l] by blast
qed

lemma family_empty:
  "family h L \<Longrightarrow> L l = Some xs \<Longrightarrow> is_empty h l = Some (xs = [])"
  using is_empty familyD(1) by blast

text \<open>A change outside all lists.\<close>

lemma family_cong:
  "family h L \<Longrightarrow> changes h h' S \<Longrightarrow> S \<inter> owned L = {} \<Longrightarrow> family h' L"
  unfolding family_def using frame ownedI by (metis disjoint_iff)

end

interpretation ll: kernel_list_object dlist valid "\<lambda>l xs. set (nodes l xs)" modifies
  list_push_back list_pop_front list_empty list_remove
proof unfold_locales
  fix h q and xs :: "addr list" and e ys
  assume "dlist h q (xs @ e # ys)"
  from list_remove_dlist[OF this]
  show "\<exists>n h'. list_remove h e = Some (n, h') \<and> dlist h' q (xs @ ys) \<and>
     modifies h h' (set (nodes q (xs @ ys)))" by blast
qed

text \<open>A change of the store, its domain included, that no list can see.\<close>

lemma family_dlist_cong:
  assumes "ll.family h L" "\<And>p. p \<in> ll.owned L \<Longrightarrow> h' p = h p"
  shows "ll.family h' L"
proof -
  have "dlist h' l xs" if "L l = Some xs" for l xs
  proof -
    have "dlist h' l xs = dlist h l xs"
      by (rule dlist_cong) (use assms(2) ll.ownedI[of L l xs] that in blast)
    then show ?thesis using ll.familyD(1)[OF assms(1) that] by simp
  qed
  then show ?thesis using ll.familyD(2)[OF assms(1)] unfolding ll.family_def by blast
qed

end
