(* ===== verification/Kernel_Thread_Rep.thy ===== *)
theory Kernel_Thread_Rep
  imports Kernel_Thread Kernel_List_Family
begin

text \<open>
  The invariant of the scheduler and what each operation does to it.  \<open>L\<close> is the family of
  lists in memory, \<open>cur\<close> the running thread, \<open>rs\<close> the ready queue, \<open>ts\<close> the list of all
  threads, \<open>W\<close> the addresses of the waiters lists of the semaphores in use.
\<close>

section \<open>Memory accesses\<close>

lemma thread_at_set [heap_simps]:
  "thread_at (set_thread t th k) u = (if u = t then (if t = NULL then None else Some th) else thread_at k u)"
  by (simp add: thread_at_def set_thread_def)

lemma set_thread_fields [simp]:
  "lheap (set_thread t th k) = lheap k" "words (set_thread t th k) = words k"
  "cpu (set_thread t th k) = cpu k" "ready_list (set_thread t th k) = ready_list k"
  "all_list (set_thread t th k) = all_list k" "idle_thread (set_thread t th k) = idle_thread k"
  "initial_thread (set_thread t th k) = initial_thread k"
  "was_irq_generated (set_thread t th k) = was_irq_generated k"
  "in_external_interrupt (set_thread t th k) = in_external_interrupt k"
  "current_stack_frame (set_thread t th k) = current_stack_frame k"
  "irq_frame (set_thread t th k) = irq_frame k" "kernel_pool (set_thread t th k) = kernel_pool k"
  "user_pool (set_thread t th k) = user_pool k" "tid_lock (set_thread t th k) = tid_lock k"
  "next_tid (set_thread t th k) = next_tid k" "thread_ticks (set_thread t th k) = thread_ticks k"
  by (simp_all add: set_thread_def)

lemma thread_at_update [simp]:
  "thread_at (k\<lparr>lheap := h\<rparr>) t = thread_at k t" "thread_at (k\<lparr>words := w\<rparr>) t = thread_at k t"
  "thread_at (k\<lparr>cpu := c\<rparr>) t = thread_at k t" "thread_at (k\<lparr>thread_ticks := n\<rparr>) t = thread_at k t"
  by (simp_all add: thread_at_def)

definition status_of :: "kernel \<Rightarrow> addr \<Rightarrow> thread_status option" where
  "status_of k t = map_option status (thread_at k t)"

lemma status_of_update [simp]:
  "status_of (k\<lparr>lheap := h\<rparr>) t = status_of k t" "status_of (k\<lparr>words := w\<rparr>) t = status_of k t"
  "status_of (k\<lparr>cpu := c\<rparr>) t = status_of k t" "status_of (k\<lparr>thread_ticks := n\<rparr>) t = status_of k t"
  by (simp_all add: status_of_def)

definition frame_of :: "kernel \<Rightarrow> addr \<Rightarrow> interrupts_stack_frame" where
  "frame_of k t = stack_frame (the (thread_at k t))"

lemma frame_of_update [simp]:
  "frame_of (k\<lparr>lheap := h\<rparr>) t = frame_of k t" "frame_of (k\<lparr>words := w\<rparr>) t = frame_of k t"
  "frame_of (k\<lparr>cpu := c\<rparr>) t = frame_of k t" "frame_of (k\<lparr>thread_ticks := n\<rparr>) t = frame_of k t"
  by (simp_all add: frame_of_def)

section \<open>Interrupt level\<close>

text \<open>The I bit of the status register, at position 7.\<close>

lemma level_off_iff: "interrupts_get_level k = INTERRUPTS_OFF \<longleftrightarrow> bit (cpsr (cpu k)) 7"
  using bit_iff_and_push_bit_not_eq_0[of "cpsr (cpu k)" 7]
  by (simp add: interrupts_get_level_def get_cpsr_value_def FLAG_IRQ_def)

lemma set_level_bit:
  "bit (cpsr (cpu (snd (interrupts_set_level l k)))) 7 \<longleftrightarrow> l = INTERRUPTS_OFF"
proof -
  have "\<not> bit (x AND NOT 0x80 :: u32) 7" and "bit (x OR 0x80 :: u32) 7" for x
    by (simp_all add: bit_simps bit_numeral_rec)
  then show ?thesis
    by (cases l) (simp_all add: interrupts_set_level_def interrupts_enable_def interrupts_disable_def
        enable_irq_interruptions_def disable_irq_interruptions_def Let_def)
qed

lemma level_set [simp]: "interrupts_get_level (snd (interrupts_set_level l k)) = l"
  using level_off_iff[of "snd (interrupts_set_level l k)"] set_level_bit[of l k]
  by (cases l; cases "interrupts_get_level (snd (interrupts_set_level l k))") auto

lemma disable_eq: "interrupts_disable k = (interrupts_get_level k, snd (interrupts_set_level INTERRUPTS_OFF k))"
  by (simp add: interrupts_set_level_def interrupts_disable_def Let_def)

text \<open>Changing the level changes nothing but the status register.\<close>

lemma set_level_eq:
  "\<exists>c. snd (interrupts_set_level l k) = k\<lparr>cpu := (cpu k)\<lparr>cpsr := c\<rparr>\<rparr>"
  by (cases l) (auto simp: interrupts_set_level_def interrupts_enable_def interrupts_disable_def
      enable_irq_interruptions_def disable_irq_interruptions_def Let_def)

abbreviation set_level :: "interrupts_level \<Rightarrow> kernel \<Rightarrow> kernel" where
  "set_level l k \<equiv> snd (interrupts_set_level l k)"

lemma set_level_fields [simp]:
  "lheap (set_level l k) = lheap k" "words (set_level l k) = words k" "threads (set_level l k) = threads k"
  "r13_sp (cpu (set_level l k)) = r13_sp (cpu k)" "ready_list (set_level l k) = ready_list k"
  "all_list (set_level l k) = all_list k" "idle_thread (set_level l k) = idle_thread k"
  "initial_thread (set_level l k) = initial_thread k" "was_irq_generated (set_level l k) = was_irq_generated k"
  "in_external_interrupt (set_level l k) = in_external_interrupt k"
  "current_stack_frame (set_level l k) = current_stack_frame k" "irq_frame (set_level l k) = irq_frame k"
  "kernel_pool (set_level l k) = kernel_pool k" "user_pool (set_level l k) = user_pool k"
  "tid_lock (set_level l k) = tid_lock k" "next_tid (set_level l k) = next_tid k"
  "thread_at (set_level l k) t = thread_at k t" "status_of (set_level l k) t = status_of k t"
  "frame_of (set_level l k) t = frame_of k t"
  using set_level_eq[of l k] by (auto simp: thread_at_def status_of_def frame_of_def)

section \<open>The invariant\<close>

definition thread_ok :: "kernel \<Rightarrow> addr \<Rightarrow> bool" where
  "thread_ok k t \<longleftrightarrow> t \<noteq> NULL \<and> pg_ofs t = 0 \<and>
     (\<exists>th. thread_at k t = Some th \<and> magic th = THREAD_MAGIC) \<and>
     valid (lheap k) (elem_of t) \<and> valid (lheap k) (allelem_of t)"

definition sched_core ::
  "kernel \<Rightarrow> (addr \<rightharpoonup> addr list) \<Rightarrow> addr \<Rightarrow> addr list \<Rightarrow> addr list \<Rightarrow> addr set \<Rightarrow> bool" where
  "sched_core k L cur rs ts W \<longleftrightarrow>
     ll.family (lheap k) L \<and>
     ready_list k \<noteq> all_list k \<and> ready_list k \<notin> W \<and> all_list k \<notin> W \<and>
     L (ready_list k) = Some (map elem_of rs) \<and> L (all_list k) = Some (map allelem_of ts) \<and>
     (\<forall>t \<in> set ts. thread_ok k t) \<and> set rs \<subseteq> set ts \<and>
     (\<forall>t \<in> set rs. status_of k t = Some THREAD_READY) \<and>
     (\<forall>t \<in> set ts - {cur}. status_of k t \<noteq> Some THREAD_RUNNING \<and> pg_round_down (r13_sp (frame_of k t)) = t) \<and>
     (\<forall>w \<in> W. \<exists>bs. L w = Some (map elem_of bs) \<and> set bs \<subseteq> set ts \<and>
        (\<forall>b \<in> set bs. status_of k b = Some THREAD_BLOCKED)) \<and>
     (idle_thread k \<noteq> NULL \<longrightarrow> idle_thread k \<in> set ts \<and>
        (idle_thread k \<noteq> cur \<longrightarrow> elem_of (idle_thread k) \<notin> ll.owned L)) \<and>
     thread_ok k cur \<and> pg_round_down (r13_sp (cpu k)) = cur \<and>
     \<not> in_external_interrupt k \<and> \<not> was_irq_generated k"

text \<open>
  Between calls: the current thread is one of the threads, it is the only running one, and its
  list element is in no list.
\<close>

definition sched ::
  "kernel \<Rightarrow> (addr \<rightharpoonup> addr list) \<Rightarrow> addr \<Rightarrow> addr list \<Rightarrow> addr list \<Rightarrow> addr set \<Rightarrow> bool" where
  "sched k L cur rs ts W \<longleftrightarrow> sched_core k L cur rs ts W \<and> cur \<in> set ts \<and>
     status_of k cur = Some THREAD_RUNNING \<and> elem_of cur \<notin> ll.owned L"

lemma sched_coreD:
  assumes "sched_core k L cur rs ts W"
  shows "ll.family (lheap k) L" "ready_list k \<noteq> all_list k" "ready_list k \<notin> W" "all_list k \<notin> W"
    "L (ready_list k) = Some (map elem_of rs)" "L (all_list k) = Some (map allelem_of ts)"
    "\<And>t. t \<in> set ts \<Longrightarrow> thread_ok k t" "set rs \<subseteq> set ts"
    "\<And>t. t \<in> set rs \<Longrightarrow> status_of k t = Some THREAD_READY"
    "\<And>t. t \<in> set ts \<Longrightarrow> t \<noteq> cur \<Longrightarrow> status_of k t \<noteq> Some THREAD_RUNNING"
    "\<And>t. t \<in> set ts \<Longrightarrow> t \<noteq> cur \<Longrightarrow> pg_round_down (r13_sp (frame_of k t)) = t"
    "\<And>w. w \<in> W \<Longrightarrow> \<exists>bs. L w = Some (map elem_of bs) \<and> set bs \<subseteq> set ts \<and>
        (\<forall>b \<in> set bs. status_of k b = Some THREAD_BLOCKED)"
    "idle_thread k \<noteq> NULL \<Longrightarrow> idle_thread k \<in> set ts"
    "idle_thread k \<noteq> NULL \<Longrightarrow> idle_thread k \<noteq> cur \<Longrightarrow> elem_of (idle_thread k) \<notin> ll.owned L"
    "thread_ok k cur" "pg_round_down (r13_sp (cpu k)) = cur"
    "\<not> in_external_interrupt k" "\<not> was_irq_generated k"
  using assms unfolding sched_core_def by blast+

lemma thread_ok_at: "thread_ok k t \<Longrightarrow> \<exists>th. thread_at k t = Some th \<and> magic th = THREAD_MAGIC"
  by (simp add: thread_ok_def)

lemma is_thread_ok: "thread_ok k t \<Longrightarrow> is_thread k t = Some True"
  by (auto simp: thread_ok_def is_thread_def)

lemma running_core: "sched_core k L cur rs ts W \<Longrightarrow> thread_get_running_thread k = Some cur"
  by (simp add: sched_core_def thread_get_running_thread_def interrupts_was_irq_generated_def get_current_sp_def)

lemma thread_current_core:
  assumes "sched_core k L cur rs ts W" "status_of k cur = Some THREAD_RUNNING"
  shows "thread_current k = Some cur"
  using assms running_core[OF assms(1)] is_thread_ok[OF sched_coreD(15)[OF assms(1)]]
  by (auto simp: thread_current_def status_of_def)

lemma thread_current_sched: "sched k L cur rs ts W \<Longrightarrow> thread_current k = Some cur"
  unfolding sched_def by (blast intro: thread_current_core)

text \<open>The invariant does not depend on the interrupt level, the words or the tick counter.\<close>

lemma thread_ok_cong:
  "(\<And>t. thread_at k' t = thread_at k t) \<Longrightarrow> (\<And>p. valid (lheap k') p = valid (lheap k) p) \<Longrightarrow>
   thread_ok k' t = thread_ok k t"
  by (simp add: thread_ok_def)

lemma sched_core_set_level [simp]:
  "sched_core (set_level l k) L cur rs ts W = sched_core k L cur rs ts W"
  by (simp add: sched_core_def thread_ok_def)

lemma sched_set_level [simp]: "sched (set_level l k) L cur rs ts W = sched k L cur rs ts W"
  by (simp add: sched_def)

lemma sched_core_words [simp]: "sched_core (k\<lparr>words := w\<rparr>) L cur rs ts W = sched_core k L cur rs ts W"
  by (simp add: sched_core_def thread_ok_def)

lemma sched_words [simp]: "sched (k\<lparr>words := w\<rparr>) L cur rs ts W = sched k L cur rs ts W"
  by (simp add: sched_def)

section \<open>The switch\<close>

lemma thread_of_elem_of [simp]: "thread_of_elem (elem_of t) = t"
  by (simp add: thread_of_elem_def elem_of_def)

lemma elem_of_inject [simp]: "elem_of t = elem_of u \<longleftrightarrow> t = u"
  by (simp add: elem_of_def)

lemma family_distinct:
  assumes "ll.family h L" "L l = Some (map elem_of rs)"
  shows "distinct rs"
  using dlistD(1)[OF ll.familyD(1)[OF assms]] by (simp add: nodes_def distinct_map)

lemma ready_owned:
  assumes "L l = Some (map elem_of rs)" "t \<in> set rs"
  shows "elem_of t \<in> ll.owned L"
  by (rule ll.ownedI [where l = l and xs = "map elem_of rs"]) (use assms in \<open>simp_all add: set_nodes\<close>)

text \<open>What no operation of the scheduler writes.\<close>

definition unchanged :: "kernel \<Rightarrow> kernel \<Rightarrow> bool" where
  "unchanged k k' \<longleftrightarrow> words k' = words k \<and> ready_list k' = ready_list k \<and> all_list k' = all_list k \<and>
     idle_thread k' = idle_thread k \<and> initial_thread k' = initial_thread k \<and>
     kernel_pool k' = kernel_pool k \<and> user_pool k' = user_pool k \<and> tid_lock k' = tid_lock k \<and>
     next_tid k' = next_tid k"

lemma unchanged_refl [simp]: "unchanged k k"
  by (simp add: unchanged_def)

lemma unchanged_trans: "unchanged k k' \<Longrightarrow> unchanged k' k'' \<Longrightarrow> unchanged k k''"
  by (simp add: unchanged_def)

lemma unchanged_simps [simp]:
  "unchanged k (k'\<lparr>lheap := h\<rparr>) = unchanged k k'" "unchanged k (k'\<lparr>cpu := c\<rparr>) = unchanged k k'"
  "unchanged k (k'\<lparr>thread_ticks := n\<rparr>) = unchanged k k'" "unchanged k (set_thread t th k') = unchanged k k'"
  "unchanged k (set_level l k') = unchanged k k'"
  by (simp_all add: unchanged_def)

lemma next_thread:
  assumes core: "sched_core k L cur rs ts W"
  shows "\<exists>h'. thread_get_next_thread_to_run k =
       Some (if rs = [] then idle_thread k else hd rs, k\<lparr>lheap := h'\<rparr>) \<and>
     ll.family h' (L(ready_list k \<mapsto> map elem_of (tl rs))) \<and>
     (\<forall>p. valid h' p = valid (lheap k) p) \<and>
     ll.owned (L(ready_list k \<mapsto> map elem_of (tl rs))) \<subseteq> ll.owned L \<and>
     (rs \<noteq> [] \<longrightarrow> elem_of (hd rs) \<notin> ll.owned (L(ready_list k \<mapsto> map elem_of (tl rs))))"
proof -
  note fam = sched_coreD(1)[OF core] and rl = sched_coreD(5)[OF core]
  have em: "list_empty (lheap k) (ready_list k) = Some (rs = [])"
    using ll.family_empty[OF fam rl] by simp
  have sub: "ll.owned (L(ready_list k \<mapsto> map elem_of (tl rs))) \<subseteq> ll.owned L"
  proof -
    have "set (nodes (ready_list k) (map elem_of (tl rs))) \<subseteq> ll.owned L"
      using ll.ownedI[of L "ready_list k" "map elem_of rs"] rl by (cases rs) (auto simp: set_nodes)
    then show ?thesis using ll.owned_update[of L "ready_list k" "map elem_of rs" "map elem_of (tl rs)"] rl by blast
  qed
  show ?thesis
  proof (cases rs)
    case Nil
    then have "L(ready_list k \<mapsto> map elem_of (tl rs)) = L" using rl by (simp add: fun_upd_idem)
    moreover have "k\<lparr>lheap := lheap k\<rparr> = k" by simp
    ultimately show ?thesis
      using em fam Nil
      by (intro exI[of _ "lheap k"]) (simp add: thread_get_next_thread_to_run_def)
  next
    case (Cons r rs')
    have "L (ready_list k) = Some (elem_of r # map elem_of rs')" using rl Cons by simp
    from ll.family_pop[OF fam this] obtain h' where h':
      "list_pop_front (lheap k) (ready_list k) = Some (elem_of r, h')"
      "ll.family h' (L(ready_list k \<mapsto> map elem_of rs'))" "elem_of r \<notin> ll.owned (L(ready_list k \<mapsto> map elem_of rs'))"
      "modifies (lheap k) h' (ll.owned L)" by blast
    then show ?thesis
      using em Cons sub modifies_valid[OF h'(4)]
      by (intro exI[of _ h']) (simp add: thread_get_next_thread_to_run_def pop_list_def)
  qed
qed

lemma level_irq_mode [simp]: "interrupts_get_level (k\<lparr>cpu := c\<lparr>cpsr := 0xd2\<rparr>\<rparr>) = INTERRUPTS_OFF"
  by (simp add: interrupts_get_level_def get_cpsr_value_def FLAG_IRQ_def)

text \<open>\<open>thread_schedule_tail\<close> when the old thread lives on.\<close>

lemma schedule_tail_alive:
  assumes "interrupts_get_level k = INTERRUPTS_OFF" "thread_at k n = Some nt" "n \<noteq> NULL"
    "thread_at k cur = Some cth" "status cth \<noteq> THREAD_DYING"
  shows "thread_schedule_tail cur n k =
     Some (set_thread n (nt\<lparr>status := THREAD_RUNNING\<rparr>) (k\<lparr>thread_ticks := 0\<rparr>))"
proof -
  show ?thesis
    using assms by (cases "cur = n") (simp_all add: thread_schedule_tail_def set_status_def heap_simps)
qed

lemma switch_context:
  fixes k cur
  defines "f \<equiv> (cpu k)\<lparr>r15_pc := r14_lr (cpu k)\<rparr>"
  assumes c: "thread_at k cur = Some cth" "cur \<noteq> NULL" "status cth \<noteq> THREAD_DYING"
    and n: "thread_at k n = Some nt" "n \<noteq> NULL"
  shows "\<exists>k'. save_and_switch_context cur n k = Some k' \<and> unchanged k k' \<and> lheap k' = lheap k \<and>
     in_external_interrupt k' = in_external_interrupt k \<and> was_irq_generated k' = was_irq_generated k \<and>
     cpu k' = (if n = cur then f else stack_frame nt) \<and>
     thread_at k' n = Some (nt\<lparr>status := THREAD_RUNNING, stack_frame := (if n = cur then f else stack_frame nt)\<rparr>) \<and>
     (n \<noteq> cur \<longrightarrow> thread_at k' cur = Some (cth\<lparr>stack_frame := f\<rparr>)) \<and>
     (\<forall>t. t \<noteq> cur \<longrightarrow> t \<noteq> n \<longrightarrow> thread_at k' t = thread_at k t)"
proof -
  let ?k1 = "set_thread cur (cth\<lparr>stack_frame := f\<rparr>) k"
  let ?k2 = "?k1\<lparr>cpu := (cpu ?k1)\<lparr>cpsr := 0xd2\<rparr>\<rparr>"
  let ?nt = "if n = cur then cth\<lparr>stack_frame := f\<rparr> else nt"
  let ?k3 = "set_thread n (?nt\<lparr>status := THREAD_RUNNING\<rparr>) (?k2\<lparr>thread_ticks := 0\<rparr>)"
  have "thread_schedule_tail cur n ?k2 = Some ?k3"
    by (rule schedule_tail_alive[where cth = "cth\<lparr>stack_frame := f\<rparr>"]) (use c n in \<open>simp_all add: heap_simps\<close>)
  then have "save_and_switch_context cur n k = Some (?k3\<lparr>cpu := stack_frame ?nt\<rparr>)"
    using c(1) n by (simp add: save_and_switch_context_def f_def heap_simps)
  then show ?thesis
    using c n by (intro exI[of _ "?k3\<lparr>cpu := stack_frame ?nt\<rparr>"]) (cases "n = cur"; simp add: heap_simps)
qed

text \<open>
  The invariant after a switch from \<open>cur\<close> to \<open>n\<close>, however it was done: \<open>h'\<close> is the store of
  the lists with \<open>n\<close> taken off the ready list, \<open>f\<close> the registers that are loaded, \<open>g\<close> those
  that were saved.
\<close>

lemma sched_after_switch:
  assumes core: "sched_core k L cur rs ts W" and cur: "cur \<in> set ts"
    and st: "status_of k cur = Some s" "s \<noteq> THREAD_RUNNING"
    and nx: "rs \<noteq> [] \<or> idle_thread k \<noteq> NULL"
    and idle: "idle_thread k = cur \<Longrightarrow> elem_of cur \<notin> ll.owned L"
    and n_def: "n = (if rs = [] then idle_thread k else hd rs)"
    and h': "ll.family h' (L(ready_list k \<mapsto> map elem_of (tl rs)))" "\<And>p. valid h' p = valid (lheap k) p"
      "ll.owned (L(ready_list k \<mapsto> map elem_of (tl rs))) \<subseteq> ll.owned L"
      "rs \<noteq> [] \<Longrightarrow> elem_of (hd rs) \<notin> ll.owned (L(ready_list k \<mapsto> map elem_of (tl rs)))"
    and k': "lheap k' = h'" "ready_list k' = ready_list k" "all_list k' = all_list k" "idle_thread k' = idle_thread k"
      "\<not> in_external_interrupt k'" "\<not> was_irq_generated k'"
    and at_n: "\<And>nt. thread_at k n = Some nt \<Longrightarrow>
        thread_at k' n = Some (nt\<lparr>status := THREAD_RUNNING, stack_frame := f\<rparr>)"
    and at_cur: "\<And>cth. n \<noteq> cur \<Longrightarrow> thread_at k cur = Some cth \<Longrightarrow> thread_at k' cur = Some (cth\<lparr>stack_frame := g\<rparr>)"
    and at_other: "\<And>t. t \<noteq> cur \<Longrightarrow> t \<noteq> n \<Longrightarrow> thread_at k' t = thread_at k t"
    and f: "cpu k' = f" "pg_round_down (r13_sp f) = n" and g: "pg_round_down (r13_sp g) = cur"
  shows "sched k' (L(ready_list k \<mapsto> map elem_of (tl rs))) n (tl rs) ts W \<and>
     (\<forall>t. t \<noteq> n \<longrightarrow> status_of k' t = status_of k t) \<and>
     (\<forall>t. t \<noteq> cur \<longrightarrow> t \<noteq> n \<longrightarrow> frame_of k' t = frame_of k t) \<and>
     frame_of k' n = f \<and> (n \<noteq> cur \<longrightarrow> frame_of k' cur = g)"
proof -
  let ?L = "L(ready_list k \<mapsto> map elem_of (tl rs))"
  note D = sched_coreD[OF core]
  have n_ts: "n \<in> set ts" using nx D(8,13) unfolding n_def by (cases rs) auto
  have n_elem: "elem_of n \<notin> ll.owned ?L"
    using h'(3,4) D(14) nx idle unfolding n_def by (cases "rs = []"; cases "idle_thread k = cur") auto
  have n_ok: "thread_ok k n" by (rule D(7)[OF n_ts])
  obtain nt where nt: "thread_at k n = Some nt" "magic nt = THREAD_MAGIC" "n \<noteq> NULL"
    using n_ok by (auto simp: thread_ok_def)
  obtain cth where cth: "thread_at k cur = Some cth" "magic cth = THREAD_MAGIC" "cur \<noteq> NULL"
    using D(15) by (auto simp: thread_ok_def)
  note an = at_n[OF nt(1)] and ac = at_cur[OF _ cth(1)]
  have st': "status_of k' t = status_of k t" if "t \<noteq> n" for t
    using that ac at_other cth(1) by (cases "t = cur") (auto simp: status_of_def)
  have fr': "frame_of k' t = frame_of k t" if "t \<noteq> cur" "t \<noteq> n" for t
    using at_other[OF that] by (simp add: frame_of_def)
  have frn: "frame_of k' n = f" using an by (simp add: frame_of_def)
  have frc: "frame_of k' cur = g" if "n \<noteq> cur"
    using ac[OF that] by (simp add: frame_of_def)
  have ok': "thread_ok k' t" if "t \<in> set ts" for t
  proof -
    have "\<exists>th. thread_at k' t = Some th \<and> magic th = THREAD_MAGIC"
      using thread_ok_at[OF D(7)[OF that]] an ac at_other nt cth by (cases "t = n"; cases "t = cur") auto
    then show ?thesis using D(7)[OF that] k'(1) h'(2) by (simp add: thread_ok_def)
  qed
  have nr: "n \<notin> set (tl rs)"
    using family_distinct[OF D(1,5)] n_elem ready_owned[of ?L "ready_list k" "tl rs" n] by auto
  have W: "\<exists>bs. ?L w = Some (map elem_of bs) \<and> set bs \<subseteq> set ts \<and> (\<forall>b \<in> set bs. status_of k' b = Some THREAD_BLOCKED)"
    if w: "w \<in> W" for w
  proof -
    obtain bs where bs: "L w = Some (map elem_of bs)" "set bs \<subseteq> set ts" "\<forall>b \<in> set bs. status_of k b = Some THREAD_BLOCKED"
      using D(12)[OF w] by blast
    have w': "?L w = Some (map elem_of bs)" using bs(1) w D(3) by auto
    then have "n \<notin> set bs" using ready_owned[of ?L w bs n] n_elem by blast
    then have "status_of k' b = Some THREAD_BLOCKED" if "b \<in> set bs" for b
      using st'[of b] bs(3) that by (cases "b = n") auto
    then show ?thesis using bs(2) w' by blast
  qed
  have core': "sched_core k' ?L n (tl rs) ts W"
    unfolding sched_core_def
  proof (intro conjI ballI impI)
    show "ll.family (lheap k') ?L" using h'(1) k'(1) by simp
    show "ready_list k' \<noteq> all_list k'" "ready_list k' \<notin> W" "all_list k' \<notin> W"
      "?L (ready_list k') = Some (map elem_of (tl rs))" "?L (all_list k') = Some (map allelem_of ts)"
      using k'(2,3) D(2,3,4,6) by auto
    show "thread_ok k' t" if "t \<in> set ts" for t by (rule ok'[OF that])
    show "set (tl rs) \<subseteq> set ts" using D(8) by (cases rs) auto
    show "status_of k' t = Some THREAD_READY" if "t \<in> set (tl rs)" for t
      using st'[of t] that nr D(9)[of t] by (cases rs) auto
    show "status_of k' t \<noteq> Some THREAD_RUNNING" if "t \<in> set ts - {n}" for t
      using st'[of t] that D(10)[of t] st by (cases "t = cur") auto
    show "pg_round_down (r13_sp (frame_of k' t)) = t" if "t \<in> set ts - {n}" for t
      using fr'[of t] that D(11)[of t] frc g by (cases "t = cur") auto
    show "\<exists>bs. ?L w = Some (map elem_of bs) \<and> set bs \<subseteq> set ts \<and>
        (\<forall>b \<in> set bs. status_of k' b = Some THREAD_BLOCKED)" if "w \<in> W" for w
      by (rule W[OF that])
    show "idle_thread k' \<in> set ts" if "idle_thread k' \<noteq> NULL" using that k'(4) D(13) by simp
    show "elem_of (idle_thread k') \<notin> ll.owned ?L" if "idle_thread k' \<noteq> NULL" "idle_thread k' \<noteq> n"
      using that k'(4) D(14) idle h'(3) by (cases "idle_thread k = cur") auto
    show "thread_ok k' n" by (rule ok'[OF n_ts])
    show "pg_round_down (r13_sp (cpu k')) = n" using f by simp
    show "\<not> in_external_interrupt k'" "\<not> was_irq_generated k'" using k'(5,6) by auto
  qed
  have "status_of k' n = Some THREAD_RUNNING" using an by (simp add: status_of_def)
  then have "sched k' ?L n (tl rs) ts W" using core' n_ts n_elem unfolding sched_def by simp
  then show ?thesis using st' fr' frn frc by simp
qed

lemma schedule_sched:
  assumes core: "sched_core k L cur rs ts W" and cur: "cur \<in> set ts"
    and st: "status_of k cur = Some s" "s \<noteq> THREAD_RUNNING" "s \<noteq> THREAD_DYING"
    and off: "interrupts_get_level k = INTERRUPTS_OFF"
    and nx: "rs \<noteq> [] \<or> idle_thread k \<noteq> NULL"
    and idle: "idle_thread k = cur \<Longrightarrow> elem_of cur \<notin> ll.owned L"
    and n_def: "n = (if rs = [] then idle_thread k else hd rs)"
  shows "\<exists>k'. schedule k = Some k' \<and> sched k' (L(ready_list k \<mapsto> map elem_of (tl rs))) n (tl rs) ts W \<and>
     unchanged k k' \<and> cpu k' = frame_of k' n \<and>
     frame_of k' cur = (cpu k)\<lparr>r15_pc := r14_lr (cpu k)\<rparr> \<and>
     (\<forall>t. t \<noteq> n \<longrightarrow> status_of k' t = status_of k t) \<and> (\<forall>t. t \<noteq> cur \<longrightarrow> frame_of k' t = frame_of k t)"
proof -
  let ?L = "L(ready_list k \<mapsto> map elem_of (tl rs))"
  note D = sched_coreD[OF core]
  obtain h' where h': "thread_get_next_thread_to_run k = Some (n, k\<lparr>lheap := h'\<rparr>)"
    "ll.family h' ?L" "\<And>p. valid h' p = valid (lheap k) p" "ll.owned ?L \<subseteq> ll.owned L"
    "rs \<noteq> [] \<Longrightarrow> elem_of (hd rs) \<notin> ll.owned ?L"
    using next_thread[OF core] unfolding n_def by blast
  have n_ts: "n \<in> set ts" using nx D(8,13) unfolding n_def by (cases rs) auto
  obtain nt where nt: "thread_at k n = Some nt" "magic nt = THREAD_MAGIC" "n \<noteq> NULL"
    using D(7)[OF n_ts] by (auto simp: thread_ok_def)
  obtain cth where cth: "thread_at k cur = Some cth" "magic cth = THREAD_MAGIC" "cur \<noteq> NULL"
    using D(15) by (auto simp: thread_ok_def)
  have cst: "status cth = s" using st(1) cth(1) by (simp add: status_of_def)
  let ?k = "k\<lparr>lheap := h'\<rparr>"
  have sched: "schedule k = save_and_switch_context cur n ?k"
    using running_core[OF core] h'(1) off cth nt cst st(2) D(18)
    by (simp add: schedule_def schedule_not_in_interrupt_def is_thread_def interrupts_was_irq_generated_def
        level_off_iff)
  let ?f = "(cpu ?k)\<lparr>r15_pc := r14_lr (cpu ?k)\<rparr>"
  have "thread_at ?k cur = Some cth" "status cth \<noteq> THREAD_DYING" "thread_at ?k n = Some nt"
    using cth nt cst st(3) by simp_all
  from switch_context[OF this(1) cth(3) this(2,3) nt(3)]
  obtain k' where k': "save_and_switch_context cur n ?k = Some k'" "unchanged ?k k'" "lheap k' = lheap ?k"
     "in_external_interrupt k' = in_external_interrupt ?k" "was_irq_generated k' = was_irq_generated ?k"
     "cpu k' = (if n = cur then ?f else stack_frame nt)"
     "thread_at k' n = Some (nt\<lparr>status := THREAD_RUNNING,
        stack_frame := (if n = cur then ?f else stack_frame nt)\<rparr>)"
     "n \<noteq> cur \<longrightarrow> thread_at k' cur = Some (cth\<lparr>stack_frame := ?f\<rparr>)"
     "\<forall>t. t \<noteq> cur \<longrightarrow> t \<noteq> n \<longrightarrow> thread_at k' t = thread_at ?k t"
    by (elim exE conjE)
  have unch: "unchanged k k'" using k'(2) by (simp add: unchanged_def)
  have nf: "frame_of k n = stack_frame nt" using nt(1) by (simp add: frame_of_def)
  have "sched k' ?L n (tl rs) ts W \<and> (\<forall>t. t \<noteq> n \<longrightarrow> status_of k' t = status_of k t) \<and>
     (\<forall>t. t \<noteq> cur \<longrightarrow> t \<noteq> n \<longrightarrow> frame_of k' t = frame_of k t) \<and>
     frame_of k' n = (if n = cur then ?f else stack_frame nt) \<and> (n \<noteq> cur \<longrightarrow> frame_of k' cur = ?f)"
  proof (rule sched_after_switch[OF core cur st(1,2) nx idle n_def h'(2,3,4,5)])
    show "pg_round_down (r13_sp (if n = cur then ?f else stack_frame nt)) = n"
      using D(16) D(11)[OF n_ts] nf by auto
  qed (use k' unch nt cth D(16,17,18) in \<open>auto simp: unchanged_def\<close>)
  then show ?thesis using sched k'(1,6) unch nf by auto
qed

end
