(* ===== verification/Kernel_Synch.thy ===== *)
theory Kernel_Synch
  imports Kernel_Thread
begin

text \<open>
  The synchronisation primitives of threads/synch.c.  The semaphore at \<open>s\<close> is its value, the
  word at \<open>s\<close>, and the list of waiting threads at \<open>s + 4\<close>.  The lock at \<open>l\<close> is its holder,
  the word at \<open>l\<close>, and the semaphore at \<open>l + 4\<close>.  A condition variable is a list of
  \<open>struct semaphore_elem\<close>, each a list element followed by a semaphore at offset 8.

  \<open>sema_down\<close> is split where the calling thread may be switched away: \<open>sema_down_loop\<close> is the
  \<open>while\<close> loop from its test on, which is also what the thread runs when it is woken.
\<close>

definition waiters_of :: "addr \<Rightarrow> addr" where
  "waiters_of s = s + 4"

definition semaphore_of :: "addr \<Rightarrow> addr" where
  "semaphore_of l = l + 4"

section \<open>Semaphores\<close>

definition sema_init :: "addr \<Rightarrow> u32 \<Rightarrow> kernel \<Rightarrow> kernel option" where
  "sema_init sema v k = do {
     ASSERT (sema \<noteq> NULL);
     k \<leftarrow> set_word sema v k;
     on_lists (\<lambda>h. list_init h (waiters_of sema)) k }"

definition sema_down_loop :: "addr \<Rightarrow> interrupts_level \<Rightarrow> kernel \<Rightarrow> (outcome \<times> kernel) option" where
  "sema_down_loop sema old_level k = do {
     v \<leftarrow> word_at k sema;
     if v = 0 then do {
       t \<leftarrow> thread_current k;
       k \<leftarrow> on_lists (\<lambda>h. list_push_back h (waiters_of sema) (elem_of t)) k;
       k \<leftarrow> thread_block k;
       Some (Switched [Sema_down_loop sema old_level], k) }
     else do {
       k \<leftarrow> set_word sema (v - 1) k;
       Some (Done 0, snd (interrupts_set_level old_level k)) } }"

definition sema_down :: "addr \<Rightarrow> kernel \<Rightarrow> (outcome \<times> kernel) option" where
  "sema_down sema k = do {
     ASSERT (sema \<noteq> NULL);
     ASSERT (\<not> interrupts_context k);
     let (old_level, k) = interrupts_disable k;
     sema_down_loop sema old_level k }"

definition sema_try_down :: "addr \<Rightarrow> kernel \<Rightarrow> (bool \<times> kernel) option" where
  "sema_try_down sema k = do {
     ASSERT (sema \<noteq> NULL);
     let (old_level, k) = interrupts_disable k;
     v \<leftarrow> word_at k sema;
     (success, k) \<leftarrow> (if v > 0 then do { k \<leftarrow> set_word sema (v - 1) k; Some (True, k) }
                     else Some (False, k));
     Some (success, snd (interrupts_set_level old_level k)) }"

definition sema_up :: "addr \<Rightarrow> kernel \<Rightarrow> kernel option" where
  "sema_up sema k = do {
     ASSERT (sema \<noteq> NULL);
     let (old_level, k) = interrupts_disable k;
     em \<leftarrow> list_empty (lheap k) (waiters_of sema);
     k \<leftarrow> (if \<not> em then do {
             (e, k) \<leftarrow> pop_list (waiters_of sema) k;
             thread_unblock (thread_of_elem e) k }
          else Some k);
     v \<leftarrow> word_at k sema;
     k \<leftarrow> set_word sema (v + 1) k;
     Some (snd (interrupts_set_level old_level k)) }"

section \<open>Locks\<close>

definition lock_init :: "addr \<Rightarrow> kernel \<Rightarrow> kernel option" where
  "lock_init lock k = do {
     ASSERT (lock \<noteq> NULL);
     k \<leftarrow> set_word lock NULL k;
     sema_init (semaphore_of lock) 1 k }"

definition lock_held_by_current_thread :: "addr \<Rightarrow> kernel \<Rightarrow> bool option" where
  "lock_held_by_current_thread lock k = do {
     ASSERT (lock \<noteq> NULL);
     hl \<leftarrow> word_at k lock;
     t \<leftarrow> thread_current k;
     Some (hl = t) }"

definition lock_acquire_tail :: "addr \<Rightarrow> kernel \<Rightarrow> (outcome \<times> kernel) option" where
  "lock_acquire_tail lock k = do {
     t \<leftarrow> thread_current k; k \<leftarrow> set_word lock t k; Some (Done 0, k) }"

definition lock_acquire :: "addr \<Rightarrow> kernel \<Rightarrow> (outcome \<times> kernel) option" where
  "lock_acquire lock k = do {
     ASSERT (lock \<noteq> NULL);
     ASSERT (\<not> interrupts_context k);
     hl \<leftarrow> lock_held_by_current_thread lock k; ASSERT (\<not> hl);
     and_then (sema_down (semaphore_of lock) k) (Lock_acquire_tail lock) (\<lambda>_. lock_acquire_tail lock) }"

definition lock_try_acquire :: "addr \<Rightarrow> kernel \<Rightarrow> (bool \<times> kernel) option" where
  "lock_try_acquire lock k = do {
     ASSERT (lock \<noteq> NULL);
     hl \<leftarrow> lock_held_by_current_thread lock k; ASSERT (\<not> hl);
     (success, k) \<leftarrow> sema_try_down (semaphore_of lock) k;
     if success then do { t \<leftarrow> thread_current k; k \<leftarrow> set_word lock t k; Some (success, k) }
     else Some (success, k) }"

definition lock_release :: "addr \<Rightarrow> kernel \<Rightarrow> kernel option" where
  "lock_release lock k = do {
     ASSERT (lock \<noteq> NULL);
     hl \<leftarrow> lock_held_by_current_thread lock k; ASSERT hl;
     k \<leftarrow> set_word lock NULL k;
     sema_up (semaphore_of lock) k }"

section \<open>Condition variables\<close>

text \<open>
  \<open>waiter\<close> is the address of the local \<open>struct semaphore_elem\<close> of \<open>cond_wait\<close>, on the stack
  of the calling thread; its list element is at \<open>waiter\<close> and its semaphore at \<open>waiter + 8\<close>.
\<close>

definition waiter_semaphore :: "addr \<Rightarrow> addr" where
  "waiter_semaphore waiter = waiter + 8"

definition cond_init :: "addr \<Rightarrow> kernel \<Rightarrow> kernel option" where
  "cond_init cond k = do { ASSERT (cond \<noteq> NULL); on_lists (\<lambda>h. list_init h cond) k }"

definition cond_wait :: "addr \<Rightarrow> addr \<Rightarrow> addr \<Rightarrow> kernel \<Rightarrow> (outcome \<times> kernel) option" where
  "cond_wait waiter cond lock k = do {
     ASSERT (cond \<noteq> NULL);
     ASSERT (lock \<noteq> NULL);
     ASSERT (\<not> interrupts_context k);
     hl \<leftarrow> lock_held_by_current_thread lock k; ASSERT hl;
     k \<leftarrow> sema_init (waiter_semaphore waiter) 0 k;
     k \<leftarrow> on_lists (\<lambda>h. list_push_back h cond waiter) k;
     k \<leftarrow> lock_release lock k;
     and_then (sema_down (waiter_semaphore waiter) k) (Cond_wait_tail lock) (\<lambda>_. lock_acquire lock) }"

definition cond_signal :: "addr \<Rightarrow> addr \<Rightarrow> kernel \<Rightarrow> kernel option" where
  "cond_signal cond lock k = do {
     ASSERT (cond \<noteq> NULL);
     ASSERT (lock \<noteq> NULL);
     ASSERT (\<not> interrupts_context k);
     hl \<leftarrow> lock_held_by_current_thread lock k; ASSERT hl;
     em \<leftarrow> list_empty (lheap k) cond;
     if \<not> em then do {
       (e, k) \<leftarrow> pop_list cond k;
       sema_up (waiter_semaphore e) k }
     else Some k }"

text \<open>The loop of \<open>cond_broadcast\<close>.\<close>

partial_function (option) cond_broadcast_loop :: "addr \<Rightarrow> addr \<Rightarrow> kernel \<Rightarrow> kernel option" where
  "cond_broadcast_loop cond lock k = do {
     em \<leftarrow> list_empty (lheap k) cond;
     if \<not> em then do { k \<leftarrow> cond_signal cond lock k; cond_broadcast_loop cond lock k }
     else Some k }"

definition cond_broadcast :: "addr \<Rightarrow> addr \<Rightarrow> kernel \<Rightarrow> kernel option" where
  "cond_broadcast cond lock k = do {
     ASSERT (cond \<noteq> NULL);
     ASSERT (lock \<noteq> NULL);
     cond_broadcast_loop cond lock k }"

declare cond_broadcast_loop.simps [code]

end
