(* ===== verification/Kernel_Sched_Rep.thy ===== *)
theory Kernel_Sched_Rep
  imports Kernel_Thread_Rep Kernel_Synch
begin

text \<open>
  What the operations that change the state of one thread do to the invariant of the
  scheduler: waking a thread, going to sleep on a waiters list, yielding and ending; and the
  operations of a semaphore on top of them.
\<close>

section \<open>One thread changes its state\<close>

lemma sched_core_update:
  assumes core: "sched_core k L cur rs ts W" and th: "thread_at k t = Some th" "t \<noteq> NULL"
    and fam: "ll.family h' L'" and v: "\<And>p. valid h' p = valid (lheap k) p"
    and lists: "L' (ready_list k) = Some (map elem_of rs')" "L' (all_list k) = Some (map allelem_of ts')"
    and sub: "set ts' \<subseteq> set ts" "set rs' \<subseteq> set ts'"
    and rdy: "\<And>u. u \<in> set rs' \<Longrightarrow> if u = t then s = THREAD_READY else status_of k u = Some THREAD_READY"
    and run: "t \<noteq> cur \<Longrightarrow> s \<noteq> THREAD_RUNNING"
    and wait: "\<And>w. w \<in> W \<Longrightarrow> \<exists>bs. L' w = Some (map elem_of bs) \<and> set bs \<subseteq> set ts' \<and>
        (\<forall>b \<in> set bs. if b = t then s = THREAD_BLOCKED else status_of k b = Some THREAD_BLOCKED)"
    and idle: "idle_thread k \<noteq> NULL \<Longrightarrow> idle_thread k \<in> set ts' \<and>
        (idle_thread k \<noteq> cur \<longrightarrow> elem_of (idle_thread k) \<notin> ll.owned L')"
  defines "k' \<equiv> set_thread t (th\<lparr>status := s\<rparr>) (k\<lparr>lheap := h'\<rparr>)"
  shows "sched_core k' L' cur rs' ts' W"
proof -
  note D = sched_coreD[OF core]
  have st: "status_of k' u = (if u = t then Some s else status_of k u)" for u
    using th by (simp add: k'_def status_of_def thread_at_set)
  have fr: "frame_of k' u = frame_of k u" for u
    using th by (simp add: k'_def frame_of_def thread_at_set)
  have ok: "thread_ok k' u" if "thread_ok k u" for u
    using that th v by (auto simp: k'_def thread_ok_def thread_at_set)
  have W: "\<exists>bs. L' w = Some (map elem_of bs) \<and> set bs \<subseteq> set ts' \<and> (\<forall>b \<in> set bs. status_of k' b = Some THREAD_BLOCKED)"
    if w: "w \<in> W" for w
  proof -
    obtain bs where "L' w = Some (map elem_of bs)" "set bs \<subseteq> set ts'"
      "\<forall>b \<in> set bs. if b = t then s = THREAD_BLOCKED else status_of k b = Some THREAD_BLOCKED"
      using wait[OF w] by blast
    then show ?thesis by (intro exI[of _ bs]) (auto simp: st)
  qed
  have U: "ready_list k' = ready_list k" "all_list k' = all_list k" "idle_thread k' = idle_thread k"
      "lheap k' = h'" "cpu k' = cpu k" "in_external_interrupt k' = in_external_interrupt k"
      "was_irq_generated k' = was_irq_generated k"
    by (simp_all add: k'_def)
  show ?thesis
    unfolding sched_core_def
  proof (intro conjI ballI impI)
    show "ll.family (lheap k') L'" using fam U by simp
    show "ready_list k' \<noteq> all_list k'" "ready_list k' \<notin> W" "all_list k' \<notin> W"
      "L' (ready_list k') = Some (map elem_of rs')" "L' (all_list k') = Some (map allelem_of ts')"
      using U D(2,3,4) lists by auto
    show "thread_ok k' u" if "u \<in> set ts'" for u using ok D(7) that sub(1) by blast
    show "set rs' \<subseteq> set ts'" by (rule sub(2))
    show "status_of k' u = Some THREAD_READY" if "u \<in> set rs'" for u
      using rdy[OF that] by (auto simp: st split: if_splits)
    show "status_of k' u \<noteq> Some THREAD_RUNNING" if "u \<in> set ts' - {cur}" for u
      using that D(10)[of u] sub(1) run by (auto simp: st)
    show "pg_round_down (r13_sp (frame_of k' u)) = u" if "u \<in> set ts' - {cur}" for u
      using that D(11)[of u] sub(1) by (auto simp: fr)
    show "\<exists>bs. L' w = Some (map elem_of bs) \<and> set bs \<subseteq> set ts' \<and>
        (\<forall>b \<in> set bs. status_of k' b = Some THREAD_BLOCKED)" if "w \<in> W" for w
      by (rule W[OF that])
    show "idle_thread k' \<in> set ts'" if "idle_thread k' \<noteq> NULL" using that idle U by simp
    show "elem_of (idle_thread k') \<notin> ll.owned L'" if "idle_thread k' \<noteq> NULL" "idle_thread k' \<noteq> cur"
      using that idle U by simp
    show "thread_ok k' cur" using ok D(15) by blast
    show "pg_round_down (r13_sp (cpu k')) = cur" using D(16) U by simp
    show "\<not> in_external_interrupt k'" "\<not> was_irq_generated k'" using U D(17,18) by auto
  qed
qed

lemma status_update:
  "thread_at k t = Some th \<Longrightarrow> t \<noteq> NULL \<Longrightarrow>
   status_of (set_thread t (th\<lparr>status := s\<rparr>) k') u = (if u = t then Some s else status_of k' u)"
  by (simp add: status_of_def thread_at_set)

lemma frame_update:
  "thread_at k' t = Some th \<Longrightarrow> t \<noteq> NULL \<Longrightarrow> frame_of (set_thread t (th\<lparr>status := s\<rparr>) k') u = frame_of k' u"
  by (simp add: frame_of_def thread_at_set)

text \<open>Saving the level, switching interrupts off and restoring the level is no change at all.\<close>

lemma restore_level: "set_level (interrupts_get_level k) (set_level INTERRUPTS_OFF k) = k"
proof -
  have m: "bit (0x80 :: u32) n \<longleftrightarrow> n = 7" for n
    using bit_push_bit_iff[of 7 "1 :: u32" n] by (auto simp: bit_1_iff)
  have "c OR 0x80 = c" if "bit c 7" for c :: u32
  proof (rule bit_eqI)
    show "bit (c OR 0x80) n = bit c n" for n using m[of n] that by (auto simp only: bit_or_iff)
  qed
  moreover have "(c OR 0x80) AND NOT 0x80 = c" if "\<not> bit c 7" for c :: u32
  proof (rule bit_eqI)
    show "bit ((c OR 0x80) AND NOT 0x80) n = bit c n" if "possible_bit TYPE(32 word) n" for n
      using m[of n] \<open>\<not> bit c 7\<close> that by (auto simp only: bit_or_iff bit_and_iff bit_not_iff)
  qed
  ultimately show ?thesis
    using level_off_iff[of k]
    by (cases "interrupts_get_level k") (auto simp: interrupts_set_level_def interrupts_enable_def
        interrupts_disable_def enable_irq_interruptions_def disable_irq_interruptions_def Let_def)
qed

lemma set_level_commute [simp]:
  "set_level l (set_thread t th k) = set_thread t th (set_level l k)"
  "set_level l (k\<lparr>lheap := h\<rparr>) = (set_level l k)\<lparr>lheap := h\<rparr>"
  "set_level l (k\<lparr>words := w\<rparr>) = (set_level l k)\<lparr>words := w\<rparr>"
  by (cases l; simp add: interrupts_set_level_def interrupts_enable_def interrupts_disable_def
      enable_irq_interruptions_def disable_irq_interruptions_def Let_def set_thread_def)+

lemma level_update [simp]:
  "interrupts_get_level (k\<lparr>lheap := h\<rparr>) = interrupts_get_level k"
  "interrupts_get_level (k\<lparr>words := w\<rparr>) = interrupts_get_level k"
  "interrupts_get_level (set_thread t th k) = interrupts_get_level k"
  by (simp_all add: interrupts_get_level_def get_cpsr_value_def)

text \<open>Which elements are in lists after a push and after a pop.\<close>

lemma push_owned:
  assumes "L l = Some (map elem_of xs)"
  shows "ll.owned (L(l \<mapsto> map elem_of (xs @ [t]))) \<subseteq> insert (elem_of t) (ll.owned L)"
proof -
  have "set (nodes l (map elem_of (xs @ [t]))) \<subseteq> insert (elem_of t) (ll.owned L)"
    using ll.ownedI[of L l "map elem_of xs"] assms by (auto simp: set_nodes)
  then show ?thesis
    using ll.owned_update[of L l "map elem_of xs" "map elem_of (xs @ [t])"] assms by blast
qed

section \<open>Waking a thread\<close>

lemma thread_unblock_sched:
  assumes core: "sched_core k L cur rs ts W" and t: "t \<in> set ts" "status_of k t = Some THREAD_BLOCKED"
    "elem_of t \<notin> ll.owned L" "t \<noteq> idle_thread k"
  defines "L' \<equiv> L(ready_list k \<mapsto> map elem_of (rs @ [t]))"
  shows "\<exists>k'. thread_unblock t k = Some k' \<and> sched_core k' L' cur (rs @ [t]) ts W \<and> unchanged k k' \<and>
     cpu k' = cpu k \<and> ll.owned L' \<subseteq> insert (elem_of t) (ll.owned L) \<and>
     (\<forall>u. status_of k' u = (if u = t then Some THREAD_READY else status_of k u)) \<and>
     (\<forall>u. frame_of k' u = frame_of k u)"
proof -
  note D = sched_coreD[OF core]
  have ok: "thread_ok k t" by (rule D(7)[OF t(1)])
  then obtain th where th: "thread_at k t = Some th" "magic th = THREAD_MAGIC" "t \<noteq> NULL"
    by (auto simp: thread_ok_def)
  have "valid (lheap k) (elem_of t)" using ok by (simp add: thread_ok_def)
  from ll.family_push[OF D(1,5) this t(3)] obtain h' where h': "list_push_back (lheap k) (ready_list k) (elem_of t) = Some h'"
    "ll.family h' L'" "modifies (lheap k) h' (insert (elem_of t) (ll.owned L))" by (auto simp: L'_def)
  let ?k = "set_thread t (th\<lparr>status := THREAD_READY\<rparr>) (k\<lparr>lheap := h'\<rparr>)"
  have "thread_unblock t k = Some ?k"
    using th t(2) h'(1) restore_level[of k]
    by (simp add: thread_unblock_def is_thread_ok[OF ok] disable_eq status_of_def on_lists_def set_status_def)
  moreover have "sched_core ?k L' cur (rs @ [t]) ts W"
  proof (rule sched_core_update[OF core th(1,3) h'(2)])
    show "valid h' p = valid (lheap k) p" for p by (rule modifies_valid[OF h'(3)])
    show "L' (ready_list k) = Some (map elem_of (rs @ [t]))" "L' (all_list k) = Some (map allelem_of ts)"
      using D(2,6) by (auto simp: L'_def)
    show "set (rs @ [t]) \<subseteq> set ts" using D(8) t(1) by simp
    show "if u = t then THREAD_READY = THREAD_READY else status_of k u = Some THREAD_READY"
      if "u \<in> set (rs @ [t])" for u using that D(9) by auto
    show "\<exists>bs. L' w = Some (map elem_of bs) \<and> set bs \<subseteq> set ts \<and>
        (\<forall>b \<in> set bs. if b = t then THREAD_READY = THREAD_BLOCKED else status_of k b = Some THREAD_BLOCKED)"
      if w: "w \<in> W" for w
    proof -
      obtain bs where bs: "L w = Some (map elem_of bs)" "set bs \<subseteq> set ts" "\<forall>b \<in> set bs. status_of k b = Some THREAD_BLOCKED"
        using D(12)[OF w] by blast
      have "t \<notin> set bs" using ready_owned[of L w bs t] bs(1) t(3) by blast
      moreover have "L' w = Some (map elem_of bs)" using bs(1) w D(3) by (auto simp: L'_def)
      ultimately show ?thesis using bs by (intro exI[of _ bs]) auto
    qed
    show "idle_thread k \<in> set ts \<and> (idle_thread k \<noteq> cur \<longrightarrow> elem_of (idle_thread k) \<notin> ll.owned L')"
      if i: "idle_thread k \<noteq> NULL"
    proof (intro conjI impI)
      assume "idle_thread k \<noteq> cur"
      then have "elem_of (idle_thread k) \<notin> ll.owned L" using D(14) i by blast
      then have "elem_of (idle_thread k) \<notin> insert (elem_of t) (ll.owned L)" using t(4) by auto
      moreover have "ll.owned L' \<subseteq> insert (elem_of t) (ll.owned L)"
        using push_owned[of L "ready_list k" rs t] D(5) by (simp add: L'_def)
      ultimately show "elem_of (idle_thread k) \<notin> ll.owned L'" by blast
    qed (rule D(13)[OF i])
  qed simp_all
  moreover have "ll.owned L' \<subseteq> insert (elem_of t) (ll.owned L)"
    using push_owned[of L "ready_list k" rs t] D(5) by (simp add: L'_def)
  ultimately show ?thesis
    using th by (intro exI[of _ ?k]) (simp add: status_update frame_update)
qed

section \<open>Leaving the processor\<close>

lemma is_thread_update [simp]:
  "is_thread (k\<lparr>lheap := h\<rparr>) t = is_thread k t" "is_thread (set_level l k) t = is_thread k t"
  by (simp_all add: is_thread_def)

lemma thread_current_lheap [simp]: "thread_current (k\<lparr>lheap := h\<rparr>) = thread_current k"
proof -
  have "read_frame (k\<lparr>lheap := h\<rparr>) p = read_frame k p" for p by (cases p) simp_all
  then show ?thesis
    by (simp add: thread_current_def thread_get_running_thread_def interrupts_was_irq_generated_def
        get_current_interrupts_stack_frame_def get_current_sp_def)
qed

lemma thread_current_set_level [simp]: "thread_current (set_level l k) = thread_current k"
proof -
  have "read_frame (set_level l k) p = read_frame k p" for p by (cases p) simp_all
  then show ?thesis
    by (simp add: thread_current_def thread_get_running_thread_def interrupts_was_irq_generated_def
        get_current_interrupts_stack_frame_def get_current_sp_def)
qed

lemma thread_block_eq:
  assumes "thread_current k = Some cur" "thread_at k cur = Some th"
    "\<not> in_external_interrupt k" "interrupts_get_level k = INTERRUPTS_OFF"
  shows "thread_block k = schedule (set_thread cur (th\<lparr>status := THREAD_BLOCKED\<rparr>) k)"
  using assms by (simp add: thread_block_def interrupts_context_def set_status_def)

text \<open>
  The running thread goes to sleep after its list element was put into a waiters list (or into
  no list of the scheduler at all): \<open>h'\<close> is the store then, \<open>L'\<close> the lists.
\<close>

lemma block_sched:
  assumes s: "sched k L cur rs ts W" and off: "interrupts_get_level k = INTERRUPTS_OFF"
    and nx: "rs \<noteq> [] \<or> idle_thread k \<noteq> NULL" and idle: "cur \<noteq> idle_thread k"
    and w: "w \<in> W" "L w = Some (map elem_of bs)"
    and n_def: "n = (if rs = [] then idle_thread k else hd rs)"
  defines "L' \<equiv> L(w \<mapsto> map elem_of (bs @ [cur]), ready_list k \<mapsto> map elem_of (tl rs))"
  shows "\<exists>k1 k'. on_lists (\<lambda>h. list_push_back h w (elem_of cur)) k = Some k1 \<and> thread_block k1 = Some k' \<and>
     sched k' L' n (tl rs) ts W \<and> unchanged k k' \<and> cpu k' = frame_of k n \<and>
     frame_of k' cur = (cpu k)\<lparr>r15_pc := r14_lr (cpu k)\<rparr> \<and>
     status_of k' cur = Some THREAD_BLOCKED \<and>
     (\<forall>t. t \<noteq> cur \<longrightarrow> t \<noteq> n \<longrightarrow> status_of k' t = status_of k t) \<and> (\<forall>t. t \<noteq> cur \<longrightarrow> frame_of k' t = frame_of k t)"
proof -
  have core: "sched_core k L cur rs ts W" and cur: "cur \<in> set ts" "status_of k cur = Some THREAD_RUNNING"
    "elem_of cur \<notin> ll.owned L"
    using s by (auto simp: sched_def)
  note D = sched_coreD[OF core]
  obtain th where th: "thread_at k cur = Some th" "cur \<noteq> NULL" "valid (lheap k) (elem_of cur)"
    using D(15) by (auto simp: thread_ok_def)
  let ?L = "L(w \<mapsto> map elem_of (bs @ [cur]))"
  from ll.family_push[OF D(1) w(2) th(3) cur(3)] obtain h' where h': "list_push_back (lheap k) w (elem_of cur) = Some h'"
    "ll.family h' ?L" "modifies (lheap k) h' (insert (elem_of cur) (ll.owned L))" by auto
  have own: "ll.owned ?L \<subseteq> insert (elem_of cur) (ll.owned L)" by (rule push_owned[of L w bs cur]) (rule w(2))
  have cur_rs: "cur \<notin> set rs" using D(9)[of cur] cur(2) by auto
  let ?k1 = "k\<lparr>lheap := h'\<rparr>" and ?k2 = "set_thread cur (th\<lparr>status := THREAD_BLOCKED\<rparr>) (k\<lparr>lheap := h'\<rparr>)"
  have core2: "sched_core ?k2 ?L cur rs ts W"
  proof (rule sched_core_update[OF core th(1,2) h'(2)])
    show "valid h' p = valid (lheap k) p" for p by (rule modifies_valid[OF h'(3)])
    show "?L (ready_list k) = Some (map elem_of rs)" "?L (all_list k) = Some (map allelem_of ts)"
      using D(3,4,5,6) w(1) by auto
    show "set rs \<subseteq> set ts" by (rule D(8))
    show "if u = cur then THREAD_BLOCKED = THREAD_READY else status_of k u = Some THREAD_READY"
      if "u \<in> set rs" for u using that D(9) cur_rs by auto
    show "\<exists>bs'. ?L v = Some (map elem_of bs') \<and> set bs' \<subseteq> set ts \<and>
        (\<forall>b \<in> set bs'. if b = cur then THREAD_BLOCKED = THREAD_BLOCKED else status_of k b = Some THREAD_BLOCKED)"
      if v: "v \<in> W" for v
    proof -
      obtain bs' where bs': "L v = Some (map elem_of bs')" "set bs' \<subseteq> set ts" "\<forall>b \<in> set bs'. status_of k b = Some THREAD_BLOCKED"
        using D(12)[OF v] by blast
      show ?thesis
      proof (cases "v = w")
        case True
        have "inj elem_of" by (simp add: inj_def)
        then have "bs' = bs" using bs'(1) w(2) True by (simp add: inj_map_eq_map)
        then show ?thesis using True bs' cur(1) by (intro exI[of _ "bs @ [cur]"]) auto
      next
        case False
        then show ?thesis using bs' by (intro exI[of _ bs']) auto
      qed
    qed
    show "idle_thread k \<in> set ts \<and> (idle_thread k \<noteq> cur \<longrightarrow> elem_of (idle_thread k) \<notin> ll.owned ?L)"
      if "idle_thread k \<noteq> NULL"
      using D(13,14)[OF that] own idle by auto
  qed simp_all
  have st2: "status_of ?k2 u = (if u = cur then Some THREAD_BLOCKED else status_of k u)" for u
    using th by (simp add: status_update)
  have fr2: "frame_of ?k2 u = frame_of k u" for u
    using th by (simp add: frame_update)
  have n2: "n = (if rs = [] then idle_thread ?k2 else hd rs)" using n_def by simp
  have "\<exists>k'. schedule ?k2 = Some k' \<and> sched k' L' n (tl rs) ts W \<and> unchanged ?k2 k' \<and>
     cpu k' = frame_of k' n \<and>
     frame_of k' cur = (cpu k)\<lparr>r15_pc := r14_lr (cpu k)\<rparr> \<and>
     (\<forall>t. t \<noteq> n \<longrightarrow> status_of k' t = status_of ?k2 t) \<and> (\<forall>t. t \<noteq> cur \<longrightarrow> frame_of k' t = frame_of ?k2 t)"
    using schedule_sched[OF core2 cur(1) _ _ _ _ _ _ n2, of THREAD_BLOCKED] st2[of cur] off nx idle
    by (simp add: L'_def)
  then obtain k' where k': "schedule ?k2 = Some k'" "sched k' L' n (tl rs) ts W" "unchanged ?k2 k'"
     "cpu k' = frame_of k' n"
     "frame_of k' cur = (cpu k)\<lparr>r15_pc := r14_lr (cpu k)\<rparr>"
     "\<forall>t. t \<noteq> n \<longrightarrow> status_of k' t = status_of ?k2 t" "\<forall>t. t \<noteq> cur \<longrightarrow> frame_of k' t = frame_of ?k2 t"
    by (elim exE conjE)
  have unch: "unchanged k k'" using k'(3) by (simp add: unchanged_def)
  have ncur: "n \<noteq> cur" using cur_rs idle nx unfolding n_def by (cases rs) auto
  have "thread_block ?k1 = schedule ?k2"
    by (rule thread_block_eq) (use thread_current_sched[OF s] th off D(17) in simp_all)
  moreover have "status_of k' cur = Some THREAD_BLOCKED" using k'(6) ncur st2 by simp
  moreover have "status_of k' t = status_of k t" if "t \<noteq> cur" "t \<noteq> n" for t using k'(6) that st2 by simp
  ultimately show ?thesis
    using k' ncur h'(1) unch by (intro exI[of _ ?k1] exI[of _ k']) (simp add: on_lists_def fr2)
qed

section \<open>Semaphores\<close>

lemma sema_down_positive:
  assumes "s \<noteq> NULL" "\<not> in_external_interrupt k" "words k s = Some v" "v \<noteq> 0"
  shows "sema_down s k = Some (Done 0, k\<lparr>words := (words k)(s \<mapsto> v - 1)\<rparr>)"
  using assms restore_level[of k]
  by (simp add: sema_down_def sema_down_loop_def disable_eq interrupts_context_def word_at_def set_word_def)

lemma sema_down_sleeps:
  assumes s: "sched k L cur rs ts W" and nx: "rs \<noteq> [] \<or> idle_thread k \<noteq> NULL" and idle: "cur \<noteq> idle_thread k"
    and sem: "s \<noteq> NULL" "words k s = Some 0"
    and w: "waiters_of s \<in> W" "L (waiters_of s) = Some (map elem_of bs)"
    and n_def: "n = (if rs = [] then idle_thread k else hd rs)"
  defines "L' \<equiv> L(waiters_of s \<mapsto> map elem_of (bs @ [cur]), ready_list k \<mapsto> map elem_of (tl rs))"
  shows "\<exists>k'. sema_down s k = Some (Switched [Sema_down_loop s (interrupts_get_level k)], k') \<and>
     sched k' L' n (tl rs) ts W \<and> unchanged k k' \<and> cpu k' = frame_of k n \<and>
     frame_of k' cur = (cpu (set_level INTERRUPTS_OFF k))\<lparr>r15_pc := r14_lr (cpu k)\<rparr> \<and>
     status_of k' cur = Some THREAD_BLOCKED \<and>
     (\<forall>t. t \<noteq> cur \<longrightarrow> t \<noteq> n \<longrightarrow> status_of k' t = status_of k t) \<and> (\<forall>t. t \<noteq> cur \<longrightarrow> frame_of k' t = frame_of k t)"
proof -
  let ?k = "set_level INTERRUPTS_OFF k"
  have s': "sched ?k L cur rs ts W" using s by simp
  have n: "n = (if rs = [] then idle_thread ?k else hd rs)" using n_def by simp
  have r14: "r14_lr (cpu ?k) = r14_lr (cpu k)"
    using set_level_eq[of INTERRUPTS_OFF k] by auto
  obtain k1 k' where k': "on_lists (\<lambda>h. list_push_back h (waiters_of s) (elem_of cur)) ?k = Some k1"
    "thread_block k1 = Some k'" "sched k' L' n (tl rs) ts W" "unchanged ?k k'" "cpu k' = frame_of ?k n"
     "frame_of k' cur = (cpu ?k)\<lparr>r15_pc := r14_lr (cpu ?k)\<rparr>"
     "status_of k' cur = Some THREAD_BLOCKED"
     "\<forall>t. t \<noteq> cur \<longrightarrow> t \<noteq> n \<longrightarrow> status_of k' t = status_of ?k t" "\<forall>t. t \<noteq> cur \<longrightarrow> frame_of k' t = frame_of ?k t"
    using block_sched[OF s' _ _ _ w n] nx idle unfolding L'_def by auto
  have "sema_down s k = Some (Switched [Sema_down_loop s (interrupts_get_level k)], k')"
    using sem k'(1,2) thread_current_sched[OF s] s
    by (simp add: sema_down_def sema_down_loop_def disable_eq interrupts_context_def word_at_def
        sched_def sched_core_def)
  moreover have "unchanged k k'" using k'(4) by (simp add: unchanged_def)
  ultimately show ?thesis using k' r14 by simp
qed

lemma sema_up_no_waiter:
  assumes s: "sched_core k L cur rs ts W" and sem: "s \<noteq> NULL" "words k s = Some v"
    and w: "L (waiters_of s) = Some []"
  shows "sema_up s k = Some (k\<lparr>words := (words k)(s \<mapsto> v + 1)\<rparr>)"
  using ll.family_empty[OF sched_coreD(1)[OF s] w] sem restore_level[of k]
  by (simp add: sema_up_def disable_eq word_at_def set_word_def)

text \<open>Taking the first thread off a waiters list.\<close>

lemma pop_waiter:
  assumes core: "sched_core k L cur rs ts W" and run: "status_of k cur = Some THREAD_RUNNING"
    and w: "w \<in> W" "L w = Some (map elem_of (b # bs))"
  defines "L1 \<equiv> L(w \<mapsto> map elem_of bs)"
  shows "\<exists>h'. pop_list w k = Some (elem_of b, k\<lparr>lheap := h'\<rparr>) \<and> sched_core (k\<lparr>lheap := h'\<rparr>) L1 cur rs ts W \<and>
     b \<in> set ts \<and> status_of k b = Some THREAD_BLOCKED \<and> elem_of b \<notin> ll.owned L1 \<and>
     ll.owned L1 \<subseteq> ll.owned L \<and> elem_of b \<in> ll.owned L \<and> b \<noteq> idle_thread k"
proof -
  note D = sched_coreD[OF core]
  have inj: "inj elem_of" by (simp add: inj_def)
  have "L w = Some (elem_of b # map elem_of bs)" using w(2) by simp
  from ll.family_pop[OF D(1) this] obtain h' where h': "list_pop_front (lheap k) w = Some (elem_of b, h')"
    "ll.family h' L1" "elem_of b \<notin> ll.owned L1" "modifies (lheap k) h' (ll.owned L)"
    by (auto simp: L1_def)
  obtain bs' where "L w = Some (map elem_of bs')" "set bs' \<subseteq> set ts" "\<forall>b \<in> set bs'. status_of k b = Some THREAD_BLOCKED"
    using D(12)[OF w(1)] by blast
  moreover from this have "bs' = b # bs" using w(2) inj by (metis inj_map_eq_map option.inject)
  ultimately have b: "b \<in> set ts" "status_of k b = Some THREAD_BLOCKED" "set bs \<subseteq> set ts"
    "\<forall>b \<in> set bs. status_of k b = Some THREAD_BLOCKED" by auto
  have own: "elem_of b \<in> ll.owned L" by (rule ready_owned[of L w "b # bs"]) (use w in auto)
  have "set (nodes w (map elem_of bs)) \<subseteq> ll.owned L"
    using ll.ownedI[of L w "map elem_of (b # bs)"] w(2) by (auto simp: set_nodes)
  then have sub: "ll.owned L1 \<subseteq> ll.owned L"
    using ll.owned_update[of L w "map elem_of (b # bs)" "map elem_of bs"] w(2) by (auto simp: L1_def)
  have bi: "b \<noteq> idle_thread k"
  proof
    assume i: "b = idle_thread k"
    then have "idle_thread k \<noteq> NULL" using D(7)[OF b(1)] by (simp add: thread_ok_def)
    then have "idle_thread k = cur" using D(14) own i by auto
    then show False using b(2) run i by simp
  qed
  have "sched_core (k\<lparr>lheap := h'\<rparr>) L1 cur rs ts W"
    unfolding sched_core_def
  proof (intro conjI ballI impI)
    let ?k = "k\<lparr>lheap := h'\<rparr>"
    show "ll.family (lheap ?k) L1" using h'(2) by simp
    show "ready_list ?k \<noteq> all_list ?k" "ready_list ?k \<notin> W" "all_list ?k \<notin> W"
      "L1 (ready_list ?k) = Some (map elem_of rs)" "L1 (all_list ?k) = Some (map allelem_of ts)"
      using D(2,3,4,5,6) w(1) by (auto simp: L1_def)
    show "thread_ok ?k t" if "t \<in> set ts" for t
      using D(7)[OF that] modifies_valid[OF h'(4)] by (simp add: thread_ok_def)
    show "thread_ok ?k cur" using D(15) modifies_valid[OF h'(4)] by (simp add: thread_ok_def)
    show "\<exists>cs. L1 v = Some (map elem_of cs) \<and> set cs \<subseteq> set ts \<and> (\<forall>c \<in> set cs. status_of ?k c = Some THREAD_BLOCKED)"
      if v: "v \<in> W" for v
      using D(12)[OF v] b(3,4) by (cases "v = w") (auto simp: L1_def)
    show "elem_of (idle_thread ?k) \<notin> ll.owned L1" if "idle_thread ?k \<noteq> NULL" "idle_thread ?k \<noteq> cur"
      using D(14) that sub by auto
  qed (use D in \<open>simp_all add: subset_iff\<close>)
  then show ?thesis using h' b own sub bi by (intro exI[of _ h']) (simp add: pop_list_def)
qed

lemma sema_up_wakes:
  assumes s: "sched k L cur rs ts W" and sem: "s \<noteq> NULL" "words k s = Some v"
    and w: "waiters_of s \<in> W" "L (waiters_of s) = Some (map elem_of (b # bs))"
  defines "L' \<equiv> L(waiters_of s \<mapsto> map elem_of bs, ready_list k \<mapsto> map elem_of (rs @ [b]))"
  shows "\<exists>k'. sema_up s k = Some (k'\<lparr>words := (words k)(s \<mapsto> v + 1)\<rparr>) \<and>
     sched k' L' cur (rs @ [b]) ts W \<and> unchanged k k' \<and> cpu k' = cpu k \<and>
     (\<forall>u. status_of k' u = (if u = b then Some THREAD_READY else status_of k u)) \<and>
     (\<forall>u. frame_of k' u = frame_of k u)"
proof -
  have core: "sched_core k L cur rs ts W" and run: "status_of k cur = Some THREAD_RUNNING"
    and cur: "cur \<in> set ts" "elem_of cur \<notin> ll.owned L" using s by (auto simp: sched_def)
  let ?k = "set_level INTERRUPTS_OFF k"
  let ?L = "L(waiters_of s \<mapsto> map elem_of bs)"
  have core': "sched_core ?k L cur rs ts W" and run': "status_of ?k cur = Some THREAD_RUNNING"
    using core run by simp_all
  from pop_waiter[OF core' run' w] obtain h' where h': "pop_list (waiters_of s) ?k = Some (elem_of b, ?k\<lparr>lheap := h'\<rparr>)"
    "sched_core (?k\<lparr>lheap := h'\<rparr>) ?L cur rs ts W" "b \<in> set ts" "status_of k b = Some THREAD_BLOCKED"
    "elem_of b \<notin> ll.owned ?L" "ll.owned ?L \<subseteq> ll.owned L" "elem_of b \<in> ll.owned L" "b \<noteq> idle_thread k"
    by auto
  let ?k1 = "?k\<lparr>lheap := h'\<rparr>"
  have "\<exists>k'. thread_unblock b ?k1 = Some k' \<and> sched_core k' (?L(ready_list ?k1 \<mapsto> map elem_of (rs @ [b]))) cur (rs @ [b]) ts W \<and>
     unchanged ?k1 k' \<and> cpu k' = cpu ?k1 \<and>
     ll.owned (?L(ready_list ?k1 \<mapsto> map elem_of (rs @ [b]))) \<subseteq> insert (elem_of b) (ll.owned ?L) \<and>
     (\<forall>u. status_of k' u = (if u = b then Some THREAD_READY else status_of ?k1 u)) \<and>
     (\<forall>u. frame_of k' u = frame_of ?k1 u)"
    by (rule thread_unblock_sched[OF h'(2,3)]) (use h' in simp_all)
  then obtain k2 where k2: "thread_unblock b ?k1 = Some k2"
    "sched_core k2 (?L(ready_list ?k1 \<mapsto> map elem_of (rs @ [b]))) cur (rs @ [b]) ts W"
     "unchanged ?k1 k2" "cpu k2 = cpu ?k1"
     "ll.owned (?L(ready_list ?k1 \<mapsto> map elem_of (rs @ [b]))) \<subseteq> insert (elem_of b) (ll.owned ?L)"
     "\<forall>u. status_of k2 u = (if u = b then Some THREAD_READY else status_of ?k1 u)"
     "\<forall>u. frame_of k2 u = frame_of ?k1 u"
    by (elim exE conjE)
  have words: "words k2 = words k" using k2(3) by (simp add: unchanged_def)
  let ?k' = "set_level (interrupts_get_level k) k2"
  have em: "list_empty (lheap ?k) (waiters_of s) = Some False"
    using ll.family_empty[OF sched_coreD(1)[OF core] w(2)] by simp
  have up: "sema_up s k = Some (?k'\<lparr>words := (words k)(s \<mapsto> v + 1)\<rparr>)"
    using sem em h'(1) k2(1) words
    by (simp add: sema_up_def disable_eq word_at_def set_word_def)
  have "cpu ?k' = cpu k"
  proof -
    have "cpu (set_level l k2) = cpu (set_level l ?k)" for l
      using k2(4) by (cases l) (simp_all add: interrupts_set_level_def interrupts_enable_def interrupts_disable_def
        enable_irq_interruptions_def disable_irq_interruptions_def Let_def)
    then show ?thesis using restore_level[of k] by simp
  qed
  moreover have "cur \<noteq> b" using cur(2) h'(7) by auto
  then have "sched ?k' L' cur (rs @ [b]) ts W"
    using k2(2,5,6) run cur h'(6) by (auto simp: sched_def L'_def)
  moreover have "unchanged k ?k'" using k2(3) by (simp add: unchanged_def)
  ultimately show ?thesis using up k2(6,7) by (intro exI[of _ ?k']) simp
qed

section \<open>Yielding\<close>

text \<open>The running thread joins the end of the ready list.\<close>

lemma queue_current:
  assumes s: "sched k L cur rs ts W" and idle: "cur \<noteq> idle_thread k"
  shows "\<exists>th h'. thread_at k cur = Some th \<and> cur \<noteq> NULL \<and> status th = THREAD_RUNNING \<and>
     list_push_back (lheap k) (ready_list k) (elem_of cur) = Some h' \<and>
     sched_core (set_thread cur (th\<lparr>status := THREAD_READY\<rparr>) (k\<lparr>lheap := h'\<rparr>))
       (L(ready_list k \<mapsto> map elem_of (rs @ [cur]))) cur (rs @ [cur]) ts W"
proof -
  have core: "sched_core k L cur rs ts W" and cur: "cur \<in> set ts" "status_of k cur = Some THREAD_RUNNING"
    "elem_of cur \<notin> ll.owned L"
    using s by (auto simp: sched_def)
  note D = sched_coreD[OF core]
  obtain th where th: "thread_at k cur = Some th" "cur \<noteq> NULL" "valid (lheap k) (elem_of cur)"
    using D(15) by (auto simp: thread_ok_def)
  have run: "status th = THREAD_RUNNING" using cur(2) th(1) by (simp add: status_of_def)
  let ?L = "L(ready_list k \<mapsto> map elem_of (rs @ [cur]))"
  from ll.family_push[OF D(1,5) th(3) cur(3)] obtain h' where
    h': "list_push_back (lheap k) (ready_list k) (elem_of cur) = Some h'"
    "ll.family h' ?L" "modifies (lheap k) h' (insert (elem_of cur) (ll.owned L))" by auto
  have own: "ll.owned ?L \<subseteq> insert (elem_of cur) (ll.owned L)" by (rule push_owned) (rule D(5))
  have "sched_core (set_thread cur (th\<lparr>status := THREAD_READY\<rparr>) (k\<lparr>lheap := h'\<rparr>)) ?L cur (rs @ [cur]) ts W"
  proof (rule sched_core_update[OF core th(1,2) h'(2)])
    show "valid h' p = valid (lheap k) p" for p by (rule modifies_valid[OF h'(3)])
    show "?L (ready_list k) = Some (map elem_of (rs @ [cur]))" "?L (all_list k) = Some (map allelem_of ts)"
      using D(2,6) by auto
    show "set (rs @ [cur]) \<subseteq> set ts" using D(8) cur(1) by simp
    show "if u = cur then THREAD_READY = THREAD_READY else status_of k u = Some THREAD_READY"
      if "u \<in> set (rs @ [cur])" for u using that D(9) by auto
    show "\<exists>bs. ?L w = Some (map elem_of bs) \<and> set bs \<subseteq> set ts \<and>
        (\<forall>b \<in> set bs. if b = cur then THREAD_READY = THREAD_BLOCKED else status_of k b = Some THREAD_BLOCKED)"
      if w: "w \<in> W" for w
    proof -
      obtain bs where bs: "L w = Some (map elem_of bs)" "set bs \<subseteq> set ts" "\<forall>b \<in> set bs. status_of k b = Some THREAD_BLOCKED"
        using D(12)[OF w] by blast
      have "cur \<notin> set bs" using ready_owned[of L w bs cur] bs(1) cur(3) by blast
      moreover have "?L w = Some (map elem_of bs)" using bs(1) w D(3) by auto
      ultimately show ?thesis using bs by (intro exI[of _ bs]) auto
    qed
    show "idle_thread k \<in> set ts \<and> (idle_thread k \<noteq> cur \<longrightarrow> elem_of (idle_thread k) \<notin> ll.owned ?L)"
      if "idle_thread k \<noteq> NULL"
      using D(13,14)[OF that] own idle by auto
  qed simp_all
  then show ?thesis using th run h'(1) by blast
qed

lemma thread_yield_sched:
  assumes s: "sched k L cur rs ts W" and idle: "cur \<noteq> idle_thread k"
    and q: "rs @ [cur] = n # rs'"
  defines "L' \<equiv> L(ready_list k \<mapsto> map elem_of rs')"
  shows "\<exists>k'. thread_yield k = Some (Switched [Yield_tail (interrupts_get_level k)], k') \<and>
     sched k' L' n rs' ts W \<and> unchanged k k' \<and> cpu k' = frame_of k' n \<and>
     frame_of k' cur = (cpu (set_level INTERRUPTS_OFF k))\<lparr>r15_pc := r14_lr (cpu k)\<rparr> \<and>
     (\<forall>t. t \<noteq> cur \<longrightarrow> frame_of k' t = frame_of k t)"
proof -
  let ?k = "set_level INTERRUPTS_OFF k"
  let ?L = "L(ready_list k \<mapsto> map elem_of (rs @ [cur]))"
  have s': "sched ?k L cur rs ts W" "cur \<noteq> idle_thread ?k" using s idle by simp_all
  obtain th h' where th: "thread_at ?k cur = Some th" "cur \<noteq> NULL" and run: "status th = THREAD_RUNNING"
    and h': "list_push_back (lheap ?k) (ready_list k) (elem_of cur) = Some h'"
    and core2: "sched_core (set_thread cur (th\<lparr>status := THREAD_READY\<rparr>) (?k\<lparr>lheap := h'\<rparr>)) ?L cur (rs @ [cur]) ts W"
    using queue_current[OF s'] by auto
  have cur: "cur \<in> set ts" using s by (simp add: sched_def)
  let ?k2 = "set_thread cur (th\<lparr>status := THREAD_READY\<rparr>) (?k\<lparr>lheap := h'\<rparr>)"
  have st2: "status_of ?k2 cur = Some THREAD_READY" using th by (simp add: status_update)
  have fr2: "frame_of ?k2 u = frame_of k u" for u using th by (simp add: frame_update)
  have n2: "n = (if rs @ [cur] = [] then idle_thread ?k2 else hd (rs @ [cur]))" using q by simp
  have tl: "tl (rs @ [cur]) = rs'" using q by (simp add: tl_append2 del: tl_append)
  have "\<exists>k'. schedule ?k2 = Some k' \<and> sched k' L' n rs' ts W \<and> unchanged ?k2 k' \<and>
     cpu k' = frame_of k' n \<and> frame_of k' cur = (cpu ?k)\<lparr>r15_pc := r14_lr (cpu ?k)\<rparr> \<and>
     (\<forall>t. t \<noteq> n \<longrightarrow> status_of k' t = status_of ?k2 t) \<and> (\<forall>t. t \<noteq> cur \<longrightarrow> frame_of k' t = frame_of ?k2 t)"
    using schedule_sched[OF core2 cur st2 _ _ _ _ _ n2] idle tl by (simp add: L'_def)
  then obtain k' where k': "schedule ?k2 = Some k'" "sched k' L' n rs' ts W" "unchanged ?k2 k'"
     "cpu k' = frame_of k' n" "frame_of k' cur = (cpu ?k)\<lparr>r15_pc := r14_lr (cpu ?k)\<rparr>"
     "\<forall>t. t \<noteq> cur \<longrightarrow> frame_of k' t = frame_of ?k2 t"
    by (elim exE conjE)
  have irq: "\<not> in_external_interrupt k" "\<not> was_irq_generated k"
    using s by (simp_all add: sched_def sched_core_def)
  have irq': "\<not> was_irq_generated k'" using k'(2) by (simp add: sched_def sched_core_def)
  have "thread_yield k = Some (Switched [Yield_tail (interrupts_get_level k)], k')"
    using thread_current_sched[OF s] th run h' k'(1) irq irq' idle
    by (simp add: thread_yield_def interrupts_context_def interrupts_was_irq_generated_def disable_eq
        on_lists_def set_status_def)
  moreover have "unchanged k k'" using k'(3) by (simp add: unchanged_def)
  moreover have "r14_lr (cpu ?k) = r14_lr (cpu k)" using set_level_eq[of INTERRUPTS_OFF k] by auto
  ultimately show ?thesis using k' fr2 by auto
qed

end
