(* ===== verification/Kernel_Interrupt.thy ===== *)
theory Kernel_Interrupt
  imports Kernel_Thread
begin

text \<open>
  The interrupt system of threads/interrupt.c: the table of handlers, registration, and the
  dispatch of interrupt requests from the entry in arm_asm/interruptsHandlers.s to the return
  to the interrupted or to another thread.  A handler is a function pointer in the source and
  a function here; it gets the pointer to the interrupt's stack frame.  The interrupt
  controller's pending registers are read again in every round of the loops: \<open>pend i\<close> is the
  value the hardware gives in round \<open>i\<close>.
\<close>

type_synonym handler_function = "frame_ptr \<Rightarrow> kernel \<Rightarrow> kernel option"

record irq_system =
  irq_handlers :: "handler_function list"
  irq_names :: "string list"
  swi_handler :: "handler_function option"
  swi_name :: string
  enable_irq_0_31 :: u32
  enable_irq_32_63 :: u32

definition IRQ_COUNT :: nat where
  "IRQ_COUNT = 64"

definition dummy_handler :: handler_function where
  "dummy_handler p k = Some k"

text \<open>The timer's handler; its register writes and delay are outside the kernel state.\<close>

definition timer_irq_handler :: handler_function where
  "timer_irq_handler p k = thread_tick p k"

section \<open>Set-up and registration\<close>

definition interrupts_init :: "irq_system \<Rightarrow> kernel \<Rightarrow> irq_system \<times> kernel" where
  "interrupts_init s k =
     (s\<lparr>irq_handlers := replicate IRQ_COUNT dummy_handler, irq_names := replicate IRQ_COUNT ''Unknown''\<rparr>,
      k\<lparr>was_irq_generated := False, in_external_interrupt := False, yield_on_return := False,
        cpu := (cpu k)\<lparr>cpsr := cpsr (cpu k) OR 0x40\<rparr>\<rparr>)"

definition interrupts_is_valid_irq_number :: "u8 \<Rightarrow> bool" where
  "interrupts_is_valid_irq_number irq_number = (\<not> unat irq_number \<ge> IRQ_COUNT)"

definition interrupts_enable_irq :: "u8 \<Rightarrow> irq_system \<Rightarrow> irq_system" where
  "interrupts_enable_irq irq_number s =
     (if \<not> interrupts_is_valid_irq_number irq_number then s
      else let half_interrupts = IRQ_COUNT div 2 in
        if unat irq_number < half_interrupts then
          s\<lparr>enable_irq_0_31 := enable_irq_0_31 s OR push_bit (unat irq_number) 1\<rparr>
        else let irq_number = irq_number - of_nat half_interrupts in
          s\<lparr>enable_irq_32_63 := enable_irq_32_63 s OR push_bit (unat irq_number) 1\<rparr>)"

definition interrupts_register_irq :: "u8 \<Rightarrow> handler_function \<Rightarrow> string \<Rightarrow> irq_system \<Rightarrow> irq_system" where
  "interrupts_register_irq irq_number handler nm s =
     (if \<not> interrupts_is_valid_irq_number irq_number then s
      else interrupts_enable_irq irq_number
        (s\<lparr>irq_handlers := (irq_handlers s)[unat irq_number := handler],
           irq_names := (irq_names s)[unat irq_number := nm]\<rparr>))"

text \<open>\<open>interrupts_get_irq_name\<close> returns a null pointer for a number out of range.\<close>

definition interrupts_get_irq_name :: "u8 \<Rightarrow> irq_system \<Rightarrow> string option" where
  "interrupts_get_irq_name irq_number s =
     (if \<not> interrupts_is_valid_irq_number irq_number then None else Some (irq_names s ! unat irq_number))"

definition interrupts_register_swi :: "handler_function \<Rightarrow> string \<Rightarrow> irq_system \<Rightarrow> irq_system" where
  "interrupts_register_swi handler nm s = s\<lparr>swi_handler := Some handler, swi_name := nm\<rparr>"

definition interrupts_get_swi_name :: "irq_system \<Rightarrow> string" where
  "interrupts_get_swi_name s = swi_name s"

text \<open>\<open>timer_init\<close>: \<open>IRQ_1\<close> is the line of the system timer's first comparator.\<close>

definition IRQ_1 :: u8 where
  "IRQ_1 = 1"

definition timer_init :: "irq_system \<Rightarrow> irq_system" where
  "timer_init s = interrupts_register_irq IRQ_1 timer_irq_handler ''Timer Interrupt'' s"

section \<open>Dispatch\<close>

definition interrupts_dispatch_pending_irq :: "irq_system \<Rightarrow> frame_ptr \<Rightarrow> nat \<Rightarrow> kernel \<Rightarrow> kernel option" where
  "interrupts_dispatch_pending_irq s p irq_number k =
     (if irq_number < length (irq_handlers s) then (irq_handlers s ! irq_number) p k else None)"

text \<open>One of the two loops of \<open>interrupts_dispatch_irq\<close>; both run \<open>i\<close> from 0 to 31.\<close>

function dispatch_loop :: "irq_system \<Rightarrow> (nat \<Rightarrow> u32) \<Rightarrow> frame_ptr \<Rightarrow> nat \<Rightarrow> kernel \<Rightarrow> kernel option" where
  "dispatch_loop s pend p i k =
     (if i < IRQ_COUNT div 2 then
        (case (if pend i AND push_bit i 1 \<noteq> 0 then interrupts_dispatch_pending_irq s p i k else Some k) of
           None \<Rightarrow> None
         | Some k \<Rightarrow> dispatch_loop s pend p (i + 1) k)
      else Some k)"
  by pat_completeness auto
termination by (relation "measure (\<lambda>(s, pend, p, i, k). IRQ_COUNT div 2 - i)") auto

declare dispatch_loop.simps [simp del]

definition interrupts_dispatch_irq ::
  "irq_system \<Rightarrow> (nat \<Rightarrow> u32) \<Rightarrow> (nat \<Rightarrow> u32) \<Rightarrow> frame_ptr \<Rightarrow> kernel \<Rightarrow> kernel option" where
  "interrupts_dispatch_irq s pend_0_31 pend_32_63 p k = do {
     ASSERT (interrupts_get_level k = INTERRUPTS_OFF);
     ASSERT (\<not> interrupts_context k);
     ASSERT (\<not> interrupts_was_irq_generated k);
     let k = k\<lparr>was_irq_generated := True, in_external_interrupt := True, yield_on_return := False\<rparr>;
     k \<leftarrow> dispatch_loop s pend_0_31 p 0 k;
     k \<leftarrow> dispatch_loop s pend_32_63 p 0 k;
     ASSERT (interrupts_get_level k = INTERRUPTS_OFF);
     ASSERT (interrupts_context k);
     let k = k\<lparr>in_external_interrupt := False\<rparr>;
     k \<leftarrow> (if yield_on_return k then
             (case thread_yield k of Some (Done v, k) \<Rightarrow> Some k | _ \<Rightarrow> None)
           else Some k);
     Some (k\<lparr>was_irq_generated := False\<rparr>) }"

text \<open>
  \<open>irq_handler_int\<close>: the hardware enters IRQ mode with interrupts off; the registers of the
  interrupted thread are saved on the stack of that mode, the dispatcher runs, and the
  registers are loaded from the saved frame, which the dispatcher may have replaced.
\<close>

definition irq_handler_int :: "irq_system \<Rightarrow> (nat \<Rightarrow> u32) \<Rightarrow> (nat \<Rightarrow> u32) \<Rightarrow> kernel \<Rightarrow> kernel option" where
  "irq_handler_int s pend_0_31 pend_32_63 k = do {
     let k = k\<lparr>irq_frame := cpu k, cpu := (cpu k)\<lparr>cpsr := 0xd2\<rparr>\<rparr>;
     k \<leftarrow> interrupts_dispatch_irq s pend_0_31 pend_32_63 Irq_stack k;
     Some (k\<lparr>cpu := irq_frame k\<rparr>) }"

end
