(* ===== verification/Kernel_Interrupt_Rep.thy ===== *)
theory Kernel_Interrupt_Rep
  imports Kernel_Sched_Rep Kernel_Interrupt
begin

text \<open>
  The path of an interrupt request: which handlers the dispatcher runs, what the timer tick
  does to the state, and the switch at the end of the request, which works on the registers
  saved on the stack of the IRQ mode.
\<close>

section \<open>The dispatcher\<close>

lemma dispatch_loop_none:
  assumes "\<And>j. i \<le> j \<Longrightarrow> j < 32 \<Longrightarrow> pend j AND push_bit j 1 = 0"
  shows "dispatch_loop s pend p i k = Some k"
  using assms
proof (induction "32 - i" arbitrary: i)
  case 0
  then show ?case by (simp add: dispatch_loop.simps IRQ_COUNT_def)
next
  case (Suc d)
  then have "dispatch_loop s pend p (i + 1) k = Some k" by simp
  then show ?case using Suc.prems[of i] Suc.hyps(2) by (subst dispatch_loop.simps) simp
qed

lemma dispatch_loop_single:
  assumes "i \<le> j" "j < 32" "pend j AND push_bit j 1 \<noteq> 0"
    "\<And>m. m < 32 \<Longrightarrow> m \<noteq> j \<Longrightarrow> pend m AND push_bit m 1 = 0"
  shows "dispatch_loop s pend p i k = interrupts_dispatch_pending_irq s p j k"
  using assms(1)
proof (induction "j - i" arbitrary: i)
  case 0
  then have "i = j" by simp
  then show ?case using assms dispatch_loop_none[of "j + 1" pend s p]
    by (subst dispatch_loop.simps) (auto simp: IRQ_COUNT_def split: option.splits)
next
  case (Suc d)
  then have "dispatch_loop s pend p (i + 1) k = interrupts_dispatch_pending_irq s p j k" by simp
  then show ?case using assms(4)[of i] Suc.hyps(2) Suc.prems assms(2)
    by (subst dispatch_loop.simps) (simp add: IRQ_COUNT_def)
qed

text \<open>A loop sees the table of handlers only below the middle.\<close>

lemma dispatch_loop_cong:
  assumes "take 32 (irq_handlers s) = take 32 (irq_handlers s')" "32 \<le> length (irq_handlers s)"
    "32 \<le> length (irq_handlers s')"
  shows "dispatch_loop s pend p i k = dispatch_loop s' pend p i k"
proof (induction "32 - i" arbitrary: i k)
  case 0
  then show ?case by (simp add: dispatch_loop.simps IRQ_COUNT_def)
next
  case (Suc d)
  then have IH: "dispatch_loop s pend p (i + 1) k' = dispatch_loop s' pend p (i + 1) k'" for k' by simp
  have "irq_handlers s ! i = irq_handlers s' ! i"
    using Suc.hyps(2) assms nth_take[of i 32 "irq_handlers s"] nth_take[of i 32 "irq_handlers s'"] by simp
  then have "interrupts_dispatch_pending_irq s p i k = interrupts_dispatch_pending_irq s' p i k"
    using Suc.hyps(2) assms(2,3) by (auto simp: interrupts_dispatch_pending_irq_def)
  then show ?case
    unfolding dispatch_loop.simps[of s pend p i k] dispatch_loop.simps[of s' pend p i k]
    using IH by (auto split: option.splits)
qed

section \<open>The tick\<close>

text \<open>The state in which the dispatcher runs its handlers, and the state after a tick.\<close>

definition irq_entry :: "kernel \<Rightarrow> kernel" where
  "irq_entry k = k\<lparr>irq_frame := cpu k, cpu := (cpu k)\<lparr>cpsr := 0xd2\<rparr>, was_irq_generated := True,
     in_external_interrupt := True, yield_on_return := False\<rparr>"

definition ticked :: "addr \<Rightarrow> kernel \<Rightarrow> kernel" where
  "ticked cur k = (irq_entry k)\<lparr>current_stack_frame := Irq_stack,
     idle_ticks := (if cur = idle_thread k then idle_ticks k + 1 else idle_ticks k),
     kernel_ticks := (if cur = idle_thread k then kernel_ticks k else kernel_ticks k + 1),
     thread_ticks := thread_ticks k + 1, yield_on_return := thread_ticks k + 1 \<ge> TIME_SLICE\<rparr>"

lemma thread_at_irq [simp]:
  "thread_at (k\<lparr>irq_frame := f\<rparr>) t = thread_at k t" "thread_at (k\<lparr>was_irq_generated := b\<rparr>) t = thread_at k t"
  "thread_at (irq_entry k) t = thread_at k t" "thread_at (ticked cur k) t = thread_at k t"
  by (simp_all add: thread_at_def irq_entry_def ticked_def)

lemma level_irq [simp]: "interrupts_get_level (k\<lparr>irq_frame := f\<rparr>) = interrupts_get_level k"
  by (simp add: interrupts_get_level_def get_cpsr_value_def)

lemma thread_tick_sched:
  assumes s: "sched k L cur rs ts W"
  shows "thread_tick Irq_stack (irq_entry k) = Some (ticked cur k)"
proof -
  have core: "sched_core k L cur rs ts W" and run: "status_of k cur = Some THREAD_RUNNING"
    using s by (auto simp: sched_def)
  obtain th where th: "thread_at k cur = Some th" "magic th = THREAD_MAGIC" "cur \<noteq> NULL" "status th = THREAD_RUNNING"
    using sched_coreD(15)[OF core] run by (auto simp: thread_ok_def status_of_def)
  have sp: "pg_round_down (r13_sp (cpu k)) = cur" by (rule sched_coreD(16)[OF core])
  have "thread_current ((irq_entry k)\<lparr>current_stack_frame := Irq_stack\<rparr>) = Some cur"
    using th sp
    by (simp add: thread_current_def thread_get_running_thread_def interrupts_was_irq_generated_def irq_entry_def
        get_current_interrupts_stack_frame_def is_thread_def thread_at_def)
  then show ?thesis
    by (simp add: thread_tick_def set_current_interrupts_stack_frame_def ticked_def irq_entry_def
        interrupts_yield_on_return_def Let_def)
qed

section \<open>The switch at the end of the request\<close>

lemma next_thread_cong:
  assumes "thread_get_next_thread_to_run k = Some (n, k\<lparr>lheap := h\<rparr>)"
    "lheap k' = lheap k" "ready_list k' = ready_list k" "idle_thread k' = idle_thread k"
  shows "thread_get_next_thread_to_run k' = Some (n, k'\<lparr>lheap := h\<rparr>)"
proof -
  have inj: "h1 = h2" if "k\<lparr>lheap := h1\<rparr> = k\<lparr>lheap := h2\<rparr>" for h1 h2
    using arg_cong[OF that, of lheap] by simp
  have same: "k'\<lparr>lheap := h\<rparr> = k'" if "k = k\<lparr>lheap := h\<rparr>"
    using assms(2) arg_cong[OF that, of lheap] by simp
  show ?thesis
  proof (cases "list_empty (lheap k) (ready_list k) = Some True")
    case True
    then have "n = idle_thread k" "k = k\<lparr>lheap := h\<rparr>"
      using assms(1) by (simp_all add: thread_get_next_thread_to_run_def)
    then show ?thesis using True assms(2-4) same by (simp add: thread_get_next_thread_to_run_def)
  next
    case False
    then obtain e where e: "list_empty (lheap k) (ready_list k) = Some False" "n = thread_of_elem e"
      "list_pop_front (lheap k) (ready_list k) = Some (e, h)"
      using assms(1) inj
      by (cases "list_empty (lheap k) (ready_list k)"; cases "list_pop_front (lheap k) (ready_list k)")
        (auto simp: thread_get_next_thread_to_run_def pop_list_def)
    then show ?thesis using assms(2-4) by (simp add: thread_get_next_thread_to_run_def pop_list_def)
  qed
qed

text \<open>
  \<open>in_irq k ki\<close>: the threads and lists of \<open>ki\<close> are those of \<open>k\<close>, and the registers of \<open>k\<close> are
  saved on the stack of the IRQ mode.
\<close>

definition in_irq :: "kernel \<Rightarrow> kernel \<Rightarrow> bool" where
  "in_irq k ki \<longleftrightarrow> lheap ki = lheap k \<and> threads ki = threads k \<and> unchanged k ki \<and> irq_frame ki = cpu k \<and>
     current_stack_frame ki = Irq_stack \<and> was_irq_generated ki \<and> \<not> in_external_interrupt ki \<and>
     interrupts_get_level ki = INTERRUPTS_OFF"

lemma set_thread_ticks [simp]:
  "kernel_ticks (set_thread t th k) = kernel_ticks k" "idle_ticks (set_thread t th k) = idle_ticks k"
  by (simp_all add: set_thread_def)

lemma set_level_ticks [simp]:
  "kernel_ticks (set_level l k) = kernel_ticks k" "idle_ticks (set_level l k) = idle_ticks k"
  "thread_ticks (set_level l k) = thread_ticks k"
  using set_level_eq[of l k] by auto

lemma schedule_irq:
  assumes core: "sched_core k L cur rs ts W" and cur: "cur \<in> set ts" and irq: "in_irq k ki"
    and st: "status_of k cur = Some s" "s \<noteq> THREAD_RUNNING" "s \<noteq> THREAD_DYING"
    and nx: "rs \<noteq> [] \<or> idle_thread k \<noteq> NULL"
    and idle: "idle_thread k = cur \<longrightarrow> elem_of cur \<notin> ll.owned L"
    and n_def: "n = (if rs = [] then idle_thread k else hd rs)"
  shows "\<exists>k'. schedule ki = Some k' \<and> was_irq_generated k' \<and> \<not> in_external_interrupt k' \<and> unchanged k k' \<and>
     kernel_ticks k' = kernel_ticks ki \<and> idle_ticks k' = idle_ticks ki \<and> thread_ticks k' = 0 \<and>
     irq_frame k' = (if n = cur then cpu k else frame_of k n) \<and> cpu k' = cpu ki \<and>
     (let kf = k'\<lparr>was_irq_generated := False, cpu := irq_frame k'\<rparr> in
        sched kf (L(ready_list k \<mapsto> map elem_of (tl rs))) n (tl rs) ts W \<and>
        (\<forall>t. t \<noteq> n \<longrightarrow> status_of kf t = status_of k t) \<and>
        (\<forall>t. t \<noteq> cur \<longrightarrow> t \<noteq> n \<longrightarrow> frame_of kf t = frame_of k t) \<and> frame_of kf cur = cpu k)"
proof -
  let ?L = "L(ready_list k \<mapsto> map elem_of (tl rs))"
  note D = sched_coreD[OF core]
  obtain h' where h': "thread_get_next_thread_to_run k = Some (n, k\<lparr>lheap := h'\<rparr>)"
    "ll.family h' ?L" "\<And>p. valid h' p = valid (lheap k) p" "ll.owned ?L \<subseteq> ll.owned L"
    "rs \<noteq> [] \<Longrightarrow> elem_of (hd rs) \<notin> ll.owned ?L"
    using next_thread[OF core] unfolding n_def by blast
  have n_ts: "n \<in> set ts" using nx D(8,13) unfolding n_def by (cases rs) auto
  obtain nt where nt: "thread_at k n = Some nt" "magic nt = THREAD_MAGIC" "n \<noteq> NULL"
    using D(7)[OF n_ts] by (auto simp: thread_ok_def)
  obtain cth where cth: "thread_at k cur = Some cth" "magic cth = THREAD_MAGIC" "cur \<noteq> NULL"
    using D(15) by (auto simp: thread_ok_def)
  have cst: "status cth = s" using st(1) cth(1) by (simp add: status_of_def)
  have at: "thread_at ki t = thread_at k t" for t using irq by (simp add: in_irq_def thread_at_def)
  have I: "lheap ki = lheap k" "ready_list ki = ready_list k" "idle_thread ki = idle_thread k"
    "irq_frame ki = cpu k" "current_stack_frame ki = Irq_stack" "was_irq_generated ki"
    "interrupts_get_level ki = INTERRUPTS_OFF" "unchanged k ki" "\<not> in_external_interrupt ki"
    using irq by (auto simp: in_irq_def unchanged_def)
  have nxt: "thread_get_next_thread_to_run ki = Some (n, ki\<lparr>lheap := h'\<rparr>)"
    by (rule next_thread_cong[OF h'(1) I(1,2,3)])
  let ?f = "if n = cur then cpu k else stack_frame nt"
  let ?cth = "cth\<lparr>stack_frame := cpu k\<rparr>"
  let ?k1 = "(set_thread cur ?cth (ki\<lparr>lheap := h'\<rparr>))\<lparr>irq_frame := ?f\<rparr>"
  let ?nt = "if n = cur then ?cth else nt"
  let ?k' = "set_thread n (?nt\<lparr>status := THREAD_RUNNING\<rparr>) (?k1\<lparr>thread_ticks := 0\<rparr>)"
  have tail: "thread_schedule_tail cur n ?k1 = Some ?k'"
    by (rule schedule_tail_alive[where cth = ?cth])
      (use cth nt cst st(3) at I(7) in \<open>auto simp: heap_simps\<close>)
  have k1: "?k1 = set_thread cur ?cth (ki\<lparr>lheap := h'\<rparr>)" if "n = cur"
  proof -
    let ?X = "set_thread cur ?cth (ki\<lparr>lheap := h'\<rparr>)"
    have "?X\<lparr>irq_frame := irq_frame ?X\<rparr> = ?X" by simp
    then show ?thesis using that I(4) by simp
  qed
  have tail': "thread_schedule_tail cur cur (set_thread cur ?cth (ki\<lparr>lheap := h'\<rparr>)) = Some ?k'" if "n = cur"
    using tail k1[OF that] that by simp
  have run: "thread_get_running_thread ki = Some cur"
    using I(4,5,6) D(16)
    by (simp add: thread_get_running_thread_def interrupts_was_irq_generated_def get_current_interrupts_stack_frame_def)
  have "schedule ki = Some ?k'"
    using run nxt I(4,5,6,7) cth nt cst st(2) tail tail'
    by (cases "n = cur") (simp_all add: schedule_def schedule_in_interrupt_def is_thread_def at heap_simps
        interrupts_was_irq_generated_def get_current_interrupts_stack_frame_def thread_save_stack_frame_def
        context_switch_def)
  note sch = this
  let ?kf = "?k'\<lparr>was_irq_generated := False, cpu := irq_frame ?k'\<rparr>"
  have nf: "frame_of k n = stack_frame nt" using nt(1) by (simp add: frame_of_def)
  have "sched ?kf ?L n (tl rs) ts W \<and> (\<forall>t. t \<noteq> n \<longrightarrow> status_of ?kf t = status_of k t) \<and>
     (\<forall>t. t \<noteq> cur \<longrightarrow> t \<noteq> n \<longrightarrow> frame_of ?kf t = frame_of k t) \<and>
     frame_of ?kf n = ?f \<and> (n \<noteq> cur \<longrightarrow> frame_of ?kf cur = cpu k)"
  proof (rule sched_after_switch[OF core cur st(1,2) nx _ n_def h'(2,3,4,5)])
    show "elem_of cur \<notin> ll.owned L" if "idle_thread k = cur" using idle that by simp
    show "pg_round_down (r13_sp ?f) = n" using D(16) D(11)[OF n_ts] nf by auto
  next
    show "thread_at ?kf n = Some (mt\<lparr>status := THREAD_RUNNING, stack_frame := ?f\<rparr>)" if "thread_at k n = Some mt" for mt
      using that nt cth by (auto simp: heap_simps intro!: thread.equality)
    show "thread_at ?kf cur = Some (c\<lparr>stack_frame := cpu k\<rparr>)" if "n \<noteq> cur" "thread_at k cur = Some c" for c
      using that cth by (simp add: heap_simps)
    show "thread_at ?kf t = thread_at k t" if "t \<noteq> cur" "t \<noteq> n" for t
      using that at by (simp add: heap_simps)
  qed (use I D(16) in \<open>simp_all add: unchanged_def\<close>)
  note A = this[THEN conjunct1] this[THEN conjunct2, THEN conjunct1]
    this[THEN conjunct2, THEN conjunct2, THEN conjunct1] this[THEN conjunct2, THEN conjunct2, THEN conjunct2]
  have cur_f: "frame_of ?kf cur = cpu k"
    using A(4) by (cases "n = cur") simp_all
  show ?thesis
    unfolding Let_def
  proof (intro exI[of _ ?k'] conjI)
    show "schedule ki = Some ?k'" by (rule sch)
    show "sched ?kf ?L n (tl rs) ts W" by (rule A(1))
    show "\<forall>t. t \<noteq> n \<longrightarrow> status_of ?kf t = status_of k t" by (rule A(2))
    show "\<forall>t. t \<noteq> cur \<longrightarrow> t \<noteq> n \<longrightarrow> frame_of ?kf t = frame_of k t" by (rule A(3))
    show "frame_of ?kf cur = cpu k" by (rule cur_f)
  qed (use I(4,6,8,9) nf in \<open>simp_all add: unchanged_def\<close>)
qed

section \<open>A timer request\<close>

text \<open>The timer's handler is registered, and the timer is the only device that requests.\<close>

definition timer_request :: "irq_system \<Rightarrow> (nat \<Rightarrow> u32) \<Rightarrow> (nat \<Rightarrow> u32) \<Rightarrow> bool" where
  "timer_request s pend pend' \<longleftrightarrow> length (irq_handlers s) = IRQ_COUNT \<and> irq_handlers s ! 1 = timer_irq_handler \<and>
     (\<forall>m < 32. (pend m AND push_bit m 1 \<noteq> 0) = (m = 1)) \<and> (\<forall>m < 32. pend' m AND push_bit m 1 = 0)"

lemma dispatch_timer:
  assumes "timer_request s pend pend'"
  shows "dispatch_loop s pend p 0 k = thread_tick p k" "dispatch_loop s pend' p 0 k = Some k"
proof -
  have "dispatch_loop s pend p 0 k = interrupts_dispatch_pending_irq s p 1 k"
  proof (rule dispatch_loop_single)
    have "pend m AND push_bit m 1 \<noteq> 0 \<longleftrightarrow> m = 1" if "m < 32" for m
      using assms that by (simp add: timer_request_def)
    from this[of 1] this show "pend 1 AND push_bit 1 1 \<noteq> 0"
      "\<And>m. m < 32 \<Longrightarrow> m \<noteq> 1 \<Longrightarrow> pend m AND push_bit m 1 = 0" by auto
  qed simp_all
  then show "dispatch_loop s pend p 0 k = thread_tick p k"
    using assms by (simp add: timer_request_def interrupts_dispatch_pending_irq_def timer_irq_handler_def IRQ_COUNT_def)
  show "dispatch_loop s pend' p 0 k = Some k"
    by (rule dispatch_loop_none) (use assms in \<open>auto simp: timer_request_def\<close>)
qed

lemma irq_fields [simp]:
  "interrupts_get_level (ticked cur k) = INTERRUPTS_OFF" "interrupts_get_level (irq_entry k) = INTERRUPTS_OFF"
  "in_external_interrupt (ticked cur k)" "yield_on_return (ticked cur k) \<longleftrightarrow> thread_ticks k + 1 \<ge> TIME_SLICE"
  "irq_frame (ticked cur k) = cpu k" "was_irq_generated (ticked cur k)"
  by (simp_all add: ticked_def irq_entry_def interrupts_get_level_def get_cpsr_value_def FLAG_IRQ_def)

lemma irq_handler_timer:
  assumes s: "sched k L cur rs ts W" and t: "timer_request s pend pend'"
  shows "irq_handler_int s pend pend' k = do {
     k \<leftarrow> (let k = (ticked cur k)\<lparr>in_external_interrupt := False\<rparr> in
            if yield_on_return k then
              (case thread_yield k of Some (Done v, k) \<Rightarrow> Some k | _ \<Rightarrow> None)
            else Some k);
     Some (k\<lparr>was_irq_generated := False, cpu := irq_frame k\<rparr>) }"
proof -
  have irq: "\<not> in_external_interrupt k" "\<not> was_irq_generated k"
    using s by (simp_all add: sched_def sched_core_def)
  have e: "k\<lparr>irq_frame := cpu k, cpu := (cpu k)\<lparr>cpsr := 0xd2\<rparr>, was_irq_generated := True,
      in_external_interrupt := True, yield_on_return := False\<rparr> = irq_entry k"
    by (simp add: irq_entry_def)
  show ?thesis
    using irq
    by (simp add: irq_handler_int_def interrupts_dispatch_irq_def interrupts_context_def
        interrupts_was_irq_generated_def e dispatch_timer[OF t] thread_tick_sched[OF s] Let_def)
qed

lemma timer_irq_returns:
  assumes s: "sched k L cur rs ts W" and t: "timer_request s pend pend'"
    and slice: "\<not> thread_ticks k + 1 \<ge> TIME_SLICE"
  shows "irq_handler_int s pend pend' k = Some (k\<lparr>irq_frame := cpu k, current_stack_frame := Irq_stack,
     idle_ticks := (if cur = idle_thread k then idle_ticks k + 1 else idle_ticks k),
     kernel_ticks := (if cur = idle_thread k then kernel_ticks k else kernel_ticks k + 1),
     thread_ticks := thread_ticks k + 1, yield_on_return := False\<rparr>)"
proof -
  have irq: "\<not> in_external_interrupt k" "\<not> was_irq_generated k"
    using s by (simp_all add: sched_def sched_core_def)
  show ?thesis
    using slice irq by (simp add: irq_handler_timer[OF s t]) (simp add: ticked_def irq_entry_def)
qed

lemma thread_current_irq:
  assumes "thread_at k cur = Some th" "cur \<noteq> NULL" "magic th = THREAD_MAGIC" "status th = THREAD_RUNNING"
    "pg_round_down (r13_sp (cpu k)) = cur"
  shows "thread_current ((ticked cur k)\<lparr>in_external_interrupt := False\<rparr>) = Some cur"
  using assms
  by (simp add: thread_current_def thread_get_running_thread_def interrupts_was_irq_generated_def irq_entry_def
      ticked_def get_current_interrupts_stack_frame_def is_thread_def thread_at_def)

lemma ready_current:
  assumes s: "sched k L cur rs ts W" and th: "thread_at k cur = Some th"
    and q: "q = (if cur = idle_thread k then rs else rs @ [cur])"
  shows "\<exists>h'. (if cur = idle_thread k then Some (lheap k)
       else list_push_back (lheap k) (ready_list k) (elem_of cur)) = Some h' \<and>
     sched_core (set_thread cur (th\<lparr>status := THREAD_READY\<rparr>) (k\<lparr>lheap := h'\<rparr>))
       (L(ready_list k \<mapsto> map elem_of q)) cur q ts W"
proof (cases "cur = idle_thread k")
  case False
  then show ?thesis using queue_current[OF s False] th q by auto
next
  case True
  have core: "sched_core k L cur rs ts W" and cur: "cur \<in> set ts" "status_of k cur = Some THREAD_RUNNING"
    "elem_of cur \<notin> ll.owned L"
    using s by (auto simp: sched_def)
  note D = sched_coreD[OF core]
  have L: "L(ready_list k \<mapsto> map elem_of rs) = L" using D(5) by (simp add: fun_upd_idem)
  have "sched_core (set_thread cur (th\<lparr>status := THREAD_READY\<rparr>) (k\<lparr>lheap := lheap k\<rparr>)) L cur rs ts W"
  proof (rule sched_core_update[OF core th _ D(1)])
    show "cur \<noteq> NULL" using D(15) by (simp add: thread_ok_def)
    show "L (ready_list k) = Some (map elem_of rs)" "L (all_list k) = Some (map allelem_of ts)"
      by (rule D(5), rule D(6))
    show "set rs \<subseteq> set ts" by (rule D(8))
    show "if u = cur then THREAD_READY = THREAD_READY else status_of k u = Some THREAD_READY"
      if "u \<in> set rs" for u using that D(9) by auto
    show "\<exists>bs. L w = Some (map elem_of bs) \<and> set bs \<subseteq> set ts \<and>
        (\<forall>b \<in> set bs. if b = cur then THREAD_READY = THREAD_BLOCKED else status_of k b = Some THREAD_BLOCKED)"
      if w: "w \<in> W" for w
    proof -
      obtain bs where bs: "L w = Some (map elem_of bs)" "set bs \<subseteq> set ts" "\<forall>b \<in> set bs. status_of k b = Some THREAD_BLOCKED"
        using D(12)[OF w] by blast
      have "cur \<notin> set bs" using bs(3) cur(2) by auto
      then show ?thesis using bs by (intro exI[of _ bs]) auto
    qed
    show "idle_thread k \<in> set ts \<and> (idle_thread k \<noteq> cur \<longrightarrow> elem_of (idle_thread k) \<notin> ll.owned L)"
      using True cur(1) by simp
  qed simp_all
  then show ?thesis using True q L by simp
qed

lemma thread_yield_eq:
  assumes c: "thread_current k = Some cur" "thread_at k cur = Some th" "status th = THREAD_RUNNING"
    "\<not> in_external_interrupt k"
    and h: "(if cur = idle_thread k then Some (lheap k)
      else list_push_back (lheap k) (ready_list k) (elem_of cur)) = Some h'"
  shows "thread_yield k =
     (case schedule (set_thread cur (th\<lparr>status := THREAD_READY\<rparr>) ((set_level INTERRUPTS_OFF k)\<lparr>lheap := h'\<rparr>)) of
        None \<Rightarrow> None
      | Some k' \<Rightarrow> if was_irq_generated k' then Some (Done 0, set_level (interrupts_get_level k) k')
                  else Some (Switched [Yield_tail (interrupts_get_level k)], k'))"
proof -
  let ?X = "set_level INTERRUPTS_OFF k"
  have X: "?X\<lparr>lheap := lheap k\<rparr> = ?X"
  proof -
    have "?X\<lparr>lheap := lheap ?X\<rparr> = ?X" by simp
    then show ?thesis by simp
  qed
  have "(if cur \<noteq> idle_thread ?X then on_lists (\<lambda>h. list_push_back h (ready_list ?X) (elem_of cur)) ?X
      else Some ?X) = Some (?X\<lparr>lheap := h'\<rparr>)"
    using h X by (cases "cur = idle_thread k") (simp_all add: on_lists_def del: set_level_commute)
  then show ?thesis
    using c
    by (simp add: thread_yield_def interrupts_context_def disable_eq set_status_def
        interrupts_was_irq_generated_def del: set_level_commute split: option.split)
qed

text \<open>
  The yield at the end of the request.  The idle thread does not join the ready list; every
  other thread does.  \<open>h'\<close> is the store of the lists after that, \<open>q\<close> the ready threads.
\<close>

lemma yield_irq:
  assumes s: "sched k L cur rs ts W" and q: "q = (if cur = idle_thread k then rs else rs @ [cur])"
    and n_def: "n = (if q = [] then idle_thread k else hd q)"
  shows "\<exists>k'. thread_yield ((ticked cur k)\<lparr>in_external_interrupt := False\<rparr>) = Some (Done 0, k') \<and>
     unchanged k k' \<and> kernel_ticks k' = kernel_ticks (ticked cur k) \<and> idle_ticks k' = idle_ticks (ticked cur k) \<and>
     thread_ticks k' = 0 \<and> irq_frame k' = (if n = cur then cpu k else frame_of k n) \<and>
     (let kf = k'\<lparr>was_irq_generated := False, cpu := irq_frame k'\<rparr> in
        sched kf (L(ready_list k \<mapsto> map elem_of (tl q))) n (tl q) ts W \<and>
        (\<forall>t. t \<noteq> n \<longrightarrow> t \<noteq> cur \<longrightarrow> status_of kf t = status_of k t) \<and>
        (\<forall>t. t \<noteq> cur \<longrightarrow> t \<noteq> n \<longrightarrow> frame_of kf t = frame_of k t) \<and> frame_of kf cur = cpu k)"
proof -
  have core: "sched_core k L cur rs ts W" and cur: "cur \<in> set ts" "status_of k cur = Some THREAD_RUNNING"
    "elem_of cur \<notin> ll.owned L"
    using s by (auto simp: sched_def)
  note D = sched_coreD[OF core]
  have nx: "q \<noteq> [] \<or> idle_thread k \<noteq> NULL"
    using D(15) unfolding q by (cases "cur = idle_thread k") (auto simp: thread_ok_def)
  have idle: "idle_thread k = cur \<Longrightarrow> elem_of cur \<notin> ll.owned (L(ready_list k \<mapsto> map elem_of q))"
    using cur(3) D(5) unfolding q by (simp add: fun_upd_idem)
  obtain th where th: "thread_at k cur = Some th" "cur \<noteq> NULL" "magic th = THREAD_MAGIC" "status th = THREAD_RUNNING"
    using D(15) cur(2) by (auto simp: thread_ok_def status_of_def)
  let ?ky = "(ticked cur k)\<lparr>in_external_interrupt := False\<rparr>"
  let ?L = "L(ready_list k \<mapsto> map elem_of q)"
  obtain h' where h': "(if cur = idle_thread k then Some (lheap k)
      else list_push_back (lheap k) (ready_list k) (elem_of cur)) = Some h'"
    and core2: "sched_core (set_thread cur (th\<lparr>status := THREAD_READY\<rparr>) (k\<lparr>lheap := h'\<rparr>)) ?L cur q ts W"
    using ready_current[OF s th(1) q] by blast
  let ?kb = "set_thread cur (th\<lparr>status := THREAD_READY\<rparr>) (k\<lparr>lheap := h'\<rparr>)"
  let ?ki = "set_thread cur (th\<lparr>status := THREAD_READY\<rparr>) ((set_level INTERRUPTS_OFF ?ky)\<lparr>lheap := h'\<rparr>)"
  have T: "threads (set_thread t x k') = (threads k')(t \<mapsto> x)" for t x k' by (simp add: set_thread_def)
  have K: "lheap ?ky = lheap k" "threads ?ky = threads k" "unchanged k ?ky" "ready_list ?ky = ready_list k"
    "idle_thread ?ky = idle_thread k" "current_stack_frame ?ky = Irq_stack" "was_irq_generated ?ky"
    "interrupts_get_level ?ky = INTERRUPTS_OFF" "irq_frame ?ky = cpu k"
    by (simp_all add: unchanged_def ticked_def irq_entry_def interrupts_get_level_def get_cpsr_value_def FLAG_IRQ_def)
  have irq: "in_irq ?kb ?ki"
    using K unfolding in_irq_def T by (simp add: unchanged_def)
  have st: "status_of ?kb u = (if u = cur then Some THREAD_READY else status_of k u)" for u
    using th by (simp add: status_update)
  have fr: "frame_of ?kb u = frame_of k u" for u using th by (simp add: frame_update)
  have at: "thread_at ?ky cur = Some th" using K(2) th(1,2) by (simp add: thread_at_def)
  have push: "(if cur = idle_thread ?ky then Some (lheap ?ky)
      else list_push_back (lheap ?ky) (ready_list ?ky) (elem_of cur)) = Some h'"
    unfolding K(1,4,5) by (rule h')
  have y: "thread_yield ?ky = (case schedule ?ki of None \<Rightarrow> None
     | Some k' \<Rightarrow> if was_irq_generated k' then Some (Done 0, set_level INTERRUPTS_OFF k')
               else Some (Switched [Yield_tail INTERRUPTS_OFF], k'))"
    using thread_yield_eq[OF thread_current_irq[OF th D(16)] at th(4) _ push] unfolding K(8) by simp
  have st': "status_of ?kb cur = Some THREAD_READY" using st by simp
  have nx': "q \<noteq> [] \<or> idle_thread ?kb \<noteq> NULL" and n': "n = (if q = [] then idle_thread ?kb else hd q)"
    and idle': "idle_thread ?kb = cur \<longrightarrow> elem_of cur \<notin> ll.owned ?L"
    using nx n_def idle by simp_all
  have ne: "THREAD_READY \<noteq> THREAD_RUNNING" "THREAD_READY \<noteq> THREAD_DYING" by simp_all
  obtain k' where k': "schedule ?ki = Some k'" "was_irq_generated k'" "\<not> in_external_interrupt k'" "unchanged ?kb k'"
     "kernel_ticks k' = kernel_ticks ?ki" "idle_ticks k' = idle_ticks ?ki" "thread_ticks k' = 0"
     "irq_frame k' = (if n = cur then cpu ?kb else frame_of ?kb n)" "cpu k' = cpu ?ki"
     and kf: "let kf = k'\<lparr>was_irq_generated := False, cpu := irq_frame k'\<rparr> in
        sched kf (?L(ready_list ?kb \<mapsto> map elem_of (tl q))) n (tl q) ts W \<and>
        (\<forall>t. t \<noteq> n \<longrightarrow> status_of kf t = status_of ?kb t) \<and>
        (\<forall>t. t \<noteq> cur \<longrightarrow> t \<noteq> n \<longrightarrow> frame_of kf t = frame_of ?kb t) \<and> frame_of kf cur = cpu ?kb"
    using schedule_irq[OF core2 cur(1) irq st' ne nx' idle' n'] by (elim exE conjE)
  let ?k' = "set_level INTERRUPTS_OFF k'"
  obtain c where "set_level INTERRUPTS_OFF k' = k'\<lparr>cpu := c\<rparr>" using set_level_eq[of INTERRUPTS_OFF k'] by blast
  then have e: "?k'\<lparr>was_irq_generated := False, cpu := irq_frame ?k'\<rparr> =
      k'\<lparr>was_irq_generated := False, cpu := irq_frame k'\<rparr>" "kernel_ticks ?k' = kernel_ticks k'"
      "idle_ticks ?k' = idle_ticks k'" "thread_ticks ?k' = thread_ticks k'" by simp_all
  have y': "thread_yield ?ky = Some (Done 0, ?k')" using y k'(1,2) by simp
  have L: "?L(ready_list ?kb \<mapsto> map elem_of (tl q)) = L(ready_list k \<mapsto> map elem_of (tl q))" by simp
  note F = kf[unfolded Let_def L]
  show ?thesis
    unfolding Let_def
  proof (intro exI[of _ ?k'] conjI)
    show "thread_yield ?ky = Some (Done 0, ?k')" by (rule y')
    let ?kf = "?k'\<lparr>was_irq_generated := False, cpu := irq_frame ?k'\<rparr>"
    show "sched ?kf (L(ready_list k \<mapsto> map elem_of (tl q))) n (tl q) ts W"
      using F unfolding e(1) by (elim conjE)
    show "\<forall>t. t \<noteq> n \<longrightarrow> t \<noteq> cur \<longrightarrow> status_of ?kf t = status_of k t"
      using F unfolding e(1) st by (auto split: if_splits)
    show "\<forall>t. t \<noteq> cur \<longrightarrow> t \<noteq> n \<longrightarrow> frame_of ?kf t = frame_of k t"
      using F unfolding e(1) fr by (elim conjE)
    show "frame_of ?kf cur = cpu k"
      using F unfolding e(1) by simp
    show "unchanged k ?k'" using k'(4) by (simp add: unchanged_def)
    show "irq_frame ?k' = (if n = cur then cpu k else frame_of k n)" using k'(8) fr by simp
  qed (use k'(3,5-7) in simp_all)
qed

end
