(* ===== verification/Kernel_Pool_Rep.thy ===== *)
theory Kernel_Pool_Rep
  imports Kernel_Pool Kernel_Bitmap_Spec
begin

text \<open>
  Pages and pools: page arithmetic on addresses, and the release of pages in terms of the set
  of used pages of a pool, over the run allocator interface of the bitmaps.
\<close>

section \<open>Pages\<close>

lemma unat_pg_ofs: "unat (pg_ofs t) = unat t mod 4096"
proof -
  have "pg_ofs t = take_bit 12 t"
    by (simp add: pg_ofs_def PGMASK_def take_bit_eq_mask mask_eq_exp_minus_1)
  then show ?thesis by (simp add: unsigned_take_bit_eq take_bit_eq_mod unat_mod)
qed

lemma aligned_page: "pg_ofs t = 0 \<Longrightarrow> unat t mod 4096 = 0"
  using unat_pg_ofs[of t] by simp

lemma page_bound:
  assumes "pg_ofs t = 0"
  shows "unat t + 4096 \<le> 2 ^ 32"
proof -
  obtain q where q: "unat t = 4096 * q" using aligned_page[OF assms] by (metis mod_0_imp_dvd dvdE)
  moreover have "unat t < 4294967296" using unsigned_less[where ?'a = nat, of t] by simp
  ultimately have "q < 1048576" by simp
  then show ?thesis using q by simp
qed

lemma page_add:
  assumes "pg_ofs t = 0" "off < 4096"
  shows "unat (t + off) = unat t + unat off"
proof -
  have "unat t + unat off < 2 ^ 32"
    using page_bound[OF assms(1)] assms(2) by (simp add: word_less_nat_alt)
  then show ?thesis by (subst unat_add_lem [THEN iffD1]) simp_all
qed

text \<open>Nothing of one thread's page is in another thread's page.\<close>

lemma other_page:
  assumes "pg_ofs t = 0" "pg_ofs u = 0" "t \<noteq> u" "off < 4096"
  shows "\<not> in_range u 4096 (t + off)"
proof -
  obtain i j where ij: "unat t = 4096 * i" "unat u = 4096 * j"
    using aligned_page assms(1,2) by (metis mod_0_imp_dvd dvdE)
  moreover have "unat t \<noteq> unat u" using assms(3) by (simp add: word_unat_eq_iff)
  ultimately have "i < j \<or> j < i" by auto
  then have "Suc i \<le> j \<or> Suc j \<le> i" by auto
  then have "unat t + 4096 \<le> unat u \<or> unat u + 4096 \<le> unat t"
    unfolding ij by auto
  then show ?thesis
    using page_add[OF assms(1,4)] assms(4) by (auto simp: in_range_def word_less_nat_alt)
qed

lemma other_thread_page:
  assumes "pg_ofs t = 0" "pg_ofs u = 0" "t \<noteq> u"
  shows "\<not> in_range u 4096 t" "\<not> in_range u 4096 (elem_of t)" "\<not> in_range u 4096 (allelem_of t)"
  using other_page[OF assms, of 0] other_page[OF assms, of 116] other_page[OF assms, of 108]
  by (simp_all add: elem_of_def allelem_of_def)

section \<open>Releasing pages\<close>

text \<open>The number of a page within a pool.\<close>

definition page_index :: "pool \<Rightarrow> addr \<Rightarrow> size_t" where
  "page_index p t = pg_no t - pg_no (base p)"

lemma page_from_pool_index:
  assumes "page_from_pool p t"
  shows "unat (page_index p t) < unat (bit_cnt (used_map p))"
proof -
  let ?s = "pg_no (base p)" and ?n = "bit_cnt (used_map p)"
  have le: "?s \<le> pg_no t" and lt: "pg_no t < ?s + ?n"
    using assms by (auto simp: page_from_pool_def bitmap_size_def Let_def)
  have "unat (page_index p t) = unat (pg_no t) - unat ?s" using le by (simp add: page_index_def unat_sub)
  moreover have "unat (pg_no t) < unat (?s + ?n)" using lt by (simp add: word_less_nat_alt)
  moreover have "unat (?s + ?n) \<le> unat ?s + unat ?n" by (simp add: unat_word_ariths)
  moreover have "unat ?s \<le> unat (pg_no t)" using le by (simp add: word_le_nat_alt)
  ultimately show ?thesis by linarith
qed

lemma used_range_all:
  assumes wf: "bm_wf m" and r: "unat i + unat n \<le> unat (bit_cnt m)" and u: "{unat i..<unat i + unat n} \<subseteq> used_bits m"
  shows "bitmap_all m i n = Some True"
proof -
  have len: "unat i + unat n \<le> length (bits_of m)" using r by simp
  have "\<forall>j < unat n. bits_of m ! (unat i + j) = True"
  proof (intro allI impI)
    fix j assume "j < unat n"
    then have "unat i + j \<in> used_bits m" using u by auto
    then show "bits_of m ! (unat i + j) = True" by (simp add: used_bits_def)
  qed
  then have "False \<notin> set (segment (unat i) (unat n) (bits_of m))"
    using segment_all[OF len, of True] by simp
  then show ?thesis using bitmap_any_rep(3)[OF wf r] by simp
qed

lemma pool_at_poison [simp]: "pool_at q (poison p n k) = pool_at q k"
  by (cases q) (simp_all add: pool_at_def poison_def)

lemma palloc_free_kernel:
  assumes t: "pg_ofs t = 0" "t \<noteq> NULL" and p: "page_from_pool (kernel_pool k) t" and n: "0 < n"
    and wf: "bm_wf (used_map (kernel_pool k))"
    and r: "unat (page_index (kernel_pool k) t) + unat n \<le> unat (bit_cnt (used_map (kernel_pool k)))"
    and u: "{unat (page_index (kernel_pool k) t)..<unat (page_index (kernel_pool k) t) + unat n}
        \<subseteq> used_bits (used_map (kernel_pool k))"
  shows "\<exists>m. palloc_free_multiple t n k = Some (set_pool_map Kernel_pool m (poison t (unat (PGSIZE * n)) k)) \<and>
     bm_wf m \<and> bit_cnt m = bit_cnt (used_map (kernel_pool k)) \<and>
     used_bits m = used_bits (used_map (kernel_pool k)) -
       {unat (page_index (kernel_pool k) t)..<unat (page_index (kernel_pool k) t) + unat n}"
proof -
  let ?m = "used_map (kernel_pool k)" and ?i = "page_index (kernel_pool k) t"
  obtain m where m: "bitmap_set_multiple ?m ?i n False = Some m" "bm_wf m" "unat (bit_cnt m) = unat (bit_cnt ?m)"
    "used_bits m = used_bits ?m - {unat ?i..<unat ?i + unat n}"
    using rl.free[OF wf r] by blast
  have "n \<noteq> 0" using n by simp
  then have "palloc_free_multiple t n k = Some (set_pool_map Kernel_pool m (poison t (unat (PGSIZE * n)) k))"
    using t p m(1) used_range_all[OF wf r u]
    by (simp add: palloc_free_multiple_def page_index_def Let_def) (simp add: pool_at_def)
  then show ?thesis using m by (auto simp: word_unat_eq_iff)
qed

end
