(* ===== verification/Kernel_Exit_Rep.thy ===== *)
theory Kernel_Exit_Rep
  imports Kernel_Sched_Rep Kernel_Pool_Rep
begin

text \<open>
  The end of a thread: it leaves the list of all threads, the next thread runs, and the page
  that held the structure and the stack of the dead thread goes back to the kernel pool.
\<close>

section \<open>Ending a thread\<close>

lemma poison_fields [simp]:
  "cpu (poison p n k) = cpu k" "ready_list (poison p n k) = ready_list k" "all_list (poison p n k) = all_list k"
  "idle_thread (poison p n k) = idle_thread k" "initial_thread (poison p n k) = initial_thread k"
  "was_irq_generated (poison p n k) = was_irq_generated k" "kernel_pool (poison p n k) = kernel_pool k"
  "in_external_interrupt (poison p n k) = in_external_interrupt k"
  "lheap (poison p n k) a = (if in_range p n a then None else lheap k a)"
  "words (poison p n k) a = (if in_range p n a then None else words k a)"
  "thread_at (poison p n k) t = (if in_range p n t then None else thread_at k t)"
  by (simp_all add: poison_def thread_at_def)

lemma set_pool_map_fields [simp]:
  "cpu (set_pool_map q m k) = cpu k" "ready_list (set_pool_map q m k) = ready_list k"
  "all_list (set_pool_map q m k) = all_list k" "idle_thread (set_pool_map q m k) = idle_thread k"
  "initial_thread (set_pool_map q m k) = initial_thread k"
  "was_irq_generated (set_pool_map q m k) = was_irq_generated k"
  "in_external_interrupt (set_pool_map q m k) = in_external_interrupt k"
  "lheap (set_pool_map q m k) = lheap k" "words (set_pool_map q m k) = words k"
  "thread_at (set_pool_map q m k) t = thread_at k t"
  by (cases q; simp add: set_pool_map_def thread_at_def)+

text \<open>\<open>thread_schedule_tail\<close> when the old thread is dying: its page goes back to the pool.\<close>

lemma schedule_tail_dying:
  assumes "interrupts_get_level k = INTERRUPTS_OFF" "thread_at k n = Some nt" "n \<noteq> NULL"
    "thread_at k cur = Some cth" "status cth = THREAD_DYING" "cur \<noteq> n" "cur \<noteq> initial_thread k"
    and t: "pg_ofs cur = 0" "cur \<noteq> NULL" and p: "page_from_pool (kernel_pool k) cur"
    and wf: "bm_wf (used_map (kernel_pool k))"
    and u: "unat (page_index (kernel_pool k) cur) \<in> used_bits (used_map (kernel_pool k))"
  shows "\<exists>m. thread_schedule_tail cur n k = Some (set_pool_map Kernel_pool m (poison cur 4096
       (set_thread n (nt\<lparr>status := THREAD_RUNNING\<rparr>) (k\<lparr>thread_ticks := 0\<rparr>)))) \<and>
     bm_wf m \<and> bit_cnt m = bit_cnt (used_map (kernel_pool k)) \<and>
     used_bits m = used_bits (used_map (kernel_pool k)) - {unat (page_index (kernel_pool k) cur)}"
proof -
  let ?k = "set_thread n (nt\<lparr>status := THREAD_RUNNING\<rparr>) (k\<lparr>thread_ticks := 0\<rparr>)"
  let ?i = "unat (page_index (kernel_pool k) cur)"
  have i: "?i < unat (bit_cnt (used_map (kernel_pool k)))" by (rule page_from_pool_index[OF p])
  have "\<exists>m. palloc_free_multiple cur 1 ?k = Some (set_pool_map Kernel_pool m (poison cur (unat (PGSIZE * 1)) ?k)) \<and>
     bm_wf m \<and> bit_cnt m = bit_cnt (used_map (kernel_pool ?k)) \<and>
     used_bits m = used_bits (used_map (kernel_pool ?k)) -
       {unat (page_index (kernel_pool ?k) cur)..<unat (page_index (kernel_pool ?k) cur) + unat (1 :: size_t)}"
    by (rule palloc_free_kernel) (use assms i in simp_all)
  then obtain m where m: "palloc_free_page cur ?k = Some (set_pool_map Kernel_pool m (poison cur 4096 ?k))"
    "bm_wf m" "bit_cnt m = bit_cnt (used_map (kernel_pool k))"
    "used_bits m = used_bits (used_map (kernel_pool k)) - {?i}"
    by (auto simp: palloc_free_page_def PGSIZE_def)
  have "thread_at ?k cur = Some cth" using assms by (simp add: thread_at_set)
  moreover have "initial_thread ?k = initial_thread k" by simp
  ultimately have "thread_schedule_tail cur n k = Some (set_pool_map Kernel_pool m (poison cur 4096 ?k))"
    using assms(1-7) m(1) by (simp add: thread_schedule_tail_def set_status_def)
  then show ?thesis using m by blast
qed

lemma exit_switch:
  fixes k cur
  defines "f \<equiv> (cpu k)\<lparr>r15_pc := r14_lr (cpu k)\<rparr>"
  assumes c: "thread_at k cur = Some cth" "status cth = THREAD_DYING" "cur \<noteq> n" "cur \<noteq> initial_thread k"
    and n: "thread_at k n = Some nt" "n \<noteq> NULL" "\<not> in_range cur 4096 n"
    and t: "pg_ofs cur = 0" "cur \<noteq> NULL" and p: "page_from_pool (kernel_pool k) cur"
    and wf: "bm_wf (used_map (kernel_pool k))"
    and u: "unat (page_index (kernel_pool k) cur) \<in> used_bits (used_map (kernel_pool k))"
  shows "\<exists>k' m. save_and_switch_context cur n k = Some k' \<and>
     ready_list k' = ready_list k \<and> all_list k' = all_list k \<and> idle_thread k' = idle_thread k \<and>
     in_external_interrupt k' = in_external_interrupt k \<and> was_irq_generated k' = was_irq_generated k \<and>
     cpu k' = stack_frame nt \<and> thread_at k' n = Some (nt\<lparr>status := THREAD_RUNNING\<rparr>) \<and>
     (\<forall>t. t \<noteq> n \<longrightarrow> thread_at k' t = (if in_range cur 4096 t then None else if t = cur then Some (cth\<lparr>stack_frame := f\<rparr>) else thread_at k t)) \<and>
     (\<forall>a. lheap k' a = (if in_range cur 4096 a then None else lheap k a)) \<and>
     (\<forall>a. words k' a = (if in_range cur 4096 a then None else words k a)) \<and>
     kernel_pool k' = (kernel_pool k)\<lparr>used_map := m\<rparr> \<and> bm_wf m \<and> bit_cnt m = bit_cnt (used_map (kernel_pool k)) \<and>
     used_bits m = used_bits (used_map (kernel_pool k)) - {unat (page_index (kernel_pool k) cur)}"
proof -
  let ?k1 = "set_thread cur (cth\<lparr>stack_frame := f\<rparr>) k"
  let ?k2 = "?k1\<lparr>cpu := (cpu ?k1)\<lparr>cpsr := 0xd2\<rparr>\<rparr>"
  let ?k3 = "set_thread n (nt\<lparr>status := THREAD_RUNNING\<rparr>) (?k2\<lparr>thread_ticks := 0\<rparr>)"
  have "\<exists>m. thread_schedule_tail cur n ?k2 = Some (set_pool_map Kernel_pool m (poison cur 4096 ?k3)) \<and>
     bm_wf m \<and> bit_cnt m = bit_cnt (used_map (kernel_pool ?k2)) \<and>
     used_bits m = used_bits (used_map (kernel_pool ?k2)) - {unat (page_index (kernel_pool ?k2) cur)}"
    by (rule schedule_tail_dying[where cth = "cth\<lparr>stack_frame := f\<rparr>"]) (use assms(2-) in \<open>simp_all add: thread_at_set\<close>)
  then obtain m where m: "thread_schedule_tail cur n ?k2 = Some (set_pool_map Kernel_pool m (poison cur 4096 ?k3))"
     "bm_wf m" "bit_cnt m = bit_cnt (used_map (kernel_pool k))"
     "used_bits m = used_bits (used_map (kernel_pool k)) - {unat (page_index (kernel_pool k) cur)}"
    by auto
  let ?k4 = "(set_pool_map Kernel_pool m (poison cur 4096 ?k3))\<lparr>cpu := stack_frame nt\<rparr>"
  have "save_and_switch_context cur n k = Some ?k4"
    using c(1) n m(1) by (simp add: save_and_switch_context_def f_def thread_at_set)
  moreover have "kernel_pool ?k4 = (kernel_pool k)\<lparr>used_map := m\<rparr>" by (simp add: set_pool_map_def)
  ultimately show ?thesis
    using m n t by (intro exI[of _ ?k4] exI[of _ m]) (simp add: thread_at_set)
qed

lemma thread_exit_sched:
  assumes s: "sched k L cur rs ts W" and nx: "rs \<noteq> [] \<or> idle_thread k \<noteq> NULL"
    and idle: "cur \<noteq> idle_thread k" and init: "cur \<noteq> initial_thread k" and ts: "ts = us @ cur # vs"
    and p: "page_from_pool (kernel_pool k) cur" and wf: "bm_wf (used_map (kernel_pool k))"
    and u: "unat (page_index (kernel_pool k) cur) \<in> used_bits (used_map (kernel_pool k))"
    and own: "\<And>a. a \<in> ll.owned (L(all_list k \<mapsto> map allelem_of (us @ vs))) \<Longrightarrow> \<not> in_range cur 4096 a"
    and n_def: "n = (if rs = [] then idle_thread k else hd rs)"
  defines "L' \<equiv> L(all_list k \<mapsto> map allelem_of (us @ vs), ready_list k \<mapsto> map elem_of (tl rs))"
  shows "\<exists>k' m. thread_exit k = Some (Switched [Exit_tail], k') \<and> sched k' L' n (tl rs) (us @ vs) W \<and>
     thread_at k' cur = None \<and> cpu k' = frame_of k n \<and>
     (\<forall>a. words k' a = (if in_range cur 4096 a then None else words k a)) \<and>
     kernel_pool k' = (kernel_pool k)\<lparr>used_map := m\<rparr> \<and> bm_wf m \<and>
     used_bits m = used_bits (used_map (kernel_pool k)) - {unat (page_index (kernel_pool k) cur)}"
proof -
  let ?k = "set_level INTERRUPTS_OFF k"
  have core: "sched_core ?k L cur rs ts W" and cur: "cur \<in> set ts" "status_of ?k cur = Some THREAD_RUNNING"
    "elem_of cur \<notin> ll.owned L"
    using s by (auto simp: sched_def)
  note D = sched_coreD[OF core]
  let ?ts = "us @ vs" and ?L = "L(all_list k \<mapsto> map allelem_of (us @ vs))"
  obtain th where th: "thread_at ?k cur = Some th" "cur \<noteq> NULL" "magic th = THREAD_MAGIC" "pg_ofs cur = 0"
    using D(15) by (auto simp: thread_ok_def)
  have run: "status th = THREAD_RUNNING" using cur(2) th(1) by (simp add: status_of_def)
  have all: "L (all_list k) = Some (map allelem_of us @ allelem_of cur # map allelem_of vs)"
    using D(6) ts by simp
  from ll.family_remove[OF D(1) all] obtain e h1 where h1: "list_remove (lheap ?k) (allelem_of cur) = Some (e, h1)"
    "ll.family h1 ?L" "allelem_of cur \<notin> ll.owned ?L" "modifies (lheap ?k) h1 (ll.owned L)" by auto
  have "set (nodes (all_list k) (map allelem_of ?ts)) \<subseteq> ll.owned L"
    using ll.ownedI[of L "all_list k" "map allelem_of us @ allelem_of cur # map allelem_of vs"] all
    by (auto simp: set_nodes)
  then have sub: "ll.owned ?L \<subseteq> ll.owned L"
    using ll.owned_update[of L "all_list k" _ "map allelem_of ?ts"] all by blast
  have cur_ts: "cur \<notin> set ?ts"
    using h1(3) ll.ownedI[of ?L "all_list k" "map allelem_of ?ts" "allelem_of cur"] by (auto simp: set_nodes)
  have cur_rs: "cur \<notin> set rs" using D(9)[of cur] cur(2) by auto
  let ?k2 = "set_thread cur (th\<lparr>status := THREAD_DYING\<rparr>) (?k\<lparr>lheap := h1\<rparr>)"
  have core2: "sched_core ?k2 ?L cur rs ?ts W"
  proof (rule sched_core_update[OF core th(1,2) h1(2)])
    show "valid h1 a = valid (lheap ?k) a" for a by (rule modifies_valid[OF h1(4)])
    show "?L (ready_list ?k) = Some (map elem_of rs)" "?L (all_list ?k) = Some (map allelem_of ?ts)"
      using D(2,5) by auto
    show "set ?ts \<subseteq> set ts" using ts by auto
    show "set rs \<subseteq> set ?ts" using D(8) cur_rs ts by auto
    show "if v = cur then THREAD_DYING = THREAD_READY else status_of ?k v = Some THREAD_READY"
      if "v \<in> set rs" for v using that D(9) cur_rs by auto
    show "\<exists>bs. ?L w = Some (map elem_of bs) \<and> set bs \<subseteq> set ?ts \<and>
        (\<forall>b \<in> set bs. if b = cur then THREAD_DYING = THREAD_BLOCKED else status_of ?k b = Some THREAD_BLOCKED)"
      if w: "w \<in> W" for w
    proof -
      obtain bs where bs: "L w = Some (map elem_of bs)" "set bs \<subseteq> set ts" "\<forall>b \<in> set bs. status_of ?k b = Some THREAD_BLOCKED"
        using D(12)[OF w] by blast
      have nb: "cur \<notin> set bs" using bs(3) cur(2) by auto
      moreover have "?L w = Some (map elem_of bs)" using bs(1) w D(4) by auto
      ultimately show ?thesis using bs ts by (intro exI[of _ bs]) auto
    qed
    show "idle_thread ?k \<in> set ?ts \<and> (idle_thread ?k \<noteq> cur \<longrightarrow> elem_of (idle_thread ?k) \<notin> ll.owned ?L)"
      if "idle_thread ?k \<noteq> NULL"
      using D(13,14)[OF that] sub idle ts by auto
  qed simp_all
  note D2 = sched_coreD[OF core2]
  have st2: "status_of ?k2 v = (if v = cur then Some THREAD_DYING else status_of k v)" for v
    using th by (simp add: status_update)
  have fr2: "frame_of ?k2 v = frame_of k v" for v using th by (simp add: frame_update)
  have n2: "n = (if rs = [] then idle_thread ?k2 else hd rs)" using n_def by simp
  let ?LL = "?L(ready_list ?k2 \<mapsto> map elem_of (tl rs))"
  obtain h2 where h2: "thread_get_next_thread_to_run ?k2 = Some (n, ?k2\<lparr>lheap := h2\<rparr>)"
    "ll.family h2 ?LL" "\<And>a. valid h2 a = valid (lheap ?k2) a" "ll.owned ?LL \<subseteq> ll.owned ?L"
    "rs \<noteq> [] \<Longrightarrow> elem_of (hd rs) \<notin> ll.owned ?LL"
    using next_thread[OF core2] unfolding n2 by blast
  have n_ts: "n \<in> set ?ts" using nx D2(8,13) n2 by (cases rs) auto
  have n_elem: "elem_of n \<notin> ll.owned ?LL"
    using h2(4,5) D2(14) nx idle n2 by (cases "rs = []") auto
  have ncur: "cur \<noteq> n" using n_ts cur_ts by auto
  obtain nt where nt: "thread_at ?k2 n = Some nt" "n \<noteq> NULL" "magic nt = THREAD_MAGIC" "pg_ofs n = 0"
    using D2(7)[OF n_ts] by (auto simp: thread_ok_def)
  have apart: "\<not> in_range cur 4096 t" "\<not> in_range cur 4096 (elem_of t)" "\<not> in_range cur 4096 (allelem_of t)"
    if "t \<in> set ?ts" for t
    using other_thread_page[of t cur] D2(7)[OF that] th(4) cur_ts that by (auto simp: thread_ok_def)
  let ?k3 = "?k2\<lparr>lheap := h2\<rparr>"
  have "\<exists>k' m. save_and_switch_context cur n ?k3 = Some k' \<and>
     ready_list k' = ready_list ?k3 \<and> all_list k' = all_list ?k3 \<and> idle_thread k' = idle_thread ?k3 \<and>
     in_external_interrupt k' = in_external_interrupt ?k3 \<and> was_irq_generated k' = was_irq_generated ?k3 \<and>
     cpu k' = stack_frame nt \<and> thread_at k' n = Some (nt\<lparr>status := THREAD_RUNNING\<rparr>) \<and>
     (\<forall>t. t \<noteq> n \<longrightarrow> thread_at k' t = (if in_range cur 4096 t then None else if t = cur then
        Some ((th\<lparr>status := THREAD_DYING\<rparr>)\<lparr>stack_frame := (cpu ?k3)\<lparr>r15_pc := r14_lr (cpu ?k3)\<rparr>\<rparr>) else thread_at ?k3 t)) \<and>
     (\<forall>a. lheap k' a = (if in_range cur 4096 a then None else lheap ?k3 a)) \<and>
     (\<forall>a. words k' a = (if in_range cur 4096 a then None else words ?k3 a)) \<and>
     kernel_pool k' = (kernel_pool ?k3)\<lparr>used_map := m\<rparr> \<and> bm_wf m \<and>
     bit_cnt m = bit_cnt (used_map (kernel_pool ?k3)) \<and>
     used_bits m = used_bits (used_map (kernel_pool ?k3)) - {unat (page_index (kernel_pool ?k3) cur)}"
    by (rule exit_switch) (use th nt ncur init p wf u apart(1)[OF n_ts] in \<open>simp_all add: thread_at_set\<close>)
  then obtain k' m where k': "save_and_switch_context cur n ?k3 = Some k'"
     "ready_list k' = ready_list k" "all_list k' = all_list k" "idle_thread k' = idle_thread k"
     "\<not> in_external_interrupt k'" "\<not> was_irq_generated k'"
     "cpu k' = stack_frame nt" "thread_at k' n = Some (nt\<lparr>status := THREAD_RUNNING\<rparr>)"
     "\<And>t. t \<noteq> n \<Longrightarrow> in_range cur 4096 t \<Longrightarrow> thread_at k' t = None"
     "\<And>t. t \<noteq> n \<Longrightarrow> \<not> in_range cur 4096 t \<Longrightarrow> t \<noteq> cur \<Longrightarrow> thread_at k' t = thread_at k t"
     "\<And>a. lheap k' a = (if in_range cur 4096 a then None else h2 a)"
     "\<And>a. words k' a = (if in_range cur 4096 a then None else words k a)"
     "kernel_pool k' = (kernel_pool k)\<lparr>used_map := m\<rparr>" "bm_wf m"
     "used_bits m = used_bits (used_map (kernel_pool k)) - {unat (page_index (kernel_pool k) cur)}"
    using D2(17,18) by (auto simp: thread_at_set)
  have fam: "ll.family (lheap k') ?LL"
    by (rule family_dlist_cong[OF h2(2)]) (use k'(11) own h2(4) in auto)
  have at': "thread_at k' t = thread_at k t" if "t \<in> set ?ts" "t \<noteq> n" for t
    using k'(10) that apart(1) cur_ts by auto
  have nk: "thread_at k n = Some nt" using nt(1) ncur th(2) by (simp add: thread_at_set)
  have ok': "thread_ok k' t" if t: "t \<in> set ?ts" for t
  proof -
    have "valid (lheap k') (elem_of t)" "valid (lheap k') (allelem_of t)"
      using D2(7)[OF t] h2(3) k'(11) apart[OF t] by (auto simp: thread_ok_def valid_def domIff)
    moreover have "\<exists>th. thread_at k' t = Some th \<and> magic th = THREAD_MAGIC"
      using D(7)[of t] t ts at'[OF t] k'(8) nt(3) by (cases "t = n") (auto simp: thread_ok_def)
    ultimately show ?thesis using D2(7)[OF t] by (simp add: thread_ok_def)
  qed
  have st': "status_of k' t = status_of k t" "frame_of k' t = frame_of k t" if "t \<in> set ?ts" "t \<noteq> n" for t
    using at'[OF that] by (simp_all add: status_of_def frame_of_def)
  have LL: "?LL = L'" by (simp add: L'_def)
  have nr: "n \<notin> set (tl rs)"
    using n_elem ready_owned[of ?LL "ready_list k" "tl rs" n] by auto
  have rs_sub: "set (tl rs) \<subseteq> set rs" by (cases rs) auto
  have core': "sched_core k' L' n (tl rs) ?ts W"
    unfolding sched_core_def
  proof (intro conjI ballI impI)
    show "ll.family (lheap k') L'" using fam LL by simp
    show "ready_list k' \<noteq> all_list k'" "ready_list k' \<notin> W" "all_list k' \<notin> W"
      "L' (ready_list k') = Some (map elem_of (tl rs))" "L' (all_list k') = Some (map allelem_of ?ts)"
      using k'(2,3) D(2,3,4) by (auto simp: L'_def)
    show "thread_ok k' t" if "t \<in> set ?ts" for t by (rule ok'[OF that])
    show "set (tl rs) \<subseteq> set ?ts" using D2(8) rs_sub by blast
    show "status_of k' t = Some THREAD_READY" if "t \<in> set (tl rs)" for t
    proof -
      have t: "t \<in> set rs" "t \<in> set ?ts" "t \<noteq> n" using that nr rs_sub D2(8) by blast+
      show ?thesis using st'(1)[OF t(2,3)] D(9)[OF t(1)] by simp
    qed
    show "status_of k' t \<noteq> Some THREAD_RUNNING" if "t \<in> set ?ts - {n}" for t
      using st'(1)[of t] that D(10)[of t] cur_ts ts by auto
    show "pg_round_down (r13_sp (frame_of k' t)) = t" if "t \<in> set ?ts - {n}" for t
      using st'(2)[of t] that D(11)[of t] cur_ts ts by auto
    show "\<exists>bs. L' w = Some (map elem_of bs) \<and> set bs \<subseteq> set ?ts \<and>
        (\<forall>b \<in> set bs. status_of k' b = Some THREAD_BLOCKED)" if w: "w \<in> W" for w
    proof -
      obtain bs where bs: "?L w = Some (map elem_of bs)" "set bs \<subseteq> set ?ts"
          "\<forall>b \<in> set bs. status_of ?k2 b = Some THREAD_BLOCKED"
        using D2(12)[OF w] by blast
      have w': "L' w = Some (map elem_of bs)" using bs(1) w D(3) by (auto simp: L'_def)
      then have "n \<notin> set bs" using ready_owned[of L' w bs n] n_elem LL by auto
      then have "status_of k' b = Some THREAD_BLOCKED" if "b \<in> set bs" for b
        using st'(1)[of b] that bs(2,3) st2[of b] by auto
      then show ?thesis using w' bs(2) by blast
    qed
    show "idle_thread k' \<in> set ?ts" if "idle_thread k' \<noteq> NULL" using that k'(4) D2(13) by simp
    show "elem_of (idle_thread k') \<notin> ll.owned L'" if "idle_thread k' \<noteq> NULL" "idle_thread k' \<noteq> n"
      using that k'(4) D2(14) idle h2(4) LL by auto
    show "thread_ok k' n" by (rule ok'[OF n_ts])
    show "pg_round_down (r13_sp (cpu k')) = n"
      using k'(7) D(11)[of n] ncur n_ts ts nk by (auto simp: frame_of_def)
    show "\<not> in_external_interrupt k'" "\<not> was_irq_generated k'" using k'(5,6) by auto
  qed
  have sched': "sched k' L' n (tl rs) ?ts W"
    using core' n_ts n_elem LL k'(8) by (simp add: sched_def status_of_def)
  have dead: "thread_at k' cur = None" using k'(9)[of cur] ncur by (simp add: in_range_def)
  have fr: "frame_of k n = stack_frame nt" using nk by (simp add: frame_of_def)
  have "thread_get_running_thread ?k2 = Some cur" by (rule running_core[OF core2])
  then have sch: "schedule ?k2 = Some k'"
    using h2(1) k'(1) nt th D2(17,18) ncur
    by (simp add: schedule_def schedule_not_in_interrupt_def is_thread_def thread_at_set
        interrupts_was_irq_generated_def)
  have "thread_exit k = Some (Switched [Exit_tail], k')"
    using thread_current_sched[OF s] th run h1(1) sch D(17,18) k'(6)
    by (simp add: thread_exit_def interrupts_context_def interrupts_was_irq_generated_def disable_eq
        set_status_def)
  then show ?thesis
    using sched' dead fr k'(7,12,13,14,15)
    by (intro exI[of _ k'] exI[of _ m] conjI allI) simp_all
qed

end
