(* ===== verification/Kernel_Create.thy ===== *)
theory Kernel_Create
  imports Kernel_Synch
begin

text \<open>
  The operations that take a lock: page allocation (\<open>palloc_get_multiple\<close> of
  threads/palloc.c), thread identifiers and thread creation (threads/thread.c), and the
  set-up of the thread system.  Each is cut where the calling thread may be switched away;
  the part after the cut is a definition of its own, named by a constructor of \<open>cont\<close>.
\<close>

section \<open>Pages\<close>

definition PAL_ASSERT :: u32 where "PAL_ASSERT = 1"
definition PAL_ZERO :: u32 where "PAL_ZERO = 2"
definition PAL_USER :: u32 where "PAL_USER = 4"

definition get_pages_tail :: "pool_ptr \<Rightarrow> u32 \<Rightarrow> size_t \<Rightarrow> kernel \<Rightarrow> (outcome \<times> kernel) option" where
  "get_pages_tail q flags page_cnt k = do {
     (page_idx, m) \<leftarrow> bitmap_scan_and_flip (used_map (pool_at q k)) 0 page_cnt False;
     let k = set_pool_map q m k;
     k \<leftarrow> lock_release (pool_lock (pool_at q k)) k;
     let pages = (if page_idx \<noteq> BITMAP_ERROR then base (pool_at q k) + PGSIZE * page_idx else NULL);
     if pages \<noteq> NULL then
       Some (Done pages, if flags AND PAL_ZERO \<noteq> 0 then zero_fill pages (unat (PGSIZE * page_cnt)) k
         else cc_fill pages (unat (PGSIZE * page_cnt)) k)
     else do {
       ASSERT (\<not> flags AND PAL_ASSERT \<noteq> 0);
       Some (Done pages, k) } }"

definition palloc_get_multiple :: "u32 \<Rightarrow> size_t \<Rightarrow> kernel \<Rightarrow> (outcome \<times> kernel) option" where
  "palloc_get_multiple flags page_cnt k = (
     let q = (if flags AND PAL_USER \<noteq> 0 then User_pool else Kernel_pool) in
     if page_cnt = 0 then Some (Done NULL, k)
     else and_then (lock_acquire (pool_lock (pool_at q k)) k) (Get_pages_tail q flags page_cnt)
            (\<lambda>_. get_pages_tail q flags page_cnt))"

definition palloc_get_page :: "u32 \<Rightarrow> kernel \<Rightarrow> (outcome \<times> kernel) option" where
  "palloc_get_page flags k = palloc_get_multiple flags 1 k"

text \<open>
  \<open>palloc_init\<close>: \<open>kmem\<close> and \<open>umem\<close> are what the memory at the bases of the two pools held.
\<close>

definition palloc_init :: "size_t \<Rightarrow> elem_type list \<Rightarrow> elem_type list \<Rightarrow> kernel \<Rightarrow> kernel option" where
  "palloc_init user_page_limit kmem umem k = do {
     let free_start = PHYS_START_FREE_MEMORY;
     let free_end = PHYS_END_FREE_MEMORY;
     let free_pages = (free_end - free_start) div PGSIZE;
     let user_pages = free_pages div 2;
     let user_pages = (if user_pages > user_page_limit then user_page_limit else user_pages);
     let kernel_pages = free_pages - user_pages;
     kp \<leftarrow> init_pool (pool_lock (kernel_pool k)) free_start kernel_pages kmem;
     k \<leftarrow> lock_init (pool_lock kp) (k\<lparr>kernel_pool := kp\<rparr>);
     up \<leftarrow> init_pool (pool_lock (user_pool k)) (free_start + kernel_pages * PGSIZE) user_pages umem;
     lock_init (pool_lock up) (k\<lparr>user_pool := up\<rparr>) }"

section \<open>Thread identifiers\<close>

definition allocate_tid_tail :: "kernel \<Rightarrow> (outcome \<times> kernel) option" where
  "allocate_tid_tail k = do {
     let t = next_tid k;
     let k = k\<lparr>next_tid := next_tid k + 1\<rparr>;
     k \<leftarrow> lock_release (tid_lock k) k;
     Some (Done t, k) }"

definition allocate_tid :: "kernel \<Rightarrow> (outcome \<times> kernel) option" where
  "allocate_tid k = and_then (lock_acquire (tid_lock k) k) Allocate_tid_tail (\<lambda>_. allocate_tid_tail)"

section \<open>Creating threads\<close>

text \<open>\<open>strlcpy (t->name, name, sizeof t->name)\<close> keeps the first 19 characters.\<close>

definition create_after_tid ::
  "addr \<Rightarrow> string \<Rightarrow> u32 \<Rightarrow> addr \<Rightarrow> addr \<Rightarrow> interrupts_level \<Rightarrow> u32 \<Rightarrow> kernel \<Rightarrow> (outcome \<times> kernel) option" where
  "create_after_tid t nm prio function aux old_level t_id k = do {
     th \<leftarrow> thread_at k t;
     let th = th\<lparr>tid := t_id, status := THREAD_BLOCKED, name := take 19 nm, priority := prio,
        magic := THREAD_MAGIC, func := function,
        stack_frame := (stack_frame th)\<lparr>r13_sp := t + PGSIZE - 4, r0 := function, r1 := aux,
          r15_pc := kernel_thread_pc k, cpsr := SYS_MODE OR FLAG_FIQ, r14_lr := 0\<rparr>\<rparr>;
     let k = set_thread t th k;
     k \<leftarrow> on_lists (\<lambda>h. list_push_back h (all_list k) (allelem_of t)) k;
     let k = snd (interrupts_set_level old_level k);
     k \<leftarrow> thread_unblock t k;
     Some (Done t_id, k) }"

definition create_after_page ::
  "string \<Rightarrow> u32 \<Rightarrow> addr \<Rightarrow> addr \<Rightarrow> interrupts_level \<Rightarrow> addr \<Rightarrow> kernel \<Rightarrow> (outcome \<times> kernel) option" where
  "create_after_page nm prio function aux old_level t k =
     (if t = NULL then Some (Done TID_ERROR, k)
      else and_then (allocate_tid k) (Create_after_tid t nm prio function aux old_level)
             (create_after_tid t nm prio function aux old_level))"

definition thread_create :: "string \<Rightarrow> u32 \<Rightarrow> addr \<Rightarrow> addr \<Rightarrow> kernel \<Rightarrow> (outcome \<times> kernel) option" where
  "thread_create nm prio function aux k = do {
     ASSERT (PRI_MIN \<le> sint prio \<and> sint prio \<le> PRI_MAX);
     ASSERT (function \<noteq> NULL);
     let (old_level, k) = interrupts_disable k;
     and_then (palloc_get_page PAL_ZERO k) (Create_after_page nm prio function aux old_level)
       (create_after_page nm prio function aux old_level) }"

section \<open>Initialisation\<close>

definition get_first_thread :: "kernel \<Rightarrow> addr" where
  "get_first_thread k = pg_round_down (get_current_sp k)"

text \<open>
  \<open>memset (t, 0, sizeof *t)\<close> in \<open>init_thread\<close> clears the whole structure, its two list
  elements included.
\<close>

definition init_thread :: "addr \<Rightarrow> string \<Rightarrow> u32 \<Rightarrow> kernel \<Rightarrow> kernel option" where
  "init_thread t nm prio k = do {
     ASSERT (t \<noteq> NULL);
     ASSERT (PRI_MIN \<le> sint prio \<and> sint prio \<le> PRI_MAX);
     let k = k\<lparr>threads := (threads k)(t \<mapsto> zero_thread\<lparr>status := THREAD_BLOCKED, name := take 19 nm,
           stack_frame := zero_frame\<lparr>r13_sp := get_current_sp k\<rparr>, priority := prio,
           magic := THREAD_MAGIC\<rparr>),
         lheap := (lheap k)(allelem_of t \<mapsto> \<lparr>le_prev = 0, le_next = 0\<rparr>,
           elem_of t \<mapsto> \<lparr>le_prev = 0, le_next = 0\<rparr>)\<rparr>;
     k \<leftarrow> on_lists (\<lambda>h. list_push_back h (all_list k) (allelem_of t)) k;
     set_current_interrupts_stack_frame (Thread_frame t) k }"

text \<open>
  In \<open>thread_init\<close> the call of \<open>allocate_tid\<close> finds the lock free and is never switched away.
\<close>

definition thread_init :: "kernel \<Rightarrow> kernel option" where
  "thread_init k = do {
     ASSERT (interrupts_get_level k = INTERRUPTS_OFF);
     let k = k\<lparr>idle_ticks := 0, kernel_ticks := 0, user_ticks := 0\<rparr>;
     k \<leftarrow> lock_init (tid_lock k) k;
     k \<leftarrow> on_lists (\<lambda>h. list_init h (ready_list k)) k;
     k \<leftarrow> on_lists (\<lambda>h. list_init h (all_list k)) k;
     let k = k\<lparr>initial_thread := get_first_thread k\<rparr>;
     k \<leftarrow> init_thread (initial_thread k) ''main'' (word_of_int PRI_DEFAULT) k;
     k \<leftarrow> set_status (initial_thread k) THREAD_RUNNING k;
     (r, k) \<leftarrow> allocate_tid k;
     case r of
       Switched fs \<Rightarrow> None
     | Done t \<Rightarrow> do {
         th \<leftarrow> thread_at k (initial_thread k);
         Some (set_thread (initial_thread k) (th\<lparr>tid := t\<rparr>) k) } }"

text \<open>\<open>kernel_thread\<close> up to the call of the thread function.\<close>

definition kernel_thread_start :: "addr \<Rightarrow> addr \<Rightarrow> kernel \<Rightarrow> (outcome \<times> kernel) option" where
  "kernel_thread_start function aux k = do {
     ASSERT (function \<noteq> NULL);
     Some (Done 0, snd (interrupts_enable k)) }"

text \<open>
  \<open>thread_start\<close>: \<open>idle_function\<close> is the address of \<open>idle\<close>, \<open>idle_started\<close> the address of
  the local semaphore.  The idle thread runs \<open>idle\<close>; its loop, which disables interrupts,
  blocks and restores the level, never ends: each round is the pending code of the block.
\<close>

definition start_after_create :: "addr \<Rightarrow> kernel \<Rightarrow> (outcome \<times> kernel) option" where
  "start_after_create idle_started k = sema_down idle_started (snd (interrupts_enable k))"

definition thread_start :: "addr \<Rightarrow> addr \<Rightarrow> kernel \<Rightarrow> (outcome \<times> kernel) option" where
  "thread_start idle_function idle_started k = do {
     k \<leftarrow> sema_init idle_started 0 k;
     and_then (thread_create ''Idle Thread'' (word_of_int PRI_MAX) idle_function idle_started k)
       (Start_after_create idle_started) (\<lambda>_. start_after_create idle_started) }"

definition idle_loop :: "kernel \<Rightarrow> (outcome \<times> kernel) option" where
  "idle_loop k = do {
     let (old_level, k) = interrupts_disable k;
     k \<leftarrow> thread_block k;
     Some (Switched [Idle_tail old_level], k) }"

definition idle :: "addr \<Rightarrow> kernel \<Rightarrow> (outcome \<times> kernel) option" where
  "idle idle_started k = do {
     ASSERT (idle_started \<noteq> NULL);
     t \<leftarrow> thread_current k;
     k \<leftarrow> sema_up idle_started (k\<lparr>idle_thread := t\<rparr>);
     idle_loop k }"

text \<open>The visit of every thread in \<open>thread_foreach\<close>; \<open>f\<close> is the action with its argument.\<close>

partial_function (option) thread_foreach_loop ::
  "(addr \<Rightarrow> kernel \<Rightarrow> kernel option) \<Rightarrow> addr \<Rightarrow> kernel \<Rightarrow> kernel option" where
  "thread_foreach_loop f e k = do {
     en \<leftarrow> list_end (all_list k);
     if e \<noteq> en then do {
       k \<leftarrow> f (thread_of_allelem e) k;
       e' \<leftarrow> list_next (lheap k) e;
       thread_foreach_loop f e' k }
     else Some k }"

definition thread_foreach :: "(addr \<Rightarrow> kernel \<Rightarrow> kernel option) \<Rightarrow> kernel \<Rightarrow> kernel option" where
  "thread_foreach f k = do {
     ASSERT (interrupts_get_level k = INTERRUPTS_OFF);
     e \<leftarrow> list_begin (lheap k) (all_list k);
     thread_foreach_loop f e k }"

declare thread_foreach_loop.simps [code]

end
