(* ===== verification/Kernel_Malloc.thy ===== *)
theory Kernel_Malloc
  imports Kernel_Create
begin

text \<open>
  The block allocator of threads/malloc.c.  A descriptor is a structure in memory at \<open>d\<close>: the
  words \<open>block_size\<close> and \<open>blocks_per_arena\<close>, the list of free blocks at \<open>d + 8\<close> and the lock at
  \<open>d + 24\<close>, 48 bytes in all.  The array \<open>descs\<close> and the variable \<open>desc_cnt\<close> are where the
  linker puts them.  An arena is a page that starts with the words \<open>magic\<close>, \<open>desc\<close> and
  \<open>free_cnt\<close>; a free block is the list element at its address.

  \<open>malloc\<close> takes a lock and may take a page, either of which may switch to another thread; it
  is cut there as the other operations are.
\<close>

section \<open>Structures\<close>

record malloc_statics =
  descs :: addr
  desc_cnt_at :: addr

definition sizeof_desc :: size_t where "sizeof_desc = 48"

definition free_list_of :: "addr \<Rightarrow> addr" where
  "free_list_of d = d + 8"

definition desc_lock :: "addr \<Rightarrow> addr" where
  "desc_lock d = d + 24"

definition ARENA_MAGIC :: u32 where "ARENA_MAGIC = 0x9a548eed"

definition sizeof_arena :: size_t where "sizeof_arena = 12"

definition desc_at :: "addr \<Rightarrow> addr" where
  "desc_at a = a + 4"

definition free_cnt_at :: "addr \<Rightarrow> addr" where
  "free_cnt_at a = a + 8"

definition init_arena :: "addr \<Rightarrow> addr \<Rightarrow> size_t \<Rightarrow> kernel \<Rightarrow> kernel option" where
  "init_arena a d free_cnt k = do {
     k \<leftarrow> set_word a ARENA_MAGIC k;
     k \<leftarrow> set_word (desc_at a) d k;
     set_word (free_cnt_at a) free_cnt k }"

section \<open>Initialisation\<close>

partial_function (option) malloc_init_loop :: "malloc_statics \<Rightarrow> size_t \<Rightarrow> kernel \<Rightarrow> kernel option" where
  "malloc_init_loop ms bs k =
     (if bs < PGSIZE div 2 then do {
        cnt \<leftarrow> word_at k (desc_cnt_at ms);
        let d = descs ms + cnt * sizeof_desc;
        k \<leftarrow> set_word (desc_cnt_at ms) (cnt + 1) k;
        ASSERT (cnt + 1 \<le> 10);
        k \<leftarrow> set_word d bs k;
        k \<leftarrow> set_word (d + 4) ((PGSIZE - sizeof_arena) div bs) k;
        k \<leftarrow> on_lists (\<lambda>h. list_init h (free_list_of d)) k;
        k \<leftarrow> lock_init (desc_lock d) k;
        malloc_init_loop ms (bs * 2) k }
      else Some k)"

definition malloc_init :: "malloc_statics \<Rightarrow> kernel \<Rightarrow> kernel option" where
  "malloc_init ms k = do {
     k \<leftarrow> set_word (desc_cnt_at ms) 0 k;
     malloc_init_loop ms 16 k }"

section \<open>Arenas and blocks\<close>

definition block_to_arena :: "addr \<Rightarrow> kernel \<Rightarrow> addr option" where
  "block_to_arena b k = do {
     let a = pg_round_down b;
     ASSERT (a \<noteq> NULL);
     mg \<leftarrow> word_at k a; ASSERT (mg = ARENA_MAGIC);
     d \<leftarrow> word_at k (desc_at a);
     aligned \<leftarrow> (if d = NULL then Some True
                else do { bs \<leftarrow> word_at k d; Some ((pg_ofs b - sizeof_arena) mod bs = 0) });
     ASSERT aligned;
     ASSERT (d \<noteq> NULL \<or> pg_ofs b = sizeof_arena);
     Some a }"

definition arena_to_block :: "addr \<Rightarrow> size_t \<Rightarrow> kernel \<Rightarrow> addr option" where
  "arena_to_block a idx k = do {
     ASSERT (a \<noteq> NULL);
     mg \<leftarrow> word_at k a; ASSERT (mg = ARENA_MAGIC);
     d \<leftarrow> word_at k (desc_at a);
     n \<leftarrow> word_at k (d + 4); ASSERT (idx < n);
     bs \<leftarrow> word_at k d;
     Some (a + sizeof_arena + idx * bs) }"

section \<open>Allocation\<close>

text \<open>The search for the smallest descriptor; \<open>d\<close> starts at \<open>descs\<close>.\<close>

partial_function (option) find_desc :: "malloc_statics \<Rightarrow> size_t \<Rightarrow> addr \<Rightarrow> kernel \<Rightarrow> addr option" where
  "find_desc ms sz d k = do {
     cnt \<leftarrow> word_at k (desc_cnt_at ms);
     if d < descs ms + cnt * sizeof_desc then do {
       bs \<leftarrow> word_at k d;
       if bs \<ge> sz then Some d else find_desc ms sz (d + sizeof_desc) k }
     else Some d }"

definition malloc_big_tail :: "size_t \<Rightarrow> addr \<Rightarrow> kernel \<Rightarrow> (outcome \<times> kernel) option" where
  "malloc_big_tail page_cnt a k =
     (if a = NULL then Some (Done NULL, k)
      else do {
        k \<leftarrow> init_arena a NULL page_cnt k;
        Some (Done (a + sizeof_arena), k) })"

text \<open>The loop that adds the blocks of a new arena to the free list.\<close>

partial_function (option) add_blocks :: "addr \<Rightarrow> addr \<Rightarrow> size_t \<Rightarrow> kernel \<Rightarrow> kernel option" where
  "add_blocks d a i k = do {
     n \<leftarrow> word_at k (d + 4);
     if i < n then do {
       b \<leftarrow> arena_to_block a i k;
       k \<leftarrow> on_lists (\<lambda>h. list_push_back h (free_list_of d) b) k;
       add_blocks d a (i + 1) k }
     else Some k }"

definition malloc_take :: "addr \<Rightarrow> kernel \<Rightarrow> (outcome \<times> kernel) option" where
  "malloc_take d k = do {
     (b, k) \<leftarrow> pop_list (free_list_of d) k;
     a \<leftarrow> block_to_arena b k;
     f \<leftarrow> word_at k (free_cnt_at a);
     k \<leftarrow> set_word (free_cnt_at a) (f - 1) k;
     k \<leftarrow> lock_release (desc_lock d) k;
     Some (Done b, k) }"

definition malloc_page :: "addr \<Rightarrow> addr \<Rightarrow> kernel \<Rightarrow> (outcome \<times> kernel) option" where
  "malloc_page d a k =
     (if a = NULL then do { k \<leftarrow> lock_release (desc_lock d) k; Some (Done NULL, k) }
      else do {
        n \<leftarrow> word_at k (d + 4);
        k \<leftarrow> init_arena a d n k;
        k \<leftarrow> add_blocks d a 0 k;
        malloc_take d k })"

definition malloc_locked :: "addr \<Rightarrow> kernel \<Rightarrow> (outcome \<times> kernel) option" where
  "malloc_locked d k = do {
     em \<leftarrow> list_empty (lheap k) (free_list_of d);
     if em then and_then (palloc_get_page 0 k) (Malloc_page d) (malloc_page d)
     else malloc_take d k }"

definition malloc :: "malloc_statics \<Rightarrow> size_t \<Rightarrow> kernel \<Rightarrow> (outcome \<times> kernel) option" where
  "malloc ms sz k =
     (if sz = 0 then Some (Done NULL, k)
      else do {
        d \<leftarrow> find_desc ms sz (descs ms) k;
        cnt \<leftarrow> word_at k (desc_cnt_at ms);
        if d = descs ms + cnt * sizeof_desc then
          (let page_cnt = DIV_ROUND_UP (sz + sizeof_arena) PGSIZE in
           and_then (palloc_get_multiple 0 page_cnt k) (Malloc_big_tail page_cnt) (malloc_big_tail page_cnt))
        else and_then (lock_acquire (desc_lock d) k) (Malloc_locked d) (\<lambda>_. malloc_locked d) })"

text \<open>\<open>memset (p, 0, size)\<close>\<close>

definition calloc_tail :: "size_t \<Rightarrow> addr \<Rightarrow> kernel \<Rightarrow> (outcome \<times> kernel) option" where
  "calloc_tail sz p k = Some (Done p, if p \<noteq> NULL then zero_fill p (unat sz) k else k)"

definition calloc :: "malloc_statics \<Rightarrow> size_t \<Rightarrow> size_t \<Rightarrow> kernel \<Rightarrow> (outcome \<times> kernel) option" where
  "calloc ms a b k = (
     let sz = a * b in
     if sz < a \<or> sz < b then Some (Done NULL, k)
     else and_then (malloc ms sz k) (Calloc_tail sz) (calloc_tail sz))"

section \<open>Release\<close>

text \<open>The loop that takes the blocks of an unused arena off the free list.\<close>

partial_function (option) remove_blocks :: "addr \<Rightarrow> addr \<Rightarrow> size_t \<Rightarrow> kernel \<Rightarrow> kernel option" where
  "remove_blocks d a i k = do {
     n \<leftarrow> word_at k (d + 4);
     if i < n then do {
       b \<leftarrow> arena_to_block a i k;
       (_, h) \<leftarrow> list_remove (lheap k) b;
       remove_blocks d a (i + 1) (k\<lparr>lheap := h\<rparr>) }
     else Some k }"

definition free_locked :: "addr \<Rightarrow> kernel \<Rightarrow> (outcome \<times> kernel) option" where
  "free_locked p k = do {
     a \<leftarrow> block_to_arena p k;
     d \<leftarrow> word_at k (desc_at a);
     k \<leftarrow> on_lists (\<lambda>h. list_push_front h (free_list_of d) p) k;
     f \<leftarrow> word_at k (free_cnt_at a);
     k \<leftarrow> set_word (free_cnt_at a) (f + 1) k;
     n \<leftarrow> word_at k (d + 4);
     k \<leftarrow> (if f + 1 \<ge> n then do {
             ASSERT (f + 1 = n);
             k \<leftarrow> remove_blocks d a 0 k;
             palloc_free_page a k }
          else Some k);
     k \<leftarrow> lock_release (desc_lock d) k;
     Some (Done 0, k) }"

text \<open>\<open>free\<close>; \<open>a\<close> and \<open>d\<close>, computed before the lock is taken, do not change while the block is in use.\<close>

definition free :: "addr \<Rightarrow> kernel \<Rightarrow> (outcome \<times> kernel) option" where
  "free p k =
     (if p \<noteq> NULL then do {
        a \<leftarrow> block_to_arena p k;
        d \<leftarrow> word_at k (desc_at a);
        if d \<noteq> NULL then do {
          bs \<leftarrow> word_at k d;
          let k = cc_fill p (unat bs) k;
          and_then (lock_acquire (desc_lock d) k) (Free_locked p) (\<lambda>_. free_locked p) }
        else do {
          n \<leftarrow> word_at k (free_cnt_at a);
          k \<leftarrow> palloc_free_multiple a n k;
          Some (Done 0, k) } }
      else Some (Done 0, k))"

section \<open>Reallocation\<close>

definition block_size :: "addr \<Rightarrow> kernel \<Rightarrow> size_t option" where
  "block_size block k = do {
     a \<leftarrow> block_to_arena block k;
     d \<leftarrow> word_at k (desc_at a);
     if d \<noteq> NULL then word_at k d
     else do { n \<leftarrow> word_at k (free_cnt_at a); Some (PGSIZE * n - pg_ofs block) } }"

text \<open>\<open>memcpy\<close> on the objects in memory.\<close>

definition copy_objects :: "addr \<Rightarrow> addr \<Rightarrow> nat \<Rightarrow> kernel \<Rightarrow> kernel" where
  "copy_objects dst src n k = k\<lparr>
     lheap := (\<lambda>p. if in_range dst n p then lheap k (src + (p - dst)) else lheap k p),
     words := (\<lambda>p. if in_range dst n p then words k (src + (p - dst)) else words k p)\<rparr>"

definition realloc_tail :: "addr \<Rightarrow> size_t \<Rightarrow> addr \<Rightarrow> kernel \<Rightarrow> (outcome \<times> kernel) option" where
  "realloc_tail old_block new_size new_block k =
     (if old_block \<noteq> NULL \<and> new_block \<noteq> NULL then do {
        old_size \<leftarrow> block_size old_block k;
        let min_size = (if new_size < old_size then new_size else old_size);
        let k = copy_objects new_block old_block (unat min_size) k;
        and_then (free old_block k) (Return_value new_block) (\<lambda>_ k. Some (Done new_block, k)) }
      else Some (Done new_block, k))"

definition realloc :: "malloc_statics \<Rightarrow> addr \<Rightarrow> size_t \<Rightarrow> kernel \<Rightarrow> (outcome \<times> kernel) option" where
  "realloc ms old_block new_size k =
     (if new_size = 0 then and_then (free old_block k) (Return_value NULL) (\<lambda>_ k. Some (Done NULL, k))
      else and_then (malloc ms new_size k) (Realloc_tail old_block new_size) (realloc_tail old_block new_size))"

declare malloc_init_loop.simps [code] find_desc.simps [code] add_blocks.simps [code] remove_blocks.simps [code]

end
