(* ===== verification/Kernel_Hash.thy ===== *)
theory Kernel_Hash
  imports Kernel_Malloc
begin

text \<open>
  The hash tables of lib/kernel/hash.c.  \<open>struct hash\<close> is six words at the address of the table;
  the array of buckets is an array of \<open>struct list\<close>, 16 bytes each, in a block of the block
  allocator, and the list element of a \<open>struct hash_elem\<close> is at the address of the element.  The
  hash and comparison functions belong to the client: \<open>hash_code\<close> stands for them.  They and the
  actions may read the memory; an action may also change it, but does not block.
\<close>

section \<open>Structures\<close>

definition elem_cnt_at :: "addr \<Rightarrow> addr" where "elem_cnt_at h = h"
definition bucket_cnt_at :: "addr \<Rightarrow> addr" where "bucket_cnt_at h = h + 4"
definition buckets_at :: "addr \<Rightarrow> addr" where "buckets_at h = h + 8"
definition hash_at :: "addr \<Rightarrow> addr" where "hash_at h = h + 12"
definition less_at :: "addr \<Rightarrow> addr" where "less_at h = h + 16"
definition aux_at :: "addr \<Rightarrow> addr" where "aux_at h = h + 20"

definition sizeof_list :: size_t where "sizeof_list = 16"

text \<open>\<open>&buckets[i]\<close>\<close>

definition bucket_at :: "addr \<Rightarrow> size_t \<Rightarrow> addr" where
  "bucket_at buckets i = buckets + sizeof_list * i"

definition list_elem_to_hash_elem :: "addr \<Rightarrow> addr" where
  "list_elem_to_hash_elem e = e"

text \<open>\<open>destructor (e, h->aux)\<close>\<close>

type_synonym hash_action_func = "addr \<Rightarrow> addr \<Rightarrow> kernel \<Rightarrow> kernel option"

record hash_iterator =
  it_hash :: addr
  it_bucket :: addr
  it_elem :: addr

section \<open>Removing all elements\<close>

partial_function (option) hash_clear_bucket ::
  "hash_action_func \<Rightarrow> addr \<Rightarrow> addr \<Rightarrow> kernel \<Rightarrow> kernel option" where
  "hash_clear_bucket destructor h bucket k = do {
     em \<leftarrow> list_empty (lheap k) bucket;
     if em then Some k
     else do {
       (e, k) \<leftarrow> pop_list bucket k;
       aux \<leftarrow> word_at k (aux_at h);
       k \<leftarrow> destructor (list_elem_to_hash_elem e) aux k;
       hash_clear_bucket destructor h bucket k } }"

partial_function (option) hash_clear_loop ::
  "hash_action_func option \<Rightarrow> addr \<Rightarrow> size_t \<Rightarrow> kernel \<Rightarrow> kernel option" where
  "hash_clear_loop destructor h i k = do {
     cnt \<leftarrow> word_at k (bucket_cnt_at h);
     if i < cnt then do {
       bs \<leftarrow> word_at k (buckets_at h);
       let bucket = bucket_at bs i;
       k \<leftarrow> (case destructor of None \<Rightarrow> Some k | Some d \<Rightarrow> hash_clear_bucket d h bucket k);
       k \<leftarrow> on_lists (\<lambda>l. list_init l bucket) k;
       hash_clear_loop destructor h (i + 1) k }
     else Some k }"

definition hash_clear :: "addr \<Rightarrow> hash_action_func option \<Rightarrow> kernel \<Rightarrow> kernel option" where
  "hash_clear h destructor k = do {
     k \<leftarrow> hash_clear_loop destructor h 0 k;
     set_word (elem_cnt_at h) 0 k }"

section \<open>Basic life cycle\<close>

definition hash_init_tail :: "addr \<Rightarrow> addr \<Rightarrow> addr \<Rightarrow> addr \<Rightarrow> addr \<Rightarrow> kernel \<Rightarrow> (outcome \<times> kernel) option" where
  "hash_init_tail h hash_p less_p aux buckets k = do {
     k \<leftarrow> set_word (buckets_at h) buckets k;
     k \<leftarrow> set_word (hash_at h) hash_p k;
     k \<leftarrow> set_word (less_at h) less_p k;
     k \<leftarrow> set_word (aux_at h) aux k;
     if buckets \<noteq> NULL then do { k \<leftarrow> hash_clear h None k; Some (Done 1, k) }
     else Some (Done 0, k) }"

text \<open>The result is 1 for \<open>true\<close> and 0 for \<open>false\<close>.\<close>

definition hash_init ::
  "malloc_statics \<Rightarrow> addr \<Rightarrow> addr \<Rightarrow> addr \<Rightarrow> addr \<Rightarrow> kernel \<Rightarrow> (outcome \<times> kernel) option" where
  "hash_init ms h hash_p less_p aux k = do {
     k \<leftarrow> set_word (elem_cnt_at h) 0 k;
     k \<leftarrow> set_word (bucket_cnt_at h) 4 k;
     cnt \<leftarrow> word_at k (bucket_cnt_at h);
     and_then (malloc ms (sizeof_list * cnt) k) (Hash_init_tail h hash_p less_p aux) (hash_init_tail h hash_p less_p aux) }"

definition hash_destroy :: "addr \<Rightarrow> hash_action_func option \<Rightarrow> kernel \<Rightarrow> (outcome \<times> kernel) option" where
  "hash_destroy h destructor k = do {
     k \<leftarrow> (if destructor \<noteq> None then hash_clear h destructor k else Some k);
     bs \<leftarrow> word_at k (buckets_at h);
     free bs k }"

section \<open>Searching\<close>

definition find_bucket :: "hash_code \<Rightarrow> addr \<Rightarrow> addr \<Rightarrow> kernel \<Rightarrow> addr option" where
  "find_bucket hc h e k = do {
     f \<leftarrow> word_at k (hash_at h);
     aux \<leftarrow> word_at k (aux_at h);
     v \<leftarrow> hash_fun hc f e aux k;
     cnt \<leftarrow> word_at k (bucket_cnt_at h);
     let bucket_idx = v AND (cnt - 1);
     bs \<leftarrow> word_at k (buckets_at h);
     Some (bucket_at bs bucket_idx) }"

definition call_less :: "hash_code \<Rightarrow> addr \<Rightarrow> addr \<Rightarrow> addr \<Rightarrow> kernel \<Rightarrow> bool option" where
  "call_less hc h a b k = do {
     f \<leftarrow> word_at k (less_at h);
     aux \<leftarrow> word_at k (aux_at h);
     less_fun hc f a b aux k }"

partial_function (option) find_elem_loop :: "hash_code \<Rightarrow> addr \<Rightarrow> addr \<Rightarrow> addr \<Rightarrow> addr \<Rightarrow> kernel \<Rightarrow> addr option" where
  "find_elem_loop hc h bucket e i k = do {
     en \<leftarrow> list_end bucket;
     if i \<noteq> en then do {
       let hi = list_elem_to_hash_elem i;
       lt \<leftarrow> call_less hc h hi e k;
       gt \<leftarrow> (if lt then Some True else call_less hc h e hi k);
       if \<not> lt \<and> \<not> gt then Some hi
       else do {
         i \<leftarrow> list_next (lheap k) i;
         find_elem_loop hc h bucket e i k } }
     else Some NULL }"

definition find_elem :: "hash_code \<Rightarrow> addr \<Rightarrow> addr \<Rightarrow> addr \<Rightarrow> kernel \<Rightarrow> addr option" where
  "find_elem hc h bucket e k = do {
     i \<leftarrow> list_begin (lheap k) bucket;
     find_elem_loop hc h bucket e i k }"

definition hash_find :: "hash_code \<Rightarrow> addr \<Rightarrow> addr \<Rightarrow> kernel \<Rightarrow> addr option" where
  "hash_find hc h e k = do {
     bucket \<leftarrow> find_bucket hc h e k;
     find_elem hc h bucket e k }"

section \<open>The number of buckets\<close>

definition turn_off_least_1bit :: "size_t \<Rightarrow> size_t" where
  "turn_off_least_1bit x = x AND (x - 1)"

definition is_power_of_2 :: "size_t \<Rightarrow> bool" where
  "is_power_of_2 x \<longleftrightarrow> x \<noteq> 0 \<and> turn_off_least_1bit x = 0"

definition BEST_ELEMS_PER_BUCKET :: size_t where "BEST_ELEMS_PER_BUCKET = 2"

partial_function (option) largest_power :: "size_t \<Rightarrow> size_t option" where
  "largest_power n = (if \<not> is_power_of_2 n then largest_power (turn_off_least_1bit n) else Some n)"

definition ideal_bucket_cnt :: "size_t \<Rightarrow> size_t option" where
  "ideal_bucket_cnt cnt = (
     let n = cnt div BEST_ELEMS_PER_BUCKET in
     largest_power (if n < 4 then 4 else n))"

partial_function (option) init_buckets :: "addr \<Rightarrow> size_t \<Rightarrow> size_t \<Rightarrow> kernel \<Rightarrow> kernel option" where
  "init_buckets buckets cnt i k =
     (if i < cnt then do {
        k \<leftarrow> on_lists (\<lambda>l. list_init l (bucket_at buckets i)) k;
        init_buckets buckets cnt (i + 1) k }
      else Some k)"

text \<open>The loop over the elements of one old bucket, and the loop over the old buckets.\<close>

partial_function (option) move_elems :: "hash_code \<Rightarrow> addr \<Rightarrow> addr \<Rightarrow> addr \<Rightarrow> kernel \<Rightarrow> kernel option" where
  "move_elems hc h old_bucket elem k = do {
     en \<leftarrow> list_end old_bucket;
     if elem \<noteq> en then do {
       new_bucket \<leftarrow> find_bucket hc h (list_elem_to_hash_elem elem) k;
       nxt \<leftarrow> list_next (lheap k) elem;
       (_, l) \<leftarrow> list_remove (lheap k) elem;
       k \<leftarrow> on_lists (\<lambda>l. list_push_front l new_bucket elem) (k\<lparr>lheap := l\<rparr>);
       move_elems hc h old_bucket nxt k }
     else Some k }"

partial_function (option) move_buckets ::
  "hash_code \<Rightarrow> addr \<Rightarrow> addr \<Rightarrow> size_t \<Rightarrow> size_t \<Rightarrow> kernel \<Rightarrow> kernel option" where
  "move_buckets hc h old_buckets old_cnt i k =
     (if i < old_cnt then do {
        let old_bucket = bucket_at old_buckets i;
        elem \<leftarrow> list_begin (lheap k) old_bucket;
        k \<leftarrow> move_elems hc h old_bucket elem k;
        move_buckets hc h old_buckets old_cnt (i + 1) k }
      else Some k)"

definition rehash_tail ::
  "hash_code \<Rightarrow> addr \<Rightarrow> addr \<Rightarrow> size_t \<Rightarrow> size_t \<Rightarrow> addr \<Rightarrow> kernel \<Rightarrow> (outcome \<times> kernel) option" where
  "rehash_tail hc h old_buckets old_cnt new_cnt new_buckets k =
     (if new_buckets = NULL then Some (Done 0, k)
      else do {
        k \<leftarrow> init_buckets new_buckets new_cnt 0 k;
        k \<leftarrow> set_word (buckets_at h) new_buckets k;
        k \<leftarrow> set_word (bucket_cnt_at h) new_cnt k;
        k \<leftarrow> move_buckets hc h old_buckets old_cnt 0 k;
        free old_buckets k })"

definition rehash :: "hash_code \<Rightarrow> malloc_statics \<Rightarrow> addr \<Rightarrow> kernel \<Rightarrow> (outcome \<times> kernel) option" where
  "rehash hc ms h k = do {
     ASSERT (h \<noteq> NULL);
     old_buckets \<leftarrow> word_at k (buckets_at h);
     old_cnt \<leftarrow> word_at k (bucket_cnt_at h);
     cnt \<leftarrow> word_at k (elem_cnt_at h);
     new_cnt \<leftarrow> ideal_bucket_cnt cnt;
     if new_cnt = old_cnt then Some (Done 0, k)
     else and_then (malloc ms (sizeof_list * new_cnt) k) (Rehash_tail hc h old_buckets old_cnt new_cnt)
            (rehash_tail hc h old_buckets old_cnt new_cnt) }"

section \<open>Insertion and deletion\<close>

definition insert_elem :: "addr \<Rightarrow> addr \<Rightarrow> addr \<Rightarrow> kernel \<Rightarrow> kernel option" where
  "insert_elem h bucket e k = do {
     n \<leftarrow> word_at k (elem_cnt_at h);
     k \<leftarrow> set_word (elem_cnt_at h) (n + 1) k;
     on_lists (\<lambda>l. list_push_front l bucket e) k }"

definition remove_elem :: "addr \<Rightarrow> addr \<Rightarrow> kernel \<Rightarrow> kernel option" where
  "remove_elem h e k = do {
     n \<leftarrow> word_at k (elem_cnt_at h);
     k \<leftarrow> set_word (elem_cnt_at h) (n - 1) k;
     (_, l) \<leftarrow> list_remove (lheap k) e;
     Some (k\<lparr>lheap := l\<rparr>) }"

definition hash_insert :: "hash_code \<Rightarrow> malloc_statics \<Rightarrow> addr \<Rightarrow> addr \<Rightarrow> kernel \<Rightarrow> (outcome \<times> kernel) option" where
  "hash_insert hc ms h new k = do {
     bucket \<leftarrow> find_bucket hc h new k;
     old \<leftarrow> find_elem hc h bucket new k;
     k \<leftarrow> (if old = NULL then insert_elem h bucket new k else Some k);
     and_then (rehash hc ms h k) (Return_value old) (\<lambda>_ k. Some (Done old, k)) }"

definition hash_replace :: "hash_code \<Rightarrow> malloc_statics \<Rightarrow> addr \<Rightarrow> addr \<Rightarrow> kernel \<Rightarrow> (outcome \<times> kernel) option" where
  "hash_replace hc ms h new k = do {
     bucket \<leftarrow> find_bucket hc h new k;
     old \<leftarrow> find_elem hc h bucket new k;
     k \<leftarrow> (if old \<noteq> NULL then remove_elem h old k else Some k);
     k \<leftarrow> insert_elem h bucket new k;
     and_then (rehash hc ms h k) (Return_value old) (\<lambda>_ k. Some (Done old, k)) }"

definition hash_delete :: "hash_code \<Rightarrow> malloc_statics \<Rightarrow> addr \<Rightarrow> addr \<Rightarrow> kernel \<Rightarrow> (outcome \<times> kernel) option" where
  "hash_delete hc ms h e k = do {
     bucket \<leftarrow> find_bucket hc h e k;
     found \<leftarrow> find_elem hc h bucket e k;
     if found \<noteq> NULL then do {
       k \<leftarrow> remove_elem h found k;
       and_then (rehash hc ms h k) (Return_value found) (\<lambda>_ k. Some (Done found, k)) }
     else Some (Done found, k) }"

section \<open>Iteration\<close>

partial_function (option) hash_apply_bucket :: "hash_action_func \<Rightarrow> addr \<Rightarrow> addr \<Rightarrow> addr \<Rightarrow> kernel \<Rightarrow> kernel option" where
  "hash_apply_bucket action h bucket elem k = do {
     en \<leftarrow> list_end bucket;
     if elem \<noteq> en then do {
       nxt \<leftarrow> list_next (lheap k) elem;
       aux \<leftarrow> word_at k (aux_at h);
       k \<leftarrow> action (list_elem_to_hash_elem elem) aux k;
       hash_apply_bucket action h bucket nxt k }
     else Some k }"

partial_function (option) hash_apply_loop :: "hash_action_func \<Rightarrow> addr \<Rightarrow> size_t \<Rightarrow> kernel \<Rightarrow> kernel option" where
  "hash_apply_loop action h i k = do {
     cnt \<leftarrow> word_at k (bucket_cnt_at h);
     if i < cnt then do {
       bs \<leftarrow> word_at k (buckets_at h);
       let bucket = bucket_at bs i;
       elem \<leftarrow> list_begin (lheap k) bucket;
       k \<leftarrow> hash_apply_bucket action h bucket elem k;
       hash_apply_loop action h (i + 1) k }
     else Some k }"

definition hash_apply :: "addr \<Rightarrow> hash_action_func option \<Rightarrow> kernel \<Rightarrow> kernel option" where
  "hash_apply h action k = (case action of None \<Rightarrow> None | Some act \<Rightarrow> hash_apply_loop act h 0 k)"

text \<open>The iterator is a local variable of the client.\<close>

definition hash_first :: "addr \<Rightarrow> kernel \<Rightarrow> hash_iterator option" where
  "hash_first h k = do {
     ASSERT (h \<noteq> NULL);
     bucket \<leftarrow> word_at k (buckets_at h);
     e \<leftarrow> list_head bucket;
     Some \<lparr>it_hash = h, it_bucket = bucket, it_elem = list_elem_to_hash_elem e\<rparr> }"

partial_function (option) hash_next_loop :: "hash_iterator \<Rightarrow> kernel \<Rightarrow> hash_iterator option" where
  "hash_next_loop i k = do {
     en \<leftarrow> list_end (it_bucket i);
     if it_elem i = list_elem_to_hash_elem en then do {
       let i = i\<lparr>it_bucket := it_bucket i + sizeof_list\<rparr>;
       bs \<leftarrow> word_at k (buckets_at (it_hash i));
       cnt \<leftarrow> word_at k (bucket_cnt_at (it_hash i));
       if it_bucket i \<ge> bs + sizeof_list * cnt then Some (i\<lparr>it_elem := NULL\<rparr>)
       else do {
         e \<leftarrow> list_begin (lheap k) (it_bucket i);
         hash_next_loop (i\<lparr>it_elem := list_elem_to_hash_elem e\<rparr>) k } }
     else Some i }"

definition hash_next :: "hash_iterator \<Rightarrow> kernel \<Rightarrow> (addr \<times> hash_iterator) option" where
  "hash_next i k = do {
     e \<leftarrow> list_next (lheap k) (it_elem i);
     i \<leftarrow> hash_next_loop (i\<lparr>it_elem := list_elem_to_hash_elem e\<rparr>) k;
     Some (it_elem i, i) }"

definition hash_cur :: "hash_iterator \<Rightarrow> addr" where
  "hash_cur i = it_elem i"

section \<open>Information\<close>

definition hash_size :: "addr \<Rightarrow> kernel \<Rightarrow> size_t option" where
  "hash_size h k = word_at k (elem_cnt_at h)"

definition hash_empty :: "addr \<Rightarrow> kernel \<Rightarrow> bool option" where
  "hash_empty h k = map_option (\<lambda>n. n = 0) (word_at k (elem_cnt_at h))"

declare hash_clear_bucket.simps [code] hash_clear_loop.simps [code] find_elem_loop.simps [code]
  largest_power.simps [code] init_buckets.simps [code] move_elems.simps [code] move_buckets.simps [code]
  hash_apply_bucket.simps [code] hash_apply_loop.simps [code] hash_next_loop.simps [code]

end
