(* ===== verification/Kernel_Machine.thy ===== *)
theory Kernel_Machine
  imports Kernel_Hash Kernel_Interrupt
begin

text \<open>
  Running the pending code of a thread that is scheduled again.  \<open>resume_frame\<close> says what each
  piece of pending code does, given the value its callee returned; \<open>resume\<close> runs the pieces
  from the innermost outwards, until the thread is switched away again or all of them are
  done and it is back in its own code.
\<close>

fun resume_frame :: "cont \<Rightarrow> u32 \<Rightarrow> kernel \<Rightarrow> (outcome \<times> kernel) option" where
  "resume_frame (Kernel_thread_entry function aux) v k = kernel_thread_start function aux k"
| "resume_frame (Yield_tail old_level) v k = Some (Done v, snd (interrupts_set_level old_level k))"
| "resume_frame Exit_tail v k = None"
| "resume_frame (Sema_down_loop sema old_level) v k = sema_down_loop sema old_level k"
| "resume_frame (Lock_acquire_tail lock) v k = lock_acquire_tail lock k"
| "resume_frame (Cond_wait_tail lock) v k = lock_acquire lock k"
| "resume_frame (Get_pages_tail q flags page_cnt) v k = get_pages_tail q flags page_cnt k"
| "resume_frame Allocate_tid_tail v k = allocate_tid_tail k"
| "resume_frame (Create_after_page nm prio function aux old_level) v k =
     create_after_page nm prio function aux old_level v k"
| "resume_frame (Create_after_tid t nm prio function aux old_level) v k =
     create_after_tid t nm prio function aux old_level v k"
| "resume_frame (Start_after_create idle_started) v k = start_after_create idle_started k"
| "resume_frame (Idle_tail old_level) v k = idle_loop (snd (interrupts_set_level old_level k))"
| "resume_frame (Malloc_big_tail page_cnt) v k = malloc_big_tail page_cnt v k"
| "resume_frame (Malloc_locked d) v k = malloc_locked d k"
| "resume_frame (Malloc_page d) v k = malloc_page d v k"
| "resume_frame (Calloc_tail sz) v k = calloc_tail sz v k"
| "resume_frame (Realloc_tail old_block new_size) v k = realloc_tail old_block new_size v k"
| "resume_frame (Return_value r) v k = Some (Done r, k)"
| "resume_frame (Free_locked p) v k = free_locked p k"
| "resume_frame (Hash_init_tail h hash_p less_p aux) v k = hash_init_tail h hash_p less_p aux v k"
| "resume_frame (Rehash_tail hc h old_buckets old_cnt new_cnt) v k =
     rehash_tail hc h old_buckets old_cnt new_cnt v k"

fun resume :: "cont list \<Rightarrow> u32 \<Rightarrow> kernel \<Rightarrow> (outcome \<times> kernel) option" where
  "resume [] v k = Some (Done v, k)"
| "resume (c # cs) v k =
     (case resume_frame c v k of
        None \<Rightarrow> None
      | Some (Done v', k') \<Rightarrow> resume cs v' k'
      | Some (Switched fs, k') \<Rightarrow> Some (Switched (fs @ cs), k'))"

lemma resume_append:
  "resume (cs @ ds) v k = (case resume cs v k of
      None \<Rightarrow> None
    | Some (Done v', k') \<Rightarrow> resume ds v' k'
    | Some (Switched fs, k') \<Rightarrow> Some (Switched (fs @ ds), k'))"
  by (induction cs arbitrary: v k) (auto split: option.splits prod.splits outcome.splits)

text \<open>
  A call that was switched away and resumed ends as it would have without the interruption
  at that point: sequencing a call with its continuation is running the call and then the
  pending code.
\<close>

lemma and_then_resume:
  assumes "\<And>v k. f v k = resume_frame c v k"
  shows "and_then r c f = (case r of
      None \<Rightarrow> None
    | Some (Done v, k) \<Rightarrow> resume_frame c v k
    | Some (Switched fs, k) \<Rightarrow> Some (Switched (fs @ [c]), k))"
  by (cases "(r, c, f)" rule: and_then.cases) (simp_all add: assms)

end
