(* ===== verification/Kernel_Sched_Spec.thy ===== *)
theory Kernel_Sched_Spec
  imports Kernel_Exit_Rep Kernel_Machine
begin

text \<open>
  What the scheduler and the synchronisation primitives promise, from any state that satisfies
  the invariant \<open>sched\<close>, and a concrete kernel with three threads on which the statements are
  exercised.
\<close>

section \<open>Locks\<close>

lemma thread_current_words [simp]: "thread_current (k\<lparr>words := w\<rparr>) = thread_current k"
proof -
  have "read_frame (k\<lparr>words := w\<rparr>) p = read_frame k p" for p by (cases p) simp_all
  moreover have "is_thread (k\<lparr>words := w\<rparr>) t = is_thread k t" for t by (simp add: is_thread_def)
  ultimately show ?thesis
    by (simp add: thread_current_def thread_get_running_thread_def interrupts_was_irq_generated_def
        get_current_interrupts_stack_frame_def get_current_sp_def)
qed

lemma lock_acquire_free:
  assumes s: "sched k L cur rs ts W" and l: "l \<noteq> NULL" "semaphore_of l \<noteq> NULL"
    and w: "words k l = Some hl" "hl \<noteq> cur" "words k (semaphore_of l) = Some v" "v \<noteq> 0"
  shows "lock_acquire l k = Some (Done 0, k\<lparr>words := (words k)(semaphore_of l \<mapsto> v - 1, l \<mapsto> cur)\<rparr>)"
proof -
  have ne: "semaphore_of l \<noteq> l" by (simp add: semaphore_of_def)
  have irq: "\<not> in_external_interrupt k" using s by (simp add: sched_def sched_core_def)
  show ?thesis
    using thread_current_sched[OF s] irq l w ne
    by (simp add: lock_acquire_def lock_held_by_current_thread_def word_at_def interrupts_context_def
        sema_down_positive lock_acquire_tail_def set_word_def)
qed

lemma lock_acquire_sleeps:
  assumes s: "sched k L cur rs ts W" and l: "l \<noteq> NULL" "words k l = Some hl" "hl \<noteq> cur"
    and d: "sema_down (semaphore_of l) k = Some (Switched fs, k')"
  shows "lock_acquire l k = Some (Switched (fs @ [Lock_acquire_tail l]), k')"
proof -
  have irq: "\<not> in_external_interrupt k" using s by (simp add: sched_def sched_core_def)
  then show ?thesis
    using thread_current_sched[OF s] l d
    by (simp add: lock_acquire_def lock_held_by_current_thread_def word_at_def interrupts_context_def)
qed

lemma lock_release_eq:
  assumes s: "sched k L cur rs ts W" and l: "l \<noteq> NULL" "words k l = Some cur"
  shows "lock_release l k = sema_up (semaphore_of l) (k\<lparr>words := (words k)(l \<mapsto> NULL)\<rparr>)"
  using thread_current_sched[OF s] l
  by (simp add: lock_release_def lock_held_by_current_thread_def word_at_def set_word_def)

text \<open>The resumed loop of \<open>sema_down\<close> in a thread that finds the semaphore up.\<close>

lemma resume_lock_acquire:
  assumes s: "sched k L t rs ts W" and l: "l \<noteq> NULL" "semaphore_of l \<noteq> NULL"
    and w: "words k l = Some hl" "words k (semaphore_of l) = Some v" "v \<noteq> 0"
  shows "resume [Sema_down_loop (semaphore_of l) lvl, Lock_acquire_tail l] x k =
     Some (Done 0, set_level lvl (k\<lparr>words := (words k)(semaphore_of l \<mapsto> v - 1, l \<mapsto> t)\<rparr>))"
proof -
  have ne: "semaphore_of l \<noteq> l" by (simp add: semaphore_of_def)
  show ?thesis
    using thread_current_sched[OF s] l w ne
    by (simp add: sema_down_loop_def word_at_def set_word_def lock_acquire_tail_def)
qed

section \<open>A concrete kernel\<close>

text \<open>
  Four threads, each in its page: the running thread at \<open>0x41000\<close>, which holds the lock at
  \<open>0x9100\<close>; the ready thread at \<open>0x42000\<close>; the idle thread at \<open>0x43000\<close>, blocked; and the
  thread at \<open>0x44000\<close>, asleep on the semaphore of the lock.  The thread that started the
  kernel, at \<open>0x3F000\<close>, has ended.
\<close>

definition ex_thread :: "addr \<Rightarrow> thread_status \<Rightarrow> thread" where
  "ex_thread t s = zero_thread\<lparr>tid := pg_no t, status := s, magic := THREAD_MAGIC,
     stack_frame := zero_frame\<lparr>cpsr := 0x5f, r13_sp := t + 0xF00, r15_pc := 0x8000\<rparr>\<rparr>"

definition ex_lists :: list_heap where
  "ex_lists = [
     0x9000 \<mapsto> \<lparr>le_prev = 0, le_next = 0x42074\<rparr>, 0x42074 \<mapsto> \<lparr>le_prev = 0x9000, le_next = 0x9008\<rparr>,
     0x9008 \<mapsto> \<lparr>le_prev = 0x42074, le_next = 0\<rparr>,
     0x9010 \<mapsto> \<lparr>le_prev = 0, le_next = 0x4106C\<rparr>, 0x4106C \<mapsto> \<lparr>le_prev = 0x9010, le_next = 0x4206C\<rparr>,
     0x4206C \<mapsto> \<lparr>le_prev = 0x4106C, le_next = 0x4306C\<rparr>, 0x4306C \<mapsto> \<lparr>le_prev = 0x4206C, le_next = 0x4406C\<rparr>,
     0x4406C \<mapsto> \<lparr>le_prev = 0x4306C, le_next = 0x9018\<rparr>, 0x9018 \<mapsto> \<lparr>le_prev = 0x4406C, le_next = 0\<rparr>,
     0x9108 \<mapsto> \<lparr>le_prev = 0, le_next = 0x44074\<rparr>, 0x44074 \<mapsto> \<lparr>le_prev = 0x9108, le_next = 0x9110\<rparr>,
     0x9110 \<mapsto> \<lparr>le_prev = 0x44074, le_next = 0\<rparr>,
     0x41074 \<mapsto> \<lparr>le_prev = 0, le_next = 0\<rparr>, 0x43074 \<mapsto> \<lparr>le_prev = 0, le_next = 0\<rparr>]"

definition ex_kernel :: kernel where
  "ex_kernel = \<lparr>lheap = ex_lists,
     threads = [0x41000 \<mapsto> ex_thread 0x41000 THREAD_RUNNING, 0x42000 \<mapsto> ex_thread 0x42000 THREAD_READY,
       0x43000 \<mapsto> ex_thread 0x43000 THREAD_BLOCKED, 0x44000 \<mapsto> ex_thread 0x44000 THREAD_BLOCKED],
     words = [0x9100 \<mapsto> 0x41000, 0x9104 \<mapsto> 0, 0x9120 \<mapsto> 0, 0x9124 \<mapsto> 1, 0x9140 \<mapsto> 0, 0x9144 \<mapsto> 1],
     cpu = zero_frame\<lparr>cpsr := 0x5f, r13_sp := 0x41F00\<rparr>, irq_frame = zero_frame,
     current_stack_frame = Irq_stack, in_external_interrupt = False, was_irq_generated = False,
     yield_on_return = False, ready_list = 0x9000, all_list = 0x9010, idle_thread = 0x43000,
     initial_thread = 0x3F000, tid_lock = 0x9120, next_tid = 5, idle_ticks = 0, kernel_ticks = 0,
     user_ticks = 0, thread_ticks = 0, kernel_thread_pc = 0x8100,
     kernel_pool = \<lparr>pool_lock = 0x9140, used_map = \<lparr>bit_cnt = 8, bm_bits = [0xF]\<rparr>, base = 0x41000\<rparr>,
     user_pool = \<lparr>pool_lock = 0x9160, used_map = \<lparr>bit_cnt = 0, bm_bits = []\<rparr>, base = 0x60000\<rparr>\<rparr>"

definition ex_family :: "addr \<rightharpoonup> addr list" where
  "ex_family = [0x9000 \<mapsto> [0x42074], 0x9010 \<mapsto> [0x4106C, 0x4206C, 0x4306C, 0x4406C], 0x9108 \<mapsto> [0x44074]]"

lemma ex_family: "ll.family ex_lists ex_family"
proof -
  have "dlist ex_lists 0x9000 [0x42074]" "dlist ex_lists 0x9010 [0x4106C, 0x4206C, 0x4306C, 0x4406C]"
    "dlist ex_lists 0x9108 [0x44074]"
    by (simp_all add: dlist_def nodes_def head_of_def tail_of_def valid_def prv_def nxt_def ex_lists_def)
  then show ?thesis
    unfolding ll.family_def by (auto simp: ex_family_def set_nodes head_of_def tail_of_def split: if_splits)
qed

lemma ex_owned: "ll.owned ex_family = {0x9000, 0x9008, 0x42074, 0x9010, 0x9018, 0x4106C, 0x4206C, 0x4306C, 0x4406C,
   0x9108, 0x9110, 0x44074}"
  unfolding ll.owned_def by (auto simp: ex_family_def set_nodes head_of_def tail_of_def split: if_splits)

lemma ex_thread_at:
  "thread_at ex_kernel 0x41000 = Some (ex_thread 0x41000 THREAD_RUNNING)"
  "thread_at ex_kernel 0x42000 = Some (ex_thread 0x42000 THREAD_READY)"
  "thread_at ex_kernel 0x43000 = Some (ex_thread 0x43000 THREAD_BLOCKED)"
  "thread_at ex_kernel 0x44000 = Some (ex_thread 0x44000 THREAD_BLOCKED)"
  by (simp_all add: thread_at_def ex_kernel_def)

lemma ex_thread_simps:
  "status (ex_thread t s) = s" "magic (ex_thread t s) = THREAD_MAGIC" "r13_sp (stack_frame (ex_thread t s)) = t + 0xF00"
  by (simp_all add: ex_thread_def)

lemma ex_sched: "sched ex_kernel ex_family 0x41000 [0x42000] [0x41000, 0x42000, 0x43000, 0x44000] {0x9108}"
proof -
  have k: "lheap ex_kernel = ex_lists" "ready_list ex_kernel = 0x9000" "all_list ex_kernel = 0x9010"
    "idle_thread ex_kernel = 0x43000" "r13_sp (cpu ex_kernel) = 0x41F00"
    "\<not> in_external_interrupt ex_kernel" "\<not> was_irq_generated ex_kernel"
    by (simp_all add: ex_kernel_def)
  have ok: "thread_ok ex_kernel t" if "t \<in> {0x41000, 0x42000, 0x43000, 0x44000}" for t
    using that ex_thread_at
    by (auto simp: thread_ok_def k(1) ex_thread_simps pg_ofs_def PGMASK_def elem_of_def allelem_of_def valid_def ex_lists_def)
  have st: "status_of ex_kernel 0x41000 = Some THREAD_RUNNING" "status_of ex_kernel 0x42000 = Some THREAD_READY"
    "status_of ex_kernel 0x43000 = Some THREAD_BLOCKED" "status_of ex_kernel 0x44000 = Some THREAD_BLOCKED"
    by (simp_all add: status_of_def ex_thread_at ex_thread_simps)
  have fr: "pg_round_down (r13_sp (frame_of ex_kernel t)) = t" if "t \<in> {0x42000, 0x43000, 0x44000}" for t
    using that by (auto simp: frame_of_def ex_thread_at ex_thread_simps pg_round_down_def PGMASK_def)
  have w: "\<exists>bs. ex_family 0x9108 = Some (map elem_of bs) \<and> set bs \<subseteq> {0x41000, 0x42000, 0x43000, 0x44000} \<and>
      (\<forall>b \<in> set bs. status_of ex_kernel b = Some THREAD_BLOCKED)"
    by (rule exI[of _ "[0x44000]"]) (simp add: ex_family_def elem_of_def st)
  show ?thesis
    unfolding sched_def sched_core_def
    using ok st fr w ex_family
    by (simp add: k ex_owned elem_of_def) (simp add: ex_family_def elem_of_def allelem_of_def pg_round_down_def PGMASK_def)
qed


lemma ex_fields:
  "words ex_kernel = [0x9100 \<mapsto> 0x41000, 0x9104 \<mapsto> 0, 0x9120 \<mapsto> 0, 0x9124 \<mapsto> 1, 0x9140 \<mapsto> 0, 0x9144 \<mapsto> 1]"
  "idle_thread ex_kernel = 0x43000" "initial_thread ex_kernel = 0x3F000" "ready_list ex_kernel = 0x9000"
  "all_list ex_kernel = 0x9010" "interrupts_get_level ex_kernel = INTERRUPTS_ON"
  by (simp_all add: ex_kernel_def interrupts_get_level_def get_cpsr_value_def FLAG_IRQ_def)

lemma ex_waiters: "ex_family (waiters_of 0x9104) = Some (map elem_of [0x44000])"
  by (simp add: ex_family_def waiters_of_def elem_of_def)

section \<open>Properties\<close>

text \<open>C1: \<open>sema_down\<close> on a semaphore of value zero puts the running thread at the end of the
  waiters and to sleep, switches to the first ready thread (the idle thread when there is
  none), whose saved registers are loaded, and keeps the scheduler's invariant: exactly one
  thread runs, the ready list holds exactly ready threads, the waiters lists blocked ones.\<close>

theorem sema_down_sleeps_and_switches:
  assumes "sched k L cur rs ts W" "rs \<noteq> [] \<or> idle_thread k \<noteq> NULL" "cur \<noteq> idle_thread k"
    "s \<noteq> NULL" "words k s = Some 0" "waiters_of s \<in> W" "L (waiters_of s) = Some (map elem_of bs)"
  shows "\<exists>k'. let n = (if rs = [] then idle_thread k else hd rs) in
     sema_down s k = Some (Switched [Sema_down_loop s (interrupts_get_level k)], k') \<and>
     sched k' (L(waiters_of s \<mapsto> map elem_of (bs @ [cur]), ready_list k \<mapsto> map elem_of (tl rs))) n (tl rs) ts W \<and>
     thread_current k' = Some n \<and> status_of k' cur = Some THREAD_BLOCKED \<and> cpu k' = frame_of k n \<and>
     words k' = words k"
proof -
  obtain k' n where "n = (if rs = [] then idle_thread k else hd rs)"
    "sema_down s k = Some (Switched [Sema_down_loop s (interrupts_get_level k)], k')"
    "sched k' (L(waiters_of s \<mapsto> map elem_of (bs @ [cur]), ready_list k \<mapsto> map elem_of (tl rs))) n (tl rs) ts W"
    "unchanged k k'" "cpu k' = frame_of k n" "status_of k' cur = Some THREAD_BLOCKED"
    using sema_down_sleeps[OF assms refl] by blast
  then show ?thesis
    using thread_current_sched by (intro exI[of _ k']) (auto simp: Let_def unchanged_def)
qed

theorem sema_down_sleeps_and_switches_witness:
  "\<exists>k'. sema_down 0x9104 ex_kernel = Some (Switched [Sema_down_loop 0x9104 INTERRUPTS_ON], k') \<and>
     thread_current k' = Some 0x42000 \<and> status_of k' 0x41000 = Some THREAD_BLOCKED"
  using sema_down_sleeps_and_switches[OF ex_sched _ _ _ _ _ ex_waiters]
  by (auto simp: ex_fields waiters_of_def Let_def)

text \<open>\<open>sema_up\<close> wakes the thread that has waited longest: it leaves the waiters list and
  goes to the end of the ready list as a ready thread; the value grows by one; the caller runs
  on with its registers, its interrupt level and every other thread unchanged.\<close>

lemma sema_up_wakes_first:
  assumes "sched k L cur rs ts W" "s \<noteq> NULL" "words k s = Some v"
    "waiters_of s \<in> W" "L (waiters_of s) = Some (map elem_of (b # bs))"
  shows "\<exists>k'. sema_up s k = Some k' \<and>
     sched k' (L(waiters_of s \<mapsto> map elem_of bs, ready_list k \<mapsto> map elem_of (rs @ [b]))) cur (rs @ [b]) ts W \<and>
     words k' = (words k)(s \<mapsto> v + 1) \<and> cpu k' = cpu k \<and> status_of k' b = Some THREAD_READY \<and>
     (\<forall>u. u \<noteq> b \<longrightarrow> status_of k' u = status_of k u)"
proof -
  obtain k' where "sema_up s k = Some (k'\<lparr>words := (words k)(s \<mapsto> v + 1)\<rparr>)"
    "sched k' (L(waiters_of s \<mapsto> map elem_of bs, ready_list k \<mapsto> map elem_of (rs @ [b]))) cur (rs @ [b]) ts W"
    "cpu k' = cpu k" "\<forall>u. status_of k' u = (if u = b then Some THREAD_READY else status_of k u)"
    using sema_up_wakes[OF assms] by blast
  then show ?thesis by (intro exI[of _ "k'\<lparr>words := (words k)(s \<mapsto> v + 1)\<rparr>"]) simp
qed

lemma sema_up_wakes_first_example:
  "\<exists>k'. sema_up 0x9104 ex_kernel = Some k' \<and> status_of k' 0x44000 = Some THREAD_READY \<and>
     words k' 0x9104 = Some 1 \<and> thread_current k' = Some 0x41000"
proof -
  have "waiters_of 0x9104 \<in> {0x9108}" by (simp add: waiters_of_def)
  from sema_up_wakes_first[OF ex_sched _ _ this, where v = 0 and b = "0x44000" and bs = "[]"] ex_waiters
  show ?thesis using thread_current_sched by (fastforce simp: ex_fields)
qed

text \<open>C28: \<open>thread_yield\<close> is round robin: the caller goes behind all ready threads and the
  first of them runs (the caller itself when no other thread is ready).\<close>

theorem thread_yield_round_robin:
  assumes "sched k L cur rs ts W" "cur \<noteq> idle_thread k"
  shows "\<exists>k'. thread_yield k = Some (Switched [Yield_tail (interrupts_get_level k)], k') \<and>
     sched k' (L(ready_list k \<mapsto> map elem_of (tl (rs @ [cur])))) (hd (rs @ [cur])) (tl (rs @ [cur])) ts W \<and>
     thread_current k' = Some (hd (rs @ [cur])) \<and> words k' = words k"
proof -
  have "rs @ [cur] = hd (rs @ [cur]) # tl (rs @ [cur])" by (cases rs) simp_all
  from thread_yield_sched[OF assms this] obtain k' where
    "thread_yield k = Some (Switched [Yield_tail (interrupts_get_level k)], k')"
    "sched k' (L(ready_list k \<mapsto> map elem_of (tl (rs @ [cur])))) (hd (rs @ [cur])) (tl (rs @ [cur])) ts W"
    "unchanged k k'" by blast
  then show ?thesis using thread_current_sched by (auto simp: unchanged_def)
qed

theorem thread_yield_round_robin_witness:
  "\<exists>k'. thread_yield ex_kernel = Some (Switched [Yield_tail INTERRUPTS_ON], k') \<and>
     thread_current k' = Some 0x42000"
  using thread_yield_round_robin[OF ex_sched] by (auto simp: ex_fields)





text \<open>C29: a lock excludes: while another thread holds it, \<open>lock_try_acquire\<close> fails and changes
  nothing, \<open>lock_acquire\<close> puts the caller to sleep, and \<open>lock_release\<close> by the caller is
  stopped by its assertion.\<close>

theorem lock_excludes_others:
  assumes "sched k L cur rs ts W" "rs \<noteq> [] \<or> idle_thread k \<noteq> NULL" "cur \<noteq> idle_thread k"
    "l \<noteq> NULL" "semaphore_of l \<noteq> NULL" "words k l = Some holder" "holder \<noteq> cur" "words k (semaphore_of l) = Some 0"
    "waiters_of (semaphore_of l) \<in> W" "L (waiters_of (semaphore_of l)) = Some (map elem_of bs)"
  shows "lock_try_acquire l k = Some (False, k) \<and> lock_release l k = None \<and>
     (\<exists>k'. lock_acquire l k =
         Some (Switched [Sema_down_loop (semaphore_of l) (interrupts_get_level k), Lock_acquire_tail l], k') \<and>
       status_of k' cur = Some THREAD_BLOCKED \<and> words k' = words k)"
proof (intro conjI)
  note cur = thread_current_sched[OF assms(1)]
  show "lock_try_acquire l k = Some (False, k)"
    using cur assms(4-8) restore_level[of k]
    by (simp add: lock_try_acquire_def lock_held_by_current_thread_def word_at_def sema_try_down_def disable_eq)
  show "lock_release l k = None"
    using cur assms(4-7) by (simp add: lock_release_def lock_held_by_current_thread_def word_at_def)
  obtain k' where k': "sema_down (semaphore_of l) k =
      Some (Switched [Sema_down_loop (semaphore_of l) (interrupts_get_level k)], k')"
    "unchanged k k'" "status_of k' cur = Some THREAD_BLOCKED"
    using sema_down_sleeps[OF assms(1,2,3,5,8,9,10) refl] by blast
  show "\<exists>k'. lock_acquire l k =
         Some (Switched [Sema_down_loop (semaphore_of l) (interrupts_get_level k), Lock_acquire_tail l], k') \<and>
       status_of k' cur = Some THREAD_BLOCKED \<and> words k' = words k"
    using lock_acquire_sleeps[OF assms(1,4,6,7) k'(1)] k'(2,3) by (auto simp: unchanged_def)
qed

text \<open>The concrete kernel with the lock held by the sleeping thread.\<close>

definition ex_kernel_other :: kernel where
  "ex_kernel_other = ex_kernel\<lparr>words := (words ex_kernel)(0x9100 \<mapsto> 0x42000)\<rparr>"

lemma ex_other: "sched ex_kernel_other ex_family 0x41000 [0x42000] [0x41000, 0x42000, 0x43000, 0x44000] {0x9108}"
  "idle_thread ex_kernel_other = 0x43000" "words ex_kernel_other 0x9100 = Some 0x42000"
  "words ex_kernel_other 0x9104 = Some 0"
  using ex_sched by (simp_all add: ex_kernel_other_def ex_fields)

theorem lock_excludes_others_witness:
  "lock_try_acquire 0x9100 ex_kernel_other = Some (False, ex_kernel_other) \<and>
     lock_release 0x9100 ex_kernel_other = None"
proof -
  have "waiters_of (semaphore_of 0x9100) \<in> {0x9108}"
    "ex_family (waiters_of (semaphore_of 0x9100)) = Some (map elem_of [0x44000])"
    by (simp_all add: waiters_of_def semaphore_of_def ex_family_def elem_of_def)
  from lock_excludes_others[OF ex_other(1) _ _ _ _ ex_other(3) _ _ this] ex_other
  show ?thesis by (simp add: semaphore_of_def)
qed



text \<open>C37: misuse stops the kernel: a thread that is not blocked cannot be unblocked, a lock
  cannot be acquired twice by its holder, and no sleeping primitive may be used in an
  interrupt handler.\<close>

theorem synch_misuse_rejected:
  assumes "sched k L cur rs ts W"
  shows "(\<forall>t \<in> set rs. thread_unblock t k = None) \<and> thread_unblock cur k = None \<and>
     (words k l = Some cur \<longrightarrow> lock_acquire l k = None \<and> lock_try_acquire l k = None) \<and>
     sema_down s (k\<lparr>in_external_interrupt := True\<rparr>) = None \<and>
     lock_acquire l (k\<lparr>in_external_interrupt := True\<rparr>) = None"
proof (intro conjI ballI impI)
  note cur = thread_current_sched[OF assms]
  have D: "cur \<in> set ts" "status_of k cur = Some THREAD_RUNNING"
    "\<And>t. t \<in> set rs \<Longrightarrow> status_of k t = Some THREAD_READY"
    using assms by (auto simp: sched_def sched_core_def)
  have nb: "thread_unblock t k = None" if "status_of k t \<noteq> Some THREAD_BLOCKED" for t
  proof (cases "is_thread k t = Some True")
    case True
    have "ASSERT (status th = THREAD_BLOCKED) = None" if "thread_at k t = Some th" for th
      using \<open>status_of k t \<noteq> Some THREAD_BLOCKED\<close> that by (simp add: status_of_def)
    then show ?thesis
      using True by (cases "thread_at k t") (simp_all add: thread_unblock_def disable_eq)
  next
    case False
    then show ?thesis by (cases "is_thread k t") (auto simp: thread_unblock_def)
  qed
  show "thread_unblock t k = None" if "t \<in> set rs" for t using nb D(3)[OF that] by simp
  show "thread_unblock cur k = None" using nb D(2) by simp
  have held: "lock_held_by_current_thread l k = Some True" if "words k l = Some cur" "l \<noteq> NULL"
    using that cur by (simp add: lock_held_by_current_thread_def word_at_def)
  show "lock_acquire l k = None" if "words k l = Some cur"
    using held[OF that] by (cases "l = NULL"; cases "interrupts_context k") (simp_all add: lock_acquire_def)
  show "lock_try_acquire l k = None" if "words k l = Some cur"
    using held[OF that] by (cases "l = NULL") (simp_all add: lock_try_acquire_def)
  show "sema_down s (k\<lparr>in_external_interrupt := True\<rparr>) = None"
    by (cases "s = NULL") (simp_all add: sema_down_def interrupts_context_def)
  show "lock_acquire l (k\<lparr>in_external_interrupt := True\<rparr>) = None"
    by (cases "l = NULL") (simp_all add: lock_acquire_def interrupts_context_def)
qed

theorem synch_misuse_rejected_witness:
  "thread_unblock 0x42000 ex_kernel = None \<and> lock_acquire 0x9100 ex_kernel = None"
  using synch_misuse_rejected[OF ex_sched, of "0x9100" "0x9104"] by (simp add: ex_fields)

end
