(* ===== verification/Kernel_Interrupt_Spec.thy ===== *)
theory Kernel_Interrupt_Spec
  imports Kernel_Interrupt_Rep Kernel_Sched_Spec
begin

text \<open>
  What an interrupt request does to the threads: preemption by the timer, the transparent
  return, and the reach of the dispatcher.
\<close>

text \<open>The interrupt system after \<open>interrupts_init\<close>, and after \<open>timer_init\<close>.\<close>

definition ex_irq :: irq_system where
  "ex_irq = fst (interrupts_init \<lparr>irq_handlers = [], irq_names = [], swi_handler = None, swi_name = [],
     enable_irq_0_31 = 0, enable_irq_32_63 = 0\<rparr> ex_kernel)"

definition ex_timer_irq :: irq_system where
  "ex_timer_irq = timer_init ex_irq"

lemma ex_timer: "timer_request ex_timer_irq (\<lambda>i. 2) (\<lambda>i. 0)"
proof -
  have b: "bit (2 :: u32) m \<longleftrightarrow> m = 1" if "m < 32" for m
    using bit_push_bit_iff[of 1 "1 :: u32" m] that by (auto simp: bit_1_iff)
  have "(2 AND push_bit m 1 \<noteq> (0 :: u32)) = (m = 1)" if "m < 32" for m
    using b[OF that] bit_iff_and_push_bit_not_eq_0[of "2 :: u32" m] by simp
  then show ?thesis
    by (simp add: timer_request_def ex_timer_irq_def ex_irq_def timer_init_def interrupts_init_def interrupts_register_irq_def
        interrupts_is_valid_irq_number_def interrupts_enable_irq_def IRQ_1_def IRQ_COUNT_def Let_def)
qed

text \<open>C2: when its time slice is over, the timer's interrupt takes the processor away from the
  running thread: it joins the end of the ready list, all its registers are kept in its frame,
  and the interrupt returns into the first ready thread with the registers of that thread, in
  a state that satisfies the invariant of the scheduler and with a new time slice.\<close>

theorem timer_preempts:
  assumes "sched k L cur rs ts W" "timer_request s pend pend'" "thread_ticks k + 1 \<ge> TIME_SLICE"
    "cur \<noteq> idle_thread k" "rs @ [cur] = n # rs'"
  shows "\<exists>k'. irq_handler_int s pend pend' k = Some k' \<and>
     sched k' (L(ready_list k \<mapsto> map elem_of rs')) n rs' ts W \<and> thread_current k' = Some n \<and>
     cpu k' = (if n = cur then cpu k else frame_of k n) \<and> frame_of k' cur = cpu k \<and>
     (\<forall>t. t \<noteq> cur \<longrightarrow> t \<noteq> n \<longrightarrow> status_of k' t = status_of k t \<and> frame_of k' t = frame_of k t) \<and>
     thread_ticks k' = 0 \<and> kernel_ticks k' = kernel_ticks k + 1 \<and> words k' = words k"
proof -
  have tl: "tl (rs @ [cur]) = rs'" using assms(5) by (simp del: tl_append)
  have q: "rs @ [cur] = (if cur = idle_thread k then rs else rs @ [cur])" using assms(4) by simp
  have n: "n = (if rs @ [cur] = [] then idle_thread k else hd (rs @ [cur]))" using assms(5) by simp
  obtain k1 where k1: "thread_yield ((ticked cur k)\<lparr>in_external_interrupt := False\<rparr>) = Some (Done 0, k1)"
     "unchanged k k1" "kernel_ticks k1 = kernel_ticks (ticked cur k)" "thread_ticks k1 = 0"
     "irq_frame k1 = (if n = cur then cpu k else frame_of k n)"
    and kf: "let kf = k1\<lparr>was_irq_generated := False, cpu := irq_frame k1\<rparr> in
        sched kf (L(ready_list k \<mapsto> map elem_of (tl (rs @ [cur])))) n (tl (rs @ [cur])) ts W \<and>
        (\<forall>t. t \<noteq> n \<longrightarrow> t \<noteq> cur \<longrightarrow> status_of kf t = status_of k t) \<and>
        (\<forall>t. t \<noteq> cur \<longrightarrow> t \<noteq> n \<longrightarrow> frame_of kf t = frame_of k t) \<and> frame_of kf cur = cpu k"
    using yield_irq[OF assms(1) q n] by (elim exE conjE)
  let ?kf = "k1\<lparr>was_irq_generated := False, cpu := irq_frame k1\<rparr>"
  note F = kf[unfolded Let_def tl]
  have "irq_handler_int s pend pend' k = Some ?kf"
    unfolding irq_handler_timer[OF assms(1,2)] using k1(1) assms(3) by simp
  moreover have "thread_current ?kf = Some n" using F thread_current_sched by blast
  moreover have "thread_ticks ?kf = 0" "kernel_ticks ?kf = kernel_ticks k + 1" "words ?kf = words k"
    using k1(2,3,4) assms(4) by (simp_all add: ticked_def unchanged_def)
  moreover have "cpu ?kf = (if n = cur then cpu k else frame_of k n)" using k1(5) by simp
  moreover have "\<forall>t. t \<noteq> cur \<longrightarrow> t \<noteq> n \<longrightarrow> status_of ?kf t = status_of k t \<and> frame_of ?kf t = frame_of k t"
    using F[THEN conjunct2, THEN conjunct1] F[THEN conjunct2, THEN conjunct2, THEN conjunct1] by simp
  ultimately show ?thesis
    using F[THEN conjunct1] F[THEN conjunct2, THEN conjunct2, THEN conjunct2]
    by (intro exI[of _ ?kf] conjI)
qed

theorem timer_preempts_witness:
  "\<exists>k'. irq_handler_int ex_timer_irq (\<lambda>i. 2) (\<lambda>i. 0)
       (ex_kernel\<lparr>thread_ticks := 1\<rparr>) = Some k' \<and>
     thread_current k' = Some 0x42000 \<and> frame_of k' 0x41000 = cpu ex_kernel"
proof -
  have "sched (ex_kernel\<lparr>thread_ticks := 1\<rparr>) ex_family 0x41000 [0x42000] [0x41000, 0x42000, 0x43000, 0x44000] {0x9108}"
    using ex_sched by (simp add: sched_def sched_core_def thread_ok_def)
  from timer_preempts[OF this ex_timer, of "0x42000" "[0x41000]"] show ?thesis
    by (fastforce simp: ex_fields TIME_SLICE_def)
qed



text \<open>C32: the dispatcher never runs the handlers 32 to 63: the outcome of a request does not
  depend on them, whatever the two pending registers hold.\<close>

theorem upper_handlers_never_run:
  assumes "take 32 (irq_handlers s) = take 32 (irq_handlers s')"
    "length (irq_handlers s) = IRQ_COUNT" "length (irq_handlers s') = IRQ_COUNT"
  shows "irq_handler_int s pend pend' k = irq_handler_int s' pend pend' k"
proof -
  have "dispatch_loop s pd p i = dispatch_loop s' pd p i" for pd p i
    using dispatch_loop_cong[OF assms(1)] assms(2,3) by (simp add: fun_eq_iff IRQ_COUNT_def)
  then show ?thesis by (simp add: irq_handler_int_def interrupts_dispatch_irq_def)
qed

text \<open>A handler registered for the line 63 is not run when that line is pending.\<close>

theorem upper_handlers_never_run_witness:
  "irq_handler_int (interrupts_register_irq 63 timer_irq_handler ''Last'' ex_irq)
       (\<lambda>i. 0) (\<lambda>i. 0x80000000) ex_kernel =
     irq_handler_int ex_irq (\<lambda>i. 0) (\<lambda>i. 0x80000000) ex_kernel"
proof (rule upper_handlers_never_run)
  show "take 32 (irq_handlers (interrupts_register_irq 63 timer_irq_handler ''Last'' ex_irq)) =
      take 32 (irq_handlers ex_irq)"
    by (simp add: interrupts_register_irq_def interrupts_is_valid_irq_number_def interrupts_enable_irq_def
        ex_irq_def interrupts_init_def IRQ_COUNT_def Let_def)
qed (simp_all add: interrupts_register_irq_def interrupts_is_valid_irq_number_def interrupts_enable_irq_def
        ex_irq_def interrupts_init_def IRQ_COUNT_def Let_def)

end
