(* ===== verification/Kernel_String.thy ===== *)
theory Kernel_String
  imports Kernel_Prelude
begin

text \<open>
  The memory and string functions of lib/string.c and the character classes of lib/ctype.h.
  Memory is a partial map from addresses to bytes: reading or writing a null pointer or an
  address without a byte fails.  A loop that runs over a string without a terminator runs
  until it leaves the memory or, if the memory has no end, forever: both are \<open>None\<close>.
\<close>

unbundle bit_operations_syntax

section \<open>Memory\<close>

type_synonym memory = "addr \<rightharpoonup> u8"

definition rd :: "memory \<Rightarrow> addr \<Rightarrow> u8 option" where
  "rd m a = (if a = NULL then None else m a)"

definition wr :: "addr \<Rightarrow> u8 \<Rightarrow> memory \<Rightarrow> memory option" where
  "wr a v m = (if a = NULL \<or> m a = None then None else Some (m(a \<mapsto> v)))"

text \<open>A loop \<open>while (size-- > 0)\<close> counts a word down.\<close>

lemma word_pred_decreases [word_loop]: "(n :: size_t) \<noteq> 0 \<Longrightarrow> unat (n - 1) < unat n"
  by (simp add: unat_minus_one unat_gt_0)

section \<open>Blocks of memory\<close>

function memcpy_loop :: "addr \<Rightarrow> addr \<Rightarrow> size_t \<Rightarrow> memory \<Rightarrow> memory option" where
  "memcpy_loop dst src sz m =
     (if sz > 0 then
        (case rd m src of None \<Rightarrow> None
         | Some v \<Rightarrow> (case wr dst v m of None \<Rightarrow> None
                     | Some m \<Rightarrow> memcpy_loop (dst + 1) (src + 1) (sz - 1) m))
      else Some m)"
  by pat_completeness auto
termination by (relation "measure (\<lambda>(d, s, n, m). unat n)") (auto simp: word_loop word_gt_0)

definition memcpy :: "addr \<Rightarrow> addr \<Rightarrow> size_t \<Rightarrow> memory \<Rightarrow> (addr \<times> memory) option" where
  "memcpy dst src sz m = do {
     ASSERT (dst \<noteq> NULL \<or> sz = 0);
     ASSERT (src \<noteq> NULL \<or> sz = 0);
     m \<leftarrow> memcpy_loop dst src sz m;
     Some (dst, m) }"

text \<open>
  The two loops of \<open>memmove\<close> advance the variable \<open>dst\<close>, which is what the function returns:
  they return its last value with the memory.
\<close>

function memmove_up :: "addr \<Rightarrow> addr \<Rightarrow> size_t \<Rightarrow> memory \<Rightarrow> (addr \<times> memory) option" where
  "memmove_up dst src sz m =
     (if sz > 0 then
        (case rd m src of None \<Rightarrow> None
         | Some v \<Rightarrow> (case wr dst v m of None \<Rightarrow> None
                     | Some m \<Rightarrow> memmove_up (dst + 1) (src + 1) (sz - 1) m))
      else Some (dst, m))"
  by pat_completeness auto
termination by (relation "measure (\<lambda>(d, s, n, m). unat n)") (auto simp: word_loop word_gt_0)

function memmove_down :: "addr \<Rightarrow> addr \<Rightarrow> size_t \<Rightarrow> memory \<Rightarrow> (addr \<times> memory) option" where
  "memmove_down dst src sz m =
     (if sz > 0 then
        (case rd m (src - 1) of None \<Rightarrow> None
         | Some v \<Rightarrow> (case wr (dst - 1) v m of None \<Rightarrow> None
                     | Some m \<Rightarrow> memmove_down (dst - 1) (src - 1) (sz - 1) m))
      else Some (dst, m))"
  by pat_completeness auto
termination by (relation "measure (\<lambda>(d, s, n, m). unat n)") (auto simp: word_loop word_gt_0)

definition memmove :: "addr \<Rightarrow> addr \<Rightarrow> size_t \<Rightarrow> memory \<Rightarrow> (addr \<times> memory) option" where
  "memmove dst src sz m = do {
     ASSERT (dst \<noteq> NULL \<or> sz = 0);
     ASSERT (src \<noteq> NULL \<or> sz = 0);
     if dst < src then memmove_up dst src sz m
     else memmove_down (dst + sz) (src + sz) sz m }"

function memcmp_loop :: "memory \<Rightarrow> addr \<Rightarrow> addr \<Rightarrow> size_t \<Rightarrow> int option" where
  "memcmp_loop m a b sz =
     (if sz > 0 then
        (case rd m a of None \<Rightarrow> None
         | Some x \<Rightarrow> (case rd m b of None \<Rightarrow> None
                     | Some y \<Rightarrow> if x \<noteq> y then Some (if x > y then 1 else - 1)
                                else memcmp_loop m (a + 1) (b + 1) (sz - 1)))
      else Some 0)"
  by pat_completeness auto
termination by (relation "measure (\<lambda>(m, a, b, n). unat n)") (auto simp: word_loop word_gt_0)

definition memcmp :: "memory \<Rightarrow> addr \<Rightarrow> addr \<Rightarrow> size_t \<Rightarrow> int option" where
  "memcmp m a b sz = do {
     ASSERT (a \<noteq> NULL \<or> sz = 0);
     ASSERT (b \<noteq> NULL \<or> sz = 0);
     memcmp_loop m a b sz }"

function memchr_loop :: "memory \<Rightarrow> addr \<Rightarrow> u8 \<Rightarrow> size_t \<Rightarrow> addr option" where
  "memchr_loop m block ch sz =
     (if sz > 0 then
        (case rd m block of None \<Rightarrow> None
         | Some x \<Rightarrow> if x = ch then Some block else memchr_loop m (block + 1) ch (sz - 1))
      else Some NULL)"
  by pat_completeness auto
termination by (relation "measure (\<lambda>(m, a, c, n). unat n)") (auto simp: word_loop word_gt_0)

text \<open>The parameters \<open>ch'\<close>, \<open>c'\<close> and \<open>value\<close> of type \<open>int\<close> are cut to a byte.\<close>

definition memchr :: "memory \<Rightarrow> addr \<Rightarrow> u32 \<Rightarrow> size_t \<Rightarrow> addr option" where
  "memchr m block ch' sz = do {
     ASSERT (block \<noteq> NULL \<or> sz = 0);
     memchr_loop m block (ucast ch') sz }"

function memset_loop :: "addr \<Rightarrow> u8 \<Rightarrow> size_t \<Rightarrow> memory \<Rightarrow> memory option" where
  "memset_loop dst v sz m =
     (if sz > 0 then
        (case wr dst v m of None \<Rightarrow> None | Some m \<Rightarrow> memset_loop (dst + 1) v (sz - 1) m)
      else Some m)"
  by pat_completeness auto
termination by (relation "measure (\<lambda>(a, c, n, m). unat n)") (auto simp: word_loop word_gt_0)

definition memset :: "addr \<Rightarrow> u32 \<Rightarrow> size_t \<Rightarrow> memory \<Rightarrow> (addr \<times> memory) option" where
  "memset dst val sz m = do {
     ASSERT (dst \<noteq> NULL \<or> sz = 0);
     m \<leftarrow> memset_loop dst (ucast val) sz m;
     Some (dst, m) }"

declare memcpy_loop.simps [simp del] memmove_up.simps [simp del] memmove_down.simps [simp del]
  memcmp_loop.simps [simp del] memchr_loop.simps [simp del] memset_loop.simps [simp del]

section \<open>Strings\<close>

partial_function (option) strlen_loop :: "memory \<Rightarrow> addr \<Rightarrow> addr option" where
  "strlen_loop m p = do {
     c \<leftarrow> rd m p;
     if c \<noteq> 0 then strlen_loop m (p + 1) else Some p }"

definition strlen :: "memory \<Rightarrow> addr \<Rightarrow> size_t option" where
  "strlen m string = do {
     ASSERT (string \<noteq> NULL);
     p \<leftarrow> strlen_loop m string;
     Some (p - string) }"

text \<open>\<open>strnlen\<close> reads the character before it compares the length with the limit.\<close>

partial_function (option) strnlen_loop :: "memory \<Rightarrow> addr \<Rightarrow> size_t \<Rightarrow> size_t \<Rightarrow> size_t option" where
  "strnlen_loop m string maxlen n = do {
     c \<leftarrow> rd m (string + n);
     if c \<noteq> 0 \<and> n < maxlen then strnlen_loop m string maxlen (n + 1) else Some n }"

definition strnlen :: "memory \<Rightarrow> addr \<Rightarrow> size_t \<Rightarrow> size_t option" where
  "strnlen m string maxlen = strnlen_loop m string maxlen 0"

text \<open>The result of \<open>strcmp\<close> is \<open>*a < *b ? -1 : *a > *b\<close>.\<close>

partial_function (option) strcmp_loop :: "memory \<Rightarrow> addr \<Rightarrow> addr \<Rightarrow> int option" where
  "strcmp_loop m a b = do {
     x \<leftarrow> rd m a;
     y \<leftarrow> rd m b;
     if x \<noteq> 0 \<and> x = y then strcmp_loop m (a + 1) (b + 1)
     else Some (if x < y then - 1 else if x > y then 1 else 0) }"

definition strcmp :: "memory \<Rightarrow> addr \<Rightarrow> addr \<Rightarrow> int option" where
  "strcmp m a b = do {
     ASSERT (a \<noteq> NULL);
     ASSERT (b \<noteq> NULL);
     strcmp_loop m a b }"

partial_function (option) strchr_loop :: "memory \<Rightarrow> addr \<Rightarrow> u8 \<Rightarrow> addr option" where
  "strchr_loop m string c = do {
     x \<leftarrow> rd m string;
     if x = c then Some string
     else if x = 0 then Some NULL
     else strchr_loop m (string + 1) c }"

definition strchr :: "memory \<Rightarrow> addr \<Rightarrow> u32 \<Rightarrow> addr option" where
  "strchr m string c' = do {
     ASSERT (string \<noteq> NULL);
     strchr_loop m string (ucast c') }"

partial_function (option) strcspn_loop :: "memory \<Rightarrow> addr \<Rightarrow> addr \<Rightarrow> size_t \<Rightarrow> size_t option" where
  "strcspn_loop m string stp n = do {
     c \<leftarrow> rd m (string + n);
     if c \<noteq> 0 then do {
       q \<leftarrow> strchr m stp (ucast c);
       if q \<noteq> NULL then Some n else strcspn_loop m string stp (n + 1) }
     else Some n }"

definition strcspn :: "memory \<Rightarrow> addr \<Rightarrow> addr \<Rightarrow> size_t option" where
  "strcspn m string stp = strcspn_loop m string stp 0"

partial_function (option) strspn_loop :: "memory \<Rightarrow> addr \<Rightarrow> addr \<Rightarrow> size_t \<Rightarrow> size_t option" where
  "strspn_loop m string skp n = do {
     c \<leftarrow> rd m (string + n);
     if c \<noteq> 0 then do {
       q \<leftarrow> strchr m skp (ucast c);
       if q = NULL then Some n else strspn_loop m string skp (n + 1) }
     else Some n }"

definition strspn :: "memory \<Rightarrow> addr \<Rightarrow> addr \<Rightarrow> size_t option" where
  "strspn m string skp = strspn_loop m string skp 0"

partial_function (option) strpbrk :: "memory \<Rightarrow> addr \<Rightarrow> addr \<Rightarrow> addr option" where
  "strpbrk m string stp = do {
     c \<leftarrow> rd m string;
     if c \<noteq> 0 then do {
       q \<leftarrow> strchr m stp (ucast c);
       if q \<noteq> NULL then Some string else strpbrk m (string + 1) stp }
     else Some NULL }"

partial_function (option) strrchr_loop :: "memory \<Rightarrow> addr \<Rightarrow> u8 \<Rightarrow> addr \<Rightarrow> addr option" where
  "strrchr_loop m string c p = do {
     x \<leftarrow> rd m string;
     if x \<noteq> 0 then strrchr_loop m (string + 1) c (if x = c then string else p)
     else Some p }"

definition strrchr :: "memory \<Rightarrow> addr \<Rightarrow> u32 \<Rightarrow> addr option" where
  "strrchr m string c' = strrchr_loop m string (ucast c') NULL"

text \<open>The loop of \<open>strstr\<close> over the positions \<open>i\<close> up to \<open>bound\<close>.\<close>

partial_function (option) strstr_loop ::
  "memory \<Rightarrow> addr \<Rightarrow> addr \<Rightarrow> size_t \<Rightarrow> size_t \<Rightarrow> size_t \<Rightarrow> addr option" where
  "strstr_loop m haystack needle needle_len bound i =
     (if i \<le> bound then do {
        r \<leftarrow> memcmp m (haystack + i) needle needle_len;
        if r = 0 then Some (haystack + i)
        else strstr_loop m haystack needle needle_len bound (i + 1) }
      else Some NULL)"

definition strstr :: "memory \<Rightarrow> addr \<Rightarrow> addr \<Rightarrow> addr option" where
  "strstr m haystack needle = do {
     haystack_len \<leftarrow> strlen m haystack;
     needle_len \<leftarrow> strlen m needle;
     if haystack_len \<ge> needle_len
     then strstr_loop m haystack needle needle_len (haystack_len - needle_len) 0
     else Some NULL }"

text \<open>
  \<open>strtok_r\<close>: \<open>saved\<close> is the value of \<open>*save_ptr\<close> before the call; the result is the token,
  the value of \<open>*save_ptr\<close> after the call, and the memory.  The loop over the delimiters
  returns the position and whether it is the end of the string.
\<close>

partial_function (option) strtok_skip :: "memory \<Rightarrow> addr \<Rightarrow> addr \<Rightarrow> (addr \<times> bool) option" where
  "strtok_skip m delimiters s = do {
     c \<leftarrow> rd m s;
     q \<leftarrow> strchr m delimiters (ucast c);
     if q \<noteq> NULL then (if c = 0 then Some (s, True) else strtok_skip m delimiters (s + 1))
     else Some (s, False) }"

partial_function (option) strtok_word :: "memory \<Rightarrow> addr \<Rightarrow> addr \<Rightarrow> addr option" where
  "strtok_word m delimiters s = do {
     c \<leftarrow> rd m s;
     q \<leftarrow> strchr m delimiters (ucast c);
     if q = NULL then strtok_word m delimiters (s + 1) else Some s }"

definition strtok_r :: "addr \<Rightarrow> addr \<Rightarrow> addr \<Rightarrow> memory \<Rightarrow> (addr \<times> addr \<times> memory) option" where
  "strtok_r s delimiters saved m = do {
     ASSERT (delimiters \<noteq> NULL);
     let s = (if s = NULL then saved else s);
     ASSERT (s \<noteq> NULL);
     (s, fin) \<leftarrow> strtok_skip m delimiters s;
     if fin then Some (NULL, s, m)
     else do {
       let token = s;
       s \<leftarrow> strtok_word m delimiters s;
       c \<leftarrow> rd m s;
       if c \<noteq> 0 then do { m \<leftarrow> wr s 0 m; Some (token, s + 1, m) }
       else Some (token, s, m) } }"

definition strlcpy :: "addr \<Rightarrow> addr \<Rightarrow> size_t \<Rightarrow> memory \<Rightarrow> (size_t \<times> memory) option" where
  "strlcpy dst src sz m = do {
     ASSERT (dst \<noteq> NULL);
     ASSERT (src \<noteq> NULL);
     src_len \<leftarrow> strlen m src;
     if sz > 0 then do {
       let dst_len = sz - 1;
       let dst_len = (if src_len < dst_len then src_len else dst_len);
       (_, m) \<leftarrow> memcpy dst src dst_len m;
       m \<leftarrow> wr (dst + dst_len) 0 m;
       Some (src_len, m) }
     else Some (src_len, m) }"

definition strlcat :: "addr \<Rightarrow> addr \<Rightarrow> size_t \<Rightarrow> memory \<Rightarrow> (size_t \<times> memory) option" where
  "strlcat dst src sz m = do {
     ASSERT (dst \<noteq> NULL);
     ASSERT (src \<noteq> NULL);
     src_len \<leftarrow> strlen m src;
     dst_len \<leftarrow> strlen m dst;
     if sz > 0 \<and> dst_len < sz then do {
       let copy_cnt = sz - dst_len - 1;
       let copy_cnt = (if src_len < copy_cnt then src_len else copy_cnt);
       (_, m) \<leftarrow> memcpy (dst + dst_len) src copy_cnt m;
       m \<leftarrow> wr (dst + dst_len + copy_cnt) 0 m;
       Some (src_len + dst_len, m) }
     else Some (src_len + dst_len, m) }"

declare strlen_loop.simps [code] strnlen_loop.simps [code] strcmp_loop.simps [code] strchr_loop.simps [code]
  strcspn_loop.simps [code] strspn_loop.simps [code] strpbrk.simps [code] strrchr_loop.simps [code]
  strstr_loop.simps [code] strtok_skip.simps [code] strtok_word.simps [code]

section \<open>Character classes\<close>

definition islower :: "int \<Rightarrow> bool" where "islower c = (c \<ge> 97 \<and> c \<le> 122)"
definition isupper :: "int \<Rightarrow> bool" where "isupper c = (c \<ge> 65 \<and> c \<le> 90)"
definition isalpha :: "int \<Rightarrow> bool" where "isalpha c = (islower c \<or> isupper c)"
definition isdigit :: "int \<Rightarrow> bool" where "isdigit c = (c \<ge> 48 \<and> c \<le> 57)"
definition isalnum :: "int \<Rightarrow> bool" where "isalnum c = (isalpha c \<or> isdigit c)"
definition isxdigit :: "int \<Rightarrow> bool" where
  "isxdigit c = (isdigit c \<or> (c \<ge> 97 \<and> c \<le> 102) \<or> (c \<ge> 65 \<and> c \<le> 70))"
definition isspace :: "int \<Rightarrow> bool" where
  "isspace c = (c = 32 \<or> c = 12 \<or> c = 10 \<or> c = 13 \<or> c = 9 \<or> c = 11)"
definition isblank :: "int \<Rightarrow> bool" where "isblank c = (c = 32 \<or> c = 9)"
definition isgraph :: "int \<Rightarrow> bool" where "isgraph c = (c > 32 \<and> c < 127)"
definition isprint :: "int \<Rightarrow> bool" where "isprint c = (c \<ge> 32 \<and> c < 127)"
definition iscntrl :: "int \<Rightarrow> bool" where "iscntrl c = ((c \<ge> 0 \<and> c < 32) \<or> c = 127)"
definition isascii :: "int \<Rightarrow> bool" where "isascii c = (c \<ge> 0 \<and> c < 128)"
definition ispunct :: "int \<Rightarrow> bool" where
  "ispunct c = (isprint c \<and> \<not> isalnum c \<and> \<not> isspace c)"
definition tolower :: "int \<Rightarrow> int" where "tolower c = (if isupper c then c - 65 + 97 else c)"
definition toupper :: "int \<Rightarrow> int" where "toupper c = (if islower c then c - 97 + 65 else c)"

end
