(* ===== verification/Kernel_String_Rep.thy ===== *)
theory Kernel_String_Rep
  imports Kernel_String
begin

text \<open>
  Lists of bytes in memory.  \<open>bytes_at m a xs\<close>: the bytes \<open>xs\<close> are at \<open>a\<close>, none of them at the
  null pointer, so that a block never wraps around the address space.  \<open>put m a xs\<close> is the
  memory with the bytes \<open>xs\<close> written at \<open>a\<close>.  \<open>cstr m a s\<close>: a terminated string.  The lemmas
  say what the loops of lib/string.c compute on such lists.
\<close>

section \<open>Blocks\<close>

primrec bytes_at :: "memory \<Rightarrow> addr \<Rightarrow> u8 list \<Rightarrow> bool" where
  "bytes_at m a [] = True"
| "bytes_at m a (x # xs) = (a \<noteq> 0 \<and> m a = Some x \<and> bytes_at m (a + 1) xs)"

primrec put :: "memory \<Rightarrow> addr \<Rightarrow> u8 list \<Rightarrow> memory" where
  "put m a [] = m"
| "put m a (x # xs) = put (m(a \<mapsto> x)) (a + 1) xs"

definition span :: "addr \<Rightarrow> nat \<Rightarrow> addr set" where
  "span a n = (\<lambda>i. a + of_nat i) ` {..<n}"

lemma span_0 [simp]: "span a 0 = {}"
  by (simp add: span_def)

lemma span_Suc: "span a (Suc n) = insert a (span (a + 1) n)"
proof -
  have "{..<Suc n} = insert 0 (Suc ` {..<n})" by (simp add: lessThan_Suc_eq_insert_0)
  then show ?thesis by (simp add: span_def image_image add.assoc)
qed

lemma span_add: "span a (m + n) = span a m \<union> span (a + of_nat m) n"
  by (induction m arbitrary: a) (simp_all add: span_Suc add.assoc)

lemma rd_bytes: "a \<noteq> 0 \<Longrightarrow> m a = Some x \<Longrightarrow> rd m a = Some x"
  by (simp add: rd_def)

lemma wr_bytes: "a \<noteq> 0 \<Longrightarrow> m a = Some x \<Longrightarrow> wr a v m = Some (m(a \<mapsto> v))"
  by (simp add: wr_def)

lemma bytes_at_append:
  "bytes_at m a (xs @ ys) \<longleftrightarrow> bytes_at m a xs \<and> bytes_at m (a + of_nat (length xs)) ys"
  by (induction xs arbitrary: a) (simp_all add: add.assoc)

lemma bytes_at_bound: "bytes_at m a xs \<Longrightarrow> xs \<noteq> [] \<Longrightarrow> unat a + length xs \<le> 2 ^ 32 \<and> a \<noteq> 0"
proof (induction xs arbitrary: a)
  case (Cons x xs)
  show ?case
  proof (cases xs)
    case Nil
    have "unat a < 2 ^ 32" using unsigned_less[of a] by simp
    then show ?thesis using Cons.prems Nil by simp
  next
    case (Cons y ys)
    then have "unat (a + 1) + length xs \<le> 2 ^ 32 \<and> a + 1 \<noteq> 0" using Cons.IH Cons.prems(1) by simp
    moreover from this have "unat (a + 1) = unat a + 1" by (simp add: unatSuc add.commute)
    ultimately show ?thesis using Cons.prems by simp
  qed
qed simp

lemma unat_addr_bound: "unat (a :: addr) < 2 ^ 32"
  using unsigned_less[of a] by simp

lemma unat_add_of_nat:
  assumes "unat (a :: addr) + n < 2 ^ 32"
  shows "unat (a + of_nat n) = unat a + n"
proof -
  have "unat (of_nat n :: addr) = n" using assms by (simp add: unat_of_nat)
  then show ?thesis using assms unat_add_lem[of a "of_nat n"] by simp
qed

lemma in_span_iff:
  assumes "unat a + n \<le> 2 ^ 32"
  shows "p \<in> span a n \<longleftrightarrow> unat a \<le> unat p \<and> unat p < unat a + n"
proof
  assume "p \<in> span a n"
  then obtain i where "i < n" "p = a + of_nat i" by (auto simp: span_def)
  then show "unat a \<le> unat p \<and> unat p < unat a + n"
    using unat_add_of_nat[of a i] assms by simp
next
  assume r: "unat a \<le> unat p \<and> unat p < unat a + n"
  let ?i = "unat p - unat a"
  have "unat (a + of_nat ?i) = unat p"
    using r unat_add_of_nat[of a ?i] unsigned_less[of p] by simp
  then have "p = a + of_nat ?i" by (metis word_unat_eq_iff)
  then show "p \<in> span a n" using r by (auto simp: span_def intro!: image_eqI[of _ _ ?i])
qed

lemma span_bytes: "bytes_at m a xs \<Longrightarrow> p \<in> span a (length xs) \<longleftrightarrow> unat a \<le> unat p \<and> unat p < unat a + length xs"
  using bytes_at_bound[of m a xs] in_span_iff[of a "length xs" p] by (cases xs) auto

lemma span_disjoint: "unat a + (n + k) \<le> 2 ^ 32 \<Longrightarrow> span a n \<inter> span (a + of_nat n) k = {}"
proof (cases "k = 0")
  case False
  assume b: "unat a + (n + k) \<le> 2 ^ 32"
  then have "unat (a + of_nat n) = unat a + n" using False by (intro unat_add_of_nat) simp
  then show ?thesis using in_span_iff[of a n] in_span_iff[of "a + of_nat n" k] b by auto
qed simp

lemma bytes_at_cong: "(\<And>p. p \<in> span a (length xs) \<Longrightarrow> m' p = m p) \<Longrightarrow> bytes_at m' a xs = bytes_at m a xs"
  by (induction xs arbitrary: a) (auto simp: span_Suc)

lemma bytes_at_upd [heap_simps]: "p \<notin> span a (length xs) \<Longrightarrow> bytes_at (m(p \<mapsto> v)) a xs = bytes_at m a xs"
  by (rule bytes_at_cong) auto

lemma put_other: "p \<notin> span a (length xs) \<Longrightarrow> put m a xs p = m p"
  by (induction xs arbitrary: a m) (auto simp: span_Suc)

lemma put_upd: "p \<notin> span a (length xs) \<Longrightarrow> put (m(p \<mapsto> v)) a xs = (put m a xs)(p \<mapsto> v)"
  by (induction xs arbitrary: a m) (simp_all add: span_Suc fun_upd_twist)

lemma put_append: "put m a (xs @ ys) = put (put m a xs) (a + of_nat (length xs)) ys"
  by (induction xs arbitrary: a m) (simp_all add: add.assoc)

lemma bytes_at_put_other:
  "span b (length ys) \<inter> span a (length xs) = {} \<Longrightarrow> bytes_at (put m a xs) b ys = bytes_at m b ys"
  by (rule bytes_at_cong) (blast intro: put_other)

lemma span_next_notin: "unat a + Suc n \<le> 2 ^ 32 \<Longrightarrow> a \<notin> span (a + 1) n"
proof
  assume b: "unat a + Suc n \<le> 2 ^ 32" and "a \<in> span (a + 1) n"
  then obtain i where i: "i < n" "a = a + of_nat (Suc i)" by (auto simp: span_def add.assoc)
  then show False using unat_add_of_nat[of a "Suc i"] b by simp
qed

lemma bytes_at_put_same:
  "xs \<noteq> [] \<Longrightarrow> a \<noteq> 0 \<Longrightarrow> unat a + length xs \<le> 2 ^ 32 \<Longrightarrow> bytes_at (put m a xs) a xs"
proof (induction xs arbitrary: a m)
  case (Cons x xs)
  have n: "a \<notin> span (a + 1) (length xs)" using span_next_notin Cons.prems by simp
  have rest: "bytes_at (put (m(a \<mapsto> x)) (a + 1) xs) (a + 1) xs"
  proof (cases xs)
    case (Cons y ys)
    have "unat (a + 1) = unat a + 1" using unat_add_of_nat[of a 1] Cons.prems Cons by simp
    moreover from this have "a + 1 \<noteq> 0" by auto
    ultimately show ?thesis using Cons.IH[of "a + 1"] Cons.prems Cons by simp
  qed simp
  then show ?case using Cons.prems n by (simp add: put_other)
qed simp

lemma put_same_bytes:
  assumes "bytes_at m a ys" "length ys = length xs"
  shows "bytes_at (put m a xs) a xs"
  using bytes_at_put_same[of xs a m] bytes_at_bound[OF assms(1)] assms(2) by (cases "xs = []"; cases "ys = []") auto

lemma dom_put: "bytes_at m a ys \<Longrightarrow> length ys = length xs \<Longrightarrow> dom (put m a xs) = dom m"
proof (induction xs arbitrary: ys a m)
  case (Cons x xs)
  then obtain y ys' where ys: "ys = y # ys'" by (cases ys) auto
  have "a \<notin> span (a + 1) (length ys')"
    using span_next_notin bytes_at_bound[of m a ys] Cons.prems ys by simp
  then have "bytes_at (m(a \<mapsto> x)) (a + 1) ys'" using Cons.prems ys by (simp add: heap_simps)
  then have "dom (put (m(a \<mapsto> x)) (a + 1) xs) = dom (m(a \<mapsto> x))" by (rule Cons.IH) (use Cons.prems ys in simp)
  also have "\<dots> = dom m" using Cons.prems ys by auto
  finally show ?case by simp
qed simp

text \<open>The head of a block and the rest of it.\<close>

lemma block_Cons:
  assumes "bytes_at m a (x # xs)"
  shows "a \<noteq> 0" "m a = Some x" "bytes_at m (a + 1) xs" "bytes_at (m(a \<mapsto> v)) (a + 1) xs"
    "a \<notin> span (a + 1) (length xs)"
proof -
  show n: "a \<notin> span (a + 1) (length xs)"
    using span_next_notin bytes_at_bound[OF assms] by simp
  show "a \<noteq> 0" "m a = Some x" "bytes_at m (a + 1) xs" using assms by simp_all
  then show "bytes_at (m(a \<mapsto> v)) (a + 1) xs" using n by (simp add: heap_simps)
qed

section \<open>Copying and comparing blocks\<close>

lemma block_nonnull: "bytes_at m a xs \<Longrightarrow> length xs = unat (n :: size_t) \<Longrightarrow> a \<noteq> NULL \<or> n = 0"
  using bytes_at_bound[of m a xs] by (cases "xs = []") (auto simp: unat_eq_zero)

lemma count_down: "Suc k = unat (n :: size_t) \<Longrightarrow> n \<noteq> 0 \<and> unat (n - 1) = k"
  using unat_minus_one[of n] by (cases "n = 0") auto

lemma memcpy_loop_eq:
  "bytes_at m src xs \<Longrightarrow> bytes_at m dst ys \<Longrightarrow> length xs = unat n \<Longrightarrow> length ys = unat n \<Longrightarrow>
   span dst (unat n) \<inter> span src (unat n) = {} \<Longrightarrow> memcpy_loop dst src n m = Some (put m dst xs)"
proof (induction xs arbitrary: ys m dst src n)
  case Nil
  then have "n = 0" by (simp add: unat_eq_zero)
  then show ?case by (simp add: memcpy_loop.simps)
next
  case (Cons x xs)
  obtain y ys' where ys: "ys = y # ys'" using Cons.prems(3,4) by (cases ys) auto
  have n: "n \<noteq> 0" "unat (n - 1) = length xs"
    using count_down[of "length xs" n] Cons.prems(3) by simp_all
  have "bytes_at m dst (y # ys')" using Cons.prems(2) ys by simp
  note dst = block_Cons[OF this]
  have len: "length ys' = unat (n - 1)" "length xs = unat (n - 1)" using Cons.prems(3,4) n ys by simp_all
  have disj: "dst \<notin> span (src + 1) (length xs)" "span (dst + 1) (length xs) \<inter> span (src + 1) (length xs) = {}"
    using Cons.prems(5) unfolding Cons.prems(3)[symmetric] by (auto simp: span_Suc)
  have "memcpy_loop (dst + 1) (src + 1) (n - 1) (m(dst \<mapsto> x)) = Some (put (m(dst \<mapsto> x)) (dst + 1) xs)"
  proof (rule Cons.IH[OF _ dst(4) len(2,1)])
    show "bytes_at (m(dst \<mapsto> x)) (src + 1) xs"
      using Cons.prems(1) by (simp add: bytes_at_upd[OF disj(1)] del: fun_upd_apply)
    show "span (dst + 1) (unat (n - 1)) \<inter> span (src + 1) (unat (n - 1)) = {}"
      using disj(2) len(2) by simp
  qed
  then show ?case
    using Cons.prems(1) dst(1,2) n(1)
    by (subst memcpy_loop.simps) (simp add: rd_def wr_def word_gt_0)
qed

lemma memmove_up_eq:
  "bytes_at m src xs \<Longrightarrow> bytes_at m dst ys \<Longrightarrow> length xs = unat n \<Longrightarrow> length ys = unat n \<Longrightarrow>
   unat dst < unat src \<Longrightarrow> memmove_up dst src n m = Some (dst + n, put m dst xs)"
proof (induction xs arbitrary: ys m dst src n)
  case Nil
  then have "n = 0" by (simp add: unat_eq_zero)
  then show ?case by (simp add: memmove_up.simps)
next
  case (Cons x xs)
  obtain y ys' where ys: "ys = y # ys'" using Cons.prems(3,4) by (cases ys) auto
  have n: "n \<noteq> 0" "unat (n - 1) = length xs"
    using count_down[of "length xs" n] Cons.prems(3) by simp_all
  have "bytes_at m dst (y # ys')" using Cons.prems(2) ys by simp
  note dst = block_Cons[OF this]
  have len: "length ys' = unat (n - 1)" "length xs = unat (n - 1)" using Cons.prems(3,4) n ys by simp_all
  have src: "bytes_at m (src + 1) xs" using Cons.prems(1) by simp
  have "memmove_up (dst + 1) (src + 1) (n - 1) (m(dst \<mapsto> x)) = Some (dst + 1 + (n - 1), put (m(dst \<mapsto> x)) (dst + 1) xs)"
  proof (cases "xs = []")
    case True
    then have "n - 1 = 0" using n(2) by (simp add: unat_eq_zero)
    then show ?thesis using True by (simp add: memmove_up.simps)
  next
    case False
    have b: "unat (src + 1) + length xs \<le> 2 ^ 32" "src + 1 \<noteq> 0" using bytes_at_bound[OF src False] by auto
    have s1: "unat (src + 1) = unat src + 1" using b(2) by (simp add: unatSuc add.commute)
    have d1: "unat (dst + 1) = unat dst + 1"
      using unat_add_of_nat[of dst 1] Cons.prems(5) unat_addr_bound[of src] by simp
    have "dst \<notin> span (src + 1) (length xs)" using in_span_iff[OF b(1), of dst] s1 Cons.prems(5) by simp
    then have "bytes_at (m(dst \<mapsto> x)) (src + 1) xs" using src by (simp add: bytes_at_upd)
    then show ?thesis by (rule Cons.IH[OF _ dst(4) len(2,1)]) (use s1 d1 Cons.prems(5) in simp)
  qed
  then show ?case
    using Cons.prems(1) dst(1,2) n(1)
    by (subst memmove_up.simps) (simp add: rd_def wr_def word_gt_0)
qed


lemma memmove_down_eq:
  "bytes_at m src xs \<Longrightarrow> bytes_at m dst ys \<Longrightarrow> length xs = unat n \<Longrightarrow> length ys = unat n \<Longrightarrow>
   unat src \<le> unat dst \<Longrightarrow> memmove_down (dst + n) (src + n) n m = Some (dst, put m dst xs)"
proof (induction xs arbitrary: ys m n rule: rev_induct)
  case Nil
  then have "n = 0" by (simp add: unat_eq_zero)
  then show ?case by (simp add: memmove_down.simps)
next
  case (snoc x xs)
  obtain ys' y where ys: "ys = ys' @ [y]" using snoc.prems(3,4) by (cases ys rule: rev_cases) auto
  have n: "n \<noteq> 0" "unat (n - 1) = length xs"
    using count_down[of "length xs" n] snoc.prems(3) by simp_all
  have len: "length ys' = unat (n - 1)" "length xs = unat (n - 1)" using snoc.prems(3,4) n ys by simp_all
  have nw: "of_nat (length xs) = n - 1" using n(2)[symmetric] by simp
  let ?s = "src + (n - 1)" and ?d = "dst + (n - 1)"
  have src: "bytes_at m src xs" "?s \<noteq> 0" "m ?s = Some x"
    using snoc.prems(1) nw by (simp_all add: bytes_at_append)
  have dst: "bytes_at m dst ys'" "?d \<noteq> 0" "m ?d = Some y"
    using snoc.prems(2) nw len ys by (simp_all add: bytes_at_append)
  have bd: "unat dst + Suc (length xs) \<le> 2 ^ 32"
    using bytes_at_bound[OF snoc.prems(2)] ys len by simp
  have "unat ?d = unat dst + length xs" using unat_add_of_nat[of dst "length xs"] bd nw by simp
  then have notin: "?d \<notin> span src (length xs)" "?d \<notin> span dst (length ys')"
    using span_bytes[OF src(1), of ?d] span_bytes[OF dst(1), of ?d] snoc.prems(5) len by auto
  have "memmove_down ?d ?s (n - 1) (m(?d \<mapsto> x)) = Some (dst, put (m(?d \<mapsto> x)) dst xs)"
    by (rule snoc.IH[OF _ _ len(2,1) snoc.prems(5)])
      (use src(1) dst(1) in \<open>simp_all add: bytes_at_upd[OF notin(1)] bytes_at_upd[OF notin(2)] del: fun_upd_apply\<close>)
  moreover have "put (m(?d \<mapsto> x)) dst xs = put m dst (xs @ [x])"
  proof -
    have "put (m(?d \<mapsto> x)) dst xs = (put m dst xs)(?d \<mapsto> x)"
      by (rule put_upd) (use notin(2) len in simp)
    then show ?thesis using nw by (simp add: put_append)
  qed
  moreover have e: "dst + n - 1 = ?d" "src + n - 1 = ?s" by simp_all
  ultimately show ?case
    unfolding memmove_down.simps[of "dst + n" "src + n" n m] e
    using src(2,3) dst(2,3) n(1) by (simp add: rd_def wr_def word_gt_0)
qed

text \<open>\<open>memmove\<close> copies the block as it was, whether or not the blocks overlap.\<close>

lemma memmove_eq:
  assumes "bytes_at m src xs" "bytes_at m dst ys" "length xs = unat n" "length ys = unat n"
  shows "memmove dst src n m = Some (if dst < src then dst + n else dst, put m dst xs)"
proof -
  note nn = block_nonnull[OF assms(2,4)] block_nonnull[OF assms(1,3)]
  show ?thesis
    using nn memmove_up_eq[OF assms] memmove_down_eq[OF assms]
    by (simp add: memmove_def word_less_nat_alt)
qed

lemma memcpy_eq:
  assumes "bytes_at m src xs" "bytes_at m dst ys" "length xs = unat n" "length ys = unat n"
    "span dst (unat n) \<inter> span src (unat n) = {}"
  shows "memcpy dst src n m = Some (dst, put m dst xs)"
proof -
  note nn = block_nonnull[OF assms(2,4)] block_nonnull[OF assms(1,3)]
  show ?thesis using nn memcpy_loop_eq[OF assms] by (simp add: memcpy_def)
qed

text \<open>The sign of the comparison of two lists of bytes at the first place where they differ.\<close>

fun byte_cmp :: "u8 list \<Rightarrow> u8 list \<Rightarrow> int" where
  "byte_cmp (x # xs) (y # ys) = (if x = y then byte_cmp xs ys else if x > y then 1 else - 1)"
| "byte_cmp [] (y # ys) = - 1"
| "byte_cmp (x # xs) [] = 1"
| "byte_cmp [] [] = 0"

abbreviation byte_less :: "u8 list \<Rightarrow> u8 list \<Rightarrow> bool" where
  "byte_less xs ys \<equiv> (xs, ys) \<in> lexord {(x, y). x < y}"

lemma byte_cmp_lexord:
  "(byte_cmp xs ys = 0 \<longleftrightarrow> xs = ys) \<and> (byte_cmp xs ys < 0 \<longleftrightarrow> byte_less xs ys) \<and>
   (byte_cmp xs ys > 0 \<longleftrightarrow> byte_less ys xs)"
  by (induction xs ys rule: byte_cmp.induct) auto

lemma memcmp_loop_eq:
  "bytes_at m a xs \<Longrightarrow> bytes_at m b ys \<Longrightarrow> length xs = unat n \<Longrightarrow> length ys = unat n \<Longrightarrow>
   memcmp_loop m a b n = Some (byte_cmp xs ys)"
proof (induction xs ys arbitrary: a b n rule: byte_cmp.induct)
  case (1 x xs y ys)
  have n: "n \<noteq> 0" "unat (n - 1) = length xs" using count_down[of "length xs" n] 1(4) by simp_all
  have "memcmp_loop m (a + 1) (b + 1) (n - 1) = Some (byte_cmp xs ys)" if "x = y"
    by (rule 1(1)[OF that]) (use 1(2-5) n in simp_all)
  then show ?case using 1(2,3) n(1) by (subst memcmp_loop.simps) (simp add: rd_def word_gt_0)
next
  case 4
  then have "n = 0" by (simp add: unat_eq_zero)
  then show ?case by (simp add: memcmp_loop.simps)
qed (simp_all)

lemma memcmp_eq:
  assumes "bytes_at m a xs" "bytes_at m b ys" "length xs = unat n" "length ys = unat n"
  shows "memcmp m a b n = Some (byte_cmp xs ys)"
proof -
  note nn = block_nonnull[OF assms(1,3)] block_nonnull[OF assms(2,4)]
  show ?thesis using nn memcmp_loop_eq[OF assms] by (simp add: memcmp_def)
qed

lemma memset_eq:
  "bytes_at m a ys \<Longrightarrow> length ys = unat n \<Longrightarrow> memset_loop a v n m = Some (put m a (replicate (unat n) v))"
proof (induction ys arbitrary: a n m)
  case Nil
  then have "n = 0" by (simp add: unat_eq_zero)
  then show ?case by (simp add: memset_loop.simps)
next
  case (Cons y ys)
  have n: "n \<noteq> 0" "unat (n - 1) = length ys" using count_down[of "length ys" n] Cons.prems(2) by simp_all
  note b = block_Cons[OF Cons.prems(1)]
  have "memset_loop (a + 1) v (n - 1) (m(a \<mapsto> v)) = Some (put (m(a \<mapsto> v)) (a + 1) (replicate (unat (n - 1)) v))"
    by (rule Cons.IH[OF b(4)]) (simp add: n)
  then show ?case
    using b(1,2) n Cons.prems(2)[symmetric]
    by (subst memset_loop.simps) (simp add: wr_def word_gt_0)
qed

section \<open>Strings\<close>

definition cstr :: "memory \<Rightarrow> addr \<Rightarrow> u8 list \<Rightarrow> bool" where
  "cstr m a s \<longleftrightarrow> bytes_at m a (s @ [0]) \<and> 0 \<notin> set s"

lemma cstr_Cons: "cstr m a (c # s) \<longleftrightarrow> a \<noteq> 0 \<and> m a = Some c \<and> c \<noteq> 0 \<and> cstr m (a + 1) s"
  by (auto simp: cstr_def)

lemma cstr_Nil: "cstr m a [] \<longleftrightarrow> a \<noteq> 0 \<and> m a = Some 0"
  by (simp add: cstr_def)

lemma cstr_bound: "cstr m a s \<Longrightarrow> unat a + length s < 2 ^ 32" "cstr m a s \<Longrightarrow> a \<noteq> 0"
  "cstr m a s \<Longrightarrow> unat (of_nat (length s) :: addr) = length s"
  using bytes_at_bound[of m a "s @ [0]"] by (auto simp: cstr_def unat_of_nat)

lemma cstr_drop: "cstr m a s \<Longrightarrow> i \<le> length s \<Longrightarrow> cstr m (a + of_nat i) (drop i s)"
  by (induction i arbitrary: a s) (auto simp: cstr_Cons Suc_le_length_iff simp flip: add.assoc)

lemma cstr_drop_ne: "cstr m a s \<Longrightarrow> i \<le> length s \<Longrightarrow> a + of_nat i \<noteq> 0"
  using cstr_bound(2)[OF cstr_drop] by blast

lemma strlen_loop_eq: "cstr m a s \<Longrightarrow> strlen_loop m a = Some (a + of_nat (length s))"
  by (induction s arbitrary: a) (simp_all add: strlen_loop.simps[of m] cstr_Cons cstr_Nil rd_def add.assoc)

lemma strlen_eq: "cstr m a s \<Longrightarrow> strlen m a = Some (of_nat (length s))"
  using strlen_loop_eq[of m a s] cstr_bound(2)[of m a s] by (simp add: strlen_def)

lemma strcmp_eq: "cstr m a s \<Longrightarrow> cstr m b t \<Longrightarrow> strcmp_loop m a b = Some (byte_cmp s t)"
proof (induction s t arbitrary: a b rule: byte_cmp.induct)
  case (1 x xs y ys)
  then show ?case by (subst strcmp_loop.simps) (auto simp: cstr_Cons rd_def)
qed (subst strcmp_loop.simps, auto simp: cstr_Cons cstr_Nil rd_def word_gt_0)+

lemma strchr_loop_eq:
  "cstr m a s \<Longrightarrow> strchr_loop m a c =
     Some (if c \<in> set s \<or> c = 0 then a + of_nat (length (takeWhile (\<lambda>x. x \<noteq> c) s)) else NULL)"
proof (induction s arbitrary: a)
  case Nil
  then show ?case by (subst strchr_loop.simps) (auto simp: cstr_Nil rd_def)
next
  case (Cons x s)
  then show ?case by (subst strchr_loop.simps) (auto simp: cstr_Cons rd_def add.assoc)
qed

lemma ucast_byte [simp]: "ucast (ucast (c :: u8) :: u32) = c"
  by (rule bit_eqI) (auto simp: bit_simps)

lemma strchr_eq:
  assumes "cstr m a s"
  shows "strchr m a (ucast c) =
     Some (if c \<in> set s \<or> c = 0 then a + of_nat (length (takeWhile (\<lambda>x. x \<noteq> c) s)) else NULL)"
  using strchr_loop_eq[OF assms, of c] cstr_bound(2)[OF assms] by (simp add: strchr_def)

text \<open>Whether a character is one of a set of characters.\<close>

lemma strchr_member:
  assumes "cstr m b t"
  obtains q where "strchr m b (ucast c) = Some q" "q = NULL \<longleftrightarrow> c \<notin> set t \<and> c \<noteq> 0"
proof -
  have "b + of_nat (length (takeWhile (\<lambda>x. x \<noteq> c) t)) \<noteq> 0"
    by (rule cstr_drop_ne[OF assms length_takeWhile_le])
  then show ?thesis using that strchr_eq[OF assms, of c] by simp
qed

lemma strcspn_loop_eq:
  "cstr m (a + n) s \<Longrightarrow> cstr m b t \<Longrightarrow>
   strcspn_loop m a b n = Some (n + of_nat (length (takeWhile (\<lambda>x. x \<notin> set t) s)))"
proof (induction s arbitrary: n)
  case Nil
  then show ?case by (subst strcspn_loop.simps) (simp add: cstr_Nil rd_def)
next
  case (Cons x s)
  obtain q where q: "strchr m b (ucast x) = Some q" "q = NULL \<longleftrightarrow> x \<notin> set t \<and> x \<noteq> 0"
    by (rule strchr_member[OF Cons.prems(2)])
  have "cstr m (a + (n + 1)) s" using Cons.prems(1) by (simp add: cstr_Cons add.assoc)
  from Cons.IH[OF this Cons.prems(2)] show ?case
    using Cons.prems(1) q by (subst strcspn_loop.simps) (auto simp: cstr_Cons rd_def)
qed

lemma strspn_loop_eq:
  "cstr m (a + n) s \<Longrightarrow> cstr m b t \<Longrightarrow>
   strspn_loop m a b n = Some (n + of_nat (length (takeWhile (\<lambda>x. x \<in> set t) s)))"
proof (induction s arbitrary: n)
  case Nil
  then show ?case by (subst strspn_loop.simps) (simp add: cstr_Nil rd_def)
next
  case (Cons x s)
  obtain q where q: "strchr m b (ucast x) = Some q" "q = NULL \<longleftrightarrow> x \<notin> set t \<and> x \<noteq> 0"
    by (rule strchr_member[OF Cons.prems(2)])
  have "cstr m (a + (n + 1)) s" using Cons.prems(1) by (simp add: cstr_Cons add.assoc)
  from Cons.IH[OF this Cons.prems(2)] show ?case
    using Cons.prems(1) q by (subst strspn_loop.simps) (auto simp: cstr_Cons rd_def)
qed

lemma strpbrk_eq:
  "cstr m a s \<Longrightarrow> cstr m b t \<Longrightarrow> strpbrk m a b = Some (if set s \<inter> set t = {} then NULL
     else a + of_nat (length (takeWhile (\<lambda>x. x \<notin> set t) s)))"
proof (induction s arbitrary: a)
  case Nil
  then show ?case by (subst strpbrk.simps) (simp add: cstr_Nil rd_def)
next
  case (Cons x s)
  obtain q where q: "strchr m b (ucast x) = Some q" "q = NULL \<longleftrightarrow> x \<notin> set t \<and> x \<noteq> 0"
    by (rule strchr_member[OF Cons.prems(2)])
  show ?case
    using Cons.IH[of "a + 1"] Cons.prems q by (subst strpbrk.simps) (auto simp: cstr_Cons rd_def add.assoc)
qed

lemma strrchr_loop_none: "cstr m a s \<Longrightarrow> c \<notin> set s \<Longrightarrow> strrchr_loop m a c p = Some p"
proof (induction s arbitrary: a)
  case Nil
  then show ?case by (subst strrchr_loop.simps) (simp add: cstr_Nil rd_def)
next
  case (Cons x s)
  then show ?case by (subst strrchr_loop.simps) (auto simp: cstr_Cons rd_def)
qed

lemma strrchr_loop_last:
  "cstr m a (u @ c # v) \<Longrightarrow> c \<notin> set v \<Longrightarrow> strrchr_loop m a c p = Some (a + of_nat (length u))"
proof (induction u arbitrary: a p)
  case Nil
  then show ?case
    using strrchr_loop_none[of m "a + 1" v c] by (subst strrchr_loop.simps) (auto simp: cstr_Cons rd_def)
next
  case (Cons x u)
  then show ?case by (subst strrchr_loop.simps) (auto simp: cstr_Cons rd_def add.assoc)
qed

lemma strnlen_loop_eq:
  "cstr m (a + n) s \<Longrightarrow> unat n + length s < 2 ^ 32 \<Longrightarrow> n \<le> maxlen \<Longrightarrow>
   strnlen_loop m a maxlen n = Some (if unat n + length s < unat maxlen then n + of_nat (length s) else maxlen)"
proof (induction s arbitrary: n)
  case Nil
  then show ?case by (subst strnlen_loop.simps) (auto simp: cstr_Nil rd_def word_le_nat_alt word_less_nat_alt
      intro: word_unat_eq_iff[THEN iffD2])
next
  case (Cons x s)
  have 1: "cstr m (a + (n + 1)) s" using Cons.prems(1) by (simp add: cstr_Cons add.assoc)
  have 2: "unat (n + 1) = unat n + 1" using unat_add_of_nat[of n 1] Cons.prems(2) by simp
  show ?case
    using Cons.IH[OF 1] Cons.prems 2 by (subst strnlen_loop.simps)
      (auto simp: cstr_Cons rd_def word_le_nat_alt word_less_nat_alt add.assoc intro: word_unat_eq_iff[THEN iffD2])
qed

section \<open>Searching for a string\<close>

lemma unat_size: "n < 2 ^ 32 \<Longrightarrow> unat (of_nat n :: size_t) = n"
  by (simp add: unat_of_nat)

lemma strstr_loop_eq:
  assumes h: "cstr m a s" and n: "cstr m b t" and l: "length t \<le> length s"
  shows "i \<le> length s - length t + 1 \<Longrightarrow>
     strstr_loop m a b (of_nat (length t)) (of_nat (length s - length t)) (of_nat i) =
     Some (case find (\<lambda>j. take (length t) (drop j s) = t) [i..<length s - length t + 1] of
        None \<Rightarrow> NULL | Some j \<Rightarrow> a + of_nat j)"
proof (induction "length s - length t + 1 - i" arbitrary: i)
  case 0
  let ?d = "length s - length t"
  have b: "unat a + length s < 2 ^ 32" "a \<noteq> 0" by (rule cstr_bound[OF h])+
  have "unat a > 0" using b(2) unat_gt_0 by blast
  then have "i < 2 ^ 32" "?d < 2 ^ 32" using b(1) 0(2) l by linarith+
  then have "unat (of_nat i :: size_t) = i" "unat (of_nat ?d :: size_t) = ?d"
    by (simp_all add: unat_of_nat)
  then show ?case using 0 by (subst strstr_loop.simps) (simp add: word_le_nat_alt)
next
  case (Suc k)
  let ?d = "length s - length t" and ?P = "\<lambda>j. take (length t) (drop j s) = t"
  have i: "i \<le> ?d" using Suc.hyps(2) by simp
  have b: "unat a + length s < 2 ^ 32" "a \<noteq> 0" by (rule cstr_bound[OF h])+
  have u: "unat (of_nat i :: size_t) = i" "unat (of_nat ?d :: size_t) = ?d"
    by (rule unat_size, use b(1) i in linarith)+
  have hb: "bytes_at m (a + of_nat i) (take (length t) (drop i s))"
    using cstr_drop[OF h, of i] i append_take_drop_id[of "length t" "drop i s"]
    by (metis bytes_at_append cstr_def diff_le_self le_trans)
  have nb: "bytes_at m b t" using n by (simp add: cstr_def bytes_at_append)
  have len: "length (take (length t) (drop i s)) = unat (of_nat (length t) :: size_t)"
    "length t = unat (of_nat (length t) :: size_t)"
    using cstr_bound(3)[OF n] i l by simp_all
  have cmp: "memcmp m (a + of_nat i) b (of_nat (length t)) = Some (byte_cmp (take (length t) (drop i s)) t)"
    by (rule memcmp_eq[OF hb nb len])
  have IH: "strstr_loop m a b (of_nat (length t)) (of_nat ?d) (of_nat i + 1) =
     Some (case find ?P [Suc i..<?d + 1] of None \<Rightarrow> NULL | Some j \<Rightarrow> a + of_nat j)"
    using Suc.hyps(1)[of "Suc i"] Suc.hyps(2) by (simp add: add.commute)
  have up: "[i..<?d + 1] = i # [Suc i..<?d + 1]" using i by (simp add: upt_conv_Cons)
  show ?case
    unfolding up
    using i u cmp IH byte_cmp_lexord[of "take (length t) (drop i s)" t]
    by (subst strstr_loop.simps) (auto simp: word_le_nat_alt)
qed

text \<open>The first occurrence of \<open>t\<close> in \<open>s\<close>.\<close>

definition first_occurrence :: "'a list \<Rightarrow> 'a list \<Rightarrow> nat option" where
  "first_occurrence t s =
     (if length t \<le> length s then find (\<lambda>j. take (length t) (drop j s) = t) [0..<length s - length t + 1] else None)"

lemma strstr_eq:
  assumes "cstr m a s" "cstr m b t"
  shows "strstr m a b = Some (case first_occurrence t s of None \<Rightarrow> NULL | Some j \<Rightarrow> a + of_nat j)"
proof -
  have u: "unat (of_nat (length s) :: size_t) = length s" "unat (of_nat (length t) :: size_t) = length t"
    by (rule cstr_bound(3), rule assms)+
  show ?thesis
    using strstr_loop_eq[OF assms, of 0] u strlen_eq[OF assms(1)] strlen_eq[OF assms(2)]
    by (simp add: strstr_def first_occurrence_def word_le_nat_alt of_nat_diff)
qed

section \<open>Bounded copies\<close>

text \<open>
  A string of \<open>k\<close> characters and its terminator written into a buffer \<open>ys\<close>, as \<open>strlcpy\<close> and
  \<open>strlcat\<close> do it.
\<close>

lemma copy_terminated:
  assumes src: "bytes_at m src xs" and dst: "bytes_at m dst ys" and len: "length xs = unat k" "unat k < length ys"
    and disj: "span dst (unat k) \<inter> span src (unat k) = {}"
  shows "\<exists>m'. memcpy dst src k m = Some (dst, m') \<and> wr (dst + k) 0 m' = Some (put m dst (xs @ [0]))"
proof -
  have ys: "ys = take (unat k) ys @ ys ! unat k # drop (Suc (unat k)) ys" using len(2) by (rule id_take_nth_drop)
  have d: "bytes_at m dst (take (unat k) ys)" "bytes_at m (dst + k) (ys ! unat k # drop (Suc (unat k)) ys)"
    using dst len(2) by (subst (asm) ys, simp add: bytes_at_append)+
  have cp: "memcpy dst src k m = Some (dst, put m dst xs)"
    by (rule memcpy_eq[OF src d(1) len(1) _ disj]) (use len in simp)
  have "unat dst + unat k < 2 ^ 32" using bytes_at_bound[OF dst] len by fastforce
  then have "unat (dst + k) = unat dst + unat k" using unat_add_of_nat[of dst "unat k"] by simp
  then have "dst + k \<notin> span dst (length xs)"
    using span_bytes[OF d(1), of "dst + k"] len by simp
  then have "put m dst xs (dst + k) = Some (ys ! unat k)" using d(2) by (simp add: put_other)
  then show ?thesis using cp d(2) len(1) by (simp add: wr_def put_append)
qed

lemma strlcpy_eq:
  assumes src: "cstr m src s" and dst: "bytes_at m dst ys" "length ys = unat n" "n \<noteq> 0"
    and disj: "span dst (unat n) \<inter> span src (length s + 1) = {}"
  shows "strlcpy dst src n m = Some (of_nat (length s), put m dst (take (unat n - 1) s @ [0]))"
proof -
  let ?l = "of_nat (length s) :: size_t"
  let ?k = "if ?l < n - 1 then ?l else n - 1"
  have l: "unat ?l = length s" by (rule cstr_bound(3)[OF src])
  have n1: "unat (n - 1) = unat n - 1" "0 < unat n" using dst(3) by (simp_all add: unat_minus_one unat_gt_0)
  have k: "unat ?k = min (length s) (unat n - 1)" using l n1 by (simp add: word_less_nat_alt min_def)
  have xs: "take (unat n - 1) s = take (unat ?k) s" unfolding k by (simp add: min_def)
  have len: "length (take (unat ?k) s) = unat ?k" unfolding k by simp
  have src': "bytes_at m src (take (unat ?k) s)"
    using src append_take_drop_id[of "unat ?k" s] by (metis bytes_at_append cstr_def)
  have sub: "span dst (unat ?k) \<subseteq> span dst (unat n)" "span src (unat ?k) \<subseteq> span src (length s + 1)"
    unfolding k by (auto simp: span_def)
  have "span dst (unat ?k) \<inter> span src (unat ?k) = {}" using disj sub by blast
  moreover have "unat ?k < length ys" unfolding k dst(2) using n1 by simp
  ultimately obtain m' where m': "memcpy dst src ?k m = Some (dst, m')"
    "wr (dst + ?k) 0 m' = Some (put m dst (take (unat ?k) s @ [0]))"
    using copy_terminated[OF src' dst(1) len] by blast
  have "dst \<noteq> NULL" using block_nonnull[OF dst(1,2)] dst(3) by simp
  then show ?thesis
    unfolding xs using m' strlen_eq[OF src] cstr_bound(2)[OF src] dst(3)
    by (simp add: strlcpy_def word_gt_0 Let_def del: put.simps)
qed

lemma strlcat_eq:
  assumes src: "cstr m src s" and dst: "bytes_at m dst (d @ 0 # ys)" "0 \<notin> set d"
    and n: "length (d @ 0 # ys) = unat n"
    and disj: "span dst (unat n) \<inter> span src (length s + 1) = {}"
  shows "strlcat dst src n m =
     Some (of_nat (length s) + of_nat (length d), put m (dst + of_nat (length d)) (take (unat n - length d - 1) s @ [0]))"
proof -
  let ?s = "of_nat (length s) :: size_t" and ?d = "of_nat (length d) :: size_t"
  let ?k = "if ?s < n - ?d - 1 then ?s else n - ?d - 1"
  have cd: "cstr m dst d" using dst by (simp add: cstr_def bytes_at_append)
  have u: "unat ?s = length s" "unat ?d = length d" by (rule cstr_bound(3), rule src cd)+
  have lt: "length d < unat n" using n by simp
  have nd: "unat (n - ?d - 1) = unat n - length d - 1"
  proof -
    have "unat (n - ?d) = unat n - length d" using u(2) lt by (simp add: unat_sub word_le_nat_alt)
    moreover from this have "n - ?d \<noteq> 0" using lt by auto
    ultimately show ?thesis using unat_minus_one[of "n - ?d"] by simp
  qed
  have k: "unat ?k = min (length s) (unat n - length d - 1)" using u nd by (simp add: word_less_nat_alt min_def)
  have xs: "take (unat n - length d - 1) s = take (unat ?k) s" unfolding k by (simp add: min_def)
  have len: "length (take (unat ?k) s) = unat ?k" unfolding k by simp
  have src': "bytes_at m src (take (unat ?k) s)"
    using src append_take_drop_id[of "unat ?k" s] by (metis bytes_at_append cstr_def)
  have dst': "bytes_at m (dst + ?d) (0 # ys)" using dst by (simp add: bytes_at_append)
  have kl: "unat ?k < length (0 # ys)" unfolding k using n by simp
  have "unat n = length d + (1 + length ys)" using n by simp
  then have "span (dst + ?d) (1 + length ys) \<subseteq> span dst (unat n)" using span_add[of dst "length d" "1 + length ys"] by simp
  moreover have "span (dst + ?d) (unat ?k) \<subseteq> span (dst + ?d) (1 + length ys)" using kl by (auto simp: span_def)
  moreover have "span src (unat ?k) \<subseteq> span src (length s + 1)" unfolding k by (auto simp: span_def)
  ultimately have "span (dst + ?d) (unat ?k) \<inter> span src (unat ?k) = {}" using disj by blast
  then obtain m' where m': "memcpy (dst + ?d) src ?k m = Some (dst + ?d, m')"
    "wr (dst + ?d + ?k) 0 m' = Some (put m (dst + ?d) (take (unat ?k) s @ [0]))"
    using copy_terminated[OF src' dst' len kl] by blast
  have "?d < n" "0 < n" using u(2) lt by (simp_all add: word_less_nat_alt)
  then show ?thesis
    unfolding xs using m' strlen_eq[OF src] strlen_eq[OF cd] cstr_bound(2)[OF src] cstr_bound(2)[OF cd]
    by (simp add: strlcat_def Let_def del: put.simps)
qed

section \<open>Tokens\<close>

lemma strtok_skip_eq:
  "cstr m a s \<Longrightarrow> cstr m b t \<Longrightarrow> strtok_skip m b a =
     Some (a + of_nat (length (takeWhile (\<lambda>x. x \<in> set t) s)), dropWhile (\<lambda>x. x \<in> set t) s = [])"
proof (induction s arbitrary: a)
  case Nil
  obtain q where q: "strchr m b (ucast (0 :: u8)) = Some q" "q = NULL \<longleftrightarrow> (0 :: u8) \<notin> set t \<and> (0 :: u8) \<noteq> 0"
    by (rule strchr_member[OF Nil(2)])
  then show ?case using Nil by (subst strtok_skip.simps) (simp add: cstr_Nil rd_def)
next
  case (Cons x s)
  obtain q where q: "strchr m b (ucast x) = Some q" "q = NULL \<longleftrightarrow> x \<notin> set t \<and> x \<noteq> 0"
    by (rule strchr_member[OF Cons.prems(2)])
  show ?case
    using Cons.IH[of "a + 1"] Cons.prems q by (subst strtok_skip.simps) (auto simp: cstr_Cons rd_def add.assoc)
qed

lemma strtok_word_eq:
  "cstr m a s \<Longrightarrow> cstr m b t \<Longrightarrow> strtok_word m b a = Some (a + of_nat (length (takeWhile (\<lambda>x. x \<notin> set t) s)))"
proof (induction s arbitrary: a)
  case Nil
  obtain q where q: "strchr m b (ucast (0 :: u8)) = Some q" "q = NULL \<longleftrightarrow> (0 :: u8) \<notin> set t \<and> (0 :: u8) \<noteq> 0"
    by (rule strchr_member[OF Nil(2)])
  then show ?case using Nil by (subst strtok_word.simps) (simp add: cstr_Nil rd_def)
next
  case (Cons x s)
  obtain q where q: "strchr m b (ucast x) = Some q" "q = NULL \<longleftrightarrow> x \<notin> set t \<and> x \<noteq> 0"
    by (rule strchr_member[OF Cons.prems(2)])
  show ?case
    using Cons.IH[of "a + 1"] Cons.prems q by (subst strtok_word.simps) (auto simp: cstr_Cons rd_def add.assoc)
qed

text \<open>
  One call of \<open>strtok_r\<close> on the string \<open>s\<close> at \<open>a\<close>, given as the pointer or as the saved
  position: it skips delimiters, cuts off the token and saves where the rest begins.
\<close>

lemma strtok_r_end:
  assumes "cstr m a s" "cstr m b t" "p = a \<or> p = NULL \<and> saved = a"
    "dropWhile (\<lambda>x. x \<in> set t) s = []"
  shows "strtok_r p b saved m = Some (NULL, a + of_nat (length s), m)"
proof -
  have "takeWhile (\<lambda>x. x \<in> set t) s = s" using assms(4) by (simp add: dropWhile_eq_Nil_conv takeWhile_eq_all_conv)
  from strtok_skip_eq[OF assms(1,2), unfolded this assms(4)] show ?thesis
    using assms(3) cstr_bound(2)[OF assms(1)] cstr_bound(2)[OF assms(2)]
    by (auto simp: strtok_r_def Let_def)
qed

lemma strtok_r_token:
  assumes s: "cstr m a (u @ w @ v)" and t: "cstr m b t" and p: "p = a \<or> p = NULL \<and> saved = a"
    and u: "set u \<subseteq> set t" and w: "w \<noteq> []" "set w \<inter> set t = {}" and v: "v = [] \<or> hd v \<in> set t"
  shows "strtok_r p b saved m = Some (a + of_nat (length u),
     (if v = [] then a + of_nat (length (u @ w)) else a + of_nat (length (u @ w)) + 1),
     (if v = [] then m else m(a + of_nat (length (u @ w)) \<mapsto> 0)))"
proof -
  let ?A = "a + of_nat (length u)" and ?B = "a + of_nat (length (u @ w))"
  obtain x w' where w': "w = x # w'" "x \<notin> set t" using w by (cases w) auto
  have tk: "takeWhile (\<lambda>x. x \<in> set t) (u @ w @ v) = u" "dropWhile (\<lambda>x. x \<in> set t) (u @ w @ v) \<noteq> []"
    using u w' by (auto simp: takeWhile_append2 dropWhile_append2 subset_iff)
  have "cstr m ?A (w @ v)" using cstr_drop[OF s, of "length u"] by simp
  moreover have "takeWhile (\<lambda>x. x \<notin> set t) (w @ v) = w"
  proof -
    have "\<forall>x \<in> set w. x \<notin> set t" using w(2) by auto
    then show ?thesis using v by (cases v) (simp_all add: takeWhile_append2)
  qed
  ultimately have wd: "strtok_word m b ?A = Some ?B"
    using strtok_word_eq[of m ?A "w @ v", OF _ t] by (simp add: add.assoc)
  have B: "cstr m ?B v" using cstr_drop[OF s, of "length (u @ w)"] by simp
  have rdB: "rd m ?B = Some (if v = [] then 0 else hd v)" "v \<noteq> [] \<Longrightarrow> hd v \<noteq> 0" "?B \<noteq> 0"
    using B cstr_bound(2)[OF B] by (cases v; simp add: cstr_Nil cstr_Cons rd_def)+
  then have wrB: "wr ?B 0 m = Some (m(?B \<mapsto> 0))" by (auto simp: wr_def rd_def)
  show ?thesis
    using p strtok_skip_eq[OF s t] tk wd rdB wrB cstr_bound(2)[OF s] cstr_bound(2)[OF t]
    by (auto simp: strtok_r_def Let_def)
qed

end
