(* ===== verification/Kernel_String_Spec.thy ===== *)
theory Kernel_String_Spec
  imports Kernel_String_Rep
begin

text \<open>
  What the memory and string functions promise, on a small memory with concrete blocks and
  strings: \<open>ex_memory xs\<close> has the bytes \<open>xs\<close> from address \<open>0x1000\<close> on.
\<close>

section \<open>Tokens of a string\<close>

function tokens :: "'a set \<Rightarrow> 'a list \<Rightarrow> 'a list list" where
  "tokens D s = (let r = dropWhile (\<lambda>x. x \<in> D) s in
     if r = [] then [] else takeWhile (\<lambda>x. x \<notin> D) r # tokens D (dropWhile (\<lambda>x. x \<notin> D) r))"
  by pat_completeness auto
termination
proof (relation "measure (\<lambda>(D, s). length s)", goal_cases)
  case (2 D s r)
  then have "hd r \<notin> D" using hd_dropWhile[of "\<lambda>x. x \<in> D" s] by simp
  then obtain x xs where r: "r = x # xs" "x \<notin> D" using 2(2) by (cases r) simp_all
  then have "length (dropWhile (\<lambda>x. x \<notin> D) r) \<le> length xs" by (simp add: length_dropWhile_le)
  moreover have "length r \<le> length s" using 2(1) by (simp add: length_dropWhile_le)
  ultimately show ?case using r by simp
qed simp

declare tokens.simps [simp del]

lemma tokens_delimiter: "x \<in> D \<Longrightarrow> tokens D (x # s) = tokens D s"
  by (simp add: tokens.simps)

lemma tokens_word:
  assumes "set u \<subseteq> D" "w \<noteq> []" "set w \<inter> D = {}" "v = [] \<or> hd v \<in> D"
  shows "tokens D (u @ w @ v) = w # tokens D v"
proof -
  have u: "dropWhile (\<lambda>x. x \<in> D) (u @ w @ v) = w @ v"
    using assms by (cases w) (auto simp: dropWhile_append2 subset_iff)
  have w: "\<forall>x \<in> set w. x \<notin> D" using assms(3) by auto
  have "takeWhile (\<lambda>x. x \<notin> D) (w @ v) = w" "dropWhile (\<lambda>x. x \<notin> D) (w @ v) = v"
    using w assms(4) by (cases v; simp add: takeWhile_append2 dropWhile_append2)+
  then show ?thesis using assms(2) by (subst tokens.simps) (simp add: u)
qed

text \<open>Every string that is not all delimiters starts with delimiters and a word.\<close>

lemma split_word:
  assumes "dropWhile (\<lambda>x. x \<in> D) s \<noteq> []"
  obtains u w v where "s = u @ w @ v" "set u \<subseteq> D" "w \<noteq> []" "set w \<inter> D = {}" "v = [] \<or> hd v \<in> D"
proof
  let ?r = "dropWhile (\<lambda>x. x \<in> D) s"
  show "s = takeWhile (\<lambda>x. x \<in> D) s @ takeWhile (\<lambda>x. x \<notin> D) ?r @ dropWhile (\<lambda>x. x \<notin> D) ?r" by simp
  show "set (takeWhile (\<lambda>x. x \<in> D) s) \<subseteq> D" by (auto dest: set_takeWhileD)
  show "takeWhile (\<lambda>x. x \<notin> D) ?r \<noteq> []" using assms hd_dropWhile[OF assms] by (cases ?r) auto
  show "set (takeWhile (\<lambda>x. x \<notin> D) ?r) \<inter> D = {}" by (auto dest: set_takeWhileD)
  show "dropWhile (\<lambda>x. x \<notin> D) ?r = [] \<or> hd (dropWhile (\<lambda>x. x \<notin> D) ?r) \<in> D"
    using hd_dropWhile[of "\<lambda>x. x \<notin> D" ?r] by auto
qed

text \<open>
  The loop that the comment on \<open>strtok_r\<close> shows: \<open>for (token = strtok_r (s, d, &save_ptr);
  token != NULL; token = strtok_r (NULL, d, &save_ptr))\<close>, with at most \<open>n\<close> rounds.
\<close>

fun tokenize :: "nat \<Rightarrow> addr \<Rightarrow> addr \<Rightarrow> addr \<Rightarrow> memory \<Rightarrow> (addr list \<times> memory) option" where
  "tokenize 0 s d saved m = None"
| "tokenize (Suc n) s d saved m =
     (case strtok_r s d saved m of None \<Rightarrow> None
      | Some (token, saved, m) \<Rightarrow>
          if token = NULL then Some ([], m)
          else map_option (\<lambda>(ps, m). (token # ps, m)) (tokenize n NULL d saved m))"

lemma cstr_cong: "(\<And>p. p \<in> span a (length s + 1) \<Longrightarrow> m' p = m p) \<Longrightarrow> cstr m' a s = cstr m a s"
  using bytes_at_cong[of a "s @ [0]" m' m] by (simp add: cstr_def)

lemma cstr_cut:
  assumes "cstr m a (w @ v)" "v \<noteq> []"
  shows "cstr (m(a + of_nat (length w) \<mapsto> 0)) a w" "cstr (m(a + of_nat (length w) \<mapsto> 0)) (a + of_nat (length w) + 1) (tl v)"
proof -
  let ?b = "a + of_nat (length w)"
  have w: "bytes_at m a w" "cstr m ?b v" "0 \<notin> set w"
    using assms(1) cstr_drop[OF assms(1), of "length w"] by (auto simp: cstr_def bytes_at_append)
  obtain x v' where v: "v = x # v'" using assms(2) by (cases v) auto
  have "unat ?b = unat a + length w" using unat_add_of_nat[of a "length w"] cstr_bound(1)[OF assms(1)] by simp
  then have "?b \<notin> span a (length w)" using span_bytes[OF w(1)] by simp
  then show "cstr (m(?b \<mapsto> 0)) a w"
    using w cstr_bound(2)[OF w(2)] by (simp add: cstr_def bytes_at_append bytes_at_upd)
  have "bytes_at m ?b (x # v' @ [0])" using w(2) v by (simp add: cstr_def)
  note block_Cons(4)[OF this, of 0]
  then show "cstr (m(?b \<mapsto> 0)) (?b + 1) (tl v)" using w(2) v by (simp add: cstr_def)
qed

lemma tokenize_eq:
  "cstr m a s \<Longrightarrow> cstr m b t \<Longrightarrow> span a (length s) \<inter> span b (length t + 1) = {} \<Longrightarrow> length s < n \<Longrightarrow>
   p = a \<or> p = NULL \<and> saved = a \<Longrightarrow>
   \<exists>ps m'. tokenize n p b saved m = Some (ps, m') \<and> list_all2 (cstr m') ps (tokens (set t) s) \<and>
     (\<forall>q. q \<notin> span a (length s) \<longrightarrow> m' q = m q)"
proof (induction "length s" arbitrary: m a s n p saved rule: less_induct)
  case less
  obtain n' where n: "n = Suc n'" using less.prems(4) by (cases n) auto
  show ?case
  proof (cases "dropWhile (\<lambda>x. x \<in> set t) s = []")
    case True
    then have "tokens (set t) s = []" by (simp add: tokens.simps)
    then show ?thesis using strtok_r_end[OF less.prems(1,2,5) True] n by simp
  next
    case False
    then obtain u w v where s: "s = u @ w @ v" and u: "set u \<subseteq> set t" and w: "w \<noteq> []" "set w \<inter> set t = {}"
      and v: "v = [] \<or> hd v \<in> set t" by (rule split_word)
    let ?A = "a + of_nat (length u)" and ?B = "a + of_nat (length (u @ w))"
    have tok: "tokens (set t) s = w # tokens (set t) (if v = [] then [] else tl v)"
      using tokens_word[OF u w v] tokens_delimiter[of "hd v" "set t" "tl v"] v s by (cases v) auto
    define m1 where "m1 = (if v = [] then m else m(?B \<mapsto> 0))"
    define a1 where "a1 = (if v = [] then ?B else ?B + 1)"
    define s1 where "s1 = (if v = [] then [] else tl v)"
    have call: "strtok_r p b saved m = Some (?A, a1, m1)"
      using strtok_r_token[OF less.prems(1)[unfolded s] less.prems(2,5) u w v] unfolding m1_def a1_def .
    have A: "cstr m ?A (w @ v)" using cstr_drop[OF less.prems(1), of "length u"] s by simp
    have AB: "?A + of_nat (length w) = ?B" by (simp add: add.assoc)
    have cut: "cstr m1 ?A w" "cstr m1 a1 s1"
      using A cstr_cut[OF A] cstr_drop[OF A, of "length w"] unfolding AB m1_def a1_def s1_def by (cases v; simp)+
    have len: "length s1 < length s" using w s by (cases v) (auto simp: s1_def)
    have sp: "span a (length s) = span a (length u) \<union> (span ?A (length w) \<union> span ?B (length v))"
      using span_add[of a "length u" "length w + length v"] span_add[of ?A "length w" "length v"] s AB by simp
    have sub: "span a1 (length s1) \<subseteq> span a (length s)" "v \<noteq> [] \<Longrightarrow> ?B \<in> span a (length s)"
      using sp by (cases v; auto simp: a1_def s1_def span_Suc)+
    have m1: "m1 q = m q" if "q \<notin> span a (length s)" for q
      using that sub(2) by (auto simp: m1_def)
    have t1: "cstr m1 b t"
      using less.prems(2,3) m1 cstr_cong[of b t m1 m] by auto
    have "span a1 (length s1) \<inter> span b (length t + 1) = {}" "length s1 < n'"
      using sub(1) less.prems(3,4) len n by auto
    from less.hyps[OF len cut(2) t1 this, of NULL a1] obtain ps m' where
      IH: "tokenize n' NULL b a1 m1 = Some (ps, m')" "list_all2 (cstr m') ps (tokens (set t) s1)"
        "\<forall>q. q \<notin> span a1 (length s1) \<longrightarrow> m' q = m1 q" by auto
    have "span ?A (length w + 1) \<inter> span a1 (length s1) = {}"
    proof (cases v)
      case (Cons x v')
      have "unat ?A + ((length w + 1) + length v') \<le> 2 ^ 32"
        using cstr_bound(1)[OF A] Cons by simp
      from span_disjoint[OF this] show ?thesis
        using Cons AB by (simp add: a1_def s1_def add.assoc add.commute[of 1])
    qed (simp add: s1_def)
    then have "cstr m' ?A w" using cstr_cong[of ?A w m' m1] IH(3) cut(1) by blast
    moreover have "\<forall>q. q \<notin> span a (length s) \<longrightarrow> m' q = m q" using IH(3) m1 sub(1) by auto
    moreover have "tokens (set t) s = w # tokens (set t) s1" using tok by (simp add: s1_def)
    ultimately show ?thesis
      using call IH(1,2) cstr_bound(2)[OF A] n by (intro exI[of _ "?A # ps"] exI[of _ m']) simp
  qed
qed

section \<open>A concrete memory\<close>

definition ex_memory :: "u8 list \<Rightarrow> memory" where
  "ex_memory xs = (\<lambda>a. if 0x1000 \<le> a \<and> unat (a - 0x1000) < length xs then Some (xs ! unat (a - 0x1000)) else None)"

lemma ex_memory_at:
  assumes "length pre + length xs + length post \<le> 0x1000"
  shows "bytes_at (ex_memory (pre @ xs @ post)) (0x1000 + of_nat (length pre)) xs"
  using assms
proof (induction xs arbitrary: pre)
  case (Cons x xs)
  let ?a = "0x1000 + of_nat (length pre) :: addr"
  have l: "length pre < 2 ^ 32" using Cons.prems by simp
  then have u: "unat (of_nat (length pre) :: addr) = length pre" by (rule unat_size)
  have "unat ?a = 0x1000 + length pre" using unat_add_of_nat[of "0x1000" "length pre"] Cons.prems by simp
  moreover from this have "?a \<noteq> 0" by auto
  ultimately have "ex_memory (pre @ (x # xs) @ post) ?a = Some x" "?a \<noteq> 0"
    using u by (simp_all add: ex_memory_def word_le_nat_alt)
  moreover have "bytes_at (ex_memory ((pre @ [x]) @ xs @ post)) (0x1000 + of_nat (length (pre @ [x]))) xs"
    by (rule Cons.IH) (use Cons.prems in simp)
  ultimately show ?case by (simp add: add.assoc add.commute[of 1])
qed simp

section \<open>Properties\<close>

text \<open>C35: \<open>memmove\<close> leaves at the destination the block that was at the source before the call,
  however the two blocks overlap, and changes no byte outside the destination.  It returns the
  destination, or, when the destination lies before the source, the address after its end.\<close>

theorem memmove_copies:
  assumes "bytes_at m src xs" "bytes_at m dst ys" "length xs = unat n" "length ys = unat n"
  shows "\<exists>m'. memmove dst src n m = Some (if dst < src then dst + n else dst, m') \<and>
     bytes_at m' dst xs \<and> dom m' = dom m \<and> (\<forall>p. p \<notin> span dst (unat n) \<longrightarrow> m' p = m p)"
  using memmove_eq[OF assms] put_same_bytes[OF assms(2), of xs] put_other[of _ dst xs m]
    dom_put[OF assms(2), of xs] assms(3,4)
  by auto

theorem memmove_copies_witness:
  "\<exists>m'. memmove 0x1001 0x1000 3 (ex_memory [1, 2, 3, 4]) = Some (0x1001, m') \<and> bytes_at m' 0x1001 [1, 2, 3]"
  using memmove_copies[of "ex_memory [1, 2, 3, 4]" "0x1000" "[1, 2, 3]" "0x1001" "[2, 3, 4]" 3]
    ex_memory_at[of "[]" "[1, 2, 3]" "[4]"] ex_memory_at[of "[1]" "[2, 3, 4]" "[]"]
  by auto

text \<open>\<open>strcmp\<close> is the lexicographic comparison of strings of unsigned characters: zero for
  equal strings, negative when the first comes first, positive when the second does.\<close>

lemma strcmp_lexicographic:
  assumes "cstr m a s" "cstr m b t"
  shows "\<exists>r. strcmp m a b = Some r \<and> (r = 0 \<longleftrightarrow> s = t) \<and> (r < 0 \<longleftrightarrow> byte_less s t) \<and> (r > 0 \<longleftrightarrow> byte_less t s)"
  using strcmp_eq[OF assms] byte_cmp_lexord[of s t] cstr_bound(2)[OF assms(1)] cstr_bound(2)[OF assms(2)]
  by (simp add: strcmp_def)

lemma strcmp_lexicographic_example:
  "\<exists>r. strcmp (ex_memory [97, 98, 0, 97, 200, 0]) 0x1000 0x1003 = Some r \<and> r < 0"
proof -
  let ?m = "ex_memory [97, 98, 0, 97, 200, 0]"
  have "cstr ?m 0x1000 [97, 98]" "cstr ?m 0x1003 [97, 200]"
    using ex_memory_at[of "[]" "[97, 98, 0]" "[97, 200, 0]"] ex_memory_at[of "[97, 98, 0]" "[97, 200, 0]" "[]"]
    by (simp_all add: cstr_def)
  from strcmp_lexicographic[OF this] show ?thesis by auto
qed

lemma occurs_at: "(\<exists>v. s = u @ t @ v) \<longleftrightarrow> length u + length t \<le> length s \<and> take (length u) s = u \<and>
     take (length t) (drop (length u) s) = t"
proof
  assume *: "length u + length t \<le> length s \<and> take (length u) s = u \<and> take (length t) (drop (length u) s) = t"
  have "s = take (length u) s @ take (length t) (drop (length u) s) @ drop (length t) (drop (length u) s)"
    by (simp only: append_take_drop_id)
  then show "\<exists>v. s = u @ t @ v" using * by metis
qed auto

lemma first_occurrence_Some:
  assumes "first_occurrence t s = Some j"
  shows "\<exists>u v. s = u @ t @ v \<and> length u = j \<and> \<not> (\<exists>u' v'. s = u' @ t @ v' \<and> length u' < j)"
proof -
  let ?P = "\<lambda>j. take (length t) (drop j s) = t"
  have f: "length t \<le> length s" "find ?P [0..<length s - length t + 1] = Some j"
    using assms by (auto simp: first_occurrence_def split: if_splits)
  then have j: "?P j" "j < length s - length t + 1" "\<forall>i < j. \<not> ?P i"
    by (auto simp: find_Some_iff simp del: upt_Suc)
  have len: "length (take j s) = j" "j + length t \<le> length s" using j(2) f(1) by simp_all
  then have "\<exists>v. s = take j s @ t @ v" using occurs_at[of s "take j s" t] j(1) by simp
  moreover note len(1)
  moreover have "\<not> (\<exists>u' v'. s = u' @ t @ v' \<and> length u' < j)" using occurs_at[of s _ t] j(3) by metis
  ultimately show ?thesis by blast
qed

lemma first_occurrence_None:
  assumes "first_occurrence t s = None"
  shows "\<nexists>u v. s = u @ t @ v"
proof (intro notI, elim exE)
  fix u v assume s: "s = u @ t @ v"
  then have "find (\<lambda>j. take (length t) (drop j s) = t) [0..<length s - length t + 1] = None"
    using assms by (simp add: first_occurrence_def split: if_splits)
  moreover have "length u < length s - length t + 1" using s by simp
  ultimately have "\<not> take (length t) (drop (length u) s) = t"
    by (auto simp: find_None_iff simp del: upt_Suc)
  then show False using s by simp
qed

text \<open>\<open>strstr\<close> returns the first place of the haystack at which the needle occurs, and a
  null pointer exactly when it occurs nowhere.\<close>

lemma strstr_first:
  assumes "cstr m a s" "cstr m b t"
  shows "(\<exists>u v. s = u @ t @ v \<and> strstr m a b = Some (a + of_nat (length u)) \<and>
       \<not> (\<exists>u' v'. s = u' @ t @ v' \<and> length u' < length u)) \<or>
     (\<nexists>u v. s = u @ t @ v) \<and> strstr m a b = Some NULL"
proof (cases "first_occurrence t s")
  case None
  then show ?thesis using strstr_eq[OF assms] first_occurrence_None[OF None] by simp
next
  case (Some j)
  obtain u v where u: "s = u @ t @ v" "length u = j" "\<not> (\<exists>u' v'. s = u' @ t @ v' \<and> length u' < j)"
    using first_occurrence_Some[OF Some] by blast
  have "strstr m a b = Some (a + of_nat (length u))" using strstr_eq[OF assms] Some u(2) by simp
  then show ?thesis using u by (intro disjI1 exI[of _ u] exI[of _ v]) simp
qed

lemma strstr_first_example:
  "strstr (ex_memory [97, 98, 97, 98, 0, 98, 97, 0]) 0x1000 0x1005 = Some 0x1001"
proof -
  let ?m = "ex_memory [97, 98, 97, 98, 0, 98, 97, 0]"
  have *: "cstr ?m 0x1000 [97, 98, 97, 98]" "cstr ?m 0x1005 [98, 97]"
    using ex_memory_at[of "[]" "[97, 98, 97, 98, 0]" "[98, 97, 0]"]
      ex_memory_at[of "[97, 98, 97, 98, 0]" "[98, 97, 0]" "[]"]
    by (simp_all add: cstr_def)
  have "[97, 98, 97, 98 :: u8] = [97] @ [98, 97] @ [98]" by simp
  then have occ: "\<exists>u v. [97, 98, 97, 98 :: u8] = u @ [98, 97] @ v" by blast
  have len: "length u = 1" if "[97, 98, 97, 98 :: u8] = u @ [98, 97] @ v" for u v
    using that by (auto simp: Cons_eq_append_conv)
  from strstr_first[OF *] occ obtain u v where "[97, 98, 97, 98 :: u8] = u @ [98, 97] @ v"
    "strstr ?m 0x1000 0x1005 = Some (0x1000 + of_nat (length u))" by blast
  then show ?thesis using len[of u v] by simp
qed

text \<open>\<open>strlcpy\<close> into a buffer of \<open>n > 0\<close> bytes always leaves a terminated string there, the
  first \<open>n - 1\<close> characters of the source at most, writes nothing outside the buffer and
  returns the length of the source.\<close>

lemma strlcpy_bounded:
  assumes "cstr m src s" "bytes_at m dst ys" "length ys = unat n" "n \<noteq> 0"
    "span dst (unat n) \<inter> span src (length s + 1) = {}"
  shows "\<exists>m'. strlcpy dst src n m = Some (of_nat (length s), m') \<and> cstr m' dst (take (unat n - 1) s) \<and>
     (\<forall>p. p \<notin> span dst (unat n) \<longrightarrow> m' p = m p) \<and> cstr m' src s"
proof -
  let ?xs = "take (unat n - 1) s @ [0]"
  have len: "length ?xs \<le> length ys" "length ?xs \<le> unat n"
    using assms(3,4) unat_gt_0[of n] by (cases "unat n"; simp)+
  have "bytes_at m dst (take (length ?xs) ys)"
    using assms(2) append_take_drop_id[of "length ?xs" ys] bytes_at_append by metis
  then have "bytes_at (put m dst ?xs) dst ?xs" by (rule put_same_bytes) (use len in simp)
  then have "cstr (put m dst ?xs) dst (take (unat n - 1) s)"
    using assms(1) by (auto simp: cstr_def dest: in_set_takeD)
  moreover have other: "\<forall>p. p \<notin> span dst (unat n) \<longrightarrow> put m dst ?xs p = m p"
  proof -
    have "span dst (length ?xs) \<subseteq> span dst (unat n)" using len(2) by (auto simp: span_def)
    then show ?thesis using put_other[of _ dst ?xs m] by blast
  qed
  moreover have "cstr (put m dst ?xs) src s"
    using assms(1,5) other cstr_cong[of src s "put m dst ?xs" m] by blast
  ultimately show ?thesis using strlcpy_eq[OF assms] by blast
qed

lemma strlcpy_bounded_example:
  "\<exists>m'. strlcpy 0x1004 0x1000 3 (ex_memory [97, 98, 99, 0, 1, 1, 1]) = Some (3, m') \<and> cstr m' 0x1004 [97, 98]"
proof -
  let ?m = "ex_memory [97, 98, 99, 0, 1, 1, 1]"
  have *: "cstr ?m 0x1000 [97, 98, 99]" "bytes_at ?m 0x1004 [1, 1, 1]"
    using ex_memory_at[of "[]" "[97, 98, 99, 0]" "[1, 1, 1]"] ex_memory_at[of "[97, 98, 99, 0]" "[1, 1, 1]" "[]"]
    by (simp_all add: cstr_def)
  have "span 0x1004 (unat (3 :: size_t)) \<inter> span 0x1000 (length [97, 98, 99 :: u8] + 1) = {}"
    by (auto simp: in_span_iff)
  from strlcpy_bounded[OF * _ _ this] show ?thesis by auto
qed

text \<open>C34: the loop over \<open>strtok_r\<close> returns exactly the tokens of the string, in order and each as
  a terminated string, ends with a null pointer after at most \<open>length s + 1\<close> calls, and writes
  only inside the string.\<close>

theorem strtok_yields_tokens:
  assumes "cstr m a s" "cstr m b t" "span a (length s) \<inter> span b (length t + 1) = {}"
  shows "\<exists>ps m'. tokenize (length s + 1) a b saved m = Some (ps, m') \<and>
     list_all2 (cstr m') ps (tokens (set t) s) \<and> (\<forall>q. q \<notin> span a (length s) \<longrightarrow> m' q = m q)"
  using tokenize_eq[OF assms, of "length s + 1" a saved] by simp

text \<open>The string \<open>ab  c\<close> with the blank as delimiter.\<close>

theorem strtok_yields_tokens_witness:
  "\<exists>p q m'. tokenize 6 0x1000 0x1006 0 (ex_memory [97, 98, 32, 32, 99, 0, 32, 0]) = Some ([p, q], m') \<and>
     cstr m' p [97, 98] \<and> cstr m' q [99]"
proof -
  let ?m = "ex_memory [97, 98, 32, 32, 99, 0, 32, 0]"
  have *: "cstr ?m 0x1000 [97, 98, 32, 32, 99]" "cstr ?m 0x1006 [32]"
    using ex_memory_at[of "[]" "[97, 98, 32, 32, 99, 0]" "[32, 0]"]
      ex_memory_at[of "[97, 98, 32, 32, 99, 0]" "[32, 0]" "[]"]
    by (simp_all add: cstr_def)
  have d: "span 0x1000 (length [97, 98, 32, 32, 99 :: u8]) \<inter> span 0x1006 (length [32 :: u8] + 1) = {}"
    by (auto simp: in_span_iff)
  have "tokens (set [32]) [97, 98, 32, 32, 99 :: u8] = [[97, 98], [99]]" by (simp add: tokens.simps)
  then show ?thesis
    using strtok_yields_tokens[OF * d, of 0]
    by (auto simp: list_all2_Cons2 eval_nat_numeral simp del: tokenize.simps)
qed

end
