(* ===== verification/Kernel_Stdlib.thy ===== *)
theory Kernel_Stdlib
  imports Kernel_String
begin

text \<open>
  The standard library of lib/stdlib.c (conversion of numbers, heap sort, binary search) and
  the pseudo-random numbers of lib/random.c.  Arrays are bytes in memory, elements are
  addressed as in the code, by multiplying an index with the size of an element in 32-bit
  arithmetic.  A comparison function reads the memory at two addresses; \<open>aux\<close> is its
  auxiliary argument.
\<close>

section \<open>Numbers\<close>

partial_function (option) atoi_space :: "memory \<Rightarrow> addr \<Rightarrow> addr option" where
  "atoi_space m s = do {
     c \<leftarrow> rd m s;
     if isspace (uint c) then atoi_space m (s + 1) else Some s }"

partial_function (option) atoi_digits :: "memory \<Rightarrow> addr \<Rightarrow> u32 \<Rightarrow> u32 option" where
  "atoi_digits m s val = do {
     c \<leftarrow> rd m s;
     if isdigit (uint c) then atoi_digits m (s + 1) (val * 10 - (ucast c - 48)) else Some val }"

text \<open>43 and 45 are the codes of \<open>+\<close> and \<open>-\<close>, 48 is that of \<open>0\<close>.\<close>

definition atoi :: "memory \<Rightarrow> addr \<Rightarrow> u32 option" where
  "atoi m s = do {
     ASSERT (s \<noteq> NULL);
     s \<leftarrow> atoi_space m s;
     c \<leftarrow> rd m s;
     let (negative, s) = (if c = 43 then (False, s + 1) else if c = 45 then (True, s + 1) else (False, s));
     val \<leftarrow> atoi_digits m s 0;
     Some (if \<not> negative then - val else val) }"

declare atoi_space.simps [code] atoi_digits.simps [code]

section \<open>Sorting\<close>

type_synonym 'aux comparison_fun = "memory \<Rightarrow> addr \<Rightarrow> addr \<Rightarrow> 'aux \<Rightarrow> int option"

definition compare_thunk :: "(memory \<Rightarrow> addr \<Rightarrow> addr \<Rightarrow> int option) comparison_fun" where
  "compare_thunk m a b aux = aux m a b"

text \<open>The loop of \<open>do_swap\<close> over the bytes \<open>i\<close> of two elements.\<close>

function do_swap_loop :: "addr \<Rightarrow> addr \<Rightarrow> size_t \<Rightarrow> size_t \<Rightarrow> memory \<Rightarrow> memory option" where
  "do_swap_loop a b i sz m =
     (if i < sz then
        (case rd m (a + i) of None \<Rightarrow> None | Some t \<Rightarrow>
         (case rd m (b + i) of None \<Rightarrow> None | Some v \<Rightarrow>
          (case wr (a + i) v m of None \<Rightarrow> None | Some m \<Rightarrow>
           (case wr (b + i) t m of None \<Rightarrow> None | Some m \<Rightarrow> do_swap_loop a b (i + 1) sz m))))
      else Some m)"
  by pat_completeness auto
termination by (relation "measure (\<lambda>(a, b, i, sz, m). unat sz - unat i)") (auto simp: word_loop)

declare do_swap_loop.simps [simp del]

definition do_swap :: "addr \<Rightarrow> size_t \<Rightarrow> size_t \<Rightarrow> size_t \<Rightarrow> memory \<Rightarrow> memory option" where
  "do_swap array a_idx b_idx sz m =
     do_swap_loop (array + (a_idx - 1) * sz) (array + (b_idx - 1) * sz) 0 sz m"

definition do_compare ::
  "addr \<Rightarrow> size_t \<Rightarrow> size_t \<Rightarrow> size_t \<Rightarrow> 'aux comparison_fun \<Rightarrow> 'aux \<Rightarrow> memory \<Rightarrow> int option" where
  "do_compare array a_idx b_idx sz cmp aux m =
     cmp m (array + (a_idx - 1) * sz) (array + (b_idx - 1) * sz) aux"

text \<open>Each child is compared only if it is in the heap: \<open>left <= cnt && do_compare (...) > 0\<close>.\<close>

partial_function (option) heapify ::
  "addr \<Rightarrow> size_t \<Rightarrow> size_t \<Rightarrow> size_t \<Rightarrow> 'aux comparison_fun \<Rightarrow> 'aux \<Rightarrow> memory \<Rightarrow> memory option" where
  "heapify array i cnt sz cmp aux m = do {
     let left = 2 * i;
     let right = 2 * i + 1;
     let mx = i;
     mx \<leftarrow> (if left \<le> cnt then do {
               c \<leftarrow> do_compare array left mx sz cmp aux m; Some (if c > 0 then left else mx) }
           else Some mx);
     mx \<leftarrow> (if right \<le> cnt then do {
               c \<leftarrow> do_compare array right mx sz cmp aux m; Some (if c > 0 then right else mx) }
           else Some mx);
     if mx = i then Some m
     else do {
       m \<leftarrow> do_swap array i mx sz m;
       heapify array mx cnt sz cmp aux m } }"

function build_heap ::
  "addr \<Rightarrow> size_t \<Rightarrow> size_t \<Rightarrow> size_t \<Rightarrow> 'aux comparison_fun \<Rightarrow> 'aux \<Rightarrow> memory \<Rightarrow> memory option" where
  "build_heap array i cnt sz cmp aux m =
     (if i > 0 then
        (case heapify array i cnt sz cmp aux m of None \<Rightarrow> None
         | Some m \<Rightarrow> build_heap array (i - 1) cnt sz cmp aux m)
      else Some m)"
  by pat_completeness auto
termination by (relation "measure (\<lambda>(a, i, cnt, sz, cmp, aux, m). unat i)") (auto simp: word_loop word_gt_0)

function sort_heap ::
  "addr \<Rightarrow> size_t \<Rightarrow> size_t \<Rightarrow> 'aux comparison_fun \<Rightarrow> 'aux \<Rightarrow> memory \<Rightarrow> memory option" where
  "sort_heap array i sz cmp aux m =
     (if i > 1 then
        (case do_swap array 1 i sz m of None \<Rightarrow> None
         | Some m \<Rightarrow> (case heapify array 1 (i - 1) sz cmp aux m of None \<Rightarrow> None
                     | Some m \<Rightarrow> sort_heap array (i - 1) sz cmp aux m))
      else Some m)"
  by pat_completeness auto
termination
proof (relation "measure (\<lambda>(a, i, sz, cmp, aux, m). unat i)", goal_cases)
  case (2 array i)
  then have "i \<noteq> 0" by auto
  then show ?case by (simp add: word_loop)
qed simp

declare build_heap.simps [simp del] sort_heap.simps [simp del]

definition sort_array ::
  "addr \<Rightarrow> size_t \<Rightarrow> size_t \<Rightarrow> 'aux comparison_fun \<Rightarrow> 'aux \<Rightarrow> memory \<Rightarrow> memory option" where
  "sort_array array cnt sz cmp aux m = do {
     ASSERT (array \<noteq> NULL \<or> cnt = 0);
     ASSERT (sz > 0);
     m \<leftarrow> build_heap array (cnt div 2) cnt sz cmp aux m;
     sort_heap array cnt sz cmp aux m }"

definition qsort ::
  "addr \<Rightarrow> size_t \<Rightarrow> size_t \<Rightarrow> (memory \<Rightarrow> addr \<Rightarrow> addr \<Rightarrow> int option) \<Rightarrow> memory \<Rightarrow> memory option" where
  "qsort array cnt sz cmp m = sort_array array cnt sz compare_thunk cmp m"

section \<open>Searching\<close>

text \<open>\<open>fst\<close> and \<open>lst\<close> are the pointers \<open>first\<close> and \<open>last\<close>.\<close>

partial_function (option) binary_search_loop ::
  "memory \<Rightarrow> addr \<Rightarrow> addr \<Rightarrow> addr \<Rightarrow> size_t \<Rightarrow> 'aux comparison_fun \<Rightarrow> 'aux \<Rightarrow> addr option" where
  "binary_search_loop m key ft lt sz cmp aux =
     (if ft < lt then do {
        let range = (lt - ft) div sz;
        let middle = ft + (range div 2) * sz;
        c \<leftarrow> cmp m key middle aux;
        if c < 0 then binary_search_loop m key ft middle sz cmp aux
        else if c > 0 then binary_search_loop m key (middle + sz) lt sz cmp aux
        else Some middle }
      else Some NULL)"

definition binary_search ::
  "memory \<Rightarrow> addr \<Rightarrow> addr \<Rightarrow> size_t \<Rightarrow> size_t \<Rightarrow> 'aux comparison_fun \<Rightarrow> 'aux \<Rightarrow> addr option" where
  "binary_search m key array cnt sz cmp aux =
     binary_search_loop m key array (array + sz * cnt) sz cmp aux"

definition bsearch ::
  "memory \<Rightarrow> addr \<Rightarrow> addr \<Rightarrow> size_t \<Rightarrow> size_t \<Rightarrow> (memory \<Rightarrow> addr \<Rightarrow> addr \<Rightarrow> int option) \<Rightarrow> addr option" where
  "bsearch m key array cnt sz cmp = binary_search m key array cnt sz compare_thunk cmp"

declare heapify.simps [code] binary_search_loop.simps [code]

section \<open>Random numbers\<close>

record random_state =
  s_box :: "u8 list"
  s_i :: u8
  s_j :: u8
  inited :: bool

text \<open>\<open>swap_byte (s + a, s + b)\<close> on the array \<open>s\<close>.\<close>

definition swap_byte :: "nat \<Rightarrow> nat \<Rightarrow> u8 list \<Rightarrow> u8 list option" where
  "swap_byte a b s = (if a < length s \<and> b < length s then Some (s[a := s ! b, b := s ! a]) else None)"

text \<open>The second loop of \<open>random_init\<close>; byte \<open>i mod 4\<close> of the seed, lowest first.\<close>

function random_init_loop :: "nat \<Rightarrow> u8 \<Rightarrow> u32 \<Rightarrow> u8 list \<Rightarrow> u8 list option" where
  "random_init_loop i j seed s =
     (if i < 256 then
        (let j = j + (s ! i + ucast (drop_bit (8 * (i mod 4)) seed)) in
         case swap_byte i (unat j) s of None \<Rightarrow> None | Some s \<Rightarrow> random_init_loop (i + 1) j seed s)
      else Some s)"
  by pat_completeness auto
termination by (relation "measure (\<lambda>(i, j, seed, s). 256 - i)") auto

declare random_init_loop.simps [simp del]

definition random_init :: "u32 \<Rightarrow> random_state option" where
  "random_init seed = do {
     s \<leftarrow> random_init_loop 0 0 seed (map of_nat [0..<256]);
     Some \<lparr>s_box = s, s_i = 0, s_j = 0, inited = True\<rparr> }"

text \<open>The body of the loop of \<open>random_bytes\<close>: the next byte and the state after it.\<close>

definition random_byte :: "random_state \<Rightarrow> (u8 \<times> random_state) option" where
  "random_byte r = (
     let i = s_i r + 1;
         j = s_j r + s_box r ! unat i
     in do {
       s \<leftarrow> swap_byte (unat i) (unat j) (s_box r);
       let k = s ! unat i + s ! unat j;
       Some (s ! unat k, r\<lparr>s_box := s, s_i := i, s_j := j\<rparr>) })"

function random_bytes_loop :: "addr \<Rightarrow> size_t \<Rightarrow> random_state \<Rightarrow> memory \<Rightarrow> (random_state \<times> memory) option" where
  "random_bytes_loop buf sz r m =
     (if sz > 0 then
        (case random_byte r of None \<Rightarrow> None | Some (v, r) \<Rightarrow>
         (case wr buf v m of None \<Rightarrow> None | Some m \<Rightarrow> random_bytes_loop (buf + 1) (sz - 1) r m))
      else Some (r, m))"
  by pat_completeness auto
termination by (relation "measure (\<lambda>(b, n, r, m). unat n)") (auto simp: word_loop word_gt_0)

declare random_bytes_loop.simps [simp del]

definition random_bytes :: "addr \<Rightarrow> size_t \<Rightarrow> random_state \<Rightarrow> memory \<Rightarrow> (random_state \<times> memory) option" where
  "random_bytes buf sz r m = do {
     r \<leftarrow> (if \<not> inited r then random_init 0 else Some r);
     random_bytes_loop buf sz r m }"

text \<open>\<open>random_ulong\<close>: \<open>ul\<close> is the address of the local variable, a word of four bytes.\<close>

definition random_ulong :: "addr \<Rightarrow> random_state \<Rightarrow> memory \<Rightarrow> (u32 \<times> random_state \<times> memory) option" where
  "random_ulong ul r m = do {
     (r, m) \<leftarrow> random_bytes ul 4 r m;
     b0 \<leftarrow> rd m ul; b1 \<leftarrow> rd m (ul + 1); b2 \<leftarrow> rd m (ul + 2); b3 \<leftarrow> rd m (ul + 3);
     Some (ucast b0 + push_bit 8 (ucast b1) + push_bit 16 (ucast b2) + push_bit 24 (ucast b3), r, m) }"

end
