(* ===== verification/Kernel_Heap_Sort.thy ===== *)
theory Kernel_Heap_Sort
  imports Kernel_Prelude
begin

text \<open>
  Heap sort on lists, with the 1-based positions of lib/stdlib.c: \<open>xs @@ i\<close> of the comments is
  \<open>at xs i\<close>.  \<open>c x y\<close> compares in the manner of \<open>strcmp\<close>.  The algorithm on memory is shown to
  compute these functions in theory Kernel_Stdlib_Rep.
\<close>

section \<open>A comparison\<close>

text \<open>What the callers of \<open>sort\<close> and \<open>binary_search\<close> must provide: a total preorder on \<open>A\<close>.\<close>

locale preorder_cmp =
  fixes c :: "'a \<Rightarrow> 'a \<Rightarrow> int" and A :: "'a set"
  assumes cmp_flip: "x \<in> A \<Longrightarrow> y \<in> A \<Longrightarrow> c x y < 0 \<longleftrightarrow> c y x > 0"
    and cmp_trans: "x \<in> A \<Longrightarrow> y \<in> A \<Longrightarrow> z \<in> A \<Longrightarrow> c x y \<le> 0 \<Longrightarrow> c y z \<le> 0 \<Longrightarrow> c x z \<le> 0"
begin

lemma cmp_refl: "x \<in> A \<Longrightarrow> c x x = 0"
  using cmp_flip[of x x] by linarith

lemma total: "x \<in> A \<Longrightarrow> y \<in> A \<Longrightarrow> \<not> c x y > 0 \<Longrightarrow> c x y \<le> 0"
  by simp

lemma flip_le: "x \<in> A \<Longrightarrow> y \<in> A \<Longrightarrow> c x y > 0 \<Longrightarrow> c y x \<le> 0"
  using cmp_flip[of y x] by simp

end

section \<open>Positions and swaps\<close>

definition at :: "'a list \<Rightarrow> nat \<Rightarrow> 'a" where
  "at xs i = xs ! (i - 1)"

definition swap_at :: "'a list \<Rightarrow> nat \<Rightarrow> nat \<Rightarrow> 'a list" where
  "swap_at xs i j = xs[i - 1 := at xs j, j - 1 := at xs i]"

lemma length_swap_at [simp]: "length (swap_at xs i j) = length xs"
  by (simp add: swap_at_def)

lemma at_swap:
  assumes "1 \<le> i" "i \<le> length xs" "1 \<le> j" "j \<le> length xs" "1 \<le> k" "k \<le> length xs"
  shows "at (swap_at xs i j) k = (if k = j then at xs i else if k = i then at xs j else at xs k)"
  using assms by (auto simp: at_def swap_at_def nth_list_update)

lemma mset_swap_at:
  assumes "1 \<le> i" "i \<le> length xs" "1 \<le> j" "j \<le> length xs"
  shows "mset (swap_at xs i j) = mset xs"
  using mset_swap[of "j - 1" xs "i - 1"] assms
  by (cases "i = j") (simp_all add: swap_at_def at_def list_update_swap)

lemma take_swap_at:
  assumes "1 \<le> i" "i \<le> n" "1 \<le> j" "j \<le> n" "n \<le> length xs"
  shows "take n (swap_at xs i j) = swap_at (take n xs) i j" "drop n (swap_at xs i j) = drop n xs"
  using assms by (simp_all add: swap_at_def at_def take_update_swap)

section \<open>Sifting down\<close>

definition child_max :: "('a \<Rightarrow> 'a \<Rightarrow> int) \<Rightarrow> nat \<Rightarrow> nat \<Rightarrow> 'a list \<Rightarrow> nat" where
  "child_max c i n xs = (let mx = i in
     let mx = (if 2 * i \<le> n \<and> c (at xs (2 * i)) (at xs mx) > 0 then 2 * i else mx) in
     if 2 * i + 1 \<le> n \<and> c (at xs (2 * i + 1)) (at xs mx) > 0 then 2 * i + 1 else mx)"

lemma child_max_cases: "child_max c i n xs = i \<or> (child_max c i n xs = 2 * i \<or> child_max c i n xs = 2 * i + 1) \<and> child_max c i n xs \<le> n"
  by (auto simp: child_max_def Let_def)

function sift :: "('a \<Rightarrow> 'a \<Rightarrow> int) \<Rightarrow> nat \<Rightarrow> nat \<Rightarrow> 'a list \<Rightarrow> 'a list" where
  "sift c i n xs = (let mx = child_max c i n xs in if mx = i then xs else sift c mx n (swap_at xs i mx))"
  by pat_completeness auto
termination
proof (relation "measure (\<lambda>(c, i, n, xs). n + 1 - i)", goal_cases)
  case (2 c i n xs mx)
  then show ?case using child_max_cases[of c i n xs] by auto
qed simp

declare sift.simps [simp del]

text \<open>Every element below position \<open>k\<close>'s subtrees is at most its parent.\<close>

definition heap_from :: "('a \<Rightarrow> 'a \<Rightarrow> int) \<Rightarrow> nat \<Rightarrow> nat \<Rightarrow> 'a list \<Rightarrow> bool" where
  "heap_from c k n xs \<longleftrightarrow> (\<forall>j. 2 \<le> j \<longrightarrow> j \<le> n \<longrightarrow> k \<le> j div 2 \<longrightarrow> c (at xs j) (at xs (j div 2)) \<le> 0)"

text \<open>The heap with one element \<open>i\<close> that may be smaller than its children.\<close>

definition heap_but :: "('a \<Rightarrow> 'a \<Rightarrow> int) \<Rightarrow> nat \<Rightarrow> nat \<Rightarrow> nat \<Rightarrow> 'a list \<Rightarrow> bool" where
  "heap_but c i k n xs \<longleftrightarrow>
     (\<forall>j. 2 \<le> j \<longrightarrow> j \<le> n \<longrightarrow> k \<le> j div 2 \<longrightarrow> j div 2 \<noteq> i \<longrightarrow> c (at xs j) (at xs (j div 2)) \<le> 0) \<and>
     (\<forall>j. 2 \<le> j \<longrightarrow> j \<le> n \<longrightarrow> j div 2 = i \<longrightarrow> 2 \<le> i \<longrightarrow> k \<le> i div 2 \<longrightarrow> c (at xs j) (at xs (i div 2)) \<le> 0)"

lemma sift_frame:
  "1 \<le> i \<Longrightarrow> i \<le> n \<Longrightarrow> n \<le> length xs \<Longrightarrow>
   length (sift c i n xs) = length xs \<and> drop n (sift c i n xs) = drop n xs \<and>
   mset (take n (sift c i n xs)) = mset (take n xs)"
proof (induction c i n xs rule: sift.induct)
  case (1 c i n xs)
  let ?mx = "child_max c i n xs"
  show ?case
  proof (cases "?mx = i")
    case True
    then show ?thesis by (simp add: sift.simps)
  next
    case False
    then have mx: "1 \<le> ?mx" "?mx \<le> n" using child_max_cases[of c i n xs] 1(2) by auto
    have IH: "length (sift c ?mx n (swap_at xs i ?mx)) = length xs \<and>
       drop n (sift c ?mx n (swap_at xs i ?mx)) = drop n (swap_at xs i ?mx) \<and>
       mset (take n (sift c ?mx n (swap_at xs i ?mx))) = mset (take n (swap_at xs i ?mx))"
      using 1(1)[OF refl False] mx 1(4) by simp
    have "mset (swap_at (take n xs) i ?mx) = mset (take n xs)"
      by (rule mset_swap_at) (use 1(2-4) mx in simp_all)
    then show ?thesis
      using IH take_swap_at[OF 1(2,3) mx 1(4)] False by (subst (1 2 3) sift.simps) (simp add: Let_def)
  qed
qed

context preorder_cmp
begin

lemma child_max_le:
  assumes "set xs \<subseteq> A" "1 \<le> i" "i \<le> n" "n \<le> length xs" "j = i \<or> j div 2 = i" "j \<le> n"
  shows "c (at xs j) (at xs (child_max c i n xs)) \<le> 0"
proof -
  have A: "at xs k \<in> A" if "1 \<le> k" "k \<le> n" for k
    using that assms(1,4) by (auto simp: at_def intro!: subsetD[OF assms(1)] nth_mem)
  have r: "c (at xs k) (at xs k) \<le> 0" if "1 \<le> k" "k \<le> n" for k using cmp_refl A[OF that] by simp
  have f: "c (at xs k) (at xs l) \<le> 0" if "1 \<le> k" "k \<le> n" "1 \<le> l" "l \<le> n" "c (at xs l) (at xs k) > 0" for k l
    using flip_le[OF A A] that by blast
  have t: "c (at xs k) (at xs u) \<le> 0"
    if "1 \<le> k" "k \<le> n" "1 \<le> l" "l \<le> n" "1 \<le> u" "u \<le> n" "c (at xs k) (at xs l) \<le> 0" "c (at xs l) (at xs u) \<le> 0" for k l u
    using cmp_trans[OF A A A] that by blast
  have j: "j = i \<or> j = 2 * i \<or> j = 2 * i + 1" using assms(5) by auto
  let ?m = "if 2 * i \<le> n \<and> c (at xs (2 * i)) (at xs i) > 0 then 2 * i else i"
  let ?mx = "if 2 * i + 1 \<le> n \<and> c (at xs (2 * i + 1)) (at xs ?m) > 0 then 2 * i + 1 else ?m"
  have m: "1 \<le> ?m" "?m \<le> n" "1 \<le> ?mx" "?mx \<le> n" using assms(2,3) by auto
  have im: "c (at xs i) (at xs ?m) \<le> 0" using f[of i "2 * i"] r[of i] assms(2,3) by auto
  have lm: "c (at xs (2 * i)) (at xs ?m) \<le> 0" if "2 * i \<le> n" using r[of "2 * i"] that assms(2) by auto
  have mm: "c (at xs ?m) (at xs ?mx) \<le> 0" using f[OF m(1,2), of "2 * i + 1"] r[OF m(1,2)] assms(2) by auto
  have rm: "c (at xs (2 * i + 1)) (at xs ?mx) \<le> 0" if "2 * i + 1 \<le> n" using r[of "2 * i + 1"] that by auto
  have "child_max c i n xs = ?mx" by (simp add: child_max_def Let_def)
  moreover have "c (at xs j) (at xs ?mx) \<le> 0"
    using j t[OF _ _ m(1,2) m(3,4) _ mm, of i] t[OF _ _ m(1,2) m(3,4) _ mm, of "2 * i"] im lm rm assms(2,3,6) by auto
  ultimately show ?thesis by simp
qed

lemma sift_step:
  assumes h: "heap_but c i k n xs" and A: "set xs \<subseteq> A" and i: "1 \<le> k" "k \<le> i" "i \<le> n" "n \<le> length xs"
    and mx: "child_max c i n xs = mx" "mx \<noteq> i"
  shows "heap_but c mx k n (swap_at xs i mx)"
proof -
  have m: "mx = 2 * i \<or> mx = 2 * i + 1" "mx \<le> n" using child_max_cases[of c i n xs] mx by auto
  let ?ys = "swap_at xs i mx"
  have ys: "at ?ys j = (if j = mx then at xs i else if j = i then at xs mx else at xs j)" if "1 \<le> j" "j \<le> n" for j
    using at_swap[of i xs mx j] that i m by auto
  have le: "c (at xs j) (at xs mx) \<le> 0" if "j = i \<or> j div 2 = i" "j \<le> n" for j
    using child_max_le[OF A _ i(3,4) that] mx(1) i by simp
  have h1: "c (at xs j) (at xs (j div 2)) \<le> 0" if "2 \<le> j" "j \<le> n" "k \<le> j div 2" "j div 2 \<noteq> i" for j
    using h that by (auto simp: heap_but_def)
  have h2: "c (at xs mx) (at xs (i div 2)) \<le> 0" if "2 \<le> i" "k \<le> i div 2"
    using h that m i unfolding heap_but_def by auto
  show ?thesis
    unfolding heap_but_def
  proof (intro conjI allI impI)
    fix j assume j: "2 \<le> j" "j \<le> n" "k \<le> j div 2" "j div 2 \<noteq> mx"
    show "c (at ?ys j) (at ?ys (j div 2)) \<le> 0"
    proof (cases "j div 2 = i")
      case True
      then have "at ?ys (j div 2) = at xs mx" using ys[of i] i mx by auto
      then show ?thesis using ys[of j] le[of i] le[of j] True j(1,2) i(3) by (auto split: if_splits)
    next
      case False
      then have "at ?ys (j div 2) = at xs (j div 2)" "j \<noteq> mx" using ys[of "j div 2"] j m by auto
      then show ?thesis using ys[of j] h1[OF j(1,2,3) False] h2 j by auto
    qed
  next
    fix j assume j: "2 \<le> j" "j \<le> n" "j div 2 = mx" "2 \<le> mx" "k \<le> mx div 2"
    have "mx div 2 = i" using m(1) by auto
    moreover have "at ?ys i = at xs mx" using ys[of i] i mx by auto
    moreover have "at ?ys j = at xs j" using ys[of j] j m i by auto
    ultimately show "c (at ?ys j) (at ?ys (mx div 2)) \<le> 0" using h1[of j] j mx(2) m i by auto
  qed
qed

lemma sift_heap:
  "heap_but c i k n xs \<Longrightarrow> set xs \<subseteq> A \<Longrightarrow> 1 \<le> k \<Longrightarrow> k \<le> i \<Longrightarrow> i \<le> n \<Longrightarrow> n \<le> length xs \<Longrightarrow>
   heap_from c k n (sift c i n xs)"
proof (induction "n + 1 - i" arbitrary: i xs rule: less_induct)
  case less
  note h = less.prems(1) and A = less.prems(2) and i = less.prems(3-6)
  let ?mx = "child_max c i n xs"
  show ?case
  proof (cases "?mx = i")
    case True
    have "c (at xs j) (at xs (j div 2)) \<le> 0" if "2 \<le> j" "j \<le> n" "k \<le> j div 2" for j
      using h child_max_le[OF A _ i(3,4), of j] True that i by (cases "j div 2 = i") (auto simp: heap_but_def)
    then show ?thesis using True by (simp add: sift.simps heap_from_def)
  next
    case False
    have m: "?mx = 2 * i \<or> ?mx = 2 * i + 1" "?mx \<le> n" using child_max_cases[of c i n xs] False by auto
    have "mset (swap_at xs i ?mx) = mset xs" by (rule mset_swap_at) (use m i in auto)
    then have A': "set (swap_at xs i ?mx) \<subseteq> A" using A by (metis set_mset_mset)
    have "heap_from c k n (sift c ?mx n (swap_at xs i ?mx))"
      by (rule less.hyps[OF _ sift_step[OF h A i refl False] A']) (use m i in auto)
    then show ?thesis using False by (subst sift.simps) (simp add: Let_def)
  qed
qed

lemma heap_root:
  assumes h: "heap_from c 1 n xs" and A: "set xs \<subseteq> A" and n: "n \<le> length xs"
  shows "1 \<le> j \<Longrightarrow> j \<le> n \<Longrightarrow> c (at xs j) (at xs 1) \<le> 0"
proof (induction j rule: less_induct)
  case (less j)
  have A: "at xs k \<in> A" if "1 \<le> k" "k \<le> n" for k
    using that n by (auto simp: at_def intro!: subsetD[OF A] nth_mem)
  show ?case
  proof (cases "j = 1")
    case True
    then show ?thesis using cmp_refl[OF A[of 1]] less.prems by simp
  next
    case False
    then have j: "2 \<le> j" "1 \<le> j div 2" "j div 2 < j" "j div 2 \<le> n" using less.prems by auto
    have "c (at xs j) (at xs (j div 2)) \<le> 0" using h j less.prems by (auto simp: heap_from_def)
    moreover have "c (at xs (j div 2)) (at xs 1) \<le> 0" by (rule less.IH) (use j in auto)
    ultimately show ?thesis
      using cmp_trans[OF A[of j] A[of "j div 2"] A[of 1]] j less.prems n by simp
  qed
qed

end

section \<open>The sort\<close>

fun build :: "('a \<Rightarrow> 'a \<Rightarrow> int) \<Rightarrow> nat \<Rightarrow> nat \<Rightarrow> 'a list \<Rightarrow> 'a list" where
  "build c 0 n xs = xs"
| "build c (Suc i) n xs = build c i n (sift c (Suc i) n xs)"

fun sort_down :: "('a \<Rightarrow> 'a \<Rightarrow> int) \<Rightarrow> nat \<Rightarrow> 'a list \<Rightarrow> 'a list" where
  "sort_down c (Suc (Suc n)) xs = sort_down c (Suc n) (sift c 1 (Suc n) (swap_at xs 1 (Suc (Suc n))))"
| "sort_down c n xs = xs"

definition heap_sort :: "('a \<Rightarrow> 'a \<Rightarrow> int) \<Rightarrow> 'a list \<Rightarrow> 'a list" where
  "heap_sort c xs = sort_down c (length xs) (build c (length xs div 2) (length xs) xs)"

lemma sift_mset:
  assumes "1 \<le> i" "i \<le> n" "n \<le> length xs"
  shows "mset (sift c i n xs) = mset xs" "length (sift c i n xs) = length xs"
proof -
  note f = sift_frame[OF assms, of c]
  have "mset (sift c i n xs) = mset (take n (sift c i n xs)) + mset (drop n (sift c i n xs))"
    by (metis append_take_drop_id mset_append)
  also have "\<dots> = mset (take n xs) + mset (drop n xs)" using f by simp
  also have "\<dots> = mset xs" by (metis append_take_drop_id mset_append)
  finally show "mset (sift c i n xs) = mset xs" .
  show "length (sift c i n xs) = length xs" using f by simp
qed

context preorder_cmp
begin

abbreviation "le x y \<equiv> c x y \<le> 0"

lemma build_heap_from:
  "heap_from c (Suc i) n xs \<Longrightarrow> set xs \<subseteq> A \<Longrightarrow> i \<le> n \<Longrightarrow> n = length xs \<Longrightarrow>
   heap_from c 1 n (build c i n xs) \<and> mset (build c i n xs) = mset xs"
proof (induction i arbitrary: xs)
  case (Suc i)
  let ?ys = "sift c (Suc i) n xs"
  have "heap_but c (Suc i) (Suc i) n xs"
    using Suc.prems(1) by (auto simp: heap_but_def heap_from_def)
  then have h: "heap_from c (Suc i) n ?ys" by (rule sift_heap) (use Suc.prems in auto)
  have m: "mset ?ys = mset xs" "length ?ys = length xs" by (rule sift_mset; use Suc.prems in simp)+
  have "heap_from c 1 n (build c i n ?ys) \<and> mset (build c i n ?ys) = mset ?ys"
    by (rule Suc.IH[OF h]) (use Suc.prems m in \<open>auto dest: mset_eq_setD\<close>)
  then show ?case using m by simp
qed simp

text \<open>The invariant of the second loop: a heap of the \<open>n\<close> smallest elements before a sorted rest.\<close>

definition sorting :: "nat \<Rightarrow> 'a list \<Rightarrow> bool" where
  "sorting n xs \<longleftrightarrow> heap_from c 1 n xs \<and> sorted_wrt le (drop n xs) \<and>
     (\<forall>x \<in> set (take n xs). \<forall>y \<in> set (drop n xs). le x y)"

lemma sorting_step:
  assumes s: "sorting (Suc m) xs" and A: "set xs \<subseteq> A" and m: "1 \<le> m" "Suc m \<le> length xs"
  shows "sorting m (sift c 1 m (swap_at xs 1 (Suc m)))"
proof -
  let ?ys = "swap_at xs 1 (Suc m)" and ?n = "Suc m"
  have tk: "take ?n ?ys = swap_at (take ?n xs) 1 ?n" "drop ?n ?ys = drop ?n xs"
    using take_swap_at[of 1 ?n ?n xs] m by simp_all
  have ms: "mset ?ys = mset xs" "mset (take ?n ?ys) = mset (take ?n xs)"
    unfolding tk by (rule mset_swap_at; use m in simp)+
  have A': "set ?ys \<subseteq> A" using A ms(1) by (metis set_mset_mset)
  have last: "at ?ys ?n = at xs 1" using at_swap[of 1 xs ?n ?n] m by simp
  have len: "length ?ys = length xs" by simp
  have dm: "drop m ?ys = at xs 1 # drop ?n xs"
    using Cons_nth_drop_Suc[of m ?ys] m last tk(2) by (simp add: at_def)
  have root: "le x (at xs 1)" if x: "x \<in> set (take ?n xs)" for x
  proof -
    obtain j where j: "j < ?n" "x = xs ! j" using x m(2) by (auto simp: in_set_conv_nth)
    then show ?thesis
      using heap_root[OF _ A m(2), of "j + 1"] s by (simp add: sorting_def at_def)
  qed
  have sub: "set (take m ?ys) \<subseteq> set (take ?n xs)"
  proof -
    have "set (take m ?ys) \<subseteq> set (take ?n ?ys)" by (rule set_take_subset_set_take) simp
    then show ?thesis using ms(2) by (metis set_mset_mset)
  qed
  have "heap_but c 1 1 m ?ys"
    unfolding heap_but_def
  proof (intro conjI allI impI)
    fix j assume j: "2 \<le> j" "j \<le> m" "1 \<le> j div 2" "j div 2 \<noteq> 1"
    have "at ?ys j = at xs j" "at ?ys (j div 2) = at xs (j div 2)"
      using at_swap[of 1 xs ?n j] at_swap[of 1 xs ?n "j div 2"] j m by auto
    then show "c (at ?ys j) (at ?ys (j div 2)) \<le> 0" using s j by (simp add: sorting_def heap_from_def)
  qed simp
  then have h: "heap_from c 1 m (sift c 1 m ?ys)" by (rule sift_heap) (use A' m in auto)
  note f = sift_frame[of 1 m ?ys c]
  have d: "drop m (sift c 1 m ?ys) = at xs 1 # drop ?n xs" using f m dm by simp
  have t: "set (take m (sift c 1 m ?ys)) = set (take m ?ys)" using f m by (intro mset_eq_setD) simp
  have "at xs 1 \<in> set (take ?n xs)" using m by (auto simp: at_def in_set_conv_nth)
  then show ?thesis
    using s h root sub unfolding sorting_def d t by auto
qed

lemma sort_down_sorted:
  "sorting n xs \<Longrightarrow> set xs \<subseteq> A \<Longrightarrow> n \<le> length xs \<Longrightarrow>
   sorted_wrt le (sort_down c n xs) \<and> mset (sort_down c n xs) = mset xs"
proof (induction n arbitrary: xs)
  case 0
  then show ?case by (simp add: sorting_def)
next
  case (Suc n)
  show ?case
  proof (cases n)
    case 0
    then obtain x xs' where "xs = x # xs'" using Suc.prems(3) by (cases xs) auto
    then show ?thesis using Suc.prems(1) 0 by (simp add: sorting_def)
  next
    case (Suc m)
    let ?ys = "sift c 1 n (swap_at xs 1 (Suc n))"
    have "mset ?ys = mset (swap_at xs 1 (Suc n))" "length ?ys = length (swap_at xs 1 (Suc n))"
      by (rule sift_mset; use Suc Suc.prems(3) in simp)+
    moreover have "mset (swap_at xs 1 (Suc n)) = mset xs" by (rule mset_swap_at) (use Suc.prems(3) in auto)
    ultimately have m: "mset ?ys = mset xs" "length ?ys = length xs" by simp_all
    have "sorting n ?ys" by (rule sorting_step) (use Suc Suc.prems in auto)
    then have "sorted_wrt le (sort_down c n ?ys) \<and> mset (sort_down c n ?ys) = mset ?ys"
      by (rule Suc.IH) (use Suc.prems m in \<open>auto dest: mset_eq_setD\<close>)
    then show ?thesis using m Suc by simp
  qed
qed

lemma heap_sort_correct:
  assumes "set xs \<subseteq> A"
  shows "sorted_wrt le (heap_sort c xs)" "mset (heap_sort c xs) = mset xs"
proof -
  let ?n = "length xs"
  have "heap_from c (Suc (?n div 2)) ?n xs" by (auto simp: heap_from_def)
  then have b: "heap_from c 1 ?n (build c (?n div 2) ?n xs)" "mset (build c (?n div 2) ?n xs) = mset xs"
    using build_heap_from[of "?n div 2" ?n xs] assms by auto
  have len: "length (build c (?n div 2) ?n xs) = ?n" using b(2) by (rule mset_eq_length)
  have "sorting ?n (build c (?n div 2) ?n xs)" using b(1) len by (simp add: sorting_def)
  moreover have "set (build c (?n div 2) ?n xs) \<subseteq> A" using assms b(2) by (metis set_mset_mset)
  ultimately show "sorted_wrt le (heap_sort c xs)" "mset (heap_sort c xs) = mset xs"
    using sort_down_sorted[of ?n "build c (?n div 2) ?n xs"] len b(2) by (simp_all add: heap_sort_def)
qed

end

end
