(* ===== verification/Kernel_Stdlib_Rep.thy ===== *)
theory Kernel_Stdlib_Rep
  imports Kernel_Stdlib Kernel_String_Rep Kernel_Heap_Sort
begin

text \<open>
  The algorithms of lib/stdlib.c on memory compute the functions on lists of theory
  Kernel_Heap_Sort.  \<open>elems m a sz xs\<close>: the array at \<open>a\<close> holds the elements \<open>xs\<close>, each a block
  of \<open>sz\<close> bytes.
\<close>

section \<open>Arrays\<close>

definition elems :: "memory \<Rightarrow> addr \<Rightarrow> size_t \<Rightarrow> u8 list list \<Rightarrow> bool" where
  "elems m a sz xs \<longleftrightarrow> bytes_at m a (concat xs) \<and> (\<forall>x \<in> set xs. length x = unat sz)"

definition area :: "addr \<Rightarrow> size_t \<Rightarrow> u8 list list \<Rightarrow> addr set" where
  "area a sz xs = span a (length xs * unat sz)"

lemma area_length: "length ys = length xs \<Longrightarrow> area a sz ys = area a sz xs"
  by (simp add: area_def)

lemma length_concat_elems: "\<forall>x \<in> set xs. length x = k \<Longrightarrow> length (concat xs) = length xs * k"
  by (induction xs) simp_all

lemma elems_length: "elems m a sz xs \<Longrightarrow> length (concat xs) = length xs * unat sz"
  by (simp add: elems_def length_concat_elems)

lemma elems_split:
  assumes "elems m a sz xs" "j < length xs"
  shows "length (concat (take j xs)) = j * unat sz" "length (xs ! j) = unat sz"
    "concat xs = concat (take j xs) @ xs ! j @ concat (drop (Suc j) xs)"
    "concat (xs[j := y]) = concat (take j xs) @ y @ concat (drop (Suc j) xs)"
proof -
  have "\<forall>x \<in> set (take j xs). length x = unat sz" using assms(1) by (auto simp: elems_def dest: in_set_takeD)
  then show "length (concat (take j xs)) = j * unat sz" using length_concat_elems assms(2) by fastforce
  show "length (xs ! j) = unat sz" using assms by (simp add: elems_def)
  have "xs = take j xs @ xs ! j # drop (Suc j) xs" by (rule id_take_nth_drop[OF assms(2)])
  then show "concat xs = concat (take j xs) @ xs ! j @ concat (drop (Suc j) xs)"
    by (metis concat.simps(2) concat_append)
  show "concat (xs[j := y]) = concat (take j xs) @ y @ concat (drop (Suc j) xs)"
    using assms(2) by (simp add: upd_conv_take_nth_drop)
qed

text \<open>The address of the element at the 1-based position \<open>i\<close>.\<close>

lemma position: "i \<noteq> 0 \<Longrightarrow> (i - 1) * sz = (of_nat ((unat i - 1) * unat sz) :: size_t)"
  using unat_minus_one[of i] by (metis of_nat_mult of_nat_unat ucast_id unat_minus_one)

lemma elems_nth:
  assumes "elems m a sz xs" "j < length xs"
  shows "bytes_at m (a + of_nat (j * unat sz)) (xs ! j)"
proof -
  note s = elems_split[OF assms]
  have "bytes_at m a (concat (take j xs) @ xs ! j @ concat (drop (Suc j) xs))"
    using assms(1) s(3) by (simp add: elems_def)
  then show ?thesis using s(1) by (simp only: bytes_at_append)
qed

lemma elem_span:
  assumes "elems m a sz xs" "j < length xs"
  shows "span (a + of_nat (j * unat sz)) (unat sz) \<subseteq> area a sz xs"
proof -
  have "length xs = j + 1 + (length xs - Suc j)" using assms(2) by simp
  then have "length xs * unat sz = j * unat sz + (unat sz + (length xs - Suc j) * unat sz)"
    by (metis add.assoc add_mult_distrib nat_mult_1)
  then have "area a sz xs = span a (j * unat sz) \<union> (span (a + of_nat (j * unat sz)) (unat sz) \<union>
      span (a + of_nat (j * unat sz) + of_nat (unat sz)) ((length xs - Suc j) * unat sz))"
    by (simp only: area_def span_add)
  then show ?thesis by blast
qed

lemma elems_bound: "elems m a sz xs \<Longrightarrow> xs \<noteq> [] \<Longrightarrow> sz \<noteq> 0 \<Longrightarrow> unat a + length xs * unat sz \<le> 2 ^ 32 \<and> a \<noteq> 0"
proof -
  assume e: "elems m a sz xs" and ne: "xs \<noteq> []" "sz \<noteq> 0"
  then have "length xs * unat sz \<noteq> 0" by (simp add: unat_eq_zero)
  then have "concat xs \<noteq> []" using elems_length[OF e] by (metis list.size(3))
  then show ?thesis using bytes_at_bound[of m a "concat xs"] e elems_length[OF e] by (simp add: elems_def)
qed

lemma elems_put:
  assumes e: "elems m a sz xs" and j: "j < length xs" and y: "length y = unat sz"
  shows "elems (put m (a + of_nat (j * unat sz)) y) a sz (xs[j := y])"
proof -
  let ?b = "a + of_nat (j * unat sz)" and ?k = "unat sz"
  let ?u = "concat (take j xs)" and ?v = "concat (drop (Suc j) xs)"
  note s = elems_split[OF e j]
  have b: "bytes_at m a ?u" "bytes_at m ?b (xs ! j)" "bytes_at m (?b + of_nat ?k) ?v"
    using e s(1,2,3) by (simp_all add: elems_def bytes_at_append del: of_nat_mult)
  have len: "length (concat xs) = j * ?k + (?k + length ?v)" using s(1,2,3) by simp
  have "bytes_at (put m ?b y) a (?u @ y @ ?v)"
  proof (cases "?k = 0")
    case True
    then have "y = []" "xs ! j = []" using y s(2) by simp_all
    then show ?thesis using e s(3) by (simp add: elems_def)
  next
    case False
    have "xs \<noteq> []" "sz \<noteq> 0" using j False by auto
    then have bd: "unat a + (j * ?k + (?k + length ?v)) \<le> 2 ^ 32"
      using elems_bound[OF e] elems_length[OF e] len by simp
    have ub: "unat ?b = unat a + j * ?k" using unat_add_of_nat[of a "j * ?k"] bd False by simp
    have 1: "span a (length ?u) \<inter> span ?b (length y) = {}"
      unfolding s(1) y by (rule span_disjoint) (use bd in simp)
    have 2: "span (?b + of_nat ?k) (length ?v) \<inter> span ?b (length y) = {}"
      using span_disjoint[of ?b ?k "length ?v"] bd ub y by auto
    have "bytes_at (put m ?b y) a ?u" using bytes_at_put_other[OF 1] b(1) by simp
    moreover have "bytes_at (put m ?b y) ?b y" by (rule put_same_bytes[OF b(2)]) (simp add: s(2) y)
    moreover have "bytes_at (put m ?b y) (?b + of_nat ?k) ?v" using bytes_at_put_other[OF 2] b(3) by simp
    ultimately show ?thesis using s(1) y by (simp add: bytes_at_append del: of_nat_mult)
  qed
  moreover have "\<forall>x \<in> set (xs[j := y]). length x = unat sz"
    using e y set_update_subset_insert[of xs j y] by (auto simp: elems_def)
  ultimately show ?thesis by (simp add: elems_def s(4))
qed

section \<open>Swapping\<close>

lemma do_swap_loop_eq:
  "bytes_at m (a + i) x \<Longrightarrow> bytes_at m (b + i) y \<Longrightarrow> length x = unat sz - unat i \<Longrightarrow> length y = unat sz - unat i \<Longrightarrow>
   i \<le> sz \<Longrightarrow> span (a + i) (length x) \<inter> span (b + i) (length x) = {} \<Longrightarrow>
   do_swap_loop a b i sz m = Some (put (put m (a + i) y) (b + i) x)"
proof (induction x arbitrary: y i m)
  case Nil
  then have "\<not> i < sz" "y = []" by (simp_all add: word_less_nat_alt)
  then show ?case by (simp add: do_swap_loop.simps)
next
  case (Cons x0 xs)
  obtain y0 ys where y: "y = y0 # ys" using Cons.prems(3,4) by (cases y) auto
  have lt: "i < sz" using Cons.prems(3) by (simp add: word_less_nat_alt)
  have u: "unat (i + 1) = Suc (unat i)" by (rule unat_Suc_less[OF lt])
  have yb: "bytes_at m (b + i) (y0 # ys)" using Cons.prems(2) y by simp
  note X = block_Cons[OF Cons.prems(1)] and Y = block_Cons[OF yb]
  have len: "length ys = length xs" using Cons.prems(3,4) y by simp
  have d: "a + i \<noteq> b + i" "a + i \<notin> span (b + i + 1) (length xs)" "b + i \<notin> span (a + i + 1) (length xs)"
    "span (a + i + 1) (length xs) \<inter> span (b + i + 1) (length xs) = {}"
    using Cons.prems(6) by (auto simp: span_Suc)
  let ?m = "m(a + i \<mapsto> y0, b + i \<mapsto> x0)"
  have "bytes_at ?m (a + i + 1) xs"
    using X(4)[of y0] d(3) by (subst bytes_at_upd) simp_all
  moreover have "bytes_at ?m (b + i + 1) ys"
  proof -
    have "?m = m(b + i \<mapsto> x0, a + i \<mapsto> y0)" using d(1) by (rule fun_upd_twist)
    then show ?thesis using Y(4)[of x0] d(2) len by (simp add: bytes_at_upd del: fun_upd_apply)
  qed
  moreover have "length xs = unat sz - unat (i + 1)" "length ys = unat sz - unat (i + 1)" "i + 1 \<le> sz"
    using Cons.prems(3) u len lt by (simp_all add: inc_le)
  ultimately have "do_swap_loop a b (i + 1) sz ?m = Some (put (put ?m (a + i + 1) ys) (b + i + 1) xs)"
    using Cons.IH[of ?m "i + 1" ys] d(4) unfolding add.assoc[symmetric] by blast
  moreover have "put ?m (a + i + 1) ys = (put (m(a + i \<mapsto> y0)) (a + i + 1) ys)(b + i \<mapsto> x0)"
    by (rule put_upd) (use d(3) len in simp)
  ultimately show ?case
    using X(1,2) Y(1,2) d(1) lt y by (subst do_swap_loop.simps) (simp add: rd_def wr_def)
qed

lemma spans_disjoint:
  assumes e: "elems m a sz xs" and sz: "sz \<noteq> 0" and p: "p < length xs" "q < length xs" "p \<noteq> q"
  shows "span (a + of_nat (p * unat sz)) (unat sz) \<inter> span (a + of_nat (q * unat sz)) (unat sz) = {}"
proof -
  let ?k = "unat sz"
  have bd: "unat a + length xs * ?k \<le> 2 ^ 32" using elems_bound[OF e _ sz] p(1) by (cases "xs = []") auto
  have k: "0 < ?k" using sz unat_gt_0 by blast
  have le: "j * ?k + ?k \<le> length xs * ?k" if "j < length xs" for j
    using that mult_le_mono1[of "Suc j" "length xs" ?k] by simp
  have u: "unat (a + of_nat (j * ?k)) = unat a + j * ?k" if "j < length xs" for j
    by (rule unat_add_of_nat) (use le[OF that] bd k in linarith)
  have s: "r \<in> span (a + of_nat (j * ?k)) ?k \<longleftrightarrow> unat a + j * ?k \<le> unat r \<and> unat r < unat a + j * ?k + ?k"
    if "j < length xs" for r j
    using in_span_iff[of "a + of_nat (j * ?k)" ?k r] u[OF that] le[OF that] bd by simp
  have "p * ?k + ?k \<le> q * ?k \<or> q * ?k + ?k \<le> p * ?k"
    using p(3) mult_le_mono1[of "Suc p" q ?k] mult_le_mono1[of "Suc q" p ?k] by (cases "p < q") auto
  then show ?thesis using s[OF p(1)] s[OF p(2)] by fastforce
qed

lemma do_swap_eq:
  assumes e: "elems m a sz xs" and sz: "sz \<noteq> 0" and ij: "i \<noteq> 0" "j \<noteq> 0" "i \<noteq> j" "unat i \<le> length xs" "unat j \<le> length xs"
  shows "\<exists>m'. do_swap a i j sz m = Some m' \<and> elems m' a sz (swap_at xs (unat i) (unat j)) \<and>
     (\<forall>p. p \<notin> area a sz xs \<longrightarrow> m' p = m p)"
proof -
  let ?k = "unat sz" and ?p = "unat i - 1" and ?q = "unat j - 1"
  let ?A = "a + of_nat (?p * ?k)" and ?B = "a + of_nat (?q * ?k)"
  have pos: "0 < unat i" "0 < unat j" using ij(1,2) by (simp_all add: unat_gt_0)
  have "unat i \<noteq> unat j" using ij(3) by (simp add: word_unat_eq_iff)
  then have pq: "?p < length xs" "?q < length xs" "?p \<noteq> ?q" using ij(4,5) pos by linarith+
  have lx: "length (xs ! ?p) = ?k" "length (xs ! ?q) = ?k" using e pq by (auto simp: elems_def)
  have d: "span ?A ?k \<inter> span ?B ?k = {}" by (rule spans_disjoint[OF e sz pq])
  have "do_swap_loop ?A ?B 0 sz m = Some (put (put m (?A + 0) (xs ! ?q)) (?B + 0) (xs ! ?p))"
  proof (rule do_swap_loop_eq)
    show "bytes_at m (?A + 0) (xs ! ?p)" "bytes_at m (?B + 0) (xs ! ?q)"
      unfolding add_0_right by (rule elems_nth[OF e pq(1)], rule elems_nth[OF e pq(2)])
  qed (use lx d in simp_all)
  then have sw: "do_swap a i j sz m = Some (put (put m ?A (xs ! ?q)) ?B (xs ! ?p))"
    by (simp only: do_swap_def position[OF ij(1)] position[OF ij(2)] add_0_right)
  have e1: "elems (put m ?A (xs ! ?q)) a sz (xs[?p := xs ! ?q])" by (rule elems_put[OF e pq(1) lx(2)])
  have "elems (put (put m ?A (xs ! ?q)) ?B (xs ! ?p)) a sz (xs[?p := xs ! ?q, ?q := xs ! ?p])"
    by (rule elems_put[OF e1]) (use pq lx in simp_all)
  moreover have "put (put m ?A (xs ! ?q)) ?B (xs ! ?p) r = m r" if "r \<notin> area a sz xs" for r
  proof -
    have "r \<notin> span ?A (length (xs ! ?q))" "r \<notin> span ?B (length (xs ! ?p))"
      using that elem_span[OF e pq(1)] elem_span[OF e pq(2)] lx by auto
    then show ?thesis by (simp add: put_other)
  qed
  moreover have "swap_at xs (unat i) (unat j) = xs[?p := xs ! ?q, ?q := xs ! ?p]" by (simp add: swap_at_def at_def)
  ultimately show ?thesis using sw by (intro exI[of _ "put (put m ?A (xs ! ?q)) ?B (xs ! ?p)"]) simp
qed

section \<open>The comparison function\<close>

text \<open>
  The contract between \<open>sort\<close> and \<open>binary_search\<close> and the comparison function that their
  caller passes: on two elements in memory it returns the result of a total preorder \<open>c\<close> on
  their bytes.
\<close>

locale memory_cmp = preorder_cmp c "{x. length x = unat sz}"
  for c :: "u8 list \<Rightarrow> u8 list \<Rightarrow> int" and sz :: size_t +
  fixes cmp :: "'aux comparison_fun" and aux :: 'aux
  assumes cmp_reads: "bytes_at m p x \<Longrightarrow> bytes_at m q y \<Longrightarrow> length x = unat sz \<Longrightarrow> length y = unat sz \<Longrightarrow>
      cmp m p q aux = Some (c x y)"
    and sz_pos: "sz \<noteq> 0"
begin

lemma do_compare_eq:
  assumes "elems m a sz xs" "i \<noteq> 0" "j \<noteq> 0" "unat i \<le> length xs" "unat j \<le> length xs"
  shows "do_compare a i j sz cmp aux m = Some (c (at xs (unat i)) (at xs (unat j)))"
proof -
  have ij: "unat i - 1 < length xs" "unat j - 1 < length xs"
    using assms(2-5) unat_gt_0[of i] unat_gt_0[of j] by auto
  then have len: "length (xs ! (unat i - 1)) = unat sz" "length (xs ! (unat j - 1)) = unat sz"
    using assms(1) by (auto simp: elems_def)
  show ?thesis
    using cmp_reads[OF elems_nth[OF assms(1) ij(1)] elems_nth[OF assms(1) ij(2)] len]
    unfolding do_compare_def position[OF assms(2)] position[OF assms(3)] at_def .
qed

lemma heapify_eq:
  "elems m a sz xs \<Longrightarrow> i \<noteq> 0 \<Longrightarrow> i \<le> n \<Longrightarrow> unat n \<le> length xs \<Longrightarrow> 2 * unat n + 1 < 2 ^ 32 \<Longrightarrow>
   \<exists>m'. heapify a i n sz cmp aux m = Some m' \<and> elems m' a sz (sift c (unat i) (unat n) xs) \<and>
     (\<forall>p. p \<notin> area a sz xs \<longrightarrow> m' p = m p)"
proof (induction "unat n + 1 - unat i" arbitrary: i m xs rule: less_induct)
  case less
  note e = less.prems(1) and i = less.prems(2,3) and n = less.prems(4,5)
  let ?i = "unat i" and ?n = "unat n"
  have i': "1 \<le> ?i" "?i \<le> ?n" using i by (simp_all add: word_le_nat_alt unat_gt_0 Suc_le_eq)
  have u: "unat (2 * i) = 2 * ?i" "unat (2 * i + 1) = 2 * ?i + 1"
  proof -
    have two: "2 * i = i + of_nat ?i" by simp
    have "unat (i + of_nat ?i) = ?i + ?i" by (rule unat_add_of_nat) (use n(2) i' in linarith)
    then show 2: "unat (2 * i) = 2 * ?i" unfolding two by simp
    have "unat (2 * i + of_nat 1) = unat (2 * i) + 1" by (rule unat_add_of_nat) (use 2 n(2) i' in linarith)
    then show "unat (2 * i + 1) = 2 * ?i + 1" using 2 by simp
  qed
  have L: "2 * i \<le> n \<longleftrightarrow> 2 * ?i \<le> ?n" and R: "2 * i + 1 \<le> n \<longleftrightarrow> 2 * ?i + 1 \<le> ?n"
    using u by (simp_all add: word_le_nat_alt)
  have nz: "2 * i \<noteq> 0" "2 * i + 1 \<noteq> 0" using u i'(1) by (metis add_is_0 mult_is_0 not_one_le_zero unat_0 zero_neq_numeral, metis add_is_0 one_neq_zero unat_0)
  define mx1 where "mx1 = (if 2 * i \<le> n \<and> c (at xs (2 * ?i)) (at xs ?i) > 0 then 2 * i else i)"
  define mx where "mx = (if 2 * i + 1 \<le> n \<and> c (at xs (2 * ?i + 1)) (at xs (unat mx1)) > 0 then 2 * i + 1 else mx1)"
  have mx: "unat mx = child_max c ?i ?n xs"
    unfolding mx_def mx1_def child_max_def Let_def L R by (auto simp: u)
  have mx1: "mx1 \<noteq> 0" "unat mx1 \<le> length xs"
    using nz i i' n L u by (auto simp: mx1_def)
  have cL: "do_compare a (2 * i) i sz cmp aux m = Some (c (at xs (2 * ?i)) (at xs ?i))" if "2 * i \<le> n"
    using do_compare_eq[OF e nz(1) i(1)] that n(1) i'(2) u unfolding L by simp
  have cR: "do_compare a (2 * i + 1) mx1 sz cmp aux m = Some (c (at xs (2 * ?i + 1)) (at xs (unat mx1)))" if "2 * i + 1 \<le> n"
    using do_compare_eq[OF e nz(2) mx1(1) _ mx1(2)] that n(1) u unfolding R by simp
  have step: "heapify a i n sz cmp aux m = (if mx = i then Some m else do {
      m \<leftarrow> do_swap a i mx sz m; heapify a mx n sz cmp aux m })"
  proof -
    have "(if 2 * i \<le> n then do { c \<leftarrow> do_compare a (2 * i) i sz cmp aux m; Some (if c > 0 then 2 * i else i) } else Some i) = Some mx1"
      using cL by (simp add: mx1_def)
    moreover have "(if 2 * i + 1 \<le> n then do { c \<leftarrow> do_compare a (2 * i + 1) mx1 sz cmp aux m;
        Some (if c > 0 then 2 * i + 1 else mx1) } else Some mx1) = Some mx"
      using cR by (simp add: mx_def)
    ultimately show ?thesis by (subst heapify.simps) (simp add: Let_def)
  qed
  show ?case
  proof (cases "mx = i")
    case True
    then have "sift c ?i ?n xs = xs" using mx by (simp add: sift.simps)
    then show ?thesis using step True e by simp
  next
    case False
    then have ne: "child_max c ?i ?n xs \<noteq> ?i" using mx by (metis word_unat_eq_iff)
    then have m: "?i < unat mx" "unat mx \<le> ?n" using child_max_cases[of c ?i ?n xs] mx i' by auto
    then have mxn: "mx \<noteq> 0" "mx \<le> n" by (auto simp: word_le_nat_alt)
    obtain m1 where m1: "do_swap a i mx sz m = Some m1" "elems m1 a sz (swap_at xs ?i (unat mx))"
      "\<forall>p. p \<notin> area a sz xs \<longrightarrow> m1 p = m p"
      using do_swap_eq[OF e sz_pos i(1) mxn(1)] False m n(1) i' by auto
    have "\<exists>m'. heapify a mx n sz cmp aux m1 = Some m' \<and> elems m' a sz (sift c (unat mx) ?n (swap_at xs ?i (unat mx))) \<and>
       (\<forall>p. p \<notin> area a sz (swap_at xs ?i (unat mx)) \<longrightarrow> m' p = m1 p)"
      by (rule less.hyps[OF _ m1(2) mxn]) (use m n i' in simp_all)
    moreover have "sift c ?i ?n xs = sift c (unat mx) ?n (swap_at xs ?i (unat mx))"
      using ne mx by (subst sift.simps) (simp add: Let_def)
    moreover have "area a sz (swap_at xs ?i (unat mx)) = area a sz xs" by (rule area_length) simp
    ultimately show ?thesis using step False m1 by auto
  qed
qed

lemma build_heap_eq:
  "elems m a sz xs \<Longrightarrow> i \<le> n \<Longrightarrow> unat n = length xs \<Longrightarrow> 2 * unat n + 1 < 2 ^ 32 \<Longrightarrow>
   \<exists>m'. build_heap a i n sz cmp aux m = Some m' \<and> elems m' a sz (build c (unat i) (unat n) xs) \<and>
     (\<forall>p. p \<notin> area a sz xs \<longrightarrow> m' p = m p)"
proof (induction "unat i" arbitrary: i m xs)
  case 0
  then have "i = 0" by (simp add: unat_eq_zero)
  then show ?case using 0 by (simp add: build_heap.simps)
next
  case (Suc k)
  have i: "i \<noteq> 0" "unat (i - 1) = k" using count_down[OF Suc.hyps(2)] by simp_all
  have ik: "1 \<le> unat i" "unat i \<le> unat n" using Suc.hyps(2) Suc.prems(2) by (simp_all add: word_le_nat_alt)
  obtain m1 where m1: "heapify a i n sz cmp aux m = Some m1" "elems m1 a sz (sift c (unat i) (unat n) xs)"
    "\<forall>p. p \<notin> area a sz xs \<longrightarrow> m1 p = m p"
    using heapify_eq[OF Suc.prems(1) i(1) Suc.prems(2) _ Suc.prems(4)] Suc.prems(3) by auto
  have len: "length (sift c (unat i) (unat n) xs) = length xs" by (rule sift_mset(2)) (use ik Suc.prems(3) in simp_all)
  have "i - 1 \<le> n" using i ik Suc.hyps(2) by (simp add: word_le_nat_alt)
  then have "\<exists>m'. build_heap a (i - 1) n sz cmp aux m1 = Some m' \<and>
      elems m' a sz (build c (unat (i - 1)) (unat n) (sift c (unat i) (unat n) xs)) \<and>
     (\<forall>p. p \<notin> area a sz (sift c (unat i) (unat n) xs) \<longrightarrow> m' p = m1 p)"
    using Suc.hyps(1)[of "i - 1" m1 "sift c (unat i) (unat n) xs"] i m1(2) len Suc.prems(3,4) by simp
  moreover have "build c (unat i) (unat n) xs = build c (unat (i - 1)) (unat n) (sift c (unat i) (unat n) xs)"
    using i(2) Suc.hyps(2)[symmetric] by simp
  ultimately show ?case
    using m1 i(1) area_length[OF len] by (subst build_heap.simps) (auto simp: word_gt_0)
qed

lemma sort_heap_eq:
  "elems m a sz xs \<Longrightarrow> unat i \<le> length xs \<Longrightarrow> 2 * unat i + 1 < 2 ^ 32 \<Longrightarrow>
   \<exists>m'. sort_heap a i sz cmp aux m = Some m' \<and> elems m' a sz (sort_down c (unat i) xs) \<and>
     (\<forall>p. p \<notin> area a sz xs \<longrightarrow> m' p = m p)"
proof (induction "unat i" arbitrary: i m xs)
  case 0
  then have "i = 0" by (simp add: unat_eq_zero)
  then show ?case using 0 by (simp add: sort_heap.simps)
next
  case (Suc k)
  have i: "i \<noteq> 0" "unat (i - 1) = k" using count_down[OF Suc.hyps(2)] by simp_all
  show ?case
  proof (cases k)
    case 0
    then have "\<not> i > 1" "unat i = Suc 0" using Suc.hyps(2) by (simp_all add: word_less_nat_alt)
    then show ?thesis using Suc.prems(1) by (simp add: sort_heap.simps)
  next
    case (Suc k')
    then have gt: "i > 1" "i - 1 \<noteq> 0" "1 \<noteq> i" using Suc.hyps(2) i by (auto simp: word_less_nat_alt)
    let ?ys = "swap_at xs 1 (unat i)"
    obtain m1 where m1: "do_swap a 1 i sz m = Some m1" "elems m1 a sz ?ys" "\<forall>p. p \<notin> area a sz xs \<longrightarrow> m1 p = m p"
      using do_swap_eq[OF Suc.prems(1) sz_pos _ i(1) gt(3)] Suc.prems(2) Suc.hyps(2) by auto
    have le: "1 \<le> i - 1" using gt(2) i Suc by (simp add: word_le_nat_alt)
    obtain m2 where m2: "heapify a 1 (i - 1) sz cmp aux m1 = Some m2" "elems m2 a sz (sift c 1 k ?ys)"
      "\<forall>p. p \<notin> area a sz ?ys \<longrightarrow> m2 p = m1 p"
      using heapify_eq[OF m1(2) _ le] i(2) Suc.prems(2,3) Suc.hyps(2) by auto
    have len: "length (sift c 1 k ?ys) = length xs"
      using sift_mset(2)[of 1 k ?ys c] Suc Suc.prems(2) Suc.hyps(2) by simp
    have "\<exists>m'. sort_heap a (i - 1) sz cmp aux m2 = Some m' \<and>
        elems m' a sz (sort_down c (unat (i - 1)) (sift c 1 k ?ys)) \<and>
       (\<forall>p. p \<notin> area a sz (sift c 1 k ?ys) \<longrightarrow> m' p = m2 p)"
      by (rule Suc.hyps(1)[OF _ m2(2)]) (use i len Suc.prems(2,3) Suc.hyps(2) in simp_all)
    moreover have "sort_down c (unat i) xs = sort_down c (unat (i - 1)) (sift c 1 k ?ys)"
      using i(2) Suc Suc.hyps(2)[symmetric] by simp
    moreover have "area a sz ?ys = area a sz xs" "area a sz (sift c 1 k ?ys) = area a sz xs"
      by (rule area_length, simp, rule area_length, rule len)
    ultimately show ?thesis
      using m1 m2 gt(1) by (subst sort_heap.simps) auto
  qed
qed

text \<open>\<open>sort\<close> on memory computes the heap sort of the elements.\<close>

lemma sort_array_eq:
  assumes e: "elems m a sz xs" and n: "unat n = length xs" "2 * unat n + 1 < 2 ^ 32"
  shows "\<exists>m'. sort_array a n sz cmp aux m = Some m' \<and> elems m' a sz (heap_sort c xs) \<and>
     (\<forall>p. p \<notin> area a sz xs \<longrightarrow> m' p = m p)"
proof -
  have nn: "a \<noteq> NULL \<or> n = 0"
    using elems_bound[OF e _ sz_pos] n(1) by (cases "xs = []") (auto simp: unat_eq_zero)
  have h: "unat (n div 2) = length xs div 2" using n(1) by (simp add: unat_div)
  have hn: "n div 2 \<le> n" using n(1) h by (simp add: word_le_nat_alt)
  obtain m1 where m1: "build_heap a (n div 2) n sz cmp aux m = Some m1"
    "elems m1 a sz (build c (length xs div 2) (length xs) xs)" "\<forall>p. p \<notin> area a sz xs \<longrightarrow> m1 p = m p"
    using build_heap_eq[OF e hn n] unfolding h n(1) by blast
  have len: "length (build c i k ys) = length ys" if "i \<le> k" "k \<le> length ys" for i k ys
    using that by (induction i arbitrary: ys) (simp_all add: sift_mset(2))
  then have l: "length (build c (length xs div 2) (length xs) xs) = length xs" by simp
  obtain m2 where m2: "sort_heap a n sz cmp aux m1 = Some m2" "elems m2 a sz (heap_sort c xs)"
    "\<forall>p. p \<notin> area a sz (build c (length xs div 2) (length xs) xs) \<longrightarrow> m2 p = m1 p"
    using sort_heap_eq[OF m1(2), of n] n l by (auto simp: heap_sort_def)
  then show ?thesis
    using nn m1 area_length[OF l] sz_pos by (auto simp: sort_array_def word_gt_0)
qed

text \<open>The binary search looks at the elements from \<open>lo\<close> up to \<open>hi\<close>.\<close>

lemma search_arith:
  assumes b: "unat (a :: addr) + n * unat sz < 2 ^ 32" and lh: "lo \<le> hi" "hi \<le> n"
  defines "ft \<equiv> a + of_nat (lo * unat sz)" and "lt \<equiv> a + of_nat (hi * unat sz)"
  shows "ft < lt \<longleftrightarrow> lo < hi"
    "ft + ((lt - ft) div sz div 2) * sz = a + of_nat ((lo + (hi - lo) div 2) * unat sz)"
    "a + of_nat (j * unat sz) + sz = a + of_nat (Suc j * unat sz)"
proof -
  let ?k = "unat sz"
  have k: "0 < ?k" using sz_pos unat_gt_0 by blast
  have le: "lo * ?k \<le> hi * ?k" "hi * ?k \<le> n * ?k" using lh by (simp_all add: mult_le_mono1)
  have u: "unat ft = unat a + lo * ?k" "unat lt = unat a + hi * ?k"
    unfolding ft_def lt_def by (rule unat_add_of_nat, use le b in linarith)+
  show "ft < lt \<longleftrightarrow> lo < hi" using u k by (simp add: word_less_nat_alt)
  have d: "lt - ft = of_nat ((hi - lo) * ?k)"
    using le(1) by (simp add: ft_def lt_def diff_mult_distrib of_nat_diff del: of_nat_mult)
  have "(hi - lo) * ?k \<le> n * ?k" by (rule mult_le_mono1) (use lh in simp)
  then have "(hi - lo) * ?k < 2 ^ 32" using b by linarith
  then have "unat (lt - ft) = (hi - lo) * ?k" unfolding d by (rule unat_size)
  then have "unat ((lt - ft) div sz div 2) = (hi - lo) div 2" using k by (simp add: unat_div)
  then have "(lt - ft) div sz div 2 = of_nat ((hi - lo) div 2)" by (metis of_nat_unat ucast_id)
  then show "ft + ((lt - ft) div sz div 2) * sz = a + of_nat ((lo + (hi - lo) div 2) * ?k)"
    by (simp add: ft_def add_mult_distrib add.assoc)
  show "a + of_nat (j * ?k) + sz = a + of_nat (Suc j * ?k)" by (simp add: add.assoc add.commute[of sz])
qed

lemma key_order:
  assumes "length k = unat sz" "length x = unat sz" "length y = unat sz" "c x y \<le> 0"
  shows "c k x < 0 \<Longrightarrow> c k y \<noteq> 0" "c k y > 0 \<Longrightarrow> c k x \<noteq> 0"
proof -
  have A: "k \<in> {x. length x = unat sz}" "x \<in> {x. length x = unat sz}" "y \<in> {x. length x = unat sz}"
    using assms by simp_all
  show "c k y \<noteq> 0" if "c k x < 0"
    using cmp_trans[OF A(2,3,1) assms(4)] cmp_flip[OF A(1,2)] cmp_flip[OF A(1,3)] that by force
  show "c k x \<noteq> 0" if "c k y > 0"
    using cmp_trans[OF A(1,2,3) _ assms(4)] that by auto
qed

lemma binary_search_loop_eq:
  assumes e: "elems m a sz xs" and k: "bytes_at m kp k" "length k = unat sz"
    and b: "unat a + length xs * unat sz < 2 ^ 32" and s: "sorted_wrt (\<lambda>x y. c x y \<le> 0) xs"
  shows "lo \<le> hi \<Longrightarrow> hi \<le> length xs \<Longrightarrow>
     \<exists>r. binary_search_loop m kp (a + of_nat (lo * unat sz)) (a + of_nat (hi * unat sz)) sz cmp aux = Some r \<and>
       (r = NULL \<and> (\<forall>j. lo \<le> j \<longrightarrow> j < hi \<longrightarrow> c k (xs ! j) \<noteq> 0) \<or>
        (\<exists>j. lo \<le> j \<and> j < hi \<and> r = a + of_nat (j * unat sz) \<and> c k (xs ! j) = 0))"
proof (induction "hi - lo" arbitrary: lo hi rule: less_induct)
  case less
  define ft lt where "ft = a + of_nat (lo * unat sz)" and "lt = a + of_nat (hi * unat sz)"
  note ar = search_arith[OF b less.prems, folded ft_def lt_def]
  show ?case
  proof (cases "lo < hi")
    case False
    then show ?thesis
      unfolding ft_def[symmetric] lt_def[symmetric]
      using less.prems ar(1) by (subst binary_search_loop.simps) simp
  next
    case True
    let ?mid = "lo + (hi - lo) div 2"
    have mid: "lo \<le> ?mid" "?mid < hi" "?mid < length xs" using True less.prems by auto
    have len: "length (xs ! j) = unat sz" if "j < length xs" for j using e that by (simp add: elems_def)
    have cm: "cmp m kp (a + of_nat (?mid * unat sz)) aux = Some (c k (xs ! ?mid))"
      by (rule cmp_reads[OF k(1) elems_nth[OF e mid(3)] k(2) len[OF mid(3)]])
    have so: "c (xs ! i) (xs ! j) \<le> 0" if "i < j" "j < length xs" for i j
      using s that by (simp add: sorted_wrt_iff_nth_less)
    have step: "binary_search_loop m kp ft lt sz cmp aux =
       (if c k (xs ! ?mid) < 0
        then binary_search_loop m kp ft (a + of_nat (?mid * unat sz)) sz cmp aux
        else if c k (xs ! ?mid) > 0
        then binary_search_loop m kp (a + of_nat (Suc ?mid * unat sz)) lt sz cmp aux
        else Some (a + of_nat (?mid * unat sz)))"
      using True ar(1) cm by (subst binary_search_loop.simps) (simp add: Let_def ar(2,3) del: of_nat_mult mult_Suc)
    note step = step[unfolded ft_def lt_def]
    consider "c k (xs ! ?mid) < 0" | "c k (xs ! ?mid) > 0" | "c k (xs ! ?mid) = 0" by linarith
    then show ?thesis
    proof cases
      case 1
      have no: "c k (xs ! j) \<noteq> 0" if "?mid \<le> j" "j < hi" for j
        using 1 that key_order(1)[OF k(2) len[OF mid(3)] len so, of j] less.prems(2) by (cases "j = ?mid") auto
      from less.hyps[of ?mid lo] mid obtain r where
        "binary_search_loop m kp (a + of_nat (lo * unat sz)) (a + of_nat (?mid * unat sz)) sz cmp aux = Some r"
        "r = NULL \<and> (\<forall>j. lo \<le> j \<longrightarrow> j < ?mid \<longrightarrow> c k (xs ! j) \<noteq> 0) \<or>
          (\<exists>j. lo \<le> j \<and> j < ?mid \<and> r = a + of_nat (j * unat sz) \<and> c k (xs ! j) = 0)" by auto
      then show ?thesis using step 1 no mid by (intro exI[of _ r]) (auto simp: not_less)
    next
      case 2
      have no: "c k (xs ! j) \<noteq> 0" if "j \<le> ?mid" for j
        using 2 that key_order(2)[OF k(2) len len[OF mid(3)] so, of j] mid(3) by (cases "j = ?mid") auto
      have "hi - Suc ?mid < hi - lo" "Suc ?mid \<le> hi" using mid by linarith+
      from less.hyps[OF this less.prems(2)] obtain r where r:
        "binary_search_loop m kp (a + of_nat (Suc ?mid * unat sz)) (a + of_nat (hi * unat sz)) sz cmp aux = Some r"
        "r = NULL \<and> (\<forall>j. Suc ?mid \<le> j \<longrightarrow> j < hi \<longrightarrow> c k (xs ! j) \<noteq> 0) \<or>
          (\<exists>j. Suc ?mid \<le> j \<and> j < hi \<and> r = a + of_nat (j * unat sz) \<and> c k (xs ! j) = 0)" by blast
      have split: "j \<le> ?mid \<or> Suc ?mid \<le> j" "Suc ?mid \<le> j \<Longrightarrow> lo \<le> j" for j by linarith+
      have "r = NULL \<and> (\<forall>j. lo \<le> j \<longrightarrow> j < hi \<longrightarrow> c k (xs ! j) \<noteq> 0) \<or>
          (\<exists>j. lo \<le> j \<and> j < hi \<and> r = a + of_nat (j * unat sz) \<and> c k (xs ! j) = 0)"
        using r(2) no split by blast
      moreover have "binary_search_loop m kp (a + of_nat (lo * unat sz)) (a + of_nat (hi * unat sz)) sz cmp aux = Some r"
        using step r(1) 2 by (simp del: of_nat_mult mult_Suc)
      ultimately show ?thesis by blast
    next
      case 3
      then show ?thesis using step mid by (intro exI[of _ "a + of_nat (?mid * unat sz)"]) auto
    qed
  qed
qed

end

section \<open>Comparing by bytes\<close>

text \<open>\<open>memcmp\<close> on the size of an element is such a comparison function.\<close>

definition memcmp_elements :: "size_t comparison_fun" where
  "memcmp_elements m a b sz = memcmp m a b sz"

lemma byte_cmp_flip: "byte_cmp x y < 0 \<longleftrightarrow> byte_cmp y x > 0"
  using byte_cmp_lexord[of x y] byte_cmp_lexord[of y x] by auto

lemma byte_cmp_trans:
  "length x = length y \<Longrightarrow> length y = length z \<Longrightarrow> byte_cmp x y \<le> 0 \<Longrightarrow> byte_cmp y z \<le> 0 \<Longrightarrow> byte_cmp x z \<le> 0"
proof (induction x y arbitrary: z rule: byte_cmp.induct)
  case (1 x xs y ys)
  then obtain w ws where "z = w # ws" by (cases z) auto
  then show ?case using 1 by (auto split: if_splits)
qed auto

lemma memcmp_elements_cmp: "sz \<noteq> 0 \<Longrightarrow> memory_cmp byte_cmp sz memcmp_elements sz"
proof unfold_locales
  show "byte_cmp x z \<le> 0"
    if "x \<in> {x. length x = unat sz}" "y \<in> {x. length x = unat sz}" "z \<in> {x. length x = unat sz}"
      "byte_cmp x y \<le> 0" "byte_cmp y z \<le> 0" for x y z
    by (rule byte_cmp_trans[of x y z]) (use that in auto)
qed (auto simp: memcmp_elements_def byte_cmp_flip memcmp_eq)

interpretation word_elems: memory_cmp byte_cmp 4 memcmp_elements 4
  by (rule memcmp_elements_cmp) simp

end
