(* ===== verification/Kernel_Number_Rep.thy ===== *)
theory Kernel_Number_Rep
  imports Kernel_Stdlib Kernel_String_Rep
begin

text \<open>
  The conversion of numbers and the random numbers: \<open>atoi\<close> on the decimal representation of an
  integer, and the permutation that the state of the generator always is.
\<close>

section \<open>Decimal numbers\<close>

definition digit :: "nat \<Rightarrow> u8" where
  "digit d = of_nat (48 + d)"

fun digits :: "nat \<Rightarrow> nat list" where
  "digits n = (if n < 10 then [n] else digits (n div 10) @ [n mod 10])"

declare digits.simps [simp del]

text \<open>The decimal representation, with a minus sign before negative numbers.\<close>

definition decimal :: "int \<Rightarrow> u8 list" where
  "decimal n = (if n < 0 then 45 # map digit (digits (nat (- n))) else map digit (digits (nat n)))"

lemma digits_less: "d \<in> set (digits n) \<Longrightarrow> d < 10"
  by (induction n rule: digits.induct) (subst (asm) (2) digits.simps, auto split: if_splits)

lemma digits_ne: "digits n \<noteq> []"
  by (subst digits.simps) simp

lemma digits_value: "foldl (\<lambda>v d. v * 10 - int d) 0 (digits n) = - int n"
proof (induction n rule: digits.induct)
  case (1 n)
  show ?case
  proof (cases "n < 10")
    case False
    have "int n = int (n div 10) * 10 + int (n mod 10)" by presburger
    then show ?thesis using 1[OF False] False by (subst digits.simps) simp
  qed (subst digits.simps, simp)
qed

lemma uint_digit: "d < 10 \<Longrightarrow> uint (digit d) = 48 + int d"
proof -
  assume "d < 10"
  then have "unat (digit d) = 48 + d" unfolding digit_def by (subst unat_of_nat) simp
  then show ?thesis by (metis of_nat_add of_nat_numeral uint_nat)
qed

lemma ucast_digit: "d < 10 \<Longrightarrow> (ucast (digit d) :: u32) - 48 = of_nat d"
  by (simp add: ucast_eq uint_digit)

lemma digit_ne: "d < 10 \<Longrightarrow> digit d \<noteq> 0"
  using uint_digit[of d] by auto

lemma isdigit_digit: "d < 10 \<Longrightarrow> isdigit (uint (digit d))"
  by (simp add: uint_digit isdigit_def)

lemma not_digit_0 [simp]: "\<not> isdigit 0"
  by (simp add: isdigit_def)

lemma atoi_digits_eq:
  "cstr m a (map digit ds) \<Longrightarrow> (\<forall>d \<in> set ds. d < 10) \<Longrightarrow>
   atoi_digits m a (word_of_int v) = Some (word_of_int (foldl (\<lambda>v d. v * 10 - int d) v ds))"
proof (induction ds arbitrary: a v)
  case Nil
  then show ?case by (subst atoi_digits.simps) (simp add: cstr_Nil rd_def)
next
  case (Cons d ds)
  have "(word_of_int v * 10 - (ucast (digit d) - 48) :: u32) = word_of_int (v * 10 - int d)"
    using Cons.prems(2) by (simp add: ucast_digit)
  moreover have "atoi_digits m (a + 1) (word_of_int (v * 10 - int d)) =
      Some (word_of_int (foldl (\<lambda>v d. v * 10 - int d) v (d # ds)))"
    using Cons.IH[of "a + 1" "v * 10 - int d"] Cons.prems by (simp add: cstr_Cons)
  ultimately have "atoi_digits m (a + 1) (word_of_int v * 10 - (ucast (digit d) - 48)) =
      Some (word_of_int (foldl (\<lambda>v d. v * 10 - int d) v (d # ds)))" by (simp only:)
  then show ?case
    using Cons.prems by (subst atoi_digits.simps) (simp add: cstr_Cons rd_def isdigit_digit)
qed

lemma atoi_space_eq:
  "cstr m a (sp @ c # s) \<Longrightarrow> (\<forall>x \<in> set sp. isspace (uint x)) \<Longrightarrow> \<not> isspace (uint c) \<Longrightarrow>
   atoi_space m a = Some (a + of_nat (length sp))"
proof (induction sp arbitrary: a)
  case Nil
  then show ?case by (subst atoi_space.simps) (simp add: cstr_Cons rd_def)
next
  case (Cons x sp)
  then show ?case by (subst atoi_space.simps) (simp add: cstr_Cons rd_def add.assoc)
qed

lemma atoi_eq:
  assumes "cstr m a (sp @ decimal n)" "\<forall>x \<in> set sp. isspace (uint x)"
  shows "atoi m a = Some (word_of_int n)"
proof -
  define ds where "ds = digits (nat \<bar>n\<bar>)"
  have d: "\<forall>d \<in> set ds. d < 10" "ds \<noteq> []" by (simp_all add: ds_def digits_less digits_ne)
  obtain d0 ds' where d0: "ds = d0 # ds'" using d(2) by (cases ds) auto
  define sg :: "u8 list" where "sg = (if n < 0 then [45] else [])"
  have dec: "decimal n = sg @ map digit ds" by (simp add: decimal_def sg_def ds_def)
  have val: "foldl (\<lambda>v d. v * 10 - int d) 0 ds = - \<bar>n\<bar>" using digits_value[of "nat \<bar>n\<bar>"] by (simp add: ds_def)
  let ?b = "a + of_nat (length sp)"
  have ne: "a \<noteq> NULL" by (rule cstr_bound(2)[OF assms(1)])
  have s: "cstr m ?b (sg @ map digit ds)" using cstr_drop[OF assms(1), of "length sp"] dec by simp
  have space: "atoi_space m a = Some ?b"
  proof -
    obtain c s where c: "decimal n = c # s" "\<not> isspace (uint c)"
      using d0 d(1) by (cases "n < 0") (auto simp: dec sg_def uint_digit isspace_def)
    show ?thesis by (rule atoi_space_eq[OF assms(1)[unfolded c(1)] assms(2) c(2)])
  qed
  show ?thesis
  proof (cases "n < 0")
    case True
    then have "rd m ?b = Some 45" "cstr m (?b + 1) (map digit ds)" using s by (simp_all add: sg_def cstr_Cons rd_def)
    then show ?thesis
      using ne space atoi_digits_eq[of m "?b + 1" ds 0] d(1) val True by (simp add: atoi_def)
  next
    case False
    then have c: "rd m ?b = Some (digit d0)" "cstr m ?b (map digit ds)" using s d0 by (simp_all add: sg_def cstr_Cons rd_def)
    have "digit d0 \<noteq> 43" "digit d0 \<noteq> 45" using uint_digit[of d0] d(1) d0 by auto
    then show ?thesis
      using ne space c atoi_digits_eq[OF c(2) d(1), of 0] val False by (simp add: atoi_def)
  qed
qed

section \<open>Random numbers\<close>

definition permuted :: "u8 list \<Rightarrow> bool" where
  "permuted s \<longleftrightarrow> mset s = mset (map of_nat [0..<256])"

lemma permuted_length: "permuted s \<Longrightarrow> length s = 256"
  unfolding permuted_def by (drule mset_eq_length) simp

lemma swap_byte_permuted:
  assumes "permuted s" "a < 256" "b < 256"
  shows "\<exists>s'. swap_byte a b s = Some s' \<and> permuted s'"
  using assms permuted_length[OF assms(1)] mset_swap[of a s b]
  by (cases "a = b") (simp_all add: swap_byte_def permuted_def list_update_swap)

lemma unat_byte: "unat (x :: u8) < 256"
  using unsigned_less[of x] by simp

lemma random_init_loop_permuted:
  "permuted s \<Longrightarrow> \<exists>s'. random_init_loop i j seed s = Some s' \<and> permuted s'"
proof (induction "256 - i" arbitrary: i j s)
  case 0
  then show ?case by (simp add: random_init_loop.simps)
next
  case (Suc k)
  let ?j = "j + (s ! i + ucast (drop_bit (8 * (i mod 4)) seed))"
  have i: "i < 256" using Suc.hyps(2) by simp
  then obtain s' where "swap_byte i (unat ?j) s = Some s'" "permuted s'"
    using swap_byte_permuted[OF Suc.prems _ unat_byte[of ?j], of i] by blast
  then show ?case using Suc.hyps i by (subst random_init_loop.simps) (simp add: Let_def)
qed

lemma random_init_permuted: "\<exists>r. random_init seed = Some r \<and> permuted (s_box r) \<and> inited r"
  using random_init_loop_permuted[of "map of_nat [0..<256]" 0 0 seed]
  by (auto simp: random_init_def permuted_def simp del: upt_Suc)

lemma random_byte_permuted:
  assumes "permuted (s_box r)"
  shows "\<exists>v r'. random_byte r = Some (v, r') \<and> permuted (s_box r') \<and> inited r' = inited r \<and> v \<in> set (s_box r')"
proof -
  let ?i = "s_i r + 1" and ?j = "s_j r + s_box r ! unat (s_i r + 1)"
  obtain s where s: "swap_byte (unat ?i) (unat ?j) (s_box r) = Some s" "permuted s"
    using swap_byte_permuted[OF assms unat_byte unat_byte] by blast
  then show ?thesis
    using permuted_length[OF s(2)] unat_byte by (simp add: random_byte_def Let_def)
qed

lemma random_bytes_loop_permuted:
  "permuted (s_box r) \<Longrightarrow> bytes_at m buf ys \<Longrightarrow> length ys = unat n \<Longrightarrow>
   \<exists>r' xs. random_bytes_loop buf n r m = Some (r', put m buf xs) \<and> length xs = unat n \<and>
     permuted (s_box r') \<and> inited r' = inited r"
proof (induction ys arbitrary: buf n r m)
  case Nil
  then have "n = 0" by (simp add: unat_eq_zero)
  then show ?case using Nil by (auto simp: random_bytes_loop.simps)
next
  case (Cons y ys)
  have n: "n \<noteq> 0" "unat (n - 1) = length ys" using count_down[of "length ys" n] Cons.prems(3) by simp_all
  note b = block_Cons[OF Cons.prems(2)]
  obtain v r1 where v: "random_byte r = Some (v, r1)" "permuted (s_box r1)" "inited r1 = inited r"
    using random_byte_permuted[OF Cons.prems(1)] by blast
  obtain r' xs where r': "random_bytes_loop (buf + 1) (n - 1) r1 (m(buf \<mapsto> v)) = Some (r', put (m(buf \<mapsto> v)) (buf + 1) xs)"
    "length xs = unat (n - 1)" "permuted (s_box r')" "inited r' = inited r1"
    using Cons.IH[OF v(2) b(4) n(2)[symmetric]] by blast
  have "random_bytes_loop buf n r m = Some (r', put m buf (v # xs))"
    using b(1,2) n(1) v(1) r'(1) by (subst random_bytes_loop.simps) (simp add: wr_def word_gt_0)
  moreover have "length (v # xs) = unat n" using r'(2) n Cons.prems(3) by simp
  ultimately show ?case using r'(3,4) v(3) by blast
qed

lemma random_bytes_permuted:
  assumes "inited r \<longrightarrow> permuted (s_box r)" "bytes_at m buf ys" "length ys = unat n"
  shows "\<exists>r' xs. random_bytes buf n r m = Some (r', put m buf xs) \<and> length xs = unat n \<and>
     permuted (s_box r') \<and> inited r'"
proof (cases "inited r")
  case True
  then show ?thesis
    using random_bytes_loop_permuted[OF _ assms(2,3), of r] assms(1) by (auto simp: random_bytes_def)
next
  case False
  obtain r0 where "random_init 0 = Some r0" "permuted (s_box r0)" "inited r0"
    using random_init_permuted by blast
  then show ?thesis
    using False random_bytes_loop_permuted[OF _ assms(2,3), of r0] by (auto simp: random_bytes_def)
qed

end
