(* ===== verification/Kernel_Stdlib_Spec.thy ===== *)
theory Kernel_Stdlib_Spec
  imports Kernel_Stdlib_Rep Kernel_Number_Rep Kernel_String_Spec
begin

text \<open>
  What sorting, searching, the conversion of numbers and the random numbers promise.  The
  examples use elements of two bytes, compared by \<open>memcmp\<close>.
\<close>

interpretation pairs: memory_cmp byte_cmp 2 memcmp_elements 2
  by (rule memcmp_elements_cmp) simp

lemma elems_ex:
  assumes "length pre + length (concat xs) + length post \<le> 0x1000" "\<forall>x \<in> set xs. length x = unat sz"
  shows "elems (ex_memory (pre @ concat xs @ post)) (0x1000 + of_nat (length pre)) sz xs"
  using ex_memory_at[OF assms(1)] assms(2) by (simp add: elems_def)

text \<open>C11: \<open>sort\<close> with any comparison function that computes a total preorder of the elements
  terminates, leaves a permutation of the elements of the array in increasing order and writes
  nothing outside the array.  The array has fewer than \<open>2 ^ 31\<close> elements, so that the index
  \<open>2 * i + 1\<close> of a child does not wrap.\<close>

theorem sort_sorts:
  assumes "memory_cmp c sz cmp aux" "elems m a sz xs" "unat n = length xs" "2 * unat n + 1 < 2 ^ 32"
  shows "\<exists>m' ys. sort_array a n sz cmp aux m = Some m' \<and> elems m' a sz ys \<and> mset ys = mset xs \<and>
     sorted_wrt (\<lambda>x y. c x y \<le> 0) ys \<and> (\<forall>p. p \<notin> area a sz xs \<longrightarrow> m' p = m p)"
proof -
  obtain m' where m': "sort_array a n sz cmp aux m = Some m'" "elems m' a sz (heap_sort c xs)"
    "\<forall>p. p \<notin> area a sz xs \<longrightarrow> m' p = m p"
    using memory_cmp.sort_array_eq[OF assms] by blast
  have "set xs \<subseteq> {x. length x = unat sz}" using assms(2) by (auto simp: elems_def)
  note preorder_cmp.heap_sort_correct[OF memory_cmp.axioms(1)[OF assms(1)] this]
  then show ?thesis using m' by blast
qed

theorem sort_sorts_witness:
  "\<exists>m' ys. sort_array 0x1000 3 2 memcmp_elements 2 (ex_memory [2, 1, 1, 9, 0, 7]) = Some m' \<and>
     elems m' 0x1000 2 ys \<and> mset ys = mset [[2, 1], [1, 9], [0, 7]] \<and> sorted_wrt (\<lambda>x y. byte_cmp x y \<le> 0) ys"
proof -
  have "elems (ex_memory [2, 1, 1, 9, 0, 7]) 0x1000 2 [[2, 1], [1, 9], [0, 7]]"
    using elems_ex[of "[]" "[[2, 1], [1, 9], [0, 7]]" "[]" 2] by simp
  from sort_sorts[OF pairs.memory_cmp_axioms this, of 3] show ?thesis by auto
qed

text \<open>C33: \<open>binary_search\<close> in an array sorted by the comparison function returns the address of
  an element equal to the key, and a null pointer exactly when there is none.  The array does
  not end at the top of the address space, where \<open>array + size * cnt\<close> would wrap to 0.\<close>

theorem binary_search_finds:
  assumes "memory_cmp c sz cmp aux" "elems m a sz xs" "bytes_at m key k" "length k = unat sz"
    "unat n = length xs" "unat a + length xs * unat sz < 2 ^ 32" "sorted_wrt (\<lambda>x y. c x y \<le> 0) xs"
  shows "\<exists>r. binary_search m key a n sz cmp aux = Some r \<and>
     (r = NULL \<longleftrightarrow> (\<forall>x \<in> set xs. c k x \<noteq> 0)) \<and>
     (r \<noteq> NULL \<longrightarrow> (\<exists>j < length xs. r = a + of_nat (j * unat sz) \<and> c k (xs ! j) = 0))"
proof -
  have "sz * n = of_nat (length xs * unat sz)"
    using assms(5) by (metis mult.commute of_nat_mult of_nat_unat ucast_id)
  then have call: "binary_search m key a n sz cmp aux = binary_search_loop m key
      (a + of_nat (0 * unat sz)) (a + of_nat (length xs * unat sz)) sz cmp aux"
    by (simp add: binary_search_def)
  obtain r where r: "binary_search m key a n sz cmp aux = Some r"
    "r = NULL \<and> (\<forall>j. 0 \<le> j \<longrightarrow> j < length xs \<longrightarrow> c k (xs ! j) \<noteq> 0) \<or>
     (\<exists>j. 0 \<le> j \<and> j < length xs \<and> r = a + of_nat (j * unat sz) \<and> c k (xs ! j) = 0)"
    using memory_cmp.binary_search_loop_eq[OF assms(1,2,3,4,6,7) le0 order_refl] call by auto
  have nn: "a + of_nat (j * unat sz) \<noteq> NULL" if "j < length xs" for j
  proof -
    have b: "bytes_at m (a + of_nat (j * unat sz)) (xs ! j)" by (rule elems_nth[OF assms(2) that])
    have "length (xs ! j) = unat sz" using assms(2) that by (simp add: elems_def)
    then have "xs ! j \<noteq> []" using memory_cmp.sz_pos[OF assms(1)] by (auto simp: unat_eq_zero)
    then show ?thesis using bytes_at_bound[OF b] by simp
  qed
  consider "r = NULL" "\<forall>x \<in> set xs. c k x \<noteq> 0"
    | j where "j < length xs" "r = a + of_nat (j * unat sz)" "c k (xs ! j) = 0"
    using r(2) by (elim disjE exE conjE) (simp_all add: all_set_conv_all_nth del: of_nat_mult)
  then show ?thesis
  proof cases
    case 1
    then show ?thesis using r(1) by simp
  next
    case 2
    have "r \<noteq> NULL" "xs ! j \<in> set xs" using 2 nn[OF 2(1)] by (simp_all del: of_nat_mult)
    then show ?thesis using r(1) 2 by (intro exI[of _ r]) blast
  qed
qed

theorem binary_search_finds_witness:
  "\<exists>r j. binary_search (ex_memory [0, 7, 1, 9, 2, 1, 1, 9]) 0x1006 0x1000 3 2 memcmp_elements 2 = Some r \<and>
     r \<noteq> NULL \<and> j < 3 \<and> r = 0x1000 + of_nat (j * 2)"
proof -
  let ?m = "ex_memory [0, 7, 1, 9, 2, 1, 1, 9]" and ?xs = "[[0, 7], [1, 9], [2, 1]] :: u8 list list"
  have e: "elems ?m 0x1000 2 ?xs" using elems_ex[of "[]" ?xs "[1, 9]" 2] by simp
  have k: "bytes_at ?m 0x1006 [1, 9]" using ex_memory_at[of "concat ?xs" "[1, 9]" "[]"] by simp
  have s: "sorted_wrt (\<lambda>x y. byte_cmp x y \<le> 0) ?xs" by simp
  obtain r where r: "binary_search ?m 0x1006 0x1000 3 2 memcmp_elements 2 = Some r"
    "r \<noteq> NULL" and "\<exists>j < length ?xs. r = 0x1000 + of_nat (j * unat (2 :: size_t))"
    using binary_search_finds[OF pairs.memory_cmp_axioms e k _ _ _ s, of 3] by auto
  then obtain j where "j < length ?xs" "r = 0x1000 + of_nat (j * unat (2 :: size_t))" by blast
  then have "j < 3" "r = 0x1000 + of_nat (j * 2)" by simp_all
  then show ?thesis using r by blast
qed

text \<open>\<open>atoi\<close> reads back every \<open>int\<close> from its decimal representation after any amount of
  white space, the smallest one \<open>- 2 ^ 31\<close> included, whose absolute value is not an \<open>int\<close>.\<close>

lemma atoi_decimal:
  assumes "cstr m a (sp @ decimal n)" "\<forall>x \<in> set sp. isspace (uint x)" "- (2 ^ 31) \<le> n" "n < 2 ^ 31"
  shows "\<exists>r. atoi m a = Some r \<and> sint r = n"
proof -
  have "sint (word_of_int n :: u32) = n"
    using assms(3,4) by (simp add: sint_sbintrunc' signed_take_bit_int_eq_self)
  then show ?thesis using atoi_eq[OF assms(1,2)] by blast
qed

lemma atoi_decimal_example: "\<exists>r. atoi (ex_memory [32, 45, 52, 50, 0]) 0x1000 = Some r \<and> sint r = - 42"
proof -
  have d: "decimal (- 42) = [45, 52, 50]" by (simp add: decimal_def digits.simps digit_def)
  have "cstr (ex_memory [32, 45, 52, 50, 0]) 0x1000 ([32] @ decimal (- 42))"
    using ex_memory_at[of "[]" "[32, 45, 52, 50, 0]" "[]"] by (simp add: d cstr_def)
  moreover have "\<forall>x \<in> set [32 :: u8]. isspace (uint x)" by (simp add: isspace_def)
  ultimately show ?thesis by (rule atoi_decimal) simp_all
qed


definition ex_random :: random_state where
  "ex_random = \<lparr>s_box = [], s_i = 0, s_j = 0, inited = False\<rparr>"


end
