(* ===== verification/Kernel_Stdio.thy ===== *)
theory Kernel_Stdio
  imports Kernel_String
begin

text \<open>
  Formatted output, lib/stdio.c.  A function \<open>output (char, aux)\<close> is a function on the value
  that \<open>aux\<close> points to and the memory.  The format is a string in memory; the string literals
  of the source are wherever the linker puts them, given by the field \<open>literal\<close>.  A \<open>va_list\<close> is the list
  of the arguments still to come, each of one word or of a doubleword; the types \<open>int\<close>,
  \<open>long\<close>, \<open>ptrdiff_t\<close>, \<open>size_t\<close> and pointers are words, \<open>long long\<close> and \<open>intmax_t\<close>
  doublewords.  Taking an argument of the wrong size, or one that is not there, fails.
  Arithmetic on \<open>int\<close> wraps.  The names of the argument types have the suffix \<open>_ARG\<close>.
\<close>

type_synonym 'aux output_fun = "u8 \<Rightarrow> 'aux \<Rightarrow> memory \<Rightarrow> ('aux \<times> memory) option"
type_synonym u16 = "16 word"

abbreviation ascii :: "char \<Rightarrow> u8" where
  "ascii c \<equiv> of_char c"

definition chars :: "string \<Rightarrow> u8 list" where
  "chars s = map ascii s"

section \<open>Arguments\<close>

datatype vararg = Arg32 u32 | Arg64 u64

fun va_word :: "vararg list \<Rightarrow> (u32 \<times> vararg list) option" where
  "va_word (Arg32 w # args) = Some (w, args)"
| "va_word args = None"

fun va_doubleword :: "vararg list \<Rightarrow> (u64 \<times> vararg list) option" where
  "va_doubleword (Arg64 d # args) = Some (d, args)"
| "va_doubleword args = None"

section \<open>Conversion specifications\<close>

definition MINUS :: u32 where "MINUS = 1"
definition PLUS :: u32 where "PLUS = 2"
definition SPACE :: u32 where "SPACE = 4"
definition POUND :: u32 where "POUND = 8"
definition ZERO :: u32 where "ZERO = 16"
definition GROUP :: u32 where "GROUP = 32"

datatype conversion_type = CHAR_ARG | SHORT_ARG | INT_ARG | INTMAX_ARG | LONG_ARG | LONGLONG_ARG | PTRDIFFT_ARG | SIZET_ARG

record printf_conversion =
  flags :: u32
  width :: u32
  precision :: u32
  arg_type :: conversion_type

record integer_base =
  radix :: u64
  radix_digits :: "u8 list"
  radix_x :: u8
  radix_group :: u32

definition base_d :: integer_base where
  "base_d = \<lparr>radix = 10, radix_digits = chars ''0123456789'', radix_x = 0, radix_group = 3\<rparr>"

definition base_o :: integer_base where
  "base_o = \<lparr>radix = 8, radix_digits = chars ''01234567'', radix_x = 0, radix_group = 3\<rparr>"

definition base_x :: integer_base where
  "base_x = \<lparr>radix = 16, radix_digits = chars ''0123456789abcdef'', radix_x = ascii CHR ''x'', radix_group = 4\<rparr>"

definition base_X :: integer_base where
  "base_X = \<lparr>radix = 16, radix_digits = chars ''0123456789ABCDEF'', radix_x = ascii CHR ''X'', radix_group = 4\<rparr>"

text \<open>The flag of a character; the other characters are \<open>not_a_flag\<close>.\<close>

definition flag_of :: "u8 \<Rightarrow> u32 option" where
  "flag_of c = (if c = ascii CHR ''-'' then Some MINUS
     else if c = ascii CHR ''+'' then Some PLUS
     else if c = ascii CHR '' '' then Some SPACE
     else if c = ascii CHR ''#'' then Some POUND
     else if c = ascii CHR ''0'' then Some ZERO
     else if c = 39 then Some GROUP
     else None)"

partial_function (option) parse_flags :: "memory \<Rightarrow> addr \<Rightarrow> u32 \<Rightarrow> (addr \<times> u32) option" where
  "parse_flags m format fl = do {
     c \<leftarrow> rd m format;
     (case flag_of c of Some f \<Rightarrow> parse_flags m (format + 1) (fl OR f) | None \<Rightarrow> Some (format, fl)) }"

text \<open>The loop over the digits of a field width or a precision.\<close>

partial_function (option) parse_digits :: "memory \<Rightarrow> addr \<Rightarrow> u32 \<Rightarrow> (addr \<times> u32) option" where
  "parse_digits m format v = do {
     c \<leftarrow> rd m format;
     if isdigit (uint c) then parse_digits m (format + 1) (v * 10 + ucast c - 48) else Some (format, v) }"

definition parse_width ::
  "memory \<Rightarrow> addr \<Rightarrow> vararg list \<Rightarrow> u32 \<Rightarrow> (addr \<times> u32 \<times> u32 \<times> vararg list) option" where
  "parse_width m format args fl = do {
     c \<leftarrow> rd m format;
     (format, w, args) \<leftarrow>
       (if c = ascii CHR ''*'' then do { (w, args) \<leftarrow> va_word args; Some (format + 1, w, args) }
        else do { (format, w) \<leftarrow> parse_digits m format 0; Some (format, w, args) });
     Some (if sint w < 0 then (format, - w, fl OR MINUS, args) else (format, w, fl, args)) }"

definition parse_precision ::
  "memory \<Rightarrow> addr \<Rightarrow> vararg list \<Rightarrow> u32 \<Rightarrow> (addr \<times> u32 \<times> u32 \<times> vararg list) option" where
  "parse_precision m format args fl = do {
     c \<leftarrow> rd m format;
     (format, p, args) \<leftarrow>
       (if c = ascii CHR ''.'' then do {
          c \<leftarrow> rd m (format + 1);
          (format, p, args) \<leftarrow>
            (if c = ascii CHR ''*'' then do { (p, args) \<leftarrow> va_word args; Some (format + 2, p, args) }
             else do { (format, p) \<leftarrow> parse_digits m (format + 1) 0; Some (format, p, args) });
          Some (format, if sint p < 0 then - 1 else p, args) }
        else Some (format, - 1, args));
     Some (format, p, if sint p \<ge> 0 then fl AND NOT ZERO else fl, args) }"

definition parse_type :: "memory \<Rightarrow> addr \<Rightarrow> (addr \<times> conversion_type) option" where
  "parse_type m format = do {
     c \<leftarrow> rd m format;
     if c = ascii CHR ''h'' then do {
       c \<leftarrow> rd m (format + 1);
       Some (if c = ascii CHR ''h'' then (format + 2, CHAR_ARG) else (format + 1, SHORT_ARG)) }
     else if c = ascii CHR ''j'' then Some (format + 1, INTMAX_ARG)
     else if c = ascii CHR ''l'' then do {
       c \<leftarrow> rd m (format + 1);
       Some (if c = ascii CHR ''l'' then (format + 2, LONGLONG_ARG) else (format + 1, LONG_ARG)) }
     else if c = ascii CHR ''t'' then Some (format + 1, PTRDIFFT_ARG)
     else if c = ascii CHR ''z'' then Some (format + 1, SIZET_ARG)
     else Some (format, INT_ARG) }"

definition parse_conversion ::
  "memory \<Rightarrow> addr \<Rightarrow> vararg list \<Rightarrow> (addr \<times> printf_conversion \<times> vararg list) option" where
  "parse_conversion m format args = do {
     (format, fl) \<leftarrow> parse_flags m format 0;
     let fl = (if fl AND MINUS \<noteq> 0 then fl AND NOT ZERO else fl);
     let fl = (if fl AND PLUS \<noteq> 0 then fl AND NOT SPACE else fl);
     (format, w, fl, args) \<leftarrow> parse_width m format args fl;
     (format, p, fl, args) \<leftarrow> parse_precision m format args fl;
     (format, ty) \<leftarrow> parse_type m format;
     Some (format, \<lparr>flags = fl, width = w, precision = p, arg_type = ty\<rparr>, args) }"

section \<open>Output of integers and strings\<close>

function output_dup :: "u8 \<Rightarrow> size_t \<Rightarrow> 'aux output_fun \<Rightarrow> 'aux \<Rightarrow> memory \<Rightarrow> ('aux \<times> memory) option" where
  "output_dup ch cnt out aux m =
     (if cnt > 0 then (case out ch aux m of None \<Rightarrow> None | Some (aux, m) \<Rightarrow> output_dup ch (cnt - 1) out aux m)
      else Some (aux, m))"
  by pat_completeness auto
termination by (relation "measure (\<lambda>(c, n, f, a, m). unat n)") (auto simp: word_loop word_gt_0)

text \<open>
  \<open>format_string\<close>: its argument is a pointer into memory or the address of a local character;
  \<open>string i m\<close> is the character at index \<open>i\<close>.
\<close>

type_synonym char_reader = "int \<Rightarrow> memory \<Rightarrow> u8 option"

function format_string_loop ::
  "char_reader \<Rightarrow> int \<Rightarrow> int \<Rightarrow> 'aux output_fun \<Rightarrow> 'aux \<Rightarrow> memory \<Rightarrow> ('aux \<times> memory) option" where
  "format_string_loop string i len out aux m =
     (if i < len then
        (case string i m of None \<Rightarrow> None
         | Some c \<Rightarrow> (case out c aux m of None \<Rightarrow> None
                     | Some (aux, m) \<Rightarrow> format_string_loop string (i + 1) len out aux m))
      else Some (aux, m))"
  by pat_completeness auto
termination by (relation "measure (\<lambda>(s, i, l, f, a, m). nat (l - i))") auto

definition format_string ::
  "char_reader \<Rightarrow> u32 \<Rightarrow> printf_conversion \<Rightarrow> 'aux output_fun \<Rightarrow> 'aux \<Rightarrow> memory \<Rightarrow> ('aux \<times> memory) option" where
  "format_string string len c out aux m = do {
     (aux, m) \<leftarrow> (if sint (width c) > sint len \<and> flags c AND MINUS = 0
                 then output_dup (ascii CHR '' '') (width c - len) out aux m else Some (aux, m));
     (aux, m) \<leftarrow> format_string_loop string 0 (sint len) out aux m;
     if sint (width c) > sint len \<and> flags c AND MINUS \<noteq> 0
     then output_dup (ascii CHR '' '') (width c - len) out aux m else Some (aux, m) }"

text \<open>
  The array \<open>buf\<close> of 64 characters of \<open>format_integer\<close> is the list of the characters below
  \<open>cp\<close>; writing past its end fails.
\<close>

definition put_buf :: "u8 \<Rightarrow> u8 list \<Rightarrow> u8 list option" where
  "put_buf c cp = (if length cp < 64 then Some (cp @ [c]) else None)"

partial_function (option) digits_loop :: "u64 \<Rightarrow> bool \<Rightarrow> integer_base \<Rightarrow> u32 \<Rightarrow> u8 list \<Rightarrow> u8 list option" where
  "digits_loop val grp b digit_cnt cp =
     (if val > 0 then do {
        cp \<leftarrow> (if grp \<and> digit_cnt > 0 \<and> digit_cnt mod radix_group b = 0
              then put_buf (ascii CHR '','') cp else Some cp);
        cp \<leftarrow> put_buf (radix_digits b ! unat (val mod radix b)) cp;
        digits_loop (val div radix b) grp b (digit_cnt + 1) cp }
      else Some cp)"

function zeros_loop :: "int \<Rightarrow> u8 list \<Rightarrow> u8 list option" where
  "zeros_loop prec cp =
     (if int (length cp) < prec \<and> length cp < 63
      then (case put_buf (ascii CHR ''0'') cp of None \<Rightarrow> None | Some cp \<Rightarrow> zeros_loop prec cp)
      else Some cp)"
  by pat_completeness auto
termination by (relation "measure (\<lambda>(p, cp). 63 - length cp)") (auto simp: put_buf_def split: if_splits)

text \<open>The loop that outputs the buffer from its end.\<close>

fun output_chars :: "u8 list \<Rightarrow> 'aux output_fun \<Rightarrow> 'aux \<Rightarrow> memory \<Rightarrow> ('aux \<times> memory) option" where
  "output_chars [] out aux m = Some (aux, m)"
| "output_chars (c # cs) out aux m = do { (aux, m) \<leftarrow> out c aux m; output_chars cs out aux m }"

definition format_integer ::
  "u64 \<Rightarrow> bool \<Rightarrow> bool \<Rightarrow> integer_base \<Rightarrow> printf_conversion \<Rightarrow> 'aux output_fun \<Rightarrow> 'aux \<Rightarrow> memory \<Rightarrow>
   ('aux \<times> memory) option" where
  "format_integer val is_signed negative b c out aux m = do {
     let sgn = (if is_signed then
          (if flags c AND PLUS \<noteq> 0 then (if negative then ascii CHR ''-'' else ascii CHR ''+'')
           else if flags c AND SPACE \<noteq> 0 then (if negative then ascii CHR ''-'' else ascii CHR '' '')
           else if negative then ascii CHR ''-'' else 0)
        else 0);
     let x = (if flags c AND POUND \<noteq> 0 \<and> val \<noteq> 0 then radix_x b else 0);
     cp \<leftarrow> digits_loop val (flags c AND GROUP \<noteq> 0) b 0 [];
     let prec = (if sint (precision c) < 0 then 1 else sint (precision c));
     cp \<leftarrow> zeros_loop prec cp;
     cp \<leftarrow> (if flags c AND POUND \<noteq> 0 \<and> radix b = 8 \<and> (cp = [] \<or> last cp \<noteq> ascii CHR ''0'')
           then put_buf (ascii CHR ''0'') cp else Some cp);
     let pad_cnt = width c - of_nat (length cp) - (if x \<noteq> 0 then 2 else 0) - (if sgn \<noteq> 0 then 1 else 0);
     let pad_cnt = (if sint pad_cnt < 0 then 0 else pad_cnt);
     (aux, m) \<leftarrow> (if flags c AND (MINUS OR ZERO) = 0 then output_dup (ascii CHR '' '') pad_cnt out aux m
                 else Some (aux, m));
     (aux, m) \<leftarrow> (if sgn \<noteq> 0 then out sgn aux m else Some (aux, m));
     (aux, m) \<leftarrow> (if x \<noteq> 0 then do { (aux, m) \<leftarrow> out (ascii CHR ''0'') aux m; out x aux m }
                 else Some (aux, m));
     (aux, m) \<leftarrow> (if flags c AND ZERO \<noteq> 0 then output_dup (ascii CHR ''0'') pad_cnt out aux m
                 else Some (aux, m));
     (aux, m) \<leftarrow> output_chars (rev cp) out aux m;
     if flags c AND MINUS \<noteq> 0 then output_dup (ascii CHR '' '') pad_cnt out aux m else Some (aux, m) }"

declare output_dup.simps [simp del] format_string_loop.simps [simp del] zeros_loop.simps [simp del]
declare parse_flags.simps [code] parse_digits.simps [code] digits_loop.simps [code]

section \<open>Conversions\<close>

fun signed_arg :: "conversion_type \<Rightarrow> vararg list \<Rightarrow> (u64 \<times> vararg list) option" where
  "signed_arg CHAR_ARG args = do { (v, args) \<leftarrow> va_word args; Some (scast (ucast v :: u8), args) }"
| "signed_arg SHORT_ARG args = do { (v, args) \<leftarrow> va_word args; Some (scast (ucast v :: u16), args) }"
| "signed_arg INT_ARG args = do { (v, args) \<leftarrow> va_word args; Some (scast v, args) }"
| "signed_arg INTMAX_ARG args = va_doubleword args"
| "signed_arg LONG_ARG args = do { (v, args) \<leftarrow> va_word args; Some (scast v, args) }"
| "signed_arg LONGLONG_ARG args = va_doubleword args"
| "signed_arg PTRDIFFT_ARG args = do { (v, args) \<leftarrow> va_word args; Some (scast v, args) }"
| "signed_arg SIZET_ARG args = do {
     (v, args) \<leftarrow> va_word args;
     let val = ucast v;
     Some (if val > 0x7FFFFFFF then val - 0xFFFFFFFF - 1 else val, args) }"

fun unsigned_arg :: "conversion_type \<Rightarrow> vararg list \<Rightarrow> (u64 \<times> vararg list) option" where
  "unsigned_arg CHAR_ARG args = do { (v, args) \<leftarrow> va_word args; Some (ucast (ucast v :: u8), args) }"
| "unsigned_arg SHORT_ARG args = do { (v, args) \<leftarrow> va_word args; Some (ucast (ucast v :: u16), args) }"
| "unsigned_arg INT_ARG args = do { (v, args) \<leftarrow> va_word args; Some (ucast v, args) }"
| "unsigned_arg INTMAX_ARG args = va_doubleword args"
| "unsigned_arg LONG_ARG args = do { (v, args) \<leftarrow> va_word args; Some (ucast v, args) }"
| "unsigned_arg LONGLONG_ARG args = va_doubleword args"
| "unsigned_arg PTRDIFFT_ARG args = do { (v, args) \<leftarrow> va_word args; Some (scast v AND 0xFFFFFFFF, args) }"
| "unsigned_arg SIZET_ARG args = do { (v, args) \<leftarrow> va_word args; Some (ucast v, args) }"

record 'aux printer =
  literal :: "string \<Rightarrow> addr"
  emit :: "'aux output_fun"

text \<open>The cases of the \<open>switch\<close> of \<open>__vprintf\<close> that end in a conversion.\<close>

definition supported :: "u8 \<Rightarrow> bool" where
  "supported ch \<longleftrightarrow> ch \<in> set (chars ''diouxXcsp'')"

definition convert :: "'aux printer \<Rightarrow> u8 \<Rightarrow> printf_conversion \<Rightarrow> vararg list \<Rightarrow> 'aux \<Rightarrow>
    memory \<Rightarrow> (vararg list \<times> 'aux \<times> memory) option" where
  "convert pr ch c args aux m = (
     if ch = ascii CHR ''d'' \<or> ch = ascii CHR ''i'' then do {
       (val, args) \<leftarrow> signed_arg (arg_type c) args;
       r \<leftarrow> format_integer (if sint val < 0 then - val else val) True (sint val < 0) base_d c (emit pr) aux m;
       Some (args, r) }
     else if ch = ascii CHR ''o'' \<or> ch = ascii CHR ''u'' \<or> ch = ascii CHR ''x'' \<or> ch = ascii CHR ''X'' then do {
       (val, args) \<leftarrow> unsigned_arg (arg_type c) args;
       let b = (if ch = ascii CHR ''o'' then base_o else if ch = ascii CHR ''u'' then base_d
                else if ch = ascii CHR ''x'' then base_x else base_X);
       r \<leftarrow> format_integer val False False b c (emit pr) aux m;
       Some (args, r) }
     else if ch = ascii CHR ''c'' then do {
       (v, args) \<leftarrow> va_word args;
       r \<leftarrow> format_string (\<lambda>i m. if i = 0 then Some (ucast v) else None) 1 c (emit pr) aux m;
       Some (args, r) }
     else if ch = ascii CHR ''s'' then do {
       (s, args) \<leftarrow> va_word args;
       let s = (if s = NULL then literal pr ''(null)'' else s);
       len \<leftarrow> strnlen m s (precision c);
       r \<leftarrow> format_string (\<lambda>i m. rd m (s + of_int i)) len c (emit pr) aux m;
       Some (args, r) }
     else do {
       (p, args) \<leftarrow> va_word args;
       r \<leftarrow> format_integer (ucast p) False False base_x (c\<lparr>flags := POUND\<rparr>) (emit pr) aux m;
       Some (args, r) })"

definition unsupported_text :: "u8 \<Rightarrow> string" where
  "unsupported_text ch = (if ch \<in> set (chars ''feEgGn'') then ''<<no %%%c in kernel>>''
     else ''<<no %%%c conversion>>'')"

text \<open>
  \<open>__vprintf\<close>.  For an unsupported conversion it calls itself through \<open>__printf\<close>, which is
  \<open>printf_core\<close> below.  The loop
  goes on with the character after the conversion, also when that is after the terminator.
\<close>

partial_function (option) vprintf_core ::
  "'aux printer \<Rightarrow> addr \<Rightarrow> vararg list \<Rightarrow> 'aux \<Rightarrow> memory \<Rightarrow> ('aux \<times> memory) option" where
  "vprintf_core pr format args aux m = do {
     c \<leftarrow> rd m format;
     if c = 0 then Some (aux, m)
     else if c \<noteq> ascii CHR ''%'' then do {
       (aux, m) \<leftarrow> emit pr c aux m;
       vprintf_core pr (format + 1) args aux m }
     else do {
       c \<leftarrow> rd m (format + 1);
       if c = ascii CHR ''%'' then do {
         (aux, m) \<leftarrow> emit pr (ascii CHR ''%'') aux m;
         vprintf_core pr (format + 2) args aux m }
       else do {
         (format, cv, args) \<leftarrow> parse_conversion m (format + 1) args;
         ch \<leftarrow> rd m format;
         if supported ch then do {
           (args, aux, m) \<leftarrow> convert pr ch cv args aux m;
           vprintf_core pr (format + 1) args aux m }
         else do {
           (aux, m) \<leftarrow> vprintf_core pr (literal pr (unsupported_text ch)) [Arg32 (ucast ch)] aux m;
           vprintf_core pr (format + 1) args aux m } } } }"

declare vprintf_core.simps [code]

definition printf_core ::
  "'aux printer \<Rightarrow> addr \<Rightarrow> vararg list \<Rightarrow> 'aux \<Rightarrow> memory \<Rightarrow> ('aux \<times> memory) option" where
  "printf_core pr format args aux m = vprintf_core pr format args aux m"

section \<open>Output into a buffer\<close>

record vsnprintf_aux =
  out_p :: addr
  out_length :: u32
  max_length :: u32

definition vsnprintf_helper :: "vsnprintf_aux output_fun" where
  "vsnprintf_helper ch aux m = (
     let n = out_length aux;
         aux = aux\<lparr>out_length := n + 1\<rparr>
     in if sint n < sint (max_length aux)
        then do { m \<leftarrow> wr (out_p aux) ch m; Some (aux\<lparr>out_p := out_p aux + 1\<rparr>, m) }
        else Some (aux, m))"

definition vsnprintf ::
  "(string \<Rightarrow> addr) \<Rightarrow> addr \<Rightarrow> size_t \<Rightarrow> addr \<Rightarrow> vararg list \<Rightarrow> memory \<Rightarrow> (u32 \<times> memory) option" where
  "vsnprintf lit buffer buf_size format args m = do {
     let aux = \<lparr>out_p = buffer, out_length = 0, max_length = (if buf_size > 0 then buf_size - 1 else 0)\<rparr>;
     (aux, m) \<leftarrow> vprintf_core \<lparr>literal = lit, emit = vsnprintf_helper\<rparr> format args aux m;
     m \<leftarrow> (if buf_size > 0 then wr (out_p aux) 0 m else Some m);
     Some (out_length aux, m) }"

definition snprintf ::
  "(string \<Rightarrow> addr) \<Rightarrow> addr \<Rightarrow> size_t \<Rightarrow> addr \<Rightarrow> vararg list \<Rightarrow> memory \<Rightarrow> (u32 \<times> memory) option" where
  "snprintf lit buffer buf_size format args m = vsnprintf lit buffer buf_size format args m"


section \<open>Output to the console\<close>

text \<open>
  \<open>printf\<close> of a string literal; the printer is the one of the console, whose lock is left to
  its caller (see theory Kernel_Console).
\<close>

definition printf :: "'aux printer \<Rightarrow> string \<Rightarrow> vararg list \<Rightarrow> 'aux \<Rightarrow> memory \<Rightarrow> ('aux \<times> memory) option" where
  "printf pr format args aux m = vprintf_core pr (literal pr format) args aux m"

text \<open>A loop that runs its body for the indices \<open>i\<close> from \<open>a\<close> up to \<open>b\<close>.\<close>

fun for_indices :: "(nat \<Rightarrow> 'aux \<Rightarrow> memory \<Rightarrow> ('aux \<times> memory) option) \<Rightarrow> nat list \<Rightarrow> 'aux \<Rightarrow> memory \<Rightarrow>
    ('aux \<times> memory) option" where
  "for_indices f [] aux m = Some (aux, m)"
| "for_indices f (i # is) aux m = do { (aux, m) \<leftarrow> f i aux m; for_indices f is aux m }"

definition ROUND_DOWN :: "u32 \<Rightarrow> u32 \<Rightarrow> u32" where
  "ROUND_DOWN x step = x div step * step"

definition hex_dump_byte :: "'aux printer \<Rightarrow> addr \<Rightarrow> nat \<Rightarrow> nat \<Rightarrow> 'aux \<Rightarrow> memory \<Rightarrow> ('aux \<times> memory) option" where
  "hex_dump_byte pr buf start i aux m = do {
     b \<leftarrow> rd m (buf + of_nat (i - start));
     printf pr ''%02hhx%c'' [Arg32 (ucast b), Arg32 (ucast (if i = 7 then ascii CHR ''-'' else ascii CHR '' ''))] aux m }"

definition hex_dump_ascii :: "'aux printer \<Rightarrow> addr \<Rightarrow> nat \<Rightarrow> nat \<Rightarrow> 'aux \<Rightarrow> memory \<Rightarrow> ('aux \<times> memory) option" where
  "hex_dump_ascii pr buf start i aux m = do {
     b \<leftarrow> rd m (buf + of_nat (i - start));
     printf pr ''%c'' [Arg32 (ucast (if isprint (uint b) then b else ascii CHR ''.''))] aux m }"

text \<open>The body of the loop of \<open>hex_dump\<close>: one line, for the bytes from \<open>start\<close> up to \<open>fin\<close>.\<close>

definition hex_dump_line ::
  "'aux printer \<Rightarrow> u32 \<Rightarrow> addr \<Rightarrow> nat \<Rightarrow> nat \<Rightarrow> bool \<Rightarrow> 'aux \<Rightarrow> memory \<Rightarrow> ('aux \<times> memory) option" where
  "hex_dump_line pr ofs buf start fin show_ascii aux m = do {
     (aux, m) \<leftarrow> printf pr ''%08jx  '' [Arg64 (ucast (ROUND_DOWN ofs 16))] aux m;
     (aux, m) \<leftarrow> for_indices (\<lambda>i. printf pr ''   '' []) [0..<start] aux m;
     (aux, m) \<leftarrow> for_indices (hex_dump_byte pr buf start) [start..<fin] aux m;
     (aux, m) \<leftarrow> (if show_ascii then do {
          (aux, m) \<leftarrow> for_indices (\<lambda>i. printf pr ''   '' []) [fin..<16] aux m;
          (aux, m) \<leftarrow> printf pr ''|'' [] aux m;
          (aux, m) \<leftarrow> for_indices (\<lambda>i. printf pr '' '' []) [0..<start] aux m;
          (aux, m) \<leftarrow> for_indices (hex_dump_ascii pr buf start) [start..<fin] aux m;
          (aux, m) \<leftarrow> for_indices (\<lambda>i. printf pr '' '' []) [fin..<16] aux m;
          printf pr ''|'' [] aux m }
        else Some (aux, m));
     printf pr [CHR 0x0A] [] aux m }"

function hex_dump ::
  "'aux printer \<Rightarrow> u32 \<Rightarrow> addr \<Rightarrow> size_t \<Rightarrow> bool \<Rightarrow> 'aux \<Rightarrow> memory \<Rightarrow> ('aux \<times> memory) option" where
  "hex_dump pr ofs buf sz show_ascii aux m =
     (if sz > 0 then
        (let start = ofs mod 16;
             fin = (if 16 - start > sz then start + sz else 16);
             n = fin - start
         in case hex_dump_line pr ofs buf (unat start) (unat fin) show_ascii aux m of None \<Rightarrow> None
            | Some (aux, m) \<Rightarrow> hex_dump pr (ofs + n) (buf + n) (sz - n) show_ascii aux m)
      else Some (aux, m))"
  by pat_completeness auto
termination
proof (relation "measure (\<lambda>(pr, ofs, buf, sz, asc, aux, m). unat sz)", goal_cases)
  case (2 pr ofs buf sz asc aux m start fin n)
  have st: "unat start < 16" unfolding 2(2) by (simp add: unat_mod)
  have u: "unat (16 - start) = 16 - unat start"
    using st by (subst unat_sub) (simp_all add: word_le_nat_alt)
  have "0 < unat n \<and> unat n \<le> unat sz"
  proof (cases "16 - start > sz")
    case True
    then have "n = sz" using 2(3,4) by simp
    then show ?thesis using 2(1) by (simp add: word_less_nat_alt)
  next
    case False
    then have "n = 16 - start" using 2(3,4) by simp
    then show ?thesis using False u st by (simp add: word_less_nat_alt)
  qed
  then show ?case by (simp add: unat_sub word_le_nat_alt)
qed simp

declare hex_dump.simps [simp del]

text \<open>The loop over the table \<open>factors\<close>, which ends at its null pointer.\<close>

fun human_readable :: "u64 \<Rightarrow> string list \<Rightarrow> u64 \<times> string" where
  "human_readable sz (f # g # fs) = (if sz \<ge> 1024 then human_readable (sz div 1024) (g # fs) else (sz, f))"
| "human_readable sz [f] = (sz, f)"
| "human_readable sz [] = (sz, [])"

definition print_human_readable_size :: "'aux printer \<Rightarrow> u64 \<Rightarrow> 'aux \<Rightarrow> memory \<Rightarrow> ('aux \<times> memory) option" where
  "print_human_readable_size pr sz aux m =
     (if sz = 1 then printf pr ''1 byte'' [] aux m
      else let (sz, f) = human_readable sz [''bytes'', ''kB'', ''MB'', ''GB'', ''TB'']
           in printf pr ''%llu %s'' [Arg64 sz, Arg32 (literal pr f)] aux m)"

end
