(* ===== verification/Kernel_Stdio_Rep.thy ===== *)
theory Kernel_Stdio_Rep
  imports Kernel_Stdio Kernel_Number_Rep
begin

text \<open>
  Formatted output computes a text, whatever is done with its characters.  \<open>integer_text\<close> is
  what \<open>format_integer\<close> outputs; \<open>printed\<close> is the text of a format, got by an output function
  that only collects the characters, and every other output function gets the same ones.
\<close>

section \<open>Output of several characters\<close>

lemma output_chars_append:
  "output_chars (xs @ ys) out aux m = do { (aux, m) \<leftarrow> output_chars xs out aux m; output_chars ys out aux m }"
proof (induction xs arbitrary: aux m)
  case (Cons c xs)
  then show ?case by (cases "out c aux m") auto
qed simp

lemma output_nothing [simp]: "do { (aux, m) \<leftarrow> x; output_chars [] out aux m } = x"
  by (cases x) auto

lemma output_chars_one: "output_chars [c] out aux m = out c aux m"
  by (cases "out c aux m") auto

lemma output_chars_two: "do { (aux, m) \<leftarrow> out c aux m; out d aux m } = output_chars [c, d] out aux m"
  by (cases "out c aux m") (auto simp: output_chars_one)

lemma output_chars_if:
  "(if P then output_chars xs out aux m else Some (aux, m)) = output_chars (if P then xs else []) out aux m"
  by simp

lemma output_dup_eq: "output_dup ch n out aux m = output_chars (replicate (unat n) ch) out aux m"
proof (induction "unat n" arbitrary: n aux m)
  case 0
  then have "n = 0" by (simp add: unat_eq_zero)
  then show ?case by (simp add: output_dup.simps)
next
  case (Suc k)
  note n = count_down[OF Suc.hyps(2)]
  have "unat n = Suc (unat (n - 1))" using Suc.hyps(2) n by simp
  then show ?case
    using Suc.hyps(1)[of "n - 1"] n
    by (subst output_dup.simps) (auto simp: word_gt_0 split: option.splits)
qed

section \<open>Digits of a number\<close>

text \<open>The digits, lowest first, and the commas between groups of them.\<close>

function low_digits :: "nat \<Rightarrow> nat \<Rightarrow> nat list" where
  "low_digits b n = (if n = 0 \<or> b < 2 then [] else n mod b # low_digits b (n div b))"
  by pat_completeness auto
termination by (relation "measure snd") auto

declare low_digits.simps [simp del]

fun with_commas :: "nat \<Rightarrow> nat \<Rightarrow> u8 list \<Rightarrow> u8 list" where
  "with_commas g i [] = []"
| "with_commas g i (d # ds) = (if i > 0 \<and> i mod g = 0 then [ascii CHR '','', d] else [d]) @ with_commas g (i + 1) ds"

lemma length_low_digits: "n < b ^ k \<Longrightarrow> length (low_digits b n) \<le> k"
proof (induction k arbitrary: n)
  case 0
  then show ?case by (simp add: low_digits.simps)
next
  case (Suc k)
  then have "n div b < b ^ k" by (simp add: div_less_iff_less_mult mult.commute less_mult_imp_div_less)
  then show ?case using Suc.IH by (subst low_digits.simps) simp
qed

lemma low_digits_value: "2 \<le> b \<Longrightarrow> foldr (\<lambda>d v. d + b * v) (low_digits b n) 0 = n"
proof (induction b n rule: low_digits.induct)
  case (1 b n)
  then show ?case by (subst low_digits.simps) auto
qed

lemma low_digits_less: "2 \<le> b \<Longrightarrow> d \<in> set (low_digits b n) \<Longrightarrow> d < b"
proof (induction b n rule: low_digits.induct)
  case (1 b n)
  then show ?case by (subst (asm) (2) low_digits.simps) (auto split: if_splits)
qed

lemma length_with_commas: "length (with_commas g i ds) \<le> 2 * length ds"
  by (induction g i ds rule: with_commas.induct) auto

definition digit_chars :: "integer_base \<Rightarrow> bool \<Rightarrow> nat \<Rightarrow> nat \<Rightarrow> u8 list" where
  "digit_chars b grp i n = (let ds = map (\<lambda>d. radix_digits b ! d) (low_digits (unat (radix b)) n)
     in if grp then with_commas (unat (radix_group b)) i ds else ds)"

lemma digit_chars_0: "digit_chars b grp i 0 = []"
  by (simp add: digit_chars_def low_digits.simps Let_def)

lemma digit_chars_step:
  assumes "n \<noteq> 0" "2 \<le> unat (radix b)"
  shows "digit_chars b grp i n =
     (if grp \<and> i > 0 \<and> i mod unat (radix_group b) = 0 then [ascii CHR '',''] else []) @
     radix_digits b ! (n mod unat (radix b)) # digit_chars b grp (i + 1) (n div unat (radix b))"
  using assms by (simp add: digit_chars_def low_digits.simps[of _ n] Let_def)

lemma digits_loop_eq:
  assumes "2 \<le> unat (radix b)" "radix_group b \<noteq> 0"
  shows "length cp + length (digit_chars b grp (unat i) (unat v)) \<le> 64 \<Longrightarrow> unat i + length (digit_chars b grp (unat i) (unat v)) < 2 ^ 32 \<Longrightarrow>
     digits_loop v grp b i cp = Some (cp @ digit_chars b grp (unat i) (unat v))"
proof (induction "unat v" arbitrary: v i cp rule: less_induct)
  case less
  show ?case
  proof (cases "v = 0")
    case True
    then show ?thesis by (subst digits_loop.simps) (simp add: digit_chars_0)
  next
    case False
    then have v: "v > 0" "unat v \<noteq> 0" by (simp_all add: word_gt_0 unat_eq_zero)
    define cp' where "cp' = cp @ (if grp \<and> unat i > 0 \<and> unat i mod unat (radix_group b) = 0 then [ascii CHR '',''] else []) @
       [radix_digits b ! (unat v mod unat (radix b))]"
    let ?rest = "digit_chars b grp (unat i + 1) (unat v div unat (radix b))"
    have st: "cp @ digit_chars b grp (unat i) (unat v) = cp' @ ?rest"
      using digit_chars_step[OF v(2) assms(1)] by (simp add: cp'_def)
    then have len: "length cp + length (digit_chars b grp (unat i) (unat v)) = length cp' + length ?rest"
      by (metis length_append)
    have "length ?rest < length (digit_chars b grp (unat i) (unat v))"
      using digit_chars_step[OF v(2) assms(1)] by simp
    then have i1: "unat (i + 1) = unat i + 1" using less.prems(2) unat_add_of_nat[of i 1] by simp
    have d: "unat (v div radix b) = unat v div unat (radix b)" "unat (v mod radix b) = unat v mod unat (radix b)"
      by (simp_all add: unat_div unat_mod)
    have "unat (v div radix b) < unat v" unfolding d(1) using assms(1) v(2) by simp
    then have IH: "digits_loop (v div radix b) grp b (i + 1) cp' = Some (cp' @ ?rest)"
      using less.hyps[of "v div radix b" cp' "i + 1"] less.prems len i1 d(1) digit_chars_step[OF v(2) assms(1), of grp "unat i"]
      by simp
    have z: "i > 0 \<longleftrightarrow> unat i > 0" "i mod radix_group b = 0 \<longleftrightarrow> unat i mod unat (radix_group b) = 0"
      by (simp_all add: word_less_nat_alt unat_mod flip: unat_eq_zero)
    have "length cp' \<le> 64" using len less.prems(1) by simp
    then show ?thesis
      using IH v(1) unfolding st
      by (subst digits_loop.simps) (auto simp: z d put_buf_def cp'_def)
  qed
qed


text \<open>A 64-bit number has at most 22 digits in base 8 or higher.\<close>

lemma length_digit_chars:
  assumes "8 \<le> unat (radix b)"
  shows "length (digit_chars b grp i (unat (v :: u64))) \<le> 44"
proof -
  have "unat v < 2 ^ 66" by (rule less_trans[OF unsigned_less]) simp
  also have "(2 :: nat) ^ 66 = 8 ^ 22" by simp
  also have "\<dots> \<le> unat (radix b) ^ 22" using assms by (rule power_mono) simp
  finally have "length (low_digits (unat (radix b)) (unat v)) \<le> 22" by (rule length_low_digits)
  then show ?thesis
    using length_with_commas[of "unat (radix_group b)" i "map (\<lambda>d. radix_digits b ! d) (low_digits (unat (radix b)) (unat v))"]
    by (simp add: digit_chars_def Let_def)
qed

section \<open>The text of an integer\<close>

lemma zeros_loop_eq:
  "length cp \<le> 64 \<Longrightarrow> zeros_loop p cp = Some (cp @ replicate (nat (min p 63) - length cp) (ascii CHR ''0''))"
proof (induction p cp rule: zeros_loop.induct)
  case (1 p cp)
  show ?case
  proof (cases "int (length cp) < p \<and> length cp < 63")
    case True
    then have "nat (min p 63) - length cp = Suc (nat (min p 63) - Suc (length cp))" by linarith
    then show ?thesis
      using True 1 by (subst zeros_loop.simps) (simp add: put_buf_def)
  next
    case False
    then have "nat (min p 63) - length cp = 0" by linarith
    then show ?thesis using False by (subst zeros_loop.simps) auto
  qed
qed

definition sign_char :: "bool \<Rightarrow> bool \<Rightarrow> printf_conversion \<Rightarrow> u8" where
  "sign_char is_signed negative c = (if \<not> is_signed then 0 else if negative then ascii CHR ''-''
     else if flags c AND PLUS \<noteq> 0 then ascii CHR ''+'' else if flags c AND SPACE \<noteq> 0 then ascii CHR '' '' else 0)"

text \<open>The content of the buffer, lowest digit first.\<close>

definition digit_text :: "u64 \<Rightarrow> integer_base \<Rightarrow> printf_conversion \<Rightarrow> u8 list" where
  "digit_text v b c = (
     let ds = digit_chars b (flags c AND GROUP \<noteq> 0) 0 (unat v);
         p = (if sint (precision c) < 0 then 1 else sint (precision c));
         ds = ds @ replicate (nat (min p 63) - length ds) (ascii CHR ''0'')
     in if flags c AND POUND \<noteq> 0 \<and> radix b = 8 \<and> (ds = [] \<or> last ds \<noteq> ascii CHR ''0'') then ds @ [ascii CHR ''0''] else ds)"

definition integer_text :: "u64 \<Rightarrow> bool \<Rightarrow> bool \<Rightarrow> integer_base \<Rightarrow> printf_conversion \<Rightarrow> u8 list" where
  "integer_text v is_signed negative b c = (
     let sgn = sign_char is_signed negative c;
         x = (if flags c AND POUND \<noteq> 0 \<and> v \<noteq> 0 then radix_x b else 0);
         ds = digit_text v b c;
         pad = width c - of_nat (length ds) - (if x \<noteq> 0 then 2 else 0) - (if sgn \<noteq> 0 then 1 else 0);
         pad = (if sint pad < 0 then 0 else unat pad)
     in (if flags c AND (MINUS OR ZERO) = 0 then replicate pad (ascii CHR '' '') else []) @
        (if sgn \<noteq> 0 then [sgn] else []) @
        (if x \<noteq> 0 then [ascii CHR ''0'', x] else []) @
        (if flags c AND ZERO \<noteq> 0 then replicate pad (ascii CHR ''0'') else []) @
        rev ds @
        (if flags c AND MINUS \<noteq> 0 then replicate pad (ascii CHR '' '') else []))"

definition is_base :: "integer_base \<Rightarrow> bool" where
  "is_base b \<longleftrightarrow> b = base_d \<or> b = base_o \<or> b = base_x \<or> b = base_X"

lemma is_base_facts: "is_base b \<Longrightarrow> 8 \<le> unat (radix b) \<and> radix_group b \<noteq> 0"
  by (auto simp: is_base_def base_d_def base_o_def base_x_def base_X_def)

lemma length_digit_text:
  assumes "is_base b"
  shows "length (digit_text v b c) \<le> 64"
  using length_digit_chars[of b "flags c AND GROUP \<noteq> 0" 0 v] is_base_facts[OF assms]
  by (auto simp: digit_text_def Let_def)

lemma format_integer_eq:
  assumes b: "is_base b"
  shows "format_integer v is_signed negative b c out aux m = output_chars (integer_text v is_signed negative b c) out aux m"
proof -
  define ds where "ds = digit_chars b (flags c AND GROUP \<noteq> 0) 0 (unat v)"
  have l: "length ds \<le> 44" unfolding ds_def using length_digit_chars is_base_facts[OF b] by blast
  have 1: "digits_loop v (flags c AND GROUP \<noteq> 0) b 0 [] = Some ds"
    using digits_loop_eq[of b "[]" "flags c AND GROUP \<noteq> 0" 0 v] is_base_facts[OF b] l by (simp add: ds_def)
  define p where "p = (if sint (precision c) < 0 then 1 else sint (precision c))"
  define cp where "cp = ds @ replicate (nat (min p 63) - length ds) (ascii CHR ''0'')"
  have 2: "zeros_loop p ds = Some cp" using l by (simp add: zeros_loop_eq cp_def)
  have lc: "length cp \<le> 63" using l by (auto simp: cp_def)
  have 3: "(if flags c AND POUND \<noteq> 0 \<and> radix b = 8 \<and> (cp = [] \<or> last cp \<noteq> ascii CHR ''0'')
     then put_buf (ascii CHR ''0'') cp else Some cp) = Some (digit_text v b c)"
    unfolding digit_text_def Let_def ds_def[symmetric] p_def[symmetric] cp_def[symmetric]
    using lc by (simp add: put_buf_def)
  have sg: "(if is_signed then
          (if flags c AND PLUS \<noteq> 0 then (if negative then ascii CHR ''-'' else ascii CHR ''+'')
           else if flags c AND SPACE \<noteq> 0 then (if negative then ascii CHR ''-'' else ascii CHR '' '')
           else if negative then ascii CHR ''-'' else 0)
        else 0) = sign_char is_signed negative c"
    by (simp add: sign_char_def)
  have pd: "unat (if sint n < 0 then 0 else n) = (if sint n < 0 then 0 else unat n)" for n :: u32 by simp
  have one: "(if P then out x aux m else Some (aux, m)) = output_chars (if P then [x] else []) out aux m" for P x aux m
    by (simp add: output_chars_one)
  show ?thesis
    unfolding format_integer_def integer_text_def Let_def sg p_def[symmetric] 1 bind.bind_lunit 2 3
      output_dup_eq pd output_chars_two one output_chars_if
    by (simp only: output_chars_append)
qed

end
