(* ===== verification/Kernel_Stdio_Text.thy ===== *)
theory Kernel_Stdio_Text
  imports Kernel_Stdio_Rep
begin

text \<open>
  The text of a format.  \<open>printed lit m format args\<close> is what \<open>__vprintf\<close> outputs when the
  output function only collects the characters.  Any other output function gets the same
  characters in the same order, as long as it does not overwrite the memory \<open>m\<close> that holds
  the format and the strings (theorem \<open>vprintf_core_text\<close> below).
\<close>

definition listing :: "u8 list output_fun" where
  "listing c cs m = Some (cs @ [c], m)"

definition printed :: "(string \<Rightarrow> addr) \<Rightarrow> memory \<Rightarrow> addr \<Rightarrow> vararg list \<Rightarrow> u8 list option" where
  "printed lit m format args = map_option fst (vprintf_core \<lparr>literal = lit, emit = listing\<rparr> format args [] m)"

lemma output_listing: "output_chars xs listing cs m = Some (cs @ xs, m)"
  by (induction xs arbitrary: cs) (simp_all add: listing_def)

text \<open>After every part of the text the memory still holds \<open>m0\<close>.\<close>

definition keeps :: "memory \<Rightarrow> 'aux output_fun \<Rightarrow> u8 list \<Rightarrow> 'aux \<Rightarrow> memory \<Rightarrow> bool" where
  "keeps m0 out text aux m \<longleftrightarrow>
     (\<forall>u v aux' m'. text = u @ v \<longrightarrow> output_chars u out aux m = Some (aux', m') \<longrightarrow> m0 \<subseteq>\<^sub>m m')"

lemma keeps_now: "keeps m0 out text aux m \<Longrightarrow> m0 \<subseteq>\<^sub>m m"
  unfolding keeps_def by (metis append_Nil output_chars.simps(1))

lemma keeps_first: "keeps m0 out (xs @ ys) aux m \<Longrightarrow> keeps m0 out xs aux m"
  unfolding keeps_def by (metis append.assoc)

lemma keeps_rest:
  assumes "keeps m0 out (xs @ ys) aux m" "output_chars xs out aux m = Some (aux', m')"
  shows "keeps m0 out ys aux' m'"
  unfolding keeps_def
proof (intro allI impI)
  fix u v a1 m1
  assume "ys = u @ v" "output_chars u out aux' m' = Some (a1, m1)"
  then have "xs @ ys = (xs @ u) @ v" "output_chars (xs @ u) out aux m = Some (a1, m1)"
    using assms(2) by (simp_all add: output_chars_append)
  then show "m0 \<subseteq>\<^sub>m m1" using assms(1) unfolding keeps_def by blast
qed

text \<open>Sequencing two outputs.\<close>

lemma output_then:
  assumes "keeps m0 out (xs @ ys) aux m"
    and "\<And>aux' m'. keeps m0 out ys aux' m' \<Longrightarrow> f aux' m' = output_chars ys out aux' m'"
  shows "do { (aux, m) \<leftarrow> output_chars xs out aux m; f aux m } = output_chars (xs @ ys) out aux m"
proof (cases "output_chars xs out aux m")
  case (Some r)
  obtain aux' m' where r: "r = (aux', m')" by force
  then show ?thesis
    using Some assms(2)[OF keeps_rest[OF assms(1)], of aux' m'] by (simp add: output_chars_append)
qed (simp add: output_chars_append)

lemma output_one_then:
  assumes "keeps m0 out (c # ys) aux m"
    and "\<And>aux' m'. keeps m0 out ys aux' m' \<Longrightarrow> f aux' m' = output_chars ys out aux' m'"
  shows "do { (aux, m) \<leftarrow> out c aux m; f aux m } = output_chars (c # ys) out aux m"
  using output_then[of m0 out "[c]" ys aux m f] assms by (simp only: output_chars_one append.simps)

section \<open>Reading\<close>

lemma rd_mono: "m0 \<subseteq>\<^sub>m m \<Longrightarrow> rd m0 a = Some c \<Longrightarrow> rd m a = Some c"
  unfolding rd_def map_le_def by (metis domI option.distinct(1))

lemma parse_flags_mono: "parse_flags m0 f fl = Some r \<Longrightarrow> m0 \<subseteq>\<^sub>m m \<Longrightarrow> parse_flags m f fl = Some r"
proof (induction m0 f fl r rule: parse_flags.raw_induct[rotated 1, consumes 1])
  case (1 pf m0 f fl r)
  then obtain c where c: "rd m0 f = Some c" by (cases "rd m0 f") auto
  have cm: "rd m f = Some c" by (rule rd_mono[OF 1(3) c])
  show ?case
    using 1(1)[OF _ 1(3)] 1(2) c cm by (subst parse_flags.simps) (cases "flag_of c"; auto)
qed

lemma parse_digits_mono: "parse_digits m0 f v = Some r \<Longrightarrow> m0 \<subseteq>\<^sub>m m \<Longrightarrow> parse_digits m f v = Some r"
proof (induction m0 f v r rule: parse_digits.raw_induct[rotated 1, consumes 1])
  case (1 pf m0 f v r)
  then obtain c where c: "rd m0 f = Some c" by (cases "rd m0 f") auto
  have cm: "rd m f = Some c" by (rule rd_mono[OF 1(3) c])
  show ?case
    using 1(1)[OF _ 1(3)] 1(2) c cm by (subst parse_digits.simps) (auto split: if_splits)
qed

lemma strnlen_loop_mono: "strnlen_loop m0 s k n = Some r \<Longrightarrow> m0 \<subseteq>\<^sub>m m \<Longrightarrow> strnlen_loop m s k n = Some r"
proof (induction m0 s k n r rule: strnlen_loop.raw_induct[rotated 1, consumes 1])
  case (1 pf m0 s k n r)
  then obtain c where c: "rd m0 (s + n) = Some c" by (cases "rd m0 (s + n)") auto
  have cm: "rd m (s + n) = Some c" by (rule rd_mono[OF 1(3) c])
  show ?case
    using 1(1)[OF _ 1(3)] 1(2) c cm by (subst strnlen_loop.simps) (auto split: if_splits)
qed

lemma bind_mono:
  assumes "Option.bind x f = Some r" "\<And>y. x = Some y \<Longrightarrow> x' = Some y" "\<And>y. x = Some y \<Longrightarrow> f y = Some r \<Longrightarrow> f' y = Some r"
  shows "Option.bind x' f' = Some r"
  using assms by (cases x) auto

lemma parse_width_mono:
  assumes "parse_width m0 f args fl = Some r" "m0 \<subseteq>\<^sub>m m"
  shows "parse_width m f args fl = Some r"
  using assms(1) unfolding parse_width_def
  by (elim bind_mono) (auto dest: rd_mono[OF assms(2)] elim!: bind_mono intro: parse_digits_mono[OF _ assms(2)] split: if_splits)

lemma parse_precision_mono:
  assumes "parse_precision m0 f args fl = Some r" "m0 \<subseteq>\<^sub>m m"
  shows "parse_precision m f args fl = Some r"
  using assms(1) unfolding parse_precision_def
  by (elim bind_mono) (auto dest: rd_mono[OF assms(2)] elim!: bind_mono intro: parse_digits_mono[OF _ assms(2)] split: if_splits)

lemma parse_type_mono:
  assumes "parse_type m0 f = Some r" "m0 \<subseteq>\<^sub>m m"
  shows "parse_type m f = Some r"
  using assms(1) unfolding parse_type_def
  by (elim bind_mono) (auto dest: rd_mono[OF assms(2)] elim!: bind_mono split: if_splits)

lemma parse_conversion_mono:
  assumes "parse_conversion m0 f args = Some r" "m0 \<subseteq>\<^sub>m m"
  shows "parse_conversion m f args = Some r"
  using assms(1) unfolding parse_conversion_def Let_def
  by (elim bind_mono)
    (auto intro: parse_flags_mono[OF _ assms(2)] parse_width_mono[OF _ assms(2)] parse_precision_mono[OF _ assms(2)]
       parse_type_mono[OF _ assms(2)] elim!: bind_mono)


section \<open>Strings\<close>

definition stable_reader :: "char_reader \<Rightarrow> bool" where
  "stable_reader string \<longleftrightarrow> (\<forall>i m0 m c. m0 \<subseteq>\<^sub>m m \<longrightarrow> string i m0 = Some c \<longrightarrow> string i m = Some c)"

lemma stable_readers:
  "stable_reader (\<lambda>i m. rd m (s + of_int i))" "stable_reader (\<lambda>i m. if i = 0 then Some ch else None)"
  by (auto simp: stable_reader_def intro: rd_mono)

lemma format_string_loop_listing:
  "format_string_loop string i len listing cs m0 = Some (cs', m') \<Longrightarrow>
   \<exists>xs. m' = m0 \<and> cs' = cs @ xs \<and> length xs = nat (len - i) \<and> (\<forall>j < length xs. string (i + int j) m0 = Some (xs ! j))"
proof (induction "nat (len - i)" arbitrary: i cs)
  case 0
  then show ?case by (simp add: format_string_loop.simps)
next
  case (Suc k)
  then have i: "i < len" "k = nat (len - (i + 1))" by linarith+
  obtain c where c: "string i m0 = Some c" "format_string_loop string (i + 1) len listing (cs @ [c]) m0 = Some (cs', m')"
    using Suc.prems i(1) by (subst (asm) format_string_loop.simps) (auto simp: listing_def split: option.splits)
  from Suc.hyps(1)[OF i(2) c(2)] obtain xs where xs: "m' = m0" "cs' = (cs @ [c]) @ xs" "length xs = nat (len - (i + 1))"
    "\<forall>j < length xs. string (i + 1 + int j) m0 = Some (xs ! j)" by blast
  have "string (i + int j) m0 = Some ((c # xs) ! j)" if "j < length (c # xs)" for j
    using that c(1) xs(4) by (cases j) (auto simp: add.assoc)
  moreover have "length (c # xs) = nat (len - i)" using xs(3) i(1) by simp
  ultimately show ?case using xs(1,2) by (intro exI[of _ "c # xs"]) simp
qed

lemma format_string_loop_eq:
  "stable_reader string \<Longrightarrow> keeps m0 out xs aux m \<Longrightarrow> length xs = nat (len - i) \<Longrightarrow>
   (\<forall>j < length xs. string (i + int j) m0 = Some (xs ! j)) \<Longrightarrow>
   format_string_loop string i len out aux m = output_chars xs out aux m"
proof (induction xs arbitrary: i aux m)
  case Nil
  then show ?case by (simp add: format_string_loop.simps)
next
  case (Cons c xs)
  have i: "i < len" "length xs = nat (len - (i + 1))" using Cons.prems(3) by auto
  have "string i m0 = Some c" using Cons.prems(4)[rule_format, of 0] by simp
  then have c: "string i m = Some c" using Cons.prems(1) keeps_now[OF Cons.prems(2)] by (auto simp: stable_reader_def)
  have r: "\<forall>j < length xs. string (i + 1 + int j) m0 = Some (xs ! j)"
    using Cons.prems(4) by (auto simp: add.assoc)
  have k: "keeps m0 out ([c] @ xs) aux m" using Cons.prems(2) by simp
  have "format_string_loop string i len out aux m =
      do { (aux, m) \<leftarrow> output_chars [c] out aux m; format_string_loop string (i + 1) len out aux m }"
    unfolding output_chars_one using i(1) c by (subst format_string_loop.simps) (auto split: option.splits)
  also have "\<dots> = output_chars ([c] @ xs) out aux m"
    by (rule output_then[OF k]) (simp add: Cons.IH[OF Cons.prems(1) _ i(2) r])
  finally show ?case by simp
qed

lemma format_string_text:
  assumes "format_string string len c listing cs m0 = Some (cs', m')" "stable_reader string"
  shows "\<exists>text. m' = m0 \<and> cs' = cs @ text \<and>
     (\<forall>(out :: 'aux output_fun) aux m. keeps m0 out text aux m \<longrightarrow>
        format_string string len c out aux m = output_chars text out aux m)"
proof -
  let ?pad = "replicate (unat (width c - len)) (ascii CHR '' '')"
  define u where "u = (if sint (width c) > sint len \<and> flags c AND MINUS = 0 then ?pad else [])"
  define v where "v = (if sint (width c) > sint len \<and> flags c AND MINUS \<noteq> 0 then ?pad else [])"
  have fs: "format_string string len c out aux m =
      do { (aux, m) \<leftarrow> output_chars u out aux m;
           (aux, m) \<leftarrow> format_string_loop string 0 (sint len) out aux m;
           output_chars v out aux m }" for out :: "'b output_fun" and aux m
    by (simp only: format_string_def output_dup_eq output_chars_if u_def v_def)
  obtain cs1 where l: "format_string_loop string 0 (sint len) listing (cs @ u) m0 = Some (cs1, m')" "cs' = cs1 @ v"
    using assms(1) by (simp add: fs output_listing bind_eq_Some_conv split_beta) (metis prod.collapse)
  from format_string_loop_listing[OF l(1)] l(2) obtain xs where xs: "m' = m0" "cs' = cs @ u @ xs @ v"
    "length xs = nat (sint len - 0)" "\<forall>j < length xs. string (0 + int j) m0 = Some (xs ! j)" by auto
  have "format_string string len c out aux m = output_chars (u @ xs @ v) out aux m"
    if k: "keeps m0 out (u @ xs @ v) aux m" for out :: "'aux output_fun" and aux m
  proof -
    have "do { (aux, m) \<leftarrow> format_string_loop string 0 (sint len) out aux' m'; output_chars v out aux m } =
        output_chars (xs @ v) out aux' m'" if "keeps m0 out (xs @ v) aux' m'" for aux' m'
      using format_string_loop_eq[OF assms(2) keeps_first[OF that] xs(3,4)] by (simp add: output_chars_append)
    then show ?thesis unfolding fs by (intro output_then[OF k]) simp
  qed
  then show ?thesis using xs(1,2) by blast
qed


section \<open>Conversions\<close>

lemma strnlen_mono: "strnlen m0 s k = Some r \<Longrightarrow> m0 \<subseteq>\<^sub>m m \<Longrightarrow> strnlen m s k = Some r"
  unfolding strnlen_def by (rule strnlen_loop_mono)

text \<open>The cases of \<open>convert\<close>.\<close>

lemma convert_signed:
  assumes "ch = ascii CHR ''d'' \<or> ch = ascii CHR ''i''"
  shows "convert pr ch c args aux m = do {
    (val, args) \<leftarrow> signed_arg (arg_type c) args;
    r \<leftarrow> format_integer (if sint val < 0 then - val else val) True (sint val < 0) base_d c (emit pr) aux m;
    Some (args, r) }"
  using assms by (simp only: convert_def if_True)

definition unsigned_base :: "u8 \<Rightarrow> integer_base" where
  "unsigned_base ch = (if ch = ascii CHR ''o'' then base_o else if ch = ascii CHR ''u'' then base_d
     else if ch = ascii CHR ''x'' then base_x else base_X)"

lemma convert_unsigned:
  assumes "\<not> (ch = ascii CHR ''d'' \<or> ch = ascii CHR ''i'')"
    "ch = ascii CHR ''o'' \<or> ch = ascii CHR ''u'' \<or> ch = ascii CHR ''x'' \<or> ch = ascii CHR ''X''"
  shows "convert pr ch c args aux m = do {
    (val, args) \<leftarrow> unsigned_arg (arg_type c) args;
    r \<leftarrow> format_integer val False False (unsigned_base ch) c (emit pr) aux m;
    Some (args, r) }"
  unfolding convert_def if_not_P[OF assms(1)] if_P[OF assms(2)] unsigned_base_def Let_def ..

lemma convert_chr: "convert pr (ascii CHR ''c'') c args aux m = do {
    (v, args) \<leftarrow> va_word args;
    r \<leftarrow> format_string (\<lambda>i m. if i = 0 then Some (ucast v) else None) 1 c (emit pr) aux m;
    Some (args, r) }"
proof -
  have "\<not> (ascii CHR ''c'' = ascii CHR ''d'' \<or> ascii CHR ''c'' = ascii CHR ''i'')"
    "\<not> (ascii CHR ''c'' = ascii CHR ''o'' \<or> ascii CHR ''c'' = ascii CHR ''u'' \<or> ascii CHR ''c'' = ascii CHR ''x'' \<or>
       ascii CHR ''c'' = ascii CHR ''X'')" by simp_all
  then show ?thesis by (simp only: convert_def if_False if_True refl)
qed

lemma convert_str: "convert pr (ascii CHR ''s'') c args aux m = do {
    (s, args) \<leftarrow> va_word args;
    let s = (if s = NULL then literal pr ''(null)'' else s);
    len \<leftarrow> strnlen m s (precision c);
    r \<leftarrow> format_string (\<lambda>i m. rd m (s + of_int i)) len c (emit pr) aux m;
    Some (args, r) }"
proof -
  have "\<not> (ascii CHR ''s'' = ascii CHR ''d'' \<or> ascii CHR ''s'' = ascii CHR ''i'')"
    "\<not> (ascii CHR ''s'' = ascii CHR ''o'' \<or> ascii CHR ''s'' = ascii CHR ''u'' \<or> ascii CHR ''s'' = ascii CHR ''x'' \<or>
       ascii CHR ''s'' = ascii CHR ''X'')" "ascii CHR ''s'' \<noteq> ascii CHR ''c''" by simp_all
  then show ?thesis by (simp only: convert_def if_False if_True refl)
qed

lemma convert_pointer:
  assumes "\<not> (ch = ascii CHR ''d'' \<or> ch = ascii CHR ''i'')"
    "\<not> (ch = ascii CHR ''o'' \<or> ch = ascii CHR ''u'' \<or> ch = ascii CHR ''x'' \<or> ch = ascii CHR ''X'')"
    "ch \<noteq> ascii CHR ''c''" "ch \<noteq> ascii CHR ''s''"
  shows "convert pr ch c args aux m = do {
    (p, args) \<leftarrow> va_word args;
    r \<leftarrow> format_integer (ucast p) False False base_x (c\<lparr>flags := POUND\<rparr>) (emit pr) aux m;
    Some (args, r) }"
  using assms by (simp only: convert_def if_False)

lemma bases: "is_base base_d" "is_base base_x" "is_base (unsigned_base ch)"
  by (simp_all add: is_base_def unsigned_base_def)

text \<open>One conversion: the arguments left over and the text are the same for every output function.\<close>

lemma convert_text:
  assumes "convert \<lparr>literal = lit, emit = listing\<rparr> ch c args cs m0 = Some (args', cs', m')"
  shows "\<exists>text. m' = m0 \<and> cs' = cs @ text \<and>
     (\<forall>(out :: 'aux output_fun) aux m. keeps m0 out text aux m \<longrightarrow>
        convert \<lparr>literal = lit, emit = out\<rparr> ch c args aux m = do { r \<leftarrow> output_chars text out aux m; Some (args', r) })"
proof -
  have integer: ?thesis
    if "is_base b" and 1: "arg args = Some (v, args1)"
      and cv: "\<And>(out :: u8 list output_fun) aux m. convert \<lparr>literal = lit, emit = out\<rparr> ch c args aux m = do {
        (v, args) \<leftarrow> arg args; r \<leftarrow> format_integer (f v) sg (neg v) b c' out aux m; Some (args, r) }"
      and cv': "\<And>(out :: 'aux output_fun) aux m. convert \<lparr>literal = lit, emit = out\<rparr> ch c args aux m = do {
        (v, args) \<leftarrow> arg args; r \<leftarrow> format_integer (f v) sg (neg v) b c' out aux m; Some (args, r) }"
    for b v args1 sg c' and arg :: "vararg list \<Rightarrow> ('v \<times> vararg list) option" and f neg
  proof -
    have "m' = m0 \<and> cs' = cs @ integer_text (f v) sg (neg v) b c' \<and> args' = args1"
      using assms 1 by (simp add: cv format_integer_eq[OF that(1)] output_listing)
    then show ?thesis using 1 by (simp add: cv' format_integer_eq[OF that(1)])
  qed
  have string: ?thesis
    if s: "stable_reader string" and r: "\<And>m. m0 \<subseteq>\<^sub>m m \<Longrightarrow> len m = Some n"
      and cv: "\<And>(out :: u8 list output_fun) aux m. convert \<lparr>literal = lit, emit = out\<rparr> ch c args aux m = do {
        n \<leftarrow> len m; r \<leftarrow> format_string string n c out aux m; Some (args1, r) }"
      and cv': "\<And>(out :: 'aux output_fun) aux m. convert \<lparr>literal = lit, emit = out\<rparr> ch c args aux m = do {
        n \<leftarrow> len m; r \<leftarrow> format_string string n c out aux m; Some (args1, r) }"
    for string args1 len n
  proof -
    have f: "format_string string n c listing cs m0 = Some (cs', m')" "args' = args1"
      using assms r[OF map_le_refl] unfolding cv by (auto simp: bind_eq_Some_conv)
    obtain xs where t: "m' = m0" "cs' = cs @ xs"
      "\<And>(out :: 'aux output_fun) aux m. keeps m0 out xs aux m \<Longrightarrow>
         format_string string n c out aux m = output_chars xs out aux m"
      using format_string_text[OF f(1) s] by blast
    have "convert \<lparr>literal = lit, emit = out\<rparr> ch c args aux m = do { r \<leftarrow> output_chars xs out aux m; Some (args', r) }"
      if k: "keeps m0 out xs aux m" for out :: "'aux output_fun" and aux m
      using t(3)[OF k] r[OF keeps_now[OF k]] f(2) by (simp add: cv')
    then show ?thesis using t(1,2) by blast
  qed
  consider (signed) "ch = ascii CHR ''d'' \<or> ch = ascii CHR ''i''"
    | (unsigned) "\<not> (ch = ascii CHR ''d'' \<or> ch = ascii CHR ''i'')"
        "ch = ascii CHR ''o'' \<or> ch = ascii CHR ''u'' \<or> ch = ascii CHR ''x'' \<or> ch = ascii CHR ''X''"
    | (chr) "ch = ascii CHR ''c''" | (str) "ch = ascii CHR ''s''"
    | (other) "\<not> (ch = ascii CHR ''d'' \<or> ch = ascii CHR ''i'')"
        "\<not> (ch = ascii CHR ''o'' \<or> ch = ascii CHR ''u'' \<or> ch = ascii CHR ''x'' \<or> ch = ascii CHR ''X'')"
        "ch \<noteq> ascii CHR ''c''" "ch \<noteq> ascii CHR ''s''" by blast
  then show ?thesis
  proof cases
    case signed
    obtain v args1 where "signed_arg (arg_type c) args = Some (v, args1)"
      using assms unfolding convert_signed[OF signed] by (auto simp: bind_eq_Some_conv)
    then show ?thesis
      by (rule integer[OF bases(1), where f = "\<lambda>v. if sint v < 0 then - v else v" and neg = "\<lambda>v. sint v < 0" and sg = True])
        (simp_all add: convert_signed[OF signed])
  next
    case unsigned
    obtain v args1 where "unsigned_arg (arg_type c) args = Some (v, args1)"
      using assms unfolding convert_unsigned[OF unsigned] by (auto simp: bind_eq_Some_conv)
    then show ?thesis
      by (rule integer[OF bases(3), where f = "\<lambda>v. v" and neg = "\<lambda>v. False" and sg = False])
        (simp_all add: convert_unsigned[OF unsigned])
  next
    case chr
    obtain v args1 where "va_word args = Some (v, args1)"
      using assms unfolding chr convert_chr by (auto simp: bind_eq_Some_conv)
    note v = this
    show ?thesis
    proof (rule string[OF stable_readers(2)])
      show "(\<lambda>m. Some 1) m = Some 1" if "m0 \<subseteq>\<^sub>m m" for m :: memory by simp
    qed (simp_all only: chr convert_chr v bind.bind_lunit split_conv printer.simps)
  next
    case str
    obtain v args1 where v: "va_word args = Some (v, args1)"
      using assms unfolding str convert_str by (auto simp: bind_eq_Some_conv)
    define s where "s = (if v = NULL then lit ''(null)'' else v)"
    obtain n where n: "strnlen m0 s (precision c) = Some n"
      using assms v unfolding str convert_str printer.simps by (auto simp: bind_eq_Some_conv s_def Let_def)
    show ?thesis
    proof (rule string[OF stable_readers(1)])
      show "strnlen m s (precision c) = Some n" if "m0 \<subseteq>\<^sub>m m" for m by (rule strnlen_mono[OF n that])
    qed (simp_all only: str convert_str v bind.bind_lunit split_conv Let_def printer.simps s_def)
  next
    case other
    obtain v args1 where "va_word args = Some (v, args1)"
      using assms unfolding convert_pointer[OF other] by (auto simp: bind_eq_Some_conv)
    then show ?thesis
      by (rule integer[OF bases(2), where f = ucast and neg = "\<lambda>v. False" and sg = False])
        (simp_all add: convert_pointer[OF other])
  qed
qed

section \<open>Formats\<close>

lemma vprintf_core_listing:
  assumes "vprintf_core pr format args cs m0 = Some (cs', m')" "pr = \<lparr>literal = lit, emit = listing\<rparr>"
  shows "\<exists>text. m' = m0 \<and> cs' = cs @ text \<and>
     (\<forall>(out :: 'aux output_fun) aux m. keeps m0 out text aux m \<longrightarrow>
        vprintf_core \<lparr>literal = lit, emit = out\<rparr> format args aux m = output_chars text out aux m)"
  using assms
proof (induction pr format args cs m0 "(cs', m')" arbitrary: cs' m' rule: vprintf_core.raw_induct[rotated 1, consumes 1])
  case (1 vp pr format args cs m0)
  note pr = 1(3)
  have IH: "\<exists>text. m' = m0 \<and> cs' = cs @ text \<and>
     (\<forall>(out :: 'aux output_fun) aux m. keeps m0 out text aux m \<longrightarrow>
        vprintf_core \<lparr>literal = lit, emit = out\<rparr> format args aux m = output_chars text out aux m)"
    if "vp pr format args cs m0 = Some (cs', m')" for format args cs cs' m'
    by (rule 1(1)[OF that pr])
  obtain c where c: "rd m0 format = Some c" using 1(2) by (cases "rd m0 format") auto
  note mono = rd_mono[OF keeps_now]
  show ?case
  proof (cases "c = 0")
    case True
    then have r: "m' = m0" "cs' = cs" using 1(2) c by simp_all
    have "vprintf_core \<lparr>literal = lit, emit = out\<rparr> format args aux m = output_chars [] out aux m"
      if k: "keeps m0 out [] aux m" for out :: "'aux output_fun" and aux m
      using mono[OF k c] True by (subst vprintf_core.simps) simp
    then show ?thesis using r by (intro exI[of _ "[]"]) simp
  next
    case ne: False
    show ?thesis
    proof (cases "c = ascii CHR ''%''")
      case False
      have "vp pr (format + 1) args (cs @ [c]) m0 = Some (cs', m')"
        using 1(2) c ne False pr by (simp add: listing_def)
      from IH[OF this] obtain xs where xs: "m' = m0" "cs' = cs @ [c] @ xs"
        "\<And>(out :: 'aux output_fun) aux m. keeps m0 out xs aux m \<Longrightarrow>
           vprintf_core \<lparr>literal = lit, emit = out\<rparr> (format + 1) args aux m = output_chars xs out aux m" by auto
      have "vprintf_core \<lparr>literal = lit, emit = out\<rparr> format args aux m = output_chars (c # xs) out aux m"
        if k: "keeps m0 out (c # xs) aux m" for out :: "'aux output_fun" and aux m
        using mono[OF k c] ne False output_one_then[OF k xs(3)] by (subst vprintf_core.simps) simp
      then show ?thesis using xs(1,2) by (intro exI[of _ "c # xs"]) simp
    next
      case pc: True
      obtain d where d: "rd m0 (format + 1) = Some d"
        using 1(2) c pc by (cases "rd m0 (format + 1)") auto
      show ?thesis
      proof (cases "d = ascii CHR ''%''")
        case True
        have "vp pr (format + 2) args (cs @ [ascii CHR ''%'']) m0 = Some (cs', m')"
          using 1(2) c d pc True pr by (simp add: listing_def)
        from IH[OF this] obtain xs where xs: "m' = m0" "cs' = cs @ [ascii CHR ''%''] @ xs"
          "\<And>(out :: 'aux output_fun) aux m. keeps m0 out xs aux m \<Longrightarrow>
             vprintf_core \<lparr>literal = lit, emit = out\<rparr> (format + 2) args aux m = output_chars xs out aux m" by auto
        have "vprintf_core \<lparr>literal = lit, emit = out\<rparr> format args aux m = output_chars (ascii CHR ''%'' # xs) out aux m"
          if k: "keeps m0 out (ascii CHR ''%'' # xs) aux m" for out :: "'aux output_fun" and aux m
          using mono[OF k c] mono[OF k d] pc True output_one_then[OF k xs(3)]
          by (subst vprintf_core.simps) simp
        then show ?thesis using xs(1,2) by (intro exI[of _ "ascii CHR ''%'' # xs"]) simp
      next
        case False
        obtain f cv args1 where p: "parse_conversion m0 (format + 1) args = Some (f, cv, args1)"
          using 1(2) c d pc False by (cases "parse_conversion m0 (format + 1) args") auto
        obtain ch where ch: "rd m0 f = Some ch"
          using 1(2) c d pc False p by (cases "rd m0 f") auto
        note mono_p = parse_conversion_mono[OF p keeps_now]
        show ?thesis
        proof (cases "supported ch")
          case True
          obtain args2 cs1 m1 where r: "convert pr ch cv args1 cs m0 = Some (args2, cs1, m1)"
            "vp pr (f + 1) args2 cs1 m1 = Some (cs', m')"
            using 1(2) c d pc False p ch True by (cases "convert pr ch cv args1 cs m0") auto
          from convert_text[OF r(1)[unfolded pr]] obtain us where us: "m1 = m0" "cs1 = cs @ us"
            "\<And>(out :: 'aux output_fun) aux m. keeps m0 out us aux m \<Longrightarrow> convert \<lparr>literal = lit, emit = out\<rparr> ch cv args1 aux m =
               do { r \<leftarrow> output_chars us out aux m; Some (args2, r) }" by blast
          from IH[OF r(2)[unfolded us(1)]] obtain xs where xs: "m' = m0" "cs' = cs1 @ xs"
            "\<And>(out :: 'aux output_fun) aux m. keeps m0 out xs aux m \<Longrightarrow>
               vprintf_core \<lparr>literal = lit, emit = out\<rparr> (f + 1) args2 aux m = output_chars xs out aux m" by auto
          have "vprintf_core \<lparr>literal = lit, emit = out\<rparr> format args aux m = output_chars (us @ xs) out aux m"
            if k: "keeps m0 out (us @ xs) aux m" for out :: "'aux output_fun" and aux m
            using mono[OF k c] mono[OF k d] pc False mono_p[OF k] mono[OF k ch] True us(3)[OF keeps_first[OF k]]
              output_then[OF k xs(3)]
            by (subst vprintf_core.simps) simp
          then show ?thesis using us(2) xs(1,2) by (intro exI[of _ "us @ xs"]) simp
        next
          case unsup: False
          let ?lit = "lit (unsupported_text ch)" and ?arg = "[Arg32 (ucast ch)]"
          obtain cs1 m1 where r: "vp pr ?lit ?arg cs m0 = Some (cs1, m1)" "vp pr (f + 1) args1 cs1 m1 = Some (cs', m')"
            using 1(2) c d pc False p ch unsup pr by (cases "vp pr ?lit ?arg cs m0") auto
          from IH[OF r(1)] obtain us where us: "m1 = m0" "cs1 = cs @ us"
            "\<And>(out :: 'aux output_fun) aux m. keeps m0 out us aux m \<Longrightarrow>
               vprintf_core \<lparr>literal = lit, emit = out\<rparr> ?lit ?arg aux m = output_chars us out aux m" by blast
          from IH[OF r(2)[unfolded us(1)]] obtain xs where xs: "m' = m0" "cs' = cs1 @ xs"
            "\<And>(out :: 'aux output_fun) aux m. keeps m0 out xs aux m \<Longrightarrow>
               vprintf_core \<lparr>literal = lit, emit = out\<rparr> (f + 1) args1 aux m = output_chars xs out aux m" by auto
          have "vprintf_core \<lparr>literal = lit, emit = out\<rparr> format args aux m = output_chars (us @ xs) out aux m"
            if k: "keeps m0 out (us @ xs) aux m" for out :: "'aux output_fun" and aux m
            using mono[OF k c] mono[OF k d] pc False mono_p[OF k] mono[OF k ch] unsup us(3)[OF keeps_first[OF k]]
              output_then[OF k xs(3)]
            by (subst vprintf_core.simps) simp
          then show ?thesis using us(2) xs(1,2) by (intro exI[of _ "us @ xs"]) simp
        qed
      qed
    qed
  qed
qed

lemma vprintf_core_text:
  fixes out :: "'aux output_fun"
  assumes "printed lit m0 format args = Some xs" "keeps m0 out xs aux m"
  shows "vprintf_core \<lparr>literal = lit, emit = out\<rparr> format args aux m = output_chars xs out aux m"
proof -
  obtain m' where "vprintf_core \<lparr>literal = lit, emit = listing\<rparr> format args [] m0 = Some (xs, m')"
    using assms(1) by (auto simp: printed_def)
  from vprintf_core_listing[where ?'aux = 'aux, OF this refl] show ?thesis using assms(2) by auto
qed

end
