(* ===== verification/Kernel_Stdio_Spec.thy ===== *)
theory Kernel_Stdio_Spec
  imports Kernel_Stdio_Text Kernel_String_Spec
begin

text \<open>
  What formatted output promises: the same text for every output function, output into a
  buffer that never leaves the buffer, and decimal numbers that \<open>atoi\<close> reads back.
\<close>

section \<open>Output into a buffer\<close>

text \<open>The state of \<open>vsnprintf_helper\<close> after \<open>l\<close> characters, with room for \<open>k\<close> of them.\<close>

definition aux_after :: "addr \<Rightarrow> nat \<Rightarrow> nat \<Rightarrow> vsnprintf_aux" where
  "aux_after buffer k l = \<lparr>out_p = buffer + of_nat (min l k), out_length = of_nat l, max_length = of_nat k\<rparr>"

lemma sint_of_nat_less: "n < 2 ^ 31 \<Longrightarrow> sint (of_nat n :: u32) = int n"
  by (simp add: signed_of_nat signed_take_bit_int_eq_self)

lemma put_snoc: "put m a (xs @ [x]) = (put m a xs)(a + of_nat (length xs) \<mapsto> x)"
  by (simp add: put_append)

lemma next_byte:
  assumes "bytes_at m a ys" "l < length ys"
  shows "a + of_nat l \<noteq> 0" "m (a + of_nat l) = Some (ys ! l)" "a + of_nat l \<notin> span a l"
proof -
  have "bytes_at m a (take l ys @ [ys ! l] @ drop (Suc l) ys)"
    using assms by (simp add: Cons_nth_drop_Suc)
  then have "bytes_at m (a + of_nat l) [ys ! l]" using assms(2) by (simp only: bytes_at_append) simp
  then show "a + of_nat l \<noteq> 0" "m (a + of_nat l) = Some (ys ! l)" by simp_all
  have "unat a + (l + 1) \<le> 2 ^ 32" using bytes_at_bound[OF assms(1)] assms(2) by (cases "ys = []") auto
  from span_disjoint[OF this] show "a + of_nat l \<notin> span a l" by (auto simp: span_Suc)
qed

lemma wr_next:
  assumes "bytes_at m a ys" "length xs < length ys"
  shows "wr (a + of_nat (length xs)) x (put m a xs) = Some (put m a (xs @ [x]))"
  unfolding put_snoc by (rule wr_bytes) (use next_byte[OF assms] in \<open>simp_all add: put_other\<close>)

lemma helper_output:
  assumes "bytes_at m buffer ys" "k < length ys" "k < 2 ^ 31"
  shows "length xs < 2 ^ 31 \<Longrightarrow>
     output_chars xs vsnprintf_helper (aux_after buffer k 0) m =
     Some (aux_after buffer k (length xs), put m buffer (take k xs))"
proof (induction xs rule: rev_induct)
  case Nil
  then show ?case by (simp add: aux_after_def)
next
  case (snoc x xs)
  let ?m = "put m buffer (take k xs)" and ?l = "length xs"
  have l: "sint (of_nat ?l :: u32) = int ?l" "sint (of_nat k :: u32) = int k"
    using snoc.prems assms(3) by (simp_all add: sint_of_nat_less)
  have "vsnprintf_helper x (aux_after buffer k ?l) ?m =
      Some (aux_after buffer k (Suc ?l), put m buffer (take k (xs @ [x])))"
  proof (cases "?l < k")
    case True
    have tk: "take k xs = xs" "take k (xs @ [x]) = xs @ [x]" using True by simp_all
    have "wr (buffer + of_nat ?l) x (put m buffer xs) = Some (put m buffer (xs @ [x]))"
      by (rule wr_next[OF assms(1)]) (use assms(2) True in simp)
    then show ?thesis
      using True l tk by (simp add: vsnprintf_helper_def aux_after_def Let_def add.assoc add.commute[of 1])
  next
    case False
    then show ?thesis
      using l by (simp add: vsnprintf_helper_def aux_after_def Let_def add.commute)
  qed
  then show ?case using snoc by (simp add: output_chars_append output_chars_one)
qed

lemma put_outside: "p \<notin> span a n \<Longrightarrow> length xs \<le> n \<Longrightarrow> put m a xs p = m p"
  by (rule put_other) (auto simp: span_def)

lemma bytes_put_prefix: "bytes_at m a ys \<Longrightarrow> length xs \<le> length ys \<Longrightarrow> bytes_at (put m a xs) a xs"
proof -
  assume a: "bytes_at m a ys" "length xs \<le> length ys"
  then have "bytes_at m a (take (length xs) ys)" by (metis append_take_drop_id bytes_at_append)
  then show ?thesis by (rule put_same_bytes) (simp add: a(2))
qed

section \<open>Properties\<close>


text \<open>C12: \<open>vsnprintf\<close> into a buffer of \<open>n\<close> bytes stores the first \<open>n - 1\<close> characters of the
  text and a terminator, writes nothing outside the buffer, and returns the length of the
  whole text, as the comment on it promises.\<close>

theorem vsnprintf_truncates:
  assumes "printed lit m0 format args = Some text" "m0 \<subseteq>\<^sub>m m" "dom m0 \<inter> span buffer (unat n) = {}"
    "bytes_at m buffer ys" "length ys = unat n" "n \<le> 2 ^ 31" "length text < 2 ^ 31"
  shows "\<exists>m'. vsnprintf lit buffer n format args m = Some (of_nat (length text), m') \<and>
     (n \<noteq> 0 \<longrightarrow> bytes_at m' buffer (take (unat n - 1) text @ [0])) \<and>
     (\<forall>p. p \<notin> span buffer (unat n) \<longrightarrow> m' p = m p)"
proof (cases "n = 0")
  case True
  have o: "output_chars u vsnprintf_helper (aux_after buffer 0 0) m = Some (aux_after buffer 0 (length u), m)"
    if "length u < 2 ^ 31" for u
    using that
  proof (induction u rule: rev_induct)
    case (snoc x u)
    then show ?case
      by (simp add: output_chars_append output_chars_one vsnprintf_helper_def aux_after_def Let_def
          sint_of_nat_less add.commute)
  qed (simp add: aux_after_def)
  have "keeps m0 vsnprintf_helper text (aux_after buffer 0 0) m"
    using assms(2,7) o by (auto simp: keeps_def)
  from vprintf_core_text[OF assms(1) this] show ?thesis
    using o[OF assms(7)] True by (simp add: vsnprintf_def aux_after_def)
next
  case False
  define k where "k = unat n - 1"
  have k: "unat n = Suc k" "of_nat k = n - 1" using False unat_gt_0[of n] by (simp_all add: k_def unat_minus_one flip: unat_minus_one)
  have kb: "k < length ys" "k < 2 ^ 31" using k(1) assms(5,6) by (simp_all add: word_le_nat_alt)
  note out = helper_output[OF assms(4) kb]
  have other: "put m buffer (take k u) p = m p" if "p \<notin> span buffer (unat n)" for u p
    using k(1) by (intro put_outside[OF that]) simp
  have "keeps m0 vsnprintf_helper text (aux_after buffer k 0) m"
    unfolding keeps_def
  proof (intro allI impI)
    fix u v a1 m1
    assume "text = u @ v" "output_chars u vsnprintf_helper (aux_after buffer k 0) m = Some (a1, m1)"
    then have "m1 = put m buffer (take k u)" using out[of u] assms(7) by simp
    moreover have "p \<in> dom m0 \<Longrightarrow> p \<notin> span buffer (unat n)" for p using assms(3) by blast
    ultimately show "m0 \<subseteq>\<^sub>m m1" using assms(2) other by (simp add: map_le_def)
  qed
  from vprintf_core_text[OF assms(1) this] out[OF assms(7)]
  have v: "vprintf_core \<lparr>literal = lit, emit = vsnprintf_helper\<rparr> format args (aux_after buffer k 0) m =
      Some (aux_after buffer k (length text), put m buffer (take k text))" by simp
  let ?u = "take k text" and ?p = "buffer + of_nat (min (length text) k)"
  have lu: "length ?u = min (length text) k" by simp
  have b: "bytes_at (put m buffer ?u) buffer ?u" using assms(4) kb(1) by (intro bytes_put_prefix) auto
  have "wr ?p 0 (put m buffer ?u) = Some (put m buffer (?u @ [0]))"
    using wr_next[OF assms(4), of ?u 0] kb(1) by simp
  then have "vsnprintf lit buffer n format args m = Some (of_nat (length text), put m buffer (?u @ [0]))"
    using v False k(2) by (simp add: vsnprintf_def aux_after_def word_gt_0)
  moreover have "bytes_at (put m buffer (?u @ [0])) buffer (?u @ [0])"
    by (rule bytes_put_prefix[OF assms(4)]) (use kb(1) in simp)
  moreover have "put m buffer (?u @ [0]) p = m p" if "p \<notin> span buffer (unat n)" for p
    using k(1) by (intro put_outside[OF that]) simp
  ultimately show ?thesis using k_def by blast
qed


section \<open>Decimal numbers\<close>

lemma low_digits_digits: "n \<noteq> 0 \<Longrightarrow> rev (low_digits 10 n) = digits n"
proof (induction n rule: digits.induct)
  case (1 n)
  show ?case
  proof (cases "n < 10")
    case True
    then have "low_digits 10 n = [n]" using 1(2) by (simp add: low_digits.simps[of 10 n] low_digits.simps[of 10 0])
    then show ?thesis using True by (simp add: digits.simps)
  next
    case False
    then have "rev (low_digits 10 (n div 10)) = digits (n div 10)" using 1(1) by simp
    then show ?thesis using False by (simp add: low_digits.simps[of 10 n] digits.simps[of n])
  qed
qed

lemma base_d_digit: "d < 10 \<Longrightarrow> radix_digits base_d ! d = digit d"
proof -
  assume "d < 10"
  then have "d \<in> {0, 1, 2, 3, 4, 5, 6, 7, 8, 9}" by auto
  then show ?thesis by (auto simp: base_d_def chars_def digit_def)
qed

definition plain :: printf_conversion where
  "plain = \<lparr>flags = 0, width = 0, precision = - 1, arg_type = INT_ARG\<rparr>"

lemma digit_text_plain: "rev (digit_text v base_d plain) = map digit (digits (unat v))"
proof (cases "v = 0")
  case True
  then show ?thesis
    by (simp add: digit_text_def plain_def digit_chars_0 base_d_def digits.simps digit_def)
next
  case False
  then have v: "unat v \<noteq> 0" by (simp add: unat_eq_zero)
  have ds: "digit_chars base_d False 0 (unat v) = map digit (low_digits 10 (unat v))"
  proof -
    have "radix_digits base_d ! d = digit d" if "d \<in> set (low_digits 10 (unat v))" for d
      using low_digits_less[OF _ that] by (intro base_d_digit) simp
    moreover have "unat (radix base_d) = 10" by (simp add: base_d_def)
    ultimately show ?thesis by (simp add: digit_chars_def)
  qed
  have "low_digits 10 (unat v) \<noteq> []" using v by (simp add: low_digits.simps[of 10 "unat v"])
  then have "digit_text v base_d plain = map digit (low_digits 10 (unat v))"
    using ds by (cases "low_digits 10 (unat v)") (simp_all add: digit_text_def plain_def)
  then show ?thesis using low_digits_digits[OF v] by (simp add: rev_map)
qed

lemma integer_text_plain:
  "integer_text v True negative base_d plain = (if negative then [45] else []) @ map digit (digits (unat v))"
proof -
  have neg: "sint (- of_nat j :: u32) < 0" if "1 \<le> j" "j \<le> 65" for j
  proof -
    have "(- of_nat j :: u32) = word_of_int (- int j)" by simp
    moreover have "sint (word_of_int (- int j) :: u32) = - int j"
      using that by (simp only: sint_sbintrunc') (simp add: signed_take_bit_int_eq_self)
    ultimately show ?thesis using that by simp
  qed
  let ?k = "length (digit_text v base_d plain)"
  have "?k = length (digits (unat v))" using arg_cong[OF digit_text_plain[of v], of length] by simp
  moreover have "digits (unat v) \<noteq> []" by (rule digits_ne)
  moreover have "?k \<le> 64" by (rule length_digit_text) (simp add: is_base_def)
  ultimately have "1 \<le> ?k" "?k \<le> 64" by (simp_all add: Suc_le_eq)
  moreover have "- of_nat (Suc ?k) = (- of_nat ?k - 1 :: u32)" by simp
  ultimately have k: "sint (- of_nat ?k :: u32) < 0" "sint (- of_nat ?k - 1 :: u32) < 0"
    using neg[of ?k] neg[of "Suc ?k"] by (simp_all only:)
  have "width plain = 0" "flags plain = 0" by (simp_all add: plain_def)
  then show ?thesis
    using k by (simp add: integer_text_def sign_char_def Let_def digit_text_plain)
qed

text \<open>The text of \<open>%d\<close>.\<close>

lemma sint_scast: "sint (scast w :: u64) = sint (w :: u32)"
  by (simp add: sint_up_scast is_up)

lemma unat_abs_scast:
  "unat (if sint (scast w :: u64) < 0 then - scast w else (scast w :: u64)) = nat \<bar>sint (w :: u32)\<bar>"
proof -
  have r: "- (2 ^ 31) \<le> sint w" "sint w < 2 ^ 31" using sint_ge[of w] sint_lt[of w] by simp_all
  have u: "unat (word_of_int i :: u64) = nat i" if "0 \<le> i" "i < 2 ^ 64" for i
    using that by (simp add: unat_eq_nat_uint uint_word_of_int_eq take_bit_int_eq_self)
  have s: "(scast w :: u64) = word_of_int (sint w)" "- (scast w :: u64) = word_of_int (- sint w)"
    by (simp_all only: scast_eq of_int_minus)
  show ?thesis
  proof (cases "sint w < 0")
    case True
    then have "unat (- (scast w :: u64)) = nat (- sint w)" unfolding s(2) using r by (intro u) simp_all
    then show ?thesis using True unfolding sint_scast by (simp only: if_True abs_of_neg)
  next
    case False
    then have "unat (scast w :: u64) = nat (sint w)" unfolding s(1) using r by (intro u) simp_all
    then show ?thesis using False unfolding sint_scast by simp
  qed
qed

lemma printed_decimal:
  assumes "cstr m f (chars ''%d'')"
  shows "printed lit m f [Arg32 w] = Some (decimal (sint w))"
proof -
  have f: "rd m f = Some 37" "rd m (f + 1) = Some 100" "rd m (f + 2) = Some 0"
    using assms by (simp_all add: chars_def cstr_Cons cstr_Nil rd_def add.assoc)
  have "parse_conversion m (f + 1) [Arg32 w] = Some (f + 1, plain, [Arg32 w])"
    using f(2) by (simp add: parse_conversion_def parse_flags.simps flag_of_def parse_width_def parse_precision_def
        parse_digits.simps isdigit_def parse_type_def plain_def)
  moreover have "supported 100" by (simp add: supported_def chars_def)
  moreover have "convert pr 100 plain [Arg32 w] [] m = Some ([], decimal (sint w), m)"
    if "emit pr = listing" for pr
  proof -
    let ?v = "if sint (scast w :: u64) < 0 then - scast w else (scast w :: u64)"
    have "ascii CHR ''d'' = 100" by simp
    from convert_signed[of 100 pr plain "[Arg32 w]" "[]" m, unfolded this]
    have "convert pr 100 plain [Arg32 w] [] m =
        do { r \<leftarrow> output_chars (integer_text ?v True (sint w < 0) base_d plain) listing [] m; Some ([], r) }"
      using that by (simp add: plain_def sint_scast format_integer_eq[OF bases(1)])
    also have "integer_text ?v True (sint w < 0) base_d plain = decimal (sint w)"
      unfolding integer_text_plain unat_abs_scast by (simp add: decimal_def)
    finally show ?thesis by (simp add: output_listing)
  qed
  moreover have "vprintf_core pr (2 + f) [] cs m = Some (cs, m)" for pr :: "u8 list printer" and cs
    using f(3) by (subst vprintf_core.simps) (simp add: add.commute)
  ultimately show ?thesis
    using f by (simp add: printed_def vprintf_core.simps[of _ f])
qed


lemma length_digits: "n < 10 ^ Suc k \<Longrightarrow> length (digits n) \<le> Suc k"
proof (induction k arbitrary: n)
  case 0
  then show ?case by (simp add: digits.simps)
next
  case (Suc k)
  then have "n div 10 < 10 ^ Suc k" by simp
  then have "length (digits (n div 10)) \<le> Suc k" by (rule Suc.IH)
  then show ?case by (subst digits.simps) simp
qed

lemma decimal_length: "length (decimal (sint (w :: u32))) \<le> 11"
proof -
  have r: "- (2 ^ 31) \<le> sint w" "sint w < 2 ^ 31" using sint_ge[of w] sint_lt[of w] by simp_all
  then have "nat (- sint w) < 10 ^ Suc 9" "nat (sint w) < 10 ^ Suc 9" by simp_all
  then have "length (digits (nat (- sint w))) \<le> 10" "length (digits (nat (sint w))) \<le> 10"
    using length_digits[of _ 9] by simp_all
  then show ?thesis by (simp add: decimal_def)
qed

lemma decimal_nonzero: "0 \<notin> set (decimal n)"
proof -
  have "0 \<notin> digit ` set (digits k)" for k using digit_ne digits_less by force
  then show ?thesis by (auto simp: decimal_def)
qed

lemma decimal_format_restrict:
  assumes "cstr m f (chars ''%d'')"
  shows "cstr (m |` span f 3) f (chars ''%d'')"
proof -
  have len: "length (chars ''%d'') + 1 = 3" by (simp add: chars_def)
  show ?thesis
    using assms cstr_cong[of f "chars ''%d''" "m |` span f 3" m] unfolding len by simp
qed

text \<open>C13: \<open>snprintf\<close> with the format \<open>%d\<close> and \<open>atoi\<close> are inverse to each other: every \<open>int\<close> written
  into a buffer of 12 bytes or more is read back unchanged, \<open>- 2 ^ 31\<close> included.\<close>

theorem snprintf_atoi:
  assumes "cstr m format (chars ''%d'')" "bytes_at m buffer ys" "length ys = unat n" "12 \<le> n" "n \<le> 2 ^ 31"
    "span format 3 \<inter> span buffer (unat n) = {}"
  shows "\<exists>m'. snprintf lit buffer n format [Arg32 w] m = Some (of_nat (length (decimal (sint w))), m') \<and>
     atoi m' buffer = Some w \<and> (\<forall>p. p \<notin> span buffer (unat n) \<longrightarrow> m' p = m p)"
proof -
  define m0 where "m0 = m |` span format 3"
  let ?d = "decimal (sint w)"
  have "cstr m0 format (chars ''%d'')" unfolding m0_def by (rule decimal_format_restrict[OF assms(1)])
  note t = printed_decimal[OF this, of lit w]
  have m0: "m0 \<subseteq>\<^sub>m m" "dom m0 \<inter> span buffer (unat n) = {}" using assms(6) by (auto simp: m0_def map_le_def)
  have l: "length ?d < 2 ^ 31" "length ?d \<le> unat n - 1" "n \<noteq> 0"
    using decimal_length[of w] assms(4) by (auto simp: word_le_nat_alt)
  obtain m' where m': "vsnprintf lit buffer n format [Arg32 w] m = Some (of_nat (length ?d), m')"
    "bytes_at m' buffer (?d @ [0])" "\<forall>p. p \<notin> span buffer (unat n) \<longrightarrow> m' p = m p"
    using vsnprintf_truncates[OF t m0 assms(2,3,5) l(1)] l(2,3) take_all[OF l(2)] by force
  have "cstr m' buffer ([] @ ?d)" using m'(2) decimal_nonzero by (simp add: cstr_def)
  from atoi_eq[OF this] have "atoi m' buffer = Some w" by simp
  then show ?thesis using m' by (auto simp: snprintf_def)
qed


section \<open>Examples\<close>

definition ex_format :: memory where
  "ex_format = ex_memory ([37, 100, 0] @ replicate 12 1)"

lemma ex_format:
  "cstr ex_format 0x1000 (chars ''%d'')" "bytes_at ex_format 0x1003 (replicate 12 1)"
  using ex_memory_at[of "[]" "[37, 100, 0]" "replicate 12 1"] ex_memory_at[of "[37, 100, 0]" "replicate 12 1" "[]"]
  by (simp_all add: ex_format_def cstr_def chars_def)

lemma ex_format_spans: "span 0x1000 3 \<inter> span 0x1003 12 = {}"
  using span_disjoint[of "0x1000" 3 12] by simp

lemma ex_decimal: "sint (- 42 :: u32) = - 42" "decimal (- 42) = [45, 52, 50]"
  by (simp_all add: decimal_def digits.simps digit_def)

theorem snprintf_atoi_witness:
  "\<exists>m'. snprintf (\<lambda>_. 0) 0x1003 12 0x1000 [Arg32 (- 42)] ex_format = Some (3, m') \<and> atoi m' 0x1003 = Some (- 42)"
  using snprintf_atoi[OF ex_format, of 12 "\<lambda>_. 0" "- 42"] ex_format_spans by (auto simp: ex_decimal)

definition count_output :: "nat output_fun" where
  "count_output c n m = Some (n + 1, m)"

lemma output_count: "output_chars xs count_output n m = Some (n + length xs, m)"
  by (induction xs arbitrary: n) (simp_all add: count_output_def)


theorem vsnprintf_truncates_witness:
  "\<exists>m'. vsnprintf (\<lambda>_. 0) 0x1003 3 0x1000 [Arg32 (- 42)] ex_format = Some (3, m') \<and> bytes_at m' 0x1003 [45, 52, 0]"
proof -
  let ?m0 = "ex_format |` span 0x1000 3"
  have "cstr ?m0 0x1000 (chars ''%d'')" by (rule decimal_format_restrict[OF ex_format(1)])
  note t = printed_decimal[OF this, of "\<lambda>_. 0" "- 42"]
  have m0: "?m0 \<subseteq>\<^sub>m ex_format" "dom ?m0 \<inter> span 0x1003 (unat (3 :: size_t)) = {}"
    using span_disjoint[of "0x1000" 3 3] by (auto simp: map_le_def)
  have b: "bytes_at ex_format 0x1003 (replicate 3 1)" using ex_format(2) by (simp add: eval_nat_numeral)
  show ?thesis using vsnprintf_truncates[OF t m0 b] by (auto simp: ex_decimal)
qed

end
