(* ===== verification/Kernel_Page_Rep.thy ===== *)
theory Kernel_Page_Rep
  imports Kernel_Create Kernel_Sched_Spec
begin

text \<open>
  What runs between \<open>lock_acquire\<close> and \<open>lock_release\<close> on a lock that nobody else wants, and the
  page allocator over it: a request for pages from the kernel pool either changes nothing and
  returns a null pointer, or takes a free run of pages.
\<close>

section \<open>Under a lock\<close>

text \<open>\<open>hold l c k\<close> is the state \<open>k\<close> with the lock at \<open>l\<close>, free in \<open>k\<close>, held by the thread \<open>c\<close>.\<close>

definition hold :: "addr \<Rightarrow> addr \<Rightarrow> kernel \<Rightarrow> kernel" where
  "hold l c k = k\<lparr>words := (words k)(semaphore_of l \<mapsto> 0, l \<mapsto> c)\<rparr>"

definition lock_free :: "kernel \<Rightarrow> (addr \<rightharpoonup> addr list) \<Rightarrow> addr \<Rightarrow> bool" where
  "lock_free k L l \<longleftrightarrow> l \<noteq> NULL \<and> semaphore_of l \<noteq> NULL \<and> words k l = Some NULL \<and>
     words k (semaphore_of l) = Some 1 \<and> L (waiters_of (semaphore_of l)) = Some []"

lemma semaphore_neq [simp]: "semaphore_of l \<noteq> l" "l \<noteq> semaphore_of l"
  by (simp_all add: semaphore_of_def)

lemma hold_simps [simp]:
  "lheap (hold l c k) = lheap k" "threads (hold l c k) = threads k"
  "p \<noteq> l \<Longrightarrow> p \<noteq> semaphore_of l \<Longrightarrow> words (hold l c k) p = words k p"
  "words (hold l c k) l = Some c" "words (hold l c k) (semaphore_of l) = Some 0"
  "(hold l c k)\<lparr>lheap := h\<rparr> = hold l c (k\<lparr>lheap := h\<rparr>)"
  "kernel_pool (hold l c k) = kernel_pool k" "user_pool (hold l c k) = user_pool k"
  "pool_at q (hold l c k) = pool_at q k"
  "set_pool_map q m (hold l c k) = hold l c (set_pool_map q m k)"
  by (simp_all add: hold_def pool_at_def set_pool_map_def split: pool_ptr.split)

lemma sched_hold [simp]: "sched (hold l c k) L cur rs ts W = sched k L cur rs ts W"
  by (simp add: hold_def)

lemma word_at_hold [simp]: "p \<noteq> l \<Longrightarrow> p \<noteq> semaphore_of l \<Longrightarrow> word_at (hold l c k) p = word_at k p"
  by (simp add: word_at_def)

lemma set_word_hold [simp]:
  assumes "p \<noteq> l" "p \<noteq> semaphore_of l"
  shows "set_word p v (hold l c k) = map_option (hold l c) (set_word p v k)"
  using assms by (auto simp: set_word_def hold_def fun_upd_twist)

lemma on_lists_hold [simp]: "on_lists f (hold l c k) = map_option (hold l c) (on_lists f k)"
  by (simp add: on_lists_def option.map_comp comp_def)

lemma pop_list_hold [simp]:
  "pop_list q (hold l c k) = map_option (\<lambda>(e, k). (e, hold l c k)) (pop_list q k)"
  by (simp add: pop_list_def option.map_comp comp_def case_prod_unfold)

lemma hold_acquire:
  assumes "sched k L cur rs ts W" "lock_free k L l"
  shows "lock_acquire l k = Some (Done 0, hold l cur k)"
proof -
  have "cur \<noteq> NULL" using assms(1) by (simp add: sched_def sched_core_def thread_ok_def)
  then show ?thesis
    using lock_acquire_free[OF assms(1), of l NULL 1] assms(2) by (simp add: lock_free_def hold_def)
qed

lemma hold_release:
  assumes "sched k L cur rs ts W" "lock_free k L l"
  shows "lock_release l (hold l cur k) = Some k"
proof -
  have s: "sched (hold l cur k) L cur rs ts W" using assms(1) by simp
  then have c: "sched_core ((hold l cur k)\<lparr>words := (words (hold l cur k))(l \<mapsto> NULL)\<rparr>) L cur rs ts W"
    by (simp add: sched_def)
  have "(words k)(semaphore_of l \<mapsto> 0, l \<mapsto> cur, l \<mapsto> NULL, semaphore_of l \<mapsto> 1) = words k"
    using assms(2) by (auto simp: lock_free_def)
  then show ?thesis
    using lock_release_eq[OF s, of l] sema_up_no_waiter[OF c, of "semaphore_of l" 0] assms(2)
    by (simp add: lock_free_def) (simp add: hold_def)
qed

section \<open>Addresses\<close>

lemma unat_of_nat_small: "n < 2 ^ 32 \<Longrightarrow> unat (of_nat n :: addr) = n"
  by (simp add: unsigned_of_nat take_bit_nat_eq_self)

lemma unat_add_nat: "unat a + n < 2 ^ 32 \<Longrightarrow> unat (a + of_nat n :: addr) = unat a + n"
  using unat_of_nat_small[of n] unat_add_lem[of a "of_nat n"] by simp

section \<open>Pages of the kernel pool\<close>

definition page_at :: "pool \<Rightarrow> nat \<Rightarrow> addr" where
  "page_at p i = base p + of_nat (4096 * i)"

definition page_cnt :: "pool \<Rightarrow> nat" where
  "page_cnt p = unat (bit_cnt (used_map p))"

text \<open>
  The pool lies between the two bounds of threads/vaddr.h, its lock below them, and no free page
  holds a thread or anything that belongs to a list.
\<close>

definition pool_ok :: "kernel \<Rightarrow> (addr \<rightharpoonup> addr list) \<Rightarrow> addr list \<Rightarrow> bool" where
  "pool_ok k L ts \<longleftrightarrow> (let p = kernel_pool k in
     lock_free k L (pool_lock p) \<and> unat (pool_lock p) + 8 \<le> 0x40000 \<and> bm_wf (used_map p) \<and>
     pg_ofs (base p) = 0 \<and> 0x40000 \<le> unat (base p) \<and> unat (base p) + 4096 * page_cnt p \<le> 0x20000000 \<and>
     (\<forall>i < page_cnt p. i \<notin> used_bits (used_map p) \<longrightarrow>
        (\<forall>q \<in> ll.owned L \<union> set ts. \<not> in_range (page_at p i) 4096 q)))"

lemma pool_okD:
  assumes "pool_ok k L ts"
  shows "lock_free k L (pool_lock (kernel_pool k))" "unat (pool_lock (kernel_pool k)) + 8 \<le> 0x40000"
    "bm_wf (used_map (kernel_pool k))" "pg_ofs (base (kernel_pool k)) = 0" "0x40000 \<le> unat (base (kernel_pool k))"
    "unat (base (kernel_pool k)) + 4096 * page_cnt (kernel_pool k) \<le> 0x20000000"
    "\<And>i q. i < page_cnt (kernel_pool k) \<Longrightarrow> i \<notin> used_bits (used_map (kernel_pool k)) \<Longrightarrow>
        q \<in> ll.owned L \<union> set ts \<Longrightarrow> \<not> in_range (page_at (kernel_pool k) i) 4096 q"
  using assms unfolding pool_ok_def Let_def by blast+

lemma unat_page_at:
  assumes "pool_ok k L ts" "i \<le> page_cnt (kernel_pool k)"
  shows "unat (page_at (kernel_pool k) i) = unat (base (kernel_pool k)) + 4096 * i"
proof -
  have "unat (base (kernel_pool k)) + 4096 * i < 2 ^ 32"
    using pool_okD(6)[OF assms(1)] assms(2) by simp
  then show ?thesis unfolding page_at_def by (rule unat_add_nat)
qed

lemma page_at_aligned:
  assumes "pool_ok k L ts" "i \<le> page_cnt (kernel_pool k)"
  shows "pg_ofs (page_at (kernel_pool k) i) = 0" "page_at (kernel_pool k) i \<noteq> NULL"
    "0x40000 \<le> unat (page_at (kernel_pool k) i)"
proof -
  note u = unat_page_at[OF assms]
  have "unat (pg_ofs (page_at (kernel_pool k) i)) = 0"
    using unat_pg_ofs[of "page_at (kernel_pool k) i"] u aligned_page[OF pool_okD(4)[OF assms(1)]]
    by (simp add: mod_add_eq[symmetric])
  then show "pg_ofs (page_at (kernel_pool k) i) = 0" by (simp add: unat_eq_0)
  show "page_at (kernel_pool k) i \<noteq> NULL" "0x40000 \<le> unat (page_at (kernel_pool k) i)"
    using u pool_okD(5)[OF assms(1)] by auto
qed

text \<open>The addresses of a run of pages, page by page.\<close>

lemma in_run_page:
  assumes "pool_ok k L ts" "i + n \<le> page_cnt (kernel_pool k)" "in_range (page_at (kernel_pool k) i) (4096 * n) q"
  shows "\<exists>j \<in> {i..<i + n}. in_range (page_at (kernel_pool k) j) 4096 q"
proof -
  let ?b = "unat (base (kernel_pool k))"
  define x where "x = unat q - ?b"
  define j where "j = x div 4096"
  have q: "unat q = ?b + x" "4096 * i \<le> x" "x < (i + n) * 4096"
    using assms(3) unat_page_at[OF assms(1), of i] assms(2) by (auto simp: in_range_def x_def)
  have "4096 * j \<le> x" "x < 4096 * j + 4096"
    using times_div_less_eq_dividend[of 4096 x] dividend_less_times_div[of 4096 x] by (simp_all add: j_def)
  then have j: "i \<le> j" "j < i + n" "?b + 4096 * j \<le> unat q" "unat q < ?b + 4096 * j + 4096"
    using q div_le_mono[OF q(2), of 4096] less_mult_imp_div_less[OF q(3)] by (simp_all add: j_def)
  moreover have "in_range (page_at (kernel_pool k) j) 4096 q"
    using j unat_page_at[OF assms(1), of j] assms(2) by (auto simp: in_range_def)
  ultimately show ?thesis by auto
qed


section \<open>Requests for pages\<close>

lemma sched_core_pool [simp]: "sched_core (set_pool_map q m k) L cur rs ts W = sched_core k L cur rs ts W"
  by (cases q) (simp_all add: sched_core_def set_pool_map_def thread_ok_def status_of_def thread_at_def frame_of_def)

lemma sched_pool [simp]: "sched (set_pool_map q m k) L cur rs ts W = sched k L cur rs ts W"
  by (cases q) (simp_all add: sched_def, simp_all add: set_pool_map_def status_of_def thread_at_def)

lemma set_pool_map_memory [simp]:
  "lheap (set_pool_map q m k) = lheap k" "words (set_pool_map q m k) = words k"
  "threads (set_pool_map q m k) = threads k"
  "pool_lock (kernel_pool (set_pool_map q m k)) = pool_lock (kernel_pool k)"
  "base (kernel_pool (set_pool_map q m k)) = base (kernel_pool k)"
  "used_map (kernel_pool (set_pool_map Kernel_pool m k)) = m"
  "page_at (kernel_pool (set_pool_map q m k)) i = page_at (kernel_pool k) i"
  by (cases q; simp add: set_pool_map_def page_at_def)+

lemma set_pool_map_same [simp]: "set_pool_map Kernel_pool (used_map (kernel_pool k)) k = k"
  by (simp add: set_pool_map_def)

lemma unat_page_size:
  assumes "unat n \<le> 2 ^ 20 - 1"
  shows "unat (PGSIZE * n) = 4096 * unat n"
  using assms by (subst unat_mult_lem[THEN iffD1]) (auto simp: PGSIZE_def)

text \<open>No run of \<open>n\<close> free pages is left.\<close>

definition exhausted :: "kernel \<Rightarrow> nat \<Rightarrow> bool" where
  "exhausted k n \<longleftrightarrow> (\<forall>j. j + n \<le> page_cnt (kernel_pool k) \<longrightarrow> {j..<j + n} \<inter> used_bits (used_map (kernel_pool k)) \<noteq> {})"

text \<open>The two outcomes of a request in a state where the lock of the pool is free.\<close>

lemma get_pages:
  assumes s: "sched k L cur rs ts W" and p: "pool_ok k L ts" and n: "0 < n"
  obtains (none) "palloc_get_multiple 0 n k = Some (Done NULL, k)" "exhausted k (unat n)"
    | (run) i m where
      "palloc_get_multiple 0 n k = Some (Done (page_at (kernel_pool k) i),
         cc_fill (page_at (kernel_pool k) i) (4096 * unat n) (set_pool_map Kernel_pool m k))"
      "i + unat n \<le> page_cnt (kernel_pool k)" "{i..<i + unat n} \<inter> used_bits (used_map (kernel_pool k)) = {}"
      "bm_wf m" "bit_cnt m = bit_cnt (used_map (kernel_pool k))"
      "used_bits m = used_bits (used_map (kernel_pool k)) \<union> {i..<i + unat n}"
proof -
  let ?l = "pool_lock (kernel_pool k)" and ?m = "used_map (kernel_pool k)"
  note D = pool_okD[OF p]
  have acq: "lock_acquire ?l k = Some (Done 0, hold ?l cur k)" by (rule hold_acquire[OF s D(1)])
  have rel: "lock_release ?l (hold ?l cur (set_pool_map Kernel_pool m k)) = Some (set_pool_map Kernel_pool m k)" for m
    by (rule hold_release[of _ L cur rs ts W]) (use s D(1) in \<open>auto simp: lock_free_def\<close>)
  have go: "palloc_get_multiple 0 n k = get_pages_tail Kernel_pool 0 n (hold ?l cur k)"
    using acq n by (auto simp: palloc_get_multiple_def pool_at_def word_gt_0)
  from D(3) n show thesis
  proof (cases rule: rl.take_cases)
    case (some i m)
    have c: "unat i + unat n \<le> page_cnt (kernel_pool k)" using some(5) by (simp add: page_cnt_def)
    then have small: "unat i \<le> 2 ^ 20 - 1" "unat n \<le> 2 ^ 20 - 1" using D(6) by auto
    have a: "base (kernel_pool k) + PGSIZE * i = page_at (kernel_pool k) (unat i)"
      using unat_page_size[OF small(1)] by (simp add: page_at_def PGSIZE_def)
    have "page_at (kernel_pool k) (unat i) \<noteq> NULL" by (rule page_at_aligned(2)[OF p]) (use c in simp)
    then have "palloc_get_multiple 0 n k = Some (Done (page_at (kernel_pool k) (unat i)),
         cc_fill (page_at (kernel_pool k) (unat i)) (4096 * unat n) (set_pool_map Kernel_pool m k))"
      using go some(1,2) rel a unat_page_size[OF small(2)] unfolding get_pages_tail_def
      by (simp add: pool_at_def Let_def)
    then show thesis using run[of "unat i" m] c some(3-7) by (auto simp: word_unat_eq_iff)
  next
    case none
    have "palloc_get_multiple 0 n k = Some (Done NULL, k)"
      using go rel[of ?m] none(1) unfolding get_pages_tail_def by (simp add: pool_at_def Let_def)
    moreover have "exhausted k (unat n)" using none(2) by (simp add: exhausted_def page_cnt_def)
    ultimately show thesis by (rule that(1))
  qed
qed

end
