(* ===== verification/Kernel_Malloc_Rep.thy ===== *)
theory Kernel_Malloc_Rep
  imports Kernel_Malloc Kernel_Page_Rep
begin

text \<open>
  The pieces of the block allocator: the table of descriptors, the blocks of an arena, and the
  loops that put the blocks of an arena on a free list and take them off.
\<close>

section \<open>The table of descriptors\<close>

definition class_size :: "nat \<Rightarrow> nat" where "class_size i = 16 * 2 ^ i"

definition class_blocks :: "nat \<Rightarrow> nat" where "class_blocks i = 4084 div class_size i"

definition desc_of :: "malloc_statics \<Rightarrow> nat \<Rightarrow> addr" where
  "desc_of ms i = descs ms + of_nat (48 * i)"

text \<open>The static variables lie below the memory of the pools, and the array does not wrap.\<close>

definition statics_ok :: "malloc_statics \<Rightarrow> bool" where
  "statics_ok ms \<longleftrightarrow> descs ms \<noteq> NULL \<and> unat (descs ms) + 480 \<le> 0x40000 \<and> desc_cnt_at ms \<noteq> NULL \<and>
     unat (desc_cnt_at ms) < 0x40000 \<and> \<not> in_range (descs ms) 480 (desc_cnt_at ms)"

definition descs_ok :: "malloc_statics \<Rightarrow> kernel \<Rightarrow> bool" where
  "descs_ok ms k \<longleftrightarrow> statics_ok ms \<and> words k (desc_cnt_at ms) = Some 7 \<and>
     (\<forall>i < 7. words k (desc_of ms i) = Some (of_nat (class_size i)) \<and>
              words k (desc_of ms i + 4) = Some (of_nat (class_blocks i)))"

lemma class_cases: "i < (7 :: nat) \<Longrightarrow> i = 0 \<or> i = 1 \<or> i = 2 \<or> i = 3 \<or> i = 4 \<or> i = 5 \<or> i = 6"
  by auto

lemma class_bounds:
  assumes "i < 7"
  shows "16 \<le> class_size i" "class_size i \<le> 1024" "3 \<le> class_blocks i" "class_blocks i \<le> 255"
    "class_blocks i * class_size i \<le> 4084"
  using class_cases[OF assms] by (auto simp: class_blocks_def class_size_def)

lemma unat_desc_of:
  assumes "statics_ok ms" "i \<le> 10" "off < 48" "48 * i + off \<le> 480"
  shows "unat (desc_of ms i + of_nat off) = unat (descs ms) + 48 * i + off"
proof -
  have "desc_of ms i + of_nat off = descs ms + of_nat (48 * i + off)" by (simp add: desc_of_def)
  then show ?thesis using assms(1,4) unat_add_nat[of "descs ms" "48 * i + off"]
    by (auto simp: statics_ok_def simp del: of_nat_add of_nat_mult)
qed


lemmas unat_desc = unat_desc_of[where off = 0, simplified]

lemma desc_of_fields:
  "free_list_of (desc_of ms i) = desc_of ms i + of_nat 8" "desc_lock (desc_of ms i) = desc_of ms i + of_nat 24"
  "semaphore_of (desc_lock (desc_of ms i)) = desc_of ms i + of_nat 28"
  "desc_of ms i + 4 = desc_of ms i + of_nat 4" "desc_of ms (Suc i) = desc_of ms i + sizeof_desc"
  by (simp_all add: free_list_of_def desc_lock_def semaphore_of_def desc_of_def sizeof_desc_def)

lemma desc_of_end: "descs ms + 7 * sizeof_desc = desc_of ms 7"
  by (simp add: desc_of_def sizeof_desc_def)

text \<open>All addresses in the array, and the counter, are low and different from each other.\<close>

lemma desc_field_low:
  assumes "statics_ok ms" "i < 7" "off < 48"
  shows "unat (desc_of ms i + of_nat off) < 0x40000" "desc_of ms i + of_nat off \<noteq> NULL"
    "desc_of ms i + of_nat off \<noteq> desc_cnt_at ms"
proof -
  have "unat (desc_of ms i + of_nat off) = unat (descs ms) + 48 * i + off"
    using unat_desc_of[OF assms(1), of i off] assms by simp
  moreover have "0 < unat (descs ms)" using assms(1) by (simp add: statics_ok_def unat_gt_0)
  ultimately show "unat (desc_of ms i + of_nat off) < 0x40000" "desc_of ms i + of_nat off \<noteq> NULL"
    "desc_of ms i + of_nat off \<noteq> desc_cnt_at ms"
    using assms by (auto simp: statics_ok_def in_range_def word_unat_eq_iff)
qed

lemma desc_field_inject:
  assumes "statics_ok ms" "i < 7" "j < 7" "off < 48" "off' < 48"
  shows "desc_of ms i + of_nat off = desc_of ms j + of_nat off' \<longleftrightarrow> i = j \<and> off = off'"
proof -
  have "unat (desc_of ms i + of_nat off) = unat (descs ms) + 48 * i + off"
    "unat (desc_of ms j + of_nat off') = unat (descs ms) + 48 * j + off'"
    using unat_desc_of[OF assms(1), of i off] unat_desc_of[OF assms(1), of j off'] assms by simp_all
  moreover have "48 * i + off = 48 * j + off' \<Longrightarrow> i = j" using assms(4,5) by presburger
  ultimately show ?thesis by (auto simp: word_unat_eq_iff)
qed

lemma word_at_lheap [simp]: "word_at (k\<lparr>lheap := h\<rparr>) p = word_at k p"
  by (simp add: word_at_def)

lemma desc_words:
  assumes ok: "descs_ok ms k" and i: "i < 7"
  shows "statics_ok ms" "word_at k (desc_cnt_at ms) = Some 7" "word_at k (desc_of ms i) = Some (of_nat (class_size i))"
    "word_at k (desc_of ms i + 4) = Some (of_nat (class_blocks i))" "desc_of ms i \<noteq> NULL"
proof -
  show s: "statics_ok ms" using ok by (simp add: descs_ok_def)
  show "word_at k (desc_cnt_at ms) = Some 7" "word_at k (desc_of ms i) = Some (of_nat (class_size i))"
    "word_at k (desc_of ms i + 4) = Some (of_nat (class_blocks i))" "desc_of ms i \<noteq> NULL"
    using ok s i desc_field_low[OF s i, of 0] desc_field_low[OF s i, of 4]
    by (auto simp: descs_ok_def word_at_def statics_ok_def)
qed

lemma descs_ok_lheap [simp]: "descs_ok ms (k\<lparr>lheap := h\<rparr>) = descs_ok ms k"
  by (simp add: descs_ok_def)

lemma small_less: "j < n \<Longrightarrow> n < 4096 \<Longrightarrow> (of_nat j :: addr) < of_nat n"
  by (simp add: word_less_nat_alt unat_of_nat_small)

text \<open>The search: the first class that is large enough.\<close>

definition class_for :: "nat \<Rightarrow> nat" where
  "class_for n = (if \<exists>i < 7. n \<le> class_size i then LEAST i. n \<le> class_size i else 7)"

lemma find_desc_step:
  assumes ok: "descs_ok ms k" and i: "i < 7"
  shows "find_desc ms sz (desc_of ms i) k =
     (if unat sz \<le> class_size i then Some (desc_of ms i) else find_desc ms sz (desc_of ms (Suc i)) k)"
proof -
  note s = desc_words(1)[OF ok i]
  have lt: "desc_of ms i < desc_of ms 7"
    using unat_desc[OF s, of i] unat_desc[OF s, of 7] i by (simp add: word_less_nat_alt)
  have u: "unat (of_nat (class_size i) :: addr) = class_size i"
    using class_bounds(2)[OF i] by (intro unat_of_nat_small) simp
  show ?thesis
    using desc_words(2,3)[OF ok i] lt u
    by (subst find_desc.simps) (simp add: desc_of_end desc_of_fields(5) word_le_nat_alt)
qed

lemma find_desc_from:
  assumes ok: "descs_ok ms k"
  shows "i \<le> 7 \<Longrightarrow> \<forall>j < i. class_size j < unat sz \<Longrightarrow>
     find_desc ms sz (desc_of ms i) k = Some (desc_of ms (class_for (unat sz)))"
proof (induction "7 - i" arbitrary: i)
  case 0
  then have i: "i = 7" by simp
  have "class_for (unat sz) = 7" using 0 i by (auto simp: class_for_def not_le)
  moreover have "find_desc ms sz (desc_of ms 7) k = Some (desc_of ms 7)"
    using ok by (subst find_desc.simps) (simp add: descs_ok_def statics_ok_def word_at_def desc_of_end)
  ultimately show ?case using i by simp
next
  case (Suc n)
  then have i: "i < 7" by simp
  show ?case
  proof (cases "unat sz \<le> class_size i")
    case True
    have "(LEAST j. unat sz \<le> class_size j) = i"
      using True Suc.prems(2) by (intro Least_equality) (auto simp: not_less[symmetric])
    then have "class_for (unat sz) = i" using True i by (auto simp: class_for_def)
    then show ?thesis using find_desc_step[OF ok i, of sz] True by simp
  next
    case False
    have "\<forall>j < Suc i. class_size j < unat sz" using False Suc.prems(2) by (auto simp: less_Suc_eq)
    then show ?thesis using find_desc_step[OF ok i, of sz] False Suc.hyps(1)[of "Suc i"] Suc.hyps(2) i by simp
  qed
qed

lemma find_desc_eq:
  "descs_ok ms k \<Longrightarrow> find_desc ms sz (descs ms) k = Some (desc_of ms (class_for (unat sz)))"
  using find_desc_from[of ms k 0 sz] by (simp add: desc_of_def)

lemma class_for_fits: "class_for n < 7 \<Longrightarrow> n \<le> class_size (class_for n)"
  by (auto simp: class_for_def split: if_splits intro: LeastI)

section \<open>The blocks of an arena\<close>

definition block_at :: "nat \<Rightarrow> addr \<Rightarrow> nat \<Rightarrow> addr" where
  "block_at i a j = a + of_nat (12 + j * class_size i)"

lemma block_bound:
  assumes "i < 7" "j < class_blocks i"
  shows "12 + j * class_size i + class_size i \<le> 4096"
proof -
  have "Suc j * class_size i \<le> class_blocks i * class_size i" using assms(2) by (intro mult_le_mono1) simp
  then show ?thesis using class_bounds(5)[OF assms(1)] by simp
qed

lemma unat_block:
  assumes "pg_ofs a = 0" "i < 7" "j < class_blocks i"
  shows "unat (block_at i a j) = unat a + 12 + j * class_size i"
proof -
  have "unat a + (12 + j * class_size i) < 2 ^ 32"
    using page_bound[OF assms(1)] block_bound[OF assms(2,3)] class_bounds(1)[OF assms(2)] by simp
  then show ?thesis using unat_add_nat unfolding block_at_def by fastforce
qed

lemma block_inject:
  assumes "pg_ofs a = 0" "i < 7" "j < class_blocks i" "j' < class_blocks i"
  shows "block_at i a j = block_at i a j' \<longleftrightarrow> j = j'"
  using unat_block[OF assms(1-3)] unat_block[OF assms(1,2,4)] class_bounds(1)[OF assms(2)]
  by (auto simp: word_unat_eq_iff)

lemma block_not_NULL: "pg_ofs a = 0 \<Longrightarrow> i < 7 \<Longrightarrow> j < class_blocks i \<Longrightarrow> block_at i a j \<noteq> NULL"
  using unat_block[of a i j] by (auto simp: word_unat_eq_iff)

lemma block_in_page:
  assumes "pg_ofs a = 0" "i < 7" "j < class_blocks i" "in_range (block_at i a j) (class_size i) p"
  shows "in_range a 4096 p" "\<not> in_range a 12 p"
  using assms(4) unat_block[OF assms(1-3)] block_bound[OF assms(2,3)] by (auto simp: in_range_def)

lemma block_disjoint:
  assumes "pg_ofs a = 0" "i < 7" "j < class_blocks i" "j' < class_blocks i" "j \<noteq> j'"
    "in_range (block_at i a j) (class_size i) p"
  shows "\<not> in_range (block_at i a j') (class_size i) p"
proof -
  have "Suc j \<le> j' \<or> Suc j' \<le> j" using assms(5) by auto
  then have "Suc j * class_size i \<le> j' * class_size i \<or> Suc j' * class_size i \<le> j * class_size i"
    by (metis mult_le_mono1)
  then show ?thesis
    using assms(6) unat_block[OF assms(1-3)] unat_block[OF assms(1,2,4)] by (auto simp: in_range_def)
qed

text \<open>From a block back to its arena: rounding the address down to a page.\<close>

lemma pg_round_down_eq: "pg_round_down p = p - pg_ofs p"
proof -
  have "(p AND NOT PGMASK) + (p AND PGMASK) = p"
    by (metis (no_types, lifting) and.commute and.right_neutral bit.conj_cancel_left bit.conj_disj_distrib
        disjunctive_add bit.disj_cancel_right or.commute and_zero_eq bit_and_iff bit_not_iff)
  then show ?thesis by (simp add: pg_round_down_def pg_ofs_def eq_diff_eq)
qed

lemma page_of_offset:
  assumes "pg_ofs a = 0" "n < 4096"
  shows "pg_ofs (a + of_nat n) = of_nat n" "pg_round_down (a + of_nat n) = a"
proof -
  have u: "unat (a + of_nat n) = unat a + n" using page_bound[OF assms(1)] assms(2) by (intro unat_add_nat) simp
  have "unat (pg_ofs (a + of_nat n)) = n"
    using unat_pg_ofs[of "a + of_nat n"] u aligned_page[OF assms(1)] assms(2) by (simp add: mod_add_eq[symmetric])
  then show *: "pg_ofs (a + of_nat n) = of_nat n" using assms(2) by (simp add: word_unat_eq_iff unat_of_nat_small)
  show "pg_round_down (a + of_nat n) = a" using * by (simp add: pg_round_down_eq)
qed

text \<open>What an arena of class \<open>i\<close> holds in its header.\<close>

definition arena_of :: "malloc_statics \<Rightarrow> kernel \<Rightarrow> nat \<Rightarrow> addr \<Rightarrow> bool" where
  "arena_of ms k i a \<longleftrightarrow> i < 7 \<and> a \<noteq> NULL \<and> pg_ofs a = 0 \<and> words k a = Some ARENA_MAGIC \<and>
     words k (desc_at a) = Some (desc_of ms i)"

lemma block_to_arena_eq:
  assumes ok: "descs_ok ms k" and a: "arena_of ms k i a" and j: "j < class_blocks i"
  shows "block_to_arena (block_at i a j) k = Some a"
proof -
  have i: "i < 7" using a by (simp add: arena_of_def)
  have n: "12 + j * class_size i < 4096" using block_bound[OF i j] class_bounds(1)[OF i] by simp
  have g: "pg_round_down (block_at i a j) = a" "pg_ofs (block_at i a j) = of_nat (12 + j * class_size i)"
    using page_of_offset[OF _ n, of a] a unfolding arena_of_def block_at_def by blast+
  have da: "desc_at a \<noteq> NULL" using a page_add[of a 4] by (auto simp: desc_at_def arena_of_def word_unat_eq_iff)
  note d = desc_words[OF ok i]
  have m: "(pg_ofs (block_at i a j) - sizeof_arena) mod of_nat (class_size i) = 0"
  proof -
    have "unat (of_nat (j * class_size i) :: addr) = j * class_size i"
      "unat (of_nat (class_size i) :: addr) = class_size i"
      using n class_bounds(2)[OF i] unat_of_nat_small[of "j * class_size i"] unat_of_nat_small[of "class_size i"]
      by simp_all
    then have "unat (of_nat (j * class_size i) mod of_nat (class_size i) :: addr) = 0"
      by (simp add: unat_mod)
    moreover have "pg_ofs (block_at i a j) - sizeof_arena = of_nat (j * class_size i)"
      unfolding g by (simp add: sizeof_arena_def)
    ultimately show ?thesis by (simp add: unat_eq_0)
  qed
  show ?thesis
    using g(1) a da d m by (simp add: block_to_arena_def arena_of_def) (simp add: word_at_def)
qed

lemma arena_to_block_eq:
  assumes ok: "descs_ok ms k" and a: "arena_of ms k i a" and j: "j < class_blocks i"
  shows "arena_to_block a (of_nat j) k = Some (block_at i a j)"
proof -
  have i: "i < 7" using a by (simp add: arena_of_def)
  have da: "desc_at a \<noteq> NULL" using a page_add[of a 4] by (auto simp: desc_at_def arena_of_def word_unat_eq_iff)
  note d = desc_words[OF ok i]
  have "(of_nat j :: addr) < of_nat (class_blocks i)" using j class_bounds(4)[OF i] by (intro small_less) auto
  then show ?thesis
    using a da d by (simp add: arena_to_block_def arena_of_def word_at_def block_at_def sizeof_arena_def)
qed

section \<open>The two loops\<close>

text \<open>Filling the free list with the blocks of a new arena, from block \<open>j\<close> on.\<close>

lemma add_blocks_eq:
  assumes ok: "descs_ok ms k" and a: "arena_of ms k i a" and j: "j \<le> class_blocks i"
    and fl: "dlist h (free_list_of (desc_of ms i)) xs"
    and fresh: "\<And>m. j \<le> m \<Longrightarrow> m < class_blocks i \<Longrightarrow> valid h (block_at i a m) \<and>
        block_at i a m \<notin> set (nodes (free_list_of (desc_of ms i)) xs)"
  defines "bs \<equiv> map (block_at i a) [j..<class_blocks i]"
  shows "\<exists>h'. add_blocks (desc_of ms i) a (of_nat j) (k\<lparr>lheap := h\<rparr>) = Some (k\<lparr>lheap := h'\<rparr>) \<and>
     dlist h' (free_list_of (desc_of ms i)) (xs @ bs) \<and>
     modifies h h' (set (nodes (free_list_of (desc_of ms i)) (xs @ bs)))"
  using j fl fresh unfolding bs_def
proof (induction "class_blocks i - j" arbitrary: j xs h)
  case 0
  have "i < 7" using a by (simp add: arena_of_def)
  from desc_words(4)[OF ok this] show ?case
    using 0 by (intro exI[of _ h]) (subst add_blocks.simps, simp)
next
  case (Suc n)
  let ?l = "free_list_of (desc_of ms i)" and ?b = "block_at i a j"
  have i: "i < 7" and pg: "pg_ofs a = 0" using a by (auto simp: arena_of_def)
  have j: "j < class_blocks i" using Suc.hyps(2) by simp
  note w = desc_words(4)[OF ok i]
  have lt: "(of_nat j :: addr) < of_nat (class_blocks i)" using j class_bounds(4)[OF i] by (intro small_less) auto
  have b: "arena_to_block a (of_nat j) (k\<lparr>lheap := h\<rparr>) = Some ?b"
    by (rule arena_to_block_eq) (use ok a j in \<open>auto simp: descs_ok_def arena_of_def\<close>)
  obtain h1 where h1: "list_push_back h ?l ?b = Some h1" "dlist h1 ?l (xs @ [?b])"
      "modifies h h1 (insert ?b (set (nodes ?l xs)))"
    using lq.push[OF Suc.prems(2), of ?b] Suc.prems(3)[of j] j by auto
  have "\<exists>h'. add_blocks (desc_of ms i) a (of_nat (Suc j)) (k\<lparr>lheap := h1\<rparr>) = Some (k\<lparr>lheap := h'\<rparr>) \<and>
     dlist h' ?l ((xs @ [?b]) @ map (block_at i a) [Suc j..<class_blocks i]) \<and>
     modifies h1 h' (set (nodes ?l ((xs @ [?b]) @ map (block_at i a) [Suc j..<class_blocks i])))"
  proof (rule Suc.hyps(1)[OF _ _ h1(2)])
    fix m assume m: "Suc j \<le> m" "m < class_blocks i"
    then show "valid h1 (block_at i a m) \<and> block_at i a m \<notin> set (nodes ?l (xs @ [?b]))"
      using Suc.prems(3)[of m] modifies_valid[OF h1(3)] block_inject[OF pg i m(2) j]
      by (auto simp: set_nodes)
  qed (use Suc.hyps(2) in auto)
  then obtain h' where h': "add_blocks (desc_of ms i) a (of_nat (Suc j)) (k\<lparr>lheap := h1\<rparr>) = Some (k\<lparr>lheap := h'\<rparr>)"
     "dlist h' ?l ((xs @ [?b]) @ map (block_at i a) [Suc j..<class_blocks i])"
     "modifies h1 h' (set (nodes ?l ((xs @ [?b]) @ map (block_at i a) [Suc j..<class_blocks i])))" by blast
  have e: "?b # map (block_at i a) [Suc j..<class_blocks i] = map (block_at i a) [j..<class_blocks i]"
    using j by (simp add: upt_conv_Cons)
  have "add_blocks (desc_of ms i) a (of_nat j) (k\<lparr>lheap := h\<rparr>) = Some (k\<lparr>lheap := h'\<rparr>)"
    using w lt b h1(1) h'(1)
    by (subst add_blocks.simps) (simp add: on_lists_def add.commute)
  moreover have "modifies h h' (set (nodes ?l (xs @ map (block_at i a) [j..<class_blocks i])))"
    unfolding e[symmetric]
    by (rule modifies_trans[OF h1(3) h'(3)]) (auto simp: set_nodes)
  ultimately show ?case using h'(2) unfolding e[symmetric] by auto
qed

text \<open>Taking the blocks of an arena, from block \<open>j\<close> on, off the free list.\<close>

lemma remove_blocks_eq:
  assumes ok: "descs_ok ms k" and a: "arena_of ms k i a" and j: "j \<le> class_blocks i"
    and fl: "dlist h (free_list_of (desc_of ms i)) xs"
    and mem: "\<And>m. j \<le> m \<Longrightarrow> m < class_blocks i \<Longrightarrow> block_at i a m \<in> set xs"
  shows "\<exists>h'. remove_blocks (desc_of ms i) a (of_nat j) (k\<lparr>lheap := h\<rparr>) = Some (k\<lparr>lheap := h'\<rparr>) \<and>
     dlist h' (free_list_of (desc_of ms i)) (filter (\<lambda>b. b \<notin> block_at i a ` {j..<class_blocks i}) xs) \<and>
     modifies h h' (set (nodes (free_list_of (desc_of ms i)) xs))"
  using j fl mem
proof (induction "class_blocks i - j" arbitrary: j xs h)
  case 0
  have "i < 7" using a by (simp add: arena_of_def)
  from desc_words(4)[OF ok this] show ?case
    using 0 by (intro exI[of _ h]) (subst remove_blocks.simps, simp)
next
  case (Suc n)
  let ?l = "free_list_of (desc_of ms i)" and ?b = "block_at i a j"
  have i: "i < 7" and pg: "pg_ofs a = 0" using a by (auto simp: arena_of_def)
  have j: "j < class_blocks i" using Suc.hyps(2) by simp
  note w = desc_words(4)[OF ok i]
  have lt: "(of_nat j :: addr) < of_nat (class_blocks i)" using j class_bounds(4)[OF i] by (intro small_less) auto
  have b: "arena_to_block a (of_nat j) (k\<lparr>lheap := h\<rparr>) = Some ?b"
    by (rule arena_to_block_eq) (use ok a j in \<open>auto simp: descs_ok_def arena_of_def\<close>)
  obtain ys zs where xs: "xs = ys @ ?b # zs" using Suc.prems(3)[of j] j by (metis order_refl split_list)
  have d: "?b \<notin> set ys" "?b \<notin> set zs"
    using dlistD(1)[OF Suc.prems(2)] unfolding xs by (auto simp: nodes_def)
  obtain n1 h1 where h1: "list_remove h ?b = Some (n1, h1)" "dlist h1 ?l (ys @ zs)"
      "modifies h h1 (set (nodes ?l (ys @ zs)))"
    using list_remove_dlist[of h ?l ys ?b zs] Suc.prems(2) xs by blast
  have "\<exists>h'. remove_blocks (desc_of ms i) a (of_nat (Suc j)) (k\<lparr>lheap := h1\<rparr>) = Some (k\<lparr>lheap := h'\<rparr>) \<and>
     dlist h' ?l (filter (\<lambda>b. b \<notin> block_at i a ` {Suc j..<class_blocks i}) (ys @ zs)) \<and>
     modifies h1 h' (set (nodes ?l (ys @ zs)))"
  proof (rule Suc.hyps(1)[OF _ _ h1(2)])
    fix m assume m: "Suc j \<le> m" "m < class_blocks i"
    then show "block_at i a m \<in> set (ys @ zs)"
      using Suc.prems(3)[of m] block_inject[OF pg i m(2) j] unfolding xs by auto
  qed (use Suc.hyps(2) in auto)
  then obtain h' where h': "remove_blocks (desc_of ms i) a (of_nat (Suc j)) (k\<lparr>lheap := h1\<rparr>) = Some (k\<lparr>lheap := h'\<rparr>)"
     "dlist h' ?l (filter (\<lambda>b. b \<notin> block_at i a ` {Suc j..<class_blocks i}) (ys @ zs))"
     "modifies h1 h' (set (nodes ?l (ys @ zs)))" by blast
  have up: "{j..<class_blocks i} = insert j {Suc j..<class_blocks i}" using j by auto
  have "filter (\<lambda>b. b \<notin> block_at i a ` {j..<class_blocks i}) xs =
     filter (\<lambda>b. b \<notin> block_at i a ` {Suc j..<class_blocks i}) (ys @ zs)"
    unfolding xs up using d by (auto intro!: filter_cong arg_cong2[of _ _ _ _ append])
  moreover have "remove_blocks (desc_of ms i) a (of_nat j) (k\<lparr>lheap := h\<rparr>) = Some (k\<lparr>lheap := h'\<rparr>)"
    using w lt b h1(1) h'(1) by (subst remove_blocks.simps) (simp add: add.commute)
  moreover have "modifies h h' (set (nodes ?l xs))"
    by (rule modifies_trans[OF h1(3) h'(3)]) (auto simp: set_nodes xs)
  ultimately show ?case using h'(2) by auto
qed

end
