(* ===== verification/Kernel_Malloc_Heap.thy ===== *)
theory Kernel_Malloc_Heap
  imports Kernel_Malloc_Rep
begin

text \<open>
  The invariant of the block allocator.  \<open>A\<close> maps the address of each arena to what it is: an
  arena of blocks of class \<open>i\<close>, or a big block of \<open>n\<close> pages; \<open>xs i\<close> is the free list of class
  \<open>i\<close>.  Together they say which blocks are in use.  The lemmas of this theory are the four ways
  in which the operations change the heap: an arena appears or disappears, a block is taken off
  its free list or put back on it.
\<close>

section \<open>Arenas\<close>

datatype arena = Small nat | Big nat

fun arena_size :: "arena \<Rightarrow> nat" where
  "arena_size (Small i) = 4096"
| "arena_size (Big n) = 4096 * n"

text \<open>The blocks of an arena, each with its capacity.\<close>

fun slots :: "addr \<Rightarrow> arena \<Rightarrow> (addr \<times> nat) set" where
  "slots a (Small i) = (\<lambda>j. (block_at i a j, class_size i)) ` {0..<class_blocks i}"
| "slots a (Big n) = {(a + sizeof_arena, 4096 * n - 12)}"

definition free_blocks :: "(nat \<Rightarrow> addr list) \<Rightarrow> addr set" where
  "free_blocks xs = (\<Union>i \<in> {0..<7}. set (xs i))"

definition in_use :: "(nat \<Rightarrow> addr list) \<Rightarrow> (addr \<rightharpoonup> arena) \<Rightarrow> (addr \<times> nat) set" where
  "in_use xs A = {(b, c). b \<notin> free_blocks xs \<and> (\<exists>a r. A a = Some r \<and> (b, c) \<in> slots a r)}"

definition free_count :: "(nat \<Rightarrow> addr list) \<Rightarrow> nat \<Rightarrow> addr \<Rightarrow> nat" where
  "free_count xs i a = card {j. j < class_blocks i \<and> block_at i a j \<in> free_blocks xs}"

text \<open>
  One arena: its pages are used pages of the pool, its header is in place, all its memory is
  there, no thread lies in it, and what lies in it and belongs to a list belongs to a block: to a
  free block only its first element, which is in the free list.  An arena outside \<open>E\<close> has a
  block in use.
\<close>

definition arena_header :: "addr set \<Rightarrow> malloc_statics \<Rightarrow> (addr \<rightharpoonup> u32) \<Rightarrow> (nat \<Rightarrow> addr list) \<Rightarrow> addr \<Rightarrow> arena \<Rightarrow> bool" where
  "arena_header E ms w xs a r \<longleftrightarrow> w a = Some ARENA_MAGIC \<and> (case r of
      Small i \<Rightarrow> i < 7 \<and> w (desc_at a) = Some (desc_of ms i) \<and>
        w (free_cnt_at a) = Some (of_nat (free_count xs i a)) \<and> (a \<notin> E \<longrightarrow> free_count xs i a < class_blocks i)
    | Big n \<Rightarrow> 0 < n \<and> w (desc_at a) = Some NULL \<and> w (free_cnt_at a) = Some (of_nat n))"

definition arena_pages :: "pool \<Rightarrow> addr \<Rightarrow> arena \<Rightarrow> bool" where
  "arena_pages p a r \<longleftrightarrow> (\<exists>i n. a = page_at p i \<and> arena_size r = 4096 * n \<and> i + n \<le> page_cnt p \<and>
     {i..<i + n} \<subseteq> used_bits (used_map p))"

definition arena_memory ::
  "kernel \<Rightarrow> (addr \<rightharpoonup> addr list) \<Rightarrow> addr list \<Rightarrow> (nat \<Rightarrow> addr list) \<Rightarrow> addr \<Rightarrow> arena \<Rightarrow> bool" where
  "arena_memory k L ts xs a r \<longleftrightarrow> (\<forall>q. in_range a (arena_size r) q \<longrightarrow>
     q \<in> dom (lheap k) \<and> q \<in> dom (words k) \<and> q \<notin> set ts \<and>
     (q \<in> ll.owned L \<longrightarrow> (\<exists>b c. (b, c) \<in> slots a r \<and> in_range b c q \<and> (b \<in> free_blocks xs \<longrightarrow> q = b))))"

definition heap ::
  "addr set \<Rightarrow> malloc_statics \<Rightarrow> kernel \<Rightarrow> (addr \<rightharpoonup> addr list) \<Rightarrow> addr list \<Rightarrow> (nat \<Rightarrow> addr list) \<Rightarrow> (addr \<rightharpoonup> arena) \<Rightarrow> bool" where
  "heap E ms k L ts xs A \<longleftrightarrow> descs_ok ms k \<and>
     (\<forall>i < 7. L (free_list_of (desc_of ms i)) = Some (xs i) \<and> lock_free k L (desc_lock (desc_of ms i))) \<and>
     (\<forall>i < 7. \<forall>b \<in> set (xs i). \<exists>a j. A a = Some (Small i) \<and> j < class_blocks i \<and> b = block_at i a j) \<and>
     (\<forall>a r. A a = Some r \<longrightarrow> arena_pages (kernel_pool k) a r \<and> arena_header E ms (words k) xs a r \<and>
        arena_memory k L ts xs a r) \<and>
     (\<forall>a r a' r' q. A a = Some r \<longrightarrow> A a' = Some r' \<longrightarrow> in_range a (arena_size r) q \<longrightarrow>
        in_range a' (arena_size r') q \<longrightarrow> a = a')"

lemma heapD:
  assumes "heap E ms k L ts xs A"
  shows "descs_ok ms k" "\<And>i. i < 7 \<Longrightarrow> L (free_list_of (desc_of ms i)) = Some (xs i)"
    "\<And>i. i < 7 \<Longrightarrow> lock_free k L (desc_lock (desc_of ms i))"
    "\<And>i b. i < 7 \<Longrightarrow> b \<in> set (xs i) \<Longrightarrow> \<exists>a j. A a = Some (Small i) \<and> j < class_blocks i \<and> b = block_at i a j"
    "\<And>a r. A a = Some r \<Longrightarrow> arena_pages (kernel_pool k) a r"
    "\<And>a r. A a = Some r \<Longrightarrow> arena_header E ms (words k) xs a r"
    "\<And>a r. A a = Some r \<Longrightarrow> arena_memory k L ts xs a r"
    "\<And>a r a' r' q. A a = Some r \<Longrightarrow> A a' = Some r' \<Longrightarrow> in_range a (arena_size r) q \<Longrightarrow>
        in_range a' (arena_size r') q \<Longrightarrow> a = a'"
  using assms unfolding heap_def by blast+

section \<open>The whole state\<close>

definition allocator ::
  "addr set \<Rightarrow> malloc_statics \<Rightarrow> kernel \<Rightarrow> (addr \<rightharpoonup> addr list) \<Rightarrow> addr \<Rightarrow> addr list \<Rightarrow> addr list \<Rightarrow> addr set \<Rightarrow>
   (nat \<Rightarrow> addr list) \<Rightarrow> (addr \<rightharpoonup> arena) \<Rightarrow> bool" where
  "allocator E ms k L cur rs ts W xs A \<longleftrightarrow> sched k L cur rs ts W \<and> pool_ok k L ts \<and> heap E ms k L ts xs A \<and>
     (\<forall>i < 7. free_list_of (desc_of ms i) \<notin> insert (ready_list k) (insert (all_list k) W)) \<and>
     (\<forall>q. q = pool_lock (kernel_pool k) \<or> q = semaphore_of (pool_lock (kernel_pool k)) \<longrightarrow>
        \<not> in_range (descs ms) 480 q)"

lemma allocatorD:
  assumes "allocator E ms k L cur rs ts W xs A"
  shows "sched k L cur rs ts W" "pool_ok k L ts" "heap E ms k L ts xs A"
    "\<And>i l. i < 7 \<Longrightarrow> l \<in> insert (ready_list k) (insert (all_list k) W) \<Longrightarrow> l \<noteq> free_list_of (desc_of ms i)"
    "\<not> in_range (descs ms) 480 (pool_lock (kernel_pool k))"
    "\<not> in_range (descs ms) 480 (semaphore_of (pool_lock (kernel_pool k)))"
    "descs_ok ms k" "statics_ok ms"
proof -
  have *: "sched k L cur rs ts W" "pool_ok k L ts" "heap E ms k L ts xs A"
     "\<forall>i < 7. free_list_of (desc_of ms i) \<notin> insert (ready_list k) (insert (all_list k) W)"
     "\<forall>q. q = pool_lock (kernel_pool k) \<or> q = semaphore_of (pool_lock (kernel_pool k)) \<longrightarrow>
        \<not> in_range (descs ms) 480 q"
    using assms unfolding allocator_def by blast+
  show "sched k L cur rs ts W" "pool_ok k L ts" "heap E ms k L ts xs A" by (rule *)+
  show "l \<noteq> free_list_of (desc_of ms i)" if "i < 7" "l \<in> insert (ready_list k) (insert (all_list k) W)" for i l
    using *(4) that by metis
  show "\<not> in_range (descs ms) 480 (pool_lock (kernel_pool k))"
    "\<not> in_range (descs ms) 480 (semaphore_of (pool_lock (kernel_pool k)))" using *(5) by simp_all
  show "descs_ok ms k" by (rule heapD(1)[OF *(3)])
  then show "statics_ok ms" by (simp add: descs_ok_def)
qed

section \<open>Facts about arenas\<close>

lemma arena_base:
  assumes p: "pool_ok k L' ts'" and a: "arena_pages (kernel_pool k) a r" and r: "0 < arena_size r"
  shows "pg_ofs a = 0" "a \<noteq> NULL" "0x40000 \<le> unat a" "unat a + arena_size r \<le> 0x20000000"
proof -
  obtain i n where i: "a = page_at (kernel_pool k) i" "arena_size r = 4096 * n" "i + n \<le> page_cnt (kernel_pool k)"
    using a unfolding arena_pages_def by blast
  have le: "i \<le> page_cnt (kernel_pool k)" using i(3) by simp
  show "pg_ofs a = 0" "a \<noteq> NULL" "0x40000 \<le> unat a" using page_at_aligned[OF p le] i(1) by auto
  show "unat a + arena_size r \<le> 0x20000000"
    using unat_page_at[OF p le] i pool_okD(6)[OF p] by (simp add: add.assoc)
qed

lemma header_size: "arena_header E ms w xs a r \<Longrightarrow> 0 < arena_size r"
  by (cases r) (auto simp: arena_header_def)

lemma arena_of_heap:
  assumes p: "pool_ok k L' ts'" and h: "heap E ms k L ts xs A" and a: "A a = Some (Small i)"
  shows "arena_of ms k i a"
  using heapD(6)[OF h a] arena_base[OF p heapD(5)[OF h a]] by (simp add: arena_of_def arena_header_def)

text \<open>Every slot lies in its arena, behind the header, and two slots of an arena do not overlap.\<close>

lemma slot_range:
  assumes "pg_ofs a = 0" "unat a + arena_size r \<le> 0x20000000" "(b, c) \<in> slots a r" "in_range b c q"
    "\<And>i. r = Small i \<Longrightarrow> i < 7"
  shows "in_range a (arena_size r) q" "\<not> in_range a 12 q"
proof -
  have "in_range a (arena_size r) q \<and> \<not> in_range a 12 q"
  proof (cases r)
    case (Small i)
    then obtain j where "j < class_blocks i" "b = block_at i a j" "c = class_size i" using assms(3) by auto
    then show ?thesis using block_in_page[OF assms(1), of i j q] assms(4,5) Small by simp
  next
    case (Big n)
    then have "b = a + of_nat 12" "c = 4096 * n - 12" using assms(3) by (auto simp: sizeof_arena_def)
    moreover from this have "unat b = unat a + 12"
      using unat_add_nat[of a 12] assms(2) by simp
    ultimately show ?thesis using assms(4) Big by (auto simp: in_range_def)
  qed
  then show "in_range a (arena_size r) q" "\<not> in_range a 12 q" by auto
qed

lemma slot_disjoint:
  assumes "pg_ofs a = 0" "(b, c) \<in> slots a r" "(b', c') \<in> slots a r" "in_range b c q" "in_range b' c' q"
    "\<And>i. r = Small i \<Longrightarrow> i < 7"
  shows "b = b' \<and> c = c'"
proof (cases r)
  case (Small i)
  then obtain j j' where j: "j < class_blocks i" "b = block_at i a j" "c = class_size i"
    "j' < class_blocks i" "b' = block_at i a j'" "c' = class_size i" using assms(2,3) by auto
  then have "j = j'" using block_disjoint[OF assms(1), of i j j' q] assms(4,5,6) Small by auto
  then show ?thesis using j by simp
qed (use assms in auto)

lemma slot_self:
  assumes "(b, c) \<in> slots a r" "\<And>i. r = Small i \<Longrightarrow> i < 7" "0 < arena_size r"
  shows "in_range b c b" "0 < c"
proof -
  have "0 < c" using assms class_bounds(1) by (cases r) fastforce+
  then show "in_range b c b" "0 < c" by (auto simp: in_range_def)
qed

text \<open>A slot has one owner.\<close>

lemma arena_facts:
  assumes p: "pool_ok k L' ts'" and h: "heap E ms k L ts xs A" and a: "A a = Some r"
  shows "pg_ofs a = 0" "a \<noteq> NULL" "0x40000 \<le> unat a" "unat a + arena_size r \<le> 0x20000000"
    "0 < arena_size r" "\<And>i. r = Small i \<Longrightarrow> i < 7"
  using arena_base[OF p heapD(5)[OF h a] header_size[OF heapD(6)[OF h a]]] heapD(6)[OF h a]
    header_size[OF heapD(6)[OF h a]]
  by (auto simp: arena_header_def)

lemma slot_owner:
  assumes p: "pool_ok k L' ts'" and h: "heap E ms k L ts xs A"
    and asm: "A a = Some r" "(b, c) \<in> slots a r" "A a' = Some r'" "(b', c') \<in> slots a' r'"
    "in_range b c q" "in_range b' c' q"
  shows "a' = a" "r' = r" "b' = b" "c' = c"
proof -
  note F = arena_facts[OF p h asm(1)] and F' = arena_facts[OF p h asm(3)]
  show a: "a' = a"
    using heapD(8)[OF h asm(1,3)] slot_range(1)[OF F(1,4) asm(2,5) F(6)]
      slot_range(1)[OF F'(1,4) asm(4,6) F'(6)] by blast
  then show r: "r' = r" using asm(1,3) by simp
  show "b' = b" "c' = c" using slot_disjoint[OF F(1) asm(2) _ asm(5,6) F(6)] asm(4) a r by auto
qed

lemma free_block_slot:
  assumes h: "heap E ms k L ts xs A" and b: "b \<in> free_blocks xs"
  obtains a i j where "A a = Some (Small i)" "i < 7" "j < class_blocks i" "b = block_at i a j" "b \<in> set (xs i)"
  using b heapD(4)[OF h] unfolding free_blocks_def by fastforce

lemma free_block_list:
  assumes p: "pool_ok k L' ts'" and h: "heap E ms k L ts xs A"
    and asm: "A a = Some (Small i)" "j < class_blocks i" "block_at i a j \<in> free_blocks xs"
  shows "block_at i a j \<in> set (xs i)"
proof -
  obtain a' i' j' where b: "A a' = Some (Small i')" "i' < 7" "j' < class_blocks i'"
      "block_at i a j = block_at i' a' j'" "block_at i a j \<in> set (xs i')" by (rule free_block_slot[OF h asm(3)])
  have s: "(block_at i a j, class_size i) \<in> slots a (Small i)" using asm(2) by simp
  have s': "(block_at i a j, class_size i') \<in> slots a' (Small i')" unfolding b(4) using b(3) by simp
  have "Small i' = Small i"
    by (rule slot_owner(2)[OF p h asm(1) s b(1) s' slot_self(1)[OF s] slot_self(1)[OF s']])
      (use arena_facts(5,6)[OF p h asm(1)] arena_facts(5,6)[OF p h b(1)] in auto)
  then show ?thesis using b(5) by simp
qed

lemma in_use_disjoint:
  assumes "pool_ok k L' ts'" "heap E ms k L ts xs A" "(b, c) \<in> in_use xs A" "(b', c') \<in> in_use xs A" "in_range b c q" "in_range b' c' q"
  shows "b = b'" "c = c'"
  using assms(3-) slot_owner[OF assms(1,2), of _ _ b c _ _ b' c' q] unfolding in_use_def by blast+

section \<open>What the invariant of one arena depends on\<close>

lemma arena_memory_cong:
  assumes "arena_memory k L ts xs a r"
    "\<And>q. in_range a (arena_size r) q \<Longrightarrow> q \<in> dom (lheap k) \<Longrightarrow> q \<in> dom (lheap k')"
    "\<And>q. in_range a (arena_size r) q \<Longrightarrow> q \<in> dom (words k) \<Longrightarrow> q \<in> dom (words k')"
    "\<And>q. in_range a (arena_size r) q \<Longrightarrow> q \<in> ll.owned L' \<Longrightarrow> q \<in> ll.owned L"
    "\<And>b c. (b, c) \<in> slots a r \<Longrightarrow> b \<in> free_blocks xs' \<Longrightarrow> b \<in> free_blocks xs"
  shows "arena_memory k' L' ts xs' a r"
  unfolding arena_memory_def
proof (intro allI impI conjI)
  fix q assume q: "in_range a (arena_size r) q"
  note M = assms(1)[unfolded arena_memory_def, rule_format, OF q]
  show "q \<in> dom (lheap k')" "q \<in> dom (words k')" "q \<notin> set ts" using M assms(2,3)[OF q] by blast+
  assume "q \<in> ll.owned L'"
  then have "q \<in> ll.owned L" by (rule assms(4)[OF q])
  then obtain b c where "(b, c) \<in> slots a r" "in_range b c q" "b \<in> free_blocks xs \<longrightarrow> q = b" using M by blast
  then show "\<exists>b c. (b, c) \<in> slots a r \<and> in_range b c q \<and> (b \<in> free_blocks xs' \<longrightarrow> q = b)"
    using assms(5) by blast
qed

lemma free_count_cong:
  assumes "\<And>b c. (b, c) \<in> slots a (Small i) \<Longrightarrow> (b \<in> free_blocks xs') = (b \<in> free_blocks xs)"
  shows "free_count xs' i a = free_count xs i a"
proof -
  have "(block_at i a j \<in> free_blocks xs') = (block_at i a j \<in> free_blocks xs)" if "j < class_blocks i" for j
    by (rule assms[of _ "class_size i"]) (use that in auto)
  then show ?thesis unfolding free_count_def by (intro arg_cong[of _ _ card]) auto
qed

lemma arena_header_cong:
  assumes "arena_header E ms w xs a r" "w' a = w a" "w' (desc_at a) = w (desc_at a)"
    "w' (free_cnt_at a) = w (free_cnt_at a)"
    "\<And>b c. (b, c) \<in> slots a r \<Longrightarrow> (b \<in> free_blocks xs') = (b \<in> free_blocks xs)" "a \<in> E \<Longrightarrow> a \<in> E'"
  shows "arena_header E' ms w' xs' a r"
  using assms free_count_cong[of a _ xs' xs] by (cases r) (auto simp: arena_header_def)

lemma arena_pages_mono:
  assumes "arena_pages p a r" "base p' = base p" "page_cnt p' = page_cnt p"
    "\<And>i n. a = page_at p i \<Longrightarrow> arena_size r = 4096 * n \<Longrightarrow> i + n \<le> page_cnt p \<Longrightarrow>
       {i..<i + n} \<subseteq> used_bits (used_map p) \<Longrightarrow> {i..<i + n} \<subseteq> used_bits (used_map p')"
  shows "arena_pages p' a r"
  using assms unfolding arena_pages_def page_at_def by (metis (no_types, lifting))

text \<open>Changes of memory above the static variables leave the table and the locks alone.\<close>

lemma descs_ok_low:
  assumes "descs_ok ms k" "\<And>q. unat q < 0x40000 \<Longrightarrow> words k' q = words k q"
  shows "descs_ok ms k'"
proof -
  have s: "statics_ok ms" using assms(1) by (simp add: descs_ok_def)
  have "words k' (desc_cnt_at ms) = words k (desc_cnt_at ms)"
    by (rule assms(2)) (use s in \<open>simp add: statics_ok_def\<close>)
  moreover have "words k' (desc_of ms i) = words k (desc_of ms i)"
    "words k' (desc_of ms i + 4) = words k (desc_of ms i + 4)" if "i < 7" for i
    using desc_field_low(1)[OF s that, of 0] desc_field_low(1)[OF s that, of 4] by (simp_all add: assms(2))
  ultimately show ?thesis using assms(1) by (simp add: descs_ok_def)
qed

lemma lock_free_low:
  assumes "lock_free k L l" "\<And>q. unat q < 0x40000 \<Longrightarrow> words k' q = words k q"
    "unat l < 0x40000" "unat (semaphore_of l) < 0x40000"
    "L' (waiters_of (semaphore_of l)) = L (waiters_of (semaphore_of l))"
  shows "lock_free k' L' l"
  using assms by (simp add: lock_free_def)

lemma desc_lock_low:
  assumes "statics_ok ms" "i < 7"
  shows "unat (desc_lock (desc_of ms i)) < 0x40000" "unat (semaphore_of (desc_lock (desc_of ms i))) < 0x40000"
  using desc_field_low(1)[OF assms, of 24] desc_field_low(1)[OF assms, of 28]
  by (simp_all add: desc_lock_def semaphore_of_def add.commute)

text \<open>The lists of free blocks and the lists of waiters are different lists.\<close>

lemma free_list_inject:
  "statics_ok ms \<Longrightarrow> i < 7 \<Longrightarrow> j < 7 \<Longrightarrow> free_list_of (desc_of ms i) = free_list_of (desc_of ms j) \<longleftrightarrow> i = j"
  using desc_field_inject[of ms i j 8 8] by (simp add: free_list_of_def)

lemma free_list_waiters:
  assumes "statics_ok ms" "i < 7" "j < 7"
  shows "waiters_of (semaphore_of (desc_lock (desc_of ms j))) \<noteq> free_list_of (desc_of ms i)"
  using desc_field_inject[OF assms(1,3,2), of 32 8]
  by (simp add: free_list_of_def desc_lock_def waiters_of_def semaphore_of_def)

text \<open>The general step: the free list of class \<open>i\<close> becomes \<open>ys\<close>, and the arenas become \<open>A'\<close>.\<close>

lemma heap_step:
  assumes h: "heap E ms k L ts xs A" and i: "i < 7"
    and low: "\<And>q. unat q < 0x40000 \<Longrightarrow> words k' q = words k q"
    and L'_def: "L' = L(free_list_of (desc_of ms i) \<mapsto> ys)" and xs'_def: "xs' = xs(i := ys)"
    and mem: "\<And>m b. m < 7 \<Longrightarrow> b \<in> set (xs' m) \<Longrightarrow> \<exists>a j. A' a = Some (Small m) \<and> j < class_blocks m \<and> b = block_at m a j"
    and ar: "\<And>a r. A' a = Some r \<Longrightarrow> arena_pages (kernel_pool k') a r \<and> arena_header E' ms (words k') xs' a r \<and>
        arena_memory k' L' ts xs' a r"
    and dis: "\<And>a r a' r' q. A' a = Some r \<Longrightarrow> A' a' = Some r' \<Longrightarrow> in_range a (arena_size r) q \<Longrightarrow>
        in_range a' (arena_size r') q \<Longrightarrow> a = a'"
  shows "heap E' ms k' L' ts xs' A'"
proof -
  note D = heapD[OF h]
  have s: "statics_ok ms" using D(1) by (simp add: descs_ok_def)
  have L: "L' (free_list_of (desc_of ms m)) = Some (xs' m)" if "m < 7" for m
    using that D(2)[OF that] free_list_inject[OF s that i] by (simp add: L'_def xs'_def)
  have W: "lock_free k' L' (desc_lock (desc_of ms m))" if "m < 7" for m
    by (rule lock_free_low[OF D(3)[OF that] low desc_lock_low[OF s that]])
      (use free_list_waiters[OF s i that] in \<open>simp_all add: L'_def\<close>)
  have A: "\<forall>a r. A' a = Some r \<longrightarrow> arena_pages (kernel_pool k') a r \<and> arena_header E' ms (words k') xs' a r \<and>
        arena_memory k' L' ts xs' a r" using ar by blast
  have N: "\<forall>a r a' r' q. A' a = Some r \<longrightarrow> A' a' = Some r' \<longrightarrow> in_range a (arena_size r) q \<longrightarrow>
        in_range a' (arena_size r') q \<longrightarrow> a = a'" using dis by blast
  have M: "\<forall>m < 7. \<forall>b \<in> set (xs' m). \<exists>a j. A' a = Some (Small m) \<and> j < class_blocks m \<and> b = block_at m a j"
    using mem by blast
  have LW: "\<forall>m < 7. L' (free_list_of (desc_of ms m)) = Some (xs' m) \<and> lock_free k' L' (desc_lock (desc_of ms m))"
    using L W by blast
  show ?thesis
    unfolding heap_def by (intro conjI descs_ok_low[OF D(1) low] LW M A N)
qed

section \<open>A block leaves its free list or returns to it\<close>

lemma free_blocks_upd:
  assumes "i < 7"
  shows "free_blocks (xs(i := ys)) = (\<Union>m \<in> {0..<7} - {i}. set (xs m)) \<union> set ys"
  using assms by (fastforce simp: free_blocks_def split: if_splits)

lemma free_blocks_split:
  "i < 7 \<Longrightarrow> free_blocks xs = (\<Union>m \<in> {0..<7} - {i}. set (xs m)) \<union> set (xs i)"
  using free_blocks_upd[of i xs "xs i"] by simp

lemma header_at:
  assumes "pg_ofs a = 0"
  shows "unat (desc_at a) = unat a + 4" "unat (free_cnt_at a) = unat a + 8"
  using page_add[OF assms, of 4] page_add[OF assms, of 8] by (simp_all add: desc_at_def free_cnt_at_def)

text \<open>The words of one header are not those of another, nor low addresses.\<close>

lemma header_apart:
  assumes p: "pool_ok k L' ts'" and h: "heap E ms k L ts xs A" and a: "A a = Some r" "A a' = Some r'" "a \<noteq> a'"
    and q: "q \<in> {a, desc_at a, free_cnt_at a}"
  shows "q \<notin> {a', desc_at a', free_cnt_at a'}"
proof
  assume q': "q \<in> {a', desc_at a', free_cnt_at a'}"
  note F = arena_facts[OF p h a(1)] and F' = arena_facts[OF p h a(2)]
  have sz: "4096 \<le> arena_size r" "4096 \<le> arena_size r'"
    using F(5) F'(5) by (cases r; cases r'; simp)+
  have "in_range a (arena_size r) q" "in_range a' (arena_size r') q"
    using q q' sz header_at[OF F(1)] header_at[OF F'(1)] by (auto simp: in_range_def)
  then show False using heapD(8)[OF h a(1,2)] a(3) by blast
qed

text \<open>The slots of the other arenas are not the block \<open>b\<close>.\<close>

lemma slot_other:
  assumes p: "pool_ok k L' ts'" and h: "heap E ms k L ts xs A" and a: "A a = Some r" "(b, n) \<in> slots a r"
    and a': "A a' = Some r'" "(c, m) \<in> slots a' r'" "a' \<noteq> a"
  shows "c \<noteq> b"
  using slot_owner(1)[OF p h a a'(1,2), of b] slot_self(1)[OF a(2)] slot_self(1)[OF a'(2)] a'(3)
    arena_facts(5,6)[OF p h a(1)] arena_facts(5,6)[OF p h a'(1)] by auto

lemma slot_capacity:
  assumes p: "pool_ok k L' ts'" and h: "heap E ms k L ts xs A" and a: "A a = Some r" "(b, n) \<in> slots a r"
    and a': "A a' = Some r'" "(b, m) \<in> slots a' r'"
  shows "a' = a" "m = n"
  using slot_owner[OF p h a a', of b] slot_self(1)[OF a(2)] slot_self(1)[OF a'(2)]
    arena_facts(5,6)[OF p h a(1)] arena_facts(5,6)[OF p h a'(1)] by auto

lemma owned_change:
  assumes "L l = Some xs" "set ys \<subseteq> set xs \<union> X"
  shows "ll.owned (L(l \<mapsto> ys)) \<subseteq> ll.owned L \<union> X"
proof
  fix q assume "q \<in> ll.owned (L(l \<mapsto> ys))"
  then obtain l' zs where q: "(L(l \<mapsto> ys)) l' = Some zs" "q \<in> set (nodes l' zs)" by (rule ll.ownedE)
  show "q \<in> ll.owned L \<union> X"
  proof (cases "l' = l")
    case True
    then have "q \<in> set (nodes l xs) \<union> X" using q assms(2) by (auto simp: set_nodes)
    then show ?thesis using ll.ownedI[of L l xs] assms(1) by blast
  next
    case False
    then show ?thesis using q ll.ownedI[of L l' zs] by simp
  qed
qed

text \<open>A block of class \<open>i\<close> is in no free list of another class.\<close>

lemma not_in_other_list:
  assumes p: "pool_ok k L0 ts0" and h: "heap E ms k L ts xs A" and a: "A a = Some (Small i)" "j < class_blocks i"
    and m: "m < 7" "m \<noteq> i"
  shows "block_at i a j \<notin> set (xs m)"
proof
  assume "block_at i a j \<in> set (xs m)"
  then obtain a' j' where b': "A a' = Some (Small m)" "j' < class_blocks m" "block_at i a j = block_at m a' j'"
    using heapD(4)[OF h m(1)] by blast
  have s: "(block_at i a j, class_size i) \<in> slots a (Small i)" using a(2) by simp
  have s': "(block_at i a j, class_size m) \<in> slots a' (Small m)" unfolding b'(3) using b'(2) by simp
  have "a' = a" by (rule slot_capacity(1)[OF p h a(1) s b'(1) s'])
  then show False using a(1) b'(1) m(2) by simp
qed

text \<open>
  The free list of class \<open>i\<close> changes only in blocks of the arena \<open>a\<close>, whose counter is kept in
  step; the contents of some blocks (\<open>X\<close>) may change too.
\<close>

lemma heap_in_arena:
  assumes p: "pool_ok k L0 ts0" and h: "heap E ms k L ts xs A" and a: "A a = Some (Small i)"
    and L': "L' = L(free_list_of (desc_of ms i) \<mapsto> ys)" and xs': "xs' = xs(i := ys)"
    and ys: "set ys \<subseteq> set (xs i) \<union> block_at i a ` {0..<class_blocks i}"
      "set (xs i) \<subseteq> set ys \<union> block_at i a ` {0..<class_blocks i}"
    and w: "\<And>q. q \<notin> X \<Longrightarrow> q \<noteq> free_cnt_at a \<Longrightarrow> words k' q = words k q"
      "words k' (free_cnt_at a) = Some (of_nat (free_count xs' i a))"
    and X: "\<And>q. q \<in> X \<Longrightarrow> in_range a 4096 q \<and> \<not> in_range a 12 q"
    and dm: "dom (lheap k) \<subseteq> dom (lheap k')" "dom (words k) \<subseteq> dom (words k')"
    and pl: "kernel_pool k' = kernel_pool k"
    and E': "a \<notin> E' \<Longrightarrow> free_count xs' i a < class_blocks i" "E - {a} \<subseteq> E'"
    and mem: "\<And>q. in_range a 4096 q \<Longrightarrow> q \<in> ll.owned L' \<Longrightarrow>
       \<exists>b c. (b, c) \<in> slots a (Small i) \<and> in_range b c q \<and> (b \<in> free_blocks xs' \<longrightarrow> q = b)"
  shows "heap E' ms k' L' ts xs' A"
proof -
  note D = heapD[OF h] and F = arena_facts[OF p h a]
  have i: "i < 7" by (rule F(6)) simp
  note H = header_at[OF F(1)]
  have hd: "in_range a 12 q" if "q \<in> {a, desc_at a, free_cnt_at a}" for q
    using that H by (auto simp: in_range_def)
  have fb: "b \<in> free_blocks xs' \<longleftrightarrow> b \<in> free_blocks xs" if "b \<notin> block_at i a ` {0..<class_blocks i}" for b
  proof -
    have "b \<in> set (xs' m) \<longleftrightarrow> b \<in> set (xs m)" for m using that ys unfolding xs' by auto
    then show ?thesis by (simp add: free_blocks_def)
  qed
  have own: "ll.owned L' \<subseteq> ll.owned L \<union> block_at i a ` {0..<class_blocks i}"
    unfolding L' by (rule owned_change[of L _ "xs i"]) (use D(2)[OF i] ys(1) in auto)
  have blk: "in_range a 4096 (block_at i a j)" if "j < class_blocks i" for j
  proof -
    have s: "(block_at i a j, class_size i) \<in> slots a (Small i)" using that by simp
    show ?thesis using slot_range(1)[OF F(1,4) s slot_self(1)[OF s]] i by simp
  qed
  show ?thesis
  proof (rule heap_step[OF h i _ L' xs'])
    fix q :: addr assume "unat q < 0x40000"
    then have "q \<notin> X" "q \<noteq> free_cnt_at a" using F(3) H X[of q] by (auto simp: in_range_def)
    then show "words k' q = words k q" by (rule w(1))
  next
    fix m c assume m: "m < 7" "c \<in> set (xs' m)"
    then have "c \<in> set (xs m) \<or> m = i \<and> c \<in> block_at i a ` {0..<class_blocks i}"
      using ys xs' by (auto split: if_splits)
    then show "\<exists>a j. A a = Some (Small m) \<and> j < class_blocks m \<and> c = block_at m a j"
      using D(4)[OF m(1), of c] a by fastforce
  next
    fix a' r assume a': "A a' = Some r"
    have pg: "arena_pages (kernel_pool k') a' r" using D(5)[OF a'] pl by simp
    show "arena_pages (kernel_pool k') a' r \<and> arena_header E' ms (words k') xs' a' r \<and> arena_memory k' L' ts xs' a' r"
    proof (cases "a' = a")
      case True
      then have r: "r = Small i" using a a' by simp
      have "q \<notin> X" if "q \<in> {a, desc_at a, free_cnt_at a}" for q using hd[OF that] X by blast
      moreover have "a \<noteq> free_cnt_at a" "desc_at a \<noteq> free_cnt_at a" using H by (auto simp: word_unat_eq_iff)
      ultimately have "words k' a = words k a" "words k' (desc_at a) = words k (desc_at a)" using w(1) by blast+
      then have "arena_header E' ms (words k') xs' a r"
        using D(6)[OF a] w(2) E'(1) unfolding r by (simp add: arena_header_def)
      moreover have "arena_memory k' L' ts xs' a r"
        using D(7)[OF a] dm mem unfolding r arena_memory_def arena_size.simps by blast
      ultimately show ?thesis using pg True by simp
    next
      case False
      have out: "\<not> in_range a (arena_size (Small i)) q" if "in_range a' (arena_size r) q" for q
        using D(8)[OF a a' _ that] False by blast
      have sl: "(c \<in> free_blocks xs') = (c \<in> free_blocks xs)" if "(c, n) \<in> slots a' r" for c n
        using slot_other[OF p h a _ a' that False] by (intro fb) auto
      have "q \<noteq> free_cnt_at a \<and> q \<notin> X" if q: "q \<in> {a', desc_at a', free_cnt_at a'}" for q
      proof -
        note F' = arena_facts[OF p h a']
        have "4096 \<le> arena_size r" using F'(5) by (cases r) auto
        then have "in_range a' (arena_size r) q" using q header_at[OF F'(1)] by (auto simp: in_range_def)
        then have "\<not> in_range a 4096 q" using out by auto
        then show ?thesis using X H by (auto simp: in_range_def)
      qed
      then have "arena_header E' ms (words k') xs' a' r"
        by (intro arena_header_cong[OF D(6)[OF a']] w(1) sl) (use False E'(2) in auto)
      moreover have "arena_memory k' L' ts xs' a' r"
      proof (rule arena_memory_cong[OF D(7)[OF a']])
        fix q assume q: "in_range a' (arena_size r) q" "q \<in> ll.owned L'"
        then have "q \<notin> block_at i a ` {0..<class_blocks i}" using out[OF q(1)] blk by auto
        then show "q \<in> ll.owned L" using q(2) own by blast
      qed (use dm sl in blast)+
      ultimately show ?thesis using pg by blast
    qed
  qed (rule D(8))
qed

lemma heap_take:
  assumes p: "pool_ok k L0 ts0" and h: "heap E ms k L ts xs A" and x: "xs i = b # bs" and dist: "distinct (xs i)"
    and a: "A a = Some (Small i)" and b: "j < class_blocks i" "b = block_at i a j"
    and w: "words k' = (words k)(free_cnt_at a \<mapsto> f - 1)" "words k (free_cnt_at a) = Some f"
    and dm: "dom (lheap k') = dom (lheap k)" and pl: "kernel_pool k' = kernel_pool k"
  shows "heap (E - {a}) ms k' (L(free_list_of (desc_of ms i) \<mapsto> bs)) ts (xs(i := bs)) A"
    "in_use (xs(i := bs)) A = insert (b, class_size i) (in_use xs A)" "b \<in> free_blocks xs"
proof -
  let ?xs = "xs(i := bs)" and ?L = "L(free_list_of (desc_of ms i) \<mapsto> bs)"
  note D = heapD[OF h] and F = arena_facts[OF p h a]
  have i: "i < 7" by (rule F(6)) simp
  have s: "(b, class_size i) \<in> slots a (Small i)" using b by auto
  show bfree: "b \<in> free_blocks xs" using x i by (auto simp: free_blocks_def intro!: bexI[of _ i])
  have fb: "free_blocks ?xs = free_blocks xs - {b}"
  proof -
    have "b \<notin> set (xs m)" if "m < 7" "m \<noteq> i" for m
      using not_in_other_list[OF p h a b(1) that] b(2) by simp
    moreover have "b \<notin> set bs" using dist x by simp
    moreover have "free_blocks xs = (\<Union>m \<in> {0..<7} - {i}. set (xs m)) \<union> set (b # bs)"
      unfolding x[symmetric] by (rule free_blocks_split[OF i])
    ultimately show ?thesis unfolding free_blocks_upd[OF i] by auto
  qed
  have "c = class_size i" if "A a' = Some r'" "(b, c) \<in> slots a' r'" for a' r' c
    by (rule slot_capacity(2)[OF p h a s that])
  then show "in_use ?xs A = insert (b, class_size i) (in_use xs A)"
    using s a unfolding in_use_def fb by blast
  have cnt: "free_count xs i a = Suc (free_count ?xs i a)"
  proof -
    have "{m. m < class_blocks i \<and> block_at i a m \<in> free_blocks xs} =
       insert j {m. m < class_blocks i \<and> block_at i a m \<in> free_blocks ?xs}"
      using b bfree block_inject[OF F(1) i _ b(1)] unfolding fb by auto
    moreover have "j \<notin> {m. m < class_blocks i \<and> block_at i a m \<in> free_blocks ?xs}"
      using b unfolding fb by simp
    ultimately show ?thesis unfolding free_count_def by simp
  qed
  have lt: "free_count ?xs i a < class_blocks i"
  proof -
    have "free_count xs i a \<le> card {..<class_blocks i}" unfolding free_count_def by (intro card_mono) auto
    then show ?thesis using cnt by simp
  qed
  have own: "ll.owned ?L \<subseteq> ll.owned L"
    using owned_change[of L "free_list_of (desc_of ms i)" "xs i" bs "{}"] D(2)[OF i] x by auto
  show "heap (E - {a}) ms k' ?L ts ?xs A"
  proof (rule heap_in_arena[OF p h a refl refl, where X = "{}"])
    show "words k' (free_cnt_at a) = Some (of_nat (free_count ?xs i a))"
      using w D(6)[OF a] cnt by (simp add: arena_header_def)
    fix q assume q: "in_range a 4096 q" "q \<in> ll.owned ?L"
    then have "in_range a (arena_size (Small i)) q" "q \<in> ll.owned L" using own by auto
    then obtain c n where "(c, n) \<in> slots a (Small i)" "in_range c n q" "c \<in> free_blocks xs \<longrightarrow> q = c"
      using D(7)[OF a] unfolding arena_memory_def by blast
    then show "\<exists>b c. (b, c) \<in> slots a (Small i) \<and> in_range b c q \<and> (b \<in> free_blocks ?xs \<longrightarrow> q = b)"
      using fb by blast
  qed (use w x b dm pl lt in auto)
qed

lemma heap_put:
  assumes p: "pool_ok k L0 ts0" and h: "heap E ms k L ts xs A"
    and a: "A a = Some (Small i)" and b: "j < class_blocks i" "b = block_at i a j" "b \<notin> free_blocks xs"
    and w: "\<And>q. \<not> in_range b (class_size i) q \<Longrightarrow> q \<noteq> free_cnt_at a \<Longrightarrow> words k' q = words k q"
      "words k' (free_cnt_at a) = Some (f + 1)" "words k (free_cnt_at a) = Some f"
    and dm: "dom (lheap k) \<subseteq> dom (lheap k')" "dom (words k) \<subseteq> dom (words k')" and pl: "kernel_pool k' = kernel_pool k"
    and own: "\<And>q. in_range b (class_size i) q \<Longrightarrow> q \<notin> ll.owned L"
  shows "heap (insert a E) ms k' (L(free_list_of (desc_of ms i) \<mapsto> b # xs i)) ts (xs(i := b # xs i)) A"
    "in_use (xs(i := b # xs i)) A = in_use xs A - {(b, class_size i)}"
    "free_count (xs(i := b # xs i)) i a = Suc (free_count xs i a)"
proof -
  let ?xs = "xs(i := b # xs i)" and ?L = "L(free_list_of (desc_of ms i) \<mapsto> b # xs i)"
  note D = heapD[OF h] and F = arena_facts[OF p h a]
  have i: "i < 7" by (rule F(6)) simp
  have s: "(b, class_size i) \<in> slots a (Small i)" using b by auto
  have fb: "free_blocks ?xs = insert b (free_blocks xs)"
    unfolding free_blocks_upd[OF i] free_blocks_split[OF i] by auto
  have "c = class_size i" if "A a' = Some r'" "(b, c) \<in> slots a' r'" for a' r' c
    by (rule slot_capacity(2)[OF p h a s that])
  then show "in_use ?xs A = in_use xs A - {(b, class_size i)}" unfolding in_use_def fb by blast
  show cnt: "free_count ?xs i a = Suc (free_count xs i a)"
  proof -
    have "{m. m < class_blocks i \<and> block_at i a m \<in> free_blocks ?xs} =
       insert j {m. m < class_blocks i \<and> block_at i a m \<in> free_blocks xs}"
      using b block_inject[OF F(1) i _ b(1)] unfolding fb by auto
    moreover have "j \<notin> {m. m < class_blocks i \<and> block_at i a m \<in> free_blocks xs}" using b by simp
    ultimately show ?thesis unfolding free_count_def by simp
  qed
  have sub: "ll.owned ?L \<subseteq> ll.owned L \<union> {b}"
    by (rule owned_change[of L _ "xs i"]) (use D(2)[OF i] in auto)
  show "heap (insert a E) ms k' ?L ts ?xs A"
  proof (rule heap_in_arena[OF p h a refl refl, where X = "{q. in_range b (class_size i) q}"])
    show "words k' (free_cnt_at a) = Some (of_nat (free_count ?xs i a))"
      using w D(6)[OF a] cnt by (simp add: arena_header_def add.commute)
    show "in_range a 4096 q \<and> \<not> in_range a 12 q" if "q \<in> {q. in_range b (class_size i) q}" for q
      using slot_range[OF F(1,4) s _ F(6), of q] that by simp
    fix q assume q: "in_range a 4096 q" "q \<in> ll.owned ?L"
    show "\<exists>b c. (b, c) \<in> slots a (Small i) \<and> in_range b c q \<and> (b \<in> free_blocks ?xs \<longrightarrow> q = b)"
    proof (cases "q = b")
      case True
      then show ?thesis using s slot_self(1)[OF s] i by force
    next
      case False
      then have "in_range a (arena_size (Small i)) q" and o: "q \<in> ll.owned L" using q sub by auto
      then obtain c n where c: "(c, n) \<in> slots a (Small i)" "in_range c n q" "c \<in> free_blocks xs \<longrightarrow> q = c"
        using D(7)[OF a] unfolding arena_memory_def by blast
      then have "c \<noteq> b" using own o by auto
      then show ?thesis using c fb by blast
    qed
  qed (use w b dm pl in auto)
qed

section \<open>An arena appears or disappears\<close>

text \<open>Runs of different pages do not overlap, and runs that do not overlap are of different pages.\<close>

lemma run_apart:
  assumes p: "pool_ok k L ts" and r: "i + n \<le> page_cnt (kernel_pool k)" "i' + n' \<le> page_cnt (kernel_pool k)"
  shows "{i..<i + n} \<inter> {i'..<i' + n'} = {} \<longleftrightarrow>
     (\<forall>q. in_range (page_at (kernel_pool k) i) (4096 * n) q \<longrightarrow> \<not> in_range (page_at (kernel_pool k) i') (4096 * n') q)"
proof -
  have u: "unat (page_at (kernel_pool k) j) = unat (base (kernel_pool k)) + 4096 * j" if "j \<le> page_cnt (kernel_pool k)" for j
    by (rule unat_page_at[OF p that])
  have here: "in_range (page_at (kernel_pool k) i) (4096 * n) (page_at (kernel_pool k) j)"
    if "j \<in> {i..<i + n}" "i + n \<le> page_cnt (kernel_pool k)" for i n j
    using that u[of i] u[of j] by (auto simp: in_range_def)
  have one: "j = j'" if "in_range (page_at (kernel_pool k) j) 4096 q" "in_range (page_at (kernel_pool k) j') 4096 q"
    "j < page_cnt (kernel_pool k)" "j' < page_cnt (kernel_pool k)" for j j' q
    using that u[of j] u[of j'] by (auto simp: in_range_def)
  show ?thesis
  proof
    assume d: "{i..<i + n} \<inter> {i'..<i' + n'} = {}"
    show "\<forall>q. in_range (page_at (kernel_pool k) i) (4096 * n) q \<longrightarrow> \<not> in_range (page_at (kernel_pool k) i') (4096 * n') q"
    proof (intro allI impI notI)
      fix q assume "in_range (page_at (kernel_pool k) i) (4096 * n) q" "in_range (page_at (kernel_pool k) i') (4096 * n') q"
      then obtain j j' where j: "j \<in> {i..<i + n}" "in_range (page_at (kernel_pool k) j) 4096 q"
          "j' \<in> {i'..<i' + n'}" "in_range (page_at (kernel_pool k) j') 4096 q"
        using in_run_page[OF p r(1)] in_run_page[OF p r(2)] by blast
      have "j = j'" by (rule one[OF j(2,4)]) (use j(1,3) r in auto)
      then show False using j(1,3) d by blast
    qed
  next
    assume d: "\<forall>q. in_range (page_at (kernel_pool k) i) (4096 * n) q \<longrightarrow>
      \<not> in_range (page_at (kernel_pool k) i') (4096 * n') q"
    show "{i..<i + n} \<inter> {i'..<i' + n'} = {}" using here[OF _ r(1)] here[OF _ r(2)] d by blast
  qed
qed

text \<open>Nothing of the heap, no list and no thread is in a run of free pages.\<close>

lemma fresh_run:
  assumes p: "pool_ok k L ts" and h: "heap E ms k L ts xs A"
    and run: "a = page_at (kernel_pool k) i" "arena_size r = 4096 * n" "0 < n" "i + n \<le> page_cnt (kernel_pool k)"
      "{i..<i + n} \<inter> used_bits (used_map (kernel_pool k)) = {}"
  shows "pg_ofs a = 0" "a \<noteq> NULL" "0x40000 \<le> unat a" "unat a + arena_size r \<le> 0x20000000"
    "\<And>q. in_range a (4096 * n) q \<Longrightarrow> q \<notin> ll.owned L \<and> q \<notin> set ts"
    "\<And>a' r' q. A a' = Some r' \<Longrightarrow> in_range a (4096 * n) q \<Longrightarrow> \<not> in_range a' (arena_size r') q"
    "\<And>c l. (\<And>m. r = Small m \<Longrightarrow> m < 7) \<Longrightarrow> (c, l) \<in> slots a r \<Longrightarrow> c \<notin> free_blocks xs" "A a = None"
proof -
  let ?P = "kernel_pool k"
  note D = heapD[OF h] and P = pool_okD[OF p]
  have le: "i \<le> page_cnt ?P" using run(4) by simp
  have ua: "unat a = unat (base ?P) + 4096 * i" using unat_page_at[OF p le] run(1) by simp
  show ap: "pg_ofs a = 0" "a \<noteq> NULL" "0x40000 \<le> unat a" "unat a + arena_size r \<le> 0x20000000"
    using page_at_aligned[OF p le] run P(6) ua by auto
  show far: "\<not> in_range a' (arena_size r') q" if a': "A a' = Some r'" and q: "in_range a (4096 * n) q" for a' r' q
  proof -
    obtain i' n' where i': "a' = page_at ?P i'" "arena_size r' = 4096 * n'" "i' + n' \<le> page_cnt ?P"
        "{i'..<i' + n'} \<subseteq> used_bits (used_map ?P)" using D(5)[OF a'] unfolding arena_pages_def by blast
    have "{i..<i + n} \<inter> {i'..<i' + n'} = {}" using run(5) i'(4) by blast
    then show ?thesis using run_apart[OF p run(4) i'(3)] q i' run(1) by auto
  qed
  show "q \<notin> ll.owned L \<and> q \<notin> set ts" if q: "in_range a (4096 * n) q" for q
  proof -
    obtain j where j: "j \<in> {i..<i + n}" "in_range (page_at ?P j) 4096 q"
      using in_run_page[OF p run(4)] q run(1) by blast
    then have "j < page_cnt ?P" "j \<notin> used_bits (used_map ?P)" using run(4,5) by auto
    then show ?thesis using P(7)[of j q] j(2) by blast
  qed
  show "c \<notin> free_blocks xs" if r7: "\<And>m. r = Small m \<Longrightarrow> m < 7" and s0: "(c, l) \<in> slots a r" for c l
  proof
    assume "c \<in> free_blocks xs"
    then obtain a' i' j' where c: "A a' = Some (Small i')" "i' < 7" "j' < class_blocks i'" "c = block_at i' a' j'"
      by (rule free_block_slot[OF h])
    have s: "(c, class_size i') \<in> slots a' (Small i')" using c by auto
    have "in_range a (4096 * n) c"
      using slot_range(1)[OF ap(1,4) s0 _ r7] slot_self(1)[OF s0 r7] run(2,3) by simp
    moreover have "in_range a' (arena_size (Small i')) c"
      using slot_range(1)[OF arena_facts(1,4)[OF p h c(1)] s _] slot_self(1)[OF s] c(2) by simp
    ultimately show False using far[OF c(1)] by blast
  qed
  show "A a = None"
  proof (rule ccontr)
    assume "A a \<noteq> None"
    then obtain r' where r': "A a = Some r'" by blast
    have "in_range a (arena_size r') a" using arena_facts(5)[OF p h r'] by (simp add: in_range_def)
    moreover have "in_range a (4096 * n) a" using run(3) by (simp add: in_range_def)
    ultimately show False using far[OF r'] by blast
  qed
qed

lemma heap_add:
  assumes p: "pool_ok k L ts" and h: "heap E ms k L ts xs A"
    and run: "a = page_at (kernel_pool k) i" "arena_size r = 4096 * n" "0 < n" "i + n \<le> page_cnt (kernel_pool k)"
      "{i..<i + n} \<inter> used_bits (used_map (kernel_pool k)) = {}"
    and m: "kernel_pool k' = (kernel_pool k)\<lparr>used_map := m\<rparr>" "bit_cnt m = bit_cnt (used_map (kernel_pool k))"
      "used_bits m = used_bits (used_map (kernel_pool k)) \<union> {i..<i + n}"
    and hdr: "arena_header E ms (words k') xs a r"
    and w: "\<And>q. \<not> in_range a (4096 * n) q \<Longrightarrow> words k' q = words k q \<and> lheap k' q = lheap k q"
      "\<And>q. in_range a (4096 * n) q \<Longrightarrow> q \<in> dom (lheap k') \<and> q \<in> dom (words k')"
  shows "heap E ms k' L ts xs (A(a \<mapsto> r))" "in_use xs (A(a \<mapsto> r)) = in_use xs A \<union> slots a r"
    "slots a r \<inter> in_use xs A = {}"
proof -
  let ?P = "kernel_pool k"
  note D = heapD[OF h] and P = pool_okD[OF p]
  note R = fresh_run[OF p h run]
  note ap = R(1,3,4) and out = R(5) and far = R(6) and new = R(8)
  have r7: "\<And>m. r = Small m \<Longrightarrow> m < 7" using hdr by (auto simp: arena_header_def)
  note nofree = R(7)[OF r7]
  show "in_use xs (A(a \<mapsto> r)) = in_use xs A \<union> slots a r"
  proof -
    have "(\<exists>a' r'. (A(a \<mapsto> r)) a' = Some r' \<and> z \<in> slots a' r') \<longleftrightarrow>
       z \<in> slots a r \<or> (\<exists>a' r'. A a' = Some r' \<and> z \<in> slots a' r')" for z
      using new by (metis fun_upd_apply option.distinct(1) option.inject)
    then show ?thesis using nofree unfolding in_use_def by auto
  qed
  show "slots a r \<inter> in_use xs A = {}"
  proof -
    have False if "(c, l) \<in> slots a r" "A a' = Some r'" "(c, l) \<in> slots a' r'" for c l a' r'
    proof -
      have "in_range a (4096 * n) c"
        using slot_range(1)[OF ap(1,3) that(1) _ r7] slot_self(1)[OF that(1) r7] run(2,3) by simp
      moreover have "in_range a' (arena_size r') c"
        using slot_range(1)[OF arena_facts(1,4)[OF p h that(2)] that(3) _ arena_facts(6)[OF p h that(2)]]
          slot_self(1)[OF that(3) arena_facts(6)[OF p h that(2)] arena_facts(5)[OF p h that(2)]] by blast
      ultimately show False using far[OF that(2)] by blast
    qed
    then show ?thesis unfolding in_use_def by auto
  qed
  have low: "words k' q = words k q" if "unat q < 0x40000" for q
    using w(1)[of q] that ap(2) by (auto simp: in_range_def)
  have triv: "L = L(free_list_of (desc_of ms 0) \<mapsto> xs 0)" "xs = xs(0 := xs 0)"
    using fun_upd_idem[of L "free_list_of (desc_of ms 0)" "Some (xs 0)"] D(2)[of 0] by simp_all
  show "heap E ms k' L ts xs (A(a \<mapsto> r))"
  proof (rule heap_step[OF h _ low triv])
    show "\<exists>a' j. (A(a \<mapsto> r)) a' = Some (Small m) \<and> j < class_blocks m \<and> b = block_at m a' j"
      if "m < 7" "b \<in> set (xs m)" for m b
      using D(4)[OF that] new by (metis fun_upd_apply option.distinct(1))
    show "arena_pages (kernel_pool k') a' r' \<and> arena_header E ms (words k') xs a' r' \<and> arena_memory k' L ts xs a' r'"
      if a': "(A(a \<mapsto> r)) a' = Some r'" for a' r'
    proof (cases "a' = a")
      case True
      then have "r' = r" using a' by simp
      moreover have "arena_pages (kernel_pool k') a r"
        unfolding arena_pages_def using run m
        by (intro exI[of _ i] exI[of _ n]) (auto simp: page_at_def page_cnt_def)
      moreover have "arena_memory k' L ts xs a r"
        unfolding arena_memory_def using w(2) out run(2) by auto
      ultimately show ?thesis using hdr True by simp
    next
      case False
      then have a': "A a' = Some r'" using a' by simp
      note F = arena_facts[OF p h a']
      have nr: "\<not> in_range a (4096 * n) q" if "in_range a' (arena_size r') q" for q using far[OF a'] that by blast
      have "arena_pages (kernel_pool k') a' r'"
        by (rule arena_pages_mono[OF D(5)[OF a']]) (use m in \<open>auto simp: page_cnt_def\<close>)
      moreover have "arena_header E ms (words k') xs a' r'"
      proof (rule arena_header_cong[OF D(6)[OF a']])
        have "4096 \<le> arena_size r'" using F(5) by (cases r') auto
        then have "in_range a' (arena_size r') a'" "in_range a' (arena_size r') (desc_at a')"
          "in_range a' (arena_size r') (free_cnt_at a')"
          using header_at[OF F(1)] by (auto simp: in_range_def)
        then show "words k' a' = words k a'" "words k' (desc_at a') = words k (desc_at a')"
          "words k' (free_cnt_at a') = words k (free_cnt_at a')" using nr w(1) by blast+
      qed auto
      moreover have "arena_memory k' L ts xs a' r'"
        by (rule arena_memory_cong[OF D(7)[OF a']]) (use nr w(1) in \<open>auto simp: dom_def\<close>)
      ultimately show ?thesis by blast
    qed
    show "a1 = a2" if "(A(a \<mapsto> r)) a1 = Some r1" "(A(a \<mapsto> r)) a2 = Some r2"
      "in_range a1 (arena_size r1) q" "in_range a2 (arena_size r2) q" for a1 r1 a2 r2 q
      using that far D(8) run(2) by (auto split: if_splits)
  qed simp
qed

lemma heap_remove:
  assumes p: "pool_ok k L0 ts0" and h: "heap E ms k L ts xs A" and a: "A a = Some r"
    and used: "\<And>b c. (b, c) \<in> slots a r \<Longrightarrow> b \<notin> free_blocks xs"
    and run: "a = page_at (kernel_pool k) i" "arena_size r = 4096 * n" "i + n \<le> page_cnt (kernel_pool k)"
    and m: "kernel_pool k' = (kernel_pool k)\<lparr>used_map := m\<rparr>" "bit_cnt m = bit_cnt (used_map (kernel_pool k))"
      "used_bits m = used_bits (used_map (kernel_pool k)) - {i..<i + n}"
    and w: "\<And>q. \<not> in_range a (4096 * n) q \<Longrightarrow> words k' q = words k q \<and> lheap k' q = lheap k q"
  shows "heap (E - {a}) ms k' L ts xs (A(a := None))" "in_use xs (A(a := None)) = in_use xs A - slots a r"
proof -
  let ?P = "kernel_pool k"
  note D = heapD[OF h] and F = arena_facts[OF p h a]
  have far: "\<not> in_range a (4096 * n) q" if "A a' = Some r'" "a' \<noteq> a" "in_range a' (arena_size r') q" for a' r' q
    using D(8)[OF that(1) a that(3)] that(2) run(2) by metis
  show "in_use xs (A(a := None)) = in_use xs A - slots a r"
  proof -
    have "z \<notin> slots a r" if z: "A a' = Some r'" "a' \<noteq> a" "z \<in> slots a' r'" for z a' r'
      using slot_capacity(1)[OF p h a _ z(1), of "fst z" "snd z" "snd z"] z(2,3) by auto
    moreover have "(\<exists>a' r'. (A(a := None)) a' = Some r' \<and> z \<in> slots a' r') \<longleftrightarrow>
       (\<exists>a' r'. A a' = Some r' \<and> a' \<noteq> a \<and> z \<in> slots a' r')" for z
      by (metis fun_upd_apply option.distinct(1))
    ultimately have S: "(\<exists>a' r'. (A(a := None)) a' = Some r' \<and> z \<in> slots a' r') \<longleftrightarrow>
       (\<exists>a' r'. A a' = Some r' \<and> z \<in> slots a' r') \<and> z \<notin> slots a r" for z
      using a by (metis option.inject)
    show ?thesis unfolding in_use_def S by auto
  qed
  have low: "words k' q = words k q" if "unat q < 0x40000" for q
    using w[of q] that F(3) by (auto simp: in_range_def)
  have triv: "L = L(free_list_of (desc_of ms 0) \<mapsto> xs 0)" "xs = xs(0 := xs 0)"
    using fun_upd_idem[of L "free_list_of (desc_of ms 0)" "Some (xs 0)"] D(2)[of 0] by simp_all
  show "heap (E - {a}) ms k' L ts xs (A(a := None))"
  proof (rule heap_step[OF h _ low triv])
    fix m' b assume m': "m' < 7" "b \<in> set (xs m')"
    then obtain a' j where b: "A a' = Some (Small m')" "j < class_blocks m'" "b = block_at m' a' j" using D(4) by blast
    have "(b, class_size m') \<in> slots a' (Small m')" using b by simp
    moreover have "b \<in> free_blocks xs" using m' by (auto simp: free_blocks_def)
    ultimately have "a' \<noteq> a" using used a b(1) by (metis option.inject)
    then show "\<exists>a' j. (A(a := None)) a' = Some (Small m') \<and> j < class_blocks m' \<and> b = block_at m' a' j"
      using b by auto
  next
    fix a' r' assume "(A(a := None)) a' = Some r'"
    then have a': "A a' = Some r'" "a' \<noteq> a" by (auto split: if_splits)
    note F' = arena_facts[OF p h a'(1)]
    have "arena_pages (kernel_pool k') a' r'"
    proof (rule arena_pages_mono[OF D(5)[OF a'(1)]])
      fix i' n' assume i': "a' = page_at ?P i'" "arena_size r' = 4096 * n'" "i' + n' \<le> page_cnt ?P"
        "{i'..<i' + n'} \<subseteq> used_bits (used_map ?P)"
      have "{i'..<i' + n'} \<inter> {i..<i + n} = {}"
        using run_apart[OF p i'(3) run(3)] far[OF a'] i'(1,2) run(1) by auto
      then show "{i'..<i' + n'} \<subseteq> used_bits (used_map (kernel_pool k'))" using i'(4) m by auto
    qed (use m in \<open>auto simp: page_cnt_def\<close>)
    moreover have "arena_header (E - {a}) ms (words k') xs a' r'"
    proof (rule arena_header_cong[OF D(6)[OF a'(1)]])
      have "4096 \<le> arena_size r'" using F'(5) by (cases r') auto
      then have "in_range a' (arena_size r') a'" "in_range a' (arena_size r') (desc_at a')"
        "in_range a' (arena_size r') (free_cnt_at a')"
        using header_at[OF F'(1)] by (auto simp: in_range_def)
      then show "words k' a' = words k a'" "words k' (desc_at a') = words k (desc_at a')"
        "words k' (free_cnt_at a') = words k (free_cnt_at a')" using far[OF a'] w by blast+
    qed (use a' in auto)
    moreover have "arena_memory k' L ts xs a' r'"
      by (rule arena_memory_cong[OF D(7)[OF a'(1)]]) (use far[OF a'] w in \<open>auto simp: dom_def\<close>)
    ultimately show "arena_pages (kernel_pool k') a' r' \<and> arena_header (E - {a}) ms (words k') xs a' r' \<and>
        arena_memory k' L ts xs a' r'" by blast
  next
    fix a1 r1 a2 r2 q
    assume "(A(a := None)) a1 = Some r1" "(A(a := None)) a2 = Some r2"
      "in_range a1 (arena_size r1) q" "in_range a2 (arena_size r2) q"
    then show "a1 = a2" using D(8) by (auto split: if_splits)
  qed simp
qed

section \<open>The pool and the scheduler beside it\<close>

lemma pool_ok_step:
  assumes p: "pool_ok k L ts" and low: "\<And>q. unat q < 0x40000 \<Longrightarrow> words k' q = words k q"
    and m: "kernel_pool k' = (kernel_pool k)\<lparr>used_map := m\<rparr>" "bit_cnt m = bit_cnt (used_map (kernel_pool k))" "bm_wf m"
    and L': "L' (waiters_of (semaphore_of (pool_lock (kernel_pool k)))) = Some []"
    and out: "\<And>i q. i < page_cnt (kernel_pool k) \<Longrightarrow> i \<notin> used_bits m \<Longrightarrow> q \<in> ll.owned L' \<union> set ts \<Longrightarrow>
       \<not> in_range (page_at (kernel_pool k) i) 4096 q"
  shows "pool_ok k' L' ts"
proof -
  note P = pool_okD[OF p]
  let ?l = "pool_lock (kernel_pool k)"
  have "unat (?l + of_nat 4) = unat ?l + 4" by (rule unat_add_nat) (use P(2) in simp)
  then have low': "unat ?l < 0x40000" "unat (semaphore_of ?l) < 0x40000"
    using P(2) by (simp_all add: semaphore_of_def)
  have "lock_free k' L' ?l"
    by (rule lock_free_low[OF P(1) low low']) (use P(1) L' in \<open>auto simp: lock_free_def\<close>)
  then show ?thesis
    using P(2-6) m out unfolding pool_ok_def Let_def by (simp add: page_cnt_def page_at_def)
qed

text \<open>A thread is in none of the arenas, its whole page not.\<close>

lemma thread_apart:
  assumes p: "pool_ok k L0 ts0" and h: "heap E ms k L ts xs A" and a: "A a = Some r"
    and t: "t \<in> set ts" "pg_ofs t = 0" "off < 4096"
  shows "\<not> in_range a (arena_size r) (t + off)"
proof
  assume q: "in_range a (arena_size r) (t + off)"
  note F = arena_facts[OF p h a]
  obtain n where n: "arena_size r = 4096 * n" by (cases r) auto
  obtain x y where xy: "unat a = 4096 * x" "unat t = 4096 * y"
    using aligned_page[OF F(1)] aligned_page[OF t(2)] by (metis mod_0_imp_dvd dvdE)
  have o: "unat off < 4096" using t(3) by (simp add: word_less_nat_alt)
  have "unat (t + off) = unat t + unat off" by (rule page_add[OF t(2,3)])
  then have "4096 * x < 4096 * Suc y" "4096 * y < 4096 * (x + n)" using q xy n o by (auto simp: in_range_def)
  then have "x \<le> y" "y < x + n" by auto
  then have "in_range a (arena_size r) t" using xy n by (simp add: in_range_def)
  then show False using heapD(7)[OF h a] t(1) unfolding arena_memory_def by blast
qed

lemma sched_step:
  assumes s: "sched k L cur rs ts W" and fam: "ll.family (lheap k') L'"
    and fld: "\<And>t. t \<in> set ts \<Longrightarrow> threads k' t = threads k t" "cpu k' = cpu k" "ready_list k' = ready_list k"
      "all_list k' = all_list k" "idle_thread k' = idle_thread k" "in_external_interrupt k' = in_external_interrupt k"
      "was_irq_generated k' = was_irq_generated k"
    and v: "\<And>t p. t \<in> set ts \<Longrightarrow> p \<in> {elem_of t, allelem_of t} \<Longrightarrow> valid (lheap k) p \<Longrightarrow> valid (lheap k') p"
    and L': "\<And>l. l \<in> insert (ready_list k) (insert (all_list k) W) \<Longrightarrow> L' l = L l"
    and own: "\<And>t. t \<in> set ts \<Longrightarrow> elem_of t \<in> ll.owned L' \<Longrightarrow> elem_of t \<in> ll.owned L"
  shows "sched k' L' cur rs ts W"
proof -
  have core: "sched_core k L cur rs ts W" and cur: "cur \<in> set ts" "status_of k cur = Some THREAD_RUNNING"
    "elem_of cur \<notin> ll.owned L" using s by (auto simp: sched_def)
  note D = sched_coreD[OF core]
  have st: "status_of k' t = status_of k t" "frame_of k' t = frame_of k t" if "t \<in> set ts" for t
    using fld(1)[OF that] by (simp_all add: status_of_def frame_of_def thread_at_def)
  have ok: "thread_ok k' t" if "t \<in> set ts" for t
    using D(7)[OF that] fld(1)[OF that] v[OF that] by (auto simp: thread_ok_def thread_at_def)
  have W: "\<exists>bs. L' w = Some (map elem_of bs) \<and> set bs \<subseteq> set ts \<and> (\<forall>b \<in> set bs. status_of k' b = Some THREAD_BLOCKED)"
    if w: "w \<in> W" for w
  proof -
    obtain bs where "L w = Some (map elem_of bs)" "set bs \<subseteq> set ts" "\<forall>b \<in> set bs. status_of k b = Some THREAD_BLOCKED"
      using D(12)[OF w] by blast
    then show ?thesis using L'[of w] w st(1) by (intro exI[of _ bs]) auto
  qed
  have "sched_core k' L' cur rs ts W"
    unfolding sched_core_def fld(2-7)
  proof (intro conjI ballI impI)
    show "thread_ok k' cur" using ok cur(1) by blast
    show "L' (ready_list k) = Some (map elem_of rs)" "L' (all_list k) = Some (map allelem_of ts)"
      using L' D(5,6) by simp_all
    show "status_of k' t = Some THREAD_READY" if "t \<in> set rs" for t using D(8,9) that st(1) by auto
    show "status_of k' t \<noteq> Some THREAD_RUNNING" "pg_round_down (r13_sp (frame_of k' t)) = t" if "t \<in> set ts - {cur}" for t
      using D(10,11)[of t] that st by auto
    show "elem_of (idle_thread k) \<notin> ll.owned L'" if "idle_thread k \<noteq> NULL" "idle_thread k \<noteq> cur"
      using own D(13,14) that by blast
  qed (use fam ok W D in blast)+
  then show ?thesis using cur own st(1)[OF cur(1)] unfolding sched_def by auto
qed

end
