(* ===== verification/Kernel_Malloc_Ops.thy ===== *)
theory Kernel_Malloc_Ops
  imports Kernel_Malloc_Heap
begin

text \<open>
  The operations of threads/malloc.c on a heap that satisfies the invariant, when no other thread
  holds the locks involved: each lemma computes the new state and shows the invariant there.
\<close>

section \<open>Under the lock of a descriptor\<close>

lemma high_not_lock:
  assumes "statics_ok ms" "i < 7" "0x40000 \<le> unat q"
  shows "q \<noteq> desc_lock (desc_of ms i)" "q \<noteq> semaphore_of (desc_lock (desc_of ms i))"
  using desc_lock_low[OF assms(1,2)] assms(3) by auto

lemma table_not_lock:
  assumes "statics_ok ms" "i < 7" "m < 7"
  shows "desc_of ms m \<noteq> desc_lock (desc_of ms i)" "desc_of ms m \<noteq> semaphore_of (desc_lock (desc_of ms i))"
    "desc_of ms m + 4 \<noteq> desc_lock (desc_of ms i)" "desc_of ms m + 4 \<noteq> semaphore_of (desc_lock (desc_of ms i))"
    "desc_cnt_at ms \<noteq> desc_lock (desc_of ms i)" "desc_cnt_at ms \<noteq> semaphore_of (desc_lock (desc_of ms i))"
  using desc_field_inject[OF assms(1,3,2), of 0 24] desc_field_inject[OF assms(1,3,2), of 0 28]
    desc_field_inject[OF assms(1,3,2), of 4 24] desc_field_inject[OF assms(1,3,2), of 4 28]
    desc_field_low(3)[OF assms(1,2), of 24] desc_field_low(3)[OF assms(1,2), of 28]
  by (simp_all add: desc_lock_def semaphore_of_def add.commute add.left_commute)

lemma descs_ok_hold:
  assumes "descs_ok ms k" "i < 7"
  shows "descs_ok ms (hold (desc_lock (desc_of ms i)) c k)"
proof -
  have "statics_ok ms" using assms(1) by (simp add: descs_ok_def)
  note T = table_not_lock[OF this assms(2)]
  show ?thesis using assms(1) T T(5,6)[OF assms(2)] by (simp add: descs_ok_def)
qed

lemma arena_of_hold:
  assumes "statics_ok ms" "i < 7" "arena_of ms k m a" "0x40000 \<le> unat a"
  shows "arena_of ms (hold (desc_lock (desc_of ms i)) c k) m a"
proof -
  have "pg_ofs a = 0" using assms(3) by (simp add: arena_of_def)
  then have "0x40000 \<le> unat (desc_at a)" using header_at(1)[of a] assms(4) by simp
  then show ?thesis
    using assms(3) high_not_lock[OF assms(1,2), of a] high_not_lock[OF assms(1,2), of "desc_at a"] assms(4)
    by (simp add: arena_of_def)
qed

lemma pool_ok_hold:
  assumes "pool_lock (kernel_pool k) \<notin> {l, semaphore_of l}" "semaphore_of (pool_lock (kernel_pool k)) \<notin> {l, semaphore_of l}"
  shows "pool_ok (hold l c k) L ts = pool_ok k L ts"
  using assms by (simp add: pool_ok_def lock_free_def)

lemma pool_not_lock:
  assumes al: "allocator E ms k L cur rs ts W xs A" and i: "i < 7"
  shows "pool_ok (hold (desc_lock (desc_of ms i)) c k) L ts"
proof -
  note D = allocatorD[OF al]
  have "in_range (descs ms) 480 (desc_of ms i + of_nat off)" if "off < 48" for off
    using unat_desc_of[OF D(8), of i off] that i by (simp add: in_range_def)
  from this[of 24] this[of 28] have "in_range (descs ms) 480 (desc_lock (desc_of ms i))"
    "in_range (descs ms) 480 (semaphore_of (desc_lock (desc_of ms i)))"
    by (simp_all add: desc_lock_def semaphore_of_def add.commute)
  then show ?thesis using D(2,5,6) by (subst pool_ok_hold) auto
qed

section \<open>The state after a step\<close>

lemma pool_waiters:
  assumes al: "allocator E ms k L cur rs ts W xs A" and i: "i < 7"
  shows "waiters_of (semaphore_of (pool_lock (kernel_pool k))) \<noteq> free_list_of (desc_of ms i)"
proof
  note D = allocatorD[OF al]
  assume "waiters_of (semaphore_of (pool_lock (kernel_pool k))) = free_list_of (desc_of ms i)"
  then have "pool_lock (kernel_pool k) = desc_of ms i"
    by (simp add: waiters_of_def semaphore_of_def free_list_of_def)
  moreover have "in_range (descs ms) 480 (desc_of ms i)"
    using unat_desc[OF D(8), of i] i by (simp add: in_range_def)
  ultimately show False using D(5) by simp
qed

text \<open>
  From the heap to the whole state: the pool and the scheduler are not disturbed by a step that
  changes one free list, memory away from the threads, and the map of the pool.
\<close>

lemma allocator_step:
  assumes al: "allocator E ms k L cur rs ts W xs A" and i: "i < 7"
    and k': "k' = set_pool_map Kernel_pool m (k\<lparr>lheap := h', threads := th', words := w'\<rparr>)"
    and m: "bit_cnt m = bit_cnt (used_map (kernel_pool k))" "bm_wf m"
    and low: "\<And>q. unat q < 0x40000 \<Longrightarrow> w' q = words k q"
    and L': "L' = L(free_list_of (desc_of ms i) \<mapsto> ys)" and fam: "ll.family h' L'"
    and thr: "\<And>t. t \<in> set ts \<Longrightarrow> th' t = threads k t"
      "\<And>t p. t \<in> set ts \<Longrightarrow> p \<in> {elem_of t, allelem_of t} \<Longrightarrow> p \<in> dom (lheap k) \<Longrightarrow> p \<in> dom h'"
    and own: "ll.owned L' \<subseteq> ll.owned L \<union> X" "\<And>t. t \<in> set ts \<Longrightarrow> elem_of t \<notin> X"
    and out: "\<And>i q. i < page_cnt (kernel_pool k) \<Longrightarrow> i \<notin> used_bits m \<Longrightarrow> q \<in> ll.owned L' \<union> set ts \<Longrightarrow>
       \<not> in_range (page_at (kernel_pool k) i) 4096 q"
    and hp: "heap E' ms k' L' ts xs' A'"
  shows "allocator E' ms k' L' cur rs ts W xs' A'"
proof -
  note D = allocatorD[OF al]
  let ?w = "waiters_of (semaphore_of (pool_lock (kernel_pool k)))"
  have kp: "kernel_pool k' = (kernel_pool k)\<lparr>used_map := m\<rparr>" by (simp add: k' set_pool_map_def)
  have "pool_ok k' L' ts"
  proof (rule pool_ok_step[OF D(2) _ kp m _ out])
    show "words k' q = words k q" if "unat q < 0x40000" for q using low[OF that] by (simp add: k')
    show "L' ?w = Some []"
      using pool_okD(1)[OF D(2)] pool_waiters[OF al i] by (simp add: L' lock_free_def)
  qed
  moreover have "sched k' L' cur rs ts W"
  proof (rule sched_step[OF D(1)])
    show "ll.family (lheap k') L'" using fam by (simp add: k')
    show "valid (lheap k') p" if "t \<in> set ts" "p \<in> {elem_of t, allelem_of t}" "valid (lheap k) p" for t p
      using thr(2)[OF that(1,2)] that(3) by (simp add: k' valid_def)
    show "L' l = L l" if "l \<in> insert (ready_list k) (insert (all_list k) W)" for l
      using D(4)[OF i that] by (simp add: L')
    show "elem_of t \<in> ll.owned L" if "t \<in> set ts" "elem_of t \<in> ll.owned L'" for t
      using own that by blast
  qed (use thr(1) in \<open>simp_all add: k' set_pool_map_def\<close>)
  moreover have "ready_list k' = ready_list k" "all_list k' = all_list k" by (simp_all add: k' set_pool_map_def)
  ultimately show ?thesis
    using hp D(4,5,6) unfolding allocator_def kp by fastforce
qed

section \<open>Taking a block\<close>

lemma free_list_family:
  assumes al: "allocator E ms k L cur rs ts W xs A" and i: "i < 7"
  shows "dlist (lheap k) (free_list_of (desc_of ms i)) (xs i)" "ll.family (lheap k) L"
    "L (free_list_of (desc_of ms i)) = Some (xs i)" "distinct (xs i)"
proof -
  note D = allocatorD[OF al]
  show fam: "ll.family (lheap k) L" using D(1) by (simp add: sched_def sched_core_def)
  show l: "L (free_list_of (desc_of ms i)) = Some (xs i)" by (rule heapD(2)[OF D(3) i])
  show d: "dlist (lheap k) (free_list_of (desc_of ms i)) (xs i)" by (rule ll.familyD(1)[OF fam l])
  show "distinct (xs i)" using dlistD(1)[OF d] by (simp add: nodes_def)
qed

text \<open>
  What \<open>malloc\<close> does once it holds the lock of a descriptor with a free block: the invariant
  holds after it, one more block is in use, and memory changes only in the links of the free
  blocks and the counter of the arena.
\<close>

lemma take_block:
  assumes al: "allocator E ms k L cur rs ts W xs A" and i: "i < 7" and x: "xs i = b # bs" and E: "E \<subseteq> {a}"
    and a: "A a = Some (Small i)" and b: "j < class_blocks i" "b = block_at i a j"
  defines "L' \<equiv> L(free_list_of (desc_of ms i) \<mapsto> bs)" and "xs' \<equiv> xs(i := bs)"
  shows "\<exists>k'. malloc_take (desc_of ms i) (hold (desc_lock (desc_of ms i)) cur k) = Some (Done b, k') \<and>
     allocator {} ms k' L' cur rs ts W xs' A \<and> in_use xs' A = insert (b, class_size i) (in_use xs A) \<and>
     b \<in> free_blocks xs \<and> b \<notin> ll.owned L' \<and> threads k' = threads k \<and> kernel_pool k' = kernel_pool k \<and>
     (\<forall>q. q \<noteq> free_cnt_at a \<longrightarrow> words k' q = words k q) \<and>
     (\<forall>q. q \<notin> set (nodes (free_list_of (desc_of ms i)) bs) \<longrightarrow> lheap k' q = lheap k q)"
proof -
  let ?d = "desc_of ms i" let ?l = "desc_lock ?d"
  note D = allocatorD[OF al] and N = free_list_family[OF al i]
  note F = arena_facts[OF D(2,3) a]
  have ar: "arena_of ms k i a" by (rule arena_of_heap[OF D(2,3) a])
  obtain h' where h': "list_pop_front (lheap k) (free_list_of ?d) = Some (b, h')" "dlist h' (free_list_of ?d) bs"
      "modifies (lheap k) h' (set (nodes (free_list_of ?d) bs))"
    using lq.pop[of "lheap k" "free_list_of ?d" b bs] N(1) x by auto
  have fam: "ll.family h' L'"
    unfolding L'_def
    by (rule ll.family_update[OF N(2,3) h'(2,3), of "{}"]) (use x in \<open>auto simp: set_nodes\<close>)
  obtain f where f: "words k (free_cnt_at a) = Some f" using heapD(6)[OF D(3) a] by (simp add: arena_header_def)
  define k' where "k' = k\<lparr>lheap := h', words := (words k)(free_cnt_at a \<mapsto> f - 1)\<rparr>"
  have fc: "free_cnt_at a \<noteq> NULL" "0x40000 \<le> unat (free_cnt_at a)"
    using header_at(2)[OF F(1)] F(3) by auto
  have bta: "block_to_arena b (hold ?l cur (k\<lparr>lheap := h'\<rparr>)) = Some a"
    unfolding b(2)
  proof (rule block_to_arena_eq[OF descs_ok_hold[OF _ i] arena_of_hold[OF D(8) i] b(1)])
    show "descs_ok ms (k\<lparr>lheap := h'\<rparr>)" using D(7) by simp
    show "arena_of ms (k\<lparr>lheap := h'\<rparr>) i a" using ar by (simp add: arena_of_def)
  qed (rule F(3))
  have T: "heap {} ms k' L' ts xs' A" "in_use xs' A = insert (b, class_size i) (in_use xs A)" "b \<in> free_blocks xs"
  proof -
    have "heap (E - {a}) ms k' L' ts xs' A" "in_use xs' A = insert (b, class_size i) (in_use xs A)" "b \<in> free_blocks xs"
      unfolding L'_def xs'_def
      by (rule heap_take[OF D(2,3) x N(4) a b, of k' f];
          use f h'(3) in \<open>simp add: k'_def modifies_def\<close>)+
    then show "heap {} ms k' L' ts xs' A" "in_use xs' A = insert (b, class_size i) (in_use xs A)" "b \<in> free_blocks xs"
      using E by (simp_all add: Diff_eq_empty_iff[THEN iffD2])
  qed
  have al': "allocator {} ms k' L' cur rs ts W xs' A"
  proof (rule allocator_step[OF al i, where m = "used_map (kernel_pool k)" and h' = h' and th' = "threads k"
        and w' = "(words k)(free_cnt_at a \<mapsto> f - 1)" and X = "{}"])
    show "k' = set_pool_map Kernel_pool (used_map (kernel_pool k))
        (k\<lparr>lheap := h', threads := threads k, words := (words k)(free_cnt_at a \<mapsto> f - 1)\<rparr>)"
      by (simp add: k'_def set_pool_map_def)
    show own: "ll.owned L' \<subseteq> ll.owned L \<union> {}"
      unfolding L'_def using owned_change[of L "free_list_of ?d" "xs i" bs "{}"] N(3) x by auto
    show "\<not> in_range (page_at (kernel_pool k) m) 4096 q" if "m < page_cnt (kernel_pool k)"
      "m \<notin> used_bits (used_map (kernel_pool k))" "q \<in> ll.owned L' \<union> set ts" for m q
      using pool_okD(7)[OF D(2) that(1,2)] that(3) own by blast
    show "bm_wf (used_map (kernel_pool k))" by (rule pool_okD(3)[OF D(2)])
    show "L' = L(free_list_of ?d \<mapsto> bs)" by (simp add: L'_def)
  qed (use fc fam h'(3) T(1) in \<open>auto simp: modifies_def\<close>)
  have rel: "lock_release ?l (hold ?l cur k') = Some k'"
    by (rule hold_release[OF allocatorD(1)[OF al'] heapD(3)[OF T(1) i]])
  have "word_at (k\<lparr>lheap := h'\<rparr>) (free_cnt_at a) = Some f"
    "set_word (free_cnt_at a) (f - 1) (k\<lparr>lheap := h'\<rparr>) = Some k'"
    using fc(1) f by (simp_all add: word_at_def set_word_def k'_def)
  then have "malloc_take ?d (hold ?l cur k) = Some (Done b, k')"
    using bta rel h'(1) high_not_lock[OF D(8) i fc(2)] by (simp add: malloc_take_def pop_list_def)
  moreover have "b \<notin> ll.owned L'"
    using ll.family_notin[OF N(2), of "free_list_of ?d" "[]" b bs] N(3) x by (simp add: L'_def)
  ultimately show ?thesis using al' T(2,3) h'(3) by (auto simp: k'_def modifies_def)
qed

section \<open>A new arena\<close>

text \<open>Pages just taken from the pool.\<close>

definition with_pages :: "addr \<Rightarrow> nat \<Rightarrow> bitmap \<Rightarrow> kernel \<Rightarrow> kernel" where
  "with_pages a n m k = cc_fill a n (set_pool_map Kernel_pool m k)"

lemma with_pages_fields:
  "lheap (with_pages a n m k) =
     (\<lambda>q. if in_range a n q then Some \<lparr>le_prev = 0xcccccccc, le_next = 0xcccccccc\<rparr> else lheap k q)"
  "words (with_pages a n m k) = (\<lambda>q. if in_range a n q then Some 0xcccccccc else words k q)"
  "kernel_pool (with_pages a n m k) = (kernel_pool k)\<lparr>used_map := m\<rparr>"
  "threads (with_pages a n m k) = threads k"
  by (simp_all add: with_pages_def cc_fill_def set_pool_map_def cong: if_cong)

lemma with_pages_hold:
  assumes "\<not> in_range a n l" "\<not> in_range a n (semaphore_of l)"
  shows "with_pages a n m (hold l c k) = hold l c (with_pages a n m k)"
proof -
  have "(\<lambda>q. if in_range a n q then Some 0xcccccccc else ((words k)(semaphore_of l \<mapsto> 0, l \<mapsto> c)) q) =
      (\<lambda>q. if in_range a n q then Some 0xcccccccc else words k q)(semaphore_of l \<mapsto> 0, l \<mapsto> c)"
    using assms by (intro ext) (simp add: fun_upd_def)
  then show ?thesis by (simp add: with_pages_def cc_fill_def hold_def set_pool_map_def cong: if_cong)
qed

definition with_header :: "addr \<Rightarrow> addr \<Rightarrow> size_t \<Rightarrow> kernel \<Rightarrow> kernel" where
  "with_header a d n k = k\<lparr>words := (words k)(a \<mapsto> ARENA_MAGIC, desc_at a \<mapsto> d, free_cnt_at a \<mapsto> n)\<rparr>"

lemma init_arena_eq:
  assumes "pg_ofs a = 0" "a \<noteq> NULL" "{a, desc_at a, free_cnt_at a} \<subseteq> dom (words k)"
  shows "init_arena a d n k = Some (with_header a d n k)"
  using assms header_at[OF assms(1)]
  by (auto simp: init_arena_def set_word_def with_header_def word_unat_eq_iff)

lemma with_header_hold:
  assumes "l \<notin> {a, desc_at a, free_cnt_at a}" "semaphore_of l \<notin> {a, desc_at a, free_cnt_at a}"
  shows "with_header a d n (hold l c k) = hold l c (with_header a d n k)"
proof -
  have "(words k)(semaphore_of l \<mapsto> 0, l \<mapsto> c, a \<mapsto> ARENA_MAGIC, desc_at a \<mapsto> d, free_cnt_at a \<mapsto> n) =
    (words k)(a \<mapsto> ARENA_MAGIC, desc_at a \<mapsto> d, free_cnt_at a \<mapsto> n, semaphore_of l \<mapsto> 0, l \<mapsto> c)"
    using assms by (intro ext) auto
  then show ?thesis by (simp add: with_header_def hold_def)
qed

text \<open>An arena of \<open>n\<close> pages, all its blocks in use: the state just after the header is written.\<close>

lemma new_arena:
  assumes al: "allocator {} ms k L cur rs ts W xs A"
    and run: "a = page_at (kernel_pool k) i" "arena_size r = 4096 * n" "0 < n" "i + n \<le> page_cnt (kernel_pool k)"
      "{i..<i + n} \<inter> used_bits (used_map (kernel_pool k)) = {}"
    and m: "bit_cnt m = bit_cnt (used_map (kernel_pool k))" "bm_wf m"
      "used_bits m = used_bits (used_map (kernel_pool k)) \<union> {i..<i + n}"
    and r: "r = Big n \<and> d = NULL \<and> f = of_nat n \<or> (\<exists>c < 7. r = Small c \<and> d = desc_of ms c \<and> f = 0)"
  defines "k' \<equiv> with_header a d f (with_pages a (4096 * n) m k)"
  shows "allocator {} ms k' L cur rs ts W xs (A(a \<mapsto> r))"
    "in_use xs (A(a \<mapsto> r)) = in_use xs A \<union> slots a r" "slots a r \<inter> in_use xs A = {}"
    "\<And>q. \<not> in_range a (4096 * n) q \<Longrightarrow> words k' q = words k q \<and> lheap k' q = lheap k q"
    "init_arena a d f (with_pages a (4096 * n) m k) = Some k'" "threads k' = threads k"
proof -
  note D = allocatorD[OF al] and R = fresh_run[OF allocatorD(2,3)[OF al] run]
  note H = header_at[OF R(1)]
  have hd: "in_range a (4096 * n) q" if "q \<in> {a, desc_at a, free_cnt_at a}" for q
    using that H run(3) by (auto simp: in_range_def)
  have ne: "a \<noteq> desc_at a" "a \<noteq> free_cnt_at a" "desc_at a \<noteq> free_cnt_at a" using H by (auto simp: word_unat_eq_iff)
  show out: "words k' q = words k q \<and> lheap k' q = lheap k q" if "\<not> in_range a (4096 * n) q" for q
    using that hd by (auto simp: k'_def with_header_def with_pages_fields)
  show "init_arena a d f (with_pages a (4096 * n) m k) = Some k'"
    unfolding k'_def by (rule init_arena_eq[OF R(1,2)]) (use hd in \<open>auto simp: with_pages_fields\<close>)
  show thr: "threads k' = threads k" by (simp add: k'_def with_header_def with_pages_fields)
  have r7: "\<And>c. r = Small c \<Longrightarrow> c < 7" using r by auto
  have "free_count xs c a = 0" if "r = Small c" for c
  proof -
    have "block_at c a j \<notin> free_blocks xs" if "j < class_blocks c" for j
      by (rule R(7)[OF r7, of _ "class_size c"]) (use \<open>r = Small c\<close> that in auto)
    then show ?thesis by (simp add: free_count_def)
  qed
  then have hdr: "arena_header {} ms (words k') xs a r"
    using r ne run(3) class_bounds(3) by (auto simp: arena_header_def k'_def with_header_def) fastforce
  have kp: "kernel_pool k' = (kernel_pool k)\<lparr>used_map := m\<rparr>"
    by (simp add: k'_def with_header_def with_pages_fields)
  have pres: "q \<in> dom (lheap k') \<and> q \<in> dom (words k')" if "in_range a (4096 * n) q" for q
    using that by (auto simp: k'_def with_header_def with_pages_fields)
  note add = heap_add[OF D(2,3) run kp m(1,3) hdr out pres]
  show "in_use xs (A(a \<mapsto> r)) = in_use xs A \<union> slots a r" "slots a r \<inter> in_use xs A = {}"
    using add(2,3) by auto
  have fam: "ll.family (lheap k') L"
    by (rule family_dlist_cong[OF free_list_family(2)[OF al, of 0]]) (use out R(5) in auto)
  have triv: "L = L(free_list_of (desc_of ms 0) \<mapsto> xs 0)"
    using fun_upd_idem[of L "free_list_of (desc_of ms 0)" "Some (xs 0)"] heapD(2)[OF D(3), of 0] by simp
  show "allocator {} ms k' L cur rs ts W xs (A(a \<mapsto> r))"
  proof (rule allocator_step[OF al, where m = m and h' = "lheap k'" and th' = "threads k" and w' = "words k'"
        and X = "{}" and i = 0, OF _ _ m(1,2) _ triv fam _ _ _ _ _ add(1)])
    show "k' = set_pool_map Kernel_pool m (k\<lparr>lheap := lheap k', threads := threads k, words := words k'\<rparr>)"
      by (simp add: k'_def with_header_def with_pages_def cc_fill_def set_pool_map_def cong: if_cong)
    show "words k' q = words k q" if "unat q < 0x40000" for q
      using out[of q] that R(3) by (auto simp: in_range_def)
    show "p \<in> dom (lheap k')" if "p \<in> dom (lheap k)" for p
      using that by (auto simp: k'_def with_header_def with_pages_fields)
    show "\<not> in_range (page_at (kernel_pool k) j) 4096 q"
      if "j < page_cnt (kernel_pool k)" "j \<notin> used_bits m" "q \<in> ll.owned L \<union> set ts" for j q
      using pool_okD(7)[OF D(2) that(1) _ that(3)] that(2) m(3) by blast
  qed auto
qed

text \<open>The pages of an arena are used, so nothing in them keeps a page from being free.\<close>

lemma arena_page_used:
  assumes p: "pool_ok k L0 ts0" and h: "heap E ms k L ts xs A" and a: "A a = Some r"
    and q: "in_range a (arena_size r) q"
    and j: "j < page_cnt (kernel_pool k)" "j \<notin> used_bits (used_map (kernel_pool k))"
  shows "\<not> in_range (page_at (kernel_pool k) j) 4096 q"
proof -
  obtain i n where i: "a = page_at (kernel_pool k) i" "arena_size r = 4096 * n" "i + n \<le> page_cnt (kernel_pool k)"
      "{i..<i + n} \<subseteq> used_bits (used_map (kernel_pool k))" using heapD(5)[OF h a] unfolding arena_pages_def by blast
  have "{i..<i + n} \<inter> {j..<j + 1} = {}" using i(4) j(2) by auto
  then show ?thesis using run_apart[OF p i(3), of j 1] j(1) q i(1,2) by auto
qed

lemma elem_not_in_arena:
  assumes al: "allocator E ms k L cur rs ts W xs A" and a: "A a = Some r" and t: "t \<in> set ts"
  shows "\<not> in_range a (arena_size r) (elem_of t)" "\<not> in_range a (arena_size r) (allelem_of t)"
    "\<not> in_range a (arena_size r) t"
proof -
  note D = allocatorD[OF al]
  have "pg_ofs t = 0" using D(1) t by (simp add: sched_def sched_core_def thread_ok_def)
  from thread_apart[OF D(2,3) a t this, of 116] thread_apart[OF D(2,3) a t this, of 108]
    thread_apart[OF D(2,3) a t this, of 0]
  show "\<not> in_range a (arena_size r) (elem_of t)" "\<not> in_range a (arena_size r) (allelem_of t)"
    "\<not> in_range a (arena_size r) t"
    by (simp_all add: elem_of_def allelem_of_def)
qed

lemma block_in_arena:
  assumes al: "allocator E ms k L cur rs ts W xs A" and a: "A a = Some (Small i)" and j: "j < class_blocks i"
  shows "in_range a 4096 (block_at i a j)" "block_at i a j \<noteq> NULL"
proof -
  note D = allocatorD[OF al] note F = arena_facts[OF D(2,3) a]
  have s: "(block_at i a j, class_size i) \<in> slots a (Small i)" using j by simp
  show "in_range a 4096 (block_at i a j)"
    using slot_range(1)[OF F(1,4) s slot_self(1)[OF s]] F(6)[of i] by simp
  show "block_at i a j \<noteq> NULL" by (rule block_not_NULL[OF F(1) F(6) j]) simp
qed

text \<open>An arena that is all in use and unknown to every list: its blocks become free.\<close>

lemma fill_heap:
  assumes al: "allocator {} ms k L cur rs ts W xs A" and a: "A a = Some (Small i)" and em: "xs i = []"
    and own: "\<And>q. in_range a 4096 q \<Longrightarrow> q \<notin> ll.owned L"
    and h': "dlist h' (free_list_of (desc_of ms i)) bs" "modifies (lheap k) h' (set (nodes (free_list_of (desc_of ms i)) bs))"
    and bs: "bs = map (block_at i a) [0..<class_blocks i]"
  defines "k' \<equiv> k\<lparr>lheap := h', words := (words k)(free_cnt_at a \<mapsto> of_nat (class_blocks i))\<rparr>"
  shows "allocator {a} ms k' (L(free_list_of (desc_of ms i) \<mapsto> bs)) cur rs ts W (xs(i := bs)) A"
    "in_use (xs(i := bs)) A = in_use xs A - slots a (Small i)"
proof -
  let ?n = "class_blocks i" let ?fl = "free_list_of (desc_of ms i)"
  let ?L = "L(?fl \<mapsto> bs)" and ?xs = "xs(i := bs)"
  note D = allocatorD[OF al] note F = arena_facts[OF D(2,3) a]
  have i: "i < 7" by (rule F(6)) simp
  note N = free_list_family[OF al i] and B = block_in_arena[OF al a]
  have bss: "set bs = block_at i a ` {0..<?n}" by (auto simp: bs)
  have disj: "set bs \<inter> ll.owned L = {}" using own[OF B(1)] unfolding bss by auto
  have fam: "ll.family h' ?L"
    by (rule ll.family_update[OF N(2,3) h', of "set bs"]) (use disj em in \<open>auto simp: set_nodes\<close>)
  have sub: "ll.owned ?L \<subseteq> ll.owned L \<union> set bs"
    using owned_change[of L ?fl "[]" bs "set bs"] N(3) em by auto
  have fb: "free_blocks ?xs = free_blocks xs \<union> set bs"
    unfolding free_blocks_upd[OF i] free_blocks_split[OF i] em by simp
  show "in_use ?xs A = in_use xs A - slots a (Small i)"
  proof -
    have "fst z \<in> set bs \<longleftrightarrow> z \<in> slots a (Small i)" if z: "A a' = Some r'" "z \<in> slots a' r'" for z a' r'
    proof
      assume "fst z \<in> set bs"
      then have s: "(fst z, class_size i) \<in> slots a (Small i)" unfolding bss by auto
      have "(fst z, snd z) \<in> slots a' r'" using z(2) by simp
      from slot_capacity(2)[OF D(2,3) a s z(1) this] show "z \<in> slots a (Small i)" using s by (metis prod.collapse)
    qed (auto simp: bss)
    then show ?thesis unfolding in_use_def fb by fastforce
  qed
  have "{j. j < ?n \<and> block_at i a j \<in> free_blocks ?xs} = {..<?n}" unfolding fb bss by auto
  then have cnt: "free_count ?xs i a = ?n" by (simp add: free_count_def)
  have hp: "heap {a} ms k' ?L ts ?xs A"
  proof (rule heap_in_arena[OF D(2,3) a refl refl, where X = "{}"])
    show "words k' (free_cnt_at a) = Some (of_nat (free_count ?xs i a))" by (simp add: k'_def cnt)
    show "\<exists>b c. (b, c) \<in> slots a (Small i) \<and> in_range b c q \<and> (b \<in> free_blocks ?xs \<longrightarrow> q = b)"
      if "in_range a 4096 q" "q \<in> ll.owned ?L" for q
    proof -
      have "q \<in> set bs" using that sub own by blast
      then have s: "(q, class_size i) \<in> slots a (Small i)" unfolding bss by auto
      show ?thesis using s slot_self(1)[OF s] i by (intro exI[of _ q] exI[of _ "class_size i"]) simp
    qed
  qed (use h'(2) bss em in \<open>auto simp: k'_def modifies_def\<close>)
  have fc: "0x40000 \<le> unat (free_cnt_at a)" using header_at(2)[OF F(1)] F(3) by simp
  show "allocator {a} ms k' ?L cur rs ts W ?xs A"
  proof (rule allocator_step[OF al i, where m = "used_map (kernel_pool k)" and h' = h' and th' = "threads k"
        and w' = "words k'" and X = "set bs"])
    show "k' = set_pool_map Kernel_pool (used_map (kernel_pool k)) (k\<lparr>lheap := h', threads := threads k, words := words k'\<rparr>)"
      by (simp add: k'_def set_pool_map_def)
    show "elem_of t \<notin> set bs" if t: "t \<in> set ts" for t
      using elem_not_in_arena(1)[OF al a t] B(1) unfolding bss by auto
    show "\<not> in_range (page_at (kernel_pool k) j) 4096 q"
      if "j < page_cnt (kernel_pool k)" "j \<notin> used_bits (used_map (kernel_pool k))" "q \<in> ll.owned ?L \<union> set ts" for j q
    proof (cases "q \<in> set bs")
      case True
      then have "in_range a (arena_size (Small i)) q" using B(1) unfolding bss by auto
      from arena_page_used[OF D(2,3) a this that(1,2)] show ?thesis .
    next
      case False
      then show ?thesis using pool_okD(7)[OF D(2) that(1,2), of q] that(3) sub by blast
    qed
    show "bm_wf (used_map (kernel_pool k))" by (rule pool_okD(3)[OF D(2)])
    show "words k' q = words k q" if "unat q < 0x40000" for q using that fc by (auto simp: k'_def)
    show "p \<in> dom h'" if "p \<in> dom (lheap k)" for p using that h'(2) by (simp add: modifies_def)
  qed (use fam sub hp in auto)
qed

text \<open>The whole of \<open>malloc_page\<close> on a fresh page, up to the taking of the first block.\<close>

lemma fill_arena:
  assumes al: "allocator {} ms k L cur rs ts W xs A" and i: "i < 7" and em: "xs i = []"
    and run: "a = page_at (kernel_pool k) x" "x < page_cnt (kernel_pool k)" "x \<notin> used_bits (used_map (kernel_pool k))"
    and m: "bit_cnt m = bit_cnt (used_map (kernel_pool k))" "bm_wf m"
      "used_bits m = insert x (used_bits (used_map (kernel_pool k)))"
  defines "d \<equiv> desc_of ms i" and "bs \<equiv> map (block_at i a) [0..<class_blocks i]"
  shows "\<exists>k'. malloc_page d a (hold (desc_lock d) cur (with_pages a 4096 m k)) = malloc_take d (hold (desc_lock d) cur k') \<and>
     allocator {a} ms k' (L(free_list_of d \<mapsto> bs)) cur rs ts W (xs(i := bs)) (A(a \<mapsto> Small i)) \<and>
     in_use (xs(i := bs)) (A(a \<mapsto> Small i)) = in_use xs A \<and> threads k' = threads k \<and> A a = None \<and>
     kernel_pool k' = (kernel_pool k)\<lparr>used_map := m\<rparr> \<and>
     (\<forall>q. \<not> in_range a 4096 q \<longrightarrow> words k' q = words k q \<and>
        (q \<notin> set (nodes (free_list_of d) []) \<longrightarrow> lheap k' q = lheap k q))"
proof -
  let ?l = "desc_lock d" and ?n = "class_blocks i" and ?A = "A(a \<mapsto> Small i)"
  note D = allocatorD[OF al]
  have run': "a = page_at (kernel_pool k) x" "arena_size (Small i) = 4096 * 1" "0 < (1 :: nat)"
      "x + 1 \<le> page_cnt (kernel_pool k)" "{x..<x + 1} \<inter> used_bits (used_map (kernel_pool k)) = {}"
    using run by auto
  have m': "used_bits m = used_bits (used_map (kernel_pool k)) \<union> {x..<x + 1}" using m(3) by auto
  note R = fresh_run[OF D(2,3) run']
  define k0 where "k0 = with_header a d 0 (with_pages a (4096 * 1) m k)"
  define k1 where "k1 = with_header a d (of_nat ?n) (with_pages a 4096 m k)"
  have r: "Small i = Big 1 \<and> d = NULL \<and> (0 :: addr) = of_nat 1 \<or> (\<exists>c < 7. Small i = Small c \<and> d = desc_of ms c \<and> (0 :: addr) = 0)"
    using i by (simp add: d_def)
  note new = new_arena[OF al run' m(1,2) m' r, folded k0_def]
  note al0 = new(1) note D0 = allocatorD[OF al0]
  have a0: "?A a = Some (Small i)" by simp
  note B = block_in_arena[OF al0 a0] and N0 = free_list_family[OF al0 i]
  note H = header_at[OF R(1)]
  have ne: "a \<noteq> desc_at a" "a \<noteq> free_cnt_at a" "desc_at a \<noteq> free_cnt_at a" using H by (auto simp: word_unat_eq_iff)
  have k1: "k1 = k0\<lparr>words := (words k0)(free_cnt_at a \<mapsto> of_nat ?n)\<rparr>"
    by (simp add: k0_def k1_def with_header_def fun_upd_twist ne)
  have hd: "in_range a 4096 q" if "q \<in> {a, desc_at a, free_cnt_at a}" for q using that H by (auto simp: in_range_def)
  have far: "\<not> in_range a 4096 q" if "unat q < 0x40000" for q using that R(3) by (simp add: in_range_def)
  have lock: "\<not> in_range a 4096 ?l" "\<not> in_range a 4096 (semaphore_of ?l)" "?l \<notin> {a, desc_at a, free_cnt_at a}"
    "semaphore_of ?l \<notin> {a, desc_at a, free_cnt_at a}"
    using far desc_lock_low[OF D(8) i] hd unfolding d_def by blast+
  have add: "\<exists>h'. add_blocks (desc_of ms i) a (of_nat 0) ((hold ?l cur k1)\<lparr>lheap := lheap k0\<rparr>) =
        Some ((hold ?l cur k1)\<lparr>lheap := h'\<rparr>) \<and>
     dlist h' (free_list_of (desc_of ms i)) ([] @ map (block_at i a) [0..<?n]) \<and>
     modifies (lheap k0) h' (set (nodes (free_list_of (desc_of ms i)) ([] @ map (block_at i a) [0..<?n])))"
  proof (rule add_blocks_eq)
    have "descs_ok ms k1" by (rule descs_ok_low[OF D0(7)]) (use far hd[of "free_cnt_at a"] in \<open>auto simp: k1\<close>)
    then show "descs_ok ms (hold ?l cur k1)" unfolding d_def by (rule descs_ok_hold[OF _ i])
    have "arena_of ms k1 i a" using i R(1,2) ne by (simp add: arena_of_def k1_def with_header_def d_def)
    then show "arena_of ms (hold ?l cur k1) i a" unfolding d_def by (rule arena_of_hold[OF D(8) i _ R(3)])
    show "dlist (lheap k0) (free_list_of (desc_of ms i)) []" using N0(1) em by simp
    fix j assume j: "j < ?n"
    have "block_at i a j \<notin> set (nodes (free_list_of (desc_of ms i)) [])"
      using R(5)[of "block_at i a j"] B(1)[OF j] ll.ownedI[of L "free_list_of (desc_of ms i)" "[]"] N0(3) em by auto
    moreover have "valid (lheap k0) (block_at i a j)"
      using B[OF j] by (simp add: valid_def k0_def with_header_def with_pages_fields domIff)
    ultimately show "valid (lheap k0) (block_at i a j) \<and> block_at i a j \<notin> set (nodes (free_list_of (desc_of ms i)) [])"
      by simp
  qed simp
  then obtain h' where h': "add_blocks d a 0 (hold ?l cur k1) = Some (hold ?l cur (k1\<lparr>lheap := h'\<rparr>))"
     "dlist h' (free_list_of (desc_of ms i)) bs" "modifies (lheap k0) h' (set (nodes (free_list_of (desc_of ms i)) bs))"
    by (auto simp: d_def bs_def k1)
  define k' where "k' = k0\<lparr>lheap := h', words := (words k0)(free_cnt_at a \<mapsto> of_nat ?n)\<rparr>"
  have k1': "k1\<lparr>lheap := h'\<rparr> = k'" by (simp add: k1 k'_def)
  have out: "q \<notin> ll.owned L" if "in_range a 4096 q" for q using R(5)[of q] that by simp
  note fill = fill_heap[OF al0 a0 em out h'(2,3) bs_def[THEN meta_eq_to_obj_eq], folded k'_def]
  have page: "malloc_page d a (hold ?l cur (with_pages a 4096 m k)) = malloc_take d (hold ?l cur k')"
  proof -
    have "\<not> in_range a 4096 (d + 4)" using far desc_field_low(1)[OF D(8) i, of 4] by (simp add: d_def)
    then have "word_at (with_pages a 4096 m k) (d + 4) = word_at k (d + 4)"
      by (simp add: word_at_def with_pages_fields)
    then have "word_at (hold ?l cur (with_pages a 4096 m k)) (d + 4) = Some (of_nat ?n)"
      using desc_words(4)[OF D(7) i] table_not_lock(3,4)[OF D(8) i i] by (simp add: d_def)
    moreover have "init_arena a d (of_nat ?n) (hold ?l cur (with_pages a 4096 m k)) = Some (hold ?l cur k1)"
    proof -
      have "{a, desc_at a, free_cnt_at a} \<subseteq> dom (words (hold ?l cur (with_pages a 4096 m k)))"
        using hd lock by (auto simp: with_pages_fields)
      then show ?thesis using init_arena_eq[OF R(1,2)] with_header_hold[OF lock(3,4)] by (simp add: k1_def)
    qed
    ultimately show ?thesis using R(2) h'(1) by (simp add: malloc_page_def k1')
  qed
  have use: "in_use (xs(i := bs)) ?A = in_use xs A" using fill(2) new(2,3) by blast
  have keep: "words k' q = words k q \<and> (q \<notin> set (nodes (free_list_of d) []) \<longrightarrow> lheap k' q = lheap k q)"
    if "\<not> in_range a 4096 q" for q
  proof -
    have "q \<noteq> free_cnt_at a" "q \<notin> set bs" using that hd B(1) by (auto simp: bs_def)
    then show ?thesis
      using new(4)[of q] that h'(3) by (auto simp: k'_def d_def modifies_def set_nodes)
  qed
  have "kernel_pool k' = (kernel_pool k)\<lparr>used_map := m\<rparr>" by (simp add: k'_def k0_def with_header_def with_pages_fields)
  moreover have "threads k' = threads k" using new(6) by (simp add: k'_def)
  ultimately show ?thesis using page fill(1) use keep R(8) unfolding d_def by blast
qed

end
