(* ===== verification/Kernel_Malloc_Take.thy ===== *)
theory Kernel_Malloc_Take
  imports Kernel_Malloc_Ops
begin

text \<open>
  \<open>malloc\<close> of threads/malloc.c: it returns a block that is large enough and overlaps no other block
  in use, or a null pointer, and touches no block in use.
\<close>

section \<open>Memory in use\<close>

lemma free_list_low:
  assumes "statics_ok ms" "i < 7" "q \<in> {head_of (free_list_of (desc_of ms i)), tail_of (free_list_of (desc_of ms i))}"
  shows "unat q < 0x40000"
  using assms(3) desc_field_low(1)[OF assms(1,2), of 8] desc_field_low(1)[OF assms(1,2), of 16]
  by (auto simp: head_of_def tail_of_def free_list_of_def add.commute)

lemma used_memory:
  assumes al: "allocator E ms k L cur rs ts W xs A" and u: "(b, c) \<in> in_use xs A" "in_range b c q"
  shows "0x40000 \<le> unat q" "\<And>a r. A a = Some r \<Longrightarrow> \<not> in_range a 12 q" "q \<notin> free_blocks xs"
    "\<exists>a r. A a = Some r \<and> in_range a (arena_size r) q"
    "\<And>i ys. i < 7 \<Longrightarrow> set ys \<subseteq> free_blocks xs \<Longrightarrow> q \<notin> set (nodes (free_list_of (desc_of ms i)) ys)"
proof -
  note D = allocatorD[OF al]
  obtain a r where a: "A a = Some r" "(b, c) \<in> slots a r" "b \<notin> free_blocks xs" using u(1) unfolding in_use_def by auto
  note F = arena_facts[OF D(2,3) a(1)]
  have s: "in_range a (arena_size r) q" "\<not> in_range a 12 q" using slot_range[OF F(1,4) a(2) u(2) F(6)] by auto
  show high: "0x40000 \<le> unat q" using s(1) F(3) by (simp add: in_range_def)
  show "\<exists>a r. A a = Some r \<and> in_range a (arena_size r) q" using a(1) s(1) by blast
  show "\<not> in_range a' 12 q" if a': "A a' = Some r'" for a' r'
  proof
    assume q: "in_range a' 12 q"
    have "12 \<le> arena_size r'" using arena_facts(5)[OF D(2,3) a'] by (cases r') auto
    then have "in_range a' (arena_size r') q" using q by (simp add: in_range_def)
    then have "a' = a" using heapD(8)[OF D(3) a' a(1)] s(1) by blast
    then show False using q s(2) by simp
  qed
  show nf: "q \<notin> free_blocks xs"
  proof
    assume q: "q \<in> free_blocks xs"
    then obtain a' i j where f: "A a' = Some (Small i)" "i < 7" "j < class_blocks i" "q = block_at i a' j"
      by (rule free_block_slot[OF D(3)])
    then have s': "(q, class_size i) \<in> slots a' (Small i)" by auto
    have "q = b" using slot_owner(3)[OF D(2,3) a(1,2) f(1) s' u(2)] slot_self(1)[OF s'] f(2) by simp
    then show False using q a(3) by simp
  qed
  show "q \<notin> set (nodes (free_list_of (desc_of ms i)) ys)" if i: "i < 7" and ys: "set ys \<subseteq> free_blocks xs" for i ys
    using free_list_low[OF D(8) i, of q] high nf ys by (auto simp: set_nodes)
qed

text \<open>\<open>keeps_used\<close>: the contents of every block in use are as before.\<close>

definition keeps_used :: "(addr \<times> nat) set \<Rightarrow> kernel \<Rightarrow> kernel \<Rightarrow> bool" where
  "keeps_used U k k' \<longleftrightarrow> (\<forall>(b, c) \<in> U. \<forall>q. in_range b c q \<longrightarrow> words k' q = words k q \<and> lheap k' q = lheap k q)"

definition apart :: "addr \<times> nat \<Rightarrow> (addr \<times> nat) set \<Rightarrow> bool" where
  "apart z U \<longleftrightarrow> (\<forall>(b, c) \<in> U. \<forall>q. in_range b c q \<longrightarrow> \<not> in_range (fst z) (snd z) q)"

lemma apart_new:
  assumes al: "allocator E ms k L cur rs ts W xs A" and new: "(p, c) \<notin> U" and use: "in_use xs A = insert (p, c) U"
  shows "apart (p, c) U"
proof -
  note D = allocatorD[OF al]
  have "\<not> in_range p c q" if u: "(b, c') \<in> U" "in_range b c' q" for b c' q
  proof
    assume q: "in_range p c q"
    have "(p, c) \<in> in_use xs A" "(b, c') \<in> in_use xs A" using u(1) use by auto
    from in_use_disjoint[OF D(2,3) this q u(2)] show False using u(1) new by simp
  qed
  then show ?thesis unfolding apart_def by auto
qed

text \<open>
  A client may write what it likes into the blocks in use, as long as it leaves alone the list
  elements it keeps there.
\<close>

lemma client_write:
  assumes al: "allocator E ms k L cur rs ts W xs A"
    and X: "\<And>q. q \<in> X \<Longrightarrow> q \<notin> ll.owned L \<and> (\<exists>b c. (b, c) \<in> in_use xs A \<and> in_range b c q)"
    and w: "\<And>q. q \<notin> X \<Longrightarrow> lheap k' q = lheap k q \<and> words k' q = words k q"
    and dm: "dom (lheap k) \<subseteq> dom (lheap k')" "dom (words k) \<subseteq> dom (words k')"
    and k': "k' = k\<lparr>lheap := h', threads := th', words := w'\<rparr>" "\<And>t. t \<in> set ts \<Longrightarrow> th' t = threads k t"
  shows "allocator E ms k' L cur rs ts W xs A"
proof -
  note D = allocatorD[OF al]
  have high: "0x40000 \<le> unat q" "\<And>a r. A a = Some r \<Longrightarrow> \<not> in_range a 12 q" if "q \<in> X" for q
    using X[OF that] used_memory(1,2)[OF al] by blast+
  have low: "words k' q = words k q" if "unat q < 0x40000" for q
    using w[of q] high(1)[of q] that by (metis not_le)
  have triv: "L = L(free_list_of (desc_of ms 0) \<mapsto> xs 0)" "xs = xs(0 := xs 0)"
    using fun_upd_idem[of L "free_list_of (desc_of ms 0)" "Some (xs 0)"] heapD(2)[OF D(3), of 0] by simp_all
  have kp: "kernel_pool k' = kernel_pool k" by (simp add: k'(1))
  have hp: "heap E ms k' L ts xs A"
  proof (rule heap_step[OF D(3) _ low triv])
    fix a r assume a: "A a = Some r"
    note F = arena_facts[OF D(2,3) a] note H = header_at[OF F(1)]
    have "in_range a 12 a" "in_range a 12 (desc_at a)" "in_range a 12 (free_cnt_at a)"
      using H by (auto simp: in_range_def)
    then have "words k' a = words k a" "words k' (desc_at a) = words k (desc_at a)"
      "words k' (free_cnt_at a) = words k (free_cnt_at a)" using high(2)[OF _ a] w by blast+
    then have "arena_header E ms (words k') xs a r"
      by (intro arena_header_cong[OF heapD(6)[OF D(3) a]]) auto
    moreover have "arena_memory k' L ts xs a r"
      by (rule arena_memory_cong[OF heapD(7)[OF D(3) a]]) (use dm in blast)+
    ultimately show "arena_pages (kernel_pool k') a r \<and> arena_header E ms (words k') xs a r \<and> arena_memory k' L ts xs a r"
      using heapD(5)[OF D(3) a] kp by simp
  qed (use heapD(4,8)[OF D(3)] in auto)
  show ?thesis
  proof (rule allocator_step[OF al, where m = "used_map (kernel_pool k)" and h' = "lheap k'" and th' = "threads k'"
        and w' = "words k'" and X = "{}" and i = 0, OF _ _ _ _ _ triv(1)])
    show "k' = set_pool_map Kernel_pool (used_map (kernel_pool k)) (k\<lparr>lheap := lheap k', threads := threads k', words := words k'\<rparr>)"
      by (simp add: k'(1) set_pool_map_def)
    show "ll.family (lheap k') L"
      by (rule family_dlist_cong[OF free_list_family(2)[OF al, of 0]]) (use w X in auto)
    show "bm_wf (used_map (kernel_pool k))" by (rule pool_okD(3)[OF D(2)])
    show "\<not> in_range (page_at (kernel_pool k) m) 4096 q" if "m < page_cnt (kernel_pool k)"
      "m \<notin> used_bits (used_map (kernel_pool k))" "q \<in> ll.owned L \<union> set ts" for m q
      by (rule pool_okD(7)[OF D(2) that])
  qed (use hp dm low k'(2) in \<open>auto simp: k'(1)\<close>)
qed

section \<open>malloc\<close>

text \<open>
  The outcome of a request: a null pointer and no change, when nothing was asked for or the pages
  needed are not there, or a new block.
\<close>

definition pages_needed :: "size_t \<Rightarrow> nat" where
  "pages_needed sz = (if unat sz \<le> 1024 then 1 else unat (DIV_ROUND_UP (sz + sizeof_arena) PGSIZE))"

text \<open>At most a run of \<open>n\<close> pages has been taken from the kernel pool.\<close>

definition pages_taken :: "kernel \<Rightarrow> kernel \<Rightarrow> nat \<Rightarrow> bool" where
  "pages_taken k k' n \<longleftrightarrow> page_cnt (kernel_pool k') = page_cnt (kernel_pool k) \<and>
     (\<exists>i. used_bits (used_map (kernel_pool k')) \<subseteq> used_bits (used_map (kernel_pool k)) \<union> {i..<i + n})"

definition malloc_outcome ::
  "malloc_statics \<Rightarrow> size_t \<Rightarrow> kernel \<Rightarrow> (addr \<rightharpoonup> addr list) \<Rightarrow> addr \<Rightarrow> addr list \<Rightarrow> addr list \<Rightarrow> addr set \<Rightarrow>
   (nat \<Rightarrow> addr list) \<Rightarrow> (addr \<rightharpoonup> arena) \<Rightarrow> (outcome \<times> kernel) option \<Rightarrow> bool" where
  "malloc_outcome ms sz k L cur rs ts W xs A res \<longleftrightarrow>
     res = Some (Done NULL, k) \<and> (sz = 0 \<or> exhausted k (pages_needed sz)) \<or>
     (\<exists>p c k' L' xs' A'. res = Some (Done p, k') \<and> p \<noteq> NULL \<and> unat sz \<le> c \<and>
        allocator {} ms k' L' cur rs ts W xs' A' \<and> in_use xs' A' = insert (p, c) (in_use xs A) \<and>
        (p, c) \<notin> in_use xs A \<and> (\<forall>q. in_range p c q \<longrightarrow> q \<notin> ll.owned L') \<and>
        apart (p, c) (in_use xs A) \<and> keeps_used (in_use xs A) k k' \<and> threads k' = threads k \<and>
        (\<forall>l. l \<notin> (\<lambda>i. free_list_of (desc_of ms i)) ` {0..<7} \<longrightarrow> L' l = L l) \<and> pages_taken k k' (pages_needed sz))"

text \<open>Taking a block of class \<open>i\<close> from a state reached from \<open>k\<close> without touching a block in use.\<close>

lemma take_outcome:
  assumes al: "allocator {} ms k L cur rs ts W xs A" and i: "i < 7" and fits: "unat sz \<le> class_size i"
    and al1: "allocator E ms k1 L1 cur rs ts W xs1 A1" and E: "E \<subseteq> {a}" and x: "xs1 i = b # bs"
    and a: "A1 a = Some (Small i)" and b: "j < class_blocks i" "b = block_at i a j"
    and use: "in_use xs1 A1 = in_use xs A" and keep: "keeps_used (in_use xs A) k k1" and thr: "threads k1 = threads k"
    and L1: "\<And>l. l \<notin> (\<lambda>i. free_list_of (desc_of ms i)) ` {0..<7} \<Longrightarrow> L1 l = L l"
    and pt: "pages_taken k k1 1"
  shows "malloc_outcome ms sz k L cur rs ts W xs A
     (malloc_take (desc_of ms i) (hold (desc_lock (desc_of ms i)) cur k1))"
proof -
  obtain k' where k': "malloc_take (desc_of ms i) (hold (desc_lock (desc_of ms i)) cur k1) = Some (Done b, k')"
     "allocator {} ms k' (L1(free_list_of (desc_of ms i) \<mapsto> bs)) cur rs ts W (xs1(i := bs)) A1"
     "in_use (xs1(i := bs)) A1 = insert (b, class_size i) (in_use xs1 A1)"
     "b \<in> free_blocks xs1" "b \<notin> ll.owned (L1(free_list_of (desc_of ms i) \<mapsto> bs))" "threads k' = threads k1"
     "kernel_pool k' = kernel_pool k1"
     "\<And>q. q \<noteq> free_cnt_at a \<Longrightarrow> words k' q = words k1 q"
     "\<And>q. q \<notin> set (nodes (free_list_of (desc_of ms i)) bs) \<Longrightarrow> lheap k' q = lheap k1 q"
    using take_block[OF al1 i x E a b] by blast
  note D1 = allocatorD[OF al1]
  have nb: "b \<noteq> NULL" unfolding b(2) by (rule block_in_arena(2)[OF al1 a b(1)])
  have new: "(b, class_size i) \<notin> in_use xs A" using k'(4) use unfolding in_use_def by blast
  have sub: "set bs \<subseteq> free_blocks xs1" using x i by (auto simp: free_blocks_def intro!: bexI[of _ i])
  have fc: "in_range a 12 (free_cnt_at a)"
    using header_at(2)[OF arena_facts(1)[OF D1(2,3) a]] by (simp add: in_range_def)
  have "words k' q = words k q \<and> lheap k' q = lheap k q" if u: "(b', c) \<in> in_use xs A" "in_range b' c q" for b' c q
  proof -
    note U = used_memory[OF al1 u(1)[folded use] u(2)]
    have "q \<noteq> free_cnt_at a" using U(2)[OF a] fc by blast
    moreover have "q \<notin> set (nodes (free_list_of (desc_of ms i)) bs)" by (rule U(5)[OF i sub])
    ultimately show ?thesis using k'(8,9) keep u unfolding keeps_used_def by fastforce
  qed
  then have "keeps_used (in_use xs A) k k'" unfolding keeps_used_def by blast
  moreover have quiet: "\<forall>q. in_range b (class_size i) q \<longrightarrow> q \<notin> ll.owned (L1(free_list_of (desc_of ms i) \<mapsto> bs))"
  proof (intro allI impI notI)
    fix q assume q: "in_range b (class_size i) q" "q \<in> ll.owned (L1(free_list_of (desc_of ms i) \<mapsto> bs))"
    note F1 = arena_facts[OF D1(2,3) a]
    have s: "(b, class_size i) \<in> slots a (Small i)" using b by simp
    have r: "in_range a (arena_size (Small i)) q" by (rule slot_range(1)[OF F1(1,4) s q(1) F1(6)])
    have "q \<in> ll.owned L1"
      using owned_change[of L1 "free_list_of (desc_of ms i)" "xs1 i" bs "{}"] q(2) x free_list_family(3)[OF al1 i] by auto
    then obtain b' c' where s': "(b', c') \<in> slots a (Small i)" "in_range b' c' q" "b' \<in> free_blocks xs1 \<longrightarrow> q = b'"
      using heapD(7)[OF D1(3) a] r unfolding arena_memory_def by blast
    have "b' = b" by (rule slot_owner(3)[OF D1(2,3) a s a s'(1) q(1) s'(2)])
    then show False using s'(3) k'(4,5) q(2) by simp
  qed
  moreover have "apart (b, class_size i) (in_use xs A)"
    by (rule apart_new[OF k'(2) new]) (use k'(3) use in simp)
  moreover have "(L1(free_list_of (desc_of ms i) \<mapsto> bs)) l = L l"
    if "l \<notin> (\<lambda>i. free_list_of (desc_of ms i)) ` {0..<7}" for l
    using L1[OF that] that i by auto
  moreover have "pages_taken k k' (pages_needed sz)"
    using pt k'(7) fits class_bounds(2)[OF i] by (simp add: pages_taken_def pages_needed_def)
  ultimately show ?thesis
    unfolding malloc_outcome_def using k'(1-3,6) nb fits use thr new quiet by (intro disjI2 exI conjI) (assumption | simp)+
qed

lemma malloc_locked_outcome:
  assumes al: "allocator {} ms k L cur rs ts W xs A" and i: "i < 7" and fits: "unat sz \<le> class_size i"
  shows "malloc_outcome ms sz k L cur rs ts W xs A
     (malloc_locked (desc_of ms i) (hold (desc_lock (desc_of ms i)) cur k))"
proof -
  let ?d = "desc_of ms i" let ?l = "desc_lock ?d"
  note D = allocatorD[OF al] and N = free_list_family[OF al i]
  have em: "list_empty (lheap k) (free_list_of ?d) = Some (xs i = [])" by (rule lq.is_empty[OF N(1)])
  show ?thesis
  proof (cases "xs i")
    case (Cons b bs)
    then obtain a j where a: "A a = Some (Small i)" "j < class_blocks i" "b = block_at i a j"
      using heapD(4)[OF D(3) i, of b] by auto
    have "malloc_outcome ms sz k L cur rs ts W xs A (malloc_take ?d (hold ?l cur k))"
      by (rule take_outcome[OF al i fits al _ Cons a]) (simp_all add: keeps_used_def, auto simp: pages_taken_def)
    then show ?thesis using em Cons by (simp add: malloc_locked_def)
  next
    case Nil
    have s: "sched (hold ?l cur k) L cur rs ts W" using D(1) by simp
    have one: "(0 :: size_t) < 1" by simp
    from s pool_not_lock[OF al i, of cur] one show ?thesis
    proof (cases rule: get_pages)
      case none
      have "malloc_locked ?d (hold ?l cur k) = Some (Done NULL, k)"
        using em Nil none hold_release[OF D(1) heapD(3)[OF D(3) i]]
        by (simp add: malloc_locked_def palloc_get_page_def malloc_page_def)
      moreover have "exhausted k (pages_needed sz)"
        using none(2) fits class_bounds(2)[OF i] by (simp add: pages_needed_def exhausted_def)
      ultimately show ?thesis by (simp add: malloc_outcome_def)
    next
      case (run x m)
      let ?a = "page_at (kernel_pool k) x"
      define bs where "bs = map (block_at i ?a) [0..<class_blocks i]"
      have x: "x < page_cnt (kernel_pool k)" "x \<notin> used_bits (used_map (kernel_pool k))" using run(2,3) by auto
      have m: "bit_cnt m = bit_cnt (used_map (kernel_pool k))"
        "used_bits m = insert x (used_bits (used_map (kernel_pool k)))" using run(5,6) by auto
      obtain k1 where k1: "malloc_page ?d ?a (hold ?l cur (with_pages ?a 4096 m k)) = malloc_take ?d (hold ?l cur k1)"
         "allocator {?a} ms k1 (L(free_list_of ?d \<mapsto> bs)) cur rs ts W (xs(i := bs)) (A(?a \<mapsto> Small i))"
         "in_use (xs(i := bs)) (A(?a \<mapsto> Small i)) = in_use xs A" "threads k1 = threads k" "A ?a = None"
         "kernel_pool k1 = (kernel_pool k)\<lparr>used_map := m\<rparr>"
         "\<And>q. \<not> in_range ?a 4096 q \<Longrightarrow> words k1 q = words k q \<and>
            (q \<notin> set (nodes (free_list_of ?d) []) \<longrightarrow> lheap k1 q = lheap k q)"
        using fill_arena[OF al i Nil refl x m(1) run(4) m(2)] unfolding bs_def by blast
      have low: "\<not> in_range ?a 4096 q" if "unat q < 0x40000" for q
        using page_at_aligned(3)[OF D(2), of x] x(1) that by (simp add: in_range_def)
      have wp: "cc_fill ?a 4096 (set_pool_map Kernel_pool m (hold ?l cur k)) = hold ?l cur (with_pages ?a 4096 m k)"
        using with_pages_hold[of ?a 4096 ?l m cur k] low desc_lock_low[OF D(8) i] by (simp add: with_pages_def)
      have go: "malloc_locked ?d (hold ?l cur k) = malloc_take ?d (hold ?l cur k1)"
        using em Nil run(1) k1(1) wp by (simp add: malloc_locked_def palloc_get_page_def)
      have "0 < class_blocks i" using class_bounds(3)[OF i] by simp
      then have bs: "(xs(i := bs)) i = block_at i ?a 0 # map (block_at i ?a) [1..<class_blocks i]"
        by (simp add: bs_def upt_conv_Cons)
      have keep: "keeps_used (in_use xs A) k k1"
      proof -
        have "words k1 q = words k q \<and> lheap k1 q = lheap k q" if u: "(b, c) \<in> in_use xs A" "in_range b c q" for b c q
        proof -
          note U = used_memory[OF al u]
          have run': "?a = page_at (kernel_pool k) x" "arena_size (Small i) = 4096 * 1" "0 < (1 :: nat)"
            "x + 1 \<le> page_cnt (kernel_pool k)" "{x..<x + 1} \<inter> used_bits (used_map (kernel_pool k)) = {}"
            using x by auto
          have "\<not> in_range ?a 4096 q" using U(4) fresh_run(6)[OF D(2,3) run', of _ _ q] by auto
          moreover have "q \<notin> set (nodes (free_list_of ?d) [])" by (rule U(5)[OF i]) simp
          ultimately show ?thesis using k1(7) by blast
        qed
        then show ?thesis unfolding keeps_used_def by blast
      qed
      have "malloc_outcome ms sz k L cur rs ts W xs A (malloc_take ?d (hold ?l cur k1))"
        by (rule take_outcome[OF al i fits k1(2) _ bs _ \<open>0 < class_blocks i\<close> refl k1(3) keep k1(4)])
          (use i m k1(6) in \<open>auto simp: pages_taken_def page_cnt_def intro!: exI[of _ x]\<close>)
      then show ?thesis using go by simp
    qed
  qed
qed

text \<open>A big block: the pages are rounded up from the size of the block and the header.\<close>

lemma round_up_pages:
  assumes "unat sz + 4107 < 2 ^ 32"
  defines "n \<equiv> DIV_ROUND_UP (sz + sizeof_arena) PGSIZE"
  shows "0 < n" "unat sz + 12 \<le> 4096 * unat n"
proof -
  have u: "unat (sz + of_nat 4107) = unat sz + 4107" by (rule unat_add_nat) (use assms in simp)
  have "n = (sz + of_nat 4107) div 0x1000" by (simp add: n_def DIV_ROUND_UP_def sizeof_arena_def PGSIZE_def add.commute)
  then have n: "unat n = (unat sz + 4107) div 4096" using u by (simp add: unat_div)
  show "unat sz + 12 \<le> 4096 * unat n" unfolding n by simp
  then show "0 < n" by (auto simp: word_gt_0)
qed

lemma malloc_big_outcome:
  assumes al: "allocator {} ms k L cur rs ts W xs A" and sz: "unat sz + 4107 < 2 ^ 32" "1024 < unat sz"
  defines "n \<equiv> DIV_ROUND_UP (sz + sizeof_arena) PGSIZE"
  shows "malloc_outcome ms sz k L cur rs ts W xs A
     (and_then (palloc_get_multiple 0 n k) (Malloc_big_tail n) (malloc_big_tail n))"
proof -
  note D = allocatorD[OF al] and R = round_up_pages[OF sz(1), folded n_def]
  from D(1,2) R(1) show ?thesis
  proof (cases rule: get_pages)
    case none
    then show ?thesis using sz(2) by (simp add: malloc_big_tail_def malloc_outcome_def pages_needed_def n_def)
  next
    case (run x m)
    let ?a = "page_at (kernel_pool k) x" and ?n = "unat n"
    have run': "?a = page_at (kernel_pool k) x" "arena_size (Big ?n) = 4096 * ?n" "0 < ?n"
      using R(1) by (auto simp: word_gt_0 unat_gt_0)
    have r: "Big ?n = Big ?n \<and> NULL = NULL \<and> n = of_nat ?n \<or>
       (\<exists>c < 7. Big ?n = Small c \<and> NULL = desc_of ms c \<and> n = 0)" by simp
    note F = fresh_run[OF D(2,3) run' run(2,3)]
    note new = new_arena[OF al run' run(2,3,5,4,6) r]
    define k' where "k' = with_header ?a NULL n (with_pages ?a (4096 * ?n) m k)"
    have go: "and_then (palloc_get_multiple 0 n k) (Malloc_big_tail n) (malloc_big_tail n) =
       Some (Done (?a + sizeof_arena), k')"
      using run(1) new(5) F(2) unfolding k'_def with_pages_def by (simp add: malloc_big_tail_def)
    have "unat (?a + of_nat 12) = unat ?a + 12" by (rule unat_add_nat) (use F(4) run'(3) in simp)
    then have nn: "?a + sizeof_arena \<noteq> NULL" using F(3) by (auto simp: sizeof_arena_def)
    have use: "in_use xs (A(?a \<mapsto> Big ?n)) = insert (?a + sizeof_arena, 4096 * ?n - 12) (in_use xs A)"
      and fresh: "(?a + sizeof_arena, 4096 * ?n - 12) \<notin> in_use xs A" using new(2,3) by auto
    have keep: "keeps_used (in_use xs A) k k'"
    proof -
      have "words k' q = words k q \<and> lheap k' q = lheap k q" if u: "(b, c) \<in> in_use xs A" "in_range b c q" for b c q
      proof -
        have "\<not> in_range ?a (4096 * ?n) q" using used_memory(4)[OF al u] F(6) by blast
        then show ?thesis using new(4) unfolding k'_def by blast
      qed
      then show ?thesis unfolding keeps_used_def by blast
    qed
    have al': "allocator {} ms k' L cur rs ts W xs (A(?a \<mapsto> Big ?n))" using new(1) unfolding k'_def .
    have quiet: "\<forall>q. in_range (?a + sizeof_arena) (4096 * ?n - 12) q \<longrightarrow> q \<notin> ll.owned L"
    proof (intro allI impI)
      fix q assume q: "in_range (?a + sizeof_arena) (4096 * ?n - 12) q"
      have "in_range ?a (arena_size (Big ?n)) q" by (rule slot_range(1)[OF F(1,4) _ q]) simp_all
      then show "q \<notin> ll.owned L" using F(5) by simp
    qed
    have fit: "unat sz \<le> 4096 * ?n - 12" using R(2) by linarith
    have "kernel_pool k' = (kernel_pool k)\<lparr>used_map := m\<rparr>" by (simp add: k'_def with_header_def with_pages_fields)
    then have pt: "pages_taken k k' (pages_needed sz)"
      using run(5,6) sz(2) by (auto simp: pages_taken_def page_cnt_def pages_needed_def n_def intro!: exI[of _ x])
    show ?thesis
      unfolding malloc_outcome_def go
      using pt nn fit al' use keep new(6) fresh quiet apart_new[OF al' fresh use] unfolding k'_def[symmetric]
      by (intro disjI2 exI conjI) (assumption | simp)+
  qed
qed

lemma malloc_outcome_holds:
  assumes al: "allocator {} ms k L cur rs ts W xs A" and sz: "unat sz + 4107 < 2 ^ 32"
  shows "malloc_outcome ms sz k L cur rs ts W xs A (malloc ms sz k)"
proof (cases "sz = 0")
  case True
  then show ?thesis by (simp add: malloc_def malloc_outcome_def)
next
  case False
  let ?i = "class_for (unat sz)"
  note D = allocatorD[OF al] note f = find_desc_eq[OF D(7), of sz]
  have c: "word_at k (desc_cnt_at ms) = Some 7" using desc_words(2)[OF D(7), of 0] by simp
  show ?thesis
  proof (cases "?i < 7")
    case True
    have "desc_of ms ?i \<noteq> desc_of ms 7"
      using unat_desc[OF D(8), of ?i] unat_desc[OF D(8), of 7] True by (auto simp: word_unat_eq_iff)
    then have "malloc ms sz k = malloc_locked (desc_of ms ?i) (hold (desc_lock (desc_of ms ?i)) cur k)"
      using False f c hold_acquire[OF D(1) heapD(3)[OF D(3) True]] by (simp add: malloc_def desc_of_end)
    then show ?thesis using malloc_locked_outcome[OF al True class_for_fits[OF True]] by simp
  next
    case i: False
    then have "?i = 7" by (auto simp: class_for_def split: if_splits) (metis (mono_tags, lifting) Least_le le_less_trans)
    then have "malloc ms sz k = and_then (palloc_get_multiple 0 (DIV_ROUND_UP (sz + sizeof_arena) PGSIZE) k)
        (Malloc_big_tail (DIV_ROUND_UP (sz + sizeof_arena) PGSIZE)) (malloc_big_tail (DIV_ROUND_UP (sz + sizeof_arena) PGSIZE))"
      using False f c by (simp add: malloc_def desc_of_end Let_def)
    moreover have "1024 < unat sz"
    proof (rule ccontr)
      assume "\<not> 1024 < unat sz"
      then have "unat sz \<le> class_size 6" by (simp add: class_size_def)
      then have "\<exists>i < 7. unat sz \<le> class_size i" by (intro exI[of _ 6]) simp
      moreover from \<open>unat sz \<le> class_size 6\<close> have "(LEAST i. unat sz \<le> class_size i) \<le> 6" by (rule Least_le)
      ultimately have "?i \<le> 6" by (simp add: class_for_def)
      then show False using i by simp
    qed
    ultimately show ?thesis using malloc_big_outcome[OF al sz] by simp
  qed
qed

end
