(* ===== verification/Kernel_Malloc_Free.thy ===== *)
theory Kernel_Malloc_Free
  imports Kernel_Malloc_Take
begin

text \<open>
  \<open>free\<close> of threads/malloc.c: the block is overwritten, put back on its free list, and when it was
  the last one in use the page of the arena is released; a big block is released at once.
\<close>

section \<open>Releasing pages\<close>

lemma unat_pg_no: "unat (pg_no p) = unat p div 4096"
  by (simp add: pg_no_def drop_bit_eq_div unat_div)

lemma page_at_index:
  assumes p: "pool_ok k L ts" and i: "i < page_cnt (kernel_pool k)"
  shows "page_from_pool (kernel_pool k) (page_at (kernel_pool k) i)"
    "unat (page_index (kernel_pool k) (page_at (kernel_pool k) i)) = i"
proof -
  let ?P = "kernel_pool k"
  note P = pool_okD[OF p]
  obtain b where b: "unat (base ?P) = 4096 * b" using aligned_page[OF P(4)] by (metis mod_0_imp_dvd dvdE)
  have u: "unat (page_at ?P i) = 4096 * (b + i)" using unat_page_at[OF p, of i] i b by simp
  have n: "unat (pg_no (base ?P)) = b" "unat (pg_no (page_at ?P i)) = b + i" by (simp_all add: unat_pg_no b u)
  have "unat (pg_no (base ?P) + bit_cnt (used_map ?P)) = b + page_cnt ?P"
    using n(1) P(6) b by (subst unat_add_lem[THEN iffD1]) (auto simp: page_cnt_def)
  then show "page_from_pool ?P (page_at ?P i)"
    using n i by (simp add: page_from_pool_def bitmap_size_def word_le_nat_alt word_less_nat_alt)
  have "pg_no (base ?P) \<le> pg_no (page_at ?P i)" using n by (simp add: word_le_nat_alt)
  then show "unat (page_index ?P (page_at ?P i)) = i" using n by (simp add: page_index_def unat_sub)
qed

lemma palloc_free_same_pool:
  assumes "kernel_pool k' = kernel_pool k" "user_pool k' = user_pool k"
    "poison p (unat (PGSIZE * n)) k' = poison p (unat (PGSIZE * n)) k" "p \<noteq> NULL" "n \<noteq> 0"
  shows "palloc_free_multiple p n k' = palloc_free_multiple p n k"
proof -
  have "pool_at q k' = pool_at q k" for q using assms(1,2) by (cases q) (simp_all add: pool_at_def)
  then show ?thesis using assms by (simp add: palloc_free_multiple_def)
qed

lemma poison_hold:
  assumes "\<not> in_range p n l" "\<not> in_range p n (semaphore_of l)"
  shows "poison p n (hold l c k) = hold l c (poison p n k)"
proof -
  have "(\<lambda>q. if in_range p n q then None else ((words k)(semaphore_of l \<mapsto> 0, l \<mapsto> c)) q) =
      (\<lambda>q. if in_range p n q then None else words k q)(semaphore_of l \<mapsto> 0, l \<mapsto> c)"
    using assms by (intro ext) (simp add: fun_upd_def)
  then show ?thesis by (simp add: poison_def hold_def cong: if_cong)
qed

lemma palloc_free_hold:
  assumes "\<not> in_range p (unat (PGSIZE * n)) l" "\<not> in_range p (unat (PGSIZE * n)) (semaphore_of l)"
  shows "palloc_free_multiple p n (hold l c k) = map_option (hold l c) (palloc_free_multiple p n k)"
  using assms
  by (simp add: palloc_free_multiple_def poison_hold Let_def option.map_comp comp_def map_option_bind
      split: bind_splits)

text \<open>The pages of an arena without free blocks, given back.\<close>

lemma release_pages:
  assumes al: "allocator E ms k L cur rs ts W xs A" and a: "A a = Some r" "arena_size r = 4096 * unat n"
    and used: "\<And>b c. (b, c) \<in> slots a r \<Longrightarrow> b \<notin> free_blocks xs"
    and own: "\<And>q. in_range a (arena_size r) q \<Longrightarrow> q \<notin> ll.owned L"
  shows "\<exists>k'. palloc_free_multiple a n k = Some k' \<and> allocator (E - {a}) ms k' L cur rs ts W xs (A(a := None)) \<and>
     in_use xs (A(a := None)) = in_use xs A - slots a r \<and>
     (\<forall>q. \<not> in_range a (arena_size r) q \<longrightarrow> words k' q = words k q \<and> lheap k' q = lheap k q \<and> threads k' q = threads k q)"
proof -
  let ?P = "kernel_pool k" and ?n = "unat n"
  note D = allocatorD[OF al] note F = arena_facts[OF D(2,3) a(1)] note P = pool_okD[OF D(2)]
  obtain i where i: "a = page_at ?P i" "i + ?n \<le> page_cnt ?P" "{i..<i + ?n} \<subseteq> used_bits (used_map ?P)"
    using heapD(5)[OF D(3) a(1)] a(2) unfolding arena_pages_def by auto
  have n0: "0 < n" "0 < ?n" using F(5) a(2) by (auto simp: word_gt_0)
  have ps: "unat (PGSIZE * n) = 4096 * ?n" by (rule unat_page_size) (use i(2) P(6) in simp)
  note ix = page_at_index[OF D(2), of i, folded i(1)]
  obtain m where m: "palloc_free_multiple a n k = Some (set_pool_map Kernel_pool m (poison a (4096 * ?n) k))"
      "bm_wf m" "bit_cnt m = bit_cnt (used_map ?P)" "used_bits m = used_bits (used_map ?P) - {i..<i + ?n}"
    using palloc_free_kernel[OF F(1,2) ix(1) n0(1) P(3)] ix(2) i(2,3) n0(2) ps by (auto simp: page_cnt_def)
  define k' where "k' = set_pool_map Kernel_pool m (poison a (4096 * ?n) k)"
  have kp: "kernel_pool k' = ?P\<lparr>used_map := m\<rparr>" by (simp add: k'_def set_pool_map_def poison_def)
  have out: "words k' q = words k q \<and> lheap k' q = lheap k q \<and> threads k' q = threads k q"
    if "\<not> in_range a (arena_size r) q" for q
    using that a(2) by (simp add: k'_def set_pool_map_def poison_def)
  note rm = heap_remove[OF D(2,3) a(1) used i(1) a(2) i(2) kp m(3,4)]
  have hp: "heap (E - {a}) ms k' L ts xs (A(a := None))" and use: "in_use xs (A(a := None)) = in_use xs A - slots a r"
    using rm out a(2) by auto
  have triv: "L = L(free_list_of (desc_of ms 0) \<mapsto> xs 0)"
    using fun_upd_idem[of L "free_list_of (desc_of ms 0)" "Some (xs 0)"] heapD(2)[OF D(3), of 0] by simp
  have "allocator (E - {a}) ms k' L cur rs ts W xs (A(a := None))"
  proof (rule allocator_step[OF al, where m = m and h' = "lheap k'" and th' = "threads k'" and w' = "words k'"
        and X = "{}" and i = 0, OF _ _ m(3,2) _ triv])
    show "k' = set_pool_map Kernel_pool m (k\<lparr>lheap := lheap k', threads := threads k', words := words k'\<rparr>)"
      by (simp add: k'_def set_pool_map_def poison_def cong: if_cong)
    show "words k' q = words k q" if "unat q < 0x40000" for q
      using out[of q] that F(3) by (auto simp: in_range_def)
    show "ll.family (lheap k') L"
      by (rule family_dlist_cong[OF free_list_family(2)[OF al, of 0]]) (use out own in auto)
    show "threads k' t = threads k t" if "t \<in> set ts" for t
      using out[of t] elem_not_in_arena(3)[OF al a(1) that] by simp
    show "p \<in> dom (lheap k')" if "t \<in> set ts" "p \<in> {elem_of t, allelem_of t}" "p \<in> dom (lheap k)" for t p
      using out[of p] elem_not_in_arena(1,2)[OF al a(1) that(1)] that(2,3) by (auto simp: dom_def)
    show "\<not> in_range (page_at ?P j) 4096 q"
      if "j < page_cnt ?P" "j \<notin> used_bits m" "q \<in> ll.owned L \<union> set ts" for j q
    proof (cases "j \<in> {i..<i + ?n}")
      case True
      have "\<not> in_range a (arena_size r) q" using that(3) own elem_not_in_arena(3)[OF al a(1)] by blast
      moreover have "in_range a (arena_size r) q" if "in_range (page_at ?P j) 4096 q"
        using that True i(2) unat_page_at[OF D(2), of i] unat_page_at[OF D(2), of j] unfolding i(1) a(2)
        by (auto simp: in_range_def)
      ultimately show ?thesis by blast
    next
      case False
      then show ?thesis using pool_okD(7)[OF D(2) that(1) _ that(3)] that(2) m(4) by blast
    qed
  qed (use hp in auto)
  then show ?thesis using m(1) use out unfolding k'_def by blast
qed

section \<open>Putting a block back\<close>

lemma put_block:
  assumes al: "allocator {} ms k L cur rs ts W xs A" and a: "A a = Some (Small i)" and j: "j < class_blocks i"
    and b: "b = block_at i a j" "b \<notin> free_blocks xs"
    and own: "\<And>q. in_range b (class_size i) q \<Longrightarrow> q \<notin> ll.owned L"
    and f: "words k (free_cnt_at a) = Some f"
  shows "\<exists>h'. list_push_front (lheap k) (free_list_of (desc_of ms i)) b = Some h' \<and>
     allocator {a} ms (k\<lparr>lheap := h', words := (words k)(free_cnt_at a \<mapsto> f + 1)\<rparr>)
       (L(free_list_of (desc_of ms i) \<mapsto> b # xs i)) cur rs ts W (xs(i := b # xs i)) A \<and>
     in_use (xs(i := b # xs i)) A = in_use xs A - {(b, class_size i)} \<and>
     free_count (xs(i := b # xs i)) i a = Suc (free_count xs i a) \<and>
     modifies (lheap k) h' (insert b (set (nodes (free_list_of (desc_of ms i)) (xs i))))"
proof -
  let ?fl = "free_list_of (desc_of ms i)"
  let ?L = "L(?fl \<mapsto> b # xs i)" and ?xs = "xs(i := b # xs i)"
  note D = allocatorD[OF al] note F = arena_facts[OF D(2,3) a]
  have i: "i < 7" by (rule F(6)) simp
  note N = free_list_family[OF al i] and B = block_in_arena[OF al a j]
  have s: "(b, class_size i) \<in> slots a (Small i)" using j b(1) by simp
  have nb: "b \<notin> ll.owned L" using own slot_self(1)[OF s] i by simp
  have v: "valid (lheap k) b" using heapD(7)[OF D(3) a] B b(1) by (auto simp: valid_def arena_memory_def)
  obtain h' where h': "list_push_front (lheap k) ?fl b = Some h'" "dlist h' ?fl (b # xs i)"
      "modifies (lheap k) h' (insert b (set (nodes ?fl (xs i))))"
    using list_push_front_dlist[OF N(1) v] nb ll.ownedI[of L ?fl "xs i" b] N(3) by blast
  have fam: "ll.family h' ?L"
    by (rule ll.family_update[OF N(2,3) h'(2,3), of "{b}"]) (use nb in \<open>auto simp: set_nodes\<close>)
  have sub: "ll.owned ?L \<subseteq> ll.owned L \<union> {b}"
    using owned_change[of L ?fl "xs i" "b # xs i" "{b}"] N(3) by auto
  let ?k = "k\<lparr>lheap := h', words := (words k)(free_cnt_at a \<mapsto> f + 1)\<rparr>"
  have put: "heap (insert a {}) ms ?k ?L ts ?xs A" "in_use ?xs A = in_use xs A - {(b, class_size i)}"
     "free_count ?xs i a = Suc (free_count xs i a)"
    by (rule heap_put[OF D(2,3) a j b _ _ f, where k' = ?k]; use own h'(3) in \<open>auto simp: modifies_def\<close>)+
  have fc: "0x40000 \<le> unat (free_cnt_at a)" using header_at(2)[OF F(1)] F(3) by simp
  have "allocator {a} ms ?k ?L cur rs ts W ?xs A"
  proof (rule allocator_step[OF al i, where m = "used_map (kernel_pool k)" and h' = h' and th' = "threads k"
        and w' = "(words k)(free_cnt_at a \<mapsto> f + 1)" and X = "{b}"])
    show "?k = set_pool_map Kernel_pool (used_map (kernel_pool k))
        (k\<lparr>lheap := h', threads := threads k, words := (words k)(free_cnt_at a \<mapsto> f + 1)\<rparr>)"
      by (simp add: set_pool_map_def)
    show "elem_of t \<notin> {b}" if t: "t \<in> set ts" for t
      using elem_not_in_arena(1)[OF al a t] B(1) b(1) by auto
    show "\<not> in_range (page_at (kernel_pool k) m) 4096 q" if m: "m < page_cnt (kernel_pool k)"
      "m \<notin> used_bits (used_map (kernel_pool k))" "q \<in> ll.owned ?L \<union> set ts" for m q
    proof (cases "q = b")
      case True
      show ?thesis unfolding True b(1)
        by (rule arena_page_used[OF D(2,3) a _ m(1,2)]) (use B(1) in simp)
    next
      case False
      then show ?thesis using pool_okD(7)[OF D(2) m(1,2), of q] m(3) sub by blast
    qed
    show "bm_wf (used_map (kernel_pool k))" by (rule pool_okD(3)[OF D(2)])
    show "((words k)(free_cnt_at a \<mapsto> f + 1)) q = words k q" if "unat q < 0x40000" for q using that fc by auto
    show "p \<in> dom h'" if "p \<in> dom (lheap k)" for p using that h'(3) by (simp add: modifies_def)
  qed (use fam sub put(1) in auto)
  then show ?thesis using h'(1,3) put(2,3) by blast
qed

text \<open>An arena that has a block in use needs no exception.\<close>

lemma allocator_shrink:
  assumes al: "allocator {a} ms k L cur rs ts W xs A" and a: "A a = Some (Small i)" "free_count xs i a < class_blocks i"
  shows "allocator {} ms k L cur rs ts W xs A"
proof -
  have "arena_header {} ms (words k) xs a' r" if a': "A a' = Some r" for a' r
    using heapD(6)[OF allocatorD(3)[OF al] a'] a a' by (cases r) (auto simp: arena_header_def)
  then show ?thesis using al unfolding allocator_def heap_def by auto
qed

section \<open>Releasing an arena\<close>

text \<open>The blocks of an arena without blocks in use leave the free list.\<close>

lemma empty_arena:
  assumes al: "allocator {a} ms k L cur rs ts W xs A" and a: "A a = Some (Small i)"
    and all: "\<And>j. j < class_blocks i \<Longrightarrow> block_at i a j \<in> free_blocks xs"
    and ys: "ys = filter (\<lambda>b. b \<notin> block_at i a ` {0..<class_blocks i}) (xs i)"
    and h': "dlist h' (free_list_of (desc_of ms i)) ys" "modifies (lheap k) h' (set (nodes (free_list_of (desc_of ms i)) (xs i)))"
  defines "k' \<equiv> k\<lparr>lheap := h', words := (words k)(free_cnt_at a \<mapsto> 0)\<rparr>"
    and "L' \<equiv> L(free_list_of (desc_of ms i) \<mapsto> ys)" and "xs' \<equiv> xs(i := ys)"
  shows "allocator {} ms k' L' cur rs ts W xs' A" "\<And>b c. (b, c) \<in> slots a (Small i) \<Longrightarrow> b \<notin> free_blocks xs'"
    "\<And>q. in_range a 4096 q \<Longrightarrow> q \<notin> ll.owned L'" "in_use xs' A - slots a (Small i) = in_use xs A"
proof -
  let ?fl = "free_list_of (desc_of ms i)" and ?B = "block_at i a ` {0..<class_blocks i}"
  note D = allocatorD[OF al] note F = arena_facts[OF D(2,3) a]
  have i: "i < 7" by (rule F(6)) simp
  note N = free_list_family[OF al i] and B = block_in_arena[OF al a]
  have fam: "ll.family h' L'" unfolding L'_def
    by (rule ll.family_update[OF N(2,3) h', of "{}"]) (auto simp: ys set_nodes)
  have sub: "ll.owned L' \<subseteq> ll.owned L"
    using owned_change[of L ?fl "xs i" ys "{}"] N(3) unfolding L'_def ys by auto
  have fb: "free_blocks xs' = free_blocks xs - ?B"
  proof -
    have "(\<Union>m \<in> {0..<7} - {i}. set (xs m)) \<inter> ?B = {}"
      using not_in_other_list[OF D(2,3) a] by fastforce
    then show ?thesis unfolding xs'_def free_blocks_upd[OF i] free_blocks_split[OF i, of xs] ys by auto
  qed
  then show nofree: "b \<notin> free_blocks xs'" if "(b, c) \<in> slots a (Small i)" for b c using that by auto
  have slot: "z \<in> slots a (Small i)" if z: "A a' = Some r'" "z \<in> slots a' r'" "fst z \<in> ?B" for z a' r'
  proof -
    have s: "(fst z, class_size i) \<in> slots a (Small i)" using z(3) by auto
    have "(fst z, snd z) \<in> slots a' r'" using z(2) by simp
    from slot_capacity(2)[OF D(2,3) a s z(1) this] show ?thesis using s by (metis prod.collapse)
  qed
  show "in_use xs' A - slots a (Small i) = in_use xs A"
  proof (intro set_eqI iffI)
    fix z assume z: "z \<in> in_use xs' A - slots a (Small i)"
    then obtain a' r' where s: "fst z \<notin> free_blocks xs'" "A a' = Some r'" "z \<in> slots a' r'" unfolding in_use_def by auto
    have "fst z \<notin> ?B" using slot[OF s(2,3)] z by blast
    then have "fst z \<notin> free_blocks xs" using s(1) fb by blast
    then show "z \<in> in_use xs A" using s(2,3) unfolding in_use_def by auto
  next
    fix z assume "z \<in> in_use xs A"
    then obtain a' r' where z: "fst z \<notin> free_blocks xs" "A a' = Some r'" "z \<in> slots a' r'" unfolding in_use_def by auto
    have "z \<notin> slots a (Small i)" using z(1) all by auto
    moreover have "fst z \<notin> free_blocks xs'" using z(1) fb by blast
    then have "z \<in> in_use xs' A" using z(2,3) unfolding in_use_def by auto
    ultimately show "z \<in> in_use xs' A - slots a (Small i)" by blast
  qed
  show out: "q \<notin> ll.owned L'" if q: "in_range a 4096 q" for q
  proof
    assume o: "q \<in> ll.owned L'"
    then have "q \<in> ll.owned L" using sub by blast
    then obtain b c where b: "(b, c) \<in> slots a (Small i)" "b \<in> free_blocks xs \<longrightarrow> q = b"
      using heapD(7)[OF D(3) a] q unfolding arena_memory_def arena_size.simps by blast
    then have qB: "q \<in> ?B" using all by auto
    obtain l zs where l: "L' l = Some zs" "q \<in> set (nodes l zs)" using o by (rule ll.ownedE)
    have foot: "q \<in> set (nodes ?fl (xs i))"
    proof -
      obtain j where j: "j < class_blocks i" "q = block_at i a j" using qB by auto
      have "q \<in> set (xs i)" unfolding j(2) by (rule free_block_list[OF D(2,3) a j(1) all[OF j(1)]])
      then show ?thesis by (simp add: set_nodes)
    qed
    show False
    proof (cases "l = ?fl")
      case True
      then have "zs = ys" using l(1) by (simp add: L'_def)
      then have "q \<in> {head_of ?fl, tail_of ?fl}" using l(2) True qB by (auto simp: ys set_nodes)
      then have "unat q < 0x40000" by (rule free_list_low[OF D(8) i])
      then show False using q F(3) by (simp add: in_range_def)
    next
      case False
      then have Ll: "L l = Some zs" using l(1) by (simp add: L'_def)
      show False using ll.familyD(2)[OF N(2,3) Ll] False foot l(2) by blast
    qed
  qed
  have cnt: "free_count xs' i a = 0"
  proof -
    have "{j. j < class_blocks i \<and> block_at i a j \<in> free_blocks xs'} = {}" using fb by auto
    then show ?thesis by (simp add: free_count_def)
  qed
  have hp: "heap {} ms k' L' ts xs' A"
  proof (rule heap_in_arena[OF D(2,3) a L'_def[THEN meta_eq_to_obj_eq] xs'_def[THEN meta_eq_to_obj_eq], where X = "{}"])
    show "words k' (free_cnt_at a) = Some (of_nat (free_count xs' i a))" by (simp add: k'_def cnt)
    show "free_count xs' i a < class_blocks i" using cnt class_bounds(3)[OF i] by simp
    show "\<exists>b c. (b, c) \<in> slots a (Small i) \<and> in_range b c q \<and> (b \<in> free_blocks xs' \<longrightarrow> q = b)"
      if "in_range a 4096 q" "q \<in> ll.owned L'" for q using out that by blast
  qed (use h'(2) in \<open>auto simp: k'_def modifies_def ys\<close>)
  have fc: "0x40000 \<le> unat (free_cnt_at a)" using header_at(2)[OF F(1)] F(3) by simp
  show "allocator {} ms k' L' cur rs ts W xs' A"
  proof (rule allocator_step[OF al i, where m = "used_map (kernel_pool k)" and h' = h' and th' = "threads k"
        and w' = "words k'" and X = "{}", OF _ _ _ _ L'_def[THEN meta_eq_to_obj_eq]])
    show "k' = set_pool_map Kernel_pool (used_map (kernel_pool k)) (k\<lparr>lheap := h', threads := threads k, words := words k'\<rparr>)"
      by (simp add: k'_def set_pool_map_def)
    show "\<not> in_range (page_at (kernel_pool k) m) 4096 q" if "m < page_cnt (kernel_pool k)"
      "m \<notin> used_bits (used_map (kernel_pool k))" "q \<in> ll.owned L' \<union> set ts" for m q
      using pool_okD(7)[OF D(2) that(1,2), of q] that(3) sub by blast
    show "bm_wf (used_map (kernel_pool k))" by (rule pool_okD(3)[OF D(2)])
    show "words k' q = words k q" if "unat q < 0x40000" for q using that fc by (auto simp: k'_def)
    show "p \<in> dom h'" if "p \<in> dom (lheap k)" for p using that h'(2) by (simp add: modifies_def)
  qed (use fam sub hp in auto)
qed

text \<open>The last part of \<open>free\<close>: an arena without blocks in use goes back to the page allocator.\<close>

lemma release_arena:
  assumes al: "allocator {a} ms k L cur rs ts W xs A" and a: "A a = Some (Small i)"
    and all: "free_count xs i a = class_blocks i"
  defines "d \<equiv> desc_of ms i" and "ys \<equiv> filter (\<lambda>b. b \<notin> block_at i a ` {0..<class_blocks i}) (xs i)"
  shows "\<exists>k1 k'. remove_blocks d a 0 (hold (desc_lock d) cur k) = Some (hold (desc_lock d) cur k1) \<and>
     palloc_free_page a (hold (desc_lock d) cur k1) = Some (hold (desc_lock d) cur k') \<and>
     allocator {} ms k' (L(free_list_of d \<mapsto> ys)) cur rs ts W (xs(i := ys)) (A(a := None)) \<and>
     in_use (xs(i := ys)) (A(a := None)) = in_use xs A \<and>
     (\<forall>q. \<not> in_range a 4096 q \<longrightarrow> words k' q = words k q \<and> threads k' q = threads k q \<and>
        (q \<notin> set (nodes (free_list_of d) (xs i)) \<longrightarrow> lheap k' q = lheap k q))"
proof -
  let ?fl = "free_list_of d" and ?l = "desc_lock d"
  note D = allocatorD[OF al] note F = arena_facts[OF D(2,3) a]
  have i: "i < 7" by (rule F(6)) simp
  note N = free_list_family[OF al i, folded d_def]
  have blk: "block_at i a j \<in> free_blocks xs" if j: "j < class_blocks i" for j
  proof -
    let ?J = "{j. j < class_blocks i \<and> block_at i a j \<in> free_blocks xs}"
    have "?J = {..<class_blocks i}"
      by (rule card_subset_eq) (use all in \<open>auto simp: free_count_def\<close>)
    then show ?thesis using j by blast
  qed
  have ar: "arena_of ms (hold ?l cur k) i a"
    unfolding d_def by (rule arena_of_hold[OF D(8) i arena_of_heap[OF D(2,3) a] F(3)])
  have "\<exists>h'. remove_blocks (desc_of ms i) a (of_nat 0) ((hold ?l cur k)\<lparr>lheap := lheap k\<rparr>) =
        Some ((hold ?l cur k)\<lparr>lheap := h'\<rparr>) \<and>
     dlist h' (free_list_of (desc_of ms i)) (filter (\<lambda>b. b \<notin> block_at i a ` {0..<class_blocks i}) (xs i)) \<and>
     modifies (lheap k) h' (set (nodes (free_list_of (desc_of ms i)) (xs i)))"
  proof (rule remove_blocks_eq[OF _ ar])
    show "descs_ok ms (hold ?l cur k)" unfolding d_def by (rule descs_ok_hold[OF D(7) i])
    show "block_at i a m \<in> set (xs i)" if "m < class_blocks i" for m
      by (rule free_block_list[OF D(2,3) a that blk[OF that]])
  qed (use N(1) in \<open>auto simp: d_def\<close>)
  then obtain h' where h': "remove_blocks d a 0 (hold ?l cur k) = Some (hold ?l cur (k\<lparr>lheap := h'\<rparr>))"
     "dlist h' ?fl ys" "modifies (lheap k) h' (set (nodes ?fl (xs i)))"
    by (auto simp: d_def ys_def)
  define k1 where "k1 = k\<lparr>lheap := h'\<rparr>"
  define k2 where "k2 = k\<lparr>lheap := h', words := (words k)(free_cnt_at a \<mapsto> 0)\<rparr>"
  note em = empty_arena[OF al a blk ys_def[THEN meta_eq_to_obj_eq] h'(2,3)[unfolded d_def], folded k2_def d_def]
  have one: "arena_size (Small i) = 4096 * unat (1 :: size_t)" by simp
  have used: "\<And>b c. (b, c) \<in> slots a (Small i) \<Longrightarrow> b \<notin> free_blocks (xs(i := ys))" by (rule em(2))
  have out: "\<And>q. in_range a (arena_size (Small i)) q \<Longrightarrow> q \<notin> ll.owned (L(?fl \<mapsto> ys))" using em(3) by simp
  obtain k' where k': "palloc_free_multiple a 1 k2 = Some k'"
     "allocator ({} - {a}) ms k' (L(?fl \<mapsto> ys)) cur rs ts W (xs(i := ys)) (A(a := None))"
     "in_use (xs(i := ys)) (A(a := None)) = in_use (xs(i := ys)) A - slots a (Small i)"
     "\<And>q. \<not> in_range a 4096 q \<Longrightarrow> words k' q = words k2 q \<and> lheap k' q = lheap k2 q \<and> threads k' q = threads k2 q"
  proof -
    have "\<exists>k'. palloc_free_multiple a 1 k2 = Some k' \<and>
      allocator ({} - {a}) ms k' (L(?fl \<mapsto> ys)) cur rs ts W (xs(i := ys)) (A(a := None)) \<and>
      in_use (xs(i := ys)) (A(a := None)) = in_use (xs(i := ys)) A - slots a (Small i) \<and>
      (\<forall>q. \<not> in_range a (arena_size (Small i)) q \<longrightarrow>
         words k' q = words k2 q \<and> lheap k' q = lheap k2 q \<and> threads k' q = threads k2 q)"
      by (rule release_pages[OF em(1) a one]) (assumption, erule used, erule out)
    then show thesis using that unfolding arena_size.simps by blast
  qed
  have fcr: "in_range a 4096 (free_cnt_at a)" using header_at(2)[OF F(1)] by (simp add: in_range_def)
  have ps: "unat (PGSIZE * 1) = 4096" by (simp add: PGSIZE_def)
  have "palloc_free_multiple a 1 k1 = palloc_free_multiple a 1 k2"
  proof (rule palloc_free_same_pool)
    have "(\<lambda>q. if in_range a 4096 q then None else words k q) =
      (\<lambda>q. if in_range a 4096 q then None else ((words k)(free_cnt_at a \<mapsto> 0)) q)"
      using fcr by (intro ext) simp
    then show "poison a (unat (PGSIZE * 1)) k1 = poison a (unat (PGSIZE * 1)) k2"
      unfolding ps by (simp add: poison_def k1_def k2_def cong: if_cong)
  qed (use F(2) in \<open>auto simp: k1_def k2_def\<close>)
  moreover have "\<not> in_range a 4096 ?l" "\<not> in_range a 4096 (semaphore_of ?l)"
    using desc_lock_low[OF D(8) i] F(3) by (auto simp: d_def in_range_def)
  ultimately have "palloc_free_page a (hold ?l cur k1) = Some (hold ?l cur k')"
    using palloc_free_hold[of a 1 ?l cur k1] k'(1) unfolding ps by (simp add: palloc_free_page_def)
  moreover have "words k' q = words k q \<and> threads k' q = threads k q \<and> (q \<notin> set (nodes ?fl (xs i)) \<longrightarrow> lheap k' q = lheap k q)"
    if "\<not> in_range a 4096 q" for q
    using k'(4)[OF that] h'(3) that fcr by (auto simp: k2_def modifies_def)
  moreover have "in_use (xs(i := ys)) (A(a := None)) = in_use xs A" using k'(3) em(4) by simp
  ultimately show ?thesis using h'(1) k'(2) unfolding k1_def[symmetric] by auto
qed

section \<open>free\<close>

definition free_outcome ::
  "malloc_statics \<Rightarrow> kernel \<Rightarrow> (addr \<rightharpoonup> addr list) \<Rightarrow> addr \<Rightarrow> addr list \<Rightarrow> addr list \<Rightarrow> addr set \<Rightarrow>
   (addr \<times> nat) set \<Rightarrow> (outcome \<times> kernel) option \<Rightarrow> bool" where
  "free_outcome ms k L cur rs ts W U res \<longleftrightarrow>
     (\<exists>k' L' xs' A'. res = Some (Done 0, k') \<and> allocator {} ms k' L' cur rs ts W xs' A' \<and> in_use xs' A' = U \<and>
        keeps_used U k k' \<and> (\<forall>t \<in> set ts. threads k' t = threads k t) \<and>
        (\<forall>l. l \<notin> (\<lambda>i. free_list_of (desc_of ms i)) ` {0..<7} \<longrightarrow> L' l = L l))"

lemma keeps_used_trans: "keeps_used U k k1 \<Longrightarrow> keeps_used U k1 k2 \<Longrightarrow> keeps_used U k k2"
  unfolding keeps_used_def by fastforce

lemma free_outcome_after:
  assumes "free_outcome ms k1 L cur rs ts W U res" "keeps_used U k k1" "threads k1 = threads k"
  shows "free_outcome ms k L cur rs ts W U res"
proof -
  obtain k' L' xs' A' where k': "res = Some (Done 0, k')" "allocator {} ms k' L' cur rs ts W xs' A'" "in_use xs' A' = U"
     "keeps_used U k1 k'" "\<forall>t \<in> set ts. threads k' t = threads k1 t"
     "\<forall>l. l \<notin> (\<lambda>i. free_list_of (desc_of ms i)) ` {0..<7} \<longrightarrow> L' l = L l"
    using assms(1) unfolding free_outcome_def by blast
  have "keeps_used U k k'" by (rule keeps_used_trans[OF assms(2) k'(4)])
  then show ?thesis using k' assms(3) unfolding free_outcome_def by metis
qed

text \<open>The header of an arena, read back through a state that holds the lock of its descriptor.\<close>

lemma arena_words:
  assumes al: "allocator E ms k L cur rs ts W xs A" and a: "A a = Some (Small i)"
  shows "word_at k (desc_at a) = Some (desc_of ms i)" "word_at k (free_cnt_at a) = Some (of_nat (free_count xs i a))"
    "i < 7" "arena_of ms k i a" "pg_ofs a = 0" "0x40000 \<le> unat a"
    "0x40000 \<le> unat (desc_at a)" "0x40000 \<le> unat (free_cnt_at a)" "free_cnt_at a \<noteq> NULL"
proof -
  note D = allocatorD[OF al] note F = arena_facts[OF D(2,3) a] and H = header_at[OF arena_facts(1)[OF D(2,3) a]]
  show ar: "arena_of ms k i a" by (rule arena_of_heap[OF D(2,3) a])
  show "i < 7" by (rule F(6)) simp
  show "pg_ofs a = 0" "0x40000 \<le> unat a" by (rule F(1), rule F(3))
  show hi: "0x40000 \<le> unat (desc_at a)" "0x40000 \<le> unat (free_cnt_at a)" using H F(3) by simp_all
  then have "desc_at a \<noteq> NULL" by auto
  show "free_cnt_at a \<noteq> NULL" using hi by auto
  then show "word_at k (desc_at a) = Some (desc_of ms i)" "word_at k (free_cnt_at a) = Some (of_nat (free_count xs i a))"
    using heapD(6)[OF D(3) a] \<open>desc_at a \<noteq> NULL\<close> by (auto simp: arena_header_def word_at_def)
qed

lemma free_locked_outcome:
  assumes al: "allocator {} ms k L cur rs ts W xs A" and a: "A a = Some (Small i)" and j: "j < class_blocks i"
    and p: "p = block_at i a j" "p \<notin> free_blocks xs" and own: "\<And>q. in_range p (class_size i) q \<Longrightarrow> q \<notin> ll.owned L"
  shows "free_outcome ms k L cur rs ts W (in_use xs A - {(p, class_size i)})
     (free_locked p (hold (desc_lock (desc_of ms i)) cur k))"
proof -
  let ?d = "desc_of ms i" let ?l = "desc_lock ?d" let ?fl = "free_list_of ?d"
  let ?xs = "xs(i := p # xs i)" and ?L = "L(?fl \<mapsto> p # xs i)" and ?U = "in_use xs A - {(p, class_size i)}"
  note D = allocatorD[OF al] and wd = arena_words[OF al a] note i = wd(3)
  let ?f = "of_nat (free_count xs i a) :: size_t"
  have f: "words k (free_cnt_at a) = Some ?f" using wd(2,9) by (simp add: word_at_def)
  obtain h' where h': "list_push_front (lheap k) ?fl p = Some h'"
     "allocator {a} ms (k\<lparr>lheap := h', words := (words k)(free_cnt_at a \<mapsto> ?f + 1)\<rparr>) ?L cur rs ts W ?xs A"
     "in_use ?xs A = ?U" "free_count ?xs i a = Suc (free_count xs i a)"
     "modifies (lheap k) h' (insert p (set (nodes ?fl (xs i))))"
    using put_block[OF al a j p own f] by blast
  define k2 where "k2 = k\<lparr>lheap := h', words := (words k)(free_cnt_at a \<mapsto> ?f + 1)\<rparr>"
  note al2 = h'(2)[folded k2_def]
  have lt: "free_count xs i a < class_blocks i" using heapD(6)[OF D(3) a] by (simp add: arena_header_def)
  have n: "unat (?f + 1) = Suc (free_count xs i a)" "unat (of_nat (class_blocks i) :: size_t) = class_blocks i"
  proof -
    have "unat (of_nat (Suc (free_count xs i a)) :: size_t) = Suc (free_count xs i a)"
      using lt class_bounds(4)[OF i] by (intro unat_of_nat_small) simp
    then show "unat (?f + 1) = Suc (free_count xs i a)" by (simp add: add.commute)
    show "unat (of_nat (class_blocks i) :: size_t) = class_blocks i"
      using class_bounds(4)[OF i] by (intro unat_of_nat_small) simp
  qed
  have keep2: "keeps_used ?U k k2"
  proof -
    have "words k2 q = words k q \<and> lheap k2 q = lheap k q" if u: "(b, c) \<in> ?U" "in_range b c q" for b c q
    proof -
      note V = used_memory[OF al2, of b c q, unfolded h'(3), OF u]
      have "in_range a 12 (free_cnt_at a)" using header_at(2)[OF wd(5)] by (simp add: in_range_def)
      then have "q \<noteq> free_cnt_at a" using V(2)[OF a] by blast
      moreover have "set (p # xs i) \<subseteq> free_blocks ?xs" unfolding free_blocks_upd[OF i] by auto
      then have "q \<notin> set (nodes ?fl (p # xs i))" by (rule V(5)[OF i])
      ultimately show ?thesis using h'(5) by (auto simp: k2_def modifies_def set_nodes)
    qed
    then show ?thesis unfolding keeps_used_def by blast
  qed
  have b2a: "block_to_arena p (hold ?l cur k) = Some a"
    unfolding p(1) by (rule block_to_arena_eq[OF descs_ok_hold[OF D(7) i] arena_of_hold[OF D(8) i wd(4,6)] j])
  have w2: "word_at (hold ?l cur k) (desc_at a) = Some ?d" "word_at (hold ?l cur (k\<lparr>lheap := h'\<rparr>)) (free_cnt_at a) = Some ?f"
    "word_at (hold ?l cur k2) (?d + 4) = Some (of_nat (class_blocks i))"
    using wd high_not_lock[OF D(8) i wd(7)] high_not_lock[OF D(8) i wd(8)] desc_words(4)[OF allocatorD(7)[OF al2] i]
      table_not_lock(3,4)[OF D(8) i i] by simp_all
  have s2: "set_word (free_cnt_at a) (?f + 1) (hold ?l cur (k\<lparr>lheap := h'\<rparr>)) = Some (hold ?l cur k2)"
  proof -
    have "set_word (free_cnt_at a) (?f + 1) (k\<lparr>lheap := h'\<rparr>) = Some k2"
      using wd(9) f by (simp add: set_word_def k2_def)
    then show ?thesis using high_not_lock[OF D(8) i wd(8)] by simp
  qed
  have pre: "free_locked p (hold ?l cur k) = do {
     k \<leftarrow> (if Suc (free_count xs i a) = class_blocks i then do {
             k \<leftarrow> remove_blocks ?d a 0 (hold ?l cur k2);
             palloc_free_page a k }
          else Some (hold ?l cur k2));
     k \<leftarrow> lock_release ?l k;
     Some (Done 0, k) }"
  proof -
    have "(?f + 1 \<ge> of_nat (class_blocks i)) = (Suc (free_count xs i a) = class_blocks i)"
      "Suc (free_count xs i a) = class_blocks i \<Longrightarrow> ?f + 1 = of_nat (class_blocks i)"
      using n lt by (auto simp: word_le_nat_alt word_unat_eq_iff)
    then show ?thesis using b2a w2 s2 h'(1) by (auto simp: free_locked_def on_lists_def)
  qed
  show ?thesis
  proof (cases "Suc (free_count xs i a) = class_blocks i")
    case False
    have "free_count ?xs i a < class_blocks i" using h'(4) lt False by simp
    from allocator_shrink[OF al2 a this] have al3: "allocator {} ms k2 ?L cur rs ts W ?xs A" .
    have "free_locked p (hold ?l cur k) = Some (Done 0, k2)"
      using pre False hold_release[OF allocatorD(1)[OF al3] heapD(3)[OF allocatorD(3)[OF al3] i]] by simp
    moreover have "\<forall>t \<in> set ts. threads k2 t = threads k t" by (simp add: k2_def)
    ultimately show ?thesis
      unfolding free_outcome_def using al3 h'(3) keep2 i by (intro exI conjI) (assumption | simp | force)+
  next
    case True
    have full: "free_count ?xs i a = class_blocks i" using h'(4) True by simp
    obtain ys k3 k' where k': "remove_blocks ?d a 0 (hold ?l cur k2) = Some (hold ?l cur k3)"
       "palloc_free_page a (hold ?l cur k3) = Some (hold ?l cur k')"
       "allocator {} ms k' (?L(?fl \<mapsto> ys)) cur rs ts W (?xs(i := ys)) (A(a := None))"
       "in_use (?xs(i := ys)) (A(a := None)) = in_use ?xs A"
       "\<And>q. \<not> in_range a 4096 q \<Longrightarrow> words k' q = words k2 q \<and> threads k' q = threads k2 q \<and>
          (q \<notin> set (nodes ?fl (?xs i)) \<longrightarrow> lheap k' q = lheap k2 q)"
      using release_arena[OF al2 a full] by blast
    have "free_locked p (hold ?l cur k) = Some (Done 0, k')"
      using pre True k'(1,2) hold_release[OF allocatorD(1)[OF k'(3)] heapD(3)[OF allocatorD(3)[OF k'(3)] i]] by simp
    moreover have "threads k' t = threads k t" if "t \<in> set ts" for t
      using k'(5)[of t] elem_not_in_arena(3)[OF al a that] by (simp add: k2_def)
    moreover have "keeps_used ?U k k'"
    proof -
      have "words k' q = words k q \<and> lheap k' q = lheap k q" if u: "(b, c) \<in> ?U" "in_range b c q" for b c q
      proof -
        note V = used_memory[OF al2, of b c q, unfolded h'(3), OF u]
        note V' = used_memory[OF k'(3), of b c q, unfolded k'(4) h'(3), OF u]
        have "q \<notin> set (nodes ?fl (?xs i))"
          by (rule V(5)[OF i]) (auto simp: free_blocks_upd[OF i])
        moreover have "\<not> in_range a 4096 q"
        proof
          assume q: "in_range a 4096 q"
          obtain a' r where r: "(A(a := None)) a' = Some r" "in_range a' (arena_size r) q" using V'(4) by blast
          then have "A a' = Some r" "a' \<noteq> a" by (auto split: if_splits)
          then show False using heapD(8)[OF D(3) a, of a' r q] q r(2) by simp
        qed
        ultimately show ?thesis using k'(5) keep2 u unfolding keeps_used_def by fastforce
      qed
      then show ?thesis unfolding keeps_used_def by blast
    qed
    ultimately show ?thesis
      unfolding free_outcome_def using k'(3,4) h'(3) i by (intro exI conjI) (assumption | simp | force)+
  qed
qed

text \<open>The arena of a big block is found from the block, which starts behind the header.\<close>

lemma big_block_words:
  assumes al: "allocator E ms k L cur rs ts W xs A" and a: "A a = Some (Big n)"
  shows "block_to_arena (a + sizeof_arena) k = Some a" "word_at k (desc_at a) = Some NULL"
    "word_at k (free_cnt_at a) = Some (of_nat n)" "a + sizeof_arena \<noteq> NULL" "unat (of_nat n :: size_t) = n" "0 < n"
proof -
  note D = allocatorD[OF al] note F = arena_facts[OF D(2,3) a] and H = header_at[OF arena_facts(1)[OF D(2,3) a]]
  have nz: "desc_at a \<noteq> NULL" "free_cnt_at a \<noteq> NULL" using H F(3) by auto
  show w: "word_at k (desc_at a) = Some NULL" "word_at k (free_cnt_at a) = Some (of_nat n)"
    using heapD(6)[OF D(3) a] nz by (auto simp: arena_header_def word_at_def)
  have m: "word_at k a = Some ARENA_MAGIC" using heapD(6)[OF D(3) a] F(2) by (simp add: arena_header_def word_at_def)
  have g: "pg_ofs (a + sizeof_arena) = sizeof_arena" "pg_round_down (a + sizeof_arena) = a"
    using page_of_offset[OF F(1), of 12] by (simp_all add: sizeof_arena_def)
  show "block_to_arena (a + sizeof_arena) k = Some a"
    using g w m F(2) by (simp add: block_to_arena_def)
  have "unat (a + of_nat 12) = unat a + 12" by (rule unat_add_nat) (use F(4,5) in simp)
  then show "a + sizeof_arena \<noteq> NULL" by (auto simp: sizeof_arena_def)
  show "unat (of_nat n :: size_t) = n" by (rule unat_of_nat_small) (use F(4) in simp)
  show "0 < n" using F(5) by simp
qed

lemma free_outcome_holds:
  assumes al: "allocator {} ms k L cur rs ts W xs A" and u: "(p, c) \<in> in_use xs A"
    and own: "\<And>q. in_range p c q \<Longrightarrow> q \<notin> ll.owned L"
  shows "free_outcome ms k L cur rs ts W (in_use xs A - {(p, c)}) (free p k)"
proof -
  note D = allocatorD[OF al]
  obtain a r where a: "A a = Some r" "(p, c) \<in> slots a r" "p \<notin> free_blocks xs" using u unfolding in_use_def by auto
  note F = arena_facts[OF D(2,3) a(1)]
  show ?thesis
  proof (cases r)
    case (Small i)
    note aS = a(1)[unfolded Small] note wd = arena_words[OF al aS] note i = wd(3)
    obtain j where j: "j < class_blocks i" "p = block_at i a j" "c = class_size i" using a(2) Small by auto
    let ?d = "desc_of ms i" let ?k = "cc_fill p (class_size i) k"
    have kk: "?k = k\<lparr>lheap := lheap ?k, threads := threads k, words := words ?k\<rparr>" by (simp add: cc_fill_def cong: if_cong)
    have al1: "allocator {} ms ?k L cur rs ts W xs A"
      by (rule client_write[OF al, where X = "{q. in_range p (class_size i) q}", OF _ _ _ _ kk])
        (use own u j(3) in \<open>auto simp: cc_fill_def\<close>)
    note D1 = allocatorD[OF al1]
    have "unat (of_nat (class_size i) :: size_t) = class_size i"
      using class_bounds(2)[OF i] by (intro unat_of_nat_small) simp
    moreover have "block_to_arena p k = Some a" unfolding j(2) by (rule block_to_arena_eq[OF D(7) wd(4) j(1)])
    moreover have "p \<noteq> NULL" unfolding j(2) by (rule block_in_arena(2)[OF al aS j(1)])
    ultimately have go: "free p k = free_locked p (hold (desc_lock ?d) cur ?k)"
      using wd(1) desc_words(3,5)[OF D(7) i] hold_acquire[OF D1(1) heapD(3)[OF D1(3) i]] by (simp add: free_def Let_def)
    have out: "free_outcome ms ?k L cur rs ts W (in_use xs A - {(p, class_size i)}) (free p k)"
      unfolding go by (rule free_locked_outcome[OF al1 aS j(1,2) a(3)]) (use own j(3) in simp)
    have "words ?k q = words k q \<and> lheap ?k q = lheap k q"
      if v: "(b, c') \<in> in_use xs A - {(p, class_size i)}" "in_range b c' q" for b c' q
    proof -
      have "\<not> in_range p (class_size i) q"
        using in_use_disjoint[OF D(2,3) u, of b c' q] v j(3) by auto
      then show ?thesis by (simp add: cc_fill_def)
    qed
    then have keep: "keeps_used (in_use xs A - {(p, class_size i)}) k ?k" unfolding keeps_used_def by blast
    have thr: "threads ?k = threads k" by (simp add: cc_fill_def)
    from free_outcome_after[OF out keep thr] show ?thesis using j(3) by simp
  next
    case (Big n)
    note aB = a(1)[unfolded Big] note B = big_block_words[OF al aB]
    have p: "p = a + sizeof_arena" "c = 4096 * n - 12" using a(2) Big by auto
    have sz: "arena_size r = 4096 * unat (of_nat n :: size_t)" using Big B(5) by simp
    have hdr: "q \<notin> ll.owned L" if q: "in_range a (arena_size r) q" for q
    proof
      assume "q \<in> ll.owned L"
      then obtain b l where "(b, l) \<in> slots a r" "in_range b l q"
        using heapD(7)[OF D(3) a(1)] q unfolding arena_memory_def by blast
      then show False using own p Big \<open>q \<in> ll.owned L\<close> by auto
    qed
    have used: "\<And>b l. (b, l) \<in> slots a r \<Longrightarrow> b \<notin> free_blocks xs" using a(2,3) Big by auto
    have "\<exists>k'. palloc_free_multiple a (of_nat n) k = Some k' \<and>
       allocator ({} - {a}) ms k' L cur rs ts W xs (A(a := None)) \<and>
       in_use xs (A(a := None)) = in_use xs A - slots a r \<and>
       (\<forall>q. \<not> in_range a (arena_size r) q \<longrightarrow> words k' q = words k q \<and> lheap k' q = lheap k q \<and> threads k' q = threads k q)"
      by (rule release_pages[OF al a(1) sz]) (erule used, erule hdr)
    then obtain k' where k': "palloc_free_multiple a (of_nat n) k = Some k'"
       "allocator {} ms k' L cur rs ts W xs (A(a := None))" "in_use xs (A(a := None)) = in_use xs A - {(p, c)}"
       "\<And>q. \<not> in_range a (arena_size r) q \<Longrightarrow> words k' q = words k q \<and> lheap k' q = lheap k q \<and> threads k' q = threads k q"
      using Big p by auto
    have "free p k = Some (Done 0, k')" using B(1-4) k'(1) p(1) by (simp add: free_def)
    moreover have "keeps_used (in_use xs A - {(p, c)}) k k'"
    proof -
      have "words k' q = words k q \<and> lheap k' q = lheap k q" if v: "(b, l) \<in> in_use xs A - {(p, c)}" "in_range b l q" for b l q
      proof -
        obtain a' r' where a': "A a' = Some r'" "(b, l) \<in> slots a' r'" using v(1) unfolding in_use_def by auto
        have "a' \<noteq> a" using a' v(1) a(1) Big p by auto
        moreover have "in_range a' (arena_size r') q"
          using slot_range(1)[OF arena_facts(1,4)[OF D(2,3) a'(1)] a'(2) v(2) arena_facts(6)[OF D(2,3) a'(1)]] .
        ultimately have "\<not> in_range a (arena_size r) q" using heapD(8)[OF D(3) a(1) a'(1)] by blast
        then show ?thesis using k'(4) by blast
      qed
      then show ?thesis unfolding keeps_used_def by blast
    qed
    moreover have "\<forall>t \<in> set ts. threads k' t = threads k t"
      using k'(4) elem_not_in_arena(3)[OF al a(1)] by blast
    ultimately show ?thesis using k'(2,3) unfolding free_outcome_def by blast
  qed
qed

end
