(* ===== verification/Kernel_Malloc_Init.thy ===== *)
theory Kernel_Malloc_Init
  imports Kernel_Malloc_Free
begin

text \<open>
  \<open>malloc_init\<close> establishes the invariant of the block allocator: after seven rounds of its loop
  the table is complete, every free list is empty and every lock is free.
\<close>

section \<open>One more list in the store\<close>

lemma family_new:
  assumes fam: "ll.family h L" and v: "valid h l" "valid h (tail_of l)"
    and out: "head_of l \<notin> ll.owned L" "tail_of l \<notin> ll.owned L"
  shows "\<exists>h'. list_init h l = Some h' \<and> ll.family h' (L(l \<mapsto> [])) \<and> modifies h h' {head_of l, tail_of l} \<and>
     ll.owned (L(l \<mapsto> [])) \<subseteq> ll.owned L \<union> {head_of l, tail_of l} \<and> L l = None"
proof -
  obtain h' where h': "list_init h l = Some h'" "dlist h' l []" "modifies h h' {head_of l, tail_of l}"
    using list_init_dlist[OF v] by blast
  have new: "L l = None"
  proof (rule ccontr)
    assume "L l \<noteq> None"
    then obtain xs where "L l = Some xs" by blast
    then show False using ll.ownedI[of L l xs "head_of l"] out(1) by (simp add: set_nodes)
  qed
  have dis: "set (nodes l []) \<inter> set (nodes m zs) = {}" if "L m = Some zs" for m zs
    using ll.ownedI[of L m zs] that out by (auto simp: set_nodes)
  have "dlist h' m zs" if m: "L m = Some zs" for m zs
  proof -
    have "{head_of l, tail_of l} \<inter> set (nodes m zs) = {}" using dis[OF m] by (simp add: set_nodes)
    then show ?thesis using lq.frame[OF h'(3)] ll.familyD(1)[OF fam m] by simp
  qed
  moreover have "set (nodes l1 xs) \<inter> set (nodes l2 ys) = {}"
    if "(L(l \<mapsto> [])) l1 = Some xs" "(L(l \<mapsto> [])) l2 = Some ys" "l1 \<noteq> l2" for l1 xs l2 ys
    using that dis[of l1 xs] dis[of l2 ys] ll.familyD(2)[OF fam, of l1 xs l2 ys] by (auto split: if_splits)
  ultimately have "ll.family h' (L(l \<mapsto> []))"
    using h'(2) unfolding ll.family_def by (auto split: if_splits)
  moreover have "ll.owned (L(l \<mapsto> [])) \<subseteq> ll.owned L \<union> {head_of l, tail_of l}"
  proof
    fix q assume "q \<in> ll.owned (L(l \<mapsto> []))"
    then obtain m zs where m: "(L(l \<mapsto> [])) m = Some zs" "q \<in> set (nodes m zs)" by (rule ll.ownedE)
    show "q \<in> ll.owned L \<union> {head_of l, tail_of l}"
    proof (cases "m = l")
      case True
      then show ?thesis using m by (auto simp: set_nodes)
    next
      case False
      then show ?thesis using m ll.ownedI[of L m zs] by simp
    qed
  qed
  ultimately show ?thesis using h'(1,3) new by blast
qed

text \<open>\<open>lock_init\<close> makes a free lock out of two words and a list.\<close>

lemma lock_init_family:
  assumes fam: "ll.family (lheap k) L" and l: "l \<noteq> NULL" "semaphore_of l \<noteq> NULL"
    and w: "words k l \<noteq> None" "words k (semaphore_of l) \<noteq> None"
    and v: "valid (lheap k) (waiters_of (semaphore_of l))" "valid (lheap k) (tail_of (waiters_of (semaphore_of l)))"
    and out: "head_of (waiters_of (semaphore_of l)) \<notin> ll.owned L" "tail_of (waiters_of (semaphore_of l)) \<notin> ll.owned L"
  defines "wl \<equiv> waiters_of (semaphore_of l)"
  shows "\<exists>h'. lock_init l k = Some (k\<lparr>lheap := h', words := (words k)(l \<mapsto> NULL, semaphore_of l \<mapsto> 1)\<rparr>) \<and>
     ll.family h' (L(wl \<mapsto> [])) \<and> modifies (lheap k) h' {head_of wl, tail_of wl} \<and>
     ll.owned (L(wl \<mapsto> [])) \<subseteq> ll.owned L \<union> {head_of wl, tail_of wl} \<and> L wl = None"
proof -
  obtain h' where h': "list_init (lheap k) wl = Some h'" "ll.family h' (L(wl \<mapsto> []))"
     "modifies (lheap k) h' {head_of wl, tail_of wl}"
     "ll.owned (L(wl \<mapsto> [])) \<subseteq> ll.owned L \<union> {head_of wl, tail_of wl}" "L wl = None"
    using family_new[OF fam v out] unfolding wl_def by blast
  have "lock_init l k = Some (k\<lparr>lheap := h', words := (words k)(l \<mapsto> NULL, semaphore_of l \<mapsto> 1)\<rparr>)"
    using l w h'(1) by (simp add: lock_init_def sema_init_def set_word_def on_lists_def wl_def)
  then show ?thesis using h'(2-5) by blast
qed

section \<open>The loop\<close>

text \<open>
  Before round \<open>i\<close>: the first \<open>i\<close> descriptors are complete, the memory of the others is there and
  not in any list.
\<close>

definition init_upto :: "nat \<Rightarrow> malloc_statics \<Rightarrow> kernel \<Rightarrow> (addr \<rightharpoonup> addr list) \<Rightarrow> bool" where
  "init_upto i ms k L \<longleftrightarrow> statics_ok ms \<and> i \<le> 7 \<and> words k (desc_cnt_at ms) = Some (of_nat i) \<and>
     ll.family (lheap k) L \<and>
     (\<forall>m < i. words k (desc_of ms m) = Some (of_nat (class_size m)) \<and>
        words k (desc_of ms m + 4) = Some (of_nat (class_blocks m)) \<and>
        L (free_list_of (desc_of ms m)) = Some [] \<and> lock_free k L (desc_lock (desc_of ms m))) \<and>
     (\<forall>q. in_range (desc_of ms i) (48 * (7 - i)) q \<longrightarrow>
        q \<in> dom (words k) \<and> q \<in> dom (lheap k) \<and> q \<notin> ll.owned L)"

text \<open>What the loop leaves alone.\<close>

definition init_frame :: "malloc_statics \<Rightarrow> kernel \<Rightarrow> (addr \<rightharpoonup> addr list) \<Rightarrow> kernel \<Rightarrow> (addr \<rightharpoonup> addr list) \<Rightarrow> bool" where
  "init_frame ms k L k' L' \<longleftrightarrow> (\<exists>h' w'. k' = k\<lparr>lheap := h', words := w'\<rparr>) \<and> dom (lheap k') = dom (lheap k) \<and>
     (\<forall>q. \<not> in_range (descs ms) 480 q \<longrightarrow> lheap k' q = lheap k q \<and> (q \<noteq> desc_cnt_at ms \<longrightarrow> words k' q = words k q)) \<and>
     (\<forall>l. \<not> in_range (descs ms) 480 l \<longrightarrow> L' l = L l) \<and>
     (\<forall>q \<in> ll.owned L'. q \<in> ll.owned L \<or> in_range (descs ms) 480 q)"

lemma init_frame_refl: "init_frame ms k L k L"
  unfolding init_frame_def by (auto intro!: exI[of _ "lheap k"] exI[of _ "words k"])

lemma init_frame_trans:
  assumes "init_frame ms k L k1 L1" "init_frame ms k1 L1 k2 L2"
  shows "init_frame ms k L k2 L2"
proof -
  obtain h1 w1 h2 w2 where "k1 = k\<lparr>lheap := h1, words := w1\<rparr>" "k2 = k1\<lparr>lheap := h2, words := w2\<rparr>"
    using assms unfolding init_frame_def by blast
  then have "k2 = k\<lparr>lheap := h2, words := w2\<rparr>" by simp
  then have "\<exists>h' w'. k2 = k\<lparr>lheap := h', words := w'\<rparr>" by blast
  moreover note assms[unfolded init_frame_def]
  ultimately show ?thesis unfolding init_frame_def by simp blast
qed

lemma class_arith:
  assumes "i < 7"
  shows "(PGSIZE - sizeof_arena) div of_nat (class_size i) = of_nat (class_blocks i)"
    "of_nat (class_size i) * 2 = (of_nat (class_size (Suc i)) :: addr)" "(of_nat (class_size i) :: addr) < PGSIZE div 2"
  using class_cases[OF assms] by (auto simp: PGSIZE_def sizeof_arena_def class_size_def class_blocks_def)

text \<open>The fields of the descriptor that round \<open>i\<close> writes.\<close>

lemma desc_field_range:
  assumes "statics_ok ms" "i < 7" "off < 48"
  shows "in_range (desc_of ms i) (48 * (7 - i)) (desc_of ms i + of_nat off)"
    "in_range (descs ms) 480 (desc_of ms i + of_nat off)" "desc_of ms i + of_nat off \<noteq> desc_cnt_at ms"
    "desc_of ms i + of_nat off \<noteq> NULL" "\<not> in_range (desc_of ms (Suc i)) (48 * (7 - Suc i)) (desc_of ms i + of_nat off)"
  using unat_desc_of[OF assms(1), of i off] unat_desc[OF assms(1), of i] unat_desc[OF assms(1), of "Suc i"]
    desc_field_low(2,3)[OF assms] assms(2,3)
  by (auto simp: in_range_def)

lemma desc_fields:
  "free_list_of (desc_of ms i) = desc_of ms i + of_nat 8" "tail_of (free_list_of (desc_of ms i)) = desc_of ms i + of_nat 16"
  "desc_lock (desc_of ms i) = desc_of ms i + of_nat 24" "semaphore_of (desc_lock (desc_of ms i)) = desc_of ms i + of_nat 28"
  "waiters_of (semaphore_of (desc_lock (desc_of ms i))) = desc_of ms i + of_nat 32"
  "tail_of (waiters_of (semaphore_of (desc_lock (desc_of ms i)))) = desc_of ms i + of_nat 40"
  "desc_of ms i + 4 = desc_of ms i + of_nat 4"
  by (simp_all add: free_list_of_def tail_of_def desc_lock_def semaphore_of_def waiters_of_def)

lemmas desc_offsets = free_list_of_def tail_of_def head_of_def desc_lock_def semaphore_of_def waiters_of_def

lemma malloc_init_round:
  assumes inv: "init_upto i ms k L" and i: "i < 7"
  shows "\<exists>k' L'. malloc_init_loop ms (of_nat (class_size i)) k = malloc_init_loop ms (of_nat (class_size (Suc i))) k' \<and>
     init_upto (Suc i) ms k' L' \<and> init_frame ms k L k' L'"
proof -
  let ?d = "desc_of ms i" let ?fl = "free_list_of ?d" let ?l = "desc_lock ?d" let ?wl = "waiters_of (semaphore_of ?l)"
  have s: "statics_ok ms" and cnt: "words k (desc_cnt_at ms) = Some (of_nat i)" and fam: "ll.family (lheap k) L"
    and older: "\<And>m. m < i \<Longrightarrow> words k (desc_of ms m) = Some (of_nat (class_size m)) \<and>
        words k (desc_of ms m + 4) = Some (of_nat (class_blocks m)) \<and>
        L (free_list_of (desc_of ms m)) = Some [] \<and> lock_free k L (desc_lock (desc_of ms m))"
    and rest: "\<And>q. in_range (desc_of ms i) (48 * (7 - i)) q \<Longrightarrow> q \<in> dom (words k) \<and> q \<in> dom (lheap k) \<and> q \<notin> ll.owned L"
    using inv unfolding init_upto_def by blast+
  note R = desc_field_range[OF s i] and fl = desc_fields[of ms i] and ar = class_arith[OF i]
  have mem: "?d + of_nat off \<in> dom (words k) \<and> ?d + of_nat off \<in> dom (lheap k) \<and> ?d + of_nat off \<notin> ll.owned L \<and>
      valid (lheap k) (?d + of_nat off)" if "off < 48" for off
    using rest[OF R(1)[OF that]] R(4)[OF that] by (simp add: valid_def)
  have ne: "?d + of_nat off \<noteq> ?d + of_nat off'" if "off < 48" "off' < 48" "off \<noteq> off'" for off off'
    using desc_field_inject[OF s i i that(1,2)] that(3) by simp
  obtain h1 where h1: "list_init (lheap k) ?fl = Some h1" "ll.family h1 (L(?fl \<mapsto> []))"
     "modifies (lheap k) h1 {head_of ?fl, tail_of ?fl}"
     "ll.owned (L(?fl \<mapsto> [])) \<subseteq> ll.owned L \<union> {head_of ?fl, tail_of ?fl}"
  proof -
    have "valid (lheap k) ?fl" "valid (lheap k) (tail_of ?fl)" "head_of ?fl \<notin> ll.owned L" "tail_of ?fl \<notin> ll.owned L"
      using mem[of 8] mem[of 16] by (simp_all add: desc_offsets add.commute)
    then show thesis using family_new[OF fam, of ?fl] that by blast
  qed
  let ?w = "(words k)(desc_cnt_at ms \<mapsto> of_nat (Suc i), ?d \<mapsto> of_nat (class_size i), ?d + 4 \<mapsto> of_nat (class_blocks i))"
  let ?k1 = "k\<lparr>lheap := h1, words := ?w\<rparr>"
  have "\<exists>h2. lock_init ?l ?k1 = Some (?k1\<lparr>lheap := h2, words := (words ?k1)(?l \<mapsto> NULL, semaphore_of ?l \<mapsto> 1)\<rparr>) \<and>
     ll.family h2 (L(?fl \<mapsto> [], ?wl \<mapsto> [])) \<and> modifies (lheap ?k1) h2 {head_of ?wl, tail_of ?wl} \<and>
     ll.owned (L(?fl \<mapsto> [], ?wl \<mapsto> [])) \<subseteq> ll.owned (L(?fl \<mapsto> [])) \<union> {head_of ?wl, tail_of ?wl} \<and> (L(?fl \<mapsto> [])) ?wl = None"
  proof (rule lock_init_family)
    show "ll.family (lheap ?k1) (L(?fl \<mapsto> []))" using h1(2) by simp
    show "?l \<noteq> NULL" "semaphore_of ?l \<noteq> NULL" using R(4)[of 24] R(4)[of 28] by (simp_all add: desc_offsets add.commute)
    show "words ?k1 ?l \<noteq> None" "words ?k1 (semaphore_of ?l) \<noteq> None" using mem[of 24] mem[of 28] by (auto simp: desc_offsets add.commute)
    show "valid (lheap ?k1) ?wl" "valid (lheap ?k1) (tail_of ?wl)"
      using mem[of 32] mem[of 40] modifies_valid[OF h1(3)] by (simp_all add: desc_offsets add.commute)
    show "head_of ?wl \<notin> ll.owned (L(?fl \<mapsto> []))" "tail_of ?wl \<notin> ll.owned (L(?fl \<mapsto> []))"
      using h1(4) mem[of 32] mem[of 40] ne[of 32 8] ne[of 32 16] ne[of 40 8] ne[of 40 16] by (auto simp: desc_offsets add.commute)
  qed
  then obtain h2 where h2: "lock_init ?l ?k1 = Some (?k1\<lparr>lheap := h2, words := ?w(?l \<mapsto> NULL, semaphore_of ?l \<mapsto> 1)\<rparr>)"
     "ll.family h2 (L(?fl \<mapsto> [], ?wl \<mapsto> []))" "modifies h1 h2 {head_of ?wl, tail_of ?wl}"
     "ll.owned (L(?fl \<mapsto> [], ?wl \<mapsto> [])) \<subseteq> ll.owned (L(?fl \<mapsto> [])) \<union> {head_of ?wl, tail_of ?wl}"
    by auto
  define L' where "L' = L(?fl \<mapsto> [], ?wl \<mapsto> [])"
  define w' where "w' = ?w(?l \<mapsto> NULL, semaphore_of ?l \<mapsto> 1)"
  define k' where "k' = k\<lparr>lheap := h2, words := w'\<rparr>"
  have k': "lheap k' = h2" "words k' = w'" by (simp_all add: k'_def)
  have W: "w' (?d + of_nat 0) = Some (of_nat (class_size i))" "w' (?d + of_nat 4) = Some (of_nat (class_blocks i))"
    "w' (?d + of_nat 24) = Some NULL" "w' (?d + of_nat 28) = Some 1" "w' (desc_cnt_at ms) = Some (of_nat (Suc i))"
    using ne[of 0 4] ne[of 0 24] ne[of 0 28] ne[of 4 24] ne[of 4 28] ne[of 24 28]
      R(3)[of 0] R(3)[of 4] R(3)[of 24] R(3)[of 28] by (auto simp: w'_def desc_offsets add.commute)
  have Wout: "w' q = words k q" if "q \<noteq> desc_cnt_at ms" "\<And>off. off < 48 \<Longrightarrow> q \<noteq> ?d + of_nat off" for q
    using that(1) that(2)[of 0] that(2)[of 4] that(2)[of 24] that(2)[of 28] by (simp add: w'_def desc_offsets add.commute)
  have Lout: "L' l = L l" if "\<And>off. off < 48 \<Longrightarrow> l \<noteq> ?d + of_nat off" for l
    using that[of 8] that[of 32] by (simp add: L'_def desc_offsets add.commute)
  have other: "desc_of ms m + of_nat off \<noteq> ?d + of_nat off'" if "m < i" "off < 48" "off' < 48" for m off off'
    using desc_field_inject[OF s _ i that(2,3), of m] that(1) i by simp
  have hout: "h2 q = lheap k q" if "\<And>off. off < 48 \<Longrightarrow> q \<noteq> ?d + of_nat off" for q
    using h1(3) h2(3) that[of 8] that[of 16] that[of 32] that[of 40]
    by (auto simp: modifies_def desc_offsets add.commute)
  have dm: "dom h2 = dom (lheap k)" using h1(3) h2(3) by (simp add: modifies_def)
  have own: "q \<in> ll.owned L \<or> (\<exists>off < 48. q = ?d + of_nat off)" if q: "q \<in> ll.owned L'" for q
  proof -
    have "q \<in> ll.owned L \<or> q \<in> {?d + of_nat 8, ?d + of_nat 16, ?d + of_nat 32, ?d + of_nat 40}"
      using q h1(4) h2(4) unfolding L'_def[symmetric] by (auto simp: desc_offsets add.commute)
    moreover have "(8 :: nat) < 48" "(16 :: nat) < 48" "(32 :: nat) < 48" "(40 :: nat) < 48" by simp_all
    ultimately show ?thesis by blast
  qed
  have run: "malloc_init_loop ms (of_nat (class_size i)) k = malloc_init_loop ms (of_nat (class_size (Suc i))) k'"
  proof -
    have c: "word_at k (desc_cnt_at ms) = Some (of_nat i)" "desc_cnt_at ms \<noteq> NULL"
      using cnt s by (auto simp: word_at_def statics_ok_def)
    have d: "descs ms + of_nat i * sizeof_desc = ?d" by (simp add: desc_of_def sizeof_desc_def mult.commute)
    have le: "of_nat i + 1 \<le> (10 :: size_t)" using class_cases[OF i] by auto
    have nz: "?d \<noteq> NULL" "?d + 4 \<noteq> NULL" using R(4)[of 0] R(4)[of 4] by simp_all
    have p: "words k ?d \<noteq> None" "words k (?d + 4) \<noteq> None" using mem[of 0] mem[of 4] by auto
    have w1: "set_word (desc_cnt_at ms) (of_nat i + 1) k = Some (k\<lparr>words := (words k)(desc_cnt_at ms \<mapsto> of_nat (Suc i))\<rparr>)"
      using c(2) cnt by (simp add: set_word_def add.commute)
    have w2: "set_word ?d bs (k\<lparr>words := v\<rparr>) = Some (k\<lparr>words := v(?d \<mapsto> bs)\<rparr>)"
      "set_word (?d + 4) bs (k\<lparr>words := u\<rparr>) = Some (k\<lparr>words := u(?d + 4 \<mapsto> bs)\<rparr>)"
      if "v ?d \<noteq> None" "u (?d + 4) \<noteq> None" for bs u v
      using nz that by (simp_all add: set_word_def)
    have sw: "k\<lparr>words := u, lheap := h\<rparr> = k\<lparr>lheap := h, words := u\<rparr>" for u h by simp
    show ?thesis
      using ar c(1) d le w1 w2 p h1(1) h2(1)
      by (subst malloc_init_loop.simps) (simp add: Let_def on_lists_def sw k'_def w'_def)
  qed
  have inv': "init_upto (Suc i) ms k' L'"
    unfolding init_upto_def
  proof (intro conjI allI impI)
    show "statics_ok ms" "Suc i \<le> 7" using s i by simp_all
    show "words k' (desc_cnt_at ms) = Some (of_nat (Suc i))" using W(5) k' by simp
    show "ll.family (lheap k') L'" using h2(2) k' by (simp add: L'_def)
    fix m assume m: "m < Suc i"
    have "words k' (desc_of ms m + of_nat 0) = Some (of_nat (class_size m)) \<and>
        words k' (desc_of ms m + of_nat 4) = Some (of_nat (class_blocks m)) \<and>
        L' (free_list_of (desc_of ms m)) = Some [] \<and> lock_free k' L' (desc_lock (desc_of ms m))"
    proof (cases "m = i")
      case True
      have "L' ?fl = Some []" "L' ?wl = Some []" using ne[of 8 32] by (simp_all add: L'_def desc_offsets add.commute)
      moreover have "lock_free k' L' ?l"
        using W(3,4) \<open>L' ?wl = Some []\<close> R(4)[of 24] R(4)[of 28]
        unfolding lock_free_def k' by (simp add: desc_offsets add.commute)
      ultimately show ?thesis using W(1,2) True k' by simp
    next
      case False
      then have m: "m < i" using m by simp
      have m7: "m < 7" using m i by simp
      note Rm = desc_field_range[OF s m7]
      have w: "w' (desc_of ms m + of_nat off) = words k (desc_of ms m + of_nat off)" if "off < 48" for off
        by (rule Wout) (use Rm(3)[OF that] other[OF m that] in auto)
      have l: "L' (desc_of ms m + of_nat off) = L (desc_of ms m + of_nat off)" if "off < 48" for off
        by (rule Lout) (use other[OF m that] in auto)
      show ?thesis
        using older[OF m] w[of 0] w[of 4] w[of 24] w[of 28] l[of 8] l[of 32]
        unfolding lock_free_def k' by (simp add: desc_offsets add.commute)
    qed
    then show "words k' (desc_of ms m) = Some (of_nat (class_size m))"
        "words k' (desc_of ms m + 4) = Some (of_nat (class_blocks m))"
        "L' (free_list_of (desc_of ms m)) = Some []" "lock_free k' L' (desc_lock (desc_of ms m))" by simp_all
  next
    fix q assume q: "in_range (desc_of ms (Suc i)) (48 * (7 - Suc i)) q"
    have nq: "q \<noteq> ?d + of_nat off" if "off < 48" for off using R(5)[OF that] q by auto
    have "in_range ?d (48 * (7 - i)) q"
      using q unat_desc[OF s, of i] unat_desc[OF s, of "Suc i"] i by (auto simp: in_range_def)
    then have "q \<in> dom (words k) \<and> q \<in> dom (lheap k) \<and> q \<notin> ll.owned L" by (rule rest)
    then show "q \<in> dom (words k')" "q \<in> dom (lheap k')" "q \<notin> ll.owned L'"
      using own[of q] nq dm Wout[of q] k' by (auto simp: dom_def w'_def)
  qed
  have "init_frame ms k L k' L'"
  proof -
    have nq: "q \<noteq> ?d + of_nat off" if "\<not> in_range (descs ms) 480 q" "off < 48" for q off using R(2)[OF that(2)] that(1) by auto
    have "lheap k' q = lheap k q \<and> (q \<noteq> desc_cnt_at ms \<longrightarrow> words k' q = words k q)" "L' q = L q"
      if "\<not> in_range (descs ms) 480 q" for q
      using hout[of q] Wout[of q] Lout[of q] nq[OF that] k' by auto
    moreover have "\<forall>q \<in> ll.owned L'. q \<in> ll.owned L \<or> in_range (descs ms) 480 q" using own R(2) by blast
    ultimately show ?thesis unfolding init_frame_def using dm k'_def by auto
  qed
  then show ?thesis using run inv' by blast
qed

section \<open>The whole initialisation\<close>

lemma malloc_init_rounds:
  "init_upto i ms k L \<Longrightarrow> \<exists>k' L'. malloc_init_loop ms (of_nat (class_size i)) k = Some k' \<and> init_upto 7 ms k' L' \<and> init_frame ms k L k' L'"
proof (induction "7 - i" arbitrary: i k L)
  case 0
  then have i: "i = 7" by (simp add: init_upto_def)
  have "malloc_init_loop ms (of_nat (class_size 7)) k = Some k"
    by (subst malloc_init_loop.simps) (simp add: class_size_def PGSIZE_def)
  then show ?case using 0(2) i init_frame_refl by blast
next
  case (Suc n)
  then have i: "i < 7" by simp
  obtain k1 L1 where 1: "malloc_init_loop ms (of_nat (class_size i)) k = malloc_init_loop ms (of_nat (class_size (Suc i))) k1"
     "init_upto (Suc i) ms k1 L1" "init_frame ms k L k1 L1" using malloc_init_round[OF Suc.prems i] by blast
  have "n = 7 - Suc i" using Suc.hyps(2) by simp
  from Suc.hyps(1)[OF this 1(2)] show ?case using 1(1,3) init_frame_trans by metis
qed

text \<open>The static variables of malloc.c are there, apart from the lock of the pool and from all lists.\<close>

definition malloc_memory :: "malloc_statics \<Rightarrow> kernel \<Rightarrow> (addr \<rightharpoonup> addr list) \<Rightarrow> addr list \<Rightarrow> bool" where
  "malloc_memory ms k L ts \<longleftrightarrow> statics_ok ms \<and> desc_cnt_at ms \<in> dom (words k) \<and>
     (\<forall>q. in_range (descs ms) 480 q \<longrightarrow> q \<in> dom (words k) \<and> q \<in> dom (lheap k) \<and> q \<notin> ll.owned L \<and>
        q \<notin> elem_of ` set ts \<and> q \<noteq> pool_lock (kernel_pool k) \<and> q \<noteq> semaphore_of (pool_lock (kernel_pool k))) \<and>
     desc_cnt_at ms \<noteq> pool_lock (kernel_pool k) \<and> desc_cnt_at ms \<noteq> semaphore_of (pool_lock (kernel_pool k))"

lemma malloc_init_allocator:
  assumes s: "sched k L cur rs ts W" and p: "pool_ok k L ts" and mem: "malloc_memory ms k L ts"
  shows "\<exists>k' L'. malloc_init ms k = Some k' \<and> allocator {} ms k' L' cur rs ts W (\<lambda>_. []) Map.empty \<and>
     threads k' = threads k \<and> kernel_pool k' = kernel_pool k \<and>
     (\<forall>q. \<not> in_range (descs ms) 480 q \<longrightarrow> lheap k' q = lheap k q \<and> L' q = L q \<and>
        (q \<noteq> desc_cnt_at ms \<longrightarrow> words k' q = words k q))"
proof -
  let ?cnt = "desc_cnt_at ms" let ?l = "pool_lock (kernel_pool k)"
  have st: "statics_ok ms" and cnt: "?cnt \<in> dom (words k)" "?cnt \<noteq> ?l" "?cnt \<noteq> semaphore_of ?l" and
    m: "\<And>q. in_range (descs ms) 480 q \<Longrightarrow> q \<in> dom (words k) \<and> q \<in> dom (lheap k) \<and> q \<notin> ll.owned L \<and>
        q \<notin> elem_of ` set ts \<and> q \<noteq> ?l \<and> q \<noteq> semaphore_of ?l"
    using mem unfolding malloc_memory_def by blast+
  have fam: "ll.family (lheap k) L" using s by (simp add: sched_def sched_core_def)
  define k0 where "k0 = k\<lparr>words := (words k)(?cnt \<mapsto> 0)\<rparr>"
  have k0: "set_word ?cnt 0 k = Some k0" using cnt(1) st by (auto simp: set_word_def statics_ok_def k0_def)
  have f0: "init_frame ms k L k0 L"
    unfolding init_frame_def k0_def by (auto intro!: exI[of _ "lheap k"] exI[of _ "(words k)(?cnt \<mapsto> 0)"])
  have "init_upto 0 ms k0 L"
    unfolding init_upto_def
  proof (intro conjI allI impI)
    fix q assume "in_range (desc_of ms 0) (48 * (7 - 0)) q"
    then have "in_range (descs ms) 480 q" by (auto simp: in_range_def desc_of_def)
    then show "q \<in> dom (words k0)" "q \<in> dom (lheap k0)" "q \<notin> ll.owned L" using m by (auto simp: k0_def)
  qed (use st fam in \<open>auto simp: k0_def\<close>)
  from malloc_init_rounds[OF this] obtain k' L' where k': "malloc_init_loop ms (of_nat (class_size 0)) k0 = Some k'"
     "init_upto 7 ms k' L'" "init_frame ms k0 L k' L'" by blast
  have run: "malloc_init ms k = Some k'" using k0 k'(1) by (simp add: malloc_init_def class_size_def)
  have fr: "init_frame ms k L k' L'" by (rule init_frame_trans[OF f0 k'(3)])
  obtain h' w' where eq: "k' = k\<lparr>lheap := h', words := w'\<rparr>" using fr unfolding init_frame_def by blast
  have out: "lheap k' q = lheap k q" "L' q = L q" "q \<noteq> ?cnt \<Longrightarrow> words k' q = words k q"
    if "\<not> in_range (descs ms) 480 q" for q using fr that unfolding init_frame_def by blast+
  have own: "\<And>q. q \<in> ll.owned L' \<Longrightarrow> q \<in> ll.owned L \<or> in_range (descs ms) 480 q" and dm: "dom (lheap k') = dom (lheap k)"
    using fr unfolding init_frame_def by blast+
  have old: "\<not> in_range (descs ms) 480 l" if "L l = Some xs" for l xs
    using m[of l] ll.ownedI[of L l xs l] that by (auto simp: set_nodes head_of_def)
  have core: "sched_core k L cur rs ts W" using s by (simp add: sched_def)
  have listed: "\<exists>xs. L l = Some xs" if "l \<in> insert (ready_list k) (insert (all_list k) W)" for l
    using sched_coreD(5,6,12)[OF core] that by blast
  have sched': "sched k' L' cur rs ts W"
  proof (rule sched_step[OF s])
    show "ll.family (lheap k') L'" using k'(2) by (simp add: init_upto_def)
    show "valid (lheap k') p" if "valid (lheap k) p" for p using that dm by (simp add: valid_def)
    show "L' l = L l" if "l \<in> insert (ready_list k) (insert (all_list k) W)" for l
      using listed[OF that] old out(2) by blast
    show "elem_of t \<in> ll.owned L" if "t \<in> set ts" "elem_of t \<in> ll.owned L'" for t
      using own[OF that(2)] m[of "elem_of t"] that(1) by blast
  qed (simp_all add: eq)
  note P = pool_okD[OF p]
  have lk: "words k' ?l = words k ?l" "words k' (semaphore_of ?l) = words k (semaphore_of ?l)"
    using out(3) m cnt by metis+
  have wl: "L' (waiters_of (semaphore_of ?l)) = Some []"
    using P(1) old out(2) unfolding lock_free_def by metis
  have pool': "pool_ok k' L' ts"
  proof -
    have "lock_free k' L' ?l" using P(1) lk wl by (simp add: lock_free_def)
    moreover have "\<not> in_range (page_at (kernel_pool k) i) 4096 q"
      if i: "i < page_cnt (kernel_pool k)" "i \<notin> used_bits (used_map (kernel_pool k))" and q: "q \<in> ll.owned L' \<union> set ts" for i q
    proof (cases "q \<in> ll.owned L \<union> set ts")
      case True
      then show ?thesis by (rule P(7)[OF i])
    next
      case False
      then have "in_range (descs ms) 480 q" using q own by blast
      then show ?thesis using st page_at_aligned(3)[OF p, of i] i(1) by (auto simp: in_range_def statics_ok_def)
    qed
    ultimately show ?thesis using P(2-6) unfolding pool_ok_def Let_def by (simp add: eq)
  qed
  have inv: "descs_ok ms k'" "L' (free_list_of (desc_of ms i)) = Some []" "lock_free k' L' (desc_lock (desc_of ms i))"
    if "i < 7" for i using k'(2) that unfolding init_upto_def descs_ok_def by auto
  then have "heap {} ms k' L' ts (\<lambda>_. []) Map.empty" using inv(1)[of 0] unfolding heap_def by simp
  moreover have "free_list_of (desc_of ms i) \<notin> insert (ready_list k) (insert (all_list k) W)" if "i < 7" for i
  proof
    assume "free_list_of (desc_of ms i) \<in> insert (ready_list k) (insert (all_list k) W)"
    then obtain xs where "L (free_list_of (desc_of ms i)) = Some xs" using listed by blast
    from old[OF this] show False using desc_field_range(2)[OF st that, of 8] by (simp add: free_list_of_def)
  qed
  ultimately have "allocator {} ms k' L' cur rs ts W (\<lambda>_. []) Map.empty"
    unfolding allocator_def using sched' pool' m by (auto simp: eq)
  then show ?thesis using run out by (auto simp: eq)
qed

end
