(* ===== verification/Kernel_Malloc_Client.thy ===== *)
theory Kernel_Malloc_Client
  imports Kernel_Malloc_Init
begin

text \<open>
  The contract of the block allocator with its clients: what \<open>malloc\<close> and \<open>free\<close> do to the blocks
  in use, as a locale, and what follows for any sequence of calls.
\<close>

section \<open>The contract of an allocator\<close>

text \<open>
  A client sees a state \<open>s\<close> and the blocks in use, pairs of an address and a size.  The laws say
  what the two calls do to them; nothing else of the allocator is known.
\<close>

locale block_allocator =
  fixes inv :: "'s \<Rightarrow> (addr \<times> nat) set \<Rightarrow> bool"
    and alloc :: "size_t \<Rightarrow> 's \<Rightarrow> (outcome \<times> 's) option"
    and release :: "addr \<Rightarrow> 's \<Rightarrow> (outcome \<times> 's) option"
  assumes alloc_law: "inv s U \<Longrightarrow> unat sz + 4107 < 2 ^ 32 \<Longrightarrow>
      alloc sz s = Some (Done NULL, s) \<or>
      (\<exists>p c s'. alloc sz s = Some (Done p, s') \<and> p \<noteq> NULL \<and> unat sz \<le> c \<and> (p, c) \<notin> U \<and> apart (p, c) U \<and>
         inv s' (insert (p, c) U))"
    and release_law: "inv s U \<Longrightarrow> (p, c) \<in> U \<Longrightarrow> \<exists>s'. release p s = Some (Done NULL, s') \<and> inv s' (U - {(p, c)})"

text \<open>A client is a list of requests; it releases the blocks it holds by their number.\<close>

datatype request = Allocate size_t | Release nat

fun serve ::
  "(size_t \<Rightarrow> 's \<Rightarrow> (outcome \<times> 's) option) \<Rightarrow> (addr \<Rightarrow> 's \<Rightarrow> (outcome \<times> 's) option) \<Rightarrow>
   request list \<Rightarrow> 's \<Rightarrow> (addr \<times> size_t) list \<Rightarrow> ('s \<times> (addr \<times> size_t) list) option" where
  "serve alloc release [] s bs = Some (s, bs)"
| "serve alloc release (Allocate sz # rs) s bs =
     (case alloc sz s of
        Some (Done p, s') \<Rightarrow> serve alloc release rs s' (if p = NULL then bs else bs @ [(p, sz)])
      | _ \<Rightarrow> None)"
| "serve alloc release (Release n # rs) s bs =
     (if n < length bs then
        case release (fst (bs ! n)) s of
          Some (Done _, s') \<Rightarrow> serve alloc release rs s' (take n bs @ drop (Suc n) bs)
        | _ \<Rightarrow> None
      else serve alloc release rs s bs)"

fun moderate :: "request \<Rightarrow> bool" where
  "moderate (Allocate sz) \<longleftrightarrow> unat sz + 4107 < 2 ^ 32"
| "moderate (Release n) \<longleftrightarrow> True"

text \<open>Blocks, as requested, that do not overlap.\<close>

definition disjoint_blocks :: "(addr \<times> size_t) list \<Rightarrow> bool" where
  "disjoint_blocks bs \<longleftrightarrow> (\<forall>i < length bs. \<forall>j < length bs. \<forall>q. i \<noteq> j \<longrightarrow>
     in_range (fst (bs ! i)) (unat (snd (bs ! i))) q \<longrightarrow> \<not> in_range (fst (bs ! j)) (unat (snd (bs ! j))) q)"

text \<open>The blocks of a client inside the blocks of the allocator.\<close>

definition held :: "(addr \<times> size_t) list \<Rightarrow> (addr \<times> nat) list \<Rightarrow> bool" where
  "held bs us \<longleftrightarrow> distinct us \<and> (\<forall>u \<in> set us. apart u (set us - {u})) \<and>
     list_all2 (\<lambda>b u. fst b = fst u \<and> unat (snd b) \<le> snd u) bs us"

lemma in_range_mono: "in_range a n q \<Longrightarrow> n \<le> m \<Longrightarrow> in_range a m q"
  by (simp add: in_range_def)

lemma apart_sym: "apart u {v} \<Longrightarrow> apart v {u}"
  by (cases u, cases v) (auto simp: apart_def)

lemma apart_split: "apart u U \<longleftrightarrow> (\<forall>v \<in> U. apart u {v})"
  by (auto simp: apart_def)

lemma apartD: "apart (b, c) U \<Longrightarrow> (b', c') \<in> U \<Longrightarrow> in_range b' c' q \<Longrightarrow> \<not> in_range b c q"
  by (auto simp: apart_def)

lemma apart_insert: "apart u (insert v U) \<longleftrightarrow> apart u {v} \<and> apart u U"
  using apart_split[of u "insert v U"] apart_split[of u U] by blast

lemma heldD:
  assumes "held bs us"
  shows "distinct us" "length us = length bs" "\<And>u. u \<in> set us \<Longrightarrow> apart u (set us - {u})"
    "\<And>i. i < length bs \<Longrightarrow> fst (bs ! i) = fst (us ! i) \<and> unat (snd (bs ! i)) \<le> snd (us ! i)"
    "list_all2 (\<lambda>b u. fst b = fst u \<and> unat (snd b) \<le> snd u) bs us"
  using assms unfolding held_def by (blast, auto dest: list_all2_lengthD list_all2_nthD)

lemma held_disjoint:
  assumes "held bs us"
  shows "disjoint_blocks bs"
  unfolding disjoint_blocks_def
proof (intro allI impI notI)
  note H = heldD[OF assms]
  fix i j q assume i: "i < length bs" and j: "j < length bs" and ne: "i \<noteq> j"
    and q: "in_range (fst (bs ! i)) (unat (snd (bs ! i))) q" "in_range (fst (bs ! j)) (unat (snd (bs ! j))) q"
  have q': "in_range (fst (us ! i)) (snd (us ! i)) q" "in_range (fst (us ! j)) (snd (us ! j)) q"
    using in_range_mono[OF q(1)] in_range_mono[OF q(2)] H(4)[OF i] H(4)[OF j] by simp_all
  have "us ! i \<in> set us" "us ! j \<in> set us - {us ! i}" using H(1,2) i j ne by (simp_all add: nth_eq_iff_index_eq)
  then have "apart (fst (us ! i), snd (us ! i)) (set us - {us ! i})" "(fst (us ! j), snd (us ! j)) \<in> set us - {us ! i}"
    using H(3)[of "us ! i"] by simp_all
  from apartD[OF this q'(2)] show False using q'(1) by contradiction
qed

lemma held_snoc:
  assumes "held bs us" "(p, c) \<notin> set us" "apart (p, c) (set us)" "unat sz \<le> c"
  shows "held (bs @ [(p, sz)]) (us @ [(p, c)])"
proof -
  note H = heldD[OF assms(1)]
  have "apart u (insert (p, c) (set us) - {u})" if u: "u \<in> insert (p, c) (set us)" for u
  proof (cases "u = (p, c)")
    case True
    then have "insert (p, c) (set us) - {u} = set us" using assms(2) by auto
    then show ?thesis using assms(3) True by simp
  next
    case False
    then have "insert (p, c) (set us) - {u} = insert (p, c) (set us - {u})" and u: "u \<in> set us" using u by auto
    moreover have "apart u {(p, c)}" using assms(3) u apart_split[of "(p, c)" "set us"] apart_sym by blast
    ultimately show ?thesis using H(3)[OF u] apart_insert by metis
  qed
  then show ?thesis using H(1,5) assms(2,4) by (simp add: held_def list_all2_appendI)
qed

lemma held_drop:
  assumes "held bs us" "n < length bs"
  shows "held (take n bs @ drop (Suc n) bs) (take n us @ drop (Suc n) us)"
    "set (take n us @ drop (Suc n) us) = set us - {us ! n}" "us ! n \<in> set us" "fst (us ! n) = fst (bs ! n)"
proof -
  note H = heldD[OF assms(1)]
  let ?vs = "take n us @ drop (Suc n) us"
  have n: "n < length us" using assms(2) H(2) by simp
  have split: "us = take n us @ us ! n # drop (Suc n) us" using n by (rule id_take_nth_drop)
  have d: "distinct (take n us @ us ! n # drop (Suc n) us)" using H(1) split by metis
  have "set us = set (take n us @ us ! n # drop (Suc n) us)" using split by metis
  then have eq: "set us = insert (us ! n) (set ?vs)" by simp
  show set: "set ?vs = set us - {us ! n}" using d eq by auto
  show "us ! n \<in> set us" "fst (us ! n) = fst (bs ! n)" using n assms(2) H(4) by simp_all
  have "apart u (set ?vs - {u})" if u: "u \<in> set ?vs" for u
  proof -
    have "u \<in> set us" "set ?vs - {u} \<subseteq> set us - {u}" using u set by auto
    then show ?thesis using H(3)[of u] apart_split[of u] by blast
  qed
  moreover have "list_all2 (\<lambda>b u. fst b = fst u \<and> unat (snd b) \<le> snd u) (take n bs @ drop (Suc n) bs) ?vs"
    by (intro list_all2_appendI list_all2_takeI list_all2_dropI H(5))
  moreover have "distinct ?vs" using d by simp
  ultimately show "held (take n bs @ drop (Suc n) bs) ?vs" by (simp add: held_def)
qed

context block_allocator
begin

text \<open>Every client is served to its end, and the blocks it holds never overlap.\<close>

lemma serve_held:
  assumes "inv s (set us)" "held bs us" "list_all moderate rs"
  shows "\<exists>s' bs' us'. serve alloc release rs s bs = Some (s', bs') \<and> held bs' us' \<and> inv s' (set us')"
  using assms
proof (induction rs arbitrary: s bs us)
  case (Cons r rs)
  show ?case
  proof (cases r)
    case (Allocate sz)
    have "unat sz + 4107 < 2 ^ 32" using Cons.prems(3) Allocate by simp
    from alloc_law[OF Cons.prems(1) this] show ?thesis
    proof (elim disjE exE conjE)
      assume "alloc sz s = Some (Done NULL, s)"
      then show ?thesis using Cons Allocate by simp
    next
      fix p c s' assume a: "alloc sz s = Some (Done p, s')" "p \<noteq> NULL" "unat sz \<le> c" "(p, c) \<notin> set us"
        "apart (p, c) (set us)" "inv s' (insert (p, c) (set us))"
      have "held (bs @ [(p, sz)]) (us @ [(p, c)])" using held_snoc[OF Cons.prems(2) a(4,5,3)] .
      then show ?thesis using Cons.IH[of s' "us @ [(p, c)]" "bs @ [(p, sz)]"] Cons.prems(3) a Allocate by simp
    qed
  next
    case (Release n)
    show ?thesis
    proof (cases "n < length bs")
      case True
      note h = held_drop[OF Cons.prems(2) True]
      obtain s' where "release (fst (bs ! n)) s = Some (Done NULL, s')" "inv s' (set us - {us ! n})"
        using release_law[OF Cons.prems(1), of "fst (us ! n)" "snd (us ! n)"] h(3,4) by (metis prod.collapse)
      then show ?thesis using Cons.IH[of s', OF _ h(1)] h(2) Cons.prems(3) Release True by simp
    next
      case False
      then show ?thesis using Cons Release by simp
    qed
  qed
qed auto

lemma client_disjoint:
  assumes "inv s {}" "list_all moderate rs"
  shows "\<exists>s' bs U. serve alloc release rs s [] = Some (s', bs) \<and> disjoint_blocks bs \<and> inv s' U"
  using serve_held[of s "[]" "[]" rs] assms held_disjoint by (fastforce simp: held_def)

end

section \<open>The allocator of the kernel\<close>

text \<open>No list outside the allocator reaches into a block in use.\<close>

definition blocks_inv ::
  "malloc_statics \<Rightarrow> addr \<Rightarrow> addr list \<Rightarrow> addr list \<Rightarrow> addr set \<Rightarrow> kernel \<Rightarrow> (addr \<times> nat) set \<Rightarrow> bool" where
  "blocks_inv ms cur rs ts W k U \<longleftrightarrow> (\<exists>L xs A. allocator {} ms k L cur rs ts W xs A \<and> in_use xs A = U \<and>
     (\<forall>(p, c) \<in> U. \<forall>q. in_range p c q \<longrightarrow> q \<notin> ll.owned L))"

lemma unowned_later:
  assumes al: "allocator {} ms k L cur rs ts W xs A" and al': "allocator {} ms k' L' cur rs ts W xs' A'"
    and L': "\<And>l. l \<notin> (\<lambda>i. free_list_of (desc_of ms i)) ` {0..<7} \<Longrightarrow> L' l = L l"
    and u: "(p, c) \<in> in_use xs' A'" "in_range p c q" and out: "q \<notin> ll.owned L"
  shows "q \<notin> ll.owned L'"
proof
  assume "q \<in> ll.owned L'"
  then obtain l ys where l: "L' l = Some ys" "q \<in> set (nodes l ys)" by (rule ll.ownedE)
  show False
  proof (cases "l \<in> (\<lambda>i. free_list_of (desc_of ms i)) ` {0..<7}")
    case True
    then obtain i where i: "i < 7" "l = free_list_of (desc_of ms i)" by auto
    then have "ys = xs' i" using l(1) heapD(2)[OF allocatorD(3)[OF al'] i(1)] by simp
    moreover have "set (xs' i) \<subseteq> free_blocks xs'" using i(1) by (auto simp: free_blocks_def)
    ultimately show False using used_memory(5)[OF al' u i(1)] l(2) i(2) by simp
  next
    case False
    then show False using L'[of l] l out ll.ownedI[of L l ys q] by simp
  qed
qed

interpretation kernel_allocator: block_allocator "blocks_inv ms cur rs ts W" "malloc ms" free
proof (unfold_locales, goal_cases)
  case (1 k U sz)
  then obtain L xs A where al: "allocator {} ms k L cur rs ts W xs A" and U: "in_use xs A = U"
    and out: "\<And>p c q. (p, c) \<in> U \<Longrightarrow> in_range p c q \<Longrightarrow> q \<notin> ll.owned L" unfolding blocks_inv_def by blast
  show ?case
    using malloc_outcome_holds[OF al 1(2)] unfolding malloc_outcome_def
  proof (elim disjE exE conjE)
    fix p c k' L' xs' A' assume r: "malloc ms sz k = Some (Done p, k')" "p \<noteq> NULL" "unat sz \<le> c"
      and al': "allocator {} ms k' L' cur rs ts W xs' A'" and u: "in_use xs' A' = insert (p, c) (in_use xs A)"
      and new: "(p, c) \<notin> in_use xs A" "\<forall>q. in_range p c q \<longrightarrow> q \<notin> ll.owned L'" "apart (p, c) (in_use xs A)"
      and L': "\<forall>l. l \<notin> (\<lambda>i. free_list_of (desc_of ms i)) ` {0..<7} \<longrightarrow> L' l = L l"
    have "q \<notin> ll.owned L'" if "(b, d) \<in> insert (p, c) U" "in_range b d q" for b d q
    proof (cases "(b, d) = (p, c)")
      case True
      then show ?thesis using new(2) that(2) by simp
    next
      case False
      then have "(b, d) \<in> U" using that(1) by auto
      then show ?thesis
        using unowned_later[OF al al' _ _ that(2) out[OF _ that(2)]] L' u U by blast
    qed
    then have "blocks_inv ms cur rs ts W k' (insert (p, c) U)"
      using al' u U unfolding blocks_inv_def by blast
    then show ?thesis using r new U by blast
  qed simp_all
next
  case (2 k U p c)
  then obtain L xs A where al: "allocator {} ms k L cur rs ts W xs A" and U: "in_use xs A = U"
    and out: "\<And>p c q. (p, c) \<in> U \<Longrightarrow> in_range p c q \<Longrightarrow> q \<notin> ll.owned L" unfolding blocks_inv_def by blast
  have u: "(p, c) \<in> in_use xs A" using 2(2) U by simp
  obtain k' L' xs' A' where r: "free p k = Some (Done 0, k')" and al': "allocator {} ms k' L' cur rs ts W xs' A'"
    and u': "in_use xs' A' = U - {(p, c)}"
    and L': "\<And>l. l \<notin> (\<lambda>i. free_list_of (desc_of ms i)) ` {0..<7} \<Longrightarrow> L' l = L l"
    using free_outcome_holds[OF al u out[OF 2(2)]] U unfolding free_outcome_def by blast
  have "q \<notin> ll.owned L'" if "(b, d) \<in> U - {(p, c)}" "in_range b d q" for b d q
  proof -
    have "(b, d) \<in> U" "(b, d) \<in> in_use xs' A'" using that(1) u' by auto
    then show ?thesis using unowned_later[OF al al' L' _ that(2) out[OF _ that(2)]] by blast
  qed
  then have "blocks_inv ms cur rs ts W k' (U - {(p, c)})"
    using al' u' unfolding blocks_inv_def by blast
  then show ?case using r by auto
qed

end
