(* ===== verification/Kernel_Malloc_Realloc.thy ===== *)
theory Kernel_Malloc_Realloc
  imports Kernel_Malloc_Client
begin

text \<open>
  \<open>realloc\<close>: the new block holds what the old block held, up to the smaller of the two sizes, and
  the old block is free.
\<close>

lemma used_block:
  assumes al: "allocator E ms k L cur rs ts W xs A" and u: "(p, c) \<in> in_use xs A"
  shows "block_size p k = Some (of_nat c)" "unat (of_nat c :: size_t) = c" "unat p + c \<le> 0x20000000" "p \<noteq> NULL" "0 < c"
proof -
  note D = allocatorD[OF al]
  obtain a r where a: "A a = Some r" "(p, c) \<in> slots a r" using u unfolding in_use_def by auto
  note F = arena_facts[OF D(2,3) a(1)]
  have "block_size p k = Some (of_nat c) \<and> unat p + c \<le> 0x20000000 \<and> p \<noteq> NULL \<and> 0 < c"
  proof (cases r)
    case (Small i)
    note aS = a(1)[unfolded Small] note wd = arena_words[OF al aS]
    obtain j where j: "j < class_blocks i" "p = block_at i a j" "c = class_size i" using a(2) Small by auto
    have "unat p + c \<le> unat a + 4096"
      using unat_block[OF F(1) wd(3) j(1)] block_bound[OF wd(3) j(1)] j(2,3) by simp
    then show ?thesis
      using F(4) Small block_to_arena_eq[OF D(7) wd(4) j(1)] wd(1) desc_words(3,5)[OF D(7) wd(3)] j
        block_in_arena(2)[OF al aS j(1)] class_bounds(1)[OF wd(3)] by (simp add: block_size_def)
  next
    case (Big n)
    note aB = a(1)[unfolded Big] note B = big_block_words[OF al aB]
    have p: "p = a + sizeof_arena" "c = 4096 * n - 12" using a(2) Big by auto
    have "unat (a + of_nat 12) = unat a + 12" by (rule unat_add_nat) (use F(4,5) in simp)
    then have "unat p = unat a + 12" by (simp add: p sizeof_arena_def)
    moreover have "pg_ofs p = 12" using page_of_offset(1)[OF F(1), of 12] by (simp add: p sizeof_arena_def)
    moreover have "(of_nat (4096 * n - 12) :: size_t) = 4096 * of_nat n - 12" using B(6) by (simp add: of_nat_diff)
    ultimately show ?thesis
      using B p F(4) Big by (simp add: block_size_def PGSIZE_def)
  qed
  then show "block_size p k = Some (of_nat c)" "unat p + c \<le> 0x20000000" "p \<noteq> NULL" "0 < c" by simp_all
  then show "unat (of_nat c :: size_t) = c" by (intro unat_of_nat_small) simp
qed

definition realloc_outcome ::
  "malloc_statics \<Rightarrow> addr \<Rightarrow> nat \<Rightarrow> size_t \<Rightarrow> kernel \<Rightarrow> addr \<Rightarrow> addr list \<Rightarrow> addr list \<Rightarrow> addr set \<Rightarrow>
   (addr \<times> nat) set \<Rightarrow> (outcome \<times> kernel) option \<Rightarrow> bool" where
  "realloc_outcome ms p c sz k cur rs ts W U res \<longleftrightarrow>
     res = Some (Done NULL, k) \<and> exhausted k (pages_needed sz) \<or>
     (\<exists>p' c' k'. res = Some (Done p', k') \<and> p' \<noteq> NULL \<and> unat sz \<le> c' \<and> (p', c') \<notin> U \<and>
        blocks_inv ms cur rs ts W k' (insert (p', c') (U - {(p, c)})) \<and> apart (p', c') U \<and>
        (\<forall>n < min (unat sz) c. words k' (p' + of_nat n) = words k (p + of_nat n) \<and>
           lheap k' (p' + of_nat n) = lheap k (p + of_nat n)) \<and>
        keeps_used (U - {(p, c)}) k k')"

lemma realloc_outcome_holds:
  assumes al: "allocator {} ms k L cur rs ts W xs A" and u: "(p, c) \<in> in_use xs A"
    and own: "\<And>b d q. (b, d) \<in> in_use xs A \<Longrightarrow> in_range b d q \<Longrightarrow> q \<notin> ll.owned L"
    and full: "\<And>q. in_range p c q \<Longrightarrow> q \<in> dom (words k) \<and> q \<in> dom (lheap k)"
    and sz: "0 < unat sz" "unat sz + 4107 < 2 ^ 32"
  shows "realloc_outcome ms p c sz k cur rs ts W (in_use xs A) (realloc ms p sz k)"
proof -
  let ?U = "in_use xs A"
  have sz0: "sz \<noteq> 0" using sz(1) by auto
  show ?thesis
    using malloc_outcome_holds[OF al sz(2)] unfolding malloc_outcome_def
  proof (elim disjE exE conjE)
    assume "malloc ms sz k = Some (Done NULL, k)" "exhausted k (pages_needed sz)"
    then show ?thesis using sz0 by (simp add: realloc_outcome_def realloc_def realloc_tail_def)
  next
    fix p' c' k1 L1 xs1 A1 assume r: "malloc ms sz k = Some (Done p', k1)" "p' \<noteq> NULL" "unat sz \<le> c'"
      and al1: "allocator {} ms k1 L1 cur rs ts W xs1 A1" and use1: "in_use xs1 A1 = insert (p', c') ?U"
      and new: "(p', c') \<notin> ?U" "\<forall>q. in_range p' c' q \<longrightarrow> q \<notin> ll.owned L1" "apart (p', c') ?U" and keep: "keeps_used ?U k k1"
      and L1: "\<forall>l. l \<notin> (\<lambda>i. free_list_of (desc_of ms i)) ` {0..<7} \<longrightarrow> L1 l = L l"
    define n where "n = min (unat sz) c"
    define k2 where "k2 = copy_objects p' p n k1"
    have u1: "(p, c) \<in> in_use xs1 A1" "(p', c') \<in> in_use xs1 A1" using u use1 by auto
    note B = used_block[OF al1 u1(1)] and B' = used_block[OF al1 u1(2)]
    have own1: "q \<notin> ll.owned L1" if "(b, d) \<in> in_use xs1 A1" "in_range b d q" for b d q
    proof (cases "(b, d) \<in> ?U")
      case True
      show ?thesis by (rule unowned_later[OF al al1 _ that own[OF True that(2)]]) (use L1 in blast)
    next
      case False
      then show ?thesis using new(2) that use1 by auto
    qed
    have src: "words k1 q = words k q" "lheap k1 q = lheap k q" if "in_range p c q" for q
      using keep u that unfolding keeps_used_def by fastforce+
    have off: "in_range p c (p + (q - p'))" "in_range p' c' q" if "in_range p' n q" for q
    proof -
      have d: "unat (q - p') < n" using that unat_sub[of p' q] by (auto simp: in_range_def word_le_nat_alt)
      have "unat (p + (q - p')) = unat p + unat (q - p')" using d B(3) by (intro unat_plus_simple[THEN iffD1] no_plus_overflow_unat_size[THEN iffD2]) (simp add: n_def word_size)
      then show "in_range p c (p + (q - p'))" using d by (simp add: in_range_def n_def)
      show "in_range p' c' q" using that r(3) by (auto simp: in_range_def n_def)
    qed
    have k2: "k2 = k1\<lparr>lheap := lheap k2, threads := threads k1, words := words k2\<rparr>"
      by (simp add: k2_def copy_objects_def cong: if_cong)
    have full1: "q \<in> dom (words k1) \<and> q \<in> dom (lheap k1)" if "in_range p c q" for q
      using full[OF that] src[OF that] by (simp add: dom_def)
    have al2: "allocator {} ms k2 L1 cur rs ts W xs1 A1"
    proof (rule client_write[OF al1, where X = "{q. in_range p' n q}", OF _ _ _ _ k2])
      show "q \<notin> ll.owned L1 \<and> (\<exists>b c. (b, c) \<in> in_use xs1 A1 \<and> in_range b c q)" if "q \<in> {q. in_range p' n q}" for q
        using off(2)[of q] own1[OF u1(2)] u1(2) that by blast
      show "lheap k2 q = lheap k1 q \<and> words k2 q = words k1 q" if "q \<notin> {q. in_range p' n q}" for q
        using that by (simp add: k2_def copy_objects_def)
      show "dom (lheap k1) \<subseteq> dom (lheap k2)" "dom (words k1) \<subseteq> dom (words k2)"
        using full1[OF off(1)] by (auto simp: k2_def copy_objects_def dom_def split: if_splits)
    qed simp
    obtain k3 L3 xs3 A3 where f: "free p k2 = Some (Done 0, k3)" and al3: "allocator {} ms k3 L3 cur rs ts W xs3 A3"
      and use3: "in_use xs3 A3 = in_use xs1 A1 - {(p, c)}" and keep3: "keeps_used (in_use xs1 A1 - {(p, c)}) k2 k3"
      and L3: "\<forall>l. l \<notin> (\<lambda>i. free_list_of (desc_of ms i)) ` {0..<7} \<longrightarrow> L3 l = L1 l"
      using free_outcome_holds[OF al2 u1(1) own1[OF u1(1)]] unfolding free_outcome_def by blast
    have use3': "in_use xs3 A3 = insert (p', c') (?U - {(p, c)})" using use3 use1 new(1) u by auto
    have own3: "q \<notin> ll.owned L3" if "(b, d) \<in> in_use xs3 A3" "in_range b d q" for b d q
    proof -
      have "(b, d) \<in> in_use xs1 A1" using that(1) use3 by simp
      then show ?thesis using L3 by (intro unowned_later[OF al1 al3 _ that own1[OF _ that(2)]]) blast+
    qed
    have "blocks_inv ms cur rs ts W k3 (insert (p', c') (?U - {(p, c)}))"
      unfolding blocks_inv_def use3'[symmetric] using al3 own3 by blast
    moreover have "words k3 (p' + of_nat m) = words k (p + of_nat m) \<and> lheap k3 (p' + of_nat m) = lheap k (p + of_nat m)"
      if m: "m < n" for m
    proof -
      have mm: "m < c" "m < c'" using m r(3) by (simp_all add: n_def)
      have a: "unat (p' + of_nat m) = unat p' + m" "unat (p + of_nat m) = unat p + m"
        using mm B(3) B'(3) by (intro unat_add_nat; simp)+
      then have rg: "in_range p' n (p' + of_nat m)" "in_range p' c' (p' + of_nat m)" "in_range p c (p + of_nat m)"
        using m mm by (simp_all add: in_range_def)
      have "(p', c') \<in> in_use xs1 A1 - {(p, c)}" using u1(2) new(1) u by auto
      then have "words k3 (p' + of_nat m) = words k2 (p' + of_nat m)" "lheap k3 (p' + of_nat m) = lheap k2 (p' + of_nat m)"
        using keep3 rg(2) unfolding keeps_used_def by fastforce+
      moreover have "words k2 (p' + of_nat m) = words k1 (p + of_nat m)" "lheap k2 (p' + of_nat m) = lheap k1 (p + of_nat m)"
        using rg(1) by (simp_all add: k2_def copy_objects_def)
      ultimately show ?thesis using src[OF rg(3)] by simp
    qed
    moreover have "keeps_used (?U - {(p, c)}) k k3"
    proof (rule keeps_used_trans[of _ k k2])
      have "\<not> in_range p' n q" if "(b, d) \<in> ?U" "in_range b d q" for b d q
        using apartD[OF new(3) that] off(2)[of q] by blast
      then show "keeps_used (?U - {(p, c)}) k k2" using keep
        unfolding keeps_used_def k2_def copy_objects_def by (fastforce split: prod.splits)
      show "keeps_used (?U - {(p, c)}) k2 k3" using keep3 use1 unfolding keeps_used_def by fastforce
    qed
    moreover have "realloc ms p sz k = Some (Done p', k3)"
    proof -
      have "(if sz < of_nat c then sz else of_nat c :: size_t) = (if unat sz < c then sz else of_nat c)"
        using B(2) by (simp add: word_less_nat_alt)
      then have "unat (if sz < of_nat c then sz else of_nat c) = n" using B(2) by (simp add: n_def)
      then show ?thesis
        using sz0 r(1,2) B(1,4) f by (simp add: realloc_def realloc_tail_def Let_def k2_def[symmetric])
    qed
    ultimately show ?thesis using r(2,3) new(1,3) unfolding realloc_outcome_def n_def by blast
  qed (use sz0 in simp)
qed

end
