(* ===== verification/Kernel_Malloc_Spec.thy ===== *)
theory Kernel_Malloc_Spec
  imports Kernel_Malloc_Realloc Kernel_Sched_Spec
begin

text \<open>The properties of the block allocator, with an example.\<close>

section \<open>A concrete kernel\<close>

text \<open>
  The kernel of Kernel_Sched_Spec with the list of the pool's lock at \<open>0x9148\<close>, the array \<open>descs\<close>
  at \<open>0xA000\<close> and \<open>desc_cnt\<close> at \<open>0x9200\<close>.  The pages 4 to 7 of the pool, from \<open>0x45000\<close>, are free.
\<close>

definition ex_statics :: malloc_statics where
  "ex_statics = \<lparr>descs = 0xA000, desc_cnt_at = 0x9200\<rparr>"

definition ex_memory :: kernel where
  "ex_memory = ex_kernel\<lparr>
     lheap := (\<lambda>q. if in_range 0xA000 480 q then Some \<lparr>le_prev = 0, le_next = 0\<rparr> else
        (ex_lists(0x9148 \<mapsto> \<lparr>le_prev = 0, le_next = 0x9150\<rparr>, 0x9150 \<mapsto> \<lparr>le_prev = 0x9148, le_next = 0\<rparr>)) q),
     words := (\<lambda>q. if in_range 0xA000 480 q then Some 0 else ((words ex_kernel)(0x9200 \<mapsto> 0)) q)\<rparr>"

abbreviation ex_lists_of :: "addr \<rightharpoonup> addr list" where
  "ex_lists_of \<equiv> ex_family(0x9148 \<mapsto> [])"

lemma ex_used: "used_bits (used_map (kernel_pool ex_kernel)) = {0, 1, 2, 3}"
proof -
  have "bits_of \<lparr>bit_cnt = 8, bm_bits = [0xF]\<rparr> = [True, True, True, True, False, False, False, False]"
    by code_simp
  moreover have "{i. i < 8 \<and> [True, True, True, True, False, False, False, False] ! i} = {0, 1, 2, 3 :: nat}"
    by (auto simp: nth_Cons' split: if_splits)
  ultimately show ?thesis by (simp add: used_bits_def ex_kernel_def)
qed

lemma ex_memory_fields:
  "cpu ex_memory = cpu ex_kernel" "ready_list ex_memory = 0x9000" "all_list ex_memory = 0x9010"
  "threads ex_memory = threads ex_kernel" "idle_thread ex_memory = idle_thread ex_kernel"
  "in_external_interrupt ex_memory = in_external_interrupt ex_kernel" "was_irq_generated ex_memory = was_irq_generated ex_kernel"
  "kernel_pool ex_memory = kernel_pool ex_kernel"
  by (simp_all add: ex_memory_def ex_fields)

lemma ex_memory_agree: "p \<in> ll.owned ex_family \<Longrightarrow> lheap ex_memory p = ex_lists p"
  unfolding ex_owned by (auto simp: ex_memory_def in_range_def)

lemma ex_new_list: "dlist (lheap ex_memory) 0x9148 []" "set (nodes 0x9148 []) = {0x9148, 0x9150}"
  by (simp_all add: dlist_def nodes_def head_of_def tail_of_def valid_def prv_def nxt_def ex_memory_def in_range_def dom_def)

lemma ex_new_apart: "ex_family l = Some xs \<Longrightarrow> {0x9148, 0x9150} \<inter> set (nodes l xs) = {}"
  using ll.ownedI[of ex_family l xs "0x9148"] ll.ownedI[of ex_family l xs "0x9150"] unfolding ex_owned by auto

lemma ex_memory_owned: "ll.owned ex_lists_of \<subseteq> {0x9148, 0x9150} \<union> ll.owned ex_family"
  using ex_new_list(2) by (auto elim!: ll.ownedE intro: ll.ownedI split: if_splits)

lemma ex_memory_family: "ll.family (lheap ex_memory) ex_lists_of"
proof -
  have old: "dlist (lheap ex_memory) l xs" if l: "ex_family l = Some xs" for l xs
  proof -
    have "dlist (lheap ex_memory) l xs = dlist ex_lists l xs"
      by (rule dlist_cong, rule ex_memory_agree, rule ll.ownedI[of ex_family l xs, OF l])
    then show ?thesis using ll.familyD(1)[OF ex_family l] by simp
  qed
  show ?thesis
    unfolding ll.family_def
  proof (intro conjI allI impI)
    fix l xs assume l: "ex_lists_of l = Some xs"
    show "dlist (lheap ex_memory) l xs" using old[of l xs] ex_new_list(1) l by (cases "l = 0x9148") simp_all
    fix l' ys assume l': "ex_lists_of l' = Some ys" and ne: "l \<noteq> l'"
    show "set (nodes l xs) \<inter> set (nodes l' ys) = {}"
    proof (cases "l = 0x9148 \<or> l' = 0x9148")
      case True
      then show ?thesis
      proof
        assume "l = 0x9148"
        then show ?thesis using ex_new_apart[of l' ys] ex_new_list(2) l l' ne by simp
      next
        assume "l' = 0x9148"
        then show ?thesis using ex_new_apart[of l xs] ex_new_list(2) l l' ne by (simp add: Int_commute)
      qed
    next
      case False
      then show ?thesis using ll.familyD(2)[OF ex_family, of l xs l' ys] l l' ne by simp
    qed
  qed
qed

lemma ex_memory_sched: "sched ex_memory ex_lists_of 0x41000 [0x42000] [0x41000, 0x42000, 0x43000, 0x44000] {0x9108}"
proof (rule sched_step[OF ex_sched ex_memory_family])
  show "valid (lheap ex_memory) p" if "t \<in> set [0x41000, 0x42000, 0x43000, 0x44000]" "p \<in> {elem_of t, allelem_of t}" for t p
    using that by (auto simp: ex_memory_def ex_lists_def valid_def in_range_def elem_of_def allelem_of_def)
  show "ex_lists_of l = ex_family l" if "l \<in> insert (ready_list ex_kernel) (insert (all_list ex_kernel) {0x9108})" for l
    using that by (auto simp: ex_fields)
  show "elem_of t \<in> ll.owned ex_family" if "t \<in> set [0x41000, 0x42000, 0x43000, 0x44000]" "elem_of t \<in> ll.owned ex_lists_of" for t
    using that ex_memory_owned by (auto simp: elem_of_def)
qed (simp_all add: ex_memory_fields ex_fields)

lemma ex_pool: "pool_ok ex_memory ex_lists_of [0x41000, 0x42000, 0x43000, 0x44000]"
proof -
  let ?P = "kernel_pool ex_kernel"
  have p: "pool_lock ?P = 0x9140" "base ?P = 0x41000" "page_cnt ?P = 8" "bm_wf (used_map ?P)"
    by (simp_all add: ex_kernel_def page_cnt_def bm_wf_def)
  have w: "words ex_memory 0x9140 = Some 0" "words ex_memory 0x9144 = Some 1"
    by (simp_all add: ex_memory_def ex_fields in_range_def)
  have "\<not> in_range (page_at ?P i) 4096 q" if i: "i < 8" "i \<notin> {0, 1, 2, 3}"
    and q: "q \<in> ll.owned ex_lists_of \<union> {0x41000, 0x42000, 0x43000, 0x44000}" for i q
  proof -
    have "i \<in> {4, 5, 6, 7}" using i by auto
    then have "unat (page_at ?P i) \<ge> 0x45000" by (auto simp: page_at_def p)
    moreover have "unat q < 0x45000" using q ex_memory_owned unfolding ex_owned by auto
    ultimately show ?thesis by (simp add: in_range_def)
  qed
  then show ?thesis
    unfolding pool_ok_def Let_def ex_memory_fields lock_free_def
    using p w by (simp add: ex_used semaphore_of_def waiters_of_def pg_ofs_def PGMASK_def)
qed

lemma ex_malloc_memory: "malloc_memory ex_statics ex_memory ex_lists_of [0x41000, 0x42000, 0x43000, 0x44000]"
proof -
  have lk: "pool_lock (kernel_pool ex_kernel) = 0x9140" by (simp add: ex_kernel_def)
  have "q \<in> dom (words ex_memory) \<and> q \<in> dom (lheap ex_memory) \<and> q \<notin> ll.owned ex_lists_of \<and>
      q \<notin> elem_of ` set [0x41000, 0x42000, 0x43000, 0x44000] \<and> q \<noteq> 0x9140 \<and> q \<noteq> 0x9144" if q: "in_range 0xA000 480 q" for q
  proof -
    have "0xA000 \<le> unat q" "unat q < 0xA1E0" using q by (simp_all add: in_range_def)
    then have "q \<notin> ll.owned ex_lists_of" "q \<notin> elem_of ` set [0x41000, 0x42000, 0x43000, 0x44000]" "q \<noteq> 0x9140" "q \<noteq> 0x9144"
      using ex_memory_owned unfolding ex_owned by (auto simp: elem_of_def)
    then show ?thesis using q by (auto simp: ex_memory_def)
  qed
  moreover have "statics_ok ex_statics" by (simp add: ex_statics_def statics_ok_def in_range_def)
  moreover have "0x9200 \<in> dom (words ex_memory)" by (simp add: ex_memory_def dom_def)
  ultimately show ?thesis
    unfolding malloc_memory_def ex_memory_fields lk by (simp add: ex_statics_def semaphore_of_def)
qed

section \<open>Properties\<close>

text \<open>C18: \<open>malloc_init\<close> returns: its loop ends after seven rounds, and what it leaves behind is a block
  allocator with seven descriptors of the sizes 16 to 1024, empty free lists, free locks and no
  arena; the threads are as before.\<close>

theorem malloc_init_ready:
  assumes "sched k L cur rs ts W" "pool_ok k L ts" "malloc_memory ms k L ts"
  shows "\<exists>k' L'. malloc_init ms k = Some k' \<and> allocator {} ms k' L' cur rs ts W (\<lambda>_. []) Map.empty \<and>
     words k' (desc_cnt_at ms) = Some 7 \<and>
     (\<forall>i < 7. words k' (desc_of ms i) = Some (of_nat (16 * 2 ^ i)) \<and>
        words k' (desc_of ms i + 4) = Some (of_nat (4084 div (16 * 2 ^ i))) \<and>
        L' (free_list_of (desc_of ms i)) = Some [] \<and> lock_free k' L' (desc_lock (desc_of ms i))) \<and>
     threads k' = threads k \<and> kernel_pool k' = kernel_pool k"
proof -
  obtain k' L' where k': "malloc_init ms k = Some k'" "allocator {} ms k' L' cur rs ts W (\<lambda>_. []) Map.empty"
     "threads k' = threads k" "kernel_pool k' = kernel_pool k"
    using malloc_init_allocator[OF assms] by blast
  note D = allocatorD[OF k'(2)]
  have "descs_ok ms k'" by (rule D(7))
  then show ?thesis
    using k' heapD(2,3)[OF D(3)] by (intro exI[of _ k'] exI[of _ L']) (auto simp: descs_ok_def class_size_def class_blocks_def)
qed

theorem malloc_init_ready_witness:
  "\<exists>k'. malloc_init ex_statics ex_memory = Some k' \<and> words k' 0x9200 = Some 7 \<and> words k' 0xA090 = Some 128"
proof -
  obtain k' L' where "malloc_init ex_statics ex_memory = Some k'" "words k' (desc_cnt_at ex_statics) = Some 7"
     "\<forall>i < 7. words k' (desc_of ex_statics i) = Some (of_nat (16 * 2 ^ i)) \<and>
        words k' (desc_of ex_statics i + 4) = Some (of_nat (4084 div (16 * 2 ^ i))) \<and>
        L' (free_list_of (desc_of ex_statics i)) = Some [] \<and> lock_free k' L' (desc_lock (desc_of ex_statics i))"
    using malloc_init_ready[OF ex_memory_sched ex_pool ex_malloc_memory] by blast
  moreover from this(3)[rule_format, of 3] have "words k' 0xA090 = Some 128" by (simp add: desc_of_def ex_statics_def)
  ultimately show ?thesis by (simp add: ex_statics_def)
qed

text \<open>C15: \<open>malloc\<close> returns a null pointer only for the size zero or when the pool has no run of free
  pages that is long enough.  Otherwise it returns a block of at least the size, which overlaps no
  block in use and no list; the contents of all blocks in use and the threads are as before.\<close>

theorem malloc_returns_fresh:
  assumes "allocator {} ms k L cur rs ts W xs A" "unat sz + 4107 < 2 ^ 32"
  shows "malloc ms sz k = Some (Done NULL, k) \<and> (sz = 0 \<or> exhausted k (pages_needed sz)) \<or>
     (\<exists>p c k' L' xs' A'. malloc ms sz k = Some (Done p, k') \<and> p \<noteq> NULL \<and> unat sz \<le> c \<and>
        allocator {} ms k' L' cur rs ts W xs' A' \<and> in_use xs' A' = insert (p, c) (in_use xs A) \<and>
        (\<forall>(b, d) \<in> in_use xs A. \<forall>q. in_range b d q \<longrightarrow>
           \<not> in_range p c q \<and> words k' q = words k q \<and> lheap k' q = lheap k q) \<and>
        (\<forall>q. in_range p c q \<longrightarrow> q \<notin> ll.owned L') \<and> threads k' = threads k)"
  using malloc_outcome_holds[OF assms] unfolding malloc_outcome_def
proof (elim disjE exE conjE)
  fix p c k' L' xs' A' assume r: "malloc ms sz k = Some (Done p, k')" "p \<noteq> NULL" "unat sz \<le> c"
    "allocator {} ms k' L' cur rs ts W xs' A'" "in_use xs' A' = insert (p, c) (in_use xs A)"
    "\<forall>q. in_range p c q \<longrightarrow> q \<notin> ll.owned L'" "apart (p, c) (in_use xs A)" "keeps_used (in_use xs A) k k'"
    "threads k' = threads k"
  have "\<forall>(b, d) \<in> in_use xs A. \<forall>q. in_range b d q \<longrightarrow>
      \<not> in_range p c q \<and> words k' q = words k q \<and> lheap k' q = lheap k q"
    using r(7,8) unfolding apart_def keeps_used_def by auto
  then show ?thesis using r by blast
qed blast+

text \<open>The state after \<open>malloc_init\<close> and a first block.\<close>

lemma ex_allocator:
  obtains k L where "malloc_init ex_statics ex_memory = Some k"
    "allocator {} ex_statics k L 0x41000 [0x42000] [0x41000, 0x42000, 0x43000, 0x44000] {0x9108} (\<lambda>_. []) Map.empty"
    "kernel_pool k = kernel_pool ex_kernel"
  using malloc_init_allocator[OF ex_memory_sched ex_pool ex_malloc_memory] ex_memory_fields(8) by auto

lemma ex_not_exhausted:
  assumes "kernel_pool k = kernel_pool ex_kernel"
  shows "\<not> exhausted k 1"
proof -
  have "page_cnt (kernel_pool k) = 8" "used_bits (used_map (kernel_pool k)) = {0, 1, 2, 3}"
    using assms ex_used by (simp_all add: ex_kernel_def page_cnt_def)
  then show ?thesis unfolding exhausted_def by (auto intro!: exI[of _ 4])
qed

theorem malloc_returns_fresh_witness:
  "\<exists>k p k'. malloc_init ex_statics ex_memory = Some k \<and> malloc ex_statics 100 k = Some (Done p, k') \<and> p \<noteq> NULL"
proof -
  obtain k L where k: "malloc_init ex_statics ex_memory = Some k"
    "allocator {} ex_statics k L 0x41000 [0x42000] [0x41000, 0x42000, 0x43000, 0x44000] {0x9108} (\<lambda>_. []) Map.empty"
    "kernel_pool k = kernel_pool ex_kernel" by (rule ex_allocator)
  have "unat (100 :: size_t) + 4107 < 2 ^ 32" "\<not> (100 = (0 :: size_t) \<or> exhausted k (pages_needed 100))"
    using ex_not_exhausted[OF k(3)] by (simp_all add: pages_needed_def)
  with malloc_returns_fresh[OF k(2) this(1)] show ?thesis using k(1) by blast
qed

text \<open>C16: \<open>free\<close> of a block in use returns, takes exactly this block out of use and keeps the contents
  of all others; the allocator and the scheduler stay well-formed, also when the arena of the
  block is empty afterwards and its page goes back to the pool.\<close>

theorem free_releases_block:
  assumes "allocator {} ms k L cur rs ts W xs A" "(p, c) \<in> in_use xs A"
    "\<forall>q. in_range p c q \<longrightarrow> q \<notin> ll.owned L"
  shows "\<exists>k' L' xs' A'. free p k = Some (Done 0, k') \<and> allocator {} ms k' L' cur rs ts W xs' A' \<and>
     in_use xs' A' = in_use xs A - {(p, c)} \<and>
     (\<forall>(b, d) \<in> in_use xs A - {(p, c)}. \<forall>q. in_range b d q \<longrightarrow> words k' q = words k q \<and> lheap k' q = lheap k q) \<and>
     (\<forall>t \<in> set ts. threads k' t = threads k t)"
proof -
  have "free_outcome ms k L cur rs ts W (in_use xs A - {(p, c)}) (free p k)"
    by (rule free_outcome_holds[OF assms(1,2)]) (use assms(3) in blast)
  then show ?thesis unfolding free_outcome_def keeps_used_def by blast
qed

lemma ex_block:
  obtains k p c k' L xs A where "malloc_init ex_statics ex_memory = Some k"
    "malloc ex_statics 100 k = Some (Done p, k')" "100 \<le> c"
    "allocator {} ex_statics k' L 0x41000 [0x42000] [0x41000, 0x42000, 0x43000, 0x44000] {0x9108} xs A"
    "in_use xs A = {(p, c)}" "\<forall>q. in_range p c q \<longrightarrow> q \<notin> ll.owned L"
proof -
  obtain k L where k: "malloc_init ex_statics ex_memory = Some k"
    "allocator {} ex_statics k L 0x41000 [0x42000] [0x41000, 0x42000, 0x43000, 0x44000] {0x9108} (\<lambda>_. []) Map.empty"
    "kernel_pool k = kernel_pool ex_kernel" by (rule ex_allocator)
  have "unat (100 :: size_t) + 4107 < 2 ^ 32" "\<not> (100 = (0 :: size_t) \<or> exhausted k (pages_needed 100))"
    using ex_not_exhausted[OF k(3)] by (simp_all add: pages_needed_def)
  moreover have "in_use (\<lambda>_. []) Map.empty = {}" by (simp add: in_use_def)
  ultimately show thesis
    using malloc_outcome_holds[OF k(2), of 100] that k(1) unfolding malloc_outcome_def by auto
qed

theorem free_releases_block_witness:
  "\<exists>k p k1 k2. malloc_init ex_statics ex_memory = Some k \<and> malloc ex_statics 100 k = Some (Done p, k1) \<and>
     free p k1 = Some (Done 0, k2)"
proof -
  obtain k p c k' L xs A where k: "malloc_init ex_statics ex_memory = Some k"
    "malloc ex_statics 100 k = Some (Done p, k')" "100 \<le> c"
    "allocator {} ex_statics k' L 0x41000 [0x42000] [0x41000, 0x42000, 0x43000, 0x44000] {0x9108} xs A"
    "in_use xs A = {(p, c)}" "\<forall>q. in_range p c q \<longrightarrow> q \<notin> ll.owned L" by (rule ex_block)
  have "(p, c) \<in> in_use xs A" using k(5) by simp
  from free_releases_block[OF k(4) this k(6)] show ?thesis using k(1,2) by blast
qed



text \<open>C6: after \<open>malloc_init\<close>, every sequence of calls of \<open>malloc\<close> and \<open>free\<close> in which each block is
  freed at most once returns from every call, and no two blocks that the client holds at the end
  overlap; the scheduler's invariant still holds.\<close>

theorem clients_never_collide:
  assumes "sched k L cur rs ts W" "pool_ok k L ts" "malloc_memory ms k L ts" "list_all moderate rqs"
  shows "\<exists>k1 k2 bs L2. malloc_init ms k = Some k1 \<and> serve (malloc ms) free rqs k1 [] = Some (k2, bs) \<and>
     disjoint_blocks bs \<and> sched k2 L2 cur rs ts W"
proof -
  obtain k1 L1 where k1: "malloc_init ms k = Some k1" "allocator {} ms k1 L1 cur rs ts W (\<lambda>_. []) Map.empty"
    using malloc_init_allocator[OF assms(1-3)] by blast
  have "blocks_inv ms cur rs ts W k1 {}"
    unfolding blocks_inv_def using k1(2) by (fastforce simp: in_use_def)
  from kernel_allocator.client_disjoint[OF this assms(4)] obtain k2 bs U
    where "serve (malloc ms) free rqs k1 [] = Some (k2, bs)" "disjoint_blocks bs" "blocks_inv ms cur rs ts W k2 U" by blast
  then show ?thesis using k1(1) allocatorD(1) unfolding blocks_inv_def by blast
qed

theorem clients_never_collide_witness:
  "\<exists>k1 k2 bs. malloc_init ex_statics ex_memory = Some k1 \<and>
     serve (malloc ex_statics) free [Allocate 100, Allocate 100, Release 0, Allocate 5000, Allocate 7] k1 [] = Some (k2, bs) \<and>
     disjoint_blocks bs"
  using clients_never_collide[OF ex_memory_sched ex_pool ex_malloc_memory,
      of "[Allocate 100, Allocate 100, Release 0, Allocate 5000, Allocate 7]"] by auto

end
