(* ===== verification/Kernel_Places.thy ===== *)
theory Kernel_Places
  imports Kernel_Malloc
begin

text \<open>
  The lists of the scheduler and the lock of the kernel pool stay where they are: no operation of
  the block allocator, and none that it calls, moves them.  \<open>places\<close> collects the lemmas.
\<close>

named_theorems places

definition places_of :: "kernel \<Rightarrow> addr \<times> addr \<times> addr" where
  "places_of k = (ready_list k, all_list k, pool_lock (kernel_pool k))"

lemma places_fields [simp]:
  "places_of (k\<lparr>lheap := h\<rparr>) = places_of k" "places_of (k\<lparr>words := w\<rparr>) = places_of k"
  "places_of (k\<lparr>cpu := c\<rparr>) = places_of k" "places_of (k\<lparr>thread_ticks := tk\<rparr>) = places_of k"
  "places_of (k\<lparr>irq_frame := c\<rparr>) = places_of k" "places_of (set_thread t th k) = places_of k"
  "places_of (poison p n k) = places_of k" "places_of (zero_fill p n k) = places_of k"
  "places_of (cc_fill p n k) = places_of k" "places_of (set_pool_map q m k) = places_of k"
  "places_of (copy_objects a b n k) = places_of k"
  by (simp_all add: places_of_def set_thread_def poison_def zero_fill_def cc_fill_def set_pool_map_def copy_objects_def
      split: pool_ptr.split)

lemma places_level [simp]:
  "places_of (snd (interrupts_set_level l k)) = places_of k" "places_of (snd (interrupts_disable k)) = places_of k"
  by (simp_all add: interrupts_set_level_def interrupts_enable_def interrupts_disable_def Let_def
      enable_irq_interruptions_def disable_irq_interruptions_def)

lemmas unfold_places = bind_eq_Some_conv Let_def map_option_case

section \<open>Memory, lists and pages\<close>

lemma places_memory [places]:
  "set_word a v k = Some k' \<Longrightarrow> places_of k' = places_of k"
  "set_status t s k = Some k' \<Longrightarrow> places_of k' = places_of k"
  "on_lists f k = Some k' \<Longrightarrow> places_of k' = places_of k"
  "pop_list l k = Some (e, k') \<Longrightarrow> places_of k' = places_of k"
  by (auto simp: set_word_def set_status_def on_lists_def pop_list_def unfold_places split: if_splits option.splits)

lemma places_free_pages [places]:
  "palloc_free_multiple p n k = Some k' \<Longrightarrow> places_of k' = places_of k"
  "palloc_free_page p k = Some k' \<Longrightarrow> places_of k' = places_of k"
  by (auto simp: palloc_free_page_def palloc_free_multiple_def unfold_places split: if_splits)

section \<open>Switching\<close>

lemma places_schedule_tail [places]: "thread_schedule_tail p n k = Some k' \<Longrightarrow> places_of k' = places_of k"
  by (auto simp: thread_schedule_tail_def unfold_places split: if_splits dest!: places)

lemma places_frames [places]:
  "write_frame p f k = Some k' \<Longrightarrow> places_of k' = places_of k"
  "thread_save_stack_frame t p k = Some k' \<Longrightarrow> places_of k' = places_of k"
  by (cases "(p, f, k)" rule: write_frame.cases; auto simp: thread_save_stack_frame_def unfold_places split: if_splits)+

lemma places_schedule [places]: "schedule k = Some k' \<Longrightarrow> places_of k' = places_of k"
  by (auto simp: schedule_def thread_get_next_thread_to_run_def schedule_in_interrupt_def schedule_not_in_interrupt_def
      save_and_switch_context_def context_switch_def unfold_places interrupts_disable_def split: if_splits dest!: places)

lemma places_block [places]:
  "thread_block k = Some k' \<Longrightarrow> places_of k' = places_of k"
  "thread_unblock t k = Some k' \<Longrightarrow> places_of k' = places_of k"
  by (auto simp: thread_block_def thread_unblock_def interrupts_disable_def disable_irq_interruptions_def unfold_places
      dest!: places)

section \<open>Semaphores and locks\<close>

lemma places_sema [places]:
  "sema_down_loop s l k = Some (r, k') \<Longrightarrow> places_of k' = places_of k"
  "sema_up s k = Some k' \<Longrightarrow> places_of k' = places_of k"
  by (auto simp: sema_down_loop_def sema_up_def interrupts_disable_def disable_irq_interruptions_def unfold_places
      split: if_splits dest!: places)

lemma places_sema_down [places]: "sema_down s k = Some (r, k') \<Longrightarrow> places_of k' = places_of k"
  by (auto simp: sema_down_def interrupts_disable_def disable_irq_interruptions_def unfold_places dest!: places)

text \<open>A call and its continuation.\<close>

lemma and_thenE:
  assumes "and_then r c f = Some (o', k')"
  obtains v k where "r = Some (Done v, k)" "f v k = Some (o', k')"
  | fs where "r = Some (Switched fs, k')" "o' = Switched (fs @ [c])"
  using assms by (cases "(r, c, f)" rule: and_then.cases) auto

lemma places_lock [places]:
  "lock_acquire_tail l k = Some (r, k') \<Longrightarrow> places_of k' = places_of k"
  "lock_acquire l k = Some (r, k') \<Longrightarrow> places_of k' = places_of k"
  "lock_release l k = Some k' \<Longrightarrow> places_of k' = places_of k"
proof -
  show tl: "lock_acquire_tail l k = Some (r, k') \<Longrightarrow> places_of k' = places_of k" for l k r k'
    by (auto simp: lock_acquire_tail_def unfold_places dest!: places)
  show "lock_acquire l k = Some (r, k') \<Longrightarrow> places_of k' = places_of k"
    by (auto simp: lock_acquire_def unfold_places elim!: and_thenE dest!: places tl)
  show "lock_release l k = Some k' \<Longrightarrow> places_of k' = places_of k"
    by (auto simp: lock_release_def unfold_places dest!: places)
qed

section \<open>The block allocator\<close>

lemma places_pages [places]:
  "get_pages_tail q f n k = Some (r, k') \<Longrightarrow> places_of k' = places_of k"
  "palloc_get_multiple f n k = Some (r, k') \<Longrightarrow> places_of k' = places_of k"
  "palloc_get_page f k = Some (r, k') \<Longrightarrow> places_of k' = places_of k"
proof -
  show tl: "get_pages_tail q f n k = Some (r, k') \<Longrightarrow> places_of k' = places_of k" for q f n k r k'
    by (auto simp: get_pages_tail_def unfold_places split: if_splits dest!: places)
  show m: "palloc_get_multiple f n k = Some (r, k') \<Longrightarrow> places_of k' = places_of k" for f n k r k'
    by (auto simp: palloc_get_multiple_def Let_def split: if_splits elim!: and_thenE dest!: places tl)
  show "palloc_get_page f k = Some (r, k') \<Longrightarrow> places_of k' = places_of k"
    by (auto simp: palloc_get_page_def dest!: m)
qed

lemma places_add_blocks [places]: "add_blocks d a i k = Some k' \<Longrightarrow> places_of k' = places_of k"
proof (induction rule: add_blocks.raw_induct[rotated, consumes 1])
  case (1 self d a i k k')
  then show ?case by (auto simp: unfold_places split: if_splits dest!: places)
qed

lemma places_remove_blocks [places]: "remove_blocks d a i k = Some k' \<Longrightarrow> places_of k' = places_of k"
proof (induction rule: remove_blocks.raw_induct[rotated, consumes 1])
  case (1 self d a i k k')
  then show ?case by (fastforce simp: unfold_places split: if_splits)
qed

lemma places_malloc_parts [places]:
  "init_arena a d n k = Some k' \<Longrightarrow> places_of k' = places_of k"
  "malloc_big_tail n a k = Some (r, k') \<Longrightarrow> places_of k' = places_of k"
  "malloc_take d k = Some (r, k') \<Longrightarrow> places_of k' = places_of k"
  by (auto simp: init_arena_def malloc_big_tail_def malloc_take_def unfold_places split: if_splits dest!: places)

lemma places_malloc_page [places]: "malloc_page d a k = Some (r, k') \<Longrightarrow> places_of k' = places_of k"
  by (auto simp: malloc_page_def unfold_places split: if_splits dest!: places)

lemma places_malloc_locked [places]: "malloc_locked d k = Some (r, k') \<Longrightarrow> places_of k' = places_of k"
  by (auto simp: malloc_locked_def unfold_places split: if_splits elim!: and_thenE dest!: places)

lemma malloc_places: "malloc ms sz k = Some (r, k') \<Longrightarrow> places_of k' = places_of k"
  by (auto simp: malloc_def unfold_places split: if_splits elim!: and_thenE dest!: places)

lemma places_free_locked [places]: "free_locked p k = Some (r, k') \<Longrightarrow> places_of k' = places_of k"
  by (auto simp: free_locked_def unfold_places split: if_splits dest!: places)

lemma free_places: "free p k = Some (r, k') \<Longrightarrow> places_of k' = places_of k"
  by (auto simp: free_def unfold_places split: if_splits elim!: and_thenE dest!: places)

end
