(* ===== verification/Kernel_Malloc_Lists.thy ===== *)
theory Kernel_Malloc_Lists
  imports Kernel_Malloc_Client Kernel_Places
begin

text \<open>
  Clients of the block allocator may keep lists in their blocks.  What the lists of the scheduler
  and of the allocator are is fixed by \<open>kernel_lists\<close>; all others are the client's, and the client
  may add, change and drop them as long as they stay inside its blocks.
\<close>

definition kernel_lists :: "malloc_statics \<Rightarrow> kernel \<Rightarrow> addr set \<Rightarrow> addr set" where
  "kernel_lists ms k W = insert (ready_list k) (insert (all_list k) W) \<union>
     {waiters_of (semaphore_of (pool_lock (kernel_pool k)))} \<union>
     (\<Union>i \<in> {0..<7}. {free_list_of (desc_of ms i), waiters_of (semaphore_of (desc_lock (desc_of ms i)))})"

lemma kernel_lists_places: "places_of k' = places_of k \<Longrightarrow> kernel_lists ms k' W = kernel_lists ms k W"
  by (simp add: kernel_lists_def places_of_def)

text \<open>\<open>in_blocks U q\<close>: the address \<open>q\<close> is inside one of the blocks \<open>U\<close>.\<close>

definition in_blocks :: "(addr \<times> nat) set \<Rightarrow> addr \<Rightarrow> bool" where
  "in_blocks U q \<longleftrightarrow> (\<exists>b c. (b, c) \<in> U \<and> in_range b c q)"

lemma in_blocksI: "(b, c) \<in> U \<Longrightarrow> in_range b c q \<Longrightarrow> in_blocks U q"
  by (auto simp: in_blocks_def)

lemma in_blocks_mono: "in_blocks U q \<Longrightarrow> U \<subseteq> V \<Longrightarrow> in_blocks V q"
  by (auto simp: in_blocks_def)

lemma keeps_usedD:
  assumes "keeps_used U k k'" "in_blocks U q"
  shows "words k' q = words k q" "lheap k' q = lheap k q"
  using assms unfolding keeps_used_def in_blocks_def by auto

text \<open>The memory in use is memory.\<close>

lemma blocks_memory:
  assumes al: "allocator E ms k L cur rs ts W xs A" and q: "in_blocks (in_use xs A) q"
  shows "q \<noteq> NULL" "q \<in> dom (lheap k)" "q \<in> dom (words k)" "q \<notin> set ts" "q \<notin> elem_of ` set ts"
    "0x40000 \<le> unat q" "valid (lheap k) q"
proof -
  note D = allocatorD[OF al]
  obtain b c where u: "(b, c) \<in> in_use xs A" "in_range b c q" using q by (auto simp: in_blocks_def)
  show high: "0x40000 \<le> unat q" by (rule used_memory(1)[OF al u])
  then show "q \<noteq> NULL" by auto
  obtain a r where a: "A a = Some r" "in_range a (arena_size r) q" using used_memory(4)[OF al u] by blast
  then show "q \<notin> elem_of ` set ts" using elem_not_in_arena(1)[OF al a(1)] by blast
  have "q \<in> dom (lheap k) \<and> q \<in> dom (words k) \<and> q \<notin> set ts"
    using heapD(7)[OF D(3)] a unfolding arena_memory_def by blast
  then show "q \<in> dom (lheap k)" "q \<in> dom (words k)" "q \<notin> set ts" "valid (lheap k) q"
    using \<open>q \<noteq> NULL\<close> by (auto simp: valid_def)
qed

text \<open>No free page is in use.\<close>

lemma used_not_free_page:
  assumes al: "allocator E ms k L cur rs ts W xs A" and q: "in_blocks (in_use xs A) q"
    and i: "i < page_cnt (kernel_pool k)" "i \<notin> used_bits (used_map (kernel_pool k))"
  shows "\<not> in_range (page_at (kernel_pool k) i) 4096 q"
proof -
  note D = allocatorD[OF al]
  obtain b c where u: "(b, c) \<in> in_use xs A" "in_range b c q" using q by (auto simp: in_blocks_def)
  obtain a r where a: "A a = Some r" "in_range a (arena_size r) q" using used_memory(4)[OF al u] by blast
  show ?thesis by (rule arena_page_used[OF D(2,3) a i])
qed

text \<open>
  The step: the client's lists change from those of \<open>L\<close> to those of \<open>L'\<close>, and words inside its
  blocks change.
\<close>

lemma client_step:
  assumes al: "allocator E ms k L cur rs ts W xs A" and fam: "ll.family h' L'"
    and dm: "dom (lheap k) \<subseteq> dom h'" and KL: "\<And>l. l \<in> kernel_lists ms k W \<Longrightarrow> L' l = L l"
    and own: "\<And>q. q \<in> ll.owned L' \<Longrightarrow> q \<notin> ll.owned L \<Longrightarrow> in_blocks (in_use xs A) q"
    and w: "dom (words k) \<subseteq> dom w'" "\<And>q. w' q \<noteq> words k q \<Longrightarrow> in_blocks (in_use xs A) q"
  shows "allocator E ms (k\<lparr>lheap := h', words := w'\<rparr>) L' cur rs ts W xs A"
proof -
  let ?k = "k\<lparr>lheap := h', words := w'\<rparr>"
  note D = allocatorD[OF al]
  have low: "words ?k q = words k q" if "unat q < 0x40000" for q
    using blocks_memory(6)[OF al w(2)[of q]] that by (auto simp: not_le[symmetric])
  have KL': "L' l = L l" if "l \<in> insert (ready_list k) (insert (all_list k) W)" for l
    by (rule KL) (use that in \<open>auto simp: kernel_lists_def\<close>)
  have oe: "elem_of t \<in> ll.owned L" if "t \<in> set ts" "elem_of t \<in> ll.owned L'" for t
    using own[OF that(2)] blocks_memory(5)[OF al] that(1) by blast
  have sc: "sched ?k L' cur rs ts W"
    by (rule sched_step[OF D(1)]) (use fam dm KL' oe in \<open>auto simp: valid_def\<close>)
  have pl: "pool_ok ?k L' ts"
  proof (rule pool_ok_step[OF D(2) low, where m = "used_map (kernel_pool k)"])
    show "L' (waiters_of (semaphore_of (pool_lock (kernel_pool k)))) = Some []"
      using KL[of "waiters_of (semaphore_of (pool_lock (kernel_pool k)))"] pool_okD(1)[OF D(2)]
      by (simp add: kernel_lists_def lock_free_def)
    show "\<not> in_range (page_at (kernel_pool k) i) 4096 q"
      if "i < page_cnt (kernel_pool k)" "i \<notin> used_bits (used_map (kernel_pool k))" "q \<in> ll.owned L' \<union> set ts" for i q
      using that pool_okD(7)[OF D(2) that(1,2)] used_not_free_page[OF al _ that(1,2)] own[of q] by blast
    show "bm_wf (used_map (kernel_pool k))" by (rule pool_okD(3)[OF D(2)])
  qed simp_all
  have hdr: "arena_header E ms (words ?k) xs a r" if a: "A a = Some r" for a r
  proof -
    note F = arena_facts[OF D(2,3) a] note H = header_at[OF F(1)]
    have "words ?k q = words k q" if q: "in_range a 12 q" for q
    proof (rule ccontr)
      assume "words ?k q \<noteq> words k q"
      then obtain b c where "(b, c) \<in> in_use xs A" "in_range b c q" using w(2)[of q] by (auto simp: in_blocks_def)
      then show False using used_memory(2)[OF al _ _ a] q by blast
    qed
    moreover have "in_range a 12 a" "in_range a 12 (desc_at a)" "in_range a 12 (free_cnt_at a)"
      using H by (auto simp: in_range_def)
    ultimately show ?thesis by (intro arena_header_cong[OF heapD(6)[OF D(3) a]]) auto
  qed
  have mem: "arena_memory ?k L' ts xs a r" if a: "A a = Some r" for a r
    unfolding arena_memory_def
  proof (intro allI impI conjI)
    fix q assume q: "in_range a (arena_size r) q"
    note M = heapD(7)[OF D(3) a, unfolded arena_memory_def, rule_format, OF q]
    show "q \<in> dom (lheap ?k)" "q \<in> dom (words ?k)" "q \<notin> set ts" using M dm w(1) by auto
    assume q': "q \<in> ll.owned L'"
    show "\<exists>b c. (b, c) \<in> slots a r \<and> in_range b c q \<and> (b \<in> free_blocks xs \<longrightarrow> q = b)"
    proof (cases "q \<in> ll.owned L")
      case True
      then show ?thesis using M by blast
    next
      case False
      then obtain b c where b: "(b, c) \<in> in_use xs A" "in_range b c q" using own[OF q'] by (auto simp: in_blocks_def)
      then obtain a' r' where a': "A a' = Some r'" "(b, c) \<in> slots a' r'" "b \<notin> free_blocks xs" by (auto simp: in_use_def)
      note F = arena_facts[OF D(2,3) a'(1)]
      have "in_range a' (arena_size r') q" by (rule slot_range(1)[OF F(1,4) a'(2) b(2) F(6)])
      then have "a' = a" using heapD(8)[OF D(3) a'(1) a _ q] by blast
      then show ?thesis using a' a b(2) by auto
    qed
  qed
  have "L' (free_list_of (desc_of ms i)) = Some (xs i) \<and> lock_free ?k L' (desc_lock (desc_of ms i))" if i: "i < 7" for i
  proof -
    have "free_list_of (desc_of ms i) \<in> kernel_lists ms k W" "waiters_of (semaphore_of (desc_lock (desc_of ms i))) \<in> kernel_lists ms k W"
      using i unfolding kernel_lists_def by fastforce+
    from KL[OF this(1)] KL[OF this(2)] show ?thesis
      using heapD(2)[OF D(3) i] lock_free_low[OF heapD(3)[OF D(3) i] low desc_lock_low[OF D(8) i]] by simp
  qed
  then have hp: "heap E ms ?k L' ts xs A"
    using heapD(4,5,8)[OF D(3)] descs_ok_low[OF D(7) low] hdr mem unfolding heap_def by simp
  show ?thesis
    using D(4-6) sc pl hp unfolding allocator_def by (simp; blast)
qed

lemma client_lists:
  assumes "allocator E ms k L cur rs ts W xs A" "ll.family h' L'" "dom (lheap k) \<subseteq> dom h'"
    "\<And>l. l \<in> kernel_lists ms k W \<Longrightarrow> L' l = L l"
    "\<And>q. q \<in> ll.owned L' \<Longrightarrow> q \<notin> ll.owned L \<Longrightarrow> in_blocks (in_use xs A) q"
  shows "allocator E ms (k\<lparr>lheap := h'\<rparr>) L' cur rs ts W xs A"
proof -
  have "allocator E ms (k\<lparr>lheap := h', words := words k\<rparr>) L' cur rs ts W xs A"
    by (rule client_step[OF assms]) simp_all
  then show ?thesis by simp
qed

lemma client_word:
  assumes al: "allocator E ms k L cur rs ts W xs A" and a: "in_blocks (in_use xs A) a"
  shows "\<exists>k'. set_word a v k = Some k' \<and> k' = k\<lparr>words := (words k)(a \<mapsto> v)\<rparr> \<and> allocator E ms k' L cur rs ts W xs A"
proof -
  have "allocator E ms (k\<lparr>lheap := lheap k, words := (words k)(a \<mapsto> v)\<rparr>) L cur rs ts W xs A"
    by (rule client_step[OF al free_list_family(2)[OF al, of 0]]) (use a in \<open>auto split: if_splits\<close>)
  then show ?thesis using blocks_memory(1,3)[OF al a] by (auto simp: set_word_def)
qed

end
