(* ===== verification/Kernel_Hash_Rep.thy ===== *)
theory Kernel_Hash_Rep
  imports Kernel_Hash Kernel_Malloc_Lists
begin

text \<open>
  The hash tables, first part: the contract with the client's functions (locale \<open>hash_client\<close>), the
  representation of a table, and searching.
\<close>

section \<open>Families of lists\<close>

lemma family_push_front:
  assumes fam: "ll.family h L" and l: "L l = Some xs" and e: "valid h e" "e \<notin> ll.owned L"
  shows "\<exists>h'. list_push_front h l e = Some h' \<and> ll.family h' (L(l \<mapsto> e # xs)) \<and> modifies h h' (insert e (ll.owned L))"
proof -
  have "e \<notin> set (nodes l xs)" using e(2) ll.ownedI[of L l xs e] l by blast
  then obtain h' where h': "list_push_front h l e = Some h'" "dlist h' l (e # xs)" "modifies h h' (insert e (set (nodes l xs)))"
    using list_push_front_dlist[OF ll.familyD(1)[OF fam l] e(1)] by blast
  have "ll.family h' (L(l \<mapsto> e # xs))"
    by (rule ll.family_update[OF fam l h'(2,3), of "{e}"]) (use e(2) in \<open>auto simp: set_nodes\<close>)
  moreover have "modifies h h' (insert e (ll.owned L))"
    by (rule modifies_mono[OF h'(3)]) (use ll.ownedI[of L l xs] l in blast)
  ultimately show ?thesis using h'(1) by blast
qed

lemma owned_upd: "q \<in> ll.owned (L(l \<mapsto> xs)) \<Longrightarrow> q \<in> ll.owned L \<or> q \<in> set (nodes l xs)"
  by (auto elim!: ll.ownedE intro: ll.ownedI split: if_splits)

lemma family_new_list:
  assumes fam: "ll.family h L" and v: "valid h l" "valid h (tail_of l)"
    and out: "l \<notin> ll.owned L" "tail_of l \<notin> ll.owned L"
  shows "\<exists>h'. list_init h l = Some h' \<and> ll.family h' (L(l \<mapsto> [])) \<and> modifies h h' {l, tail_of l}"
proof -
  obtain h' where h': "list_init h l = Some h'" "dlist h' l []" "modifies h h' {head_of l, tail_of l}"
    using list_init_dlist[OF v] by blast
  have n: "set (nodes l []) = {l, tail_of l}" by (simp add: nodes_def head_of_def)
  have "L l = None"
  proof (rule ccontr)
    assume "L l \<noteq> None"
    then obtain zs where "L l = Some zs" by blast
    then show False using ll.ownedI[of L l zs l] out(1) by (simp add: set_nodes head_of_def)
  qed
  have dis: "{l, tail_of l} \<inter> set (nodes m zs) = {}" if "L m = Some zs" for m zs
    using ll.ownedI[of L m zs] that out by blast
  have "ll.family h' L" by (rule ll.family_cong[OF fam h'(3)]) (use out in \<open>auto simp: head_of_def\<close>)
  then have "ll.family h' (L(l \<mapsto> []))"
    using h'(2) n dis unfolding ll.family_def by (auto simp: Int_commute split: if_splits)
  then show ?thesis using h' by (auto simp: head_of_def)
qed

lemma family_drop: "ll.family h L \<Longrightarrow> ll.family h (L |` X)"
  unfolding ll.family_def by (auto simp: restrict_map_def split: if_splits)

lemma owned_drop: "q \<in> ll.owned (L |` X) \<Longrightarrow> q \<in> ll.owned L"
  by (auto elim!: ll.ownedE intro: ll.ownedI simp: restrict_map_def split: if_splits)

section \<open>Powers of two\<close>

lemma and_mask:
  assumes "m < 32"
  shows "v AND (of_nat (2 ^ m) - 1) = (of_nat (unat v mod 2 ^ m) :: u32)"
proof -
  have "(of_nat (2 ^ m) - 1 :: u32) = mask m" by (simp add: mask_eq_exp_minus_1)
  then have "v AND (of_nat (2 ^ m) - 1) = take_bit m v" by (simp add: take_bit_eq_mask)
  also have "\<dots> = of_nat (unat (take_bit m v))" by simp
  also have "unat (take_bit m v) = take_bit m (unat v)" by (rule unsigned_take_bit_eq)
  also have "\<dots> = unat v mod 2 ^ m" by (rule take_bit_eq_mod)
  finally show ?thesis .
qed

section \<open>The functions of the client\<close>

text \<open>
  What is known of a client: \<open>key_ready C k e\<close> says that in memory \<open>k\<close> the element \<open>e\<close> has its key
  \<open>key_of C e\<close>, which the functions of the client find in the words \<open>key_data C e\<close>.
\<close>

record 'k client =
  key_ready :: "kernel \<Rightarrow> addr \<Rightarrow> bool"
  key_of :: "addr \<Rightarrow> 'k"
  key_hash :: "'k \<Rightarrow> u32"
  key_data :: "addr \<Rightarrow> addr set"
  hash_ptr :: addr
  less_ptr :: addr
  aux_ptr :: addr

locale hash_client =
  fixes hc :: hash_code and C :: "'k::linorder client"
  assumes hash_law: "key_ready C k e \<Longrightarrow> hash_fun hc (hash_ptr C) e (aux_ptr C) k = Some (key_hash C (key_of C e))"
    and less_law: "key_ready C k a \<Longrightarrow> key_ready C k b \<Longrightarrow>
      less_fun hc (less_ptr C) a b (aux_ptr C) k = Some (key_of C a < key_of C b)"
    and data_law: "key_ready C k e \<Longrightarrow> (\<And>q. q \<in> key_data C e \<Longrightarrow> words k' q = words k q) \<Longrightarrow> key_ready C k' e"

section \<open>Tables\<close>

abbreviation bucket :: "addr \<Rightarrow> nat \<Rightarrow> addr" where
  "bucket bs i \<equiv> bucket_at bs (of_nat i)"

definition elems :: "nat \<Rightarrow> (nat \<Rightarrow> addr list) \<Rightarrow> addr set" where
  "elems n ys = (\<Union>i \<in> {0..<n}. set (ys i))"

definition elem_count :: "nat \<Rightarrow> (nat \<Rightarrow> addr list) \<Rightarrow> nat" where
  "elem_count n ys = (\<Sum>i = 0..<n. length (ys i))"

text \<open>The words of \<open>struct hash\<close>.\<close>

definition hash_words :: "addr \<Rightarrow> addr set" where
  "hash_words h = {elem_cnt_at h, bucket_cnt_at h, buckets_at h, hash_at h, less_at h, aux_at h}"

definition hash_fields :: "kernel \<Rightarrow> addr \<Rightarrow> size_t \<Rightarrow> nat \<Rightarrow> addr \<Rightarrow> 'k client \<Rightarrow> bool" where
  "hash_fields k h cnt n bs C \<longleftrightarrow> NULL \<notin> hash_words h \<and>
     words k (elem_cnt_at h) = Some cnt \<and> words k (bucket_cnt_at h) = Some (of_nat n) \<and>
     words k (buckets_at h) = Some bs \<and> words k (hash_at h) = Some (hash_ptr C) \<and> words k (less_at h) = Some (less_ptr C) \<and>
     words k (aux_at h) = Some (aux_ptr C)"

lemma hash_fieldsD:
  assumes "hash_fields k h cnt n bs C"
  shows "word_at k (elem_cnt_at h) = Some cnt" "word_at k (bucket_cnt_at h) = Some (of_nat n)"
    "word_at k (buckets_at h) = Some bs" "word_at k (hash_at h) = Some (hash_ptr C)" "word_at k (less_at h) = Some (less_ptr C)"
    "word_at k (aux_at h) = Some (aux_ptr C)" "h \<noteq> NULL"
  using assms by (auto simp: hash_fields_def word_at_def hash_words_def elem_cnt_at_def)

text \<open>What a sequence of buckets holds: every element hangs in the bucket of its hash value.\<close>

definition power_size :: "nat \<Rightarrow> bool" where
  "power_size n \<longleftrightarrow> (\<exists>m. 2 \<le> m \<and> m \<le> 26 \<and> n = 2 ^ m)"

lemma power_sizeD:
  assumes "power_size n"
  shows "4 \<le> n" "n \<le> 2 ^ 26" "unat (of_nat n :: u32) = n" "i < n \<Longrightarrow> unat (of_nat i :: u32) = i" "n < 2 ^ 32"
proof -
  obtain m where m: "2 \<le> m" "m \<le> 26" "n = 2 ^ m" using assms by (auto simp: power_size_def)
  show "4 \<le> n" using power_increasing[OF m(1), of "2::nat"] m(3) by simp
  show le: "n \<le> 2 ^ 26" using power_increasing[OF m(2), of "2::nat"] m(3) by simp
  then show "n < 2 ^ 32" by simp
  show "unat (of_nat n :: u32) = n" "i < n \<Longrightarrow> unat (of_nat i :: u32) = i" using le by (simp_all add: unat_of_nat)
qed

text \<open>The bucket of an element with the key \<open>key_of C e\<close>, and the first element of a bucket with its key.\<close>

definition place :: "'k client \<Rightarrow> nat \<Rightarrow> addr \<Rightarrow> nat" where
  "place C n e = unat (key_hash C (key_of C e)) mod n"

primrec found :: "'k client \<Rightarrow> addr \<Rightarrow> addr list \<Rightarrow> addr" where
  "found C e [] = NULL"
| "found C e (x # xs) = (if key_of C x = key_of C e then x else found C e xs)"

lemma found_None: "NULL \<notin> set xs \<Longrightarrow> found C e xs = NULL \<longleftrightarrow> (\<forall>x \<in> set xs. key_of C x \<noteq> key_of C e)"
  by (induction xs) auto

lemma found_Some: "found C e xs \<noteq> NULL \<Longrightarrow> found C e xs \<in> set xs \<and> key_of C (found C e xs) = key_of C e"
  by (induction xs) (auto split: if_splits)

context hash_client
begin

lemma find_bucket_eq:
  assumes "hash_fields k h cnt n bs C" "power_size n" "key_ready C k e"
  shows "find_bucket hc h e k = Some (bucket bs (place C n e))"
proof -
  obtain m where m: "m \<le> 26" "n = 2 ^ m" using assms(2) by (auto simp: power_size_def)
  then have "key_hash C (key_of C e) AND (of_nat n - 1) = of_nat (place C n e)" using and_mask[of m] by (simp add: place_def)
  then show ?thesis
    using hash_fieldsD[OF assms(1)] hash_law[OF assms(3)] by (simp add: find_bucket_def)
qed

lemma call_less_eq:
  assumes "hash_fields k h cnt n bs C" "key_ready C k a" "key_ready C k b"
  shows "call_less hc h a b k = Some (key_of C a < key_of C b)"
  using hash_fieldsD[OF assms(1)] less_law[OF assms(2,3)] by (simp add: call_less_def)

lemma find_elem_loop_eq:
  assumes fields: "hash_fields k h cnt n bs C" and e: "key_ready C k e"
    and "dlist (lheap k) b (us @ xs)" "\<forall>x \<in> set xs. key_ready C k x"
  shows "find_elem_loop hc h b e (hd (xs @ [tail_of b])) k = Some (found C e xs)"
  using assms(3,4)
proof (induction xs arbitrary: us)
  case Nil
  then show ?case by (subst find_elem_loop.simps) (simp add: list_end_dlist)
next
  case (Cons x xs)
  have ne: "x \<noteq> tail_of b" using dlistD(1)[OF Cons.prems(1)] by (auto simp: nodes_def)
  have r: "key_ready C k x" using Cons.prems(2) by simp
  have next_x: "list_next (lheap k) x = Some (hd (xs @ [tail_of b]))" by (rule list_next_dlist[OF Cons.prems(1)])
  have IH: "find_elem_loop hc h b e (hd (xs @ [tail_of b])) k = Some (found C e xs)"
    by (rule Cons.IH[of "us @ [x]"]) (use Cons.prems in simp_all)
  have en: "list_end b = Some (tail_of b)" by (rule list_end_dlist[OF Cons.prems(1)])
  show ?case
    using ne IH next_x en call_less_eq[OF fields r e] call_less_eq[OF fields e r]
    by (subst find_elem_loop.simps) (auto simp: list_elem_to_hash_elem_def Let_def)
qed

lemma find_elem_eq:
  assumes "hash_fields k h cnt n bs C" "key_ready C k e" "dlist (lheap k) b xs" "\<forall>x \<in> set xs. key_ready C k x"
  shows "find_elem hc h b e k = Some (found C e xs)"
  using find_elem_loop_eq[OF assms(1,2), of b "[]" xs] assms(3,4) list_begin_dlist[OF assms(3)]
  by (simp add: find_elem_def)

end

end
