(* ===== verification/Kernel_Hash_Table.thy ===== *)
theory Kernel_Hash_Table
  imports Kernel_Hash_Rep
begin

text \<open>
  The hash tables, second part: the invariant of a table in the blocks of the block allocator, and
  how one element enters and leaves it.
\<close>

section \<open>Addresses of buckets\<close>

lemma used_block_bound:
  assumes al: "allocator E ms k L cur rs ts W xs A" and u: "(b, c) \<in> in_use xs A"
  shows "unat b + c \<le> 0x20000000" "0 < c"
proof -
  note D = allocatorD[OF al]
  obtain a r where a: "A a = Some r" "(b, c) \<in> slots a r" using u unfolding in_use_def by auto
  note F = arena_facts[OF D(2,3) a(1)]
  have s: "in_range b c b" "0 < c" using slot_self[OF a(2) F(6) F(5)] by auto
  then show "0 < c" by simp
  have low: "unat q < 0x20000000" if "in_range b c q" for q
    using slot_range(1)[OF F(1,4) a(2) that F(6)] F(4) by (simp add: in_range_def)
  show "unat b + c \<le> 0x20000000"
  proof (rule ccontr)
    assume "\<not> unat b + c \<le> 0x20000000"
    then have "in_range b c 0x20000000" using low[OF s(1)] by (simp add: in_range_def)
    from low[OF this] show False by simp
  qed
qed

lemma bucket_addr:
  assumes "unat bs + 16 * n \<le> 0x20000000" "i < n"
  shows "unat (bucket bs i) = unat bs + 16 * i" "unat (tail_of (bucket bs i)) = unat bs + 16 * i + 8"
proof -
  have "bucket bs i = bs + of_nat (16 * i)" by (simp add: bucket_at_def sizeof_list_def)
  moreover have "unat (bs + of_nat (16 * i)) = unat bs + 16 * i" using assms by (intro unat_add_nat) simp
  ultimately show 1: "unat (bucket bs i) = unat bs + 16 * i" by simp
  have "unat (bucket bs i + of_nat 8) = unat (bucket bs i) + 8" using assms 1 by (intro unat_add_nat) simp
  then show "unat (tail_of (bucket bs i)) = unat bs + 16 * i + 8" using 1 by (simp add: tail_of_def)
qed

lemma bucket_inject:
  assumes "unat bs + 16 * n \<le> 0x20000000" "i < n" "j < n"
  shows "bucket bs i = bucket bs j \<longleftrightarrow> i = j"
proof
  assume "bucket bs i = bucket bs j"
  then have "unat bs + 16 * i = unat bs + 16 * j"
    unfolding bucket_addr(1)[OF assms(1,2), symmetric] bucket_addr(1)[OF assms(1,3), symmetric] by (rule arg_cong)
  then show "i = j" by simp
qed (rule arg_cong)

lemma bucket_in_block:
  assumes "unat bs + 16 * n \<le> 0x20000000" "i < n" "16 * n \<le> c"
  shows "in_range bs c (bucket bs i)" "in_range bs c (tail_of (bucket bs i))"
proof -
  have le: "16 * i + 8 < c" using assms(2,3) by linarith
  have a: "unat bs \<le> unat bs + 16 * i" "unat bs + 16 * i < unat bs + c"
    "unat bs \<le> unat bs + 16 * i + 8" "unat bs + 16 * i + 8 < unat bs + c"
    using le by simp_all
  show "in_range bs c (bucket bs i)"
    unfolding in_range_def bucket_addr(1)[OF assms(1,2)] by (intro conjI a)
  show "in_range bs c (tail_of (bucket bs i))"
    unfolding in_range_def bucket_addr(2)[OF assms(1,2)] by (intro conjI a)
qed

section \<open>The invariant\<close>

definition bucket_chains :: "'k client \<Rightarrow> kernel \<Rightarrow> (addr \<rightharpoonup> addr list) \<Rightarrow> addr \<Rightarrow> nat \<Rightarrow> (nat \<Rightarrow> addr list) \<Rightarrow> bool" where
  "bucket_chains C k L bs n ys \<longleftrightarrow>
     (\<forall>i < n. L (bucket bs i) = Some (ys i) \<and> (\<forall>e \<in> set (ys i). key_ready C k e \<and> place C n e = i))"

definition hash_table ::
  "'k client \<Rightarrow> kernel \<Rightarrow> (addr \<rightharpoonup> addr list) \<Rightarrow> addr \<Rightarrow> addr \<Rightarrow> nat \<Rightarrow> (nat \<Rightarrow> addr list) \<Rightarrow> bool" where
  "hash_table C k L h bs n ys \<longleftrightarrow> power_size n \<and> hash_fields k h (of_nat (elem_count n ys)) n bs C \<and>
     bucket_chains C k L bs n ys \<and> inj_on (key_of C) (elems n ys)"

text \<open>
  Where the buckets, \<open>struct hash\<close>, the elements and their keys lie: in blocks in use, the buckets in
  a block \<open>(bs, c)\<close> of their own, and no list of the kernel is a bucket.
\<close>

definition block_of_buckets ::
  "addr set \<Rightarrow> (addr \<rightharpoonup> addr list) \<Rightarrow> (addr \<times> nat) set \<Rightarrow> addr \<Rightarrow> nat \<Rightarrow> nat \<Rightarrow> bool" where
  "block_of_buckets K L U bs n c \<longleftrightarrow> (bs, c) \<in> U \<and> 16 * n \<le> c \<and> (\<forall>i < n. bucket bs i \<notin> K) \<and>
     (\<forall>q. in_range bs c q \<longrightarrow> q \<in> ll.owned L \<longrightarrow> (\<exists>i < n. q = bucket bs i \<or> q = tail_of (bucket bs i)))"

definition outside :: "'k client \<Rightarrow> (addr \<times> nat) set \<Rightarrow> addr \<Rightarrow> addr set \<Rightarrow> bool" where
  "outside C U h E \<longleftrightarrow> (\<forall>q \<in> hash_words h \<union> E \<union> (\<Union>e \<in> E. key_data C e). in_blocks U q) \<and>
     (\<forall>e \<in> E. key_data C e \<inter> hash_words h = {})"

text \<open>
  The invariant for clients: \<open>S\<close> are the elements in the table, \<open>F\<close> are elements that the client holds
  and that are in no list.  The bound on their number is more than the memory holds.
\<close>

definition hash_state ::
  "'k client \<Rightarrow> malloc_statics \<Rightarrow> addr \<Rightarrow> addr list \<Rightarrow> addr list \<Rightarrow> addr set \<Rightarrow> addr \<Rightarrow>
   kernel \<Rightarrow> (addr \<rightharpoonup> addr list) \<Rightarrow> (addr \<times> nat) set \<Rightarrow> addr \<Rightarrow> nat \<Rightarrow> nat \<Rightarrow> (nat \<Rightarrow> addr list) \<Rightarrow> addr set \<Rightarrow> bool" where
  "hash_state C ms cur rs ts W h k L U bs c n ys F \<longleftrightarrow>
     (\<exists>xs A. allocator {} ms k L cur rs ts W xs A \<and> in_use xs A = U) \<and>
     hash_table C k L h bs n ys \<and> block_of_buckets (kernel_lists ms k W) L U bs n c \<and>
     outside C (U - {(bs, c)}) h (elems n ys \<union> F) \<and>
     elems n ys \<inter> F = {} \<and> finite F \<and> card (elems n ys \<union> F) < 2 ^ 26 \<and> (\<forall>e \<in> F. key_ready C k e \<and> e \<notin> ll.owned L)"

definition hash_inv ::
  "'k client \<Rightarrow> malloc_statics \<Rightarrow> addr \<Rightarrow> addr list \<Rightarrow> addr list \<Rightarrow> addr set \<Rightarrow> addr \<Rightarrow> kernel \<Rightarrow> addr set \<Rightarrow> addr set \<Rightarrow> bool" where
  "hash_inv C ms cur rs ts W h k S F \<longleftrightarrow>
     (\<exists>L U bs c n ys. hash_state C ms cur rs ts W h k L U bs c n ys F \<and> elems n ys = S)"

lemma hash_stateD:
  assumes "hash_state C ms cur rs ts W h k L U bs c n ys F"
  shows "\<exists>xs A. allocator {} ms k L cur rs ts W xs A \<and> in_use xs A = U" "hash_table C k L h bs n ys"
    "block_of_buckets (kernel_lists ms k W) L U bs n c" "outside C (U - {(bs, c)}) h (elems n ys \<union> F)"
    "elems n ys \<inter> F = {}" "finite F" "card (elems n ys \<union> F) < 2 ^ 26"
    "\<And>e. e \<in> F \<Longrightarrow> key_ready C k e" "\<And>e. e \<in> F \<Longrightarrow> e \<notin> ll.owned L"
  using assms unfolding hash_state_def by blast+

lemma hash_tableD:
  assumes "hash_table C k L h bs n ys"
  shows "power_size n" "hash_fields k h (of_nat (elem_count n ys)) n bs C" "bucket_chains C k L bs n ys" "inj_on (key_of C) (elems n ys)"
    "\<And>i. i < n \<Longrightarrow> L (bucket bs i) = Some (ys i)" "\<And>i e. i < n \<Longrightarrow> e \<in> set (ys i) \<Longrightarrow> key_ready C k e"
    "\<And>i e. i < n \<Longrightarrow> e \<in> set (ys i) \<Longrightarrow> place C n e = i"
  using assms unfolding hash_table_def bucket_chains_def by blast+

lemma place_less: "power_size n \<Longrightarrow> place C n e < n"
  using power_sizeD(1)[of n] by (simp add: place_def)

lemma in_elems: "e \<in> elems n ys \<longleftrightarrow> (\<exists>i < n. e \<in> set (ys i))"
  by (auto simp: elems_def)

lemma finite_elems [simp]: "finite (elems n ys)"
  by (simp add: elems_def)

text \<open>The elements with a key are in one bucket.\<close>

lemma place_elems:
  assumes "hash_table C k L h bs n ys" "e \<in> elems n ys"
  shows "e \<in> set (ys (place C n e))"
  using assms hash_tableD(7)[OF assms(1)] by (auto simp: in_elems)

lemma same_place: "key_of C x = key_of C e \<Longrightarrow> place C n x = place C n e"
  by (simp add: place_def)

lemma found_spec:
  assumes t: "hash_table C k L h bs n ys" and z: "NULL \<notin> elems n ys" and r: "r = found C e (ys (place C n e))"
  shows "r \<noteq> NULL \<Longrightarrow> r \<in> elems n ys \<and> key_of C r = key_of C e" "r = NULL \<Longrightarrow> x \<in> elems n ys \<Longrightarrow> key_of C x \<noteq> key_of C e"
proof -
  have pl: "place C n e < n" by (rule place_less[OF hash_tableD(1)[OF t]])
  show "r \<in> elems n ys \<and> key_of C r = key_of C e" if "r \<noteq> NULL"
    using found_Some[of C e "ys (place C n e)"] that r pl by (auto simp: in_elems)
  show "key_of C x \<noteq> key_of C e" if "r = NULL" "x \<in> elems n ys"
  proof
    assume eq: "key_of C x = key_of C e"
    then have "x \<in> set (ys (place C n e))" using place_elems[OF t that(2)] same_place[of C x e n] by simp
    moreover have "NULL \<notin> set (ys (place C n e))" using z pl by (auto simp: in_elems)
    ultimately show False using found_None[of "ys (place C n e)" C e] that(1) r eq by auto
  qed
qed

section \<open>How many elements\<close>

lemma bucket_chains_disjoint:
  assumes fam: "ll.family hp L" and ch: "bucket_chains C k L bs n ys" and b: "unat bs + 16 * n \<le> 0x20000000"
  shows "i < n \<Longrightarrow> distinct (ys i)" "i < n \<Longrightarrow> j < n \<Longrightarrow> i \<noteq> j \<Longrightarrow> set (ys i) \<inter> set (ys j) = {}"
    "i < n \<Longrightarrow> e \<in> set (ys i) \<Longrightarrow> valid hp e \<and> e \<noteq> NULL"
proof -
  have L: "L (bucket bs i) = Some (ys i)" if "i < n" for i using ch that by (simp add: bucket_chains_def)
  show "distinct (ys i)" if "i < n"
    using dlistD(1)[OF ll.familyD(1)[OF fam L[OF that]]] by (simp add: nodes_def)
  show "valid hp e \<and> e \<noteq> NULL" if "i < n" "e \<in> set (ys i)"
    using dlist_valid[OF ll.familyD(1)[OF fam L[OF that(1)]] that(2)] valid_not_NULL by blast
  show "set (ys i) \<inter> set (ys j) = {}" if "i < n" "j < n" "i \<noteq> j"
  proof -
    have "bucket bs i \<noteq> bucket bs j" using bucket_inject[OF b that(1,2)] that(3) by simp
    from ll.familyD(2)[OF fam L[OF that(1)] L[OF that(2)] this] show ?thesis by (auto simp: set_nodes)
  qed
qed

lemma count_card:
  assumes "\<And>i. i < n \<Longrightarrow> distinct (ys i)" "\<And>i j. i < n \<Longrightarrow> j < n \<Longrightarrow> i \<noteq> j \<Longrightarrow> set (ys i) \<inter> set (ys j) = {}"
  shows "elem_count n ys = card (elems n ys)"
  using assms
proof (induction n)
  case (Suc n)
  have "elems (Suc n) ys = elems n ys \<union> set (ys n)" by (auto simp: elems_def less_Suc_eq)
  moreover have "set (ys i) \<inter> set (ys n) = {}" if "i < n" for i using Suc.prems(2)[of i n] that by simp
  then have "elems n ys \<inter> set (ys n) = {}" unfolding elems_def by fastforce
  ultimately have "card (elems (Suc n) ys) = card (elems n ys) + card (set (ys n))" by (simp add: card_Un_disjoint)
  moreover have "elem_count n ys = card (elems n ys)" by (rule Suc.IH) (use Suc.prems in auto)
  ultimately show ?case using Suc.prems(1)[of n] by (simp add: elem_count_def distinct_card)
qed (simp add: elem_count_def elems_def)

text \<open>Replacing the contents of one bucket.\<close>

lemma elems_upd: "j < n \<Longrightarrow> elems n (ys(j := zs)) = (\<Union>i \<in> {0..<n} - {j}. set (ys i)) \<union> set zs"
  by (fastforce simp: elems_def split: if_splits)

lemma elems_push: "j < n \<Longrightarrow> elems n (ys(j := e # ys j)) = insert e (elems n ys)"
  by (fastforce simp: elems_def split: if_splits)

lemma elems_remove:
  assumes "\<And>i. i < n \<Longrightarrow> distinct (ys i)" "\<And>i j. i < n \<Longrightarrow> j < n \<Longrightarrow> i \<noteq> j \<Longrightarrow> set (ys i) \<inter> set (ys j) = {}"
    and j: "j < n" "ys j = us @ e # vs"
  shows "elems n (ys(j := us @ vs)) = elems n ys - {e}"
proof -
  have d: "e \<notin> set us" "e \<notin> set vs" using assms(1)[OF j(1)] j(2) by auto
  have "e \<notin> set (ys i)" if "i < n" "i \<noteq> j" for i using assms(2)[OF that(1) j(1) that(2)] j(2) by auto
  then have "(\<Union>i \<in> {0..<n} - {j}. set (ys i)) = (\<Union>i \<in> {0..<n} - {j}. set (ys i)) - {e}" by fastforce
  moreover have "elems n ys = (\<Union>i \<in> {0..<n} - {j}. set (ys i)) \<union> set (ys j)" using j(1) by (fastforce simp: elems_def)
  ultimately show ?thesis unfolding elems_upd[OF j(1)] using d j(2) by auto
qed

section \<open>Changing one bucket\<close>

lemma hash_fields_count:
  assumes "hash_fields k h cnt n bs C"
  shows "hash_fields (k\<lparr>lheap := hp, words := (words k)(elem_cnt_at h \<mapsto> cnt')\<rparr>) h cnt' n bs C"
  using assms by (simp add: hash_fields_def elem_cnt_at_def bucket_cnt_at_def buckets_at_def hash_at_def less_at_def aux_at_def)

lemma outside_apart:
  assumes al: "allocator E ms k L cur rs ts W xs A" and u: "(bs, c) \<in> in_use xs A"
    and q: "in_blocks (in_use xs A - {(bs, c)}) q"
  shows "\<not> in_range bs c q"
proof
  assume r: "in_range bs c q"
  obtain b d where b: "(b, d) \<in> in_use xs A" "(b, d) \<noteq> (bs, c)" "in_range b d q" using q by (auto simp: in_blocks_def)
  note D = allocatorD[OF al]
  show False using in_use_disjoint[OF D(2,3) b(1) u b(3) r] b(2) by simp
qed

lemma outsideD:
  assumes "outside C U h E"
  shows "q \<in> hash_words h \<Longrightarrow> in_blocks U q" "e \<in> E \<Longrightarrow> in_blocks U e" "e \<in> E \<Longrightarrow> q \<in> key_data C e \<Longrightarrow> in_blocks U q"
    "e \<in> E \<Longrightarrow> q \<in> key_data C e \<Longrightarrow> q \<notin> hash_words h"
  using assms unfolding outside_def by blast+

context hash_client
begin

lemma ready_outside:
  assumes "outside C U h E" "e \<in> E" "key_ready C k e" "\<And>q. q \<notin> hash_words h \<Longrightarrow> words k' q = words k q"
  shows "key_ready C k' e"
  by (rule data_law[OF assms(3)]) (use assms(4) outsideD(4)[OF assms(1,2)] in blast)

lemma change_bucket:
  assumes st: "hash_state C ms cur rs ts W h k L U bs c n ys F" and j: "j < n"
    and fam: "ll.family hp (L(bucket bs j \<mapsto> zs))" and dm: "dom hp = dom (lheap k)"
    and zs: "set zs \<subseteq> set (ys j) \<union> F" "\<And>e. e \<in> set zs \<Longrightarrow> place C n e = j"
    and inj: "inj_on (key_of C) (elems n (ys(j := zs)))"
    and F': "elems n (ys(j := zs)) \<union> F' = elems n ys \<union> F" "elems n (ys(j := zs)) \<inter> F' = {}"
      "\<And>e. e \<in> F' \<Longrightarrow> e \<notin> ll.owned (L(bucket bs j \<mapsto> zs))"
  defines "k' \<equiv> k\<lparr>lheap := hp, words := (words k)(elem_cnt_at h \<mapsto> of_nat (elem_count n (ys(j := zs))))\<rparr>"
  shows "hash_state C ms cur rs ts W h k' (L(bucket bs j \<mapsto> zs)) U bs c n (ys(j := zs)) F'"
proof -
  let ?L = "L(bucket bs j \<mapsto> zs)" and ?ys = "ys(j := zs)"
  note S = hash_stateD[OF st] note T = hash_tableD[OF S(2)]
  obtain xs A where al: "allocator {} ms k L cur rs ts W xs A" and U: "in_use xs A = U" using S(1) by blast
  have u: "(bs, c) \<in> in_use xs A" and c: "16 * n \<le> c" and K: "\<And>i. i < n \<Longrightarrow> bucket bs i \<notin> kernel_lists ms k W"
    and own: "\<And>q. in_range bs c q \<Longrightarrow> q \<in> ll.owned L \<Longrightarrow> \<exists>i < n. q = bucket bs i \<or> q = tail_of (bucket bs i)"
    using S(3) U unfolding block_of_buckets_def by blast+
  have b: "unat bs + 16 * n \<le> 0x20000000" using used_block_bound(1)[OF al u] c by simp
  have blk: "in_blocks U e" if "e \<in> elems n ys \<union> F" for e
    using outsideD(2)[OF S(4) that] by (rule in_blocks_mono) blast
  have new: "q \<in> F" if "q \<in> ll.owned ?L" "q \<notin> ll.owned L" for q
    using owned_upd[OF that(1)] that(2) zs(1) ll.ownedI[of L "bucket bs j" "ys j" q] T(5)[OF j] by (auto simp: set_nodes)
  have al': "allocator {} ms k' ?L cur rs ts W xs A"
    unfolding k'_def
  proof (rule client_step[OF al fam])
    show "?L l = L l" if "l \<in> kernel_lists ms k W" for l using K[OF j] that by auto
    show "in_blocks (in_use xs A) q" if "q \<in> ll.owned ?L" "q \<notin> ll.owned L" for q
      using blk[of q] new[OF that] U by simp
    show "in_blocks (in_use xs A) q" if "((words k)(elem_cnt_at h \<mapsto> of_nat (elem_count n ?ys))) q \<noteq> words k q" for q
    proof -
      have "q = elem_cnt_at h" using that by (auto split: if_splits)
      then have "in_blocks (U - {(bs, c)}) q" using outsideD(1)[OF S(4)] by (simp add: hash_words_def)
      then show ?thesis unfolding U by (rule in_blocks_mono) blast
    qed
  qed (use dm in auto)
  have w: "words k' q = words k q" if "q \<notin> hash_words h" for q
    using that by (auto simp: k'_def hash_words_def)
  have ready: "key_ready C k' e" if "e \<in> elems n ys \<union> F" for e
    using ready_outside[OF S(4) that _ w] S(8) T(6) that by (auto simp: in_elems)
  have sub: "set (ys i) \<subseteq> elems n ys" if "i < n" for i using that by (auto simp: in_elems)
  have "set (?ys i) \<subseteq> elems n ys \<union> F" if i: "i < n" for i
    using sub[OF i] sub[OF j] zs(1) by auto
  moreover have "\<forall>e \<in> set (?ys i). place C n e = i" "?L (bucket bs i) = Some (?ys i)" if i: "i < n" for i
    using zs(2) T(5)[OF i] T(7)[OF i] bucket_inject[OF b i j] by auto
  ultimately have ch: "bucket_chains C k' ?L bs n ?ys" unfolding bucket_chains_def using ready by blast
  have tab: "hash_table C k' ?L h bs n ?ys"
    unfolding hash_table_def using T(1) ch inj hash_fields_count[OF T(2)] by (simp add: k'_def)
  have pl: "kernel_lists ms k' W = kernel_lists ms k W" by (rule kernel_lists_places) (simp add: k'_def)
  have "\<exists>i < n. q = bucket bs i \<or> q = tail_of (bucket bs i)" if q: "in_range bs c q" "q \<in> ll.owned ?L" for q
  proof -
    have "q \<notin> F" using outside_apart[OF al u] outsideD(2)[OF S(4), of q] q(1) U by blast
    then show ?thesis using own[OF q(1)] new[OF q(2)] by blast
  qed
  then have bb: "block_of_buckets (kernel_lists ms k' W) ?L U bs n c"
    unfolding block_of_buckets_def pl using u U c K by blast
  have "finite F'" using finite_subset[of F' "elems n ys \<union> F"] F'(1) S(6) by auto
  then show ?thesis
    unfolding hash_state_def F'(1) using al' U tab bb S(4,7) F'(1-3) ready by blast
qed

end

section \<open>One element enters or leaves\<close>

lemma set_nodes_Cons: "set (nodes l (e # xs)) = insert e (set (nodes l xs))"
  by (auto simp: set_nodes)

lemma set_nodes_less: "set (nodes l (us @ vs)) \<subseteq> set (nodes l (us @ e # vs))"
  by (auto simp: set_nodes)

lemma state_facts:
  assumes st: "hash_state C ms cur rs ts W h k L U bs c n ys F"
  shows "ll.family (lheap k) L" "unat bs + 16 * n \<le> 0x20000000" "\<And>i. i < n \<Longrightarrow> distinct (ys i)"
    "\<And>i j. i < n \<Longrightarrow> j < n \<Longrightarrow> i \<noteq> j \<Longrightarrow> set (ys i) \<inter> set (ys j) = {}" "NULL \<notin> elems n ys"
    "elem_count n ys = card (elems n ys)" "\<And>e. e \<in> F \<Longrightarrow> valid (lheap k) e" "NULL \<notin> F"
proof -
  note S = hash_stateD[OF st] note T = hash_tableD[OF S(2)]
  obtain xs A where al: "allocator {} ms k L cur rs ts W xs A" and U: "in_use xs A = U" using S(1) by blast
  have u: "(bs, c) \<in> in_use xs A" "16 * n \<le> c" using S(3) U unfolding block_of_buckets_def by blast+
  show fam: "ll.family (lheap k) L" by (rule free_list_family(2)[OF al, of 0]) simp
  show b: "unat bs + 16 * n \<le> 0x20000000" using used_block_bound(1)[OF al u(1)] u(2) by simp
  note ch = bucket_chains_disjoint[OF fam T(3) b]
  show "distinct (ys i)" if "i < n" for i by (rule ch(1)[OF that])
  show "set (ys i) \<inter> set (ys j) = {}" if "i < n" "j < n" "i \<noteq> j" for i j by (rule ch(2)[OF that])
  show "NULL \<notin> elems n ys" using ch(3) by (auto simp: in_elems)
  show "elem_count n ys = card (elems n ys)" by (rule count_card[OF ch(1,2)])
  show "valid (lheap k) e" if "e \<in> F" for e
  proof -
    have "in_blocks (U - {(bs, c)}) e" by (rule outsideD(2)[OF S(4)]) (use that in simp)
    then have "in_blocks (in_use xs A) e" unfolding U by (rule in_blocks_mono) blast
    then show ?thesis by (rule blocks_memory(7)[OF al])
  qed
  then show "NULL \<notin> F" using valid_not_NULL by blast
qed

context hash_client
begin

lemma insert_elem_state:
  assumes st: "hash_state C ms cur rs ts W h k L U bs c n ys F" and e: "e \<in> F"
    and new: "\<And>x. x \<in> elems n ys \<Longrightarrow> key_of C x \<noteq> key_of C e"
  shows "\<exists>k' L' ys'. insert_elem h (bucket bs (place C n e)) e k = Some k' \<and>
     hash_state C ms cur rs ts W h k' L' U bs c n ys' (F - {e}) \<and> elems n ys' = insert e (elems n ys) \<and>
     places_of k' = places_of k"
proof -
  let ?j = "place C n e" let ?b = "bucket bs ?j" let ?ys = "ys(?j := e # ys ?j)"
  note S = hash_stateD[OF st] note T = hash_tableD[OF S(2)] note X = state_facts[OF st]
  have j: "?j < n" by (rule place_less[OF T(1)])
  obtain hp where hp: "list_push_front (lheap k) ?b e = Some hp" "ll.family hp (L(?b \<mapsto> e # ys ?j))"
     "modifies (lheap k) hp (insert e (ll.owned L))"
    using family_push_front[OF X(1) T(5)[OF j] X(7)[OF e] S(9)[OF e]] by blast
  let ?k = "k\<lparr>lheap := hp, words := (words k)(elem_cnt_at h \<mapsto> of_nat (elem_count n ?ys))\<rparr>"
  have el: "elems n ?ys = insert e (elems n ys)" by (rule elems_push[OF j])
  have nin: "e \<notin> elems n ys" using S(5) e by auto
  have cnt: "elem_count n ?ys = elem_count n ys + 1"
  proof -
    have "distinct (?ys i)" if "i < n" for i using X(3)[OF that] nin j by (auto simp: in_elems)
    moreover have "set (?ys i) \<inter> set (?ys m) = {}" if "i < n" "m < n" "i \<noteq> m" for i m
      using X(4)[OF that] nin that by (auto simp: in_elems)
    ultimately have "elem_count n ?ys = card (elems n ?ys)" by (intro count_card)
    then show ?thesis using el nin X(6) by simp
  qed
  have "hash_state C ms cur rs ts W h ?k (L(?b \<mapsto> e # ys ?j)) U bs c n ?ys (F - {e})"
  proof (rule change_bucket[OF st j hp(2)])
    show "dom hp = dom (lheap k)" using hp(3) by (simp add: modifies_def)
    have "key_of C e \<notin> key_of C ` elems n ys" using new by (metis imageE)
    then show "inj_on (key_of C) (elems n ?ys)" unfolding el inj_on_insert using T(4) nin by simp
    show "x \<notin> ll.owned (L(?b \<mapsto> e # ys ?j))" if "x \<in> F - {e}" for x
    proof
      assume "x \<in> ll.owned (L(?b \<mapsto> e # ys ?j))"
      then have "x \<in> ll.owned L \<or> x \<in> set (nodes ?b (e # ys ?j))" by (rule owned_upd)
      then have "x \<in> ll.owned L \<or> x \<in> set (nodes ?b (ys ?j))" using that unfolding set_nodes_Cons by blast
      then show False using S(9)[of x] that ll.ownedI[of L ?b "ys ?j" x] T(5)[OF j] by blast
    qed
  qed (use e T(7)[OF j] el S(5) in auto)
  moreover have "insert_elem h ?b e k = Some ?k"
    using hash_fieldsD(1,7)[OF T(2)] hp(1) cnt
    by (simp add: insert_elem_def set_word_def word_at_def on_lists_def elem_cnt_at_def add.commute)
  moreover have "places_of ?k = places_of k" by simp
  ultimately show ?thesis using el by blast
qed

lemma remove_elem_state:
  assumes st: "hash_state C ms cur rs ts W h k L U bs c n ys F" and e: "e \<in> elems n ys"
  shows "\<exists>k' L' ys'. remove_elem h e k = Some k' \<and>
     hash_state C ms cur rs ts W h k' L' U bs c n ys' (insert e F) \<and> elems n ys' = elems n ys - {e} \<and>
     places_of k' = places_of k"
proof -
  let ?j = "place C n e" let ?b = "bucket bs ?j"
  note S = hash_stateD[OF st] note T = hash_tableD[OF S(2)] note X = state_facts[OF st]
  have j: "?j < n" by (rule place_less[OF T(1)])
  obtain us vs where y: "ys ?j = us @ e # vs" using place_elems[OF S(2) e] by (auto dest: split_list)
  let ?ys = "ys(?j := us @ vs)"
  have L: "L ?b = Some (us @ e # vs)" using T(5)[OF j] y by simp
  obtain m hp where hp: "list_remove (lheap k) e = Some (m, hp)" "ll.family hp (L(?b \<mapsto> us @ vs))"
     "e \<notin> ll.owned (L(?b \<mapsto> us @ vs))" "modifies (lheap k) hp (ll.owned L)"
    using ll.family_remove[OF X(1) L] by blast
  let ?k = "k\<lparr>lheap := hp, words := (words k)(elem_cnt_at h \<mapsto> of_nat (elem_count n ?ys))\<rparr>"
  have el: "elems n ?ys = elems n ys - {e}" by (rule elems_remove[where ys = ys, OF X(3,4) j y])
  have cnt: "elem_count n ys = elem_count n ?ys + 1"
  proof -
    have d: "distinct (us @ e # vs)" using X(3)[OF j] y by simp
    have "distinct (?ys i)" if "i < n" for i using X(3)[OF that] d by auto
    moreover have "set (?ys i) \<inter> set (?ys m) = {}" if "i < n" "m < n" "i \<noteq> m" for i m
      using X(4)[OF that] y that by auto
    ultimately have "elem_count n ?ys = card (elems n ?ys)" by (intro count_card)
    then show ?thesis using el e X(6) card_Suc_Diff1[OF finite_elems e] by simp
  qed
  have "hash_state C ms cur rs ts W h ?k (L(?b \<mapsto> us @ vs)) U bs c n ?ys (insert e F)"
  proof (rule change_bucket[OF st j hp(2)])
    show "dom hp = dom (lheap k)" using hp(4) by (simp add: modifies_def)
    show "inj_on (key_of C) (elems n ?ys)" unfolding el using T(4) by (rule inj_on_subset) blast
    show "x \<notin> ll.owned (L(?b \<mapsto> us @ vs))" if "x \<in> insert e F" for x
    proof (cases "x = e")
      case False
      have "x \<in> ll.owned L \<or> x \<in> set (nodes ?b (ys ?j))" if "x \<in> ll.owned (L(?b \<mapsto> us @ vs))"
        using owned_upd[OF that] set_nodes_less[of ?b us vs e] unfolding y by blast
      then show ?thesis using S(9)[of x] that False ll.ownedI[of L ?b "ys ?j" x] T(5)[OF j] by blast
    qed (use hp(3) in simp)
    show "place C n x = ?j" if "x \<in> set (us @ vs)" for x using T(7)[OF j, of x] y that by auto
  qed (use e el S(5) y in auto)
  moreover have "remove_elem h e k = Some ?k"
  proof -
    have "(of_nat (elem_count n ys) :: u32) - 1 = of_nat (elem_count n ?ys)" unfolding cnt by simp
    then show ?thesis
      using hash_fieldsD(1,7)[OF T(2)] hp(1)
      by (simp add: remove_elem_def set_word_def word_at_def elem_cnt_at_def)
  qed
  moreover have "places_of ?k = places_of k" by simp
  ultimately show ?thesis using el by blast
qed

end

end
