(* ===== verification/Kernel_Hash_Rehash.thy ===== *)
theory Kernel_Hash_Rehash
  imports Kernel_Hash_Table
begin

text \<open>
  The hash tables, third part: \<open>rehash\<close> takes a new array of buckets, moves every element to its new
  bucket and gives the old array back; when no block is to be had, the table stays as it is.
\<close>

section \<open>The number of buckets\<close>

lemma off_even: "0 < z \<Longrightarrow> (2 * z) AND (2 * z - 1) = 2 * (z AND (z - 1 :: nat))"
  by (subst and_rec) (cases z; simp)

lemma off_odd: "(2 * z + 1) AND (2 * z + 1 - 1) = (2 * z :: nat)"
  by (subst and_rec) simp

lemma off_bit:
  assumes "0 < (x :: nat)"
  shows "x AND (x - 1) < x" "even (x AND (x - 1))" "x AND (x - 1) = 0 \<Longrightarrow> \<exists>m. x = 2 ^ m"
    "x AND (x - 1) \<noteq> 0 \<Longrightarrow> x < 2 * (x AND (x - 1))"
proof -
  have "x AND (x - 1) < x \<and> even (x AND (x - 1)) \<and> (x AND (x - 1) = 0 \<longrightarrow> (\<exists>m. x = 2 ^ m)) \<and>
      (x AND (x - 1) \<noteq> 0 \<longrightarrow> x < 2 * (x AND (x - 1)))"
    using assms
  proof (induction x rule: less_induct)
    case (less x)
    show ?case
    proof (cases "even x")
      case True
      then obtain z where z: "x = 2 * z" by auto
      then have "0 < z" "z < x" using less.prems by auto
      from less.IH[OF this(2,1)] show ?thesis unfolding z off_even[OF \<open>0 < z\<close>] by (auto intro: exI[of _ "Suc _"])
    next
      case False
      then obtain z where z: "x = 2 * z + 1" using oddE by blast
      show ?thesis unfolding z off_odd by (auto intro: exI[of _ 0])
    qed
  qed
  then show "x AND (x - 1) < x" "even (x AND (x - 1))" "x AND (x - 1) = 0 \<Longrightarrow> \<exists>m. x = 2 ^ m"
    "x AND (x - 1) \<noteq> 0 \<Longrightarrow> x < 2 * (x AND (x - 1))" by blast+
qed

lemma unat_turn_off: "x \<noteq> 0 \<Longrightarrow> unat (turn_off_least_1bit x) = unat x AND (unat x - 1)"
proof -
  assume "x \<noteq> 0"
  then have "unat (x - 1) = unat x - 1" by (simp add: unat_minus_one)
  then show ?thesis by (simp add: turn_off_least_1bit_def unsigned_and_eq)
qed

lemma largest_power_eq:
  assumes "4 \<le> unat x"
  shows "\<exists>m. largest_power x = Some (of_nat (2 ^ m)) \<and> 2 \<le> m \<and> 2 ^ m \<le> unat x"
  using assms
proof (induction "unat x" arbitrary: x rule: less_induct)
  case less
  let ?t = "turn_off_least_1bit x"
  have x: "x \<noteq> 0" "0 < unat x" using less.prems by auto
  note t = unat_turn_off[OF x(1)] and o = off_bit[OF x(2)]
  show ?case
  proof (cases "?t = 0")
    case True
    then have "unat x AND (unat x - 1) = 0" using t by simp
    then obtain m where m: "unat x = 2 ^ m" using o(3) by blast
    have "2 \<le> m" using less.prems m power_strict_increasing_iff[of "2 :: nat" m 2] by (cases "m < 2") auto
    moreover have "x = of_nat (unat x)" by simp
    then have "x = of_nat (2 ^ m)" unfolding m .
    moreover have "largest_power x = Some x" using True x(1) by (subst largest_power.simps) (simp add: is_power_of_2_def)
    ultimately show ?thesis using m by (intro exI[of _ m]) simp
  next
    case False
    then have nz: "unat x AND (unat x - 1) \<noteq> 0" using t unat_eq_zero[of ?t] by metis
    have "unat x < 2 * unat ?t" "even (unat ?t)" using o(2) o(4)[OF nz] t by simp_all
    then have "4 \<le> unat ?t" using less.prems by presburger
    moreover have lt: "unat ?t < unat x" using o(1) t by simp
    ultimately obtain m where "largest_power ?t = Some (of_nat (2 ^ m))" "2 \<le> m" "2 ^ m \<le> unat ?t"
      using less.hyps[of ?t] by blast
    then show ?thesis using False lt by (subst largest_power.simps) (auto simp: is_power_of_2_def)
  qed
qed

lemma ideal_bucket_cnt_eq:
  assumes "unat cnt < 2 ^ 26"
  shows "\<exists>N. ideal_bucket_cnt cnt = Some (of_nat N) \<and> power_size N"
proof -
  let ?n = "cnt div 2" let ?x = "if ?n < 4 then 4 else ?n"
  have "unat ?n = unat cnt div 2" by (simp add: unat_div)
  then have x: "4 \<le> unat ?x" "unat ?x < 2 ^ 26" using assms by (auto simp: word_less_nat_alt)
  obtain m where m: "largest_power ?x = Some (of_nat (2 ^ m))" "2 \<le> m" "2 ^ m \<le> unat ?x"
    using largest_power_eq[OF x(1)] by blast
  have "(2 :: nat) ^ m < 2 ^ 26" using m(3) x(2) by linarith
  then have "m \<le> 26" using power_strict_increasing_iff[of "2 :: nat" m 26] by simp
  then show ?thesis using m by (intro exI[of _ "2 ^ m"]) (auto simp: ideal_bucket_cnt_def BEST_ELEMS_PER_BUCKET_def power_size_def Let_def)
qed

section \<open>The new buckets\<close>

lemma init_buckets_family:
  assumes b: "unat p + 16 * N \<le> 0x20000000" and "i \<le> N" and fam: "ll.family (lheap k) L"
    and "\<And>j. i \<le> j \<Longrightarrow> j < N \<Longrightarrow> valid (lheap k) (bucket p j) \<and> valid (lheap k) (tail_of (bucket p j)) \<and>
        bucket p j \<notin> ll.owned L \<and> tail_of (bucket p j) \<notin> ll.owned L"
    and N: "N < 2 ^ 31"
  shows "\<exists>hp. init_buckets p (of_nat N) (of_nat i) k = Some (k\<lparr>lheap := hp\<rparr>) \<and>
     ll.family hp (\<lambda>l. if l \<in> bucket p ` {i..<N} then Some [] else L l) \<and> dom hp = dom (lheap k)"
  using assms(2-4)
proof (induction "N - i" arbitrary: i k L)
  case 0
  then have "i = N" by simp
  then show ?case using 0 by (intro exI[of _ "lheap k"], subst init_buckets.simps) simp
next
  case (Suc d)
  then have i: "i < N" by simp
  let ?b = "bucket p i"
  note V = Suc.prems(3)[OF order_refl i]
  obtain h1 where h1: "list_init (lheap k) ?b = Some h1" "ll.family h1 (L(?b \<mapsto> []))" "modifies (lheap k) h1 {?b, tail_of ?b}"
    using family_new_list[OF Suc.prems(2)] V by blast
  let ?k = "k\<lparr>lheap := h1\<rparr>"
  have V': "valid (lheap ?k) (bucket p j) \<and> valid (lheap ?k) (tail_of (bucket p j)) \<and>
      bucket p j \<notin> ll.owned (L(?b \<mapsto> [])) \<and> tail_of (bucket p j) \<notin> ll.owned (L(?b \<mapsto> []))"
    if j: "Suc i \<le> j" "j < N" for j
  proof -
    note W = Suc.prems(3)[of j] and A = bucket_addr[OF b j(2)] bucket_addr[OF b i]
    have "set (nodes ?b []) = {?b, tail_of ?b}" by (simp add: nodes_def head_of_def)
    moreover have "unat (bucket p j) \<notin> {unat ?b, unat (tail_of ?b)}" "unat (tail_of (bucket p j)) \<notin> {unat ?b, unat (tail_of ?b)}"
      unfolding A using j(1) by auto
    then have "bucket p j \<notin> {?b, tail_of ?b}" "tail_of (bucket p j) \<notin> {?b, tail_of ?b}" by fastforce+
    ultimately show ?thesis using W j owned_upd[of _ L ?b "[]"] modifies_valid[OF h1(3)] by auto
  qed
  have "\<exists>hp. init_buckets p (of_nat N) (of_nat (Suc i)) ?k = Some (?k\<lparr>lheap := hp\<rparr>) \<and>
     ll.family hp (\<lambda>l. if l \<in> bucket p ` {Suc i..<N} then Some [] else (L(?b \<mapsto> [])) l) \<and> dom hp = dom (lheap ?k)"
    by (rule Suc.hyps(1)[where L = "L(?b \<mapsto> [])"]) (use Suc.hyps(2) i h1(2) V' in simp_all)
  then obtain hp where hp: "init_buckets p (of_nat N) (of_nat (Suc i)) ?k = Some (?k\<lparr>lheap := hp\<rparr>)"
     "ll.family hp (\<lambda>l. if l \<in> bucket p ` {Suc i..<N} then Some [] else (L(?b \<mapsto> [])) l)" "dom hp = dom (lheap ?k)"
    by (elim exE conjE) (rule that)
  have "{i..<N} = insert i {Suc i..<N}" using i by auto
  then have L: "(\<lambda>l. if l \<in> bucket p ` {Suc i..<N} then Some [] else (L(?b \<mapsto> [])) l) =
      (\<lambda>l. if l \<in> bucket p ` {i..<N} then Some [] else L l)" by (auto simp: fun_eq_iff)
  have "(of_nat i :: u32) < of_nat N" using i N by (simp add: word_less_nat_alt unat_of_nat)
  then have "init_buckets p (of_nat N) (of_nat i) k = init_buckets p (of_nat N) (of_nat (Suc i)) ?k"
    using h1(1) by (subst init_buckets.simps) (simp add: on_lists_def add.commute)
  then show ?case using hp h1(3) unfolding L by (intro exI[of _ hp]) (simp add: modifies_def)
qed

section \<open>Moving the elements\<close>

lemma owned_upd_mono:
  assumes "L l = Some xs" "set (nodes l ys) \<subseteq> set (nodes l xs) \<union> ll.owned L"
  shows "ll.owned (L(l \<mapsto> ys)) \<subseteq> ll.owned L"
  using owned_upd[of _ L l ys] ll.ownedI[of L l xs] assms by blast

context hash_client
begin

lemma ready_lists: "key_ready C k e \<Longrightarrow> key_ready C (k\<lparr>lheap := hp\<rparr>) e"
  by (rule data_law) simp_all

lemma move_elems_family:
  assumes "hash_fields k h cnt N p C" "power_size N" and b: "unat p + 16 * N \<le> 0x20000000"
    and "ll.family (lheap k) L" "L b = Some xs" "b \<notin> bucket p ` {0..<N}" "\<forall>e \<in> set xs. key_ready C k e"
    "bucket_chains C k L p N zs"
  shows "\<exists>hp L' zs'. move_elems hc h b (hd (xs @ [tail_of b])) k = Some (k\<lparr>lheap := hp\<rparr>) \<and> ll.family hp L' \<and>
     dom hp = dom (lheap k) \<and> L' b = Some [] \<and> bucket_chains C (k\<lparr>lheap := hp\<rparr>) L' p N zs' \<and>
     elems N zs' = elems N zs \<union> set xs \<and> (\<forall>l. l \<noteq> b \<longrightarrow> l \<notin> bucket p ` {0..<N} \<longrightarrow> L' l = L l) \<and> ll.owned L' \<subseteq> ll.owned L"
  using assms(1,4-)
proof (induction xs arbitrary: k L zs)
  case Nil
  have "list_end b = Some (tail_of b)" by (rule list_end_dlist[OF ll.familyD(1)[OF Nil.prems(2,3)]])
  then have "move_elems hc h b (hd ([] @ [tail_of b])) k = Some (k\<lparr>lheap := lheap k\<rparr>)"
    by (subst move_elems.simps) simp
  then show ?case using Nil.prems by (intro exI[of _ "lheap k"] exI[of _ L] exI[of _ zs]) simp
next
  case (Cons x xs)
  let ?j = "place C N x" let ?q = "bucket p ?j"
  have j: "?j < N" by (rule place_less[OF assms(2)])
  have ne: "b \<noteq> ?q" using Cons.prems(4) j by auto
  have rx: "key_ready C k x" using Cons.prems(5) by simp
  note d = ll.familyD(1)[OF Cons.prems(2,3)]
  have x_tail: "x \<noteq> tail_of b" using dlistD(1)[OF d] by (auto simp: nodes_def)
  have en: "list_end b = Some (tail_of b)" by (rule list_end_dlist[OF d])
  have fb: "find_bucket hc h x k = Some ?q" by (rule find_bucket_eq[OF Cons.prems(1) assms(2) rx])
  have nx: "list_next (lheap k) x = Some (hd (xs @ [tail_of b]))" using list_next_dlist[of "lheap k" b "[]" x xs] d by simp
  have "L b = Some ([] @ x # xs)" using Cons.prems(3) by simp
  from ll.family_remove[OF Cons.prems(2) this] obtain m h1 where h1: "list_remove (lheap k) x = Some (m, h1)"
     "ll.family h1 (L(b \<mapsto> xs))" "x \<notin> ll.owned (L(b \<mapsto> xs))" "modifies (lheap k) h1 (ll.owned L)" by auto
  let ?L1 = "L(b \<mapsto> xs)" let ?L2 = "?L1(?q \<mapsto> x # zs ?j)" let ?zs = "zs(?j := x # zs ?j)"
  have q1: "?L1 ?q = Some (zs ?j)" using Cons.prems(6) j ne by (simp add: bucket_chains_def)
  have "valid h1 x" using dlist_valid[OF d] modifies_valid[OF h1(4)] by simp
  then obtain h2 where h2: "list_push_front h1 ?q x = Some h2" "ll.family h2 ?L2" "modifies h1 h2 (insert x (ll.owned ?L1))"
    using family_push_front[OF h1(2) q1 _ h1(3)] by blast
  let ?k = "k\<lparr>lheap := h2\<rparr>"
  have dm: "dom h2 = dom (lheap k)" using h1(4) h2(3) by (simp add: modifies_def)
  have own1: "ll.owned ?L1 \<subseteq> ll.owned L"
    by (rule owned_upd_mono[where L = L, OF Cons.prems(3)]) (auto simp: nodes_def)
  have own: "ll.owned ?L2 \<subseteq> ll.owned L"
  proof -
    have "x \<in> ll.owned L" using ll.ownedI[of L b "x # xs" x] Cons.prems(3) by (simp add: nodes_def)
    then show ?thesis using owned_upd[of _ ?L1 ?q "x # zs ?j"] ll.ownedI[of ?L1 ?q "zs ?j"] q1 own1
      unfolding set_nodes_Cons by blast
  qed
  have ch: "bucket_chains C ?k ?L2 p N ?zs"
    unfolding bucket_chains_def
  proof (intro allI impI conjI ballI)
    fix i assume i: "i < N"
    have eq: "bucket p i = ?q \<longleftrightarrow> i = ?j" by (rule bucket_inject[OF b i j])
    have nb: "bucket p i \<noteq> b" using Cons.prems(4) i by auto
    show "?L2 (bucket p i) = Some (?zs i)" using eq nb Cons.prems(6) i by (simp add: bucket_chains_def)
    fix e assume "e \<in> set (?zs i)"
    then have "e = x \<and> i = ?j \<or> e \<in> set (zs i)" by (auto split: if_splits)
    then show "key_ready C ?k e" "place C N e = i"
      using rx ready_lists Cons.prems(6) i by (auto simp: bucket_chains_def)
  qed
  have "\<exists>hp L' zs'. move_elems hc h b (hd (xs @ [tail_of b])) ?k = Some (?k\<lparr>lheap := hp\<rparr>) \<and> ll.family hp L' \<and>
     dom hp = dom (lheap ?k) \<and> L' b = Some [] \<and> bucket_chains C (?k\<lparr>lheap := hp\<rparr>) L' p N zs' \<and>
     elems N zs' = elems N ?zs \<union> set xs \<and> (\<forall>l. l \<noteq> b \<longrightarrow> l \<notin> bucket p ` {0..<N} \<longrightarrow> L' l = ?L2 l) \<and>
     ll.owned L' \<subseteq> ll.owned ?L2"
  proof (rule Cons.IH[OF _ _ _ Cons.prems(4) _ ch])
    show "hash_fields ?k h cnt N p C" using Cons.prems(1) by (simp add: hash_fields_def)
    show "?L2 b = Some xs" using ne by simp
    show "\<forall>e \<in> set xs. key_ready C ?k e" using Cons.prems(5) ready_lists by simp
    have "lheap ?k = h2" by simp
    then show "ll.family (lheap ?k) ?L2" by (rule ssubst) (rule h2(2))
  qed
  then obtain hp L' zs' where r: "move_elems hc h b (hd (xs @ [tail_of b])) ?k = Some (?k\<lparr>lheap := hp\<rparr>)" "ll.family hp L'"
     "dom hp = dom (lheap ?k)" "L' b = Some []" "bucket_chains C (?k\<lparr>lheap := hp\<rparr>) L' p N zs'"
     "elems N zs' = elems N ?zs \<union> set xs" "\<forall>l. l \<noteq> b \<longrightarrow> l \<notin> bucket p ` {0..<N} \<longrightarrow> L' l = ?L2 l"
     "ll.owned L' \<subseteq> ll.owned ?L2" by (elim exE conjE) (rule that)
  have "move_elems hc h b (hd ((x # xs) @ [tail_of b])) k = move_elems hc h b (hd (xs @ [tail_of b])) ?k"
    using x_tail en fb nx h1(1) h2(1) by (subst move_elems.simps) (simp add: list_elem_to_hash_elem_def on_lists_def)
  moreover have "elems N zs' = elems N zs \<union> set (x # xs)" using r(6) elems_push[OF j, of zs x] by auto
  moreover have "L' l = L l" if "l \<noteq> b" "l \<notin> bucket p ` {0..<N}" for l
  proof -
    have "l \<noteq> ?q" using that(2) j by auto
    then show ?thesis using r(7) that by simp
  qed
  moreover have "ll.owned L' \<subseteq> ll.owned L" using r(8) own by (rule order_trans)
  ultimately show ?case using r(1-5) dm by (intro exI[of _ hp] exI[of _ L'] exI[of _ zs']) simp
qed

lemma move_buckets_family:
  assumes "hash_fields k h cnt N p C" "power_size N" and b: "unat p + 16 * N \<le> 0x20000000"
    and o: "unat bs + 16 * n \<le> 0x20000000" "power_size n" "bucket bs ` {0..<n} \<inter> bucket p ` {0..<N} = {}"
    and "i \<le> n" "ll.family (lheap k) L"
    "\<forall>j. i \<le> j \<longrightarrow> j < n \<longrightarrow> L (bucket bs j) = Some (ys j) \<and> (\<forall>e \<in> set (ys j). key_ready C k e)"
    "bucket_chains C k L p N zs"
  shows "\<exists>hp L' zs'. move_buckets hc h bs (of_nat n) (of_nat i) k = Some (k\<lparr>lheap := hp\<rparr>) \<and> ll.family hp L' \<and>
     dom hp = dom (lheap k) \<and> (\<forall>j. i \<le> j \<longrightarrow> j < n \<longrightarrow> L' (bucket bs j) = Some []) \<and>
     bucket_chains C (k\<lparr>lheap := hp\<rparr>) L' p N zs' \<and> elems N zs' = elems N zs \<union> (\<Union>j \<in> {i..<n}. set (ys j)) \<and>
     (\<forall>l. l \<notin> bucket bs ` {i..<n} \<longrightarrow> l \<notin> bucket p ` {0..<N} \<longrightarrow> L' l = L l) \<and> ll.owned L' \<subseteq> ll.owned L"
  using assms(1,7-)
proof (induction "n - i" arbitrary: i k L zs)
  case 0
  then have "i = n" by simp
  then have "move_buckets hc h bs (of_nat n) (of_nat i) k = Some (k\<lparr>lheap := lheap k\<rparr>)" by (subst move_buckets.simps) simp
  then show ?case using 0 \<open>i = n\<close> by (intro exI[of _ "lheap k"] exI[of _ L] exI[of _ zs]) simp
next
  case (Suc d)
  then have i: "i < n" by simp
  let ?b = "bucket bs i"
  have old: "L ?b = Some (ys i)" "\<forall>e \<in> set (ys i). key_ready C k e" using Suc.prems(4)[rule_format, OF order_refl i] by blast+
  have nb: "?b \<notin> bucket p ` {0..<N}" using o(3) i by (auto simp: disjoint_iff)
  obtain h1 L1 z1 where 1: "move_elems hc h ?b (hd (ys i @ [tail_of ?b])) k = Some (k\<lparr>lheap := h1\<rparr>)" "ll.family h1 L1"
     "dom h1 = dom (lheap k)" "L1 ?b = Some []" "bucket_chains C (k\<lparr>lheap := h1\<rparr>) L1 p N z1" "elems N z1 = elems N zs \<union> set (ys i)"
     "\<forall>l. l \<noteq> ?b \<longrightarrow> l \<notin> bucket p ` {0..<N} \<longrightarrow> L1 l = L l" "ll.owned L1 \<subseteq> ll.owned L"
    using move_elems_family[OF Suc.prems(1) assms(2) b Suc.prems(3) old(1) nb old(2) Suc.prems(5)]
    by (elim exE conjE) (rule that)
  let ?k = "k\<lparr>lheap := h1\<rparr>"
  have other: "bucket bs j \<noteq> ?b" "bucket bs j \<notin> bucket p ` {0..<N}" if "i < j" "j < n" for j
    using bucket_inject[OF o(1) that(2) i] that o(3) by (auto simp: disjoint_iff)
  have "\<exists>hp L' zs'. move_buckets hc h bs (of_nat n) (of_nat (Suc i)) ?k = Some (?k\<lparr>lheap := hp\<rparr>) \<and> ll.family hp L' \<and>
     dom hp = dom (lheap ?k) \<and> (\<forall>j. Suc i \<le> j \<longrightarrow> j < n \<longrightarrow> L' (bucket bs j) = Some []) \<and>
     bucket_chains C (?k\<lparr>lheap := hp\<rparr>) L' p N zs' \<and> elems N zs' = elems N z1 \<union> (\<Union>j \<in> {Suc i..<n}. set (ys j)) \<and>
     (\<forall>l. l \<notin> bucket bs ` {Suc i..<n} \<longrightarrow> l \<notin> bucket p ` {0..<N} \<longrightarrow> L' l = L1 l) \<and> ll.owned L' \<subseteq> ll.owned L1"
  proof (rule Suc.hyps(1))
    show "hash_fields ?k h cnt N p C" using Suc.prems(1) by (simp add: hash_fields_def)
    have "L1 (bucket bs j) = Some (ys j) \<and> (\<forall>e \<in> set (ys j). key_ready C ?k e)" if "Suc i \<le> j" "j < n" for j
      using Suc.prems(4)[rule_format, of j] other[of j] 1(7) that ready_lists by auto
    then show "\<forall>j. Suc i \<le> j \<longrightarrow> j < n \<longrightarrow> L1 (bucket bs j) = Some (ys j) \<and> (\<forall>e \<in> set (ys j). key_ready C ?k e)" by blast
    show "bucket_chains C ?k L1 p N z1" by (rule 1(5))
  qed (use Suc.hyps(2) i 1(2) in simp_all)
  then obtain hp L' zs' where r: "move_buckets hc h bs (of_nat n) (of_nat (Suc i)) ?k = Some (?k\<lparr>lheap := hp\<rparr>)" "ll.family hp L'"
     "dom hp = dom (lheap ?k)" "\<forall>j. Suc i \<le> j \<longrightarrow> j < n \<longrightarrow> L' (bucket bs j) = Some []"
     "bucket_chains C (?k\<lparr>lheap := hp\<rparr>) L' p N zs'" "elems N zs' = elems N z1 \<union> (\<Union>j \<in> {Suc i..<n}. set (ys j))"
     "\<forall>l. l \<notin> bucket bs ` {Suc i..<n} \<longrightarrow> l \<notin> bucket p ` {0..<N} \<longrightarrow> L' l = L1 l" "ll.owned L' \<subseteq> ll.owned L1"
    by (elim exE conjE) (rule that)
  have set: "{i..<n} = insert i {Suc i..<n}" using i by auto
  have "(of_nat i :: u32) < of_nat n" using i power_sizeD(3,4)[OF o(2)] by (simp add: word_less_nat_alt)
  moreover have "list_begin (lheap k) ?b = Some (hd (ys i @ [tail_of ?b]))"
    by (rule list_begin_dlist[OF ll.familyD(1)[OF Suc.prems(3) old(1)]])
  ultimately have "move_buckets hc h bs (of_nat n) (of_nat i) k = move_buckets hc h bs (of_nat n) (of_nat (Suc i)) ?k"
    using 1(1) by (subst move_buckets.simps) (simp add: Let_def add.commute)
  moreover have "L' ?b = Some []"
  proof -
    have "?b \<notin> bucket bs ` {Suc i..<n}"
    proof
      assume "?b \<in> bucket bs ` {Suc i..<n}"
      then obtain j where j: "?b = bucket bs j" "Suc i \<le> j" "j < n" by (elim imageE) simp
      then show False using other(1)[of j] by simp
    qed
    then show ?thesis using r(7) nb 1(4) by simp
  qed
  then have "L' (bucket bs j) = Some []" if "i \<le> j" "j < n" for j
    using r(4) that by (cases "j = i") simp_all
  moreover have "L' l = L l" if "l \<notin> bucket bs ` {i..<n}" "l \<notin> bucket p ` {0..<N}" for l
    using r(7) 1(7) that unfolding set by simp
  moreover have "ll.owned L' \<subseteq> ll.owned L" using r(8) 1(8) by (rule order_trans)
  moreover have "elems N zs' = elems N zs \<union> (\<Union>j \<in> {i..<n}. set (ys j))" unfolding r(6) 1(6) set by auto
  ultimately show ?case using r(1-3,5) 1(3) by (intro exI[of _ hp] exI[of _ L'] exI[of _ zs']) simp
qed

end

section \<open>The table moves to the new buckets\<close>

text \<open>The lists of the kernel are lists.\<close>

lemma kernel_lists_known:
  assumes al: "allocator E ms k L cur rs ts W xs A" and l: "l \<in> kernel_lists ms k W"
  shows "\<exists>ys. L l = Some ys"
proof -
  note D = allocatorD[OF al]
  have "sched_core k L cur rs ts W" using D(1) by (simp add: sched_def)
  note C = sched_coreD[OF this]
  from l consider "l = ready_list k" | "l = all_list k" | "l \<in> W"
    | "l = waiters_of (semaphore_of (pool_lock (kernel_pool k)))"
    | i where "i < 7" "l = free_list_of (desc_of ms i)" | i where "i < 7" "l = waiters_of (semaphore_of (desc_lock (desc_of ms i)))"
    unfolding kernel_lists_def by auto
  then show ?thesis
  proof cases
    case 3
    then show ?thesis using C(12) by blast
  next
    case 4
    then show ?thesis using pool_okD(1)[OF D(2)] by (simp add: lock_free_def)
  next
    case (5 i)
    then show ?thesis using heapD(2)[OF D(3)] by blast
  next
    case (6 i)
    then show ?thesis using heapD(3)[OF D(3), of i] by (simp add: lock_free_def)
  qed (use C(5,6) in blast)+
qed

lemma list_owned:
  assumes "L l = Some ys"
  shows "l \<in> ll.owned L" "tail_of l \<in> ll.owned L"
proof -
  have "l \<in> set (nodes l ys)" "tail_of l \<in> set (nodes l ys)" by (simp_all add: set_nodes head_of_def)
  then show "l \<in> ll.owned L" "tail_of l \<in> ll.owned L" using ll.ownedI[of L l ys, OF assms] by blast+
qed

text \<open>The new buckets are lists of the client.\<close>

lemma new_buckets:
  assumes al: "allocator {} ms k L cur rs ts W xs A" and u: "(p, c) \<in> in_use xs A" and c: "16 * N \<le> c" "N < 2 ^ 31"
    and out: "\<And>q. in_range p c q \<Longrightarrow> q \<notin> ll.owned L"
  defines "L1 \<equiv> \<lambda>l. if l \<in> bucket p ` {0..<N} then Some [] else L l"
  shows "\<exists>hp. init_buckets p (of_nat N) 0 k = Some (k\<lparr>lheap := hp\<rparr>) \<and>
     allocator {} ms (k\<lparr>lheap := hp\<rparr>) L1 cur rs ts W xs A"
    "q \<in> ll.owned L1 \<Longrightarrow> q \<in> ll.owned L \<or> (\<exists>i < N. q = bucket p i \<or> q = tail_of (bucket p i))"
    "\<And>i. i < N \<Longrightarrow> bucket p i \<notin> kernel_lists ms k W"
proof -
  have b: "unat p + 16 * N \<le> 0x20000000" using used_block_bound(1)[OF al u] c(1) by simp
  note R = bucket_in_block[OF b _ c(1)]
  have v: "valid (lheap k) q" if "in_range p c q" for q
    by (rule blocks_memory(7)[OF al in_blocksI[OF u that]])
  have fam: "ll.family (lheap k) L" by (rule free_list_family(2)[OF al, of 0]) simp
  obtain hp where hp: "init_buckets p (of_nat N) (of_nat 0) k = Some (k\<lparr>lheap := hp\<rparr>)" "ll.family hp L1" "dom hp = dom (lheap k)"
    using init_buckets_family[OF b _ fam _ c(2), of 0] R v out unfolding L1_def by auto
  show own: "q \<in> ll.owned L \<or> (\<exists>i < N. q = bucket p i \<or> q = tail_of (bucket p i))" if q: "q \<in> ll.owned L1" for q
  proof -
    obtain l ys where l: "L1 l = Some ys" "q \<in> set (nodes l ys)" using q by (rule ll.ownedE)
    show ?thesis
    proof (cases "l \<in> bucket p ` {0..<N}")
      case True
      then obtain i where "i < N" "l = bucket p i" by auto
      moreover have "ys = []" using l(1) True by (simp add: L1_def)
      ultimately show ?thesis using l(2) by (auto simp: nodes_def head_of_def)
    next
      case False
      then show ?thesis using l ll.ownedI[of L l ys q] by (simp add: L1_def)
    qed
  qed
  show K: "bucket p i \<notin> kernel_lists ms k W" if "i < N" for i
    using kernel_lists_known[OF al, of "bucket p i"] list_owned(1)[of L "bucket p i"] out[OF R(1)[OF that]] by blast
  have "allocator {} ms (k\<lparr>lheap := hp\<rparr>) L1 cur rs ts W xs A"
  proof (rule client_lists[OF al hp(2)])
    show "L1 l = L l" if "l \<in> kernel_lists ms k W" for l using K that by (auto simp: L1_def)
    show "in_blocks (in_use xs A) q" if "q \<in> ll.owned L1" "q \<notin> ll.owned L" for q
      using own[OF that(1)] that(2) R in_blocksI[OF u] by blast
  qed (simp add: hp(3))
  then show "\<exists>hp. init_buckets p (of_nat N) 0 k = Some (k\<lparr>lheap := hp\<rparr>) \<and>
     allocator {} ms (k\<lparr>lheap := hp\<rparr>) L1 cur rs ts W xs A" using hp(1) by auto
qed

text \<open>The old buckets, empty now, are given up.\<close>

lemma drop_buckets:
  assumes al: "allocator {} ms k L cur rs ts W xs A" and b: "\<And>i. i < n \<Longrightarrow> L (bucket bs i) = Some []"
    and K: "\<And>i. i < n \<Longrightarrow> bucket bs i \<notin> kernel_lists ms k W"
  defines "L1 \<equiv> L |` (- bucket bs ` {0..<n})"
  shows "allocator {} ms k L1 cur rs ts W xs A" "ll.owned L1 \<subseteq> ll.owned L"
    "i < n \<Longrightarrow> bucket bs i \<notin> ll.owned L1 \<and> tail_of (bucket bs i) \<notin> ll.owned L1"
proof -
  have fam: "ll.family (lheap k) L" by (rule free_list_family(2)[OF al, of 0]) simp
  show own: "ll.owned L1 \<subseteq> ll.owned L" unfolding L1_def using owned_drop by blast
  have "allocator {} ms (k\<lparr>lheap := lheap k\<rparr>) L1 cur rs ts W xs A"
  proof (rule client_lists[OF al])
    show "ll.family (lheap k) L1" unfolding L1_def by (rule family_drop[OF fam])
    show "L1 l = L l" if "l \<in> kernel_lists ms k W" for l using K that by (auto simp: L1_def restrict_map_def)
  qed (use own in auto)
  then show "allocator {} ms k L1 cur rs ts W xs A" by simp
  have "q \<notin> ll.owned L1" if i: "i < n" and q: "q \<in> set (nodes (bucket bs i) [])" for i q
  proof
    assume "q \<in> ll.owned L1"
    then obtain l ys where l: "L1 l = Some ys" "q \<in> set (nodes l ys)" by (rule ll.ownedE)
    then have "L l = Some ys" "l \<noteq> bucket bs i" using i by (auto simp: L1_def restrict_map_def split: if_splits)
    then show False using ll.familyD(2)[OF fam b[OF i], of l ys] q l(2) by blast
  qed
  then show "i < n \<Longrightarrow> bucket bs i \<notin> ll.owned L1 \<and> tail_of (bucket bs i) \<notin> ll.owned L1"
    by (simp add: nodes_def head_of_def)
qed

context hash_client
begin

text \<open>From a table at \<open>bs\<close> and an unused block \<open>(p, c')\<close> to the table at \<open>p\<close>.\<close>

lemma rehash_moves:
  assumes al: "allocator {} ms k L cur rs ts W xs A" and u: "(p, c') \<in> in_use xs A" "(p, c') \<noteq> (bs, c)"
    and N: "power_size N" "16 * N \<le> c'" and unowned: "\<forall>q. in_range p c' q \<longrightarrow> q \<notin> ll.owned L"
    and t: "hash_table C k L h bs n ys" and bb: "block_of_buckets (kernel_lists ms k W) L (in_use xs A) bs n c"
    and o: "outside C (in_use xs A) h (elems n ys)"
  shows "\<exists>k' L' zs. do {
       k \<leftarrow> init_buckets p (of_nat N) 0 k;
       k \<leftarrow> set_word (buckets_at h) p k;
       k \<leftarrow> set_word (bucket_cnt_at h) (of_nat N) k;
       move_buckets hc h bs (of_nat n) 0 k } = Some k' \<and> allocator {} ms k' L' cur rs ts W xs A \<and>
     hash_table C k' L' h p N zs \<and> elems N zs = elems n ys \<and>
     block_of_buckets (kernel_lists ms k' W) L' (in_use xs A) p N c' \<and>
     (\<forall>q. in_range bs c q \<longrightarrow> q \<notin> ll.owned L') \<and> places_of k' = places_of k \<and>
     (\<forall>q. q \<in> ll.owned L' \<longrightarrow> q \<in> ll.owned L \<or> in_range p c' q) \<and> (\<forall>q. q \<notin> hash_words h \<longrightarrow> words k' q = words k q)"
proof -
  note T = hash_tableD[OF t] note D = allocatorD[OF al] note out = unowned[rule_format]
  have bs: "(bs, c) \<in> in_use xs A" "16 * n \<le> c" "\<And>i. i < n \<Longrightarrow> bucket bs i \<notin> kernel_lists ms k W"
    "\<And>q. in_range bs c q \<Longrightarrow> q \<in> ll.owned L \<Longrightarrow> \<exists>i < n. q = bucket bs i \<or> q = tail_of (bucket bs i)"
    using bb unfolding block_of_buckets_def by blast+
  have b: "unat p + 16 * N \<le> 0x20000000" "unat bs + 16 * n \<le> 0x20000000"
    using used_block_bound(1)[OF al u(1)] used_block_bound(1)[OF al bs(1)] N(2) bs(2) by simp_all
  have N31: "N < 2 ^ 31" using power_sizeD(2)[OF N(1)] by simp
  let ?L1 = "\<lambda>l. if l \<in> bucket p ` {0..<N} then Some [] else L l"
  note nb = new_buckets[OF al u(1) N(2) N31 out]
  obtain h1 where h1: "init_buckets p (of_nat N) 0 k = Some (k\<lparr>lheap := h1\<rparr>)"
     "allocator {} ms (k\<lparr>lheap := h1\<rparr>) ?L1 cur rs ts W xs A" using nb(1) by blast
  let ?w = "(words k)(buckets_at h \<mapsto> p, bucket_cnt_at h \<mapsto> of_nat N)" let ?k2 = "k\<lparr>lheap := h1, words := ?w\<rparr>"
  have hw: "in_blocks (in_use xs A) (buckets_at h)" "in_blocks (in_use xs A) (bucket_cnt_at h)"
    using outsideD(1)[OF o] by (simp_all add: hash_words_def)
  obtain k1 where k1: "set_word (buckets_at h) p (k\<lparr>lheap := h1\<rparr>) = Some k1" "k1 = k\<lparr>lheap := h1, words := (words k)(buckets_at h \<mapsto> p)\<rparr>"
     "allocator {} ms k1 ?L1 cur rs ts W xs A" using client_word[OF h1(2) hw(1)] by auto
  have k2: "set_word (bucket_cnt_at h) (of_nat N) k1 = Some ?k2" "allocator {} ms ?k2 ?L1 cur rs ts W xs A"
    using client_word[OF k1(3) hw(2)] unfolding k1(2) by auto
  have w: "words ?k2 q = words k q" if "q \<notin> hash_words h" for q using that by (auto simp: hash_words_def)
  have fields: "hash_fields ?k2 h (of_nat (elem_count n ys)) N p C"
    using T(2) by (simp add: hash_fields_def elem_cnt_at_def bucket_cnt_at_def buckets_at_def hash_at_def less_at_def aux_at_def)
  have apart: "bucket bs j \<notin> bucket p ` {0..<N}" if "j < n" for j
    using list_owned(1)[of L "bucket bs j", OF T(5)[OF that]] out bucket_in_block(1)[OF b(1) _ N(2)] by auto
  then have "x \<notin> bucket p ` {0..<N}" if "x \<in> bucket bs ` {0..<n}" for x using that by (elim imageE) simp
  then have dis: "bucket bs ` {0..<n} \<inter> bucket p ` {0..<N} = {}" by blast
  have ready: "\<forall>e \<in> set (ys j). key_ready C ?k2 e" if "j < n" for j
    using ready_outside[OF o _ T(6)[OF that] w] that by (auto simp: in_elems)
  have old: "\<forall>j. 0 \<le> j \<longrightarrow> j < n \<longrightarrow> ?L1 (bucket bs j) = Some (ys j) \<and> (\<forall>e \<in> set (ys j). key_ready C ?k2 e)"
    using apart T(5) ready by simp
  have ch0: "bucket_chains C ?k2 ?L1 p N (\<lambda>_. [])" by (simp add: bucket_chains_def)
  have fam2: "ll.family (lheap ?k2) ?L1" by (rule free_list_family(2)[OF k2(2), of 0]) simp
  obtain h3 L2 zs where m: "move_buckets hc h bs (of_nat n) (of_nat 0) ?k2 = Some (?k2\<lparr>lheap := h3\<rparr>)" "ll.family h3 L2"
     "dom h3 = dom (lheap ?k2)" "\<forall>j. 0 \<le> j \<longrightarrow> j < n \<longrightarrow> L2 (bucket bs j) = Some []"
     "bucket_chains C (?k2\<lparr>lheap := h3\<rparr>) L2 p N zs" "elems N zs = elems N (\<lambda>_. []) \<union> (\<Union>j \<in> {0..<n}. set (ys j))"
     "\<forall>l. l \<notin> bucket bs ` {0..<n} \<longrightarrow> l \<notin> bucket p ` {0..<N} \<longrightarrow> L2 l = ?L1 l" "ll.owned L2 \<subseteq> ll.owned ?L1"
    using move_buckets_family[OF fields N(1) b(1) b(2) T(1) dis le0 fam2 old ch0] by (elim exE conjE) (rule that)
  have m4: "L2 (bucket bs j) = Some []" if "j < n" for j using m(4) that by simp
  let ?k3 = "?k2\<lparr>lheap := h3\<rparr>"
  have pl: "places_of ?k3 = places_of k" by simp
  have K: "kernel_lists ms ?k3 W = kernel_lists ms k W" "kernel_lists ms ?k2 W = kernel_lists ms k W"
    by (rule kernel_lists_places, simp)+
  have K_out: "l \<notin> bucket bs ` {0..<n} \<and> l \<notin> bucket p ` {0..<N}" if "l \<in> kernel_lists ms k W" for l
    using bs(3) nb(3) that by auto
  have al3: "allocator {} ms ?k3 L2 cur rs ts W xs A"
  proof (rule client_lists[OF k2(2) m(2)])
    show "L2 l = ?L1 l" if "l \<in> kernel_lists ms ?k2 W" for l using m(7) K_out that unfolding K by blast
  qed (use m(3,8) in auto)
  have bsK: "bucket bs i \<notin> kernel_lists ms ?k3 W" if "i < n" for i using bs(3)[OF that] unfolding K .
  let ?L3 = "L2 |` (- bucket bs ` {0..<n})"
  note dr = drop_buckets[where L = L2 and bs = bs and n = n, OF al3 m4 bsK]
  have own: "q \<in> ll.owned L \<or> (\<exists>i < N. q = bucket p i \<or> q = tail_of (bucket p i))" if "q \<in> ll.owned ?L3" for q
    using nb(2)[of q] dr(2) m(8) that by blast
  have rng: "\<exists>i < N. q = bucket p i \<or> q = tail_of (bucket p i) \<Longrightarrow> in_range p c' q" for q
    using bucket_in_block[OF b(1) _ N(2)] by blast
  have free_bs: "q \<notin> ll.owned ?L3" if q: "in_range bs c q" for q
  proof
    assume "q \<in> ll.owned ?L3"
    then show False
      using own[of q] rng[of q] bs(4)[OF q] dr(3) in_use_disjoint[OF D(2,3) u(1) bs(1) _ q] u(2) by blast
  qed
  have ch: "bucket_chains C ?k3 ?L3 p N zs"
  proof -
    have "bucket p i \<in> bucket p ` {0..<N}" if "i < N" for i by (rule imageI) (use that in simp)
    then have "bucket p i \<notin> bucket bs ` {0..<n}" if "i < N" for i using dis that by blast
    then show ?thesis using m(5) unfolding bucket_chains_def by (simp add: restrict_map_def)
  qed
  have el: "elems N zs = elems n ys" using m(6) by (simp add: elems_def)
  have "elem_count N zs = elem_count n ys"
  proof -
    have fam: "ll.family (lheap k) L" "ll.family (lheap ?k3) ?L3"
      by (rule free_list_family(2)[OF al, of 0] free_list_family(2)[OF dr(1), of 0]; simp)+
    show ?thesis
      using count_card[OF bucket_chains_disjoint(1,2)[OF fam(1) T(3) b(2)]]
        count_card[OF bucket_chains_disjoint(1,2)[OF fam(2) ch b(1)]] el by simp
  qed
  then have "hash_table C ?k3 ?L3 h p N zs"
    using fields N(1) ch T(4) el by (simp add: hash_table_def hash_fields_def)
  moreover have "block_of_buckets (kernel_lists ms ?k3 W) ?L3 (in_use xs A) p N c'"
    unfolding block_of_buckets_def K using u(1) N(2) nb(3) own out by blast
  moreover have "do {
       k \<leftarrow> init_buckets p (of_nat N) 0 k;
       k \<leftarrow> set_word (buckets_at h) p k;
       k \<leftarrow> set_word (bucket_cnt_at h) (of_nat N) k;
       move_buckets hc h bs (of_nat n) 0 k } = Some ?k3" using h1(1) k1(1) k2(1) m(1) by simp
  moreover have "words ?k3 q = words k q" if "q \<notin> hash_words h" for q using w[OF that] by simp
  moreover have "q \<in> ll.owned L \<or> in_range p c' q" if "q \<in> ll.owned ?L3" for q using own[OF that] rng by blast
  ultimately show ?thesis using dr(1) el free_bs pl by blast
qed

end

section \<open>rehash\<close>

lemma outside_mono: "outside C U h E \<Longrightarrow> U \<subseteq> V \<Longrightarrow> E' \<subseteq> E \<Longrightarrow> outside C V h E'"
  unfolding outside_def using in_blocks_mono by blast

text \<open>Only the free lists have changed: the lists of a client are what they were.\<close>

definition same_lists :: "malloc_statics \<Rightarrow> (addr \<rightharpoonup> addr list) \<Rightarrow> (addr \<rightharpoonup> addr list) \<Rightarrow> bool" where
  "same_lists ms L L' \<longleftrightarrow> (\<forall>l. l \<notin> (\<lambda>i. free_list_of (desc_of ms i)) ` {0..<7} \<longrightarrow> L' l = L l)"

lemma same_lists_client: "same_lists ms L L' \<Longrightarrow> l \<notin> kernel_lists ms k W \<Longrightarrow> L' l = L l"
  unfolding same_lists_def kernel_lists_def by auto

lemma same_lists_owned:
  assumes "allocator {} ms k L cur rs ts W xs A" "allocator {} ms k' L' cur rs ts W xs' A'" "same_lists ms L L'"
    "in_blocks (in_use xs' A') q" "q \<in> ll.owned L'"
  shows "q \<in> ll.owned L"
proof (rule ccontr)
  assume out: "q \<notin> ll.owned L"
  obtain b c where u: "(b, c) \<in> in_use xs' A'" "in_range b c q" using assms(4) by (auto simp: in_blocks_def)
  have "q \<notin> ll.owned L'"
    by (rule unowned_later[OF assms(1,2) _ u out]) (use assms(3) in \<open>simp add: same_lists_def\<close>)
  then show False using assms(5) by simp
qed

context hash_client
begin

lemma keep_ready:
  assumes "outside C V h E" "e \<in> E" "key_ready C k e" "\<And>q. in_blocks V q \<Longrightarrow> words k' q = words k q"
  shows "key_ready C k' e"
  by (rule data_law[OF assms(3)]) (use assms(4) outsideD(3)[OF assms(1,2)] in blast)

lemma keep_table:
  assumes t: "hash_table C k L h bs n ys" and o: "outside C V h E" "elems n ys \<subseteq> E"
    and w: "\<And>q. in_blocks V q \<Longrightarrow> words k' q = words k q" and L: "\<And>i. i < n \<Longrightarrow> L' (bucket bs i) = L (bucket bs i)"
  shows "hash_table C k' L' h bs n ys"
proof -
  note T = hash_tableD[OF t]
  have "words k' q = words k q" if "q \<in> hash_words h" for q by (rule w[OF outsideD(1)[OF o(1) that]])
  then have "hash_fields k' h (of_nat (elem_count n ys)) n bs C"
    using T(2) by (simp add: hash_fields_def hash_words_def)
  moreover have "key_ready C k' e" if "i < n" "e \<in> set (ys i)" for i e
    by (rule keep_ready[OF o(1) _ T(6)[OF that] w]) (use subsetD[OF o(2), of e] in_elems[of e n ys] that in blast)+
  ultimately show ?thesis
    using T(1,4,5,7) L by (simp add: hash_table_def bucket_chains_def)
qed

text \<open>The block allocator is called: the table stays.\<close>

lemma keep_buckets:
  assumes al: "allocator {} ms k L cur rs ts W xs A" and al': "allocator {} ms k' L' cur rs ts W xs' A'"
    and L: "same_lists ms L L'" and pl: "places_of k' = places_of k" and u: "(bs, c) \<in> in_use xs' A'"
    and bb: "block_of_buckets (kernel_lists ms k W) L U bs n c"
  shows "block_of_buckets (kernel_lists ms k' W) L' (in_use xs' A') bs n c"
  using bb u same_lists_owned[OF al al' L in_blocksI[OF u]]
  unfolding block_of_buckets_def kernel_lists_places[OF pl] by blast

text \<open>With a new block at \<open>p\<close>: the table moves there, and the old block is free again.\<close>

lemma rehash_tail_state:
  assumes st: "hash_state C ms cur rs ts W h k L U bs c n ys F"
    and al0: "allocator {} ms k L cur rs ts W xs A" "in_use xs A = U"
    and al1: "allocator {} ms k1 L1 cur rs ts W xs1 A1" "in_use xs1 A1 = insert (p, c') U"
    and new: "(p, c') \<notin> U" "\<forall>q. in_range p c' q \<longrightarrow> q \<notin> ll.owned L1" "apart (p, c') U"
    and keep: "keeps_used U k k1" "same_lists ms L L1" "places_of k1 = places_of k"
    and p: "p \<noteq> NULL" and N: "power_size N" "16 * N \<le> c'"
  shows "\<exists>k' L' U' ys'. rehash_tail hc h bs (of_nat n) (of_nat N) p k1 = Some (Done 0, k') \<and>
     hash_state C ms cur rs ts W h k' L' U' p c' N ys' F \<and> elems N ys' = elems n ys"
proof -
  note S = hash_stateD[OF st]
  let ?V = "U - {(bs, c)}"
  have bs: "(bs, c) \<in> U" "\<And>i. i < n \<Longrightarrow> bucket bs i \<notin> kernel_lists ms k W"
    using S(3) unfolding block_of_buckets_def by blast+
  have V: "?V \<subseteq> U" "?V \<subseteq> in_use xs1 A1" using al1(2) by auto
  have w1: "words k1 q = words k q" if "in_blocks ?V q" for q
    by (rule keeps_usedD(1)[OF keep(1) in_blocks_mono[OF that V(1)]])
  have L1: "L1 (bucket bs i) = L (bucket bs i)" if "i < n" for i by (rule same_lists_client[OF keep(2) bs(2)[OF that]])
  have t1: "hash_table C k1 L1 h bs n ys" by (rule keep_table[OF S(2,4) _ w1 L1]) auto
  have u1: "(p, c') \<in> in_use xs1 A1" "(bs, c) \<in> in_use xs1 A1" "(p, c') \<noteq> (bs, c)" using al1(2) bs(1) new(1) by auto
  have bb1: "block_of_buckets (kernel_lists ms k1 W) L1 (in_use xs1 A1) bs n c"
    by (rule keep_buckets[OF al0(1) al1(1) keep(2,3) u1(2) S(3)])
  have o1: "outside C (in_use xs1 A1) h (elems n ys)" by (rule outside_mono[OF S(4) V(2)]) simp
  obtain k2 L2 zs where r: "do {
       k \<leftarrow> init_buckets p (of_nat N) 0 k1;
       k \<leftarrow> set_word (buckets_at h) p k;
       k \<leftarrow> set_word (bucket_cnt_at h) (of_nat N) k;
       move_buckets hc h bs (of_nat n) 0 k } = Some k2" "allocator {} ms k2 L2 cur rs ts W xs1 A1"
     "hash_table C k2 L2 h p N zs" "elems N zs = elems n ys" "block_of_buckets (kernel_lists ms k2 W) L2 (in_use xs1 A1) p N c'"
     "\<forall>q. in_range bs c q \<longrightarrow> q \<notin> ll.owned L2" "places_of k2 = places_of k1"
     "\<forall>q. q \<in> ll.owned L2 \<longrightarrow> q \<in> ll.owned L1 \<or> in_range p c' q" "\<forall>q. q \<notin> hash_words h \<longrightarrow> words k2 q = words k1 q"
    using rehash_moves[OF al1(1) u1(1,3) N new(2) t1 bb1 o1] by (elim exE conjE) (rule that)
  have "free_outcome ms k2 L2 cur rs ts W (in_use xs1 A1 - {(bs, c)}) (free bs k2)"
    by (rule free_outcome_holds[OF r(2) u1(2)]) (use r(6) in blast)
  then obtain k3 L3 xs3 A3 where f: "free bs k2 = Some (Done 0, k3)" "allocator {} ms k3 L3 cur rs ts W xs3 A3"
     "in_use xs3 A3 = in_use xs1 A1 - {(bs, c)}" "keeps_used (in_use xs1 A1 - {(bs, c)}) k2 k3" "same_lists ms L2 L3"
    unfolding free_outcome_def same_lists_def by blast
  have pl3: "places_of k3 = places_of k2" by (rule free_places[OF f(1)])
  have V3: "?V \<subseteq> in_use xs3 A3" "?V = in_use xs3 A3 - {(p, c')}" using f(3) al1(2) new(1) u1(3) by auto
  have w3: "words k3 q = words k2 q" if "in_blocks ?V q" for q
    by (rule keeps_usedD(1)[OF f(4) in_blocks_mono[OF that]]) (use V3(1) f(3) in simp)
  have u3: "(p, c') \<in> in_use xs3 A3" using u1(1,3) f(3) by simp
  have L3: "L3 (bucket p i) = L2 (bucket p i)" if "i < N" for i
    by (rule same_lists_client[OF f(5), where k = k2 and W = W]) (use r(5) that in \<open>simp add: block_of_buckets_def\<close>)
  have t3: "hash_table C k3 L3 h p N zs" by (rule keep_table[OF r(3) S(4) _ w3 L3]) (use r(4) in auto)
  have bb3: "block_of_buckets (kernel_lists ms k3 W) L3 (in_use xs3 A3) p N c'"
    by (rule keep_buckets[OF r(2) f(2,5) pl3 u3 r(5)])
  have o3: "outside C (in_use xs3 A3 - {(p, c')}) h (elems N zs \<union> F)" using S(4) unfolding V3(2) r(4) .
  have F: "key_ready C k3 e \<and> e \<notin> ll.owned L3" if e: "e \<in> F" for e
  proof
    have eF: "e \<in> elems n ys \<union> F" using e by simp
    have "key_ready C k1 e" by (rule keep_ready[OF S(4) eF S(8)[OF e] w1])
    then have "key_ready C k2 e" by (rule ready_outside[OF S(4) eF]) (use r(9) in blast)
    then show "key_ready C k3 e" by (rule keep_ready[OF S(4) eF _ w3])
    have b: "in_blocks ?V e" by (rule outsideD(2)[OF S(4) eF])
    show "e \<notin> ll.owned L3"
    proof
      assume "e \<in> ll.owned L3"
      then have "e \<in> ll.owned L2" by (rule same_lists_owned[OF r(2) f(2,5) in_blocks_mono[OF b V3(1)]])
      then consider "e \<in> ll.owned L1" | "in_range p c' e" using r(8) by blast
      then show False
      proof cases
        case 1
        then have "e \<in> ll.owned L" by (rule same_lists_owned[OF al0(1) al1(1) keep(2) in_blocks_mono[OF b V(2)]])
        then show False using S(9)[OF e] by simp
      next
        case 2
        then show False using b new(3) by (auto simp: in_blocks_def apart_def)
      qed
    qed
  qed
  have "rehash_tail hc h bs (of_nat n) (of_nat N) p k1 = Some (Done 0, k3)"
    using p f(1) r(1) by (auto simp: rehash_tail_def bind_eq_Some_conv)
  moreover have "hash_state C ms cur rs ts W h k3 L3 (in_use xs3 A3) p c' N zs F"
    unfolding hash_state_def using f(2) t3 bb3 o3 F S(5-7) r(4) by auto
  ultimately show ?thesis using r(4) by blast
qed

lemma rehash_state:
  assumes st: "hash_state C ms cur rs ts W h k L U bs c n ys F"
  shows "\<exists>v k' L' U' bs' c' n' ys'. rehash hc ms h k = Some (Done v, k') \<and>
     hash_state C ms cur rs ts W h k' L' U' bs' c' n' ys' F \<and> elems n' ys' = elems n ys"
proof -
  note S = hash_stateD[OF st] note T = hash_tableD[OF S(2)] note X = state_facts[OF st]
  obtain xs A where al: "allocator {} ms k L cur rs ts W xs A" and U: "in_use xs A = U" using S(1) by blast
  have "card (elems n ys) \<le> card (elems n ys \<union> F)" by (rule card_mono) (use S(6) in auto)
  then have cnt: "elem_count n ys < 2 ^ 26" using S(7) X(6) by simp
  then have "unat (of_nat (elem_count n ys) :: u32) < 2 ^ 26" by (simp add: unat_of_nat)
  then obtain N where N: "ideal_bucket_cnt (of_nat (elem_count n ys)) = Some (of_nat N)" "power_size N"
    using ideal_bucket_cnt_eq by blast
  note fd = hash_fieldsD[OF T(2)]
  show ?thesis
  proof (cases "of_nat N = (of_nat n :: u32)")
    case True
    then have "rehash hc ms h k = Some (Done 0, k)" using fd N(1) by (simp add: rehash_def)
    then show ?thesis using st by blast
  next
    case False
    let ?sz = "sizeof_list * of_nat N"
    have rh: "rehash hc ms h k = and_then (malloc ms ?sz k) (Rehash_tail hc h bs (of_nat n) (of_nat N))
        (rehash_tail hc h bs (of_nat n) (of_nat N))" using False fd N(1) by (simp add: rehash_def)
    have e: "?sz = of_nat (16 * N)" by (simp add: sizeof_list_def)
    have sz: "unat ?sz = 16 * N" unfolding e by (rule unat_of_nat_small) (use power_sizeD(2)[OF N(2)] in simp)
    then have "unat ?sz + 4107 < 2 ^ 32" using power_sizeD(2)[OF N(2)] by simp
    note out = malloc_outcome_holds[OF al this, unfolded malloc_outcome_def]
    have null: ?thesis if "malloc ms ?sz k = Some (Done NULL, k)"
    proof -
      have "rehash hc ms h k = Some (Done 0, k)" unfolding rh that by (simp add: rehash_tail_def)
      then show ?thesis using st by blast
    qed
    from out show ?thesis
    proof (elim disjE exE conjE)
      fix p c' k1 L1 xs1 A1 assume m: "malloc ms ?sz k = Some (Done p, k1)" "p \<noteq> NULL" "unat ?sz \<le> c'"
        "allocator {} ms k1 L1 cur rs ts W xs1 A1" "in_use xs1 A1 = insert (p, c') (in_use xs A)" "(p, c') \<notin> in_use xs A"
        "\<forall>q. in_range p c' q \<longrightarrow> q \<notin> ll.owned L1" "apart (p, c') (in_use xs A)" "keeps_used (in_use xs A) k k1"
        and sl: "\<forall>l. l \<notin> (\<lambda>i. free_list_of (desc_of ms i)) ` {0..<7} \<longrightarrow> L1 l = L l"
      have "same_lists ms L L1" using sl by (simp add: same_lists_def)
      moreover have "places_of k1 = places_of k" by (rule malloc_places[OF m(1)])
      moreover have "16 * N \<le> c'" using m(3) sz by simp
      ultimately obtain k' L' U' ys' where r: "rehash_tail hc h bs (of_nat n) (of_nat N) p k1 = Some (Done 0, k')"
         "hash_state C ms cur rs ts W h k' L' U' p c' N ys' F" "elems N ys' = elems n ys"
        using rehash_tail_state[OF st al U m(4) _ _ _ _ _ _ _ m(2) N(2)] m(5-9) U by blast
      have "rehash hc ms h k = Some (Done 0, k')" unfolding rh using m(1) r(1) by simp
      then show ?thesis using r(2,3) by blast
    qed (rule null, assumption)+
  qed
qed

end

end
