(* ===== verification/Kernel_Hash_Dict.thy ===== *)
theory Kernel_Hash_Dict
  imports Kernel_Hash_Rehash
begin

text \<open>
  The hash tables, fourth part: the contract of a dictionary whose entries are elements of the
  client (locale \<open>dictionary\<close>), and the operations of hash.c as an instance of it.
\<close>

section \<open>The contract of a dictionary\<close>

text \<open>
  \<open>match ky S x r\<close>: \<open>r\<close> is the element of \<open>S\<close> with the key of \<open>x\<close>, a null pointer when there is none.
\<close>

definition match :: "(addr \<Rightarrow> 'k) \<Rightarrow> addr set \<Rightarrow> addr \<Rightarrow> addr \<Rightarrow> bool" where
  "match ky S x r \<longleftrightarrow> (if r = NULL then \<forall>y \<in> S. ky y \<noteq> ky x else r \<in> S \<and> ky r = ky x)"

text \<open>A client sees a state, the elements \<open>S\<close> in the dictionary and those it holds itself, \<open>F\<close>.\<close>

locale dictionary =
  fixes ky :: "addr \<Rightarrow> 'k"
    and inv :: "'s \<Rightarrow> addr set \<Rightarrow> addr set \<Rightarrow> bool"
    and look :: "addr \<Rightarrow> 's \<Rightarrow> addr option"
    and put_new put_over remove :: "addr \<Rightarrow> 's \<Rightarrow> (outcome \<times> 's) option"
  assumes keys: "inv s S F \<Longrightarrow> inj_on ky S \<and> NULL \<notin> S \<and> S \<inter> F = {}"
    and look: "inv s S F \<Longrightarrow> x \<in> S \<union> F \<Longrightarrow> \<exists>r. look x s = Some r \<and> match ky S x r"
    and put_new: "inv s S F \<Longrightarrow> e \<in> F \<Longrightarrow> \<exists>r s'. put_new e s = Some (Done r, s') \<and> match ky S e r \<and>
        (if r = NULL then inv s' (insert e S) (F - {e}) else inv s' S F)"
    and put_over: "inv s S F \<Longrightarrow> e \<in> F \<Longrightarrow> \<exists>r s'. put_over e s = Some (Done r, s') \<and> match ky S e r \<and>
        (if r = NULL then inv s' (insert e S) (F - {e}) else inv s' (insert e (S - {r})) (insert r (F - {e})))"
    and remove: "inv s S F \<Longrightarrow> x \<in> S \<union> F \<Longrightarrow> \<exists>r s'. remove x s = Some (Done r, s') \<and> match ky S x r \<and>
        (if r = NULL then inv s' S F else inv s' (S - {r}) (insert r F))"

text \<open>A client is a list of requests; the answers are elements.\<close>

datatype dict_request = Look addr | Put_new addr | Put_over addr | Remove addr

fun run ::
  "(addr \<Rightarrow> 's \<Rightarrow> addr option) \<Rightarrow> (addr \<Rightarrow> 's \<Rightarrow> (outcome \<times> 's) option) \<Rightarrow> (addr \<Rightarrow> 's \<Rightarrow> (outcome \<times> 's) option) \<Rightarrow>
   (addr \<Rightarrow> 's \<Rightarrow> (outcome \<times> 's) option) \<Rightarrow> dict_request list \<Rightarrow> 's \<Rightarrow> (addr list \<times> 's) option" where
  "run look put_new put_over remove [] s = Some ([], s)"
| "run look put_new put_over remove (q # qs) s =
     (case (case q of Look x \<Rightarrow> map_option (\<lambda>r. (Done r, s)) (look x s) | Put_new e \<Rightarrow> put_new e s
             | Put_over e \<Rightarrow> put_over e s | Remove x \<Rightarrow> remove x s) of
        Some (Done r, s') \<Rightarrow> map_option (\<lambda>(rs, s'). (r # rs, s')) (run look put_new put_over remove qs s')
      | _ \<Rightarrow> None)"

text \<open>The same requests to a map from keys to elements.\<close>

fun map_step :: "(addr \<Rightarrow> 'k) \<Rightarrow> dict_request \<Rightarrow> ('k \<rightharpoonup> addr) \<Rightarrow> addr \<times> ('k \<rightharpoonup> addr)" where
  "map_step ky (Look x) d = (case d (ky x) of None \<Rightarrow> (NULL, d) | Some r \<Rightarrow> (r, d))"
| "map_step ky (Put_new e) d = (case d (ky e) of None \<Rightarrow> (NULL, d(ky e \<mapsto> e)) | Some r \<Rightarrow> (r, d))"
| "map_step ky (Put_over e) d = (case d (ky e) of None \<Rightarrow> NULL | Some r \<Rightarrow> r, d(ky e \<mapsto> e))"
| "map_step ky (Remove x) d = (case d (ky x) of None \<Rightarrow> (NULL, d) | Some r \<Rightarrow> (r, d(ky x := None)))"

fun map_run :: "(addr \<Rightarrow> 'k) \<Rightarrow> dict_request list \<Rightarrow> ('k \<rightharpoonup> addr) \<Rightarrow> addr list" where
  "map_run ky [] d = []"
| "map_run ky (q # qs) d = (let (r, d) = map_step ky q d in r # map_run ky qs d)"

text \<open>The client asks about its own elements, and enters only elements that are not in the dictionary.\<close>

fun fair :: "(addr \<Rightarrow> 'k) \<Rightarrow> addr set \<Rightarrow> dict_request list \<Rightarrow> ('k \<rightharpoonup> addr) \<Rightarrow> bool" where
  "fair ky X [] d \<longleftrightarrow> True"
| "fair ky X (q # qs) d \<longleftrightarrow>
     (case q of Look x \<Rightarrow> x \<in> X | Remove x \<Rightarrow> x \<in> X | Put_new e \<Rightarrow> e \<in> X \<and> d (ky e) \<noteq> Some e
      | Put_over e \<Rightarrow> e \<in> X \<and> d (ky e) \<noteq> Some e) \<and> fair ky X qs (snd (map_step ky q d))"

definition map_of_set :: "(addr \<Rightarrow> 'k) \<Rightarrow> addr set \<Rightarrow> ('k \<rightharpoonup> addr) \<Rightarrow> bool" where
  "map_of_set ky S d \<longleftrightarrow> (\<forall>x e. d x = Some e \<longleftrightarrow> e \<in> S \<and> ky e = x)"

lemma match_map:
  assumes "map_of_set ky S d" "inj_on ky S" "NULL \<notin> S" "match ky S x r"
  shows "d (ky x) = (if r = NULL then None else Some r)"
proof (cases "r = NULL")
  case True
  then have "d (ky x) \<noteq> Some e" for e using assms(1,4) by (auto simp: map_of_set_def match_def)
  then show ?thesis using True by (cases "d (ky x)") auto
next
  case False
  then show ?thesis using assms(1,4) by (auto simp: map_of_set_def match_def)
qed

lemma map_of_set_insert:
  assumes "map_of_set ky S d" "\<forall>y \<in> S. ky y \<noteq> ky e"
  shows "map_of_set ky (insert e S) (d(ky e \<mapsto> e))"
  using assms unfolding map_of_set_def by auto

lemma map_of_set_remove:
  assumes "map_of_set ky S d" "inj_on ky S" "r \<in> S"
  shows "map_of_set ky (S - {r}) (d(ky r := None))"
  using assms unfolding map_of_set_def by (auto simp: inj_on_eq_iff)

context dictionary
begin

text \<open>Every fair client gets the answers of the map.\<close>

lemma run_map:
  assumes "inv s S F" "map_of_set ky S d" "fair ky (S \<union> F) qs d"
  shows "\<exists>s' S' F'. run look put_new put_over remove qs s = Some (map_run ky qs d, s') \<and> inv s' S' F' \<and> S' \<union> F' = S \<union> F"
  using assms
proof (induction qs arbitrary: s S F d)
  case (Cons q qs)
  note K = keys[OF Cons.prems(1)] note M = match_map[OF Cons.prems(2)]
  have step: ?case
    if "(case q of Look x \<Rightarrow> map_option (\<lambda>r. (Done r, s)) (look x s) | Put_new e \<Rightarrow> put_new e s
          | Put_over e \<Rightarrow> put_over e s | Remove x \<Rightarrow> remove x s) = Some (Done r, s1)"
      "map_step ky q d = (r, d1)" "inv s1 S1 F1" "map_of_set ky S1 d1" "S1 \<union> F1 = S \<union> F" for r s1 d1 S1 F1
  proof -
    have "fair ky (S1 \<union> F1) qs d1" using Cons.prems(3) that(2,5) by simp
    from Cons.IH[OF that(3,4) this] show ?thesis using that(1,2,5) by fastforce
  qed
  have inF: "e \<in> F" if "e \<in> S \<union> F" "d (ky e) \<noteq> Some e" for e
    using that Cons.prems(2) by (auto simp: map_of_set_def)
  show ?case
  proof (cases q)
    case (Look x)
    then obtain r where "look x s = Some r" "match ky S x r" using look[OF Cons.prems(1), of x] Cons.prems(3) by auto
    then show ?thesis using M[of x r] K Look Cons.prems(1,2) by (intro step[of r s d S F]) auto
  next
    case (Put_new e)
    then have e: "e \<in> F" using inF[of e] Cons.prems(3) by simp
    obtain r s1 where r: "put_new e s = Some (Done r, s1)" "match ky S e r"
      "if r = NULL then inv s1 (insert e S) (F - {e}) else inv s1 S F" using put_new[OF Cons.prems(1) e] by blast
    show ?thesis
    proof (cases "r = NULL")
      case True
      then show ?thesis
        using r M[of e r] K Put_new e map_of_set_insert[OF Cons.prems(2), of e]
        by (intro step[of r s1 "d(ky e \<mapsto> e)" "insert e S" "F - {e}"]) (auto simp: match_def)
    next
      case False
      then show ?thesis using r M[of e r] K Put_new Cons.prems(2) by (intro step[of r s1 d S F]) auto
    qed
  next
    case (Put_over e)
    then have e: "e \<in> F" using inF[of e] Cons.prems(3) by simp
    obtain r s1 where r: "put_over e s = Some (Done r, s1)" "match ky S e r"
      "if r = NULL then inv s1 (insert e S) (F - {e}) else inv s1 (insert e (S - {r})) (insert r (F - {e}))"
      using put_over[OF Cons.prems(1) e] by blast
    show ?thesis
    proof (cases "r = NULL")
      case True
      then show ?thesis
        using r M[of e r] K Put_over e map_of_set_insert[OF Cons.prems(2), of e]
        by (intro step[of r s1 "d(ky e \<mapsto> e)" "insert e S" "F - {e}"]) (auto simp: match_def)
    next
      case False
      then have rS: "r \<in> S" "ky r = ky e" using r(2) by (auto simp: match_def)
      have "\<forall>y \<in> S - {r}. ky y \<noteq> ky e" using K rS by (auto simp: inj_on_def)
      from map_of_set_insert[OF map_of_set_remove[OF Cons.prems(2) _ rS(1)] this]
      have "map_of_set ky (insert e (S - {r})) (d(ky e \<mapsto> e))" using K rS(2) by simp
      then show ?thesis
        using r M[of e r] K Put_over e rS False
        by (intro step[of r s1 "d(ky e \<mapsto> e)" "insert e (S - {r})" "insert r (F - {e})"]) auto
    qed
  next
    case (Remove x)
    then obtain r s1 where r: "remove x s = Some (Done r, s1)" "match ky S x r"
      "if r = NULL then inv s1 S F else inv s1 (S - {r}) (insert r F)"
      using remove[OF Cons.prems(1), of x] Cons.prems(3) by auto
    show ?thesis
    proof (cases "r = NULL")
      case True
      then show ?thesis using r M[of x r] K Remove Cons.prems(2) by (intro step[of r s1 d S F]) auto
    next
      case False
      then have rS: "r \<in> S" "ky r = ky x" using r(2) by (auto simp: match_def)
      have "map_of_set ky (S - {r}) (d(ky x := None))"
        using map_of_set_remove[OF Cons.prems(2) _ rS(1)] K rS(2) by simp
      then show ?thesis
        using r M[of x r] K Remove rS False by (intro step[of r s1 "d(ky x := None)" "S - {r}" "insert r F"]) auto
    qed
  qed
qed auto

end

section \<open>The operations of hash.c\<close>

text \<open>\<open>and_then\<close> after a call that is done.\<close>

lemma hash_invE:
  assumes "hash_inv C ms cur rs ts W h k S F"
  obtains L U bs c n ys where "hash_state C ms cur rs ts W h k L U bs c n ys F" "elems n ys = S"
  using assms unfolding hash_inv_def by blast

lemma hash_invI: "hash_state C ms cur rs ts W h k L U bs c n ys F \<Longrightarrow> hash_inv C ms cur rs ts W h k (elems n ys) F"
  unfolding hash_inv_def by blast

context hash_client
begin

text \<open>The search that every operation starts with.\<close>

lemma search:
  assumes st: "hash_state C ms cur rs ts W h k L U bs c n ys F" and x: "x \<in> elems n ys \<union> F"
  shows "find_bucket hc h x k = Some (bucket bs (place C n x))"
    "\<exists>r. find_elem hc h (bucket bs (place C n x)) x k = Some r \<and> match (key_of C) (elems n ys) x r"
proof -
  note S = hash_stateD[OF st] note T = hash_tableD[OF S(2)] note X = state_facts[OF st]
  have r: "key_ready C k x" using x S(8) T(6) by (auto simp: in_elems)
  have j: "place C n x < n" by (rule place_less[OF T(1)])
  show "find_bucket hc h x k = Some (bucket bs (place C n x))" by (rule find_bucket_eq[OF T(2,1) r])
  have "find_elem hc h (bucket bs (place C n x)) x k = Some (found C x (ys (place C n x)))"
    by (rule find_elem_eq[OF T(2) r ll.familyD(1)[OF X(1) T(5)[OF j]]]) (use T(6)[OF j] in blast)
  moreover have "match (key_of C) (elems n ys) x (found C x (ys (place C n x)))"
    using found_spec[OF S(2) X(5) refl, of x] by (auto simp: match_def)
  ultimately show "\<exists>r. find_elem hc h (bucket bs (place C n x)) x k = Some r \<and> match (key_of C) (elems n ys) x r" by blast
qed

lemma rehash_done:
  assumes "hash_state C ms cur rs ts W h k L U bs c n ys F"
  shows "\<exists>k'. and_then (rehash hc ms h k) (Return_value old) (\<lambda>_ k. Some (Done old, k)) = Some (Done old, k') \<and>
     hash_inv C ms cur rs ts W h k' (elems n ys) F"
  using rehash_state[OF assms] hash_invI by fastforce

lemma hash_find_inv:
  assumes "hash_inv C ms cur rs ts W h k S F" "x \<in> S \<union> F"
  shows "\<exists>r. hash_find hc h x k = Some r \<and> match (key_of C) S x r"
proof -
  obtain L U bs c n ys where st: "hash_state C ms cur rs ts W h k L U bs c n ys F" "elems n ys = S"
    by (rule hash_invE[OF assms(1)])
  show ?thesis using search[OF st(1), of x] assms(2) st(2) by (auto simp: hash_find_def)
qed

lemma hash_insert_inv:
  assumes "hash_inv C ms cur rs ts W h k S F" "e \<in> F"
  shows "\<exists>r k'. hash_insert hc ms h e k = Some (Done r, k') \<and> match (key_of C) S e r \<and>
     (if r = NULL then hash_inv C ms cur rs ts W h k' (insert e S) (F - {e}) else hash_inv C ms cur rs ts W h k' S F)"
proof -
  obtain L U bs c n ys where st: "hash_state C ms cur rs ts W h k L U bs c n ys F" "elems n ys = S"
    by (rule hash_invE[OF assms(1)])
  have e: "e \<in> elems n ys \<union> F" using assms(2) by simp
  obtain r where r: "find_elem hc h (bucket bs (place C n e)) e k = Some r" "match (key_of C) (elems n ys) e r"
    using search(2)[OF st(1) e] by blast
  show ?thesis
  proof (cases "r = NULL")
    case True
    then have "\<And>x. x \<in> elems n ys \<Longrightarrow> key_of C x \<noteq> key_of C e" using r(2) by (simp add: match_def)
    from insert_elem_state[OF st(1) assms(2) this] obtain k1 L1 y1 where
      1: "insert_elem h (bucket bs (place C n e)) e k = Some k1" "hash_state C ms cur rs ts W h k1 L1 U bs c n y1 (F - {e})"
        "elems n y1 = insert e (elems n ys)" by blast
    show ?thesis
      using rehash_done[OF 1(2), of r] search(1)[OF st(1) e] r 1(1,3) True st(2) by (auto simp: hash_insert_def)
  next
    case False
    then show ?thesis
      using rehash_done[OF st(1), of r] search(1)[OF st(1) e] r st(2) by (auto simp: hash_insert_def)
  qed
qed

lemma hash_delete_inv:
  assumes "hash_inv C ms cur rs ts W h k S F" "x \<in> S \<union> F"
  shows "\<exists>r k'. hash_delete hc ms h x k = Some (Done r, k') \<and> match (key_of C) S x r \<and>
     (if r = NULL then hash_inv C ms cur rs ts W h k' S F else hash_inv C ms cur rs ts W h k' (S - {r}) (insert r F))"
proof -
  obtain L U bs c n ys where st: "hash_state C ms cur rs ts W h k L U bs c n ys F" "elems n ys = S"
    by (rule hash_invE[OF assms(1)])
  have x: "x \<in> elems n ys \<union> F" using assms(2) st(2) by simp
  obtain r where r: "find_elem hc h (bucket bs (place C n x)) x k = Some r" "match (key_of C) (elems n ys) x r"
    using search(2)[OF st(1) x] by blast
  show ?thesis
  proof (cases "r = NULL")
    case True
    then show ?thesis using search(1)[OF st(1) x] r st(2) assms(1) by (auto simp: hash_delete_def)
  next
    case False
    then have "r \<in> elems n ys" using r(2) by (simp add: match_def)
    from remove_elem_state[OF st(1) this] obtain k1 L1 y1 where
      1: "remove_elem h r k = Some k1" "hash_state C ms cur rs ts W h k1 L1 U bs c n y1 (insert r F)"
        "elems n y1 = elems n ys - {r}" by blast
    show ?thesis
      using rehash_done[OF 1(2), of r] search(1)[OF st(1) x] r 1(1,3) False st(2) by (auto simp: hash_delete_def)
  qed
qed

lemma hash_replace_inv:
  assumes "hash_inv C ms cur rs ts W h k S F" "e \<in> F"
  shows "\<exists>r k'. hash_replace hc ms h e k = Some (Done r, k') \<and> match (key_of C) S e r \<and>
     (if r = NULL then hash_inv C ms cur rs ts W h k' (insert e S) (F - {e})
      else hash_inv C ms cur rs ts W h k' (insert e (S - {r})) (insert r (F - {e})))"
proof -
  obtain L U bs c n ys where st: "hash_state C ms cur rs ts W h k L U bs c n ys F" "elems n ys = S"
    by (rule hash_invE[OF assms(1)])
  have e: "e \<in> elems n ys \<union> F" using assms(2) by simp
  obtain r where r: "find_elem hc h (bucket bs (place C n e)) e k = Some r" "match (key_of C) (elems n ys) e r"
    using search(2)[OF st(1) e] by blast
  show ?thesis
  proof (cases "r = NULL")
    case True
    then have "\<And>x. x \<in> elems n ys \<Longrightarrow> key_of C x \<noteq> key_of C e" using r(2) by (simp add: match_def)
    from insert_elem_state[OF st(1) assms(2) this] obtain k1 L1 y1 where
      1: "insert_elem h (bucket bs (place C n e)) e k = Some k1" "hash_state C ms cur rs ts W h k1 L1 U bs c n y1 (F - {e})"
        "elems n y1 = insert e (elems n ys)" by blast
    show ?thesis
      using rehash_done[OF 1(2), of r] search(1)[OF st(1) e] r 1(1,3) True st(2) by (auto simp: hash_replace_def)
  next
    case False
    then have rS: "r \<in> elems n ys" "key_of C r = key_of C e" using r(2) by (simp_all add: match_def)
    have inj: "inj_on (key_of C) (elems n ys)" by (rule hash_tableD(4)[OF hash_stateD(2)[OF st(1)]])
    have ne: "r \<noteq> e" using rS(1) assms(2) hash_stateD(5)[OF st(1)] by auto
    from remove_elem_state[OF st(1) rS(1)] obtain k1 L1 y1 where
      1: "remove_elem h r k = Some k1" "hash_state C ms cur rs ts W h k1 L1 U bs c n y1 (insert r F)"
        "elems n y1 = elems n ys - {r}" by blast
    have "\<And>x. x \<in> elems n y1 \<Longrightarrow> key_of C x \<noteq> key_of C e" using inj rS unfolding 1(3) by (auto simp: inj_on_def)
    moreover have "e \<in> insert r F" using assms(2) by simp
    ultimately obtain k2 L2 y2 where
      2: "insert_elem h (bucket bs (place C n e)) e k1 = Some k2" "hash_state C ms cur rs ts W h k2 L2 U bs c n y2 (insert r F - {e})"
        "elems n y2 = insert e (elems n y1)" using insert_elem_state[OF 1(2)] by blast
    have "insert r F - {e} = insert r (F - {e})" using ne by auto
    then show ?thesis
      using rehash_done[OF 2(2), of r] search(1)[OF st(1) e] r 1(1,3) 2(1,3) False st(2) by (auto simp: hash_replace_def)
  qed
qed

sublocale hash: dictionary "key_of C" "hash_inv C ms cur rs ts W h" "hash_find hc h" "hash_insert hc ms h"
  "hash_replace hc ms h" "hash_delete hc ms h" for ms cur rs ts W h
proof (unfold_locales, goal_cases)
  case (1 k S F)
  then obtain L U bs c n ys where st: "hash_state C ms cur rs ts W h k L U bs c n ys F" "elems n ys = S" by (rule hash_invE)
  show ?case
    using hash_tableD(4)[OF hash_stateD(2)[OF st(1)]] state_facts(5)[OF st(1)] hash_stateD(5)[OF st(1)] st(2) by blast
qed (intro hash_find_inv hash_insert_inv hash_replace_inv hash_delete_inv; assumption)+

end

end
