(* ===== verification/Kernel_Hash_Init.thy ===== *)
theory Kernel_Hash_Init
  imports Kernel_Hash_Dict
begin

text \<open>
  The hash tables, fifth part: \<open>hash_init\<close> makes an empty table, and the iteration with \<open>hash_first\<close>
  and \<open>hash_next\<close> visits every element once.
\<close>

section \<open>Initialisation\<close>

lemma hash_clear_loop_eq:
  assumes "hash_fields k h cnt n bs C" "i \<le> n" "n < 2 ^ 31"
  shows "hash_clear_loop None h (of_nat i) k = init_buckets bs (of_nat n) (of_nat i) k"
  using assms(1,2)
proof (induction "n - i" arbitrary: i k)
  case 0
  then show ?case
    using hash_fieldsD(2)[OF 0(2)] by (subst hash_clear_loop.simps, subst init_buckets.simps) simp
next
  case (Suc d)
  then have i: "i < n" by simp
  have lt: "(of_nat i :: u32) < of_nat n" using i assms(3) by (simp add: word_less_nat_alt unat_of_nat)
  have IH: "hash_clear_loop None h (of_nat (Suc i)) k1 = init_buckets bs (of_nat n) (of_nat (Suc i)) k1"
    if "on_lists (\<lambda>l. list_init l (bucket bs i)) k = Some k1" for k1
    by (rule Suc.hyps(1)) (use Suc.hyps(2) i Suc.prems(1) that in \<open>auto simp: on_lists_def hash_fields_def\<close>)
  show ?case
    using hash_fieldsD(2,3)[OF Suc.prems(1)] lt IH
    by (subst hash_clear_loop.simps, subst init_buckets.simps)
      (auto simp: Let_def add.commute split: Option.bind_splits)
qed

text \<open>Writing several words of the client.\<close>

fun set_words :: "(addr \<times> u32) list \<Rightarrow> kernel \<Rightarrow> kernel option" where
  "set_words [] k = Some k"
| "set_words ((a, v) # ws) k = do { k \<leftarrow> set_word a v k; set_words ws k }"

lemma client_words:
  assumes "allocator E ms k L cur rs ts W xs A" "\<forall>a \<in> fst ` set ws. in_blocks (in_use xs A) a"
  shows "\<exists>k'. set_words ws k = Some k' \<and> k' = k\<lparr>words := (words k)(map fst ws [\<mapsto>] map snd ws)\<rparr> \<and>
     allocator E ms k' L cur rs ts W xs A"
  using assms
proof (induction ws arbitrary: k)
  case (Cons w ws)
  obtain a v where w: "w = (a, v)" by (cases w)
  have "in_blocks (in_use xs A) a" using Cons.prems(2) w by simp
  from client_word[OF Cons.prems(1) this, of v] obtain k1 where
    1: "set_word a v k = Some k1" "k1 = k\<lparr>words := (words k)(a \<mapsto> v)\<rparr>" "allocator E ms k1 L cur rs ts W xs A" by blast
  have "\<exists>k'. set_words ws k1 = Some k' \<and> k' = k1\<lparr>words := (words k1)(map fst ws [\<mapsto>] map snd ws)\<rparr> \<and>
     allocator E ms k' L cur rs ts W xs A" by (rule Cons.IH[OF 1(3)]) (use Cons.prems(2) in simp)
  then show ?case using 1(1,2) w by simp
qed simp

context hash_client
begin

lemma hash_init_inv:
  assumes al: "allocator {} ms k L cur rs ts W xs A" and o: "outside C (in_use xs A) h F"
    and F: "finite F" "card F < 2 ^ 26" "\<forall>e \<in> F. key_ready C k e \<and> e \<notin> ll.owned L"
  shows "\<exists>r k'. hash_init ms h (hash_ptr C) (less_ptr C) (aux_ptr C) k = Some (Done r, k') \<and>
     (if r = 0 then exhausted k 1 else r = 1 \<and> hash_inv C ms cur rs ts W h k' {} F)"
proof -
  let ?U = "in_use xs A"
  have hw: "in_blocks ?U q" if "q \<in> hash_words h" for q by (rule outsideD(1)[OF o that])
  have b: "in_blocks ?U (elem_cnt_at h)" "in_blocks ?U (bucket_cnt_at h)" "in_blocks ?U (buckets_at h)"
    "in_blocks ?U (hash_at h)" "in_blocks ?U (less_at h)" "in_blocks ?U (aux_at h)"
    by (rule hw, simp add: hash_words_def)+
  have nn: "NULL \<notin> hash_words h" using hw blocks_memory(1)[OF al] by blast
  have ne: "elem_cnt_at h \<noteq> bucket_cnt_at h" by (simp add: elem_cnt_at_def bucket_cnt_at_def)
  let ?k1 = "k\<lparr>words := (words k)(elem_cnt_at h \<mapsto> 0, bucket_cnt_at h \<mapsto> 4)\<rparr>"
  have 1: "set_words [(elem_cnt_at h, 0), (bucket_cnt_at h, 4)] k = Some ?k1" "allocator {} ms ?k1 L cur rs ts W xs A"
    using client_words[OF al, of "[(elem_cnt_at h, 0), (bucket_cnt_at h, 4)]"] b by auto
  have cnt: "word_at ?k1 (bucket_cnt_at h) = Some 4" using nn by (auto simp: word_at_def hash_words_def)
  have init: "hash_init ms h (hash_ptr C) (less_ptr C) (aux_ptr C) k =
      and_then (malloc ms (sizeof_list * 4) ?k1) (Hash_init_tail h (hash_ptr C) (less_ptr C) (aux_ptr C))
        (hash_init_tail h (hash_ptr C) (less_ptr C) (aux_ptr C))"
    using 1(1) cnt by (auto simp: hash_init_def bind_eq_Some_conv)
  have sz: "unat (sizeof_list * 4) = 64" by (simp add: sizeof_list_def)
  then have "unat (sizeof_list * 4) + 4107 < 2 ^ 32" by simp
  note out = malloc_outcome_holds[OF 1(2) this, unfolded malloc_outcome_def]
  from out show ?thesis
  proof (elim disjE exE conjE)
    assume "malloc ms (sizeof_list * 4) ?k1 = Some (Done NULL, ?k1)" "exhausted ?k1 (pages_needed (sizeof_list * 4))"
    moreover have "exhausted k 1" using calculation(2) sz by (simp add: exhausted_def pages_needed_def)
    moreover obtain k2 where "set_words [(buckets_at h, NULL), (hash_at h, hash_ptr C), (less_at h, less_ptr C), (aux_at h, aux_ptr C)] ?k1 = Some k2"
      using client_words[OF 1(2), of "[(buckets_at h, NULL), (hash_at h, hash_ptr C), (less_at h, less_ptr C), (aux_at h, aux_ptr C)]"] b
      by auto
    ultimately show ?thesis unfolding init by (auto simp: hash_init_tail_def bind_eq_Some_conv)
  next
    fix p c k2 L2 xs2 A2 assume m: "malloc ms (sizeof_list * 4) ?k1 = Some (Done p, k2)" "p \<noteq> NULL" "unat (sizeof_list * 4) \<le> c"
      "allocator {} ms k2 L2 cur rs ts W xs2 A2" "in_use xs2 A2 = insert (p, c) ?U" "(p, c) \<notin> ?U"
      "\<forall>q. in_range p c q \<longrightarrow> q \<notin> ll.owned L2" "apart (p, c) ?U" "keeps_used ?U ?k1 k2"
      and "\<forall>l. l \<notin> (\<lambda>i. free_list_of (desc_of ms i)) ` {0..<7} \<longrightarrow> L2 l = L l"
    then have sl: "same_lists ms L L2" by (simp add: same_lists_def)
    have U2: "?U \<subseteq> in_use xs2 A2" using m(5) by auto
    let ?ws = "[(buckets_at h, p), (hash_at h, hash_ptr C), (less_at h, less_ptr C), (aux_at h, aux_ptr C)]"
    let ?w3 = "(words k2)(buckets_at h \<mapsto> p, hash_at h \<mapsto> hash_ptr C, less_at h \<mapsto> less_ptr C, aux_at h \<mapsto> aux_ptr C)"
    let ?k3 = "k2\<lparr>words := ?w3\<rparr>"
    have 3: "set_words ?ws k2 = Some ?k3" "allocator {} ms ?k3 L2 cur rs ts W xs2 A2"
      using client_words[OF m(4), of ?ws] in_blocks_mono[OF b(3) U2] in_blocks_mono[OF b(4) U2]
        in_blocks_mono[OF b(5) U2] in_blocks_mono[OF b(6) U2] by auto
    have fields: "hash_fields ?k3 h 0 4 p C"
      using keeps_usedD(1)[OF m(9) b(1)] keeps_usedD(1)[OF m(9) b(2)] nn
      by (simp add: hash_fields_def elem_cnt_at_def bucket_cnt_at_def buckets_at_def hash_at_def less_at_def aux_at_def)
    have u3: "(p, c) \<in> in_use xs2 A2" "16 * 4 \<le> c" "(4 :: nat) < 2 ^ 31" using m(3,5) sz by simp_all
    let ?L4 = "\<lambda>l. if l \<in> bucket p ` {0..<4} then Some [] else L2 l"
    note nb = new_buckets[OF 3(2) u3 m(7)[rule_format]]
    obtain h4 where h4: "init_buckets p (of_nat 4) 0 ?k3 = Some (?k3\<lparr>lheap := h4\<rparr>)"
       "allocator {} ms (?k3\<lparr>lheap := h4\<rparr>) ?L4 cur rs ts W xs2 A2" using nb(1) by blast
    let ?k4 = "?k3\<lparr>lheap := h4\<rparr>"
    have w4: "words ?k4 (elem_cnt_at h) = Some 0" using fields by (simp add: hash_fields_def)
    then have idem: "(words ?k4)(elem_cnt_at h \<mapsto> 0) = words ?k4" by (rule fun_upd_idem)
    have "set_word (elem_cnt_at h) 0 ?k4 = Some (?k4\<lparr>words := (words ?k4)(elem_cnt_at h \<mapsto> 0)\<rparr>)"
      using w4 nn by (auto simp: set_word_def hash_words_def)
    then have 5: "set_word (elem_cnt_at h) 0 ?k4 = Some ?k4" unfolding idem by simp
    have "hash_clear_loop None h 0 ?k3 = Some ?k4" using hash_clear_loop_eq[OF fields, of 0] h4(1) by simp
    then have "hash_init_tail h (hash_ptr C) (less_ptr C) (aux_ptr C) p k2 = Some (Done 1, ?k4)"
      using 3(1) 5 m(2) by (auto simp: hash_init_tail_def hash_clear_def bind_eq_Some_conv)
    then have run: "hash_init ms h (hash_ptr C) (less_ptr C) (aux_ptr C) k = Some (Done 1, ?k4)"
      unfolding init m(1) by simp
    have el: "elems 4 (\<lambda>_. []) = {}" by (simp add: elems_def)
    have same: "in_use xs2 A2 - {(p, c)} = ?U" using m(5,6) by auto
    have F4: "key_ready C ?k4 e \<and> e \<notin> ll.owned ?L4" if e: "e \<in> F" for e
    proof
      have "key_ready C ?k1 e"
        by (rule ready_outside[OF o e]) (use F(3) e in \<open>auto simp: hash_words_def\<close>)
      then have "key_ready C k2 e" by (rule keep_ready[OF o e _ keeps_usedD(1)[OF m(9)]])
      then show "key_ready C ?k4 e" by (rule ready_outside[OF o e]) (auto simp: hash_words_def)
      have be: "in_blocks ?U e" by (rule outsideD(2)[OF o e])
      show "e \<notin> ll.owned ?L4"
      proof
        assume "e \<in> ll.owned ?L4"
        then consider "e \<in> ll.owned L2" | i where "i < 4" "e = bucket p i \<or> e = tail_of (bucket p i)" using nb(2) by blast
        then show False
        proof cases
          case 1
          then have "e \<in> ll.owned L" by (rule same_lists_owned[OF \<open>allocator {} ms ?k1 L cur rs ts W xs A\<close> m(4) sl in_blocks_mono[OF be U2]])
          then show False using F(3) e by simp
        next
          case (2 i)
          have "unat p + 16 * 4 \<le> 0x20000000" using used_block_bound(1)[OF 3(2) u3(1)] u3(2) by simp
          from bucket_in_block[OF this 2(1) u3(2)] have "in_range p c e" using 2(2) by auto
          then show False using be m(8) by (auto simp: in_blocks_def apart_def)
        qed
      qed
    qed
    have "hash_table C ?k4 ?L4 h p 4 (\<lambda>_. [])"
      using fields by (auto simp: hash_table_def power_size_def hash_fields_def elem_count_def bucket_chains_def el intro!: exI[of _ 2])
    moreover have "block_of_buckets (kernel_lists ms ?k4 W) ?L4 (in_use xs2 A2) p 4 c"
    proof -
      have K: "kernel_lists ms ?k4 W = kernel_lists ms ?k3 W" by (rule kernel_lists_places) simp
      show ?thesis unfolding block_of_buckets_def K using u3(1,2) nb(2,3) m(7) by blast
    qed
    ultimately have "hash_state C ms cur rs ts W h ?k4 ?L4 (in_use xs2 A2) p c 4 (\<lambda>_. []) F"
      unfolding hash_state_def el same using h4(2) o F(1,2) F4 by auto
    then show ?thesis using run hash_invI el by fastforce
  qed (simp add: sizeof_list_def)
qed

end

section \<open>Iteration\<close>

text \<open>An iterator after the elements \<open>us\<close> of bucket \<open>i\<close>; \<open>rest\<close> are the elements still to come.\<close>

definition it_at :: "addr \<Rightarrow> addr \<Rightarrow> nat \<Rightarrow> (nat \<Rightarrow> addr list) \<Rightarrow> hash_iterator \<Rightarrow> addr list \<Rightarrow> bool" where
  "it_at h bs n ys it rest \<longleftrightarrow> it_hash it = h \<and> (\<exists>i us vs. i < n \<and> it_bucket it = bucket bs i \<and> ys i = us @ vs \<and>
     it_elem it = last (head_of (bucket bs i) # us) \<and> rest = vs @ concat (map ys [Suc i..<n]))"

lemma list_next_node:
  assumes "dlist h l (us @ vs)"
  shows "list_next h (last (head_of l # us)) = Some (hd (vs @ [tail_of l]))"
proof (cases us rule: rev_cases)
  case Nil
  have "nodes l vs = [] @ head_of l # hd (vs @ [tail_of l]) # tl (vs @ [tail_of l])" by (simp add: nodes_def)
  from dlist_adjacent[of h l vs, OF _ this] show ?thesis
    using assms dlistD(4)[OF assms] Nil by (simp add: list_next_valid valid_not_NULL)
next
  case (snoc us' u)
  then show ?thesis using list_next_dlist[of h l us' u vs] assms by simp
qed

lemma bucket_step: "bucket bs i + sizeof_list = bucket bs (Suc i)"
  by (simp add: bucket_at_def sizeof_list_def algebra_simps)

lemma hash_next_loop_eq:
  assumes fields: "hash_fields k h cnt n bs C" and b: "unat bs + 16 * n \<le> 0x20000000"
    and lists: "\<And>i. i < n \<Longrightarrow> dlist (lheap k) (bucket bs i) (ys i)"
    and it: "i < n" "it_hash it = h" "it_bucket it = bucket bs i" "ys i = us @ vs" "it_elem it = hd (vs @ [tail_of (bucket bs i)])"
  shows "\<exists>it'. hash_next_loop it k = Some it' \<and>
     (case vs @ concat (map ys [Suc i..<n]) of [] \<Rightarrow> it_elem it' = NULL
      | r # rest \<Rightarrow> it_elem it' = r \<and> it_at h bs n ys it' rest)"
  using it
proof (induction "n - i" arbitrary: i it us vs)
  case (Suc d)
  let ?b = "bucket bs i"
  have en: "list_end ?b = Some (tail_of ?b)" by (rule list_end_dlist[OF lists[OF Suc.prems(1)]])
  show ?case
  proof (cases vs)
    case (Cons r vs')
    have "r \<noteq> tail_of ?b" using dlistD(1)[OF lists[OF Suc.prems(1)]] Suc.prems(4) Cons by (auto simp: nodes_def)
    then have "hash_next_loop it k = Some it"
      using en Suc.prems(3,5) Cons by (subst hash_next_loop.simps) (simp add: list_elem_to_hash_elem_def)
    moreover have "it_at h bs n ys it (vs' @ concat (map ys [Suc i..<n]))"
      unfolding it_at_def using Suc.prems Cons by (intro conjI exI[of _ i] exI[of _ "us @ [r]"] exI[of _ vs']) simp_all
    ultimately show ?thesis using Cons Suc.prems(5) by simp
  next
    case Nil
    have tl: "it_elem it = tail_of ?b" using Suc.prems(5) Nil by simp
    let ?it = "it\<lparr>it_bucket := bucket bs (Suc i)\<rparr>"
    have end_eq: "bs + sizeof_list * of_nat n = bucket bs n" by (simp add: bucket_at_def)
    have un: "unat (bucket bs n) = unat bs + 16 * n"
    proof -
      have "bucket bs n = bs + of_nat (16 * n)" by (simp add: bucket_at_def sizeof_list_def)
      moreover have "unat (bs + of_nat (16 * n)) = unat bs + 16 * n" using b by (intro unat_add_nat) simp
      ultimately show ?thesis by simp
    qed
    show ?thesis
    proof (cases "Suc i < n")
      case False
      then have e: "Suc i = n" using Suc.prems(1) by simp
      have "hash_next_loop it k = Some (?it\<lparr>it_elem := NULL\<rparr>)"
        using en tl Suc.prems(2,3) hash_fieldsD(2,3)[OF fields] e
        by (subst hash_next_loop.simps) (simp add: list_elem_to_hash_elem_def Let_def bucket_step end_eq)
      then show ?thesis using Nil e by simp
    next
      case True
      have "unat (bucket bs (Suc i)) = unat bs + 16 * Suc i" by (rule bucket_addr(1)[OF b True])
      then have lt: "\<not> bucket bs (Suc i) \<ge> bucket bs n" using un True unfolding word_le_nat_alt by simp
      have bg: "list_begin (lheap k) (bucket bs (Suc i)) = Some (hd (ys (Suc i) @ [tail_of (bucket bs (Suc i))]))"
        by (rule list_begin_dlist[OF lists[OF True]])
      let ?it2 = "?it\<lparr>it_elem := hd (ys (Suc i) @ [tail_of (bucket bs (Suc i))])\<rparr>"
      have "hash_next_loop it k = hash_next_loop ?it2 k"
        using en tl Suc.prems(2,3) hash_fieldsD(2,3)[OF fields] lt bg
        by (subst hash_next_loop.simps) (simp add: list_elem_to_hash_elem_def Let_def bucket_step end_eq)
      moreover have "\<exists>it'. hash_next_loop ?it2 k = Some it' \<and>
         (case ys (Suc i) @ concat (map ys [Suc (Suc i)..<n]) of [] \<Rightarrow> it_elem it' = NULL
          | r # rest \<Rightarrow> it_elem it' = r \<and> it_at h bs n ys it' rest)"
        by (rule Suc.hyps(1)[where us = "[]"]) (use Suc.hyps(2) True Suc.prems(2) in simp_all)
      moreover have "[Suc i..<n] = Suc i # [Suc (Suc i)..<n]" using True by (rule upt_conv_Cons)
      ultimately show ?thesis using Nil by simp
    qed
  qed
qed simp

lemma hash_next_eq:
  assumes "hash_fields k h cnt n bs C" "unat bs + 16 * n \<le> 0x20000000"
    "\<And>i. i < n \<Longrightarrow> dlist (lheap k) (bucket bs i) (ys i)" "it_at h bs n ys it rest"
  shows "case rest of [] \<Rightarrow> \<exists>it'. hash_next it k = Some (NULL, it')
     | r # rest' \<Rightarrow> \<exists>it'. hash_next it k = Some (r, it') \<and> it_at h bs n ys it' rest'"
proof -
  obtain i us vs where it: "it_hash it = h" "i < n" "it_bucket it = bucket bs i" "ys i = us @ vs"
    "it_elem it = last (head_of (bucket bs i) # us)" "rest = vs @ concat (map ys [Suc i..<n])"
    using assms(4) unfolding it_at_def by blast
  let ?it = "it\<lparr>it_elem := hd (vs @ [tail_of (bucket bs i)])\<rparr>"
  have d: "dlist (lheap k) (bucket bs i) (us @ vs)" using assms(3)[OF it(2)] it(4) by simp
  have nx: "list_next (lheap k) (it_elem it) = Some (hd (vs @ [tail_of (bucket bs i)]))"
    unfolding it(5) by (rule list_next_node[OF d])
  obtain it' where it': "hash_next_loop ?it k = Some it'"
     "case vs @ concat (map ys [Suc i..<n]) of [] \<Rightarrow> it_elem it' = NULL | r # rest \<Rightarrow> it_elem it' = r \<and> it_at h bs n ys it' rest"
    using hash_next_loop_eq[OF assms(1-3) it(2), of ?it us vs] it by auto
  have "hash_next it k = Some (it_elem it', it')"
    unfolding hash_next_def list_elem_to_hash_elem_def nx using it'(1) by simp
  then show ?thesis using it'(2) unfolding it(6)[symmetric] by (cases rest) auto
qed

text \<open>The client's loop: \<open>m\<close> calls of \<open>hash_next\<close>.\<close>

fun next_elems :: "nat \<Rightarrow> hash_iterator \<Rightarrow> kernel \<Rightarrow> (addr list \<times> hash_iterator) option" where
  "next_elems 0 it k = Some ([], it)"
| "next_elems (Suc m) it k = do { (e, it) \<leftarrow> hash_next it k; (es, it) \<leftarrow> next_elems m it k; Some (e # es, it) }"

lemma next_elems_eq:
  assumes "hash_fields k h cnt n bs C" "unat bs + 16 * n \<le> 0x20000000"
    "\<And>i. i < n \<Longrightarrow> dlist (lheap k) (bucket bs i) (ys i)" "it_at h bs n ys it (es @ rest)"
  shows "\<exists>it'. next_elems (length es) it k = Some (es, it') \<and> it_at h bs n ys it' rest"
  using assms(4)
proof (induction es arbitrary: it)
  case (Cons e es)
  obtain it1 where "hash_next it k = Some (e, it1)" "it_at h bs n ys it1 (es @ rest)"
    using hash_next_eq[OF assms(1-3) Cons.prems] by auto
  then show ?case using Cons.IH[of it1] by fastforce
qed simp

text \<open>The elements in the order of the buckets.\<close>

abbreviation all_elems :: "nat \<Rightarrow> (nat \<Rightarrow> addr list) \<Rightarrow> addr list" where
  "all_elems n ys \<equiv> concat (map ys [0..<n])"

lemma all_elems:
  assumes "hash_state C ms cur rs ts W h k L U bs c n ys F"
  shows "set (all_elems n ys) = elems n ys" "length (all_elems n ys) = card (elems n ys)" "distinct (all_elems n ys)"
proof -
  show set: "set (all_elems n ys) = elems n ys" by (auto simp: elems_def)
  have "length (all_elems n ys) = elem_count n ys"
    by (simp add: elem_count_def length_concat o_def interv_sum_list_conv_sum_set_nat)
  then show len: "length (all_elems n ys) = card (elems n ys)" using state_facts(6)[OF assms] by simp
  show "distinct (all_elems n ys)" using set len by (intro card_distinct) simp
qed

lemma iteration_state:
  assumes st: "hash_state C ms cur rs ts W h k L U bs c n ys F"
  shows "\<exists>it it'. hash_first h k = Some it \<and> next_elems (card (elems n ys)) it k = Some (all_elems n ys, it') \<and>
     (\<exists>it''. hash_next it' k = Some (NULL, it''))"
proof -
  note S = hash_stateD[OF st] note T = hash_tableD[OF S(2)] note X = state_facts[OF st]
  have d: "dlist (lheap k) (bucket bs i) (ys i)" if "i < n" for i by (rule ll.familyD(1)[OF X(1) T(5)[OF that]])
  let ?it = "\<lparr>it_hash = h, it_bucket = bs, it_elem = bs\<rparr>"
  have n: "0 < n" using power_sizeD(1)[OF T(1)] by simp
  have b0: "bucket bs 0 = bs" by (simp add: bucket_at_def)
  have "[0..<n] = 0 # [Suc 0..<n]" using n by (rule upt_conv_Cons)
  then have at: "it_at h bs n ys ?it (all_elems n ys @ [])"
    unfolding it_at_def using n b0 by (intro conjI exI[of _ 0] exI[of _ "[]"] exI[of _ "ys 0"]) (simp_all add: head_of_def)
  obtain it' where it': "next_elems (length (all_elems n ys)) ?it k = Some (all_elems n ys, it')" "it_at h bs n ys it' []"
    using next_elems_eq[OF T(2) X(2) d at] by blast
  moreover have "\<exists>it''. hash_next it' k = Some (NULL, it'')" using hash_next_eq[OF T(2) X(2) d it'(2)] by simp
  moreover have "hash_first h k = Some ?it"
    using hash_fieldsD(3,7)[OF T(2)] dlist_ends(4)[OF d[OF n]] b0
    by (simp add: hash_first_def list_head_def list_elem_to_hash_elem_def head_of_def)
  ultimately show ?thesis unfolding all_elems(2)[OF st] by (intro exI[of _ ?it] exI[of _ it']) simp
qed

lemma iteration_inv:
  assumes "hash_inv C ms cur rs ts W h k S F"
  shows "\<exists>it es it'. hash_first h k = Some it \<and> next_elems (card S) it k = Some (es, it') \<and> set es = S \<and> distinct es \<and>
     (\<exists>it''. hash_next it' k = Some (NULL, it''))"
proof -
  obtain L U bs c n ys where st: "hash_state C ms cur rs ts W h k L U bs c n ys F" "elems n ys = S"
    by (rule hash_invE[OF assms])
  show ?thesis using iteration_state[OF st(1)] all_elems(1,3)[OF st(1)] st(2) by blast
qed

lemma size_inv:
  assumes "hash_inv C ms cur rs ts W h k S F"
  shows "hash_size h k = Some (of_nat (card S)) \<and> hash_empty h k = Some (S = {})"
proof -
  obtain L U bs c n ys where st: "hash_state C ms cur rs ts W h k L U bs c n ys F" "elems n ys = S"
    by (rule hash_invE[OF assms])
  note S = hash_stateD[OF st(1)] note T = hash_tableD[OF S(2)] note X = state_facts[OF st(1)]
  have fin: "finite S" using st(2) by auto
  have "card S \<le> card (S \<union> F)" by (rule card_mono) (use S(6) fin in auto)
  then have "card S < 2 ^ 26" using S(7) st(2) by simp
  then have "(of_nat (card S) :: u32) = 0 \<longleftrightarrow> card S = 0"
    by (auto simp: word_of_nat_eq_0_iff dest!: nat_dvd_not_less[rotated])
  then show ?thesis using hash_fieldsD(1)[OF T(2)] X(6) st(2) fin by (auto simp: hash_size_def hash_empty_def)
qed

end
