(* ===== verification/Kernel_Hash_Clear.thy ===== *)
theory Kernel_Hash_Clear
  imports Kernel_Hash_Init
begin

text \<open>
  The hash tables, sixth part: \<open>hash_apply\<close> calls the action once for every element, \<open>hash_clear\<close>
  empties a table and \<open>hash_destroy\<close> gives its buckets back.
\<close>

section \<open>hash_apply\<close>

text \<open>The action, called with one element after the other.\<close>

primrec act_on :: "hash_action_func \<Rightarrow> addr \<Rightarrow> addr list \<Rightarrow> kernel \<Rightarrow> kernel option" where
  "act_on act aux [] k = Some k"
| "act_on act aux (e # es) k = do { k \<leftarrow> act e aux k; act_on act aux es k }"

lemma act_on_append: "act_on act aux (es @ fs) k = do { k \<leftarrow> act_on act aux es k; act_on act aux fs k }"
  by (induction es arbitrary: k) simp_all

text \<open>An action that returns, keeps \<open>I\<close>, and changes neither lists nor the table itself.\<close>

definition tame :: "addr \<Rightarrow> (kernel \<Rightarrow> bool) \<Rightarrow> addr set \<Rightarrow> addr \<Rightarrow> hash_action_func \<Rightarrow> bool" where
  "tame h I S aux act \<longleftrightarrow> (\<forall>e \<in> S. \<forall>k. I k \<longrightarrow> (\<exists>k'. act e aux k = Some k' \<and> I k' \<and> lheap k' = lheap k \<and>
     (\<forall>q \<in> hash_words h. words k' q = words k q)))"

lemma tameD:
  assumes "tame h I S aux act" "e \<in> S" "I k"
  obtains k' where "act e aux k = Some k'" "I k'" "lheap k' = lheap k" "\<forall>q \<in> hash_words h. words k' q = words k q"
  using assms unfolding tame_def by blast

lemma act_on_tame:
  assumes "tame h I S aux act" "set es \<subseteq> S" "I k"
  shows "\<exists>k'. act_on act aux es k = Some k' \<and> I k' \<and> lheap k' = lheap k \<and> (\<forall>q \<in> hash_words h. words k' q = words k q)"
  using assms(2,3)
proof (induction es arbitrary: k)
  case (Cons e es)
  obtain k1 where 1: "act e aux k = Some k1" "I k1" "lheap k1 = lheap k" "\<forall>q \<in> hash_words h. words k1 q = words k q"
    by (rule tameD[OF assms(1), of e k]) (use Cons.prems in simp_all)
  show ?case using Cons.IH[of k1] Cons.prems(1) 1 by auto
qed simp

lemma hash_fields_cong:
  assumes "hash_fields k h cnt n bs C" "\<forall>q \<in> hash_words h. words k' q = words k q"
  shows "hash_fields k' h cnt n bs C"
  using assms by (simp add: hash_fields_def hash_words_def)

lemma apply_bucket_eq:
  assumes "hash_fields k h cnt n bs C" "tame h I S (aux_ptr C) act" "dlist (lheap k) b (us @ xs)" "set xs \<subseteq> S" "I k"
  shows "hash_apply_bucket act h b (hd (xs @ [tail_of b])) k = act_on act (aux_ptr C) xs k"
  using assms(1,3-5)
proof (induction xs arbitrary: us k)
  case Nil
  then show ?case by (subst hash_apply_bucket.simps) (simp add: list_end_dlist)
next
  case (Cons x xs)
  have ne: "x \<noteq> tail_of b" using dlistD(1)[OF Cons.prems(2)] by (auto simp: nodes_def)
  have nx: "list_next (lheap k) x = Some (hd (xs @ [tail_of b]))" by (rule list_next_dlist[OF Cons.prems(2)])
  have en: "list_end b = Some (tail_of b)" by (rule list_end_dlist[OF Cons.prems(2)])
  obtain k1 where 1: "act x (aux_ptr C) k = Some k1" "I k1" "lheap k1 = lheap k" "\<forall>q \<in> hash_words h. words k1 q = words k q"
    by (rule tameD[OF assms(2), of x k]) (use Cons.prems(3,4) in simp_all)
  have "hash_apply_bucket act h b (hd (xs @ [tail_of b])) k1 = act_on act (aux_ptr C) xs k1"
    by (rule Cons.IH[of k1 "us @ [x]"]) (use hash_fields_cong[OF Cons.prems(1) 1(4)] Cons.prems(2,3) 1(2,3) in simp_all)
  then show ?case
    using ne nx en 1(1) hash_fieldsD(6)[OF Cons.prems(1)]
    by (subst hash_apply_bucket.simps) (simp add: list_elem_to_hash_elem_def)
qed

lemma apply_loop_eq:
  assumes "hash_fields k h cnt n bs C" "tame h I S (aux_ptr C) act" "\<And>j. j < n \<Longrightarrow> dlist (lheap k) (bucket bs j) (ys j)"
    "\<And>j. j < n \<Longrightarrow> set (ys j) \<subseteq> S" "I k" "i \<le> n" "n < 2 ^ 31"
  shows "hash_apply_loop act h (of_nat i) k = act_on act (aux_ptr C) (concat (map ys [i..<n])) k"
  using assms(1,3,5,6)
proof (induction "n - i" arbitrary: i k)
  case 0
  then show ?case using hash_fieldsD(2)[OF 0(2)] by (subst hash_apply_loop.simps) simp
next
  case (Suc d)
  then have i: "i < n" by simp
  have lt: "(of_nat i :: u32) < of_nat n" using i assms(7) by (simp add: word_less_nat_alt unat_of_nat)
  note d = Suc.prems(2)[OF i]
  have bk: "hash_apply_bucket act h (bucket bs i) (hd (ys i @ [tail_of (bucket bs i)])) k = act_on act (aux_ptr C) (ys i) k"
    by (rule apply_bucket_eq[OF Suc.prems(1) assms(2), of _ "[]"]) (use d assms(4)[OF i] Suc.prems(3) in simp_all)
  obtain k1 where 1: "act_on act (aux_ptr C) (ys i) k = Some k1" "I k1" "lheap k1 = lheap k" "\<forall>q \<in> hash_words h. words k1 q = words k q"
    using act_on_tame[OF assms(2) assms(4)[OF i] Suc.prems(3)] by blast
  have "hash_apply_loop act h (of_nat (Suc i)) k1 = act_on act (aux_ptr C) (concat (map ys [Suc i..<n])) k1"
    by (rule Suc.hyps(1)) (use Suc.hyps(2) i hash_fields_cong[OF Suc.prems(1) 1(4)] Suc.prems(2) 1(2,3) in simp_all)
  moreover have "[i..<n] = i # [Suc i..<n]" using i by (rule upt_conv_Cons)
  ultimately show ?case
    using hash_fieldsD(2,3)[OF Suc.prems(1)] lt bk 1(1) list_begin_dlist[OF d]
    by (subst hash_apply_loop.simps) (simp add: Let_def act_on_append add.commute)
qed

lemma hash_apply_inv:
  assumes "hash_inv C ms cur rs ts W h k S F" "tame h I S (aux_ptr C) act" "I k"
  shows "\<exists>it es it' k'. hash_first h k = Some it \<and> next_elems (card S) it k = Some (es, it') \<and> set es = S \<and> distinct es \<and>
     hash_apply h (Some act) k = Some k' \<and> act_on act (aux_ptr C) es k = Some k' \<and> I k'"
proof -
  obtain L U bs c n ys where st: "hash_state C ms cur rs ts W h k L U bs c n ys F" "elems n ys = S" by (rule hash_invE[OF assms(1)])
  note S = hash_stateD[OF st(1)] note T = hash_tableD[OF S(2)] note X = state_facts[OF st(1)] note E = all_elems[OF st(1)]
  have d: "dlist (lheap k) (bucket bs i) (ys i)" if "i < n" for i by (rule ll.familyD(1)[OF X(1) T(5)[OF that]])
  have n: "n < 2 ^ 31" using power_sizeD(2)[OF T(1)] by simp
  have sub: "set (ys j) \<subseteq> S" if "j < n" for j using that st(2) by (auto simp: in_elems)
  have "hash_apply h (Some act) k = act_on act (aux_ptr C) (all_elems n ys) k"
    using apply_loop_eq[OF T(2) assms(2) d sub assms(3) _ n, of 0] by (simp add: hash_apply_def)
  moreover obtain k' where "act_on act (aux_ptr C) (all_elems n ys) k = Some k'" "I k'"
    using act_on_tame[OF assms(2) _ assms(3)] E(1) st(2) by blast
  ultimately show ?thesis using iteration_state[OF st(1)] E(1,3) st(2) by auto
qed

section \<open>hash_clear and hash_destroy\<close>

text \<open>Without its buckets a table is a block in use, and all its elements are free.\<close>

lemma drop_table:
  assumes st: "hash_state C ms cur rs ts W h k L U bs c n ys F" and al: "allocator {} ms k L cur rs ts W xs A" "in_use xs A = U"
  defines "L1 \<equiv> L |` (- bucket bs ` {0..<n})"
  shows "allocator {} ms k L1 cur rs ts W xs A" "in_range bs c q \<Longrightarrow> q \<notin> ll.owned L1" "e \<in> elems n ys \<union> F \<Longrightarrow> e \<notin> ll.owned L1"
proof -
  note S = hash_stateD[OF st] note T = hash_tableD[OF S(2)] note X = state_facts[OF st]
  have own: "ll.owned L1 \<subseteq> ll.owned L" unfolding L1_def using owned_drop by blast
  have "allocator {} ms (k\<lparr>lheap := lheap k\<rparr>) L1 cur rs ts W xs A"
  proof (rule client_lists[OF al(1)])
    show "ll.family (lheap k) L1" unfolding L1_def by (rule family_drop[OF X(1)])
    show "L1 l = L l" if "l \<in> kernel_lists ms k W" for l
      using S(3) that by (auto simp: L1_def restrict_map_def block_of_buckets_def)
  qed (use own in auto)
  then show "allocator {} ms k L1 cur rs ts W xs A" by simp
  have gone: "q \<notin> ll.owned L1" if i: "i < n" and q: "q \<in> set (nodes (bucket bs i) (ys i))" for i q
  proof
    assume "q \<in> ll.owned L1"
    then obtain l zs where l: "L1 l = Some zs" "q \<in> set (nodes l zs)" by (rule ll.ownedE)
    then have "L l = Some zs" "l \<noteq> bucket bs i" using i by (auto simp: L1_def restrict_map_def split: if_splits)
    then show False using ll.familyD(2)[OF X(1) T(5)[OF i], of l zs] q l(2) by blast
  qed
  show "q \<notin> ll.owned L1" if r: "in_range bs c q"
  proof
    assume q: "q \<in> ll.owned L1"
    then obtain i where "i < n" "q = bucket bs i \<or> q = tail_of (bucket bs i)"
      using S(3) r own q unfolding block_of_buckets_def by blast
    then show False using gone[of i q] q by (auto simp: set_nodes head_of_def)
  qed
  show "e \<notin> ll.owned L1" if e: "e \<in> elems n ys \<union> F"
  proof (cases "e \<in> F")
    case True
    then show ?thesis using S(9) own by blast
  next
    case False
    then obtain i where "i < n" "e \<in> set (ys i)" using e by (auto simp: in_elems)
    then show ?thesis using gone[of i e] by (simp add: set_nodes)
  qed
qed

context hash_client
begin

lemma hash_destroy_inv:
  assumes "hash_inv C ms cur rs ts W h k S F"
  shows "\<exists>k' L xs A. hash_destroy h None k = Some (Done 0, k') \<and> allocator {} ms k' L cur rs ts W xs A \<and>
     outside C (in_use xs A) h (S \<union> F) \<and> (\<forall>e \<in> S \<union> F. key_ready C k' e \<and> e \<notin> ll.owned L)"
proof -
  obtain L U bs c n ys where st: "hash_state C ms cur rs ts W h k L U bs c n ys F" "elems n ys = S" by (rule hash_invE[OF assms])
  note S = hash_stateD[OF st(1)] note T = hash_tableD[OF S(2)]
  obtain xs A where al: "allocator {} ms k L cur rs ts W xs A" "in_use xs A = U" using S(1) by blast
  note D = drop_table[OF st(1) al]
  have u: "(bs, c) \<in> in_use xs A" using S(3) al(2) by (simp add: block_of_buckets_def)
  have "free_outcome ms k (L |` (- bucket bs ` {0..<n})) cur rs ts W (in_use xs A - {(bs, c)}) (free bs k)"
    by (rule free_outcome_holds[OF D(1) u D(2)])
  then obtain k' L' xs' A' where f: "free bs k = Some (Done 0, k')" "allocator {} ms k' L' cur rs ts W xs' A'"
     "in_use xs' A' = U - {(bs, c)}" "keeps_used (U - {(bs, c)}) k k'" "same_lists ms (L |` (- bucket bs ` {0..<n})) L'"
    unfolding free_outcome_def same_lists_def al(2) by blast
  have "key_ready C k' e \<and> e \<notin> ll.owned L'" if e: "e \<in> elems n ys \<union> F" for e
  proof
    have "key_ready C k e" using e S(8) T(6) by (auto simp: in_elems)
    then show "key_ready C k' e" by (rule keep_ready[OF S(4) e _ keeps_usedD(1)[OF f(4)]])
    have "in_blocks (in_use xs' A') e" unfolding f(3) by (rule outsideD(2)[OF S(4) e])
    then show "e \<notin> ll.owned L'" using same_lists_owned[OF D(1) f(2,5)] D(3)[OF e] by blast
  qed
  moreover have "hash_destroy h None k = Some (Done 0, k')"
    using f(1) hash_fieldsD(3)[OF T(2)] by (simp add: hash_destroy_def)
  moreover have "outside C (in_use xs' A') h (S \<union> F)" using S(4) f(3) st(2) by simp
  ultimately show ?thesis using f(2) st(2) by blast
qed

lemma hash_clear_inv:
  assumes "hash_inv C ms cur rs ts W h k S F"
  shows "\<exists>k'. hash_clear h None k = Some k' \<and> hash_inv C ms cur rs ts W h k' {} (S \<union> F)"
proof -
  obtain L U bs c n ys where st: "hash_state C ms cur rs ts W h k L U bs c n ys F" "elems n ys = S" by (rule hash_invE[OF assms])
  note S = hash_stateD[OF st(1)] note T = hash_tableD[OF S(2)] note X = state_facts[OF st(1)]
  obtain xs A where al: "allocator {} ms k L cur rs ts W xs A" "in_use xs A = U" using S(1) by blast
  note D = drop_table[OF st(1) al]
  have u: "(bs, c) \<in> in_use xs A" "16 * n \<le> c" using S(3) al(2) by (simp_all add: block_of_buckets_def)
  have n: "n < 2 ^ 31" using power_sizeD(2)[OF T(1)] by simp
  let ?L = "\<lambda>l. if l \<in> bucket bs ` {0..<n} then Some [] else (L |` (- bucket bs ` {0..<n})) l"
  note nb = new_buckets[OF D(1) u n D(2)]
  obtain hp where hp: "init_buckets bs (of_nat n) 0 k = Some (k\<lparr>lheap := hp\<rparr>)"
    "allocator {} ms (k\<lparr>lheap := hp\<rparr>) ?L cur rs ts W xs A" using nb(1) by blast
  let ?k = "k\<lparr>lheap := hp, words := (words k)(elem_cnt_at h \<mapsto> 0)\<rparr>"
  have inV: "in_blocks (U - {(bs, c)}) q" if "q \<in> hash_words h" for q by (rule outsideD(1)[OF S(4) that])
  have "in_blocks (in_use xs A) (elem_cnt_at h)"
    using in_blocks_mono[OF inV, of "elem_cnt_at h" "in_use xs A"] al(2) by (auto simp: hash_words_def)
  from client_word[OF hp(2) this, of 0]
  have w: "set_word (elem_cnt_at h) 0 (k\<lparr>lheap := hp\<rparr>) = Some ?k" "allocator {} ms ?k ?L cur rs ts W xs A" by auto
  have run: "hash_clear h None k = Some ?k"
    using hash_clear_loop_eq[OF T(2), of 0] n hp(1) w(1) by (simp add: hash_clear_def)
  have el: "elems n (\<lambda>_. []) = {}" by (simp add: elems_def)
  have "hash_fields ?k h 0 n bs C" by (rule hash_fields_count[OF T(2)])
  then have "hash_table C ?k ?L h bs n (\<lambda>_. [])"
    using T(1) by (simp add: hash_table_def elem_count_def bucket_chains_def el)
  moreover have "block_of_buckets (kernel_lists ms ?k W) ?L U bs n c"
  proof -
    have K: "kernel_lists ms ?k W = kernel_lists ms k W" by (rule kernel_lists_places) simp
    show ?thesis unfolding block_of_buckets_def K using u al(2) nb(2,3) D(2) by blast
  qed
  moreover have "key_ready C ?k e \<and> e \<notin> ll.owned ?L" if e: "e \<in> S \<union> F" for e
  proof
    have e': "e \<in> elems n ys \<union> F" using e st(2) by simp
    have "key_ready C k e" using e' S(8) T(6) by (auto simp: in_elems)
    then show "key_ready C ?k e" by (rule ready_outside[OF S(4) e']) (auto simp: hash_words_def)
    have "in_blocks (in_use xs A - {(bs, c)}) e" using outsideD(2)[OF S(4) e'] al(2) by simp
    then have "\<not> in_range bs c e" by (rule outside_apart[OF al(1) u(1)])
    moreover have "in_range bs c (bucket bs i)" "in_range bs c (tail_of (bucket bs i))" if "i < n" for i
      using bucket_in_block[OF X(2) that u(2)] by simp_all
    ultimately show "e \<notin> ll.owned ?L" using nb(2)[of e] D(3)[OF e'] by blast
  qed
  ultimately have "hash_state C ms cur rs ts W h ?k ?L U bs c n (\<lambda>_. []) (S \<union> F)"
    unfolding hash_state_def el using w(2) al(2) S(4,6,7) st(2) by auto
  from hash_invI[OF this] show ?thesis using run el by auto
qed

end

end
