(* ===== verification/Kernel_Hash_Function.thy ===== *)
theory Kernel_Hash_Function
  imports Kernel_String
begin

text \<open>
  The sample hash functions of lib/kernel/hash.c, on the byte-addressed memory of Kernel_String.
\<close>

section \<open>The functions\<close>

definition FNV_32_PRIME :: u32 where "FNV_32_PRIME = 16777619"
definition FNV_32_BASIS :: u32 where "FNV_32_BASIS = 2166136261"

function hash_bytes_loop :: "addr \<Rightarrow> size_t \<Rightarrow> u32 \<Rightarrow> memory \<Rightarrow> u32 option" where
  "hash_bytes_loop buf sz hash m =
     (if sz > 0 then
        (case rd m buf of None \<Rightarrow> None
         | Some v \<Rightarrow> hash_bytes_loop (buf + 1) (sz - 1) ((hash * FNV_32_PRIME) XOR ucast v) m)
      else Some hash)"
  by pat_completeness auto
termination by (relation "measure (\<lambda>(b, n, h, m). unat n)") (auto simp: word_loop word_gt_0)

definition hash_bytes :: "addr \<Rightarrow> size_t \<Rightarrow> memory \<Rightarrow> u32 option" where
  "hash_bytes buf sz m = do {
     ASSERT (buf \<noteq> NULL);
     hash_bytes_loop buf sz FNV_32_BASIS m }"

partial_function (option) hash_string_loop :: "addr \<Rightarrow> u32 \<Rightarrow> memory \<Rightarrow> u32 option" where
  "hash_string_loop s hash m = do {
     v \<leftarrow> rd m s;
     if v \<noteq> 0 then hash_string_loop (s + 1) ((hash * FNV_32_PRIME) XOR ucast v) m else Some hash }"

definition hash_string :: "addr \<Rightarrow> memory \<Rightarrow> u32 option" where
  "hash_string s m = do {
     ASSERT (s \<noteq> NULL);
     hash_string_loop s FNV_32_BASIS m }"

text \<open>
  The parameter of \<open>hash_int\<close> is a local variable: its four bytes, the lowest first, are on the
  stack at an address \<open>sp\<close>.
\<close>

definition int_bytes :: "u32 \<Rightarrow> u8 list" where
  "int_bytes i = [ucast i, ucast (drop_bit 8 i), ucast (drop_bit 16 i), ucast (drop_bit 24 i)]"

definition hash_int :: "addr \<Rightarrow> u32 \<Rightarrow> memory \<Rightarrow> u32 option" where
  "hash_int sp i m = hash_bytes sp 4 (m(sp \<mapsto> int_bytes i ! 0, sp + 1 \<mapsto> int_bytes i ! 1,
     sp + 2 \<mapsto> int_bytes i ! 2, sp + 3 \<mapsto> int_bytes i ! 3))"

declare hash_bytes_loop.simps [simp del]
declare hash_string_loop.simps [code]

end
