(* ===== verification/Kernel_Hash_Function_Spec.thy ===== *)
theory Kernel_Hash_Function_Spec
  imports Kernel_Hash_Function Kernel_String_Rep
begin

text \<open>The sample hash functions compute the FNV-1 hash of a list of bytes.\<close>

definition fnv_step :: "u32 \<Rightarrow> u8 \<Rightarrow> u32" where
  "fnv_step hash v = (hash * 16777619) XOR ucast v"

lemma hash_bytes_loop_eq:
  "bytes_at m a xs \<Longrightarrow> length xs = unat n \<Longrightarrow> hash_bytes_loop a n hash m = Some (foldl fnv_step hash xs)"
proof (induction xs arbitrary: a n hash)
  case Nil
  then show ?case by (subst hash_bytes_loop.simps) (simp add: word_gt_0 unat_eq_zero)
next
  case (Cons x xs)
  then have n: "n \<noteq> 0" "unat (n - 1) = length xs" using count_down[of "length xs" n] by simp_all
  then show ?case
    using Cons.prems Cons.IH[of "a + 1" "n - 1" "fnv_step hash x"]
    by (subst hash_bytes_loop.simps) (simp add: rd_def FNV_32_PRIME_def word_gt_0 flip: fnv_step_def)
qed

lemma hash_string_loop_eq:
  "cstr m a s \<Longrightarrow> hash_string_loop a hash m = Some (foldl fnv_step hash s)"
  by (induction s arbitrary: a hash)
    (simp_all add: hash_string_loop.simps[of _ _ m] cstr_Cons cstr_Nil rd_def fnv_step_def FNV_32_PRIME_def)

section \<open>Properties\<close>

text \<open>\<open>hash_string\<close> of a string is \<open>hash_bytes\<close> of the block that \<open>strlen\<close> measures, and both
  are the FNV-1 hash of its characters.\<close>

lemma hash_string_is_hash_bytes:
  assumes "cstr m a s"
  shows "hash_string a m = Some (foldl fnv_step 2166136261 s) \<and>
     (\<exists>n. strlen m a = Some n \<and> hash_bytes a n m = hash_string a m)"
proof -
  have s: "hash_string a m = Some (foldl fnv_step 2166136261 s)"
    using hash_string_loop_eq[OF assms] cstr_bound(2)[OF assms] by (simp add: hash_string_def FNV_32_BASIS_def)
  have "bytes_at m a s" using assms by (simp add: cstr_def bytes_at_append)
  then have "hash_bytes a (of_nat (length s)) m = Some (foldl fnv_step 2166136261 s)"
    using hash_bytes_loop_eq[of m a s "of_nat (length s)" 2166136261] cstr_bound(2,3)[OF assms]
    by (simp add: hash_bytes_def FNV_32_BASIS_def)
  then show ?thesis using s strlen_eq[OF assms] by auto
qed

lemma hash_string_is_hash_bytes_example:
  "hash_string 100 [100 \<mapsto> 97, 101 \<mapsto> 98, 102 \<mapsto> 0] = Some 0x70772d38"
proof -
  have "cstr [100 \<mapsto> 97, 101 \<mapsto> 98, 102 \<mapsto> 0] 100 [97, 98]" by (simp add: cstr_def)
  from hash_string_is_hash_bytes[OF this] show ?thesis by (simp add: fnv_step_def)
qed

text \<open>The hash of an integer is that of its four bytes, wherever the local variable lies.\<close>

lemma hash_int_bytes:
  assumes "sp \<noteq> 0" "unat sp + 4 \<le> 2 ^ 32"
  shows "hash_int sp i m = Some (foldl fnv_step 2166136261 (int_bytes i))"
proof -
  have p: "unat (sp + of_nat n) = unat sp + n" if "n < 4" for n using assms(2) that by (intro unat_add_of_nat) simp
  have "sp + 1 \<noteq> 0" "2 + sp \<noteq> 0" "3 + sp \<noteq> 0" using p[of 1] p[of 2] p[of 3] by (auto simp: add.commute)
  then have "bytes_at (m(sp \<mapsto> int_bytes i ! 0, sp + 1 \<mapsto> int_bytes i ! 1, sp + 2 \<mapsto> int_bytes i ! 2,
     sp + 3 \<mapsto> int_bytes i ! 3)) sp (int_bytes i)"
    using assms(1) by (simp add: int_bytes_def)
  then show ?thesis
    using hash_bytes_loop_eq[of _ sp "int_bytes i" 4] assms(1)
    by (simp add: hash_int_def hash_bytes_def FNV_32_BASIS_def int_bytes_def)
qed

end
