(* ===== verification/Kernel_Hash_Spec.thy ===== *)
theory Kernel_Hash_Spec
  imports Kernel_Hash_Clear Kernel_Hash_Function_Spec Kernel_Malloc_Spec
begin

text \<open>
  The properties of the hash tables, and a client: elements with an integer behind their
  \<open>struct hash_elem\<close>, hashed with \<open>hash_int\<close> and compared as signed integers.
\<close>

section \<open>Integer elements\<close>

text \<open>The parameter of \<open>hash_int\<close> is on the stack, here at \<open>0x3ff00\<close>.\<close>

definition int_code :: hash_code where
  "int_code = \<lparr>
     hash_fun = (\<lambda>f e aux k. do { v \<leftarrow> word_at k (e + 8); hash_int 0x3ff00 v Map.empty }),
     less_fun = (\<lambda>f a b aux k. do { v \<leftarrow> word_at k (a + 8); w \<leftarrow> word_at k (b + 8); Some (sint v < sint w) })\<rparr>"

definition int_client :: "(addr \<Rightarrow> int) \<Rightarrow> int client" where
  "int_client val = \<lparr>
     key_ready = (\<lambda>k e. \<exists>v. word_at k (e + 8) = Some v \<and> sint v = val e),
     key_of = val,
     key_hash = (\<lambda>i. foldl fnv_step 2166136261 (int_bytes (word_of_int i))),
     key_data = (\<lambda>e. {e + 8}),
     hash_ptr = 0x8000, less_ptr = 0x8100, aux_ptr = NULL\<rparr>"

interpretation int_elements: hash_client int_code "int_client val"
proof (unfold_locales, goal_cases)
  case (1 k e)
  then obtain v where "word_at k (e + 8) = Some v" "val e = sint v" by (auto simp: int_client_def)
  then show ?case using hash_int_bytes[of "0x3ff00" v Map.empty] by (simp add: int_code_def int_client_def)
next
  case (2 k a b)
  then show ?case by (auto simp: int_code_def int_client_def)
next
  case (3 k e k')
  then show ?case by (auto simp: int_client_def word_at_def split: if_splits)
qed

text \<open>
  Example: a block of 100 bytes holds a \<open>struct hash\<close> and three elements with the keys 5, 7 and 5.
\<close>

definition ex_keys :: "addr \<Rightarrow> addr \<Rightarrow> int" where
  "ex_keys p e = (if e = p + 44 then 7 else 5)"

abbreviation ex_client :: "addr \<Rightarrow> int client" where
  "ex_client p \<equiv> int_client (ex_keys p)"

abbreviation ex_elements :: "addr \<Rightarrow> addr set" where
  "ex_elements p \<equiv> {p + 32, p + 44, p + 56}"

abbreviation ex_allocator_inv :: "kernel \<Rightarrow> (addr \<rightharpoonup> addr list) \<Rightarrow> (nat \<Rightarrow> addr list) \<Rightarrow> (addr \<rightharpoonup> arena) \<Rightarrow> bool" where
  "ex_allocator_inv k L xs A \<equiv>
     allocator {} ex_statics k L 0x41000 [0x42000] [0x41000, 0x42000, 0x43000, 0x44000] {0x9108} xs A"

abbreviation ex_hash_inv :: "addr \<Rightarrow> kernel \<Rightarrow> addr set \<Rightarrow> addr set \<Rightarrow> bool" where
  "ex_hash_inv p k S F \<equiv>
     hash_inv (ex_client p) ex_statics 0x41000 [0x42000] [0x41000, 0x42000, 0x43000, 0x44000] {0x9108} p k S F"

lemma ex_room:
  obtains k p c k' L xs A where "malloc_init ex_statics ex_memory = Some k" "malloc ex_statics 100 k = Some (Done p, k')" "100 \<le> c"
    "ex_allocator_inv k' L xs A" "in_use xs A = {(p, c)}" "\<forall>q. in_range p c q \<longrightarrow> q \<notin> ll.owned L" "\<not> exhausted k' 1"
proof -
  obtain k L where k: "malloc_init ex_statics ex_memory = Some k" "ex_allocator_inv k L (\<lambda>_. []) Map.empty"
    "kernel_pool k = kernel_pool ex_kernel" by (rule ex_allocator)
  have sz: "unat (100 :: size_t) + 4107 < 2 ^ 32" by simp
  have fine: "\<not> (100 = (0 :: size_t) \<or> exhausted k (pages_needed 100))"
    using ex_not_exhausted[OF k(3)] by (simp add: pages_needed_def)
  have none: "in_use (\<lambda>_. []) Map.empty = {}" by (simp add: in_use_def)
  obtain p c k' L' xs A where m: "malloc ex_statics 100 k = Some (Done p, k')" "100 \<le> c" "ex_allocator_inv k' L' xs A"
    "in_use xs A = {(p, c)}" "\<forall>q. in_range p c q \<longrightarrow> q \<notin> ll.owned L'" "pages_taken k k' (pages_needed 100)"
    using malloc_outcome_holds[OF k(2) sz] fine none unfolding malloc_outcome_def by auto
  have P: "page_cnt (kernel_pool k) = 8" "used_bits (used_map (kernel_pool k)) = {0, 1, 2, 3}"
    using k(3) ex_used by (simp_all add: ex_kernel_def page_cnt_def)
  then obtain i where i: "page_cnt (kernel_pool k') = 8" "used_bits (used_map (kernel_pool k')) \<subseteq> {0, 1, 2, 3, i}"
    using m(6) by (auto simp: pages_taken_def pages_needed_def)
  have "(if i = 4 then 5 else 4) \<notin> {0, 1, 2, 3, i}" by simp
  then have "(if i = 4 then 5 else 4) \<notin> used_bits (used_map (kernel_pool k'))" using i(2) by (rule contra_subsetD[rotated])
  then have "\<not> exhausted k' 1"
    unfolding exhausted_def using i(1) by (auto intro!: exI[of _ "if i = 4 then 5 else 4"])
  then show thesis using that k(1) m(1-5) by blast
qed

lemma block_offset:
  assumes "allocator E ms k L cur rs ts W xs A" "(p, c) \<in> in_use xs A" "n < c"
  shows "in_range p c (p + of_nat n)"
proof -
  have "unat (p + of_nat n) = unat p + n" by (rule unat_add_nat) (use used_block_bound(1)[OF assms(1,2)] assms(3) in simp)
  then show ?thesis using assms(3) by (simp add: in_range_def)
qed

lemma ex_ready:
  obtains k0 p k1 k L xs A where "malloc_init ex_statics ex_memory = Some k0" "malloc ex_statics 100 k0 = Some (Done p, k1)"
    "set_words [(p + 40, 5), (p + 52, 7), (p + 64, 5)] k1 = Some k" "ex_allocator_inv k L xs A" "\<not> exhausted k 1"
    "outside (ex_client p) (in_use xs A) p (ex_elements p)"
    "\<forall>e \<in> ex_elements p. key_ready (ex_client p) k e \<and> e \<notin> ll.owned L"
proof -
  obtain k0 p c k1 L xs A where m: "malloc_init ex_statics ex_memory = Some k0" "malloc ex_statics 100 k0 = Some (Done p, k1)" "100 \<le> c"
    "ex_allocator_inv k1 L xs A" "in_use xs A = {(p, c)}" "\<forall>q. in_range p c q \<longrightarrow> q \<notin> ll.owned L" "\<not> exhausted k1 1"
    by (rule ex_room)
  have off: "in_range p c (p + of_nat n)" if "n < 100" for n
    by (rule block_offset[OF m(4)]) (use m(3,5) that in simp_all)
  have r: "in_range p c p" "in_range p c (p + 4)" "in_range p c (p + 8)" "in_range p c (p + 12)" "in_range p c (p + 16)"
    "in_range p c (p + 20)" "in_range p c (p + 32)" "in_range p c (p + 40)" "in_range p c (p + 44)" "in_range p c (p + 52)"
    "in_range p c (p + 56)" "in_range p c (p + 64)"
    using off[of 0] off[of 4] off[of 8] off[of 12] off[of 16] off[of 20] off[of 32] off[of 40] off[of 44] off[of 52] off[of 56] off[of 64]
    by simp_all
  have b: "in_blocks (in_use xs A) q" if "in_range p c q" for q using that m(5) by (simp add: in_blocks_def)
  let ?ws = "[(p + 40, 5), (p + 52, 7), (p + 64, 5)]"
  obtain k where k: "set_words ?ws k1 = Some k" "k = k1\<lparr>words := (words k1)(p + 40 \<mapsto> 5, p + 52 \<mapsto> 7, p + 64 \<mapsto> 5)\<rparr>"
      "ex_allocator_inv k L xs A"
    using client_words[OF m(4), of ?ws] b r by auto
  have "p + 40 \<noteq> NULL" "p + 52 \<noteq> NULL" "p + 64 \<noteq> NULL" using blocks_memory(1)[OF m(4) b] r by blast+
  then have "\<forall>e \<in> ex_elements p. key_ready (ex_client p) k e \<and> e \<notin> ll.owned L"
    using m(6) r by (auto simp: int_client_def ex_keys_def k(2) word_at_def add.assoc)
  moreover have "outside (ex_client p) (in_use xs A) p (ex_elements p)"
    using b r by (auto simp: outside_def hash_words_def elem_cnt_at_def bucket_cnt_at_def buckets_at_def hash_at_def less_at_def
      aux_at_def int_client_def add.assoc)
  moreover have "\<not> exhausted k 1" using m(7) by (simp add: exhausted_def k(2))
  ultimately show thesis using that m(1,2) k(1,3) by blast
qed

text \<open>An empty table, and a table with two elements.\<close>

definition ex_made :: "addr \<Rightarrow> kernel \<Rightarrow> bool" where
  "ex_made p k \<longleftrightarrow> (\<exists>k0 k1 k2. malloc_init ex_statics ex_memory = Some k0 \<and> malloc ex_statics 100 k0 = Some (Done p, k1) \<and>
     set_words [(p + 40, 5), (p + 52, 7), (p + 64, 5)] k1 = Some k2 \<and>
     hash_init ex_statics p 0x8000 0x8100 NULL k2 = Some (Done 1, k))"

definition ex_filled :: "addr \<Rightarrow> kernel \<Rightarrow> bool" where
  "ex_filled p k \<longleftrightarrow> (\<exists>k0 k1. ex_made p k0 \<and> hash_insert int_code ex_statics p (p + 32) k0 = Some (Done NULL, k1) \<and>
     hash_insert int_code ex_statics p (p + 44) k1 = Some (Done NULL, k))"

lemma ex_made:
  obtains p k where "ex_made p k" "ex_hash_inv p k {} (ex_elements p)"
proof -
  obtain k0 p k1 k2 L xs A where r: "malloc_init ex_statics ex_memory = Some k0" "malloc ex_statics 100 k0 = Some (Done p, k1)"
    "set_words [(p + 40, 5), (p + 52, 7), (p + 64, 5)] k1 = Some k2" "ex_allocator_inv k2 L xs A" "\<not> exhausted k2 1"
    "outside (ex_client p) (in_use xs A) p (ex_elements p)"
    "\<forall>e \<in> ex_elements p. key_ready (ex_client p) k2 e \<and> e \<notin> ll.owned L" by (rule ex_ready)
  have ptr: "hash_ptr (ex_client p) = 0x8000" "less_ptr (ex_client p) = 0x8100" "aux_ptr (ex_client p) = NULL"
    by (simp_all add: int_client_def)
  have "card (ex_elements p) < 2 ^ 26" using card_length[of "[p + 32, p + 44, p + 56]"] by simp
  from int_elements.hash_init_inv[OF r(4,6) _ this r(7)] r(5) obtain k
    where "hash_init ex_statics p 0x8000 0x8100 NULL k2 = Some (Done 1, k)" "ex_hash_inv p k {} (ex_elements p)"
    unfolding ptr by (auto split: if_splits)
  then show thesis using that r(1-3) unfolding ex_made_def by blast
qed

lemma hash_counts:
  assumes "hash_inv C ms cur rs ts W h k S F"
  shows "hash_size h k = Some (of_nat (card S))" "finite S" "S \<inter> F = {}"
proof -
  obtain L U bs c n ys where st: "hash_state C ms cur rs ts W h k L U bs c n ys F" "elems n ys = S" by (rule hash_invE[OF assms])
  show "hash_size h k = Some (of_nat (card S))" using size_inv[OF assms] by blast
  show "finite S" "S \<inter> F = {}" using st(2) hash_stateD(5)[OF st(1)] by auto
qed

lemma hash_few: "hash_inv C ms cur rs ts W h k S F \<Longrightarrow> finite F \<and> card (S \<union> F) < 2 ^ 26"
  by (elim hash_invE) (auto dest: hash_stateD(6,7))

context hash_client
begin

lemma hash_run_inv:
  assumes "hash_inv C ms cur rs ts W h k {} F" "fair (key_of C) F qs Map.empty"
  shows "\<exists>k'. run (hash_find hc h) (hash_insert hc ms h) (hash_replace hc ms h) (hash_delete hc ms h) qs k =
     Some (map_run (key_of C) qs Map.empty, k')"
  using hash.run_map[OF assms(1), of Map.empty qs] assms(2) by (auto simp: map_of_set_def)

end

section \<open>Properties\<close>

text \<open>C7: \<open>hash_init\<close> returns false only when the kernel pool has no free page; otherwise the table is
  empty, and every sequence of calls of \<open>hash_find\<close>, \<open>hash_insert\<close>, \<open>hash_replace\<close> and \<open>hash_delete\<close>
  with elements of the client returns from every call and answers like a map from keys to
  elements, whatever rehashing happens in between and whether its requests for memory succeed or
  not.\<close>

theorem hash_table_is_map:
  assumes "hash_client hc C" "allocator {} ms k L cur rs ts W xs A" "outside C (in_use xs A) h F" "finite F" "card F < 2 ^ 26"
    "\<forall>e \<in> F. key_ready C k e \<and> e \<notin> ll.owned L" "fair (key_of C) F qs Map.empty"
  shows "\<exists>r k'. hash_init ms h (hash_ptr C) (less_ptr C) (aux_ptr C) k = Some (Done r, k') \<and>
     (if r = 0 then exhausted k 1
      else r = 1 \<and> (\<exists>k''. run (hash_find hc h) (hash_insert hc ms h) (hash_replace hc ms h) (hash_delete hc ms h) qs k' =
        Some (map_run (key_of C) qs Map.empty, k'')))"
  using hash_client.hash_init_inv[OF assms(1-6)] hash_client.hash_run_inv[OF assms(1) _ assms(7)] by fastforce

theorem hash_table_is_map_witness:
  "\<exists>k0 p k1 k2 k3 k4. malloc_init ex_statics ex_memory = Some k0 \<and> malloc ex_statics 100 k0 = Some (Done p, k1) \<and>
     set_words [(p + 40, 5), (p + 52, 7), (p + 64, 5)] k1 = Some k2 \<and>
     hash_init ex_statics p 0x8000 0x8100 NULL k2 = Some (Done 1, k3) \<and>
     run (hash_find int_code p) (hash_insert int_code ex_statics p) (hash_replace int_code ex_statics p) (hash_delete int_code ex_statics p)
       [Put_new (p + 32), Put_new (p + 44), Put_new (p + 56), Put_over (p + 56), Look (p + 32), Remove (p + 44), Look (p + 44)] k3 =
       Some ([NULL, NULL, p + 32, p + 32, p + 56, p + 44, NULL], k4)"
proof -
  obtain k0 p k1 k2 L xs A where r: "malloc_init ex_statics ex_memory = Some k0" "malloc ex_statics 100 k0 = Some (Done p, k1)"
    "set_words [(p + 40, 5), (p + 52, 7), (p + 64, 5)] k1 = Some k2" "ex_allocator_inv k2 L xs A" "\<not> exhausted k2 1"
    "outside (ex_client p) (in_use xs A) p (ex_elements p)"
    "\<forall>e \<in> ex_elements p. key_ready (ex_client p) k2 e \<and> e \<notin> ll.owned L" by (rule ex_ready)
  let ?qs = "[Put_new (p + 32), Put_new (p + 44), Put_new (p + 56), Put_over (p + 56), Look (p + 32), Remove (p + 44), Look (p + 44)]"
  have c: "hash_ptr (ex_client p) = 0x8000" "less_ptr (ex_client p) = 0x8100" "aux_ptr (ex_client p) = NULL"
    "key_of (ex_client p) = ex_keys p" by (simp_all add: int_client_def)
  have few: "card (ex_elements p) < 2 ^ 26" using card_length[of "[p + 32, p + 44, p + 56]"] by simp
  have run: "map_run (ex_keys p) ?qs Map.empty = [NULL, NULL, p + 32, p + 32, p + 56, p + 44, NULL]"
    by (simp add: ex_keys_def)
  have "fair (key_of (ex_client p)) (ex_elements p) ?qs Map.empty" unfolding c by (simp add: ex_keys_def)
  from hash_table_is_map[OF int_elements.hash_client_axioms r(4,6) _ few r(7) this] r(5)
  show ?thesis unfolding c run using r(1-3) by (auto split: if_splits)
qed

text \<open>C19: \<open>hash_insert\<close> enters an element whose key is not in the table and counts it; otherwise it
  returns the element with the key and changes nothing. Either way the table is well-formed
  afterwards, with every element in the bucket of its hash value, also when it has been rehashed,
  and the allocator and the scheduler keep their invariants.\<close>

theorem hash_insert_enters_once:
  assumes "hash_client hc C" "hash_inv C ms cur rs ts W h k S F" "e \<in> F"
  shows "\<exists>r k'. hash_insert hc ms h e k = Some (Done r, k') \<and>
     (if r = NULL then (\<forall>y \<in> S. key_of C y \<noteq> key_of C e) \<and> hash_inv C ms cur rs ts W h k' (insert e S) (F - {e}) \<and>
        hash_size h k' = Some (of_nat (card S + 1))
      else r \<in> S \<and> key_of C r = key_of C e \<and> hash_inv C ms cur rs ts W h k' S F \<and> hash_size h k' = Some (of_nat (card S)))"
proof -
  note N = hash_counts(2,3)[OF assms(2)]
  have new: "card (insert e S) = card S + 1" using N assms(3) by (subst card_insert_disjoint) auto
  obtain r k' where r: "hash_insert hc ms h e k = Some (Done r, k')" "match (key_of C) S e r"
    "if r = NULL then hash_inv C ms cur rs ts W h k' (insert e S) (F - {e}) else hash_inv C ms cur rs ts W h k' S F"
    using hash_client.hash_insert_inv[OF assms] by blast
  show ?thesis
  proof (cases "r = NULL")
    case True
    then have "hash_inv C ms cur rs ts W h k' (insert e S) (F - {e})" using r(3) by simp
    moreover from hash_counts(1)[OF this] have "hash_size h k' = Some (of_nat (card S + 1))" unfolding new .
    ultimately show ?thesis using r(1,2) True by (simp add: match_def)
  next
    case False
    then have "hash_inv C ms cur rs ts W h k' S F" using r(3) by simp
    with hash_counts(1)[OF this] show ?thesis using r(1,2) False by (simp add: match_def)
  qed
qed

theorem hash_insert_enters_once_witness:
  "\<exists>p k k'. ex_made p k \<and>
     hash_insert int_code ex_statics p (p + 32) k = Some (Done NULL, k') \<and> hash_size p k' = Some 1"
proof -
  obtain p k where t: "ex_made p k" "ex_hash_inv p k {} (ex_elements p)" by (rule ex_made)
  have "p + 32 \<in> ex_elements p" by simp
  from hash_insert_enters_once[OF int_elements.hash_client_axioms t(2) this] t(1) show ?thesis
    by (auto split: if_splits)
qed

lemma ex_filled:
  obtains p k where "ex_filled p k" "ex_hash_inv p k {p + 32, p + 44} {p + 56}"
proof -
  obtain p k3 where t: "ex_made p k3" "ex_hash_inv p k3 {} (ex_elements p)" by (rule ex_made)
  have "p + 32 \<in> ex_elements p" by simp
  from int_elements.hash_insert_inv[OF t(2) this] obtain k4 where
    4: "hash_insert int_code ex_statics p (p + 32) k3 = Some (Done NULL, k4)" "ex_hash_inv p k4 {p + 32} (ex_elements p - {p + 32})"
    by (auto simp: match_def split: if_splits)
  have e: "p + 44 \<in> ex_elements p - {p + 32}" "insert (p + 44) {p + 32} = {p + 32, p + 44}"
    "ex_elements p - {p + 32} - {p + 44} = {p + 56}" by auto
  have "match (key_of (ex_client p)) {p + 32} (p + 44) r \<Longrightarrow> r = NULL" for r
    by (auto simp: match_def int_client_def ex_keys_def split: if_splits)
  with int_elements.hash_insert_inv[OF 4(2) e(1)] obtain k where
    "hash_insert int_code ex_statics p (p + 44) k4 = Some (Done NULL, k)" "ex_hash_inv p k {p + 32, p + 44} {p + 56}"
    unfolding e(2,3) by auto
  then show thesis using that[of p k] t(1) 4(1) unfolding ex_filled_def by blast
qed

text \<open>C20: The iteration with \<open>hash_first\<close> and \<open>hash_next\<close> returns every element of the table exactly once,
  and then a null pointer.\<close>

theorem hash_iteration_visits_once:
  assumes "hash_inv C ms cur rs ts W h k S F"
  shows "\<exists>it es it' it''. hash_first h k = Some it \<and> next_elems (card S) it k = Some (es, it') \<and> set es = S \<and> distinct es \<and>
     hash_next it' k = Some (NULL, it'')"
  using iteration_inv[OF assms] by blast

theorem hash_iteration_visits_once_witness:
  "\<exists>p k it es it' it''. ex_filled p k \<and> hash_first p k = Some it \<and> next_elems 2 it k = Some (es, it') \<and> set es = {p + 32, p + 44} \<and>
     hash_next it' k = Some (NULL, it'')"
proof -
  obtain p k where t: "ex_filled p k" "ex_hash_inv p k {p + 32, p + 44} {p + 56}" by (rule ex_filled)
  have c: "card {p + 32, p + 44} = 2" by simp
  from hash_iteration_visits_once[OF t(2), unfolded c] t(1) show ?thesis by blast
qed

text \<open>C21: \<open>hash_apply\<close> calls the action once for every element of the table, in the order of the
  iteration with \<open>hash_first\<close> and \<open>hash_next\<close>, as long as the action does not change the table.\<close>

theorem hash_apply_follows_iteration:
  assumes "hash_inv C ms cur rs ts W h k S F" "tame h I S (aux_ptr C) act" "I k"
  shows "\<exists>it es it' k'. hash_first h k = Some it \<and> next_elems (card S) it k = Some (es, it') \<and> set es = S \<and> distinct es \<and>
     hash_apply h (Some act) k = Some k' \<and> act_on act (aux_ptr C) es k = Some k' \<and> I k'"
  by (rule hash_apply_inv[OF assms])

text \<open>Example: an action that counts.\<close>

definition ex_count :: hash_action_func where
  "ex_count e aux k = Some (k\<lparr>thread_ticks := thread_ticks k + 1\<rparr>)"

theorem hash_apply_follows_iteration_witness:
  "\<exists>p k k'. ex_filled p k \<and> hash_apply p (Some ex_count) k = Some k' \<and> thread_ticks k' = thread_ticks k + 2"
proof -
  obtain p k where t: "ex_filled p k" "ex_hash_inv p k {p + 32, p + 44} {p + 56}" by (rule ex_filled)
  have "tame p (\<lambda>k. True) {p + 32, p + 44} (aux_ptr (ex_client p)) ex_count" by (simp add: tame_def ex_count_def)
  from hash_apply_follows_iteration[OF t(2) this] obtain es k' where
    r: "set es = {p + 32, p + 44}" "distinct es" "hash_apply p (Some ex_count) k = Some k'"
      "act_on ex_count (aux_ptr (ex_client p)) es k = Some k'" by blast
  have count: "act_on ex_count a es k = Some k' \<Longrightarrow> thread_ticks k' = thread_ticks k + of_nat (length es)" for a es k k'
    by (induction es arbitrary: k) (auto simp: ex_count_def)
  have "length es = 2" using distinct_card[OF r(2)] r(1) by simp
  then show ?thesis using count[OF r(4)] r(3) t(1) by auto
qed

text \<open>\<open>hash_clear\<close> without a destructor empties the table: the client has all elements again, with
  their keys, and may enter them anew.\<close>

lemma hash_clear_empties:
  assumes "hash_client hc C" "hash_inv C ms cur rs ts W h k S F"
  shows "\<exists>k'. hash_clear h None k = Some k' \<and> hash_inv C ms cur rs ts W h k' {} (S \<union> F) \<and> hash_empty h k' = Some True"
proof -
  obtain k' where r: "hash_clear h None k = Some k'" "hash_inv C ms cur rs ts W h k' {} (S \<union> F)"
    using hash_client.hash_clear_inv[OF assms] by blast
  then show ?thesis using size_inv[OF r(2)] by simp
qed

lemma hash_clear_empties_example:
  "\<exists>p k k'. ex_filled p k \<and> hash_clear p None k = Some k' \<and> hash_empty p k' = Some True"
proof -
  obtain p k where t: "ex_filled p k" "ex_hash_inv p k {p + 32, p + 44} {p + 56}" by (rule ex_filled)
  from hash_clear_empties[OF int_elements.hash_client_axioms t(2)] t(1) show ?thesis by blast
qed



end
