(* ===== verification/Kernel_Video.thy ===== *)
theory Kernel_Video
  imports Kernel_String "HOL-Library.Signed_Division"
begin

text \<open>
  The screen: devices/video.c, the drawing routines of arm_asm/drawing.s that it calls and the
  copy routines of arm_asm/memoryCopy.s.  The frame buffer is a part of a byte-addressed memory.
  The variable \<open>graphicsAddress\<close> of drawing.s and the variable \<open>framebuffer\<close> of video.c point to
  the same structure, which is not written after its initialisation; the state has the structure
  they point to, \<open>None\<close> for a null pointer.  The bitmaps of the characters (font.bin) are a field
  that no operation writes.
\<close>

section \<open>State\<close>

definition SCREEN_RESOLUTION_WIDTH :: u32 where "SCREEN_RESOLUTION_WIDTH = 800"
definition SCREEN_RESOLUTION_HEIGHT :: u32 where "SCREEN_RESOLUTION_HEIGHT = 480"
definition SCREEN_PIXEL_SIZE :: u32 where "SCREEN_PIXEL_SIZE = 16"
definition SCREEN_FONT_HEIGHT :: u32 where "SCREEN_FONT_HEIGHT = 16"
definition SCREEN_FONT_WIDTH :: u32 where "SCREEN_FONT_WIDTH = 8"

record screen_info =
  s_height :: u32
  s_width :: u32
  pixel_size :: u32
  font_width :: u32
  font_height :: u32
  x_position :: u32
  y_position :: u32

record framebuffer_info =
  fb_width :: u32
  fb_height :: u32
  gpu_pointer :: addr

record video =
  screen :: screen_info
  framebuffer :: "framebuffer_info option"
  graphicsAddress :: "framebuffer_info option"
  foreColour :: "16 word"
  vmem :: memory
  font :: "nat \<Rightarrow> u8"

text \<open>A write to memory by the drawing and copy routines.\<close>

definition on_vmem :: "(memory \<Rightarrow> memory option) \<Rightarrow> video \<Rightarrow> video option" where
  "on_vmem f v = map_option (\<lambda>m. v\<lparr>vmem := m\<rparr>) (f (vmem v))"

text \<open>\<open>for (i = from; i < to; i++) body\<close> on variables of type \<open>int\<close>.\<close>

function for_loop :: "u32 \<Rightarrow> u32 \<Rightarrow> (u32 \<Rightarrow> 's \<Rightarrow> 's option) \<Rightarrow> 's \<Rightarrow> 's option" where
  "for_loop i to body s =
     (if sint i < sint to then
        (case body i s of None \<Rightarrow> None | Some s \<Rightarrow> for_loop (i + 1) to body s)
      else Some s)"
  by pat_completeness auto
termination
proof (relation "measure (\<lambda>(i, to, body, s). nat (sint to - sint i))", goal_cases)
  case (2 i to body s s')
  have "sint to \<le> 2 ^ 31 - 1" using sint_lt [of to] by simp
  then have "sint (i + 1) = sint i + 1"
    using 2 sint_ge [of i] by (simp add: sint_word_ariths signed_take_bit_int_eq_self)
  then show ?case using 2 by simp
qed simp

declare for_loop.simps [simp del]

section \<open>Drawing (arm_asm/drawing.s)\<close>

definition SetForeColour :: "u32 \<Rightarrow> video \<Rightarrow> video" where
  "SetForeColour colour v = (if colour \<ge> 0x10000 then v else v\<lparr>foreColour := ucast colour\<rparr>)"

definition GetForeColour :: "video \<Rightarrow> u32" where
  "GetForeColour v = ucast (foreColour v)"

definition SetGraphicsAddress :: "framebuffer_info option \<Rightarrow> video \<Rightarrow> video" where
  "SetGraphicsAddress fb v = v\<lparr>graphicsAddress := fb\<rparr>"

definition GetGraphicsAddress :: "video \<Rightarrow> framebuffer_info option" where
  "GetGraphicsAddress v = graphicsAddress v"

text \<open>\<open>strh\<close>: a half word, its low byte first.\<close>

definition strh :: "16 word \<Rightarrow> addr \<Rightarrow> memory \<Rightarrow> memory option" where
  "strh h a m = do { m \<leftarrow> wr a (ucast h) m; wr (a + 1) (ucast (drop_bit 8 h)) m }"

definition DrawPixel :: "u32 \<Rightarrow> u32 \<Rightarrow> video \<Rightarrow> video option" where
  "DrawPixel px py v = do {
     fb \<leftarrow> graphicsAddress v;
     if py > fb_height fb - 1 then Some v
     else if px > fb_width fb - 1 then Some v
     else on_vmem (strh (foreColour v) (gpu_pointer fb + push_bit 1 (py * fb_width fb + px))) v }"

text \<open>
  One line of a character: the bits of the line are shifted out from the highest; the first one is
  drawn at the right.  The first argument is the value of \<open>bit\<close> before it is decremented.
\<close>

fun draw_bits :: "nat \<Rightarrow> u32 \<Rightarrow> u32 \<Rightarrow> u32 \<Rightarrow> video \<Rightarrow> video option" where
  "draw_bits 0 bits x y v = Some v"
| "draw_bits (Suc b) bits x y v = (
     let bits = push_bit 1 bits in
     if bits AND 0x100 = 0 then draw_bits b bits x y v
     else do { v \<leftarrow> DrawPixel (x + of_nat b) y v; draw_bits b bits x y v })"

text \<open>The lines of a character, from line \<open>l\<close>; the loop ends at the next multiple of 16.\<close>

function draw_lines :: "nat \<Rightarrow> nat \<Rightarrow> u32 \<Rightarrow> u32 \<Rightarrow> video \<Rightarrow> video option" where
  "draw_lines c l x y v =
     (case draw_bits 8 (ucast (font v (16 * c + l))) x y v of
        None \<Rightarrow> None
      | Some v \<Rightarrow> if (l + 1) mod 16 = 0 then Some v else draw_lines c (l + 1) x (y + 1) v)"
  by pat_completeness auto
termination
proof (relation "measure (\<lambda>(c, l, x, y, v). 15 - l mod 16)", goal_cases)
  case (2 c l x y v v')
  then have "Suc (l mod 16) \<noteq> 16" by (simp add: mod_Suc split: if_splits)
  moreover have "l mod 16 < 16" by simp
  ultimately show ?case by (simp add: mod_Suc)
qed simp

declare draw_lines.simps [simp del]

definition DrawCharacter :: "u8 \<Rightarrow> u32 \<Rightarrow> u32 \<Rightarrow> video \<Rightarrow> video option" where
  "DrawCharacter character x y v =
     (if character > 0x7F then Some v else draw_lines (unat character) 0 x y v)"

section \<open>Copying memory (arm_asm/memoryCopy.s)\<close>

text \<open>\<open>ldmia\<close> and \<open>stmia\<close> of \<open>n\<close> bytes in whole words, and the byte transfers.\<close>

fun load_bytes :: "nat \<Rightarrow> addr \<Rightarrow> memory \<Rightarrow> u8 list option" where
  "load_bytes 0 a m = Some []"
| "load_bytes (Suc n) a m = do { x \<leftarrow> rd m a; xs \<leftarrow> load_bytes n (a + 1) m; Some (x # xs) }"

fun store_bytes :: "addr \<Rightarrow> u8 list \<Rightarrow> memory \<Rightarrow> memory option" where
  "store_bytes a [] m = Some m"
| "store_bytes a (x # xs) m = do { m \<leftarrow> wr a x m; store_bytes (a + 1) xs m }"

definition aligned :: "addr \<Rightarrow> bool" where
  "aligned a \<longleftrightarrow> a AND 3 = 0"

definition copy_words :: "nat \<Rightarrow> addr \<Rightarrow> addr \<Rightarrow> memory \<Rightarrow> memory option" where
  "copy_words n src dest m = do {
     ASSERT (aligned src); ASSERT (aligned dest);
     xs \<leftarrow> load_bytes (4 * n) src m;
     store_bytes dest xs m }"

definition copy_byte :: "addr \<Rightarrow> addr \<Rightarrow> memory \<Rightarrow> memory option" where
  "copy_byte src dest m = do { x \<leftarrow> rd m src; wr dest x m }"

function copy_10_words_loop :: "addr \<Rightarrow> addr \<Rightarrow> u32 \<Rightarrow> memory \<Rightarrow> (addr \<times> addr \<times> u32 \<times> memory) option" where
  "copy_10_words_loop src dest sz m =
     (if sz \<le> 40 then Some (src, dest, sz, m)
      else (case copy_words 10 src dest m of None \<Rightarrow> None
            | Some m \<Rightarrow> copy_10_words_loop (src + 40) (dest + 40) (sz - 40) m))"
  by pat_completeness auto
termination by (relation "measure (\<lambda>(s, d, n, m). unat n)") (auto simp: word_le_nat_alt unat_sub)

function copy_1_word_loop :: "addr \<Rightarrow> addr \<Rightarrow> u32 \<Rightarrow> memory \<Rightarrow> (addr \<times> addr \<times> u32 \<times> memory) option" where
  "copy_1_word_loop src dest sz m =
     (if sz \<le> 4 then Some (src, dest, sz, m)
      else (case copy_words 1 src dest m of None \<Rightarrow> None
            | Some m \<Rightarrow> copy_1_word_loop (src + 4) (dest + 4) (sz - 4) m))"
  by pat_completeness auto
termination by (relation "measure (\<lambda>(s, d, n, m). unat n)") (auto simp: word_le_nat_alt unat_sub)

function copy_1_byte_loop :: "addr \<Rightarrow> addr \<Rightarrow> u32 \<Rightarrow> memory \<Rightarrow> (addr \<times> addr \<times> u32 \<times> memory) option" where
  "copy_1_byte_loop src dest sz m =
     (if sz \<le> 1 then Some (src, dest, sz, m)
      else (case copy_byte src dest m of None \<Rightarrow> None
            | Some m \<Rightarrow> copy_1_byte_loop (src + 1) (dest + 1) (sz - 1) m))"
  by pat_completeness auto
termination by (relation "measure (\<lambda>(s, d, n, m). unat n)") (auto simp: word_le_nat_alt unat_sub)

declare copy_10_words_loop.simps [simp del] copy_1_word_loop.simps [simp del] copy_1_byte_loop.simps [simp del]

definition memory_fastest_copy :: "addr \<Rightarrow> addr \<Rightarrow> u32 \<Rightarrow> memory \<Rightarrow> memory option" where
  "memory_fastest_copy src dest sz m = do {
     (src, dest, sz, m) \<leftarrow> copy_10_words_loop src dest sz m;
     (src, dest, sz, m) \<leftarrow> copy_1_word_loop src dest sz m;
     (src, dest, sz, m) \<leftarrow> copy_1_byte_loop src dest sz m;
     Some m }"

text \<open>The length is decremented before it is tested.\<close>

function memory_fast_copy :: "addr \<Rightarrow> addr \<Rightarrow> u32 \<Rightarrow> memory \<Rightarrow> (u32 \<times> memory) option" where
  "memory_fast_copy src dest len m =
     (if len \<le> 40 then Some (len - 40, m)
      else (case copy_words 10 src dest m of None \<Rightarrow> None
            | Some m \<Rightarrow> memory_fast_copy (src + 40) (dest + 40) (len - 40) m))"
  by pat_completeness auto
termination by (relation "measure (\<lambda>(s, d, n, m). unat n)") (auto simp: word_le_nat_alt unat_sub)

declare memory_fast_copy.simps [simp del]

section \<open>The screen (devices/video.c)\<close>

definition BYTE :: u32 where "BYTE = 8"

definition VIDEO_MEMORY_COPY_METHOD :: nat where "VIDEO_MEMORY_COPY_METHOD = 0"

definition set_position :: "u32 \<Rightarrow> u32 \<Rightarrow> video \<Rightarrow> video" where
  "set_position x y v = v\<lparr>screen := (screen v)\<lparr>x_position := x, y_position := y\<rparr>\<rparr>"

definition video_init :: "video \<Rightarrow> video" where
  "video_init v = v\<lparr>screen := \<lparr>s_height = SCREEN_RESOLUTION_HEIGHT, s_width = SCREEN_RESOLUTION_WIDTH,
       pixel_size = SCREEN_PIXEL_SIZE, font_width = SCREEN_FONT_WIDTH, font_height = SCREEN_FONT_HEIGHT,
       x_position = 0, y_position = 0\<rparr>,
     framebuffer := GetGraphicsAddress v\<rparr>"

definition video_clean :: "video \<Rightarrow> video option" where
  "video_clean v = do {
     let v = SetForeColour 0 v;
     v \<leftarrow> for_loop 0 (s_height (screen v)) (\<lambda>row. for_loop 0 (s_width (screen v)) (\<lambda>col. DrawPixel col row)) v;
     Some (set_position 0 0 v) }"

definition video_clean_row :: "u32 \<Rightarrow> video \<Rightarrow> video option" where
  "video_clean_row y v = do {
     let colour = GetForeColour v;
     let v = SetForeColour 0 v;
     v \<leftarrow> for_loop 0 (font_height (screen v))
       (\<lambda>row. for_loop 0 (s_width (screen v)) (\<lambda>col. DrawPixel col (y + row))) v;
     Some (SetForeColour colour v) }"

definition video_clean_character :: "u32 \<Rightarrow> u32 \<Rightarrow> video \<Rightarrow> video option" where
  "video_clean_character x y v = do {
     let colour = GetForeColour v;
     let v = SetForeColour 0 v;
     v \<leftarrow> for_loop 0 (font_height (screen v))
       (\<lambda>row. for_loop 0 (font_width (screen v)) (\<lambda>col. DrawPixel (x + col) (y + row))) v;
     Some (SetForeColour colour v) }"

definition bytes_per_pixel :: "screen_info \<Rightarrow> u32" where
  "bytes_per_pixel s = word_of_int (sint (pixel_size s) sdiv sint BYTE)"

text \<open>The loop \<open>while (n-- > 0) *dest++ = *src++\<close> over bytes, and over words.\<close>

function move_bytes :: "u32 \<Rightarrow> addr \<Rightarrow> addr \<Rightarrow> memory \<Rightarrow> memory option" where
  "move_bytes n src dest m =
     (if sint n > 0 then
        (case copy_byte src dest m of None \<Rightarrow> None | Some m \<Rightarrow> move_bytes (n - 1) (src + 1) (dest + 1) m)
      else Some m)"
  by pat_completeness auto
termination
proof (relation "measure (\<lambda>(n, s, d, m). unat n)", goal_cases)
  case (2 n src dest m m')
  then have "n \<noteq> 0" by auto
  then show ?case by (simp add: word_loop)
qed simp

function move_words :: "u32 \<Rightarrow> addr \<Rightarrow> addr \<Rightarrow> memory \<Rightarrow> memory option" where
  "move_words n src dest m =
     (if sint n > 0 then
        (case copy_words 1 src dest m of None \<Rightarrow> None | Some m \<Rightarrow> move_words (n - 1) (src + 4) (dest + 4) m)
      else Some m)"
  by pat_completeness auto
termination
proof (relation "measure (\<lambda>(n, s, d, m). unat n)", goal_cases)
  case (2 n src dest m m')
  then have "n \<noteq> 0" by auto
  then show ?case by (simp add: word_loop)
qed simp

declare move_bytes.simps [simp del] move_words.simps [simp del]

text \<open>
  The four functions for a new line differ in how they move the screen up.  \<open>copy\<close> gets the
  source, the destination and the number of bytes.
\<close>

definition new_line_with :: "(addr \<Rightarrow> addr \<Rightarrow> u32 \<Rightarrow> memory \<Rightarrow> memory option) \<Rightarrow> video \<Rightarrow> video option" where
  "new_line_with copy v = do {
     let s = screen v;
     let new_y = y_position s + font_height s;
     (new_y, v) \<leftarrow>
       (if sint (new_y + font_height s) > sint (s_height s) then do {
          fb \<leftarrow> framebuffer v;
          let dest = gpu_pointer fb;
          let row_size = s_width s * bytes_per_pixel s * font_height s;
          let src = dest + row_size;
          let end_buffer = dest + s_width s * bytes_per_pixel s * s_height s;
          let total = end_buffer - src;
          v \<leftarrow> on_vmem (copy src dest total) v;
          let new_y = y_position s;
          v \<leftarrow> video_clean_row new_y v;
          Some (new_y, v) }
        else Some (new_y, v));
     Some (set_position 0 new_y v) }"

definition video_new_line_fastest :: "video \<Rightarrow> video option" where
  "video_new_line_fastest = new_line_with memory_fastest_copy"

definition video_new_line_faster :: "video \<Rightarrow> video option" where
  "video_new_line_faster = new_line_with (\<lambda>src dest total m. do {
     (remaining, m) \<leftarrow> memory_fast_copy src dest total m;
     let src = src + (total - remaining);
     let dest = dest + (total - remaining);
     move_bytes remaining src dest m })"

definition video_new_line_slower :: "video \<Rightarrow> video option" where
  "video_new_line_slower = new_line_with (\<lambda>src dest total m.
     move_words (word_of_int (sint total sdiv 4)) src dest m)"

definition video_new_line_slowest :: "video \<Rightarrow> video option" where
  "video_new_line_slowest = new_line_with (\<lambda>src dest total m. move_bytes total src dest m)"

definition video_new_line :: "video \<Rightarrow> video option" where
  "video_new_line v =
     (if VIDEO_MEMORY_COPY_METHOD = 0 then video_new_line_fastest v
      else if VIDEO_MEMORY_COPY_METHOD = 1 then video_new_line_faster v
      else if VIDEO_MEMORY_COPY_METHOD = 2 then video_new_line_slower v
      else if VIDEO_MEMORY_COPY_METHOD = 3 then video_new_line_slowest v
      else video_new_line_fastest v)"

definition video_calculate_new_position :: "video \<Rightarrow> video option" where
  "video_calculate_new_position v = (
     let new_x = x_position (screen v) + font_width (screen v);
         new_y = y_position (screen v)
     in if sint (new_x + font_width (screen v)) > sint (s_width (screen v)) then video_new_line v
        else Some (set_position new_x new_y v))"

text \<open>\<open>video_putc\<close> between disabling the interrupts and restoring their level.\<close>

definition put_character :: "u8 \<Rightarrow> video \<Rightarrow> video option" where
  "put_character character v =
     (if character = 10 then video_new_line v
      else do {
        v \<leftarrow> video_clean_character (x_position (screen v)) (y_position (screen v)) v;
        v \<leftarrow> DrawCharacter character (x_position (screen v)) (y_position (screen v)) v;
        video_calculate_new_position v })"

end
