(* ===== verification/Kernel_Console.thy ===== *)
theory Kernel_Console
  imports Kernel_Synch Kernel_Stdio Kernel_Video
begin

text \<open>
  The console: lib/kernel/console.c over the kernel, the screen and the lock of the console.
  \<open>serial_putc\<close> of devices/serial.c does nothing.  Strings and buffers are in a byte-addressed
  memory \<open>m\<close>, which the console only reads; \<open>lit\<close> gives the addresses of the string literals of
  lib/stdio.c.
\<close>

section \<open>State\<close>

record console =
  kern :: kernel
  scr :: video
  console_lock :: addr
  use_console_lock :: bool
  console_lock_depth :: u32
  write_cnt :: u64

text \<open>
  A function of the console that has to wait for the lock leaves the pending code \<open>fs\<close> of
  \<open>lock_acquire\<close> and its own rest.
\<close>

datatype console_cont =
    Vprintf_rest "string \<Rightarrow> addr" addr "vararg list" memory
  | Puts_rest addr memory
  | Putbuf_rest addr size_t memory
  | Putchar_rest u32

datatype console_result = Returned u32 | Waiting "cont list" console_cont

definition console_init :: "console \<Rightarrow> console option" where
  "console_init s = do {
     k \<leftarrow> lock_init (console_lock s) (kern s);
     Some (s\<lparr>kern := k, use_console_lock := True\<rparr>) }"

definition console_panic :: "console \<Rightarrow> console" where
  "console_panic s = s\<lparr>use_console_lock := False\<rparr>"

section \<open>The lock\<close>

definition acquire_console :: "console \<Rightarrow> (outcome \<times> console) option" where
  "acquire_console s =
     (if \<not> interrupts_context (kern s) \<and> use_console_lock s then do {
        held \<leftarrow> lock_held_by_current_thread (console_lock s) (kern s);
        if held then Some (Done 0, s\<lparr>console_lock_depth := console_lock_depth s + 1\<rparr>)
        else do {
          (r, k) \<leftarrow> lock_acquire (console_lock s) (kern s);
          Some (r, s\<lparr>kern := k\<rparr>) } }
      else Some (Done 0, s))"

definition release_console :: "console \<Rightarrow> console option" where
  "release_console s =
     (if \<not> interrupts_context (kern s) \<and> use_console_lock s then
        (if sint (console_lock_depth s) > 0 then Some (s\<lparr>console_lock_depth := console_lock_depth s - 1\<rparr>)
         else do {
           k \<leftarrow> lock_release (console_lock s) (kern s);
           Some (s\<lparr>kern := k\<rparr>) })
      else Some s)"

definition console_locked_by_current_thread :: "console \<Rightarrow> bool option" where
  "console_locked_by_current_thread s =
     (if interrupts_context (kern s) \<or> \<not> use_console_lock s then Some True
      else lock_held_by_current_thread (console_lock s) (kern s))"

section \<open>Output of a character\<close>

definition serial_putc :: "u8 \<Rightarrow> console \<Rightarrow> console" where
  "serial_putc c s = s"

definition video_putc :: "u8 \<Rightarrow> console \<Rightarrow> console option" where
  "video_putc character s = do {
     let (old_level, k) = interrupts_disable (kern s);
     v \<leftarrow> put_character character (scr s);
     Some (s\<lparr>kern := snd (interrupts_set_level old_level k), scr := v\<rparr>) }"

definition putchar_have_lock :: "u8 \<Rightarrow> console \<Rightarrow> console option" where
  "putchar_have_lock c s = do {
     l \<leftarrow> console_locked_by_current_thread s; ASSERT l;
     let s = s\<lparr>write_cnt := write_cnt s + 1\<rparr>;
     video_putc c (serial_putc c s) }"

definition vprintf_helper :: "(u32 \<times> console) output_fun" where
  "vprintf_helper c aux m = (case aux of (char_cnt, s) \<Rightarrow> do {
     s \<leftarrow> putchar_have_lock c s;
     Some ((char_cnt + 1, s), m) })"

section \<open>Output functions\<close>

text \<open>The parts of the output functions after \<open>acquire_console\<close>.\<close>

definition vprintf_rest :: "(string \<Rightarrow> addr) \<Rightarrow> addr \<Rightarrow> vararg list \<Rightarrow> memory \<Rightarrow> console \<Rightarrow> (console_result \<times> console) option" where
  "vprintf_rest lit format args m s = do {
     ((char_cnt, s), _) \<leftarrow> vprintf_core \<lparr>literal = lit, emit = vprintf_helper\<rparr> format args (0, s) m;
     s \<leftarrow> release_console s;
     Some (Returned char_cnt, s) }"

partial_function (option) puts_loop :: "addr \<Rightarrow> memory \<Rightarrow> console \<Rightarrow> console option" where
  "puts_loop a m s = do {
     c \<leftarrow> rd m a;
     if c \<noteq> 0 then do { s \<leftarrow> putchar_have_lock c s; puts_loop (a + 1) m s } else Some s }"

definition puts_rest :: "addr \<Rightarrow> memory \<Rightarrow> console \<Rightarrow> (console_result \<times> console) option" where
  "puts_rest a m s = do {
     s \<leftarrow> puts_loop a m s;
     s \<leftarrow> putchar_have_lock 10 s;
     s \<leftarrow> release_console s;
     Some (Returned 0, s) }"

function putbuf_loop :: "addr \<Rightarrow> size_t \<Rightarrow> memory \<Rightarrow> console \<Rightarrow> console option" where
  "putbuf_loop buffer n m s =
     (if n > 0 then
        (case rd m buffer of None \<Rightarrow> None
         | Some c \<Rightarrow> (case putchar_have_lock c s of None \<Rightarrow> None
            | Some s \<Rightarrow> putbuf_loop (buffer + 1) (n - 1) m s))
      else Some s)"
  by pat_completeness auto
termination by (relation "measure (\<lambda>(b, n, m, s). unat n)") (auto simp: word_loop word_gt_0)

definition putbuf_rest :: "addr \<Rightarrow> size_t \<Rightarrow> memory \<Rightarrow> console \<Rightarrow> (console_result \<times> console) option" where
  "putbuf_rest buffer n m s = do {
     s \<leftarrow> putbuf_loop buffer n m s;
     s \<leftarrow> release_console s;
     Some (Returned 0, s) }"

definition putchar_rest :: "u32 \<Rightarrow> console \<Rightarrow> (console_result \<times> console) option" where
  "putchar_rest c s = do {
     s \<leftarrow> putchar_have_lock (ucast c) s;
     s \<leftarrow> release_console s;
     Some (Returned c, s) }"

fun console_rest :: "console_cont \<Rightarrow> console \<Rightarrow> (console_result \<times> console) option" where
  "console_rest (Vprintf_rest lit format args m) = vprintf_rest lit format args m"
| "console_rest (Puts_rest a m) = puts_rest a m"
| "console_rest (Putbuf_rest buffer n m) = putbuf_rest buffer n m"
| "console_rest (Putchar_rest c) = putchar_rest c"

text \<open>\<open>acquire_console\<close> and the rest.\<close>

definition with_console :: "console_cont \<Rightarrow> console \<Rightarrow> (console_result \<times> console) option" where
  "with_console c s = do {
     (r, s) \<leftarrow> acquire_console s;
     case r of Done _ \<Rightarrow> console_rest c s | Switched fs \<Rightarrow> Some (Waiting fs c, s) }"

definition vprintf :: "(string \<Rightarrow> addr) \<Rightarrow> addr \<Rightarrow> vararg list \<Rightarrow> memory \<Rightarrow> console \<Rightarrow> (console_result \<times> console) option" where
  "vprintf lit format args m = with_console (Vprintf_rest lit format args m)"

definition puts :: "addr \<Rightarrow> memory \<Rightarrow> console \<Rightarrow> (console_result \<times> console) option" where
  "puts a m = with_console (Puts_rest a m)"

definition putbuf :: "addr \<Rightarrow> size_t \<Rightarrow> memory \<Rightarrow> console \<Rightarrow> (console_result \<times> console) option" where
  "putbuf buffer n m = with_console (Putbuf_rest buffer n m)"

definition putchar :: "u32 \<Rightarrow> console \<Rightarrow> (console_result \<times> console) option" where
  "putchar c = with_console (Putchar_rest c)"

definition console_print_stats :: "(string \<Rightarrow> addr) \<Rightarrow> memory \<Rightarrow> console \<Rightarrow> (console_result \<times> console) option" where
  "console_print_stats lit m s =
     vprintf lit (lit (''Console: %lld characters output'' @ [CHR 0x0A])) [Arg64 (write_cnt s)] m s"

declare puts_loop.simps [code] putbuf_loop.simps [simp del]

end
