(* ===== verification/Kernel_Video_Rep.thy ===== *)
theory Kernel_Video_Rep
  imports Kernel_Video Kernel_String_Rep
begin

text \<open>
  The lemmas about the screen.  The copy routines are instances of one loop over blocks (locale
  \<open>block_copy\<close>); the frame buffer is related to a map of pixels.
\<close>

section \<open>Copying in blocks\<close>

lemma load_bytes_eq: "bytes_at m a xs \<Longrightarrow> load_bytes (length xs) a m = Some xs"
  by (induction xs arbitrary: a) (simp_all add: rd_def)

lemma store_bytes_eq: "bytes_at m a ys \<Longrightarrow> length ys = length xs \<Longrightarrow> store_bytes a xs m = Some (put m a xs)"
proof (induction xs arbitrary: a m ys)
  case (Cons x xs)
  then obtain y ys' where ys: "ys = y # ys'" by (cases ys) auto
  note b = block_Cons[OF Cons.prems(1)[unfolded ys]]
  have "store_bytes (a + 1) xs (m(a \<mapsto> x)) = Some (put (m(a \<mapsto> x)) (a + 1) xs)"
    by (rule Cons.IH[OF b(4)]) (use Cons.prems(2) ys in simp)
  moreover have "wr a x m = Some (m(a \<mapsto> x))" using b(1,2) by (simp add: wr_def)
  ultimately show ?case by simp
qed simp

text \<open>Where the copy stands after \<open>n\<close> of the bytes.\<close>

lemma copied_part:
  assumes "bytes_at m src xs" "bytes_at m dst ys" "length ys = length xs" "unat dst \<le> unat src" "n \<le> length xs"
  shows "bytes_at (put m dst (take n xs)) (src + of_nat n) (drop n xs)"
    "bytes_at (put m dst (take n xs)) (dst + of_nat n) (drop n ys)"
    "n < length xs \<Longrightarrow> unat (dst + of_nat n) \<le> unat (src + of_nat n)"
    "put (put m dst (take n xs)) (dst + of_nat n) (take k (drop n xs)) = put m dst (take (n + k) xs)"
proof -
  have src: "bytes_at m (src + of_nat n) (drop n xs)" and dst: "bytes_at m (dst + of_nat n) (drop n ys)"
    using assms(1,2,3,5) bytes_at_append[of m src "take n xs" "drop n xs"] bytes_at_append[of m dst "take n ys" "drop n ys"] by simp_all
  have far: "span a k \<inter> span dst n = {}" if "unat a + k \<le> 2 ^ 32" "unat dst + n \<le> unat a" for a k
    using that in_span_iff[of a k] in_span_iff[of dst n] by (auto simp: set_eq_iff)
  have "bytes_at (put m dst (take n xs)) a zs" if "bytes_at m a zs" "unat dst + n \<le> unat a" for a zs
  proof (cases "zs = []")
    case False
    then have "span a (length zs) \<inter> span dst n = {}" using bytes_at_bound[OF that(1)] far that(2) by simp
    then show ?thesis using that(1) bytes_at_put_other[of a zs dst "take n xs"] assms(5) by simp
  qed simp
  moreover have u: "unat (src + of_nat n) = unat src + n" "unat (dst + of_nat n) = unat dst + n" if "n < length xs"
  proof -
    have "xs \<noteq> []" "ys \<noteq> []" using that assms(3) by auto
    then have "unat src + n < 2 ^ 32" "unat dst + n < 2 ^ 32"
      using bytes_at_bound[OF assms(1)] bytes_at_bound[OF assms(2)] that assms(3) by auto
    then show "unat (src + of_nat n) = unat src + n" "unat (dst + of_nat n) = unat dst + n"
      by (simp_all add: unat_add_of_nat)
  qed
  ultimately show "bytes_at (put m dst (take n xs)) (src + of_nat n) (drop n xs)"
    "bytes_at (put m dst (take n xs)) (dst + of_nat n) (drop n ys)"
    using src dst assms(3-5) by (cases "n < length xs"; simp)+
  show "unat (dst + of_nat n) \<le> unat (src + of_nat n)" if "n < length xs" using u[OF that] assms(4) by simp
  show "put (put m dst (take n xs)) (dst + of_nat n) (take k (drop n xs)) = put m dst (take (n + k) xs)"
    using put_append[of m dst "take n xs" "take k (drop n xs)"] assms(5) by (simp add: take_add)
qed

text \<open>A loop \<open>while (size > n) copy a block of n bytes\<close>, over blocks at addresses that are \<open>ok\<close>.\<close>

locale block_copy =
  fixes n :: nat
    and ok :: "addr \<Rightarrow> bool"
    and copy :: "addr \<Rightarrow> addr \<Rightarrow> memory \<Rightarrow> memory option"
    and loop :: "addr \<Rightarrow> addr \<Rightarrow> u32 \<Rightarrow> memory \<Rightarrow> (addr \<times> addr \<times> u32 \<times> memory) option"
  assumes size: "0 < n" "n < 2 ^ 32"
    and copy: "bytes_at m src xs \<Longrightarrow> bytes_at m dst ys \<Longrightarrow> length xs = n \<Longrightarrow> length ys = n \<Longrightarrow> ok src \<Longrightarrow> ok dst \<Longrightarrow>
        copy src dst m = Some (put m dst xs)"
    and ok: "ok a \<Longrightarrow> ok (a + of_nat n)"
    and loop: "loop src dst sz m =
        (if sz \<le> of_nat n then Some (src, dst, sz, m)
         else (case copy src dst m of None \<Rightarrow> None
               | Some m \<Rightarrow> loop (src + of_nat n) (dst + of_nat n) (sz - of_nat n) m))"
begin

lemma loop_copies:
  assumes "bytes_at m src xs" "bytes_at m dst ys" "length xs = unat sz" "length ys = unat sz"
    "unat dst \<le> unat src" "ok src" "ok dst"
  shows "\<exists>k. k \<le> unat sz \<and> unat sz - k \<le> n \<and> (0 < unat sz \<longrightarrow> k < unat sz) \<and> n dvd k \<and>
     loop src dst sz m = Some (src + of_nat k, dst + of_nat k, sz - of_nat k, put m dst (take k xs))"
  using assms
proof (induction "unat sz" arbitrary: sz src dst m xs ys rule: less_induct)
  case less
  have u: "unat (of_nat n :: u32) = n" using size(2) by (simp add: unat_of_nat)
  show ?case
  proof (cases "unat sz \<le> n")
    case True
    then have "loop src dst sz m = Some (src, dst, sz, m)" using u by (subst loop) (simp add: word_le_nat_alt)
    then show ?thesis using True by (intro exI[of _ 0]) simp
  next
    case False
    let ?m = "put m dst (take n xs)" and ?sz = "sz - of_nat n"
    have sz: "unat ?sz = unat sz - n" using False u by (simp add: unat_sub word_le_nat_alt)
    have nl: "n \<le> length xs" "n < length xs" using False less.prems(3) by simp_all
    note cp = copied_part[OF less.prems(1,2) _ less.prems(5) nl(1)]
    have split: "bytes_at m src (take n xs)" "bytes_at m dst (take n ys)"
      using less.prems(1,2) bytes_at_append[of m src "take n xs" "drop n xs"] bytes_at_append[of m dst "take n ys" "drop n ys"]
      by simp_all
    have step: "copy src dst m = Some ?m"
      by (rule copy[OF split]) (use nl less.prems(3,4,6,7) in simp_all)
    have "unat ?sz < unat sz" using sz size(1) False by linarith
    moreover have "bytes_at ?m (src + of_nat n) (drop n xs)" "bytes_at ?m (dst + of_nat n) (drop n ys)"
      "unat (dst + of_nat n) \<le> unat (src + of_nat n)"
      using cp(1-3) less.prems(3,4) nl by simp_all
    moreover have "length (drop n xs) = unat ?sz" "length (drop n ys) = unat ?sz" using sz less.prems(3,4) by simp_all
    moreover have "ok (src + of_nat n)" "ok (dst + of_nat n)" using ok less.prems(6,7) by blast+
    ultimately have "\<exists>k. k \<le> unat ?sz \<and> unat ?sz - k \<le> n \<and> (0 < unat ?sz \<longrightarrow> k < unat ?sz) \<and> n dvd k \<and>
       loop (src + of_nat n) (dst + of_nat n) ?sz ?m =
         Some (src + of_nat n + of_nat k, dst + of_nat n + of_nat k, ?sz - of_nat k,
           put ?m (dst + of_nat n) (take k (drop n xs)))"
      using less.hyps[of ?sz ?m "src + of_nat n" "drop n xs" "dst + of_nat n" "drop n ys"] by simp
    then obtain k where k: "k \<le> unat ?sz" "unat ?sz - k \<le> n" "0 < unat ?sz \<longrightarrow> k < unat ?sz" "n dvd k"
       "loop (src + of_nat n) (dst + of_nat n) ?sz ?m =
         Some (src + of_nat n + of_nat k, dst + of_nat n + of_nat k, ?sz - of_nat k,
           put ?m (dst + of_nat n) (take k (drop n xs)))" by (elim exE conjE) (rule that)
    have "loop src dst sz m = Some (src + of_nat (n + k), dst + of_nat (n + k), sz - of_nat (n + k), put m dst (take (n + k) xs))"
    proof -
      have "loop src dst sz m = loop (src + of_nat n) (dst + of_nat n) ?sz ?m"
        using False u step by (subst loop) (simp add: word_le_nat_alt)
      moreover have "put ?m (dst + of_nat n) (take k (drop n xs)) = put m dst (take (n + k) xs)"
        by (rule cp(4)) (use less.prems(3,4) in simp)
      ultimately show ?thesis using k(5) by (simp add: add.assoc diff_diff_eq)
    qed
    moreover have "n + k \<le> unat sz" "unat sz - (n + k) \<le> n" "0 < unat sz \<longrightarrow> n + k < unat sz" "n dvd n + k"
      using k(1-4) sz False by (simp_all add: le_diff_conv2 less_diff_conv add.commute)
    ultimately show ?thesis by (intro exI[of _ "n + k"] conjI)
  qed
qed

text \<open>The same from the state after \<open>j\<close> bytes, so that loops can be composed.\<close>

lemma loop_from:
  assumes "bytes_at m src xs" "bytes_at m dst ys" "length ys = length xs" "unat dst \<le> unat src"
    and j: "j \<le> length xs" "length xs < 2 ^ 32" "ok (src + of_nat j)" "ok (dst + of_nat j)"
  obtains i where "j \<le> i" "i \<le> length xs" "length xs - i \<le> n" "j < length xs \<Longrightarrow> i < length xs" "n dvd i - j"
    "loop (src + of_nat j) (dst + of_nat j) (of_nat (length xs - j)) (put m dst (take j xs)) =
       Some (src + of_nat i, dst + of_nat i, of_nat (length xs - i), put m dst (take i xs))"
proof -
  let ?m = "put m dst (take j xs)" and ?sz = "of_nat (length xs - j) :: u32"
  have sz: "unat ?sz = length xs - j" using j(2) by (simp add: unat_of_nat)
  note cp = copied_part[OF assms(1-4) j(1)]
  show thesis
  proof (cases "j < length xs")
    case True
    have "\<exists>k. k \<le> unat ?sz \<and> unat ?sz - k \<le> n \<and> (0 < unat ?sz \<longrightarrow> k < unat ?sz) \<and> n dvd k \<and>
       loop (src + of_nat j) (dst + of_nat j) ?sz ?m =
         Some (src + of_nat j + of_nat k, dst + of_nat j + of_nat k, ?sz - of_nat k, put ?m (dst + of_nat j) (take k (drop j xs)))"
      by (rule loop_copies[OF cp(1,2)]) (use sz assms(3) cp(3)[OF True] j in simp_all)
    then obtain k where k: "k \<le> unat ?sz" "unat ?sz - k \<le> n" "0 < unat ?sz \<longrightarrow> k < unat ?sz" "n dvd k"
       "loop (src + of_nat j) (dst + of_nat j) ?sz ?m =
         Some (src + of_nat j + of_nat k, dst + of_nat j + of_nat k, ?sz - of_nat k, put ?m (dst + of_nat j) (take k (drop j xs)))"
      by (elim exE conjE) (rule that)
    show thesis
    proof (rule that[of "j + k"])
      have "(of_nat (length xs - j) :: u32) - of_nat k = of_nat (length xs - (j + k))"
        using k(1) sz of_nat_diff[of k "length xs - j", where 'a = "32 word"] by (simp add: diff_diff_eq)
      then show "loop (src + of_nat j) (dst + of_nat j) ?sz ?m =
         Some (src + of_nat (j + k), dst + of_nat (j + k), of_nat (length xs - (j + k)), put m dst (take (j + k) xs))"
        using k(5) cp(4) by (simp add: add.assoc)
    qed (use k sz True in simp_all)
  next
    case False
    then have "?sz = 0" "j = length xs" using j(1) by simp_all
    moreover from this have "loop (src + of_nat j) (dst + of_nat j) ?sz ?m = Some (src + of_nat j, dst + of_nat j, ?sz, ?m)"
      by (subst loop) simp
    ultimately show thesis using that[of j] by simp
  qed
qed

end

lemma aligned_dvd: "aligned a \<longleftrightarrow> 4 dvd unat a"
proof -
  have "a AND 3 = take_bit 2 a" by (simp add: take_bit_eq_mask mask_numeral)
  then have "unat (a AND 3) = take_bit 2 (unat a)" by (simp only: unsigned_take_bit_eq)
  then have "unat (a AND 3) = unat a mod 4" by (simp add: take_bit_eq_mod)
  then show ?thesis by (metis aligned_def mod_0_imp_dvd dvd_imp_mod_0 unat_0 unsigned_0 word_unat_eq_iff)
qed

lemma aligned_add: "aligned a \<Longrightarrow> aligned b \<Longrightarrow> aligned (a + b)"
proof -
  assume "aligned a" "aligned b"
  then have "4 dvd (unat a + unat b) mod 2 ^ 32" by (simp add: aligned_dvd dvd_mod)
  then show "aligned (a + b)" by (simp add: aligned_dvd unat_word_ariths)
qed

lemma copy_words_eq:
  assumes "bytes_at m src xs" "bytes_at m dst ys" "length xs = 4 * n" "length ys = 4 * n" "aligned src" "aligned dst"
  shows "copy_words n src dst m = Some (put m dst xs)"
  using load_bytes_eq[OF assms(1)] store_bytes_eq[OF assms(2), of xs] assms(3-6) by (simp add: copy_words_def)

lemma copy_byte_eq:
  assumes "bytes_at m src xs" "bytes_at m dst ys" "length xs = 1" "length ys = 1"
  shows "copy_byte src dst m = Some (put m dst xs)"
proof -
  obtain x y where "xs = [x]" "ys = [y]" using assms(3,4) by (auto simp: length_Suc_conv)
  then show ?thesis using assms(1,2) by (simp add: copy_byte_def rd_def wr_def)
qed

interpretation ten_words: block_copy 40 aligned "copy_words 10" copy_10_words_loop
proof unfold_locales
  show "aligned (a + of_nat 40)" if "aligned a" for a using aligned_add[OF that, of 40] by (simp add: aligned_def)
  show "copy_10_words_loop src dst sz m = (if sz \<le> of_nat 40 then Some (src, dst, sz, m)
     else (case copy_words 10 src dst m of None \<Rightarrow> None
           | Some m \<Rightarrow> copy_10_words_loop (src + of_nat 40) (dst + of_nat 40) (sz - of_nat 40) m))" for src dst sz m
    by (subst copy_10_words_loop.simps) (simp split: option.split)
qed (auto intro: copy_words_eq)

interpretation one_word: block_copy 4 aligned "copy_words 1" copy_1_word_loop
proof unfold_locales
  show "aligned (a + of_nat 4)" if "aligned a" for a using aligned_add[OF that, of 4] by (simp add: aligned_def)
  show "copy_1_word_loop src dst sz m = (if sz \<le> of_nat 4 then Some (src, dst, sz, m)
     else (case copy_words 1 src dst m of None \<Rightarrow> None
           | Some m \<Rightarrow> copy_1_word_loop (src + of_nat 4) (dst + of_nat 4) (sz - of_nat 4) m))" for src dst sz m
    by (subst copy_1_word_loop.simps) (simp split: option.split)
qed (auto intro: copy_words_eq)

interpretation one_byte: block_copy 1 "\<lambda>_. True" copy_byte copy_1_byte_loop
proof unfold_locales
  show "copy_1_byte_loop src dst sz m = (if sz \<le> of_nat 1 then Some (src, dst, sz, m)
     else (case copy_byte src dst m of None \<Rightarrow> None
           | Some m \<Rightarrow> copy_1_byte_loop (src + of_nat 1) (dst + of_nat 1) (sz - of_nat 1) m))" for src dst sz m
    by (subst copy_1_byte_loop.simps) (simp split: option.split)
qed (auto intro: copy_byte_eq)

text \<open>The fast copy routine leaves out the last byte.\<close>

lemma aligned_of_nat: "4 dvd n \<Longrightarrow> n < 2 ^ 32 \<Longrightarrow> aligned (of_nat n)"
  by (simp add: aligned_dvd unat_of_nat)

lemma memory_fastest_copy_eq:
  assumes mem: "bytes_at m src xs" "bytes_at m dst ys" "length ys = length xs" "unat dst \<le> unat src"
    and sz: "length xs = unat sz" and al: "aligned src" "aligned dst"
  shows "memory_fastest_copy src dst sz m = Some (put m dst (butlast xs))"
proof -
  have len: "length xs < 2 ^ 32" "of_nat (length xs) = sz" using sz unat_addr_bound[of sz] by simp_all
  have al': "aligned (src + of_nat i)" "aligned (dst + of_nat i)" if "4 dvd i" "i \<le> length xs" for i
    using aligned_add[OF _ aligned_of_nat[OF that(1)]] al that(2) len(1) by simp_all
  obtain i1 where 1: "i1 \<le> length xs" "0 < length xs \<Longrightarrow> i1 < length xs" "40 dvd i1"
     "copy_10_words_loop src dst sz m =
        Some (src + of_nat i1, dst + of_nat i1, of_nat (length xs - i1), put m dst (take i1 xs))"
    using ten_words.loop_from[OF mem, of 0] len al by auto
  have d: "4 dvd i1" using 1(3) by (rule dvd_trans[rotated]) simp
  obtain i2 where 2: "i2 \<le> length xs" "i1 < length xs \<Longrightarrow> i2 < length xs" "i1 \<le> i2"
     "copy_1_word_loop (src + of_nat i1) (dst + of_nat i1) (of_nat (length xs - i1)) (put m dst (take i1 xs)) =
        Some (src + of_nat i2, dst + of_nat i2, of_nat (length xs - i2), put m dst (take i2 xs))"
    using one_word.loop_from[OF mem 1(1) len(1) al'[OF d 1(1)]] by metis
  obtain i3 where 3: "i3 \<le> length xs" "i2 < length xs \<Longrightarrow> i3 < length xs" "length xs - i3 \<le> 1"
     "copy_1_byte_loop (src + of_nat i2) (dst + of_nat i2) (of_nat (length xs - i2)) (put m dst (take i2 xs)) =
        Some (src + of_nat i3, dst + of_nat i3, of_nat (length xs - i3), put m dst (take i3 xs))"
    using one_byte.loop_from[OF mem 2(1) len(1)] by metis
  have "i3 = length xs - 1" using 1(2) 2(2) 3(1-3) by (cases "length xs = 0") auto
  then show ?thesis using 1(4) 2(4) 3(4) by (simp add: memory_fastest_copy_def butlast_conv_take)
qed

text \<open>
  \<open>memory_fast_copy\<close> copies whole blocks of 40 bytes, but never the last one, and what it returns is 40
  less than the number of bytes that are left.
\<close>

lemma memory_fast_copy_loop: "memory_fast_copy src dst sz m =
   map_option (\<lambda>(s, d, n, m). (n - 40, m)) (copy_10_words_loop src dst sz m)"
proof (induction src dst sz m rule: memory_fast_copy.induct)
  case (1 src dest len m)
  then show ?case
    by (subst memory_fast_copy.simps, subst copy_10_words_loop.simps) (simp split: option.split)
qed

lemma memory_fast_copy_eq:
  assumes mem: "bytes_at m src xs" "bytes_at m dst ys" "length ys = length xs" "unat dst \<le> unat src"
    and sz: "length xs = unat sz" and al: "aligned src" "aligned dst"
  obtains i where "i \<le> length xs" "length xs - i \<le> 40" "0 < length xs \<Longrightarrow> i < length xs" "40 dvd i"
    "memory_fast_copy src dst sz m = Some (of_nat (length xs - i) - 40, put m dst (take i xs))"
proof -
  have len: "length xs < 2 ^ 32" "of_nat (length xs) = sz" using sz unat_addr_bound[of sz] by simp_all
  obtain i where i: "i \<le> length xs" "length xs - i \<le> 40" "0 < length xs \<Longrightarrow> i < length xs" "40 dvd i"
     "copy_10_words_loop src dst sz m =
        Some (src + of_nat i, dst + of_nat i, of_nat (length xs - i), put m dst (take i xs))"
    using ten_words.loop_from[OF mem, of 0] len al by auto
  then show thesis using that[of i] by (simp add: memory_fast_copy_loop)
qed

lemma sint_small: "k < 2 ^ 31 \<Longrightarrow> sint (of_nat k :: u32) = int k"
  by (simp add: signed_of_nat signed_take_bit_int_eq_self)

text \<open>A loop \<open>while (count-- > 0) copy a block of n bytes\<close> copies everything.\<close>

locale counted_copy =
  fixes n :: nat
    and ok :: "addr \<Rightarrow> bool"
    and copy :: "addr \<Rightarrow> addr \<Rightarrow> memory \<Rightarrow> memory option"
    and loop :: "u32 \<Rightarrow> addr \<Rightarrow> addr \<Rightarrow> memory \<Rightarrow> memory option"
  assumes size: "0 < n"
    and copy: "bytes_at m src xs \<Longrightarrow> bytes_at m dst ys \<Longrightarrow> length xs = n \<Longrightarrow> length ys = n \<Longrightarrow> ok src \<Longrightarrow> ok dst \<Longrightarrow>
        copy src dst m = Some (put m dst xs)"
    and ok: "ok a \<Longrightarrow> ok (a + of_nat n)"
    and loop: "loop k src dst m =
        (if sint k > 0 then
           (case copy src dst m of None \<Rightarrow> None | Some m \<Rightarrow> loop (k - 1) (src + of_nat n) (dst + of_nat n) m)
         else Some m)"
begin

lemma loop_all:
  assumes "bytes_at m src xs" "bytes_at m dst ys" "length xs = n * k" "length ys = n * k" "k < 2 ^ 31"
    "unat dst \<le> unat src" "ok src" "ok dst"
  shows "loop (of_nat k) src dst m = Some (put m dst xs)"
  using assms
proof (induction k arbitrary: src dst m xs ys)
  case 0
  then show ?case by (subst loop) simp
next
  case (Suc k)
  let ?m = "put m dst (take n xs)"
  have nl: "n \<le> length xs" "length (drop n xs) = n * k" "length (drop n ys) = n * k" using Suc.prems(3,4) by simp_all
  note cp = copied_part[OF Suc.prems(1,2) _ Suc.prems(6) nl(1)]
  have split: "bytes_at m src (take n xs)" "bytes_at m dst (take n ys)"
    using Suc.prems(1,2) bytes_at_append[of m src "take n xs" "drop n xs"] bytes_at_append[of m dst "take n ys" "drop n ys"]
    by simp_all
  have step: "copy src dst m = Some ?m"
    by (rule copy[OF split]) (use nl Suc.prems(3,4,7,8) in simp_all)
  have "sint (of_nat (Suc k) :: u32) = int (Suc k)"
    by (rule sint_small[OF Suc.prems(5)])
  moreover have "of_nat (Suc k) - 1 = (of_nat k :: u32)" by simp
  ultimately have "loop (of_nat (Suc k)) src dst m = loop (of_nat k) (src + of_nat n) (dst + of_nat n) ?m"
    using step by (subst loop) simp
  also have "\<dots> = Some (put ?m (dst + of_nat n) (drop n xs))"
  proof (cases "n < length xs")
    case True
    show ?thesis
      by (rule Suc.IH[OF cp(1,2) nl(2,3)]) (use Suc.prems(3-5,7,8) cp(3)[OF _ True] ok in simp_all)
  next
    case False
    then have "k = 0" "drop n xs = []" using Suc.prems(3) size by simp_all
    then show ?thesis by (subst loop) simp
  qed
  also have "\<dots> = Some (put m dst xs)" using put_append[of m dst "take n xs" "drop n xs"] nl(1) by simp
  finally show ?case .
qed

end

interpretation all_bytes: counted_copy 1 "\<lambda>_. True" copy_byte move_bytes
proof unfold_locales
  show "move_bytes k src dst m = (if sint k > 0 then
       (case copy_byte src dst m of None \<Rightarrow> None | Some m \<Rightarrow> move_bytes (k - 1) (src + of_nat 1) (dst + of_nat 1) m)
     else Some m)" for k src dst m
    by (subst move_bytes.simps) (simp split: option.split)
qed (auto intro: copy_byte_eq)

interpretation all_words: counted_copy 4 aligned "copy_words 1" move_words
proof unfold_locales
  show "aligned (a + of_nat 4)" if "aligned a" for a using aligned_add[OF that, of 4] by (simp add: aligned_def)
  show "move_words k src dst m = (if sint k > 0 then
       (case copy_words 1 src dst m of None \<Rightarrow> None | Some m \<Rightarrow> move_words (k - 1) (src + of_nat 4) (dst + of_nat 4) m)
     else Some m)" for k src dst m
    by (subst move_words.simps) (simp split: option.split)
qed (auto intro: copy_words_eq)

section \<open>Loops over a range\<close>

text \<open>An invariant \<open>Q i\<close> that holds before round \<open>i\<close>.\<close>

lemma for_loop_up:
  assumes "i \<le> n" "n < 2 ^ 31" "Q i s"
    and step: "\<And>j s. i \<le> j \<Longrightarrow> j < n \<Longrightarrow> Q j s \<Longrightarrow> \<exists>s'. body (of_nat j) s = Some s' \<and> Q (Suc j) s'"
  shows "\<exists>s'. for_loop (of_nat i) (of_nat n) body s = Some s' \<and> Q n s'"
  using assms(1,3,4)
proof (induction "n - i" arbitrary: i s)
  case 0
  then show ?case by (subst for_loop.simps) simp
next
  case (Suc d)
  then have i: "i < n" by simp
  obtain s1 where s1: "body (of_nat i) s = Some s1" "Q (Suc i) s1" using Suc.prems(3)[OF _ i Suc.prems(2)] by blast
  have "sint (of_nat i :: u32) < sint (of_nat n :: u32)" using i assms(2) by (simp add: sint_small)
  then have "for_loop (of_nat i) (of_nat n) body s = for_loop (of_nat (Suc i)) (of_nat n) body s1"
    using s1(1) by (subst for_loop.simps) (simp add: add.commute)
  moreover have "\<exists>s'. for_loop (of_nat (Suc i)) (of_nat n) body s1 = Some s' \<and> Q n s'"
    by (rule Suc.hyps(1)) (use Suc s1(2) i in auto)
  ultimately show ?case by simp
qed

lemmas for_loop_from_0 = for_loop_up[of 0, simplified]

section \<open>The picture in the frame buffer\<close>

definition pixel_ofs :: "nat \<times> nat \<Rightarrow> nat" where
  "pixel_ofs xy = 2 * (snd xy * 800 + fst xy)"

definition on_screen :: "nat \<times> nat \<Rightarrow> bool" where
  "on_screen xy \<longleftrightarrow> fst xy < 800 \<and> snd xy < 480"

text \<open>\<open>picture v p f\<close>: the frame buffer of the screen is at \<open>p\<close> and shows the picture \<open>f\<close>.\<close>

definition picture :: "video \<Rightarrow> addr \<Rightarrow> (nat \<times> nat \<Rightarrow> 16 word) \<Rightarrow> bool" where
  "picture v p f \<longleftrightarrow>
     (\<exists>fb. graphicsAddress v = Some fb \<and> framebuffer v = Some fb \<and> fb_width fb = 800 \<and> fb_height fb = 480 \<and>
        gpu_pointer fb = p) \<and>
     p \<noteq> 0 \<and> aligned p \<and> unat p + 768000 \<le> 2 ^ 32 \<and>
     (\<forall>z. on_screen z \<longrightarrow> vmem v (p + of_nat (pixel_ofs z)) = Some (ucast (f z)) \<and>
        vmem v (p + of_nat (pixel_ofs z + 1)) = Some (ucast (drop_bit 8 (f z))))"

text \<open>Nothing outside the frame buffer has changed.\<close>

definition only_frame :: "addr \<Rightarrow> memory \<Rightarrow> memory \<Rightarrow> bool" where
  "only_frame p m m' \<longleftrightarrow> (\<forall>q. q \<notin> span p 768000 \<longrightarrow> m' q = m q)"

lemma only_frame_trans: "only_frame p m m1 \<Longrightarrow> only_frame p m1 m2 \<Longrightarrow> only_frame p m m2"
  by (simp add: only_frame_def)

lemma only_frame_refl [simp]: "only_frame p m m"
  by (simp add: only_frame_def)

lemma pixel_ofs_less: "on_screen z \<Longrightarrow> pixel_ofs z + 1 < 768000"
  by (auto simp: on_screen_def pixel_ofs_def)

lemma pixel_ofs_inject:
  assumes "on_screen z" "on_screen w" "pixel_ofs z = pixel_ofs w"
  shows "z = w"
proof -
  have d: "(snd u * 800 + fst u) div 800 = snd u" "(snd u * 800 + fst u) mod 800 = fst u" if "on_screen u" for u
    using that by (simp_all add: on_screen_def)
  have "snd z * 800 + fst z = snd w * 800 + fst w" using assms(3) by (simp add: pixel_ofs_def)
  then show ?thesis using d[OF assms(1)] d[OF assms(2)] by (metis prod.collapse)
qed

lemma pixel_ofs_odd: "pixel_ofs z \<noteq> pixel_ofs w + 1" "pixel_ofs w + 1 \<noteq> pixel_ofs z"
  by (metis dvd_triv_left even_plus_one_iff pixel_ofs_def)+

lemma frame_addr:
  assumes "unat p + 768000 \<le> 2 ^ 32" "i < 768000"
  shows "unat (p + of_nat i) = unat p + i" "p + of_nat i \<in> span p 768000"
    "j < 768000 \<Longrightarrow> p + of_nat i = p + of_nat j \<longleftrightarrow> i = j"
proof -
  have u: "unat (p + of_nat i) = unat p + i" if "i < 768000" for i using assms(1) that by (intro unat_add_of_nat) simp
  show "unat (p + of_nat i) = unat p + i" by (rule u[OF assms(2)])
  show "p + of_nat i \<in> span p 768000" using assms(2) by (auto simp: span_def)
  show "p + of_nat i = p + of_nat j \<longleftrightarrow> i = j" if "j < 768000"
  proof
    assume "p + of_nat i = p + of_nat j"
    then have "unat (p + of_nat i) = unat (p + of_nat j)" by (rule arg_cong)
    then show "i = j" using u[OF that] u[OF assms(2)] by linarith
  qed simp
qed

lemma pictureD:
  assumes "picture v p f"
  obtains fb where "graphicsAddress v = Some fb" "framebuffer v = Some fb" "fb_width fb = 800" "fb_height fb = 480"
     "gpu_pointer fb = p"
  using assms unfolding picture_def by (elim exE conjE) (rule that)

lemma picture_place:
  assumes "picture v p f"
  shows "p \<noteq> 0" "aligned p" "unat p + 768000 \<le> 2 ^ 32"
    "on_screen w \<Longrightarrow> vmem v (p + of_nat (pixel_ofs w)) = Some (ucast (f w))"
    "on_screen w \<Longrightarrow> vmem v (p + of_nat (pixel_ofs w + 1)) = Some (ucast (drop_bit 8 (f w)))"
  using assms unfolding picture_def by (elim exE conjE, simp only:)+

lemma DrawPixel_picture:
  assumes pic: "picture v p f" and z: "on_screen (x, y)"
  shows "\<exists>m. DrawPixel (of_nat x) (of_nat y) v = Some (v\<lparr>vmem := m\<rparr>) \<and>
     picture (v\<lparr>vmem := m\<rparr>) p (f((x, y) := foreColour v)) \<and> only_frame p (vmem v) m"
proof -
  obtain fb where fb: "graphicsAddress v = Some fb" "framebuffer v = Some fb" "fb_width fb = 800" "fb_height fb = 480"
     "gpu_pointer fb = p" by (rule pictureD[OF pic])
  note p = picture_place(1-3)[OF pic] and px = picture_place(4,5)[OF pic]
  let ?i = "pixel_ofs (x, y)" let ?a = "p + of_nat ?i" let ?b = "p + of_nat (?i + 1)"
  have i: "?i < 768000" "?i + 1 < 768000" using pixel_ofs_less[OF z] by simp_all
  note A = frame_addr[OF p(3) i(1)] and B = frame_addr[OF p(3) i(2)]
  have ub: "unat ?a < unat ?b" using A(1) B(1) by linarith
  have ne: "?a \<noteq> 0" "?b \<noteq> 0" using A(1) B(1) p(1) by (auto simp: unat_eq_zero)
  have xy: "x < 800" "y < 480" using z by (simp_all add: on_screen_def)
  then have u: "unat (of_nat x :: u32) = x" "unat (of_nat y :: u32) = y" by (simp_all add: unat_of_nat)
  have addr: "p + push_bit 1 (of_nat y * 800 + of_nat x) = ?a"
    by (simp add: pixel_ofs_def push_bit_eq_mult)
  define m where "m = (vmem v)(?a \<mapsto> ucast (foreColour v), ?b \<mapsto> ucast (drop_bit 8 (foreColour v)))"
  have mem: "vmem v ?a \<noteq> None" "vmem v ?b \<noteq> None" using px[OF z] by simp_all
  have "strh (foreColour v) ?a (vmem v) = Some m"
    using ne mem by (simp add: strh_def wr_def m_def add.assoc add.commute[of 1])
  moreover have "\<not> of_nat y > fb_height fb - 1" "\<not> of_nat x > fb_width fb - 1"
    using xy u fb(3,4) by (simp_all add: word_less_nat_alt)
  ultimately have draw: "DrawPixel (of_nat x) (of_nat y) v = Some (v\<lparr>vmem := m\<rparr>)"
    using fb addr by (simp add: DrawPixel_def on_vmem_def)
  have "picture (v\<lparr>vmem := m\<rparr>) p (f((x, y) := foreColour v))"
  proof -
    have "m (p + of_nat (pixel_ofs w)) = Some (ucast ((f((x, y) := foreColour v)) w)) \<and>
        m (p + of_nat (pixel_ofs w + 1)) = Some (ucast (drop_bit 8 ((f((x, y) := foreColour v)) w)))" if w: "on_screen w" for w
    proof -
      have j: "pixel_ofs w < 768000" "pixel_ofs w + 1 < 768000" using pixel_ofs_less[OF w] by simp_all
      have ab: "?a \<noteq> ?b" using ub by auto
      have e: "p + of_nat (pixel_ofs w) = ?a \<longleftrightarrow> w = (x, y)" "p + of_nat (pixel_ofs w + 1) = ?b \<longleftrightarrow> w = (x, y)"
        "p + of_nat (pixel_ofs w) \<noteq> ?b" "p + of_nat (pixel_ofs w + 1) \<noteq> ?a"
        using frame_addr(3)[OF p(3) j(1) i(1)] frame_addr(3)[OF p(3) j(2) i(2)] frame_addr(3)[OF p(3) j(1) i(2)]
          frame_addr(3)[OF p(3) j(2) i(1)] pixel_ofs_inject[OF w z] pixel_ofs_odd by auto
      show ?thesis
      proof (cases "w = (x, y)")
        case True
        then show ?thesis using ab by (simp add: m_def)
      next
        case False
        then show ?thesis using e px[OF w] by (simp only: m_def fun_upd_apply) simp
      qed
    qed
    then show ?thesis unfolding picture_def using fb p by (intro conjI exI[of _ fb]) simp_all
  qed
  moreover have "only_frame p (vmem v) m" using A(2) B(2) by (auto simp: only_frame_def m_def)
  ultimately show ?thesis using draw by blast
qed

section \<open>Painting\<close>

definition paint :: "(nat \<times> nat) set \<Rightarrow> 16 word \<Rightarrow> (nat \<times> nat \<Rightarrow> 16 word) \<Rightarrow> nat \<times> nat \<Rightarrow> 16 word" where
  "paint S c f z = (if z \<in> S then c else f z)"

lemma paint_empty [simp]: "paint {} c f = f"
  by (simp add: paint_def fun_eq_iff)

lemma paint_union: "paint S c (paint T c f) = paint (S \<union> T) c f"
  by (auto simp: paint_def fun_eq_iff)

lemma paint_insert: "(paint S c f)(z := c) = paint (insert z S) c f"
  by (auto simp: paint_def fun_eq_iff)

text \<open>\<open>painted v v' p f S c\<close>: \<open>v'\<close> is \<open>v\<close> with the points of \<open>S\<close> painted.\<close>

definition painted :: "video \<Rightarrow> video \<Rightarrow> addr \<Rightarrow> (nat \<times> nat \<Rightarrow> 16 word) \<Rightarrow> (nat \<times> nat) set \<Rightarrow> 16 word \<Rightarrow> bool" where
  "painted v v' p f S c \<longleftrightarrow> v' = v\<lparr>vmem := vmem v'\<rparr> \<and> picture v' p (paint S c f) \<and> only_frame p (vmem v) (vmem v')"

lemma painted_refl: "picture v p f \<Longrightarrow> painted v v p f {} c"
  by (simp add: painted_def)

lemma painted_step:
  assumes "painted v v1 p f S (foreColour v)" "on_screen (x, y)"
  shows "\<exists>v'. DrawPixel (of_nat x) (of_nat y) v1 = Some v' \<and> painted v v' p f (insert (x, y) S) (foreColour v)"
proof -
  have v1: "v1 = v\<lparr>vmem := vmem v1\<rparr>" "picture v1 p (paint S (foreColour v) f)" "only_frame p (vmem v) (vmem v1)"
    using assms(1) unfolding painted_def by blast+
  obtain m where m: "DrawPixel (of_nat x) (of_nat y) v1 = Some (v1\<lparr>vmem := m\<rparr>)"
     "picture (v1\<lparr>vmem := m\<rparr>) p ((paint S (foreColour v) f)((x, y) := foreColour v1))" "only_frame p (vmem v1) m"
    using DrawPixel_picture[OF v1(2) assms(2)] by blast
  have "foreColour v1 = foreColour v" by (subst v1(1)) simp
  moreover have "v1\<lparr>vmem := m\<rparr> = v\<lparr>vmem := m\<rparr>" by (subst v1(1)) simp
  ultimately have "painted v (v1\<lparr>vmem := m\<rparr>) p f (insert (x, y) S) (foreColour v)"
    using m(2) only_frame_trans[OF v1(3) m(3)] by (simp add: painted_def paint_insert)
  then show ?thesis using m(1) by blast
qed

lemma painted_screen [simp]:
  assumes "painted v v' p f S c"
  shows "screen v' = screen v" "font v' = font v" "foreColour v' = foreColour v"
  using assms unfolding painted_def by (metis video.ext_inject video.update_convs(5) video.surjective)+

definition rect :: "nat \<Rightarrow> nat \<Rightarrow> nat \<Rightarrow> nat \<Rightarrow> (nat \<times> nat) set" where
  "rect x y w h = {z. x \<le> fst z \<and> fst z < x + w \<and> y \<le> snd z \<and> snd z < y + h}"

lemma rect_empty [simp]: "rect x y 0 h = {}" "rect x y w 0 = {}"
  by (auto simp: rect_def)

lemma draw_rect:
  assumes pic: "picture v p f" and b: "x + w \<le> 800" "y + h \<le> 480"
  shows "\<exists>v'. for_loop 0 (of_nat h) (\<lambda>row. for_loop 0 (of_nat w) (\<lambda>col. DrawPixel (of_nat x + col) (of_nat y + row))) v = Some v' \<and>
     painted v v' p f (rect x y w h) (foreColour v)"
proof -
  let ?c = "foreColour v"
  have row: "\<exists>s'. for_loop 0 (of_nat w) (\<lambda>col. DrawPixel (of_nat x + col) (of_nat y + of_nat j)) s = Some s' \<and>
      painted v s' p f (rect x y w (Suc j)) ?c"
    if j: "j < h" and s: "painted v s p f (rect x y w j) ?c" for j s
  proof -
    have "\<exists>s'. for_loop 0 (of_nat w) (\<lambda>col. DrawPixel (of_nat x + col) (of_nat y + of_nat j)) s = Some s' \<and>
        painted v s' p f (rect x y w j \<union> rect x (y + j) w 1) ?c"
    proof (rule for_loop_from_0[of w "\<lambda>i s. painted v s p f (rect x y w j \<union> rect x (y + j) i 1) ?c"])
      show "w < 2147483648" using b by simp
      show "painted v s p f (rect x y w j \<union> rect x (y + j) 0 1) ?c" using s by simp
      fix i t assume i: "i < w" and t: "painted v t p f (rect x y w j \<union> rect x (y + j) i 1) ?c"
      have "on_screen (x + i, y + j)" using b i j by (simp add: on_screen_def)
      moreover have "insert (x + i, y + j) (rect x y w j \<union> rect x (y + j) i 1) = rect x y w j \<union> rect x (y + j) (Suc i) 1"
        by (auto simp: rect_def)
      ultimately show "\<exists>s'. DrawPixel (of_nat x + of_nat i) (of_nat y + of_nat j) t = Some s' \<and>
          painted v s' p f (rect x y w j \<union> rect x (y + j) (Suc i) 1) ?c"
        using painted_step[OF t, of "x + i" "y + j"] by simp
    qed
    moreover have "rect x y w j \<union> rect x (y + j) w 1 = rect x y w (Suc j)" by (auto simp: rect_def)
    ultimately show ?thesis by simp
  qed
  show ?thesis
  proof (rule for_loop_from_0[of h "\<lambda>j s. painted v s p f (rect x y w j) ?c"])
    show "h < 2147483648" using b by simp
    show "painted v v p f (rect x y w 0) ?c" using painted_refl[OF pic] by simp
    show "\<exists>s'. for_loop 0 (of_nat w) (\<lambda>col. DrawPixel (of_nat x + col) (of_nat y + of_nat j)) s = Some s' \<and>
        painted v s' p f (rect x y w (Suc j)) ?c" if "j < h" "painted v s p f (rect x y w j) ?c" for j s
      using row[OF that] .
  qed
qed

text \<open>The state of the screen that every operation keeps: the constants of devices/screen.h.\<close>

definition screen_consts :: "screen_info \<Rightarrow> bool" where
  "screen_consts s \<longleftrightarrow> s_height s = 480 \<and> s_width s = 800 \<and> pixel_size s = 16 \<and> font_width s = 8 \<and> font_height s = 16"

lemma ucast_colour [simp]: "ucast (ucast (c :: 16 word) :: u32) = c" "\<not> (ucast c :: u32) \<ge> 0x10000"
proof -
  have "uint (ucast c :: u32) = uint c" by (rule uint_up_ucast) (simp add: is_up)
  then show "\<not> (ucast c :: u32) \<ge> 0x10000" using uint_bounded[of c] by (simp add: word_le_def)
qed (rule bit_word_eqI, auto simp: bit_ucast_iff)

text \<open>Painting in black between saving and restoring the colour.\<close>

lemma painted_black:
  assumes "painted (SetForeColour 0 v) v' p f S 0"
  shows "painted v (SetForeColour (GetForeColour v) v') p f S 0"
proof -
  have 1: "SetForeColour 0 v = v\<lparr>foreColour := 0\<rparr>" by (simp add: SetForeColour_def)
  have v': "v' = v\<lparr>foreColour := 0, vmem := vmem v'\<rparr>" "picture v' p (paint S 0 f)"
      and "only_frame p (vmem (v\<lparr>foreColour := 0\<rparr>)) (vmem v')"
    using assms unfolding painted_def 1 by blast+
  then have o: "only_frame p (vmem v) (vmem v')" by simp
  have g: "graphicsAddress v' = graphicsAddress v" "framebuffer v' = framebuffer v"
    by (subst v'(1), simp)+
  have "v'\<lparr>foreColour := foreColour v\<rparr> = v\<lparr>vmem := vmem v'\<rparr>" by (subst v'(1)) simp
  then have e: "SetForeColour (GetForeColour v) v' = v\<lparr>vmem := vmem v'\<rparr>"
    by (simp add: SetForeColour_def GetForeColour_def)
  have "picture (v\<lparr>vmem := vmem v'\<rparr>) p h = picture v' p h" for h by (simp add: picture_def g)
  then show ?thesis unfolding painted_def e using v'(2) o by simp
qed

lemma picture_colour [simp]: "picture (SetForeColour c v) p f = picture v p f"
  by (simp add: picture_def SetForeColour_def)

lemma clean_character_painted:
  assumes pic: "picture v p f" and sc: "screen_consts (screen v)" and b: "x + 8 \<le> 800" "y + 16 \<le> 480"
  shows "\<exists>v'. video_clean_character (of_nat x) (of_nat y) v = Some v' \<and> painted v v' p f (rect x y 8 16) 0"
proof -
  have "picture (SetForeColour 0 v) p f" using pic by simp
  from draw_rect[OF this b] obtain v1 where
    "for_loop 0 16 (\<lambda>row. for_loop 0 8 (\<lambda>col. DrawPixel (of_nat x + col) (of_nat y + row))) (SetForeColour 0 v) = Some v1"
    "painted (SetForeColour 0 v) v1 p f (rect x y 8 16) 0" by (auto simp: SetForeColour_def)
  then show ?thesis
    using sc painted_black by (simp add: video_clean_character_def screen_consts_def) (simp add: SetForeColour_def)
qed

lemma clean_row_painted:
  assumes pic: "picture v p f" and sc: "screen_consts (screen v)" and b: "y + 16 \<le> 480"
  shows "\<exists>v'. video_clean_row (of_nat y) v = Some v' \<and> painted v v' p f (rect 0 y 800 16) 0"
proof -
  have "picture (SetForeColour 0 v) p f" using pic by simp
  from draw_rect[OF this, of 0 800 y 16] b obtain v1 where
    "for_loop 0 16 (\<lambda>row. for_loop 0 800 (\<lambda>col. DrawPixel col (of_nat y + row))) (SetForeColour 0 v) = Some v1"
    "painted (SetForeColour 0 v) v1 p f (rect 0 y 800 16) 0" by (auto simp: SetForeColour_def)
  then show ?thesis
    using sc painted_black by (simp add: video_clean_row_def screen_consts_def) (simp add: SetForeColour_def)
qed

text \<open>The points of a character: bit \<open>j\<close> of line \<open>l\<close> of its bitmap is column \<open>j\<close>.\<close>

definition glyph :: "(nat \<Rightarrow> u8) \<Rightarrow> nat \<Rightarrow> nat \<Rightarrow> nat \<Rightarrow> nat \<Rightarrow> (nat \<times> nat) set" where
  "glyph bitmap c x y n = {z. x \<le> fst z \<and> fst z < x + 8 \<and> y \<le> snd z \<and> snd z < y + n \<and>
     bit (bitmap (16 * c + (snd z - y))) (fst z - x)}"

definition line_bits :: "u8 \<Rightarrow> nat \<Rightarrow> nat \<Rightarrow> nat \<Rightarrow> (nat \<times> nat) set" where
  "line_bits bits b x y = {z. x \<le> fst z \<and> fst z < x + b \<and> snd z = y \<and> bit bits (fst z - x)}"

lemma shifted_bit:
  assumes "b < 8"
  shows "push_bit (8 - b) (ucast (bits :: u8) :: u32) AND 0x100 = 0 \<longleftrightarrow> \<not> bit bits b"
proof -
  let ?w = "push_bit (8 - b) (ucast bits :: u32)"
  have "(0x100 :: u32) = push_bit 8 1" by (simp add: push_bit_eq_mult)
  then have "?w AND 0x100 = 0 \<longleftrightarrow> \<not> bit ?w 8" by (metis and_exp_eq_0_iff_not_bit push_bit_of_1)
  also have "bit ?w 8 = bit (ucast bits :: u32) b" using assms by (simp add: bit_push_bit_iff)
  also have "\<dots> = bit bits b" using assms by (simp add: bit_ucast_iff)
  finally show ?thesis .
qed

lemma line_bits_Suc: "line_bits bits (Suc b) x y = (if bit bits b then insert (x + b, y) (line_bits bits b x y) else line_bits bits b x y)"
  by (auto simp: line_bits_def less_Suc_eq)

lemma draw_bits_painted:
  assumes "x + 8 \<le> 800" "y < 480"
  shows "b \<le> 8 \<Longrightarrow> painted v s p f S (foreColour v) \<Longrightarrow>
     \<exists>s'. draw_bits b (push_bit (8 - b) (ucast bits)) (of_nat x) (of_nat y) s = Some s' \<and>
       painted v s' p f (S \<union> line_bits bits b x y) (foreColour v)"
proof (induction b arbitrary: s S)
  case 0
  have "line_bits bits 0 x y = {}" by (auto simp: line_bits_def)
  then show ?case using 0 by simp
next
  case (Suc b)
  then have b: "b < 8" "b \<le> 8" by simp_all
  have sh: "push_bit 1 (push_bit (8 - Suc b) (ucast bits :: u32)) = push_bit (8 - b) (ucast bits)"
  proof -
    have "1 + (8 - Suc b) = 8 - b" using b by simp
    then show ?thesis by (simp only: push_bit_push_bit)
  qed
  have step: "draw_bits (Suc b) (push_bit (8 - Suc b) (ucast bits)) (of_nat x) (of_nat y) s =
      (if \<not> bit bits b then draw_bits b (push_bit (8 - b) (ucast bits)) (of_nat x) (of_nat y) s
       else do { v \<leftarrow> DrawPixel (of_nat x + of_nat b) (of_nat y) s;
                 draw_bits b (push_bit (8 - b) (ucast bits)) (of_nat x) (of_nat y) v })"
    by (simp only: draw_bits.simps sh Let_def shifted_bit[OF b(1)])
  show ?case
  proof (cases "bit bits b")
    case True
    have "on_screen (x + b, y)" using assms b by (simp add: on_screen_def)
    from painted_step[OF Suc.prems(2) this] obtain s1 where s1: "DrawPixel (of_nat x + of_nat b) (of_nat y) s = Some s1"
       "painted v s1 p f (insert (x + b, y) S) (foreColour v)" by auto
    obtain s2 where "draw_bits b (push_bit (8 - b) (ucast bits)) (of_nat x) (of_nat y) s1 = Some s2"
       "painted v s2 p f (insert (x + b, y) S \<union> line_bits bits b x y) (foreColour v)"
      using Suc.IH[OF b(2) s1(2)] by blast
    then show ?thesis unfolding step using s1(1) True by (simp add: line_bits_Suc)
  next
    case False
    then show ?thesis unfolding step using Suc.IH[OF b(2) Suc.prems(2)] by (simp add: line_bits_Suc)
  qed
qed

lemma glyph_Suc: "glyph bm c x y (Suc l) = glyph bm c x y l \<union> line_bits (bm (16 * c + l)) 8 x (y + l)"
proof -
  have "z \<in> glyph bm c x y (Suc l) \<longleftrightarrow> z \<in> glyph bm c x y l \<union> line_bits (bm (16 * c + l)) 8 x (y + l)" for z
    by (cases z, cases "snd z = y + l") (auto simp: glyph_def line_bits_def)
  then show ?thesis by blast
qed

lemma draw_lines_painted:
  assumes "x + 8 \<le> 800" "y + 16 \<le> 480"
  shows "l < 16 \<Longrightarrow> painted v s p f (glyph (font v) c x y l) (foreColour v) \<Longrightarrow>
     \<exists>s'. draw_lines c l (of_nat x) (of_nat (y + l)) s = Some s' \<and> painted v s' p f (glyph (font v) c x y 16) (foreColour v)"
proof (induction "15 - l" arbitrary: l s)
  case (0 l)
  then have l: "l = 15" by simp
  have y: "y + l < 480" using assms 0(2) by simp
  have "font s = font v" using 0(3) by simp
  moreover obtain s' where "draw_bits 8 (ucast (font v (16 * c + l))) (of_nat x) (of_nat (y + l)) s = Some s'"
     "painted v s' p f (glyph (font v) c x y (Suc l)) (foreColour v)"
    using draw_bits_painted[OF assms(1) y, of 8 v s p f _ "font v (16 * c + l)"] 0(3) by (auto simp: glyph_Suc)
  ultimately show ?case using l by (subst draw_lines.simps) (simp add: eval_nat_numeral)
next
  case (Suc d l)
  then have l: "Suc l < 16" "(l + 1) mod 16 \<noteq> 0" by simp_all
  have y: "y + l < 480" using assms Suc.prems(1) by simp
  have fs: "font s = font v" using Suc.prems(2) by simp
  obtain s1 where s1: "draw_bits 8 (ucast (font v (16 * c + l))) (of_nat x) (of_nat (y + l)) s = Some s1"
     "painted v s1 p f (glyph (font v) c x y (Suc l)) (foreColour v)"
    using draw_bits_painted[OF assms(1) y, of 8 v s p f _ "font v (16 * c + l)"] Suc.prems(2) by (auto simp: glyph_Suc)
  have "d = 15 - Suc l" using Suc.hyps(2) by simp
  from Suc.hyps(1)[OF this l(1) s1(2)] show ?case
    using s1(1) l(2) fs by (subst draw_lines.simps) (simp add: add.commute add.left_commute)
qed

lemma DrawCharacter_painted:
  assumes "picture v p f" "x + 8 \<le> 800" "y + 16 \<le> 480"
  shows "\<exists>v'. DrawCharacter c (of_nat x) (of_nat y) v = Some v' \<and>
     painted v v' p f (if c > 0x7F then {} else glyph (font v) (unat c) x y 16) (foreColour v)"
proof -
  have "glyph (font v) (unat c) x y 0 = {}" by (auto simp: glyph_def)
  then show ?thesis
    using draw_lines_painted[OF assms(2,3), of 0 v v p f "unat c"] painted_refl[OF assms(1)]
    by (simp add: DrawCharacter_def)
qed

section \<open>The bytes of the picture\<close>

definition point_of :: "nat \<Rightarrow> nat \<times> nat" where
  "point_of i = (i div 2 mod 800, i div 2 div 800)"

definition frame_byte :: "(nat \<times> nat \<Rightarrow> 16 word) \<Rightarrow> nat \<Rightarrow> u8" where
  "frame_byte f i = ucast (drop_bit (8 * (i mod 2)) (f (point_of i)))"

lemma point_of_ofs: "on_screen z \<Longrightarrow> point_of (pixel_ofs z) = z" "on_screen z \<Longrightarrow> point_of (pixel_ofs z + 1) = z"
  by (cases z; simp add: point_of_def pixel_ofs_def on_screen_def)+

lemma frame_byte_ofs:
  assumes "on_screen z"
  shows "frame_byte f (pixel_ofs z) = ucast (f z)" "frame_byte f (pixel_ofs z + 1) = ucast (drop_bit 8 (f z))"
proof -
  have "even (pixel_ofs z)" by (simp add: pixel_ofs_def)
  then have "pixel_ofs z mod 2 = 0" "(pixel_ofs z + 1) mod 2 = 1" by presburger+
  then show "frame_byte f (pixel_ofs z) = ucast (f z)" "frame_byte f (pixel_ofs z + 1) = ucast (drop_bit 8 (f z))"
    using point_of_ofs[OF assms] by (simp_all add: frame_byte_def)
qed

lemma byte_ofs:
  assumes "i < 768000"
  shows "on_screen (point_of i)" "i = pixel_ofs (point_of i) + i mod 2"
proof -
  have "i div 2 < 384000" using assms by simp
  then show "on_screen (point_of i)" by (simp add: point_of_def on_screen_def)
  have "i div 2 div 800 * 800 + i div 2 mod 800 = i div 2" by (rule div_mult_mod_eq)
  then show "i = pixel_ofs (point_of i) + i mod 2" by (simp add: point_of_def pixel_ofs_def)
qed

lemma picture_bytes:
  assumes "picture v p f" "i < 768000"
  shows "vmem v (p + of_nat i) = Some (frame_byte f i)"
proof (cases "i mod 2 = 0")
  case True
  then have i: "i = pixel_ofs (point_of i)" using byte_ofs(2)[OF assms(2)] by simp
  show ?thesis
    using picture_place(4)[OF assms(1) byte_ofs(1)[OF assms(2)]] frame_byte_ofs(1)[OF byte_ofs(1)[OF assms(2)], of f] i
    by simp
next
  case False
  then have i: "i = pixel_ofs (point_of i) + 1" using byte_ofs(2)[OF assms(2)] by presburger
  show ?thesis
    using picture_place(5)[OF assms(1) byte_ofs(1)[OF assms(2)]] frame_byte_ofs(2)[OF byte_ofs(1)[OF assms(2)], of f] i
    by metis
qed

lemma picture_from_bytes:
  assumes "picture v p f" "\<And>i. i < 768000 \<Longrightarrow> m (p + of_nat i) = Some (frame_byte g i)"
  shows "picture (v\<lparr>vmem := m\<rparr>) p g"
proof -
  obtain fb where fb: "graphicsAddress v = Some fb" "framebuffer v = Some fb" "fb_width fb = 800" "fb_height fb = 480"
     "gpu_pointer fb = p" by (rule pictureD[OF assms(1)])
  have "m (p + of_nat (pixel_ofs z)) = Some (ucast (g z)) \<and> m (p + of_nat (pixel_ofs z + 1)) = Some (ucast (drop_bit 8 (g z)))"
    if z: "on_screen z" for z
    using assms(2)[of "pixel_ofs z"] assms(2)[of "pixel_ofs z + 1"] pixel_ofs_less[OF z] frame_byte_ofs[OF z, of g] by simp
  then show ?thesis using fb picture_place(1-3)[OF assms(1)] unfolding picture_def
    by (intro conjI exI[of _ fb]) simp_all
qed

lemma bytes_at_nth:
  assumes "\<And>i. i < length xs \<Longrightarrow> m (a + of_nat i) = Some (xs ! i)" "a \<noteq> 0" "unat a + length xs \<le> 2 ^ 32"
  shows "bytes_at m a xs"
  using assms
proof (induction xs arbitrary: a)
  case (Cons x xs)
  have "bytes_at m (a + 1) xs"
  proof (cases "xs = []")
    case False
    then have "unat (a + 1) = unat a + 1" using Cons.prems(3) unat_add_of_nat[of a 1] by (cases xs) simp_all
    then show ?thesis
      using Cons.prems(1)[of "Suc _"] Cons.prems(3) by (intro Cons.IH) (auto simp: add.assoc)
  qed simp
  then show ?case using Cons.prems(1)[of 0] Cons.prems(2) by simp
qed simp

lemma put_nth:
  assumes "unat a + length xs \<le> 2 ^ 32" "i < length xs"
  shows "put m a xs (a + of_nat i) = Some (xs ! i)"
proof -
  have xs: "xs = take i xs @ xs ! i # drop (Suc i) xs" by (rule id_take_nth_drop[OF assms(2)])
  have "a + of_nat i \<notin> span (a + of_nat i + 1) (length (drop (Suc i) xs))"
  proof (rule span_next_notin)
    have "unat (a + of_nat i) = unat a + i" using assms by (intro unat_add_of_nat) simp
    then show "unat (a + of_nat i) + Suc (length (drop (Suc i) xs)) \<le> 2 ^ 32" using assms by simp
  qed
  then have "put (put m a (take i xs)) (a + of_nat i) (xs ! i # drop (Suc i) xs) (a + of_nat i) = Some (xs ! i)"
    by (simp add: put_other)
  moreover have "put m a xs = put (put m a (take i xs)) (a + of_nat i) (xs ! i # drop (Suc i) xs)"
    using put_append[of m a "take i xs" "xs ! i # drop (Suc i) xs"] xs assms(2) by simp
  ultimately show ?thesis by simp
qed

section \<open>A new line\<close>

text \<open>\<open>mixed a b\<close>: the low byte of \<open>a\<close> and the high byte of \<open>b\<close>.\<close>

definition mixed :: "16 word \<Rightarrow> 16 word \<Rightarrow> 16 word" where
  "mixed a b = take_bit 8 a OR push_bit 8 (drop_bit 8 b)"

lemma mixed_bytes: "(ucast (mixed a b) :: u8) = ucast a" "(ucast (drop_bit 8 (mixed a b)) :: u8) = ucast (drop_bit 8 b)"
  by (rule bit_word_eqI, auto simp: mixed_def bit_simps)+

text \<open>The picture moved up by the height of a character, the last line kept; all of it, and all but one byte.\<close>

definition moved_up :: "(nat \<times> nat \<Rightarrow> 16 word) \<Rightarrow> nat \<times> nat \<Rightarrow> 16 word" where
  "moved_up f z = (if snd z < 464 then f (fst z, snd z + 16) else f z)"

definition moved_up_but_one :: "(nat \<times> nat \<Rightarrow> 16 word) \<Rightarrow> nat \<times> nat \<Rightarrow> 16 word" where
  "moved_up_but_one f = (moved_up f)((799, 463) := mixed (f (799, 479)) (f (799, 463)))"

lemma point_of_below: "point_of (i + 25600) = (fst (point_of i), snd (point_of i) + 16)"
proof -
  have "(i + 25600) div 2 = i div 2 + 12800" by simp
  then show ?thesis
    using div_mult_self1[of 800 "i div 2" 16] mod_mult_self1[of "i div 2" 16 800] by (simp add: point_of_def)
qed

lemma point_line: "snd (point_of i) < 464 \<longleftrightarrow> i < 742400"
proof -
  have "i div 2 div 800 < 464 \<longleftrightarrow> i div 2 < 371200" by (simp add: div_less_iff_less_mult)
  also have "\<dots> \<longleftrightarrow> i < 742400" by (simp add: div_less_iff_less_mult)
  finally show ?thesis by (simp add: point_of_def)
qed

lemma frame_byte_moved:
  "frame_byte (moved_up f) i = (if i < 742400 then frame_byte f (i + 25600) else frame_byte f i)"
proof -
  have "(i + 25600) mod 2 = i mod 2" by presburger
  then show ?thesis using point_line[of i] by (simp add: frame_byte_def moved_up_def point_of_below)
qed

lemma frame_byte_moved_but_one:
  assumes "i < 768000"
  shows "frame_byte (moved_up_but_one f) i = (if i < 742399 then frame_byte f (i + 25600) else frame_byte f i)"
proof (cases "point_of i = (799, 463)")
  case True
  have "pixel_ofs (799, 463) = 742398" by (simp add: pixel_ofs_def)
  then consider "i = 742398" | "i = 742399" using byte_ofs(2)[OF assms] True by (cases "i mod 2 = 0") auto
  then show ?thesis
  proof cases
    case 1
    have "point_of (742398 + 25600) = (799, 479)" "point_of 742398 = (799, 463)" by (simp_all add: point_of_def)
    then show ?thesis using 1 by (simp add: frame_byte_def moved_up_but_one_def mixed_bytes)
  next
    case 2
    have "point_of 742399 = (799, 463)" by (simp add: point_of_def)
    then show ?thesis using 2 by (simp add: frame_byte_def moved_up_but_one_def mixed_bytes)
  qed
next
  case False
  then have "i \<noteq> 742399" by (auto simp: point_of_def)
  moreover have "frame_byte (moved_up_but_one f) i = frame_byte (moved_up f) i"
    using False by (simp add: frame_byte_def moved_up_but_one_def)
  ultimately show ?thesis by (auto simp: frame_byte_moved)
qed

definition frame_bytes :: "(nat \<times> nat \<Rightarrow> 16 word) \<Rightarrow> u8 list" where
  "frame_bytes f = map (frame_byte f) [0..<768000]"

lemma frame_bytes_length [simp]: "length (frame_bytes f) = 768000"
  unfolding frame_bytes_def length_map length_upt by simp

lemma frame_bytes_nth: "i < 768000 \<Longrightarrow> frame_bytes f ! i = frame_byte f i"
  using nth_map_upt[of i 768000 0 "frame_byte f"] unfolding frame_bytes_def by (simp del: upt_rec_numeral)

text \<open>What a copy routine sees of the frame buffer.\<close>

lemma frame_blocks:
  assumes pic: "picture v p f"
  defines "X \<equiv> frame_bytes f"
  shows "bytes_at (vmem v) (p + 25600) (drop 25600 X)" "bytes_at (vmem v) p (take 742400 X)"
    "length (drop 25600 X) = 742400" "length (take 742400 X) = 742400" "unat p \<le> unat (p + 25600)"
    "aligned p" "aligned (p + 25600)"
proof -
  note P = picture_place(1-3)[OF pic]
  have "bytes_at (vmem v) p X"
    by (rule bytes_at_nth) (use picture_bytes[OF pic] P in \<open>simp_all add: X_def frame_bytes_nth\<close>)
  then have *: "bytes_at (vmem v) p (take 25600 X @ drop 25600 X)" "bytes_at (vmem v) p (take 742400 X @ drop 742400 X)" by simp_all
  show l: "length (drop 25600 X) = 742400" "length (take 742400 X) = 742400" by (simp_all add: X_def)
  have "length (take 25600 X) = 25600" by (simp add: X_def)
  then show "bytes_at (vmem v) (p + 25600) (drop 25600 X)" "bytes_at (vmem v) p (take 742400 X)"
    using *(1) *(2) unfolding bytes_at_append by simp_all
  have "unat (p + of_nat 25600) = unat p + 25600" using P(3) by (intro unat_add_of_nat) simp
  then show "unat p \<le> unat (p + 25600)" by simp
  show "aligned p" "aligned (p + 25600)" using P(2) aligned_add[of p 25600] by (simp_all add: aligned_def)
qed

lemma set_position_simps [simp]:
  "picture (set_position x y v) p f = picture v p f" "vmem (set_position x y v) = vmem v"
  "screen_consts (screen (set_position x y v)) = screen_consts (screen v)"
  "x_position (screen (set_position x y v)) = x" "y_position (screen (set_position x y v)) = y"
  by (simp_all add: set_position_def picture_def screen_consts_def)

text \<open>On a line above the last one the cursor goes down.\<close>

lemma new_line_down:
  assumes "screen_consts (screen v)" "y_position (screen v) = of_nat (16 * j)" "j < 29"
  shows "new_line_with copy v = Some (set_position 0 (of_nat (16 * (j + 1))) v)"
proof -
  have y1: "y_position (screen v) + 16 = of_nat (16 * (j + 1))" using assms(2) by simp
  have y2: "y_position (screen v) + 32 = of_nat (16 * (j + 2))" using assms(2) by simp
  have "sint (of_nat (16 * (j + 2)) :: u32) = int (16 * (j + 2))" using assms(3) by (intro sint_small) simp
  moreover have "int (16 * (j + 2)) \<le> 480" using assms(3) by simp
  ultimately have "\<not> sint (y_position (screen v) + 32) > 480" unfolding y2 by (simp only: not_less)
  then show ?thesis
    unfolding y1[symmetric] using assms(1) by (simp add: new_line_with_def screen_consts_def Let_def add.commute)
qed

text \<open>On the last line the picture moves up and the line is cleared.\<close>

lemma new_line_scroll:
  assumes pic: "picture v p f" and sc: "screen_consts (screen v)" and y: "y_position (screen v) = 464"
    and copy: "copy (p + 25600) p 742400 (vmem v) =
        Some (put (vmem v) p (take n (drop 25600 (frame_bytes f))))"
    and n: "n \<le> 742400"
    and g: "\<And>i. i < 768000 \<Longrightarrow> frame_byte g i = (if i < n then frame_byte f (i + 25600) else frame_byte f i)"
  shows "\<exists>m. new_line_with copy v = Some (set_position 0 464 (v\<lparr>vmem := m\<rparr>)) \<and>
     picture (v\<lparr>vmem := m\<rparr>) p (paint (rect 0 464 800 16) 0 g) \<and> only_frame p (vmem v) m"
proof -
  let ?X = "frame_bytes f" let ?Z = "take n (drop 25600 ?X)" let ?m = "put (vmem v) p ?Z"
  note P = picture_place(1-3)[OF pic]
  have lz: "length ?Z = n" using n by simp
  have in_span: "p + of_nat i \<in> span p n \<longleftrightarrow> i < n" if "i < 768000" for i
    using in_span_iff[of p n "p + of_nat i"] frame_addr(1)[OF P(3) that] P(3) n by auto
  have "?m (p + of_nat i) = Some (frame_byte g i)" if i: "i < 768000" for i
  proof (cases "i < n")
    case True
    then have "?Z ! i = frame_byte f (i + 25600)" using n i by (simp add: frame_bytes_nth add.commute)
    moreover have "?m (p + of_nat i) = Some (?Z ! i)" by (rule put_nth) (use P(3) n lz True in simp_all)
    ultimately show ?thesis using g[OF i] True by simp
  next
    case False
    then have "?m (p + of_nat i) = vmem v (p + of_nat i)" using in_span[OF i] lz by (intro put_other) simp
    then show ?thesis using picture_bytes[OF pic i] g[OF i] False by simp
  qed
  then have pm: "picture (v\<lparr>vmem := ?m\<rparr>) p g" by (rule picture_from_bytes[OF pic])
  have om: "only_frame p (vmem v) ?m"
  proof -
    have "span p n \<subseteq> span p 768000" using n by (auto simp: span_def)
    then show ?thesis using put_other[of _ p ?Z "vmem v"] lz by (auto simp: only_frame_def)
  qed
  obtain fb where fb: "framebuffer v = Some fb" "gpu_pointer fb = p" by (rule pictureD[OF pic])
  have "screen_consts (screen (v\<lparr>vmem := ?m\<rparr>))" using sc by simp
  from clean_row_painted[OF pm this, of 464] obtain v' where v': "video_clean_row 464 (v\<lparr>vmem := ?m\<rparr>) = Some v'"
     "painted (v\<lparr>vmem := ?m\<rparr>) v' p g (rect 0 464 800 16) 0" by auto
  have "v' = v\<lparr>vmem := ?m\<rparr>\<lparr>vmem := vmem v'\<rparr>" and pic': "picture v' p (paint (rect 0 464 800 16) 0 g)"
    and "only_frame p (vmem (v\<lparr>vmem := ?m\<rparr>)) (vmem v')"
    using v'(2) unfolding painted_def by blast+
  then have eq: "v\<lparr>vmem := vmem v'\<rparr> = v'" and om': "only_frame p ?m (vmem v')" by simp_all
  have bpp: "bytes_per_pixel (screen v) = 2"
    using sc by (simp add: bytes_per_pixel_def screen_consts_def BYTE_def)
  have total: "p + 768000 - (p + 25600) = (742400 :: u32)" by simp
  have "new_line_with copy v = Some (set_position 0 464 v')"
    using sc y fb copy v'(1) bpp total by (simp add: new_line_with_def screen_consts_def on_vmem_def Let_def)
  then show ?thesis using pic' only_frame_trans[OF om om'] by (intro exI[of _ "vmem v'"]) (simp add: eq)
qed

section \<open>The cursor\<close>

text \<open>What every operation on the screen keeps.\<close>

definition video_ok :: "video \<Rightarrow> addr \<Rightarrow> (nat \<times> nat \<Rightarrow> 16 word) \<Rightarrow> nat \<Rightarrow> nat \<Rightarrow> bool" where
  "video_ok v p f i j \<longleftrightarrow> picture v p f \<and> screen_consts (screen v) \<and> i < 100 \<and> j < 30 \<and>
     x_position (screen v) = of_nat (8 * i) \<and> y_position (screen v) = of_nat (16 * j)"

text \<open>The picture after a new line on line \<open>j\<close>.\<close>

definition after_line :: "nat \<Rightarrow> (nat \<times> nat \<Rightarrow> 16 word) \<Rightarrow> nat \<times> nat \<Rightarrow> 16 word" where
  "after_line j f = (if j < 29 then f else paint (rect 0 464 800 16) 0 (moved_up_but_one f))"

lemma video_new_line_ok:
  assumes ok: "video_ok v p f i j"
  shows "\<exists>m. video_new_line v = Some (set_position 0 (of_nat (16 * min (j + 1) 29)) (v\<lparr>vmem := m\<rparr>)) \<and>
     picture (v\<lparr>vmem := m\<rparr>) p (after_line j f) \<and> only_frame p (vmem v) m"
proof -
  have pic: "picture v p f" and sc: "screen_consts (screen v)" and y: "y_position (screen v) = of_nat (16 * j)" and j: "j < 30"
    using ok by (simp_all add: video_ok_def)
  have nl: "video_new_line v = new_line_with memory_fastest_copy v"
    by (simp add: video_new_line_def VIDEO_MEMORY_COPY_METHOD_def video_new_line_fastest_def)
  show ?thesis
  proof (cases "j < 29")
    case True
    have "video_new_line v = Some (set_position 0 (of_nat (16 * min (j + 1) 29)) (v\<lparr>vmem := vmem v\<rparr>))"
      unfolding nl using new_line_down[OF sc y True] True by simp
    moreover have "picture (v\<lparr>vmem := vmem v\<rparr>) p (after_line j f)" using pic True by (simp add: after_line_def)
    ultimately show ?thesis by (intro exI[of _ "vmem v"]) simp
  next
    case False
    then have j29: "j = 29" using j by simp
    note B = frame_blocks[OF pic]
    have l: "length (take 742400 (frame_bytes f)) = length (drop 25600 (frame_bytes f))" unfolding B(3,4) ..
    have sz: "length (drop 25600 (frame_bytes f)) = unat (742400 :: u32)" unfolding B(3) by simp
    have "length (drop 25600 (frame_bytes f)) - 1 = 742399" unfolding B(3) by simp
    then have "butlast (drop 25600 (frame_bytes f)) = take 742399 (drop 25600 (frame_bytes f))"
      unfolding butlast_conv_take by (rule arg_cong)
    then have c: "memory_fastest_copy (p + 25600) p 742400 (vmem v) =
        Some (put (vmem v) p (take 742399 (drop 25600 (frame_bytes f))))"
      using memory_fastest_copy_eq[OF B(1,2) l B(5) sz B(7,6)] by (simp only:)
    have "y_position (screen v) = 464" using y j29 by simp
    have "\<exists>m. new_line_with memory_fastest_copy v = Some (set_position 0 464 (v\<lparr>vmem := m\<rparr>)) \<and>
       picture (v\<lparr>vmem := m\<rparr>) p (paint (rect 0 464 800 16) 0 (moved_up_but_one f)) \<and> only_frame p (vmem v) m"
    proof (rule new_line_scroll[OF pic sc, where n = 742399])
      show "y_position (screen v) = 464" using y j29 by simp
      show "frame_byte (moved_up_but_one f) i = (if i < 742399 then frame_byte f (i + 25600) else frame_byte f i)"
        if "i < 768000" for i by (rule frame_byte_moved_but_one[OF that])
    qed (rule c, simp)
    then show ?thesis unfolding nl using j29 by (simp add: after_line_def)
  qed
qed

text \<open>The point of a character cell, and the picture after a character at column \<open>i\<close> and line \<open>j\<close>.\<close>

definition with_character :: "(nat \<Rightarrow> u8) \<Rightarrow> u8 \<Rightarrow> nat \<Rightarrow> nat \<Rightarrow> 16 word \<Rightarrow> (nat \<times> nat \<Rightarrow> 16 word) \<Rightarrow> nat \<times> nat \<Rightarrow> 16 word" where
  "with_character bm c i j colour f =
     paint (if c > 0x7F then {} else glyph bm (unat c) (8 * i) (16 * j) 16) colour (paint (rect (8 * i) (16 * j) 8 16) 0 f)"

lemma draw_cell:
  assumes ok: "video_ok v p f i j"
  shows "\<exists>m. do { v \<leftarrow> video_clean_character (x_position (screen v)) (y_position (screen v)) v;
                 DrawCharacter c (x_position (screen v)) (y_position (screen v)) v } = Some (v\<lparr>vmem := m\<rparr>) \<and>
     picture (v\<lparr>vmem := m\<rparr>) p (with_character (font v) c i j (foreColour v) f) \<and> only_frame p (vmem v) m"
proof -
  have pic: "picture v p f" and sc: "screen_consts (screen v)" and ij: "i < 100" "j < 30"
    and x: "x_position (screen v) = of_nat (8 * i)" and y: "y_position (screen v) = of_nat (16 * j)"
    using ok by (simp_all add: video_ok_def)
  have b: "8 * i + 8 \<le> 800" "16 * j + 16 \<le> 480" using ij by simp_all
  obtain v1 where v1: "video_clean_character (of_nat (8 * i)) (of_nat (16 * j)) v = Some v1"
     "painted v v1 p f (rect (8 * i) (16 * j) 8 16) 0" using clean_character_painted[OF pic sc b] by blast
  have 1: "v1 = v\<lparr>vmem := vmem v1\<rparr>" "picture v1 p (paint (rect (8 * i) (16 * j) 8 16) 0 f)" "only_frame p (vmem v) (vmem v1)"
    using v1(2) unfolding painted_def by blast+
  obtain v2 where v2: "DrawCharacter c (of_nat (8 * i)) (of_nat (16 * j)) v1 = Some v2"
     "painted v1 v2 p (paint (rect (8 * i) (16 * j) 8 16) 0 f)
        (if c > 0x7F then {} else glyph (font v1) (unat c) (8 * i) (16 * j) 16) (foreColour v1)"
    using DrawCharacter_painted[OF 1(2) b] by blast
  note 2 = v2(2)[unfolded painted_screen(2,3)[OF v1(2)] painted_def, folded with_character_def]
  have eq: "v2 = v\<lparr>vmem := vmem v2\<rparr>" by (subst conjunct1[OF 2], subst 1(1)) simp
  have "do { v \<leftarrow> video_clean_character (x_position (screen v)) (y_position (screen v)) v;
             DrawCharacter c (x_position (screen v)) (y_position (screen v)) v } = Some v2"
    using v1(1) v2(1) painted_screen(1)[OF v1(2)] by (simp add: x y)
  moreover have "picture v2 p (with_character (font v) c i j (foreColour v) f)" "only_frame p (vmem v) (vmem v2)"
    by (rule conjunct1[OF conjunct2[OF 2]], rule only_frame_trans[OF 1(3) conjunct2[OF conjunct2[OF 2]]])
  ultimately show ?thesis by (intro exI[of _ "vmem v2"]) (simp only: eq[symmetric])
qed

lemma put_character_ok:
  assumes ok: "video_ok v p f i j"
  shows "\<exists>m. put_character c v = Some (set_position
       (of_nat (8 * (if c = 10 \<or> i = 99 then 0 else i + 1)))
       (of_nat (16 * (if c = 10 \<or> i = 99 then min (j + 1) 29 else j))) (v\<lparr>vmem := m\<rparr>)) \<and>
     picture (v\<lparr>vmem := m\<rparr>) p
       (let f' = (if c = 10 then f else with_character (font v) c i j (foreColour v) f)
        in if c = 10 \<or> i = 99 then after_line j f' else f') \<and> only_frame p (vmem v) m"
proof (cases "c = 10")
  case True
  then show ?thesis using video_new_line_ok[OF ok] by (simp add: put_character_def)
next
  case False
  obtain m where m: "do { v \<leftarrow> video_clean_character (x_position (screen v)) (y_position (screen v)) v;
                 DrawCharacter c (x_position (screen v)) (y_position (screen v)) v } = Some (v\<lparr>vmem := m\<rparr>)"
     "picture (v\<lparr>vmem := m\<rparr>) p (with_character (font v) c i j (foreColour v) f)" "only_frame p (vmem v) m"
    using draw_cell[OF ok] by blast
  let ?v = "v\<lparr>vmem := m\<rparr>"
  have put: "put_character c v = video_calculate_new_position ?v"
    using m(1) False by (simp add: put_character_def bind_assoc[symmetric] del: bind_assoc)
  have ok': "video_ok ?v p (with_character (font v) c i j (foreColour v) f) i j"
    using ok m(2) by (simp add: video_ok_def)
  have sc: "screen_consts (screen v)" and i: "i < 100" and x: "x_position (screen v) = of_nat (8 * i)"
    and y: "y_position (screen v) = of_nat (16 * j)" using ok by (simp_all add: video_ok_def)
  have nx: "x_position (screen v) + 8 = of_nat (8 * (i + 1))" using x by simp
  have x2: "x_position (screen v) + 16 = of_nat (8 * (i + 2))" using x by simp
  have sx: "sint (x_position (screen v) + 16) = int (8 * (i + 2))" unfolding x2 using i by (intro sint_small) simp
  show ?thesis
  proof (cases "i = 99")
    case True
    have "put_character c v = video_new_line ?v"
      unfolding put video_calculate_new_position_def using sc sx True by (simp add: screen_consts_def Let_def add.commute)
    then obtain m' where m': "put_character c v = Some (set_position 0 (of_nat (16 * min (j + 1) 29)) (v\<lparr>vmem := m'\<rparr>))"
       "picture (v\<lparr>vmem := m'\<rparr>) p (after_line j (with_character (font v) c i j (foreColour v) f))" "only_frame p m m'"
      using video_new_line_ok[OF ok'] by auto
    then show ?thesis
      using True False only_frame_trans[OF m(3) m'(3)] by (intro exI[of _ m']) simp
  next
    case ne: False
    have "put_character c v = Some (set_position (of_nat (8 * (i + 1))) (of_nat (16 * j)) ?v)"
      unfolding put video_calculate_new_position_def nx[symmetric] y[symmetric]
      using sc sx ne i by (simp add: screen_consts_def Let_def add.commute)
    then show ?thesis using False ne m(2,3) by (intro exI[of _ m]) simp
  qed
qed

end
