(* ===== verification/Kernel_Video_Spec.thy ===== *)
theory Kernel_Video_Spec
  imports Kernel_Video_Rep
begin

text \<open>The properties of the screen and of the copy routines, with an example.\<close>

section \<open>The other ways to scroll\<close>

lemma full_copy_scrolls:
  assumes ok: "video_ok v p f i 29" and copy: "copy (p + 25600) p 742400 (vmem v) = Some (put (vmem v) p (drop 25600 (frame_bytes f)))"
  shows "\<exists>m. new_line_with copy v = Some (set_position 0 464 (v\<lparr>vmem := m\<rparr>)) \<and>
     picture (v\<lparr>vmem := m\<rparr>) p (paint (rect 0 464 800 16) 0 (moved_up f)) \<and> only_frame p (vmem v) m"
proof -
  have pic: "picture v p f" and sc: "screen_consts (screen v)" and y: "y_position (screen v) = of_nat (16 * 29)"
    using ok by (simp_all add: video_ok_def)
  have "length (drop 25600 (frame_bytes f)) = 742400" by (rule frame_blocks(3)[OF pic])
  then have "take 742400 (drop 25600 (frame_bytes f)) = drop 25600 (frame_bytes f)" by (metis order_refl take_all)
  then have c: "copy (p + 25600) p 742400 (vmem v) = Some (put (vmem v) p (take 742400 (drop 25600 (frame_bytes f))))"
    using copy by simp
  show ?thesis
  proof (rule new_line_scroll[OF pic sc, where n = 742400])
    show "y_position (screen v) = 464" using y by simp
    show "frame_byte (moved_up f) i = (if i < 742400 then frame_byte f (i + 25600) else frame_byte f i)" if "i < 768000" for i
      by (rule frame_byte_moved)
  qed (rule c, simp)
qed

lemma move_bytes_frame:
  assumes "picture v p f"
  shows "move_bytes 742400 (p + 25600) p (vmem v) = Some (put (vmem v) p (drop 25600 (frame_bytes f)))"
  using all_bytes.loop_all[OF frame_blocks(1,2)[OF assms], of 742400] frame_blocks(3-5)[OF assms] by simp

lemma move_words_frame:
  assumes "picture v p f"
  shows "move_words (word_of_int (sint (742400 :: u32) sdiv 4)) (p + 25600) p (vmem v) =
     Some (put (vmem v) p (drop 25600 (frame_bytes f)))"
proof -
  have "sint (of_nat 742400 :: u32) = 742400" using sint_small[of 742400] by simp
  then have e: "sint (742400 :: u32) = 742400" by simp
  have d: "(742400 :: int) sdiv 4 = 185600" by (simp add: signed_divide_int_def)
  then have "word_of_int (sint (742400 :: u32) sdiv 4) = (of_nat 185600 :: u32)" unfolding e d by simp
  then show ?thesis
    using all_words.loop_all[OF frame_blocks(1,2)[OF assms], of 185600] frame_blocks(3-7)[OF assms] by simp
qed

section \<open>A concrete screen\<close>

text \<open>A black screen at \<open>0x100000\<close>, the cursor on the last line; every character is a vertical bar.\<close>

definition ex_video :: video where
  "ex_video = set_position 0 464 (video_init (SetGraphicsAddress
     (Some \<lparr>fb_width = 800, fb_height = 480, gpu_pointer = 0x100000\<rparr>)
     \<lparr>screen = undefined, framebuffer = None, graphicsAddress = None, foreColour = 0xFFFF,
      vmem = (\<lambda>_. Some 0), font = (\<lambda>_. 0x18)\<rparr>))"

lemma ex_video_ok: "video_ok ex_video 0x100000 (\<lambda>_. 0) 0 29"
  by (simp add: video_ok_def picture_def screen_consts_def ex_video_def set_position_def video_init_def SetGraphicsAddress_def
      GetGraphicsAddress_def aligned_def SCREEN_RESOLUTION_WIDTH_def SCREEN_RESOLUTION_HEIGHT_def SCREEN_PIXEL_SIZE_def
      SCREEN_FONT_HEIGHT_def SCREEN_FONT_WIDTH_def)

section \<open>The cursor after a character\<close>

lemma video_ok_moved:
  assumes "video_ok v p f i j" "picture (v\<lparr>vmem := m\<rparr>) p g" "k < 100" "l < 30"
  shows "video_ok (set_position (of_nat (8 * k)) (of_nat (16 * l)) (v\<lparr>vmem := m\<rparr>)) p g k l"
  using assms unfolding video_ok_def set_position_simps by simp

lemma video_moved:
  assumes "only_frame p (vmem v) m"
  shows "foreColour (set_position x y (v\<lparr>vmem := m\<rparr>)) = foreColour v" "font (set_position x y (v\<lparr>vmem := m\<rparr>)) = font v"
    "\<forall>q. q \<notin> span p 768000 \<longrightarrow> vmem (set_position x y (v\<lparr>vmem := m\<rparr>)) q = vmem v q"
  using assms by (simp_all add: set_position_def only_frame_def)

lemma with_character_at:
  "with_character bm c i j col f (x, y) =
     (if 8 * i \<le> x \<and> x < 8 * i + 8 \<and> 16 * j \<le> y \<and> y < 16 * j + 16 then
        (if c \<le> 0x7F \<and> bit (bm (16 * unat c + (y - 16 * j))) (x - 8 * i) then col else 0)
      else f (x, y))"
  by (auto simp: with_character_def paint_def glyph_def rect_def not_less)

section \<open>Properties\<close>

text \<open>C27: every character keeps the shape of the screen's state: the constants of the screen, the
  cursor in one of 100 columns and 30 lines, a mapped frame buffer.  No access fails, and no byte
  outside the frame buffer is written, also when the picture scrolls.\<close>

theorem video_keeps_shape:
  assumes "video_ok v p f i j"
  shows "\<exists>v' f' i' j'. put_character c v = Some v' \<and> video_ok v' p f' i' j' \<and>
     foreColour v' = foreColour v \<and> font v' = font v \<and> (\<forall>q. q \<notin> span p 768000 \<longrightarrow> vmem v' q = vmem v q)"
proof -
  let ?i = "if c = 10 \<or> i = 99 then 0 else i + 1" let ?j = "if c = 10 \<or> i = 99 then min (j + 1) 29 else j"
  let ?f = "let f' = (if c = 10 then f else with_character (font v) c i j (foreColour v) f)
            in if c = 10 \<or> i = 99 then after_line j f' else f'"
  obtain m where m: "put_character c v = Some (set_position (of_nat (8 * ?i)) (of_nat (16 * ?j)) (v\<lparr>vmem := m\<rparr>))"
     "picture (v\<lparr>vmem := m\<rparr>) p ?f" "only_frame p (vmem v) m"
    using put_character_ok[OF assms, of c] by (elim exE conjE) (rule that)
  have ij: "?i < 100" "?j < 30" using assms by (auto simp: video_ok_def)
  have "video_ok (set_position (of_nat (8 * ?i)) (of_nat (16 * ?j)) (v\<lparr>vmem := m\<rparr>)) p ?f ?i ?j"
    by (rule video_ok_moved[OF assms m(2) ij])
  then show ?thesis using m(1) video_moved[OF m(3)] by (intro exI conjI)
qed

theorem video_keeps_shape_witness:
  "\<exists>v f i j. put_character 65 ex_video = Some v \<and> video_ok v 0x100000 f i j"
  using video_keeps_shape[OF ex_video_ok, of 65] by (elim exE conjE) (intro exI conjI)

text \<open>C25: a character that is not a new line clears its cell of 8 by 16 points and draws its bitmap in
  the current colour, bit \<open>j\<close> of a line in column \<open>j\<close>; all other points stay, and the cursor moves
  one column on.\<close>

theorem putc_draws_cell:
  assumes "video_ok v p f i j" "c \<noteq> 10" "i < 99"
  shows "\<exists>v' f'. put_character c v = Some v' \<and> video_ok v' p f' (i + 1) j \<and>
     (\<forall>x y. f' (x, y) =
        (if 8 * i \<le> x \<and> x < 8 * i + 8 \<and> 16 * j \<le> y \<and> y < 16 * j + 16 then
           (if c \<le> 0x7F \<and> bit (font v (16 * unat c + (y - 16 * j))) (x - 8 * i) then foreColour v else 0)
         else f (x, y)))"
proof -
  let ?f = "with_character (font v) c i j (foreColour v) f"
  have e: "(c = 10) = False" "(i = 99) = False" using assms(2,3) by simp_all
  obtain m where m: "put_character c v = Some (set_position (of_nat (8 * (i + 1))) (of_nat (16 * j)) (v\<lparr>vmem := m\<rparr>))"
     "picture (v\<lparr>vmem := m\<rparr>) p ?f"
    using put_character_ok[OF assms(1), of c] unfolding e simp_thms if_False Let_def by (elim exE conjE) (rule that)
  have "video_ok (set_position (of_nat (8 * (i + 1))) (of_nat (16 * j)) (v\<lparr>vmem := m\<rparr>)) p ?f (i + 1) j"
    by (rule video_ok_moved[OF assms(1) m(2)]) (use assms(1,3) in \<open>simp_all add: video_ok_def\<close>)
  then show ?thesis using m(1) with_character_at[of "font v" c i j "foreColour v" f] by (intro exI conjI allI)
qed

theorem putc_draws_cell_witness:
  "\<exists>v f. put_character 65 ex_video = Some v \<and> video_ok v 0x100000 f 1 29 \<and> f (3, 470) = 0xFFFF \<and> f (2, 470) = 0"
proof -
  have e: "font ex_video n = 0x18" "foreColour ex_video = 0xFFFF" for n
    by (simp_all add: ex_video_def set_position_def video_init_def SetGraphicsAddress_def)
  have 1: "(65 :: u8) \<noteq> 10" "(0 :: nat) < 99" by simp_all
  obtain v f where v: "put_character 65 ex_video = Some v" "video_ok v 0x100000 f (0 + 1) 29"
     "\<forall>x y. f (x, y) =
        (if 8 * 0 \<le> x \<and> x < 8 * 0 + 8 \<and> 16 * 29 \<le> y \<and> y < 16 * 29 + 16 then
           (if (65 :: u8) \<le> 0x7F \<and> bit (font ex_video (16 * unat (65 :: u8) + (y - 16 * 29))) (x - 8 * 0) then foreColour ex_video else 0)
         else 0)"
    using putc_draws_cell[OF ex_video_ok 1] by (elim exE conjE) (rule that)
  have "f (3, 470) = 0xFFFF" "f (2, 470) = 0" using v(3) e by (simp_all add: word_le_nat_alt)
  then show ?thesis using v(1,2) by (intro exI[of _ v] exI[of _ f]) simp
qed

text \<open>C26: a new line on the last line moves the picture up by the height of a character and clears the
  last line.  With the copy loops of methods 2 and 3 (words, bytes) every point moves.  With
  method 0, the one in use, one byte stays behind: the last point above the cleared line gets only
  its low byte.\<close>

theorem new_line_scrolls:
  assumes "video_ok v p f i 29"
  shows "(\<exists>v'. video_new_line_slowest v = Some v' \<and> video_ok v' p (paint (rect 0 464 800 16) 0 (moved_up f)) 0 29) \<and>
     (\<exists>v'. video_new_line_slower v = Some v' \<and> video_ok v' p (paint (rect 0 464 800 16) 0 (moved_up f)) 0 29) \<and>
     (\<exists>v'. video_new_line v = Some v' \<and> video_ok v' p (paint (rect 0 464 800 16) 0 ((moved_up f)
             ((799, 463) := mixed (f (799, 479)) (f (799, 463))))) 0 29)"
proof -
  have "picture v p f" using assms by (simp add: video_ok_def)
  note full = full_copy_scrolls[OF assms, where copy = "\<lambda>src dest total m. move_bytes total src dest m", OF move_bytes_frame[OF this]]
    full_copy_scrolls[OF assms, where copy = "\<lambda>src dest total m. move_words (word_of_int (sint total sdiv 4)) src dest m",
      OF move_words_frame[OF this]]
  have 0: "\<exists>v'. g v = Some v' \<and> video_ok v' p h 0 29"
    if H: "\<exists>m. g v = Some (set_position 0 464 (v\<lparr>vmem := m\<rparr>)) \<and> picture (v\<lparr>vmem := m\<rparr>) p h \<and> only_frame p (vmem v) m" for g h
  proof -
    obtain m where m: "g v = Some (set_position 0 464 (v\<lparr>vmem := m\<rparr>))" "picture (v\<lparr>vmem := m\<rparr>) p h"
      using H by (elim exE conjE) (rule that)
    then show ?thesis using video_ok_moved[OF assms m(2), of 0 29] by (intro exI conjI) simp_all
  qed
  have "\<exists>m. video_new_line v = Some (set_position 0 464 (v\<lparr>vmem := m\<rparr>)) \<and>
     picture (v\<lparr>vmem := m\<rparr>) p (paint (rect 0 464 800 16) 0 ((moved_up f)
             ((799, 463) := mixed (f (799, 479)) (f (799, 463))))) \<and> only_frame p (vmem v) m"
    using video_new_line_ok[OF assms] by (simp add: after_line_def moved_up_but_one_def)
  then show ?thesis
    unfolding video_new_line_slowest_def video_new_line_slower_def by (intro conjI 0 full)
qed

theorem new_line_scrolls_witness:
  "\<exists>v. video_new_line ex_video = Some v \<and> x_position (screen v) = 0 \<and> y_position (screen v) = 464"
proof -
  obtain v g where v: "video_new_line ex_video = Some v" "video_ok v 0x100000 g 0 29"
    using new_line_scrolls[OF ex_video_ok] by (elim exE conjE) (rule that)
  have "x_position (screen v) = 0" "y_position (screen v) = 464"
    using v(2) unfolding video_ok_def by (elim conjE, simp)+
  then show ?thesis using v(1) by (intro exI[of _ v] conjI)
qed

end
