(* ===== verification/Kernel_Console_Spec.thy ===== *)
theory Kernel_Console_Spec
  imports Kernel_Console Kernel_Video_Spec Kernel_Stdio_Spec Kernel_Page_Rep
begin

text \<open>
  The properties of the console: the output functions show their text on the screen, also when
  the thread holds the lock of the console already, and they wait for a thread that holds it.
\<close>

section \<open>Text on the screen\<close>

primrec show_text :: "u8 list \<Rightarrow> video \<Rightarrow> video option" where
  "show_text [] v = Some v"
| "show_text (c # cs) v = do { v \<leftarrow> put_character c v; show_text cs v }"

text \<open>\<open>shown cs s\<close>: the console \<open>s\<close> after the output of \<open>cs\<close>.\<close>

definition shown :: "u8 list \<Rightarrow> console \<Rightarrow> console option" where
  "shown cs s = map_option (\<lambda>v. s\<lparr>scr := v, write_cnt := write_cnt s + of_nat (length cs)\<rparr>) (show_text cs (scr s))"

lemma shown_Nil: "shown [] s = Some s"
  by (simp add: shown_def)

lemma shown_Cons: "shown (c # cs) s = do { s \<leftarrow> shown [c] s; shown cs s }"
  by (cases "put_character c (scr s)") (auto simp: shown_def add.assoc intro!: option.map_cong0)

lemma shown_append: "shown (cs @ ds) s = do { s \<leftarrow> shown cs s; shown ds s }"
proof (induction cs arbitrary: s)
  case (Cons c cs)
  have "shown (c # cs @ ds) s = do { s \<leftarrow> shown [c] s; shown (cs @ ds) s }" by (rule shown_Cons)
  also have "\<dots> = do { s \<leftarrow> do { s \<leftarrow> shown [c] s; shown cs s }; shown ds s }" unfolding Cons.IH by simp
  also have "\<dots> = do { s \<leftarrow> shown (c # cs) s; shown ds s }" unfolding shown_Cons[of c cs] ..
  finally show ?case by simp
qed (simp add: shown_Nil)

lemma show_text_ok: "video_ok v p f i j \<Longrightarrow> \<exists>v' f' i' j'. show_text cs v = Some v' \<and> video_ok v' p f' i' j'"
proof (induction cs arbitrary: v f i j)
  case (Cons c cs)
  let ?i = "if c = 10 \<or> i = 99 then 0 else i + 1" let ?j = "if c = 10 \<or> i = 99 then min (j + 1) 29 else j"
  let ?f = "let f' = (if c = 10 then f else with_character (font v) c i j (foreColour v) f)
            in if c = 10 \<or> i = 99 then after_line j f' else f'"
  obtain m where m: "put_character c v = Some (set_position (of_nat (8 * ?i)) (of_nat (16 * ?j)) (v\<lparr>vmem := m\<rparr>))"
     "picture (v\<lparr>vmem := m\<rparr>) p ?f"
    using put_character_ok[OF Cons.prems, of c] by (elim exE conjE) (rule that)
  have ij: "?i < 100" "?j < 30" using Cons.prems by (auto simp: video_ok_def)
  from Cons.IH[OF video_ok_moved[OF Cons.prems m(2) ij]] show ?case unfolding show_text.simps m(1) by simp
qed auto

section \<open>Inside the console\<close>

abbreviation locked :: "console \<Rightarrow> bool" where
  "locked s \<equiv> console_locked_by_current_thread s = Some True"

lemma locked_shown: "shown cs s = Some s' \<Longrightarrow> locked s' = locked s"
  by (auto simp: shown_def console_locked_by_current_thread_def)

lemma putchar_have_lock_eq: "locked s \<Longrightarrow> putchar_have_lock c s = shown [c] s"
  using restore_level[of "kern s"]
  by (cases "put_character c (scr s)")
    (simp_all add: putchar_have_lock_def video_putc_def serial_putc_def disable_eq shown_def)

text \<open>Output of one character after the other.\<close>

lemma put_then:
  assumes "locked s" "\<And>s'. locked s' \<Longrightarrow> g s' = shown cs s'"
  shows "do { s \<leftarrow> putchar_have_lock c s; g s } = shown (c # cs) s"
  using assms(2) locked_shown[of "[c]" s] assms(1)
  by (cases "shown [c] s") (simp_all add: putchar_have_lock_eq[OF assms(1)] shown_Cons[of c cs])

lemma puts_loop_eq: "locked s \<Longrightarrow> cstr m a cs \<Longrightarrow> puts_loop a m s = shown cs s"
proof (induction cs arbitrary: a s)
  case Nil
  then show ?case by (subst puts_loop.simps) (simp add: cstr_Nil rd_def shown_Nil)
next
  case (Cons c cs)
  have t: "a \<noteq> 0" "m a = Some c" "c \<noteq> 0" "cstr m (a + 1) cs" using Cons.prems(2) by (simp_all add: cstr_Cons)
  have "do { s \<leftarrow> putchar_have_lock c s; puts_loop (a + 1) m s } = shown (c # cs) s"
    by (rule put_then[OF Cons.prems(1) Cons.IH[OF _ t(4)]])
  then show ?case using t(1-3) by (subst puts_loop.simps) (simp add: rd_def)
qed

lemma putbuf_loop_eq: "locked s \<Longrightarrow> bytes_at m a cs \<Longrightarrow> length cs = unat n \<Longrightarrow> putbuf_loop a n m s = shown cs s"
proof (induction cs arbitrary: a n s)
  case Nil
  then show ?case by (subst putbuf_loop.simps) (simp add: word_gt_0 unat_eq_zero shown_Nil)
next
  case (Cons c cs)
  have n: "n \<noteq> 0" "unat (n - 1) = length cs" using count_down[of "length cs" n] Cons.prems(3) by simp_all
  have t: "a \<noteq> 0" "m a = Some c" "bytes_at m (a + 1) cs" using Cons.prems(2) by simp_all
  have "do { s \<leftarrow> putchar_have_lock c s; putbuf_loop (a + 1) (n - 1) m s } = shown (c # cs) s"
    by (rule put_then[OF Cons.prems(1) Cons.IH[OF _ t(3)]]) (simp_all add: n(2))
  moreover have "do { s \<leftarrow> putchar_have_lock c s; putbuf_loop (a + 1) (n - 1) m s } = putbuf_loop a n m s"
    using n(1) t(1,2) by (subst (2) putbuf_loop.simps) (simp add: rd_def word_gt_0 split: option.split)
  ultimately show ?case by simp
qed

lemma output_helper:
  "locked s \<Longrightarrow> output_chars cs vprintf_helper (n, s) m = map_option (\<lambda>s. ((n + of_nat (length cs), s), m)) (shown cs s)"
proof (induction cs arbitrary: n s)
  case (Cons c cs)
  show ?case
  proof (cases "shown [c] s")
    case None
    then show ?thesis using putchar_have_lock_eq[OF Cons.prems, of c] by (simp add: vprintf_helper_def shown_Cons[of c cs])
  next
    case (Some s1)
    then show ?thesis
      using putchar_have_lock_eq[OF Cons.prems, of c] Cons.IH[of s1 "n + 1"] locked_shown[OF Some] Cons.prems
      by (simp add: vprintf_helper_def shown_Cons[of c cs] add.assoc)
  qed
qed (simp add: shown_Nil)

section \<open>Entering and leaving\<close>

text \<open>
  \<open>enters s s1\<close>: \<open>acquire_console\<close> leads from \<open>s\<close> to \<open>s1\<close> at once, and \<open>release_console\<close> leads back from
  \<open>s1\<close>, whatever has been output in between.
\<close>

definition leaves :: "console \<Rightarrow> console \<Rightarrow> bool" where
  "leaves s1 s \<longleftrightarrow> locked s1 \<and> scr s1 = scr s \<and> write_cnt s1 = write_cnt s \<and>
     (\<forall>v n. release_console (s1\<lparr>scr := v, write_cnt := n\<rparr>) = Some (s\<lparr>scr := v, write_cnt := n\<rparr>))"

definition enters :: "console \<Rightarrow> console \<Rightarrow> bool" where
  "enters s s1 \<longleftrightarrow> acquire_console s = Some (Done 0, s1) \<and> leaves s1 s"

lemma leave_shown:
  assumes "leaves s1 s"
  shows "do { s \<leftarrow> shown cs s1; release_console s } = shown cs s"
  using assms by (cases "show_text cs (scr s)") (simp_all add: leaves_def shown_def)

lemma enters_unlocked:
  assumes "interrupts_context (kern s) \<or> \<not> use_console_lock s"
  shows "enters s s"
  using assms by (auto simp: enters_def leaves_def acquire_console_def release_console_def console_locked_by_current_thread_def)

lemma enters_nested:
  assumes "\<not> interrupts_context (kern s)" "use_console_lock s" "lock_held_by_current_thread (console_lock s) (kern s) = Some True"
    "0 \<le> sint (console_lock_depth s)" "sint (console_lock_depth s) < 2 ^ 31 - 1"
  shows "enters s (s\<lparr>console_lock_depth := console_lock_depth s + 1\<rparr>)"
proof -
  have "sint (console_lock_depth s + 1) = sint (console_lock_depth s) + 1"
    using assms(4,5) by (simp add: sint_word_ariths signed_take_bit_int_eq_self)
  then show ?thesis
    using assms by (simp add: enters_def leaves_def acquire_console_def release_console_def console_locked_by_current_thread_def)
qed

lemma leaves_hold:
  assumes "sched k L cur rs ts W" "lock_free k L (console_lock s)" "use_console_lock s" "console_lock_depth s = 0"
  shows "leaves (s\<lparr>kern := hold (console_lock s) cur k\<rparr>) (s\<lparr>kern := k\<rparr>)"
proof -
  have irq: "\<not> interrupts_context (hold (console_lock s) cur k)"
    using assms(1) by (simp add: sched_def sched_core_def interrupts_context_def hold_def)
  have s: "sched (hold (console_lock s) cur k) L cur rs ts W" using assms(1) by simp
  have "lock_held_by_current_thread (console_lock s) (hold (console_lock s) cur k) = Some True"
    using thread_current_sched[OF s] assms(2) by (simp add: lock_held_by_current_thread_def word_at_def lock_free_def)
  then show ?thesis
    using irq hold_release[OF assms(1,2)] assms(3,4)
    by (simp add: leaves_def release_console_def console_locked_by_current_thread_def)
qed

lemma enters_free:
  assumes "sched (kern s) L cur rs ts W" "lock_free (kern s) L (console_lock s)" "use_console_lock s" "console_lock_depth s = 0"
  shows "enters s (s\<lparr>kern := hold (console_lock s) cur (kern s)\<rparr>)"
proof -
  have irq: "\<not> interrupts_context (kern s)" using assms(1) by (simp add: sched_def sched_core_def interrupts_context_def)
  have "cur \<noteq> NULL" using assms(1) by (simp add: sched_def sched_core_def thread_ok_def)
  then have "lock_held_by_current_thread (console_lock s) (kern s) = Some False"
    using thread_current_sched[OF assms(1)] assms(2) by (simp add: lock_held_by_current_thread_def word_at_def lock_free_def)
  then show ?thesis
    using irq hold_acquire[OF assms(1,2)] leaves_hold[OF assms] assms(3) by (simp add: enters_def acquire_console_def)
qed

section \<open>The rests of the output functions\<close>

text \<open>The text and the result of each function, given the memory it reads.\<close>

inductive prints :: "console_cont \<Rightarrow> u8 list \<Rightarrow> u32 \<Rightarrow> bool" where
  "printed lit m0 format args = Some cs \<Longrightarrow> m0 \<subseteq>\<^sub>m m \<Longrightarrow> prints (Vprintf_rest lit format args m) cs (of_nat (length cs))"
| "cstr m a cs \<Longrightarrow> prints (Puts_rest a m) (cs @ [10]) 0"
| "bytes_at m a cs \<Longrightarrow> length cs = unat n \<Longrightarrow> prints (Putbuf_rest a n m) cs 0"
| "prints (Putchar_rest c) [ucast c] c"

lemma rest_shown:
  assumes "prints c cs r" "leaves s1 s"
  shows "console_rest c s1 = map_option (\<lambda>s. (Returned r, s)) (shown cs s)"
proof -
  have l: "locked s1" using assms(2) by (simp add: leaves_def)
  have left: "do { s \<leftarrow> shown ds s1; s \<leftarrow> release_console s; Some (Returned q, s) } = map_option (\<lambda>s. (Returned q, s)) (shown ds s)"
    for ds q using leave_shown[OF assms(2), of ds, symmetric] by (simp add: map_option_bind comp_def map_conv_bind_option)
  from assms(1) show ?thesis
  proof cases
    case (1 lit m0 format args m)
    have "keeps m0 vprintf_helper cs (0, s1) m" using 1(4) output_helper[OF l] by (auto simp: keeps_def)
    from vprintf_core_text[OF 1(3) this]
    have "console_rest c s1 = do { s \<leftarrow> shown cs s1; s \<leftarrow> release_console s; Some (Returned (of_nat (length cs)), s) }"
      using 1(1) output_helper[OF l, of cs 0 m] by (cases "shown cs s1") (simp_all add: vprintf_rest_def)
    then show ?thesis using left[of cs "of_nat (length cs)"] 1(2) by simp
  next
    case (2 m a ds)
    have "do { s \<leftarrow> puts_loop a m s1; putchar_have_lock 10 s } = shown (ds @ [10]) s1"
      using puts_loop_eq[OF l 2(4)] locked_shown[of ds s1] putchar_have_lock_eq l
      by (cases "shown ds s1") (simp_all add: shown_append)
    then have "console_rest c s1 = do { s \<leftarrow> shown (ds @ [10]) s1; s \<leftarrow> release_console s; Some (Returned 0, s) }"
      unfolding 2(1) console_rest.simps puts_rest_def by (simp flip: bind_assoc)
    then show ?thesis using left[of "ds @ [10]" 0] 2(2,3) by simp
  next
    case (3 m a n)
    then show ?thesis using putbuf_loop_eq[OF l 3(3,4)] left[of cs 0] by (simp add: putbuf_rest_def)
  next
    case 4
    then show ?thesis using putchar_have_lock_eq[OF l] left[of "[ucast r]" r] by (simp add: putchar_rest_def)
  qed
qed

text \<open>When the console can be entered at once: without its lock, with the lock held already, or with a free lock.\<close>

definition console_ready :: "console \<Rightarrow> bool" where
  "console_ready s \<longleftrightarrow> interrupts_context (kern s) \<or> \<not> use_console_lock s \<or>
     lock_held_by_current_thread (console_lock s) (kern s) = Some True \<and>
       0 \<le> sint (console_lock_depth s) \<and> sint (console_lock_depth s) < 2 ^ 31 - 1 \<or>
     (\<exists>L cur rs ts W. sched (kern s) L cur rs ts W \<and> lock_free (kern s) L (console_lock s)) \<and> console_lock_depth s = 0"

lemma ready_enters: "console_ready s \<Longrightarrow> \<exists>s1. enters s s1"
  unfolding console_ready_def using enters_unlocked enters_nested enters_free by blast

lemma with_console_shown:
  assumes "console_ready s" "prints c cs r"
  shows "with_console c s = map_option (\<lambda>s. (Returned r, s)) (shown cs s)"
proof -
  obtain s1 where "acquire_console s = Some (Done 0, s1)" "leaves s1 s"
    using ready_enters[OF assms(1)] by (auto simp: enters_def)
  then show ?thesis using rest_shown[OF assms(2)] by (simp add: with_console_def)
qed

lemma shown_ok:
  assumes "video_ok (scr s) p f i j"
  obtains v where "show_text cs (scr s) = Some v" "shown cs s = Some (s\<lparr>scr := v, write_cnt := write_cnt s + of_nat (length cs)\<rparr>)"
  using show_text_ok[OF assms, of cs] by (auto simp: shown_def)

section \<open>A concrete console\<close>

text \<open>The running thread holds the lock of the console; and another thread holds it.\<close>

definition ex_console :: "kernel \<Rightarrow> console" where
  "ex_console k = \<lparr>kern = k, scr = ex_video, console_lock = 0x9100, use_console_lock = True, console_lock_depth = 0, write_cnt = 7\<rparr>"

section \<open>Properties\<close>

text \<open>C23: \<open>vprintf\<close>, \<open>puts\<close>, \<open>putbuf\<close> and \<open>putchar\<close> put exactly their text on the screen, count its
  characters and leave everything else as it was, the lock of the console included: whether it
  was free, not in use yet, or held already by the running thread, so that calls may be nested.\<close>

theorem console_prints:
  assumes "console_ready s" "video_ok (scr s) p f i j"
    "printed lit m0 format args = Some text" "m0 \<subseteq>\<^sub>m m" "cstr m a str" "bytes_at m buf bs" "length bs = unat n"
  shows "\<forall>(r, cs, res) \<in> {(of_nat (length text), text, vprintf lit format args m s), (0, str @ [10], puts a m s),
       (0, bs, putbuf buf n m s), (c, [ucast c], putchar c s)}.
     \<exists>v. show_text cs (scr s) = Some v \<and>
       res = Some (Returned r, s\<lparr>scr := v, write_cnt := write_cnt s + of_nat (length cs)\<rparr>)"
proof -
  have go: "\<exists>v. show_text cs (scr s) = Some v \<and>
       with_console d s = Some (Returned r, s\<lparr>scr := v, write_cnt := write_cnt s + of_nat (length cs)\<rparr>)"
    if "prints d cs r" for d cs r
  proof -
    obtain v where "show_text cs (scr s) = Some v" "shown cs s = Some (s\<lparr>scr := v, write_cnt := write_cnt s + of_nat (length cs)\<rparr>)"
      by (rule shown_ok[OF assms(2)])
    then show ?thesis using with_console_shown[OF assms(1) that] by simp
  qed
  show ?thesis
    using go[OF prints.intros(1)[OF assms(3,4)]] go[OF prints.intros(2)[OF assms(5)]] go[OF prints.intros(3)[OF assms(6,7)]]
      go[OF prints.intros(4)]
    by (simp add: vprintf_def puts_def putbuf_def putchar_def)
qed

theorem console_prints_witness:
  "\<exists>v w. vprintf (\<lambda>_. 0) 0x1000 [Arg32 (- 42)] ex_format (ex_console ex_kernel) =
       Some (Returned 3, (ex_console ex_kernel)\<lparr>scr := v, write_cnt := 10\<rparr>) \<and>
     putchar 65 (ex_console ex_kernel) = Some (Returned 65, (ex_console ex_kernel)\<lparr>scr := w, write_cnt := 8\<rparr>)"
proof -
  have r: "console_ready (ex_console ex_kernel)"
    using thread_current_sched[OF ex_sched]
    by (simp add: console_ready_def ex_console_def lock_held_by_current_thread_def word_at_def ex_fields)
  have v: "video_ok (scr (ex_console ex_kernel)) 0x100000 (\<lambda>_. 0) 0 29" using ex_video_ok by (simp add: ex_console_def)
  have t: "printed (\<lambda>_. 0) ex_format 0x1000 [Arg32 (- 42)] = Some [45, 52, 50]"
    using printed_decimal[OF ex_format(1), of "\<lambda>_. 0" "- 42"] by (simp add: ex_decimal)
  have b: "bytes_at ex_format 0x1000 []" "length [] = unat (0 :: size_t)" by simp_all
  from console_prints[OF r v t map_le_refl ex_format(1) b, of 65] show ?thesis by (auto simp: ex_console_def)
qed

text \<open>C24: while another thread holds the lock, an output function goes to sleep and the screen and the
  count stay as they are; when the thread runs again and finds the lock free, the rest of the
  function shows the whole text at once and leaves the lock free.\<close>

theorem console_waits_for_lock:
  assumes "sched (kern s) L cur rs ts W" "rs \<noteq> [] \<or> idle_thread (kern s) \<noteq> NULL" "cur \<noteq> idle_thread (kern s)"
    "l \<noteq> NULL" "semaphore_of l \<noteq> NULL" "words (kern s) l = Some holder" "holder \<noteq> cur" "words (kern s) (semaphore_of l) = Some 0"
    "waiters_of (semaphore_of l) \<in> W" "L (waiters_of (semaphore_of l)) = Some (map elem_of bs)"
    "console_lock s = l" "use_console_lock s" "prints c cs r"
  shows "\<exists>k' fs. with_console c s = Some (Waiting fs c, s\<lparr>kern := k'\<rparr>) \<and> status_of k' cur = Some THREAD_BLOCKED \<and>
     (\<forall>s2 L2 rs2 ts2 W2. sched (kern s2) L2 cur rs2 ts2 W2 \<longrightarrow> lock_free (kern s2) L2 l \<longrightarrow> console_lock s2 = l \<longrightarrow>
        use_console_lock s2 \<longrightarrow> console_lock_depth s2 = 0 \<longrightarrow>
        (\<exists>k3 k4. resume fs 0 (kern s2) = Some (Done 0, k3) \<and> lock_free k4 L2 l \<and> sched k4 L2 cur rs2 ts2 W2 \<and>
           console_rest c (s2\<lparr>kern := k3\<rparr>) = map_option (\<lambda>s. (Returned r, s)) (shown cs (s2\<lparr>kern := k4\<rparr>))))"
proof -
  let ?lvl = "interrupts_get_level (kern s)"
  let ?fs = "[Sema_down_loop (semaphore_of l) ?lvl, Lock_acquire_tail l]"
  obtain k' where k': "sema_down (semaphore_of l) (kern s) = Some (Switched [Sema_down_loop (semaphore_of l) ?lvl], k')"
    "status_of k' cur = Some THREAD_BLOCKED"
    using sema_down_sleeps[OF assms(1,2,3,5,8,9,10) refl] by blast
  have "lock_acquire l (kern s) = Some (Switched ?fs, k')"
    using lock_acquire_sleeps[OF assms(1,4,6,7) k'(1)] by simp
  moreover have "\<not> interrupts_context (kern s)" using assms(1) by (simp add: sched_def sched_core_def interrupts_context_def)
  moreover have "lock_held_by_current_thread l (kern s) = Some False"
    using thread_current_sched[OF assms(1)] assms(4,6,7) by (simp add: lock_held_by_current_thread_def word_at_def)
  ultimately have "with_console c s = Some (Waiting ?fs c, s\<lparr>kern := k'\<rparr>)"
    using assms(11,12) by (simp add: with_console_def acquire_console_def)
  moreover have "\<exists>k3 k4. resume ?fs 0 (kern s2) = Some (Done 0, k3) \<and> lock_free k4 L2 l \<and> sched k4 L2 cur rs2 ts2 W2 \<and>
       console_rest c (s2\<lparr>kern := k3\<rparr>) = map_option (\<lambda>s. (Returned r, s)) (shown cs (s2\<lparr>kern := k4\<rparr>))"
    if s2: "sched (kern s2) L2 cur rs2 ts2 W2" "lock_free (kern s2) L2 l" "console_lock s2 = l"
      "use_console_lock s2" "console_lock_depth s2 = 0" for s2 L2 rs2 ts2 W2
  proof -
    let ?k = "set_level ?lvl (kern s2)"
    have f: "lock_free ?k L2 l" "sched ?k L2 cur rs2 ts2 W2" using s2(1,2) by (simp_all add: lock_free_def)
    have "resume ?fs 0 (kern s2) = Some (Done 0, hold l cur ?k)"
      using resume_lock_acquire[OF s2(1), of l NULL 1 ?lvl 0] s2(2) set_level_eq[of ?lvl "kern s2"]
      by (simp add: lock_free_def hold_def del: resume.simps)
    moreover have "leaves (s2\<lparr>kern := hold l cur ?k\<rparr>) (s2\<lparr>kern := ?k\<rparr>)"
      using leaves_hold[OF f(2), of s2] f(1) s2(3-5) by simp
    ultimately show ?thesis using f rest_shown[OF assms(13)] by blast
  qed
  ultimately show ?thesis using k'(2) by blast
qed

theorem console_waits_for_lock_witness:
  "\<exists>k fs. putchar 65 (ex_console ex_kernel_other) = Some (Waiting fs (Putchar_rest 65), (ex_console ex_kernel_other)\<lparr>kern := k\<rparr>) \<and>
     status_of k 0x41000 = Some THREAD_BLOCKED"
proof -
  have c: "kern (ex_console ex_kernel_other) = ex_kernel_other" "console_lock (ex_console ex_kernel_other) = 0x9100"
    "use_console_lock (ex_console ex_kernel_other)" by (simp_all add: ex_console_def)
  have w: "waiters_of (semaphore_of 0x9100) \<in> {0x9108}"
    "ex_family (waiters_of (semaphore_of 0x9100)) = Some (map elem_of [0x44000])"
    by (simp_all add: waiters_of_def semaphore_of_def ex_family_def elem_of_def)
  have l: "(0x9100 :: addr) \<noteq> NULL" "semaphore_of 0x9100 \<noteq> NULL" "(0x42000 :: addr) \<noteq> 0x41000"
    "words ex_kernel_other (semaphore_of 0x9100) = Some 0" using ex_other(4) by (simp_all add: semaphore_of_def)
  have i: "[0x42000] \<noteq> [] \<or> idle_thread ex_kernel_other \<noteq> NULL" "0x41000 \<noteq> idle_thread ex_kernel_other"
    using ex_other(2) by simp_all
  from console_waits_for_lock[where s = "ex_console ex_kernel_other", unfolded c(1),
      OF ex_other(1) i l(1,2) ex_other(3) l(3,4) w c(2,3) prints.intros(4)[of 65]]
  show ?thesis unfolding putchar_def by blast
qed

end
