(* ===== verification/Kernel_Timer.thy ===== *)
theory Kernel_Timer
  imports Kernel_Prelude "HOL-Library.Word"
begin

unbundle bit_operations_syntax

text \<open>
  The system timer: the registers of devices/timer.c and what the driver does to them.  The
  timer itself is hardware: \<open>clock n\<close> is the value of the counter \<open>CLO\<close> at the n-th reading, and
  \<open>write_CS old new\<close> the value of the control register after \<open>new\<close> is written over \<open>old\<close>.
  The registers \<open>CHI\<close>, \<open>C0\<close> and \<open>C2\<close> are never accessed; \<open>readings\<close> counts the readings of \<open>CLO\<close>.
\<close>

section \<open>Registers\<close>

record bcm2835_system_timer_registers =
  CS :: "32 word"
  C1 :: "32 word"
  C3 :: "32 word"
  readings :: nat

definition TIMER_PERIODIC_INTERVAL :: "32 word" where
  "TIMER_PERIODIC_INTERVAL = 500000"

section \<open>Operations\<close>

definition timer_get_timestamp ::
  "(nat \<Rightarrow> 32 word) \<Rightarrow> bcm2835_system_timer_registers \<Rightarrow> 32 word \<times> bcm2835_system_timer_registers" where
  "timer_get_timestamp clock d = (clock (readings d), d\<lparr>readings := readings d + 1\<rparr>)"

partial_function (option) timer_msleep_loop ::
  "(nat \<Rightarrow> 32 word) \<Rightarrow> 32 word \<Rightarrow> 32 word \<Rightarrow> 32 word \<Rightarrow> bcm2835_system_timer_registers \<Rightarrow>
   bcm2835_system_timer_registers option" where
  "timer_msleep_loop clock milliseconds startTime elapseTime d =
     (if sint milliseconds > sint elapseTime then
        (let (now, d) = timer_get_timestamp clock d
         in timer_msleep_loop clock milliseconds startTime (now - startTime) d)
      else Some d)"

definition timer_msleep ::
  "(nat \<Rightarrow> 32 word) \<Rightarrow> 32 word \<Rightarrow> bcm2835_system_timer_registers \<Rightarrow> bcm2835_system_timer_registers option" where
  "timer_msleep clock milliseconds d =
     (let (startTime, d) = timer_get_timestamp clock d;
          (now, d) = timer_get_timestamp clock d
      in timer_msleep_loop clock milliseconds startTime (now - startTime) d)"

definition timer_reset_timer_compare ::
  "(32 word \<Rightarrow> 32 word \<Rightarrow> 32 word) \<Rightarrow> 32 word \<Rightarrow> bcm2835_system_timer_registers \<Rightarrow> bcm2835_system_timer_registers" where
  "timer_reset_timer_compare write_CS timer_compare d =
     (if sint timer_compare > 3 \<or> sint timer_compare < 0 then d
      else d\<lparr>CS := write_CS (CS d) (CS d OR push_bit (unat timer_compare) 1)\<rparr>)"

definition timer_set_interval ::
  "(nat \<Rightarrow> 32 word) \<Rightarrow> 32 word \<Rightarrow> 32 word \<Rightarrow> bcm2835_system_timer_registers \<Rightarrow> bcm2835_system_timer_registers" where
  "timer_set_interval clock timer_compare milliseconds d =
     (let (now, d) = timer_get_timestamp clock d;
          interval = now + milliseconds
      in if timer_compare = 1 then d\<lparr>C1 := interval\<rparr>
         else if timer_compare = 3 then d\<lparr>C3 := interval\<rparr>
         else d)"

text \<open>What the interrupt handler does to the timer, before and after \<open>thread_tick\<close>.\<close>

definition timer_handler_registers ::
  "(nat \<Rightarrow> 32 word) \<Rightarrow> (32 word \<Rightarrow> 32 word \<Rightarrow> 32 word) \<Rightarrow> bcm2835_system_timer_registers \<Rightarrow>
   bcm2835_system_timer_registers option" where
  "timer_handler_registers clock write_CS d = do {
     let d = timer_reset_timer_compare write_CS 1 d;
     d \<leftarrow> timer_msleep clock 300000 d;
     Some (timer_set_interval clock 1 TIMER_PERIODIC_INTERVAL d) }"

declare timer_msleep_loop.simps [code]

section \<open>Sleeping\<close>

text \<open>A counter that advances by at most \<open>s\<close> from one reading to the next, and wraps around.\<close>

definition ticking :: "(nat \<Rightarrow> 32 word) \<Rightarrow> nat \<Rightarrow> bool" where
  "ticking clock s \<longleftrightarrow> (\<forall>i. 0 < unat (clock (i + 1) - clock i) \<and> unat (clock (i + 1) - clock i) \<le> s)"

definition passed :: "(nat \<Rightarrow> 32 word) \<Rightarrow> nat \<Rightarrow> nat \<Rightarrow> nat" where
  "passed clock r n = (\<Sum>i = r..<r + n. unat (clock (i + 1) - clock i))"

lemma passed_Suc: "passed clock r (Suc n) = passed clock r n + unat (clock (r + n + 1) - clock (r + n))"
  by (simp add: passed_def)

lemma passed_clock: "clock (r + n) - clock r = of_nat (passed clock r n)"
  by (induction n) (simp_all add: passed_Suc passed_def[of _ _ 0] algebra_simps)

lemma passed_grows: "ticking clock s \<Longrightarrow> n \<le> passed clock r n"
proof (induction n)
  case (Suc n)
  moreover have "0 < unat (clock (r + n + 1) - clock (r + n))" using Suc.prems by (simp add: ticking_def)
  ultimately show ?case unfolding passed_Suc by simp
qed simp

lemma sint_passed: "passed clock r n < 2 ^ 31 \<Longrightarrow> sint (clock (r + n) - clock r) = int (passed clock r n)"
  unfolding passed_clock by (simp add: signed_of_nat signed_take_bit_int_eq_self)

lemma msleep_loop_returns:
  assumes "\<And>i. i < n \<Longrightarrow> passed clock r i < m" "m \<le> passed clock r n" "passed clock r n < 2 ^ 31" "sint ms = int m" "j \<le> n"
  shows "timer_msleep_loop clock ms (clock r) (clock (r + j) - clock r) (d\<lparr>readings := r + j + 1\<rparr>) = Some (d\<lparr>readings := r + n + 1\<rparr>)"
  using assms(5)
proof (induction "n - j" arbitrary: j)
  case 0
  then have "j = n" by simp
  then show ?case using assms(2,4) sint_passed[OF assms(3)] by (subst timer_msleep_loop.simps) simp
next
  case (Suc x)
  then have j: "j < n" by simp
  have "passed clock r j < m" by (rule assms(1)[OF j])
  then have "sint (clock (r + j) - clock r) < sint ms"
    using sint_passed[of clock r j] assms(2-4) by simp
  moreover have "timer_msleep_loop clock ms (clock r) (clock (r + Suc j) - clock r) (d\<lparr>readings := r + Suc j + 1\<rparr>) =
      Some (d\<lparr>readings := r + n + 1\<rparr>)"
    by (rule Suc.hyps(1)) (use Suc.hyps(2) j in simp_all)
  ultimately show ?case by (subst timer_msleep_loop.simps) (simp add: timer_get_timestamp_def)
qed

end
