(* ===== verification/Kernel_Timer_Spec.thy ===== *)
theory Kernel_Timer_Spec
  imports Kernel_Timer
begin

text \<open>The properties of the timer driver.\<close>

text \<open>
  Writing to the control register clears the bits that are written as 1, as the comment in
  devices/timer.c says.  Since the driver writes the old value of the register back together with the bit of
  its own comparator, it clears the matches of all comparators.
\<close>

lemma timer_reset_clears_all:
  assumes "\<forall>old new. write_CS old new = old AND NOT new" "0 \<le> sint timer_compare" "sint timer_compare \<le> 3"
  shows "CS (timer_reset_timer_compare write_CS timer_compare d) = 0"
proof -
  have "x AND NOT (x OR y) = 0" for x y :: "32 word" by (rule bit_eqI) (simp add: bit_simps)
  then show ?thesis using assms by (simp add: timer_reset_timer_compare_def)
qed

section \<open>Properties\<close>



end
