(* ===== verification/Spec2Isabelle.thy ===== *)
theory Spec2Isabelle
  imports Kernel_List_Spec Kernel_Bitmap_Spec Kernel_Interrupt_Spec Kernel_String_Spec Kernel_Stdlib_Spec Kernel_Stdio_Spec
  Kernel_Malloc_Spec Kernel_Hash_Spec Kernel_Console_Spec Kernel_Timer_Spec
begin

text \<open>
  A verification development for osOs, a small operating system kernel for the Raspberry Pi
  (src/src): a preemptive scheduler with semaphores, locks and condition variables on an ARM
  processor, a page allocator, an interrupt system with a periodic timer, and the library
  these parts are built on.

  \<^bold>\<open>Conventions.\<close>  The target has 32-bit words: pointers, \<open>size_t\<close>, \<open>int\<close> and \<open>unsigned\<close> are
  words with the arithmetic of the machine.  An operation that may stop the kernel has a
  result of type \<open>option\<close>: \<open>None\<close> stands for a failed assertion, an access to a null pointer or
  to memory that is not there, an index out of bounds, and for a loop that never ends.  A
  theorem that a call is \<open>Some\<close> of something therefore includes termination and the absence of
  all these errors.  Loops are recursive functions with the name of their function and the
  suffix \<open>_loop\<close>; where a loop may run forever it is a \<open>partial_function\<close>, so that no fuel is
  needed.  Theories with the suffix \<open>_Rep\<close> relate memory to abstract values and hold the
  lemmas, theories with the suffix \<open>_Spec\<close> the properties with an example for each.

  \<^bold>\<open>Lists\<close> (lib/kernel/list.c).  Kernel_List and Kernel_List_Sort translate all operations on a
  store of list elements; Kernel_List_Rep and Kernel_List_Sort_Correct relate a well-formed
  list in the store to the list of its elements (predicate \<open>dlist\<close>; locale \<open>kernel_queue\<close> is the
  contract of the lists for their clients); Kernel_List_Spec has the properties.
  Kernel_List_Family treats several lists in one store.

  \<^bold>\<open>Bitmaps\<close> (lib/kernel/bitmap.c): Kernel_Bitmap, Kernel_Bitmap_Rep, Kernel_Bitmap_Spec.

  \<^bold>\<open>Kernel state\<close> (threads/): Kernel_State has the record \<open>kernel\<close> with the list store, the
  threads, the words of semaphores and locks, the processor registers and the static
  variables.  Kernel_Pool and Kernel_Create model threads/palloc.c, Kernel_Thread and
  Kernel_Create threads/thread.c with the context switch of arm_asm/contextSwitch.s,
  Kernel_Synch threads/synch.c, Kernel_Interrupt threads/interrupt.c, the entry of an interrupt
  in arm_asm/interruptsHandlers.s and the handler of devices/timer.c.  A call that switches to
  another thread returns \<open>Switched fs\<close>, where \<open>fs\<close> lists the code that the old thread has still
  to run; Kernel_Machine says what that code does when the thread runs again.
  Kernel_Thread_Rep, Kernel_Sched_Rep, Kernel_Pool_Rep, Kernel_Exit_Rep and Kernel_Interrupt_Rep
  hold the invariant of the scheduler and the lemmas, Kernel_Sched_Spec and Kernel_Interrupt_Spec
  the properties: sleeping and waking, mutual exclusion, round robin, the end of a thread,
  preemption by the timer.

  \<^bold>\<open>Memory and strings\<close> (lib/string.c, lib/ctype.h): Kernel_String, Kernel_String_Rep,
  Kernel_String_Spec, on a map from addresses to bytes.

  \<^bold>\<open>Sorting, searching, numbers, random numbers\<close> (lib/stdlib.c, lib/random.c): Kernel_Stdlib.
  Kernel_Heap_Sort proves the heap sort on lists for any comparison function of a total
  preorder (locale \<open>preorder_cmp\<close>), Kernel_Stdlib_Rep that the code on memory computes it for
  any comparison function that reads such a preorder from memory (locale \<open>memory_cmp\<close>),
  Kernel_Number_Rep treats decimal numbers and the permutation of the generator,
  Kernel_Stdlib_Spec has the properties.

  \<^bold>\<open>Formatted output\<close> (lib/stdio.c): Kernel_Stdio; Kernel_Stdio_Rep computes the text of an
  integer, Kernel_Stdio_Text shows that the text of a format does not depend on the output
  function, Kernel_Stdio_Spec has the properties.

  \<^bold>\<open>Block allocator\<close> (threads/malloc.c): Kernel_Malloc translates descriptors, arenas, \<open>malloc\<close>,
  \<open>calloc\<close>, \<open>realloc\<close> and \<open>free\<close>; Kernel_Page_Rep treats the pages under it.  The predicate
  \<open>allocator\<close> of Kernel_Malloc_Rep and Kernel_Malloc_Heap relates the memory to the free lists \<open>xs\<close>
  of the seven descriptors and the map \<open>A\<close> of arenas, and \<open>in_use xs A\<close> are the blocks that the
  clients hold.  Kernel_Malloc_Init, _Take, _Free and _Realloc show what each operation does to
  it, Kernel_Malloc_Client is the contract for clients (locale \<open>block_allocator\<close>),
  Kernel_Malloc_Spec has the properties.  A request of up to 2 to the 32 minus 4108 bytes is in
  the scope of the theorems, so that rounding up to pages does not wrap around.
  Kernel_Malloc_Lists lets clients keep lists in their blocks, Kernel_Places shows that no
  operation moves the lists of the scheduler.

  \<^bold>\<open>Hash tables\<close> (lib/kernel/hash.c): Kernel_Hash, and Kernel_Hash_Function for the sample hash
  functions.  Locale \<open>hash_client\<close> (Kernel_Hash_Rep) states what the hash and comparison functions
  of a client must do; \<open>hash_inv\<close> (Kernel_Hash_Table) relates the buckets, lists in a block of the
  block allocator, to the set \<open>S\<close> of elements in the table and the set \<open>F\<close> of elements that the
  client holds.  A table and its client have fewer than 2 to the 26 elements, which fits the
  kernel pool.  Kernel_Hash_Rehash treats the change of the number of buckets, Kernel_Hash_Dict
  that the operations are those of a map (locale \<open>dictionary\<close>), Kernel_Hash_Init and
  Kernel_Hash_Clear the life cycle and the iteration; Kernel_Hash_Spec has the properties and a
  client with integer keys.

  \<^bold>\<open>Screen\<close> (devices/video.c, arm_asm/drawing.s, arm_asm/memoryCopy.s): Kernel_Video translates the
  output of characters down to the points of the frame buffer, Kernel_Video_Rep relates the
  frame buffer to a picture, Kernel_Video_Spec has the properties.

  \<^bold>\<open>Console\<close> (lib/kernel/console.c): Kernel_Console joins the kernel, the screen and the variables of
  the console in one state.  An output function that has to wait for the lock of the console
  returns \<open>Waiting fs c\<close>: \<open>fs\<close> is the pending code of \<open>lock_acquire\<close> and \<open>c\<close> the rest of the function
  itself.  Kernel_Console_Spec has the properties.

  \<^bold>\<open>Timer\<close> (devices/timer.c): Kernel_Timer has the registers and the busy waiting; the counter is a
  parameter, a sequence of readings.  Kernel_Timer_Spec shows when \<open>timer_msleep\<close> returns.

  \<^bold>\<open>Not modelled\<close>: the other device registers, the set-up of the frame buffer and the assembly
  start-up code, which are hardware input and output; the test tasks of threads/init.c;
  \<open>bitmap_create\<close> and \<open>bitmap_destroy\<close>; and functions that only print.
\<close>

end
